(* ===== verification/Prelude.thy ===== *)
theory Prelude
  imports Main "HOL-Library.Word" "HOL-Library.AList"
begin

section \<open>Prelude: machine integers, octets, results and tables\<close>

text \<open>
  What every component of the model shares: the names of the Rust integer types, the
  big-endian octet conversions of the wire format, the arithmetic that Rust saturates or
  truncates, the result type of a method that takes \<^verbatim>\<open>&mut self\<close> and returns
  \<^verbatim>\<open>Result\<close>, and facts about association lists, which model \<^verbatim>\<open>HashMap\<close>.
\<close>

unbundle bit_operations_syntax

type_synonym u8 = "8 word"
type_synonym u16 = "16 word"
type_synonym u32 = "32 word"
type_synonym u64 = "64 word"

text \<open>An octet string: \<^verbatim>\<open>Bytes\<close>, \<^verbatim>\<open>BytesMut\<close>, \<^verbatim>\<open>&[u8]\<close> and \<^verbatim>\<open>Vec<u8>\<close> alike.\<close>

type_synonym octets = "u8 list"

text \<open>
  An \<^verbatim>\<open>Instant\<close> is a number of nanoseconds since some origin and a \<^verbatim>\<open>Duration\<close> a number of
  nanoseconds, so that \<^verbatim>\<open>saturating_duration_since\<close> is subtraction of natural numbers. The
  overflow panics of their addition, centuries away, are not modelled.
\<close>

type_synonym instant = nat
type_synonym duration = nat

definition from_secs :: "nat \<Rightarrow> duration" where
  "from_secs n = n * 1000000000"

text \<open>Simplification rules for the word-level part of the wire format, and the rules that turn
  a component's operations into what they do to its state.\<close>

named_theorems wire_simps \<open>octet conversions\<close>
named_theorems step_simps \<open>what an operation does to the state, branch by branch\<close>

subsection \<open>Bounds of the integer types\<close>

abbreviation u32_max :: nat where "u32_max \<equiv> 4294967295"
abbreviation u64_max :: nat where "u64_max \<equiv> 18446744073709551615"
abbreviation i32_max :: int where "i32_max \<equiv> 2147483647"
abbreviation i32_min :: int where "i32_min \<equiv> - 2147483648"

text \<open>\<^verbatim>\<open>as i32\<close> of a wider integer keeps the low 32 bits, read as two's complement.\<close>

definition as_i32 :: "int \<Rightarrow> int" where
  "as_i32 x = (x + 2147483648) mod 4294967296 - 2147483648"

definition in_i32 :: "int \<Rightarrow> bool" where
  "in_i32 x \<longleftrightarrow> i32_min \<le> x \<and> x \<le> i32_max"

lemma as_i32_id [simp]: "in_i32 x \<Longrightarrow> as_i32 x = x"
  by (simp add: as_i32_def in_i32_def)

lemma in_i32_as_i32 [simp, intro]: "in_i32 (as_i32 x)"
proof -
  have "0 \<le> (x + 2147483648) mod 4294967296" "(x + 2147483648) mod 4294967296 < 4294967296"
    by simp_all
  then show ?thesis by (simp add: as_i32_def in_i32_def)
qed

text \<open>\<^verbatim>\<open>u32::saturating_add\<close>.\<close>

definition sat_add_u32 :: "nat \<Rightarrow> nat \<Rightarrow> nat" where
  "sat_add_u32 a b = min (a + b) u32_max"

lemma sat_add_u32_le [simp]: "sat_add_u32 a b \<le> u32_max"
  by (simp add: sat_add_u32_def)

lemma sat_add_u32_exact: "a + b \<le> u32_max \<Longrightarrow> sat_add_u32 a b = a + b"
  by (simp add: sat_add_u32_def)

text \<open>\<^verbatim>\<open>i32::saturating_add\<close>.\<close>

definition sat_add_i32 :: "int \<Rightarrow> int \<Rightarrow> int" where
  "sat_add_i32 a b = max i32_min (min i32_max (a + b))"

lemma in_i32_sat_add_i32 [simp, intro]: "in_i32 (sat_add_i32 a b)"
  by (simp add: sat_add_i32_def in_i32_def)

subsection \<open>Big-endian octets\<close>

definition u16_of_be :: "u8 \<Rightarrow> u8 \<Rightarrow> u16" where
  "u16_of_be a b = push_bit 8 (ucast a) OR ucast b"

definition u32_of_be :: "u8 \<Rightarrow> u8 \<Rightarrow> u8 \<Rightarrow> u8 \<Rightarrow> u32" where
  "u32_of_be a b c d =
     push_bit 24 (ucast a) OR push_bit 16 (ucast b) OR push_bit 8 (ucast c) OR ucast d"

definition be_of_u16 :: "u16 \<Rightarrow> octets" where
  "be_of_u16 w = [ucast (drop_bit 8 w), ucast w]"

definition be_of_u32 :: "u32 \<Rightarrow> octets" where
  "be_of_u32 w = [ucast (drop_bit 24 w), ucast (drop_bit 16 w), ucast (drop_bit 8 w), ucast w]"

lemma length_be_of_u16 [simp]: "length (be_of_u16 w) = 2"
  by (simp add: be_of_u16_def)

lemma length_be_of_u32 [simp]: "length (be_of_u32 w) = 4"
  by (simp add: be_of_u32_def)

lemma u32_of_be_of_u32 [wire_simps]:
  "u32_of_be (ucast (drop_bit 24 w)) (ucast (drop_bit 16 w)) (ucast (drop_bit 8 w)) (ucast w) = w"
  unfolding u32_of_be_def
proof (rule bit_word_eqI)
  fix n assume "n < LENGTH(32)"
  then show "bit (push_bit 24 (ucast (ucast (drop_bit 24 w) :: u8)) OR
      push_bit 16 (ucast (ucast (drop_bit 16 w) :: u8)) OR
      push_bit 8 (ucast (ucast (drop_bit 8 w) :: u8)) OR ucast (ucast w :: u8) :: u32) n = bit w n"
    by (cases "n < 8"; cases "n < 16"; cases "n < 24")
      (auto simp: bit_simps dest: bit_imp_le_length)
qed

lemma u16_of_be_of_u16 [wire_simps]: "u16_of_be (ucast (drop_bit 8 w)) (ucast w) = w"
  unfolding u16_of_be_def
  by (rule bit_word_eqI) (auto simp: bit_simps)

text \<open>The largest value three octets express: the frame length field.\<close>

lemma u32_of_be_0_of_u32 [wire_simps]:
  assumes "drop_bit 24 w = 0"
  shows "u32_of_be 0 (ucast (drop_bit 16 w)) (ucast (drop_bit 8 w)) (ucast w) = w"
proof -
  have "ucast (drop_bit 24 w) = (0 :: u8)" using assms by simp
  then show ?thesis using u32_of_be_of_u32 [of w] by simp
qed

lemma drop_bit_24_of_nat:
  assumes "n < 2 ^ 24"
  shows "drop_bit 24 (word_of_nat n :: u32) = 0"
proof -
  have "n < 2 ^ LENGTH(32)" using assms by simp
  then have "unat (word_of_nat n :: u32) = n" by (simp add: unat_of_nat take_bit_nat_eq_self)
  moreover have "unat (drop_bit 24 (word_of_nat n :: u32)) = unat (word_of_nat n :: u32) div 2 ^ 24"
    by (subst unat_drop_bit_eq) (rule drop_bit_eq_div)
  ultimately have "unat (drop_bit 24 (word_of_nat n :: u32)) = 0" using assms by simp
  then show ?thesis by (simp add: unat_eq_0)
qed

lemma unat_u32_of_nat: "n \<le> u32_max \<Longrightarrow> unat (word_of_nat n :: u32) = n"
  by (simp add: unat_of_nat take_bit_nat_eq_self)

subsection \<open>Results of methods on mutable state\<close>

text \<open>
  A method that takes \<^verbatim>\<open>&mut self\<close> and returns \<^verbatim>\<open>Result<A, E>\<close> is a function to
  \<^typ>\<open>('e + 'a) \<times> 's\<close>: the state is returned on both branches, because an early return
  leaves whatever had been written before it. \<open>and_then\<close> is the \<^verbatim>\<open>?\<close> operator.
\<close>

type_synonym ('s, 'e, 'a) outcome = "('e + 'a) \<times> 's"

definition and_then ::
    "('s, 'e, 'a) outcome \<Rightarrow> ('a \<Rightarrow> 's \<Rightarrow> ('s, 'e, 'b) outcome) \<Rightarrow> ('s, 'e, 'b) outcome" where
  "and_then r k = (case r of (Inl e, s) \<Rightarrow> (Inl e, s) | (Inr a, s) \<Rightarrow> k a s)"

lemma and_then_simps [simp]:
  "and_then (Inl e, s) k = (Inl e, s)"
  "and_then (Inr a, s) k = k a s"
  by (simp_all add: and_then_def)

lemma and_then_Inr:
  assumes "and_then r k = (Inr b, t)"
  obtains a s where "r = (Inr a, s)" "k a s = (Inr b, t)"
  using assms by (cases r; cases "fst r") (auto simp: and_then_def)

lemma and_then_cases:
  assumes "and_then r k = (x, t)"
  obtains (error) e where "r = (Inl e, t)" "x = Inl e"
  | (ok) a s where "r = (Inr a, s)" "k a s = (x, t)"
  using assms by (cases r; cases "fst r") (auto simp: and_then_def)

definition is_ok :: "'e + 'a \<Rightarrow> bool" where
  "is_ok r = (case r of Inl _ \<Rightarrow> False | Inr _ \<Rightarrow> True)"

lemma is_ok_simps [simp]: "is_ok (Inl e) = False" "is_ok (Inr a) = True"
  by (simp_all add: is_ok_def)

subsection \<open>Tables with distinct keys\<close>

text \<open>
  A \<^verbatim>\<open>HashMap\<close> is an association list with distinct keys. Rust leaves the order of its iteration
  unspecified: where the order of a walk can be seen from outside, the walk is along an arbitrary
  ranking of the keys (\<open>u_hash\<close> of \<^verbatim>\<open>Upstream_State\<close>), and elsewhere nothing stated depends on it.
\<close>

definition distinct_keys :: "('k \<times> 'v) list \<Rightarrow> bool" where
  "distinct_keys al \<longleftrightarrow> distinct (map fst al)"

definition has_key :: "('k \<times> 'v) list \<Rightarrow> 'k \<Rightarrow> bool" where
  "has_key al k \<longleftrightarrow> map_of al k \<noteq> None"

lemma distinct_keys_Nil [simp]: "distinct_keys []"
  by (simp add: distinct_keys_def)

lemma distinct_keys_update [simp]: "distinct_keys al \<Longrightarrow> distinct_keys (AList.update k v al)"
  by (simp add: distinct_keys_def distinct_update)

lemma distinct_keys_delete [simp]: "distinct_keys al \<Longrightarrow> distinct_keys (AList.delete k al)"
  by (simp add: distinct_keys_def distinct_delete)

lemma map_of_update [simp]: "map_of (AList.update k v al) = (map_of al)(k \<mapsto> v)"
  by (simp add: update_conv')

lemma map_of_delete [simp]: "map_of (AList.delete k al) = (map_of al)(k := None)"
  by (simp add: delete_conv')

lemma has_key_iff: "has_key al k \<longleftrightarrow> k \<in> fst ` set al"
  by (simp add: has_key_def map_of_eq_None_iff)

lemma has_key_update [simp]: "has_key (AList.update k v al) j \<longleftrightarrow> j = k \<or> has_key al j"
  by (simp add: has_key_def)

lemma has_key_delete [simp]: "has_key (AList.delete k al) j \<longleftrightarrow> j \<noteq> k \<and> has_key al j"
  by (simp add: has_key_def)

lemma length_update_new: "\<not> has_key al k \<Longrightarrow> length (AList.update k v al) = Suc (length al)"
  by (induction al) (auto simp: has_key_def split: if_splits)

lemma length_update_old: "has_key al k \<Longrightarrow> length (AList.update k v al) = length al"
  by (induction al) (auto simp: has_key_def split: if_splits)

lemma length_alist_delete_le: "length (AList.delete k al) \<le> length al"
  unfolding AList.delete_eq by (rule length_filter_le)

lemma delete_update_same: "AList.delete k (AList.update k v al) = AList.delete k al"
  unfolding AList.delete_eq by (induction al) auto

lemma sum_list_pick:
  fixes f :: "'a \<Rightarrow> nat"
  assumes "x \<in> set xs"
  shows "f x \<le> sum_list (map f xs)"
  using assms by (induction xs) auto

lemma distinct_keys_map_of: "distinct_keys al \<Longrightarrow> (k, v) \<in> set al \<longleftrightarrow> map_of al k = Some v"
  by (auto simp: distinct_keys_def dest: map_of_SomeD)

end
