(* ===== verification/Protocol_Types.thy ===== *)
theory Protocol_Types
  imports Prelude
begin

section \<open>The types the whole engine shares\<close>

text \<open>
  The error model of \<^verbatim>\<open>core/src/conn.rs\<close> (error codes, connection errors and stream errors), the
  stream identifiers of \<^verbatim>\<open>core/src/stream.rs\<close> and the header fields of \<^verbatim>\<open>core/src/hpack.rs\<close>.

  A \<^verbatim>\<open>ConnectionError\<close> is modelled by its code: the debug text that accompanies it is
  diagnostic prose, formatted for a log line.
\<close>

subsection \<open>Error codes\<close>

datatype error_code =
    NoError | ProtocolError | InternalError | FlowControlError | SettingsTimeout
  | StreamClosed | FrameSizeError | RefusedStream | Cancel | CompressionError
  | ConnectError | EnhanceYourCalm | InadequateSecurity | Http11Required

fun error_code_as_u32 :: "error_code \<Rightarrow> u32" where
  "error_code_as_u32 NoError = 0"
| "error_code_as_u32 ProtocolError = 1"
| "error_code_as_u32 InternalError = 2"
| "error_code_as_u32 FlowControlError = 3"
| "error_code_as_u32 SettingsTimeout = 4"
| "error_code_as_u32 StreamClosed = 5"
| "error_code_as_u32 FrameSizeError = 6"
| "error_code_as_u32 RefusedStream = 7"
| "error_code_as_u32 Cancel = 8"
| "error_code_as_u32 CompressionError = 9"
| "error_code_as_u32 ConnectError = 10"
| "error_code_as_u32 EnhanceYourCalm = 11"
| "error_code_as_u32 InadequateSecurity = 12"
| "error_code_as_u32 Http11Required = 13"

definition error_code_from_u32 :: "u32 \<Rightarrow> error_code" where
  "error_code_from_u32 v =
     (if v = 0 then NoError else if v = 1 then ProtocolError else if v = 2 then InternalError
      else if v = 3 then FlowControlError else if v = 4 then SettingsTimeout
      else if v = 5 then StreamClosed else if v = 6 then FrameSizeError
      else if v = 7 then RefusedStream else if v = 8 then Cancel
      else if v = 9 then CompressionError else if v = 10 then ConnectError
      else if v = 11 then EnhanceYourCalm else if v = 12 then InadequateSecurity
      else if v = 13 then Http11Required else InternalError)"

lemma error_code_roundtrip [simp, wire_simps]: "error_code_from_u32 (error_code_as_u32 c) = c"
  by (cases c) (simp_all add: error_code_from_u32_def)

lemma error_code_as_u32_inject: "error_code_as_u32 c = error_code_as_u32 d \<longleftrightarrow> c = d"
  by (metis error_code_roundtrip)

text \<open>An unknown wire value reads as \<^verbatim>\<open>INTERNAL_ERROR\<close>, so re-encoding changes it: the one
  value of a frame that does not survive a decode.\<close>

lemma error_code_from_unknown: "13 < unat v \<Longrightarrow> error_code_from_u32 v = InternalError"
  by (auto simp: error_code_from_u32_def)

subsection \<open>Connection errors and stream errors\<close>

datatype connection_error = ConnectionError (conn_err_code: error_code)

type_synonym stream_id = u32

record stream_error =
  serr_stream :: stream_id
  serr_code :: error_code

subsection \<open>Stream identifiers\<close>

text \<open>A \<^verbatim>\<open>StreamId\<close> is a \<^verbatim>\<open>u32\<close> whose reserved high bit is clear: \<open>stream_id_ok\<close> is the
  invariant of the newtype, which its only constructor establishes.\<close>

definition stream_id_new :: "u32 \<Rightarrow> stream_id" where
  "stream_id_new raw = raw AND 0x7fffffff"

definition stream_id_connection :: stream_id where
  "stream_id_connection = 0"

definition is_connection :: "stream_id \<Rightarrow> bool" where
  "is_connection i \<longleftrightarrow> i = 0"

definition is_client_initiated :: "stream_id \<Rightarrow> bool" where
  "is_client_initiated i \<longleftrightarrow> i \<noteq> 0 \<and> i AND 1 = 1"

definition is_server_initiated :: "stream_id \<Rightarrow> bool" where
  "is_server_initiated i \<longleftrightarrow> i \<noteq> 0 \<and> i AND 1 = 0"

definition max_local_stream_id :: u32 where
  "max_local_stream_id = 0x7fffffff"

definition stream_id_ok :: "stream_id \<Rightarrow> bool" where
  "stream_id_ok i \<longleftrightarrow> stream_id_new i = i"

lemma stream_id_ok_new [simp, intro]: "stream_id_ok (stream_id_new raw)"
  by (simp add: stream_id_ok_def stream_id_new_def and.assoc)

lemma stream_id_ok_connection [simp]: "stream_id_ok stream_id_connection"
  by (simp add: stream_id_ok_def stream_id_new_def stream_id_connection_def)

lemma stream_id_new_mask: "stream_id_new raw = take_bit 31 raw"
proof -
  have "(0x7fffffff :: u32) = mask 31" by (simp add: mask_eq_exp_minus_1)
  then show ?thesis by (simp only: stream_id_new_def take_bit_eq_mask)
qed

lemma stream_id_ok_iff: "stream_id_ok i \<longleftrightarrow> unat i < 2 ^ 31"
proof -
  have "stream_id_ok i \<longleftrightarrow> take_bit 31 i = i"
    by (simp add: stream_id_ok_def stream_id_new_mask)
  also have "\<dots> \<longleftrightarrow> take_bit 31 (unat i) = unat i"
    by (simp add: word_unat_eq_iff unsigned_take_bit_eq)
  also have "\<dots> \<longleftrightarrow> unat i < 2 ^ 31"
    by (simp add: take_bit_nat_eq_self_iff)
  finally show ?thesis .
qed

lemma and_1_mod_2: "(i :: u32) AND 1 = of_bool (odd i)"
  by (simp add: and_one_eq mod_2_eq_odd)

lemma is_client_initiated_odd: "is_client_initiated i \<longleftrightarrow> odd i"
  by (auto simp: is_client_initiated_def and_1_mod_2)

lemma is_server_initiated_even: "is_server_initiated i \<longleftrightarrow> i \<noteq> 0 \<and> even i"
  by (auto simp: is_server_initiated_def and_1_mod_2)

text \<open>The three classes partition the identifier space.\<close>

lemma stream_id_classes:
  "is_connection i \<or> is_client_initiated i \<or> is_server_initiated i"
  "\<not> (is_client_initiated i \<and> is_server_initiated i)"
  "is_connection i \<Longrightarrow> \<not> is_client_initiated i \<and> \<not> is_server_initiated i"
  by (auto simp: is_connection_def is_client_initiated_odd is_server_initiated_even)

subsection \<open>Header fields\<close>

record header =
  hdr_name :: octets
  hdr_value :: octets
  sensitive :: bool

definition header_new :: "octets \<Rightarrow> octets \<Rightarrow> header" where
  "header_new n v = \<lparr>hdr_name = n, hdr_value = v, sensitive = False\<rparr>"

definition header_sensitive :: "octets \<Rightarrow> octets \<Rightarrow> header" where
  "header_sensitive n v = (header_new n v)\<lparr>sensitive := True\<rparr>"

end
