(* ===== verification/Frame_Props.thy ===== *)
theory Frame_Props
  imports Frame_Codec
begin

section \<open>What the frame codec promises\<close>

text \<open>
  Encoding and decoding are inverse on every frame the engine builds; every decoded frame is one
  the engine could have built; the decoder accepts exactly the frames whose length, placement
  and padding are legal; and decoding a stream of octets does not depend on how the stream is
  cut into reads.
\<close>

subsection \<open>Well-formed frames and their octets\<close>

definition on_stream :: "stream_id \<Rightarrow> bool" where
  "on_stream i \<longleftrightarrow> stream_id_ok i \<and> \<not> is_connection i"

fun frame_ok :: "frame \<Rightarrow> bool" where
  "frame_ok (Data i d es) = on_stream i"
| "frame_ok (Headers i b es eh) = on_stream i"
| "frame_ok (SettingsFrame ack ps) = (ack \<longrightarrow> ps = [])"
| "frame_ok (WindowUpdate i n) = (stream_id_ok i \<and> n AND 0x7fffffff = n)"
| "frame_ok (RstStream i c) = on_stream i"
| "frame_ok (Ping d ack) = (length d = 8)"
| "frame_ok (GoAway i c d) = stream_id_ok i"
| "frame_ok (Continuation i b eh) = on_stream i"

fun frame_flags :: "frame \<Rightarrow> flags" where
  "frame_flags (Data i d es) = flags_set_if es flag_end_stream 0"
| "frame_flags (Headers i b es eh) = flags_set_if eh flag_end_headers (flags_set_if es flag_end_stream 0)"
| "frame_flags (SettingsFrame ack ps) = flags_set_if ack flag_ack 0"
| "frame_flags (WindowUpdate i n) = 0"
| "frame_flags (RstStream i c) = 0"
| "frame_flags (Ping d ack) = flags_set_if ack flag_ack 0"
| "frame_flags (GoAway i c d) = 0"
| "frame_flags (Continuation i b eh) = flags_set_if eh flag_end_headers 0"

fun frame_payload :: "frame \<Rightarrow> octets" where
  "frame_payload (Data i d es) = d"
| "frame_payload (Headers i b es eh) = b"
| "frame_payload (SettingsFrame ack ps) = put_params ps"
| "frame_payload (WindowUpdate i n) = be_of_u32 (n AND 0x7fffffff)"
| "frame_payload (RstStream i c) = be_of_u32 (error_code_as_u32 c)"
| "frame_payload (Ping d ack) = d"
| "frame_payload (GoAway i c d) = be_of_u32 (i AND 0x7fffffff) @ be_of_u32 (error_code_as_u32 c) @ d"
| "frame_payload (Continuation i b eh) = b"

definition payload_len :: "frame \<Rightarrow> nat" where
  "payload_len f = length (frame_payload f)"

definition header_octets :: "frame_type \<Rightarrow> flags \<Rightarrow> stream_id \<Rightarrow> nat \<Rightarrow> octets" where
  "header_octets k fl i n =
     frame_header_write \<lparr>fh_length = word_of_nat n, fh_kind = k, fh_flags = fl, fh_stream = i\<rparr> []"

definition frame_octets :: "frame \<Rightarrow> octets" where
  "frame_octets f = header_octets (frame_kind f) (frame_flags f) (frame_stream f) (payload_len f)
     @ frame_payload f"

lemma length_put_params [simp]: "length (put_params ps) = 6 * length ps"
  by (induction ps) (auto simp: put_params_def)

lemma put_params_Nil: "put_params [] = []"
  by (simp add: put_params_def)

lemma unat_max_allowed: "unat max_allowed_frame_size = 16777215"
  by (simp add: max_allowed_frame_size_def)

lemma write_header_ok:
  "n \<le> 16777215 \<Longrightarrow> write_header k fl i n out = (Inr (), out @ header_octets k fl i n)"
  by (simp add: write_header_def unat_max_allowed header_octets_def frame_header_write_def Let_def)

lemma write_header_oversized:
  "16777215 < n \<Longrightarrow> \<exists>l. write_header k fl i n out = (Inl (Oversized l max_allowed_frame_size), out)"
  by (simp add: write_header_def unat_max_allowed)

lemma frame_write_octets:
  assumes "frame_ok f" "payload_len f \<le> 16777215"
  shows "frame_write f out = (Inr (), out @ frame_octets f)"
  using assms
  by (cases f)
    (simp_all add: write_header_ok put_slice_def frame_octets_def payload_len_def mult.commute)

lemma frame_write_oversized:
  assumes "frame_ok f" "16777215 < payload_len f"
  shows "\<exists>l. frame_write f out = (Inl (Oversized l max_allowed_frame_size), out)"
proof (cases f)
  case (SettingsFrame ack ps)
  then show ?thesis using assms
      write_header_oversized [of "length ps * 6" TSettings "flags_set_if ack flag_ack 0"
        stream_id_connection out]
    by (auto simp: payload_len_def mult.commute)
next
  case (Data i d es)
  then show ?thesis using assms
      write_header_oversized [of "length d" TData "flags_set_if es flag_end_stream 0" i out]
    by (auto simp: payload_len_def)
next
  case (Headers i b es eh)
  then show ?thesis using assms
      write_header_oversized [of "length b" THeaders
        "flags_set_if eh flag_end_headers (flags_set_if es flag_end_stream 0)" i out]
    by (auto simp: payload_len_def)
next
  case (GoAway i c d)
  then show ?thesis using assms
      write_header_oversized [of "8 + length d" TGoAway 0 stream_id_connection out]
    by (auto simp: payload_len_def)
next
  case (Continuation i b eh)
  then show ?thesis using assms
      write_header_oversized [of "length b" TContinuation "flags_set_if eh flag_end_headers 0" i out]
    by (auto simp: payload_len_def)
qed (use assms in \<open>auto simp: payload_len_def\<close>)

subsection \<open>Decoding what was written\<close>

lemma length_header_octets [simp]: "length (header_octets k fl i n) = 9"
  by (simp add: header_octets_def frame_header_write_def Let_def)

lemma stream_id_mask: "stream_id_ok i \<Longrightarrow> i AND 0x7fffffff = i"
  by (simp add: stream_id_ok_def stream_id_new_def)

lemma frame_header_parse_written:
  assumes "n \<le> 16777215" "stream_id_ok i" "frame_type_from_u8 (frame_type_as_u8 k) = k"
  shows "frame_header_parse (header_octets k fl i n) =
    \<lparr>fh_length = word_of_nat n, fh_kind = k, fh_flags = fl, fh_stream = i\<rparr>"
proof -
  have "drop_bit 24 (word_of_nat n :: u32) = 0"
    using assms(1) by (intro drop_bit_24_of_nat) simp
  from u32_of_be_0_of_u32 [OF this] show ?thesis
    using assms(2,3) u32_of_be_of_u32 [of i]
    by (simp add: header_octets_def frame_header_write_def frame_header_parse_def Let_def
        be_of_u32_def stream_id_mask stream_id_new_def)
qed

lemma decode_any_written:
  assumes "length p = n" "n \<le> 16777215" "n \<le> unat (codec_max_frame_size c)"
    "stream_id_ok i" "frame_type_from_u8 (frame_type_as_u8 k) = k"
  shows "decode_any c (header_octets k fl i n @ p @ rest) =
    (map_sum id Some (from_parts
       \<lparr>fh_length = word_of_nat n, fh_kind = k, fh_flags = fl, fh_stream = i\<rparr> p), rest)"
proof -
  let ?h = "header_octets k fl i n"
  have un: "unat (word_of_nat n :: u32) = n" using assms(2) by (intro unat_u32_of_nat) simp
  have "\<not> word_of_nat n > codec_max_frame_size c"
    using assms(3) un by (simp add: word_less_nat_alt)
  then show ?thesis
    using frame_header_parse_written [OF assms(2,4,5), of fl] assms(1) un
    by (simp add: decode_any_def frame_header_len_def Let_def)
qed

lemma settings_chunks_put_params: "settings_chunks (put_params ps) = ps"
proof (induction ps)
  case (Cons p ps)
  obtain i v where "p = (i, v)" by (cases p)
  with Cons show ?case
    by (simp add: put_params_def be_of_u16_def be_of_u32_def u16_of_be_of_u16 u32_of_be_of_u32)
qed (simp add: put_params_def)

lemma flag_bits [simp]:
  "flags_contains (flags_set_if b flag_end_stream 0) flag_end_stream = b"
  "\<not> flags_contains (flags_set_if b flag_end_stream 0) flag_padded"
  "flags_contains (flags_set_if b flag_ack 0) flag_ack = b"
  "flags_contains (flags_set_if b flag_end_headers 0) flag_end_headers = b"
  "flags_contains (flags_set_if a flag_end_headers (flags_set_if b flag_end_stream 0)) flag_end_headers = a"
  "flags_contains (flags_set_if a flag_end_headers (flags_set_if b flag_end_stream 0)) flag_end_stream = b"
  "\<not> flags_contains (flags_set_if a flag_end_headers (flags_set_if b flag_end_stream 0)) flag_padded"
  "\<not> flags_contains (flags_set_if a flag_end_headers (flags_set_if b flag_end_stream 0)) flag_priority"
  by (cases a; cases b; simp add: flag_defs)+

lemma nth_be_of_u32 [simp]:
  "u32_of_be (be_of_u32 w ! 0) (be_of_u32 w ! Suc 0) (be_of_u32 w ! 2) (be_of_u32 w ! 3) = w"
  by (simp add: be_of_u32_def u32_of_be_of_u32 numeral_2_eq_2 numeral_3_eq_3)

lemma is_connection_connection [simp]: "is_connection stream_id_connection"
  by (simp add: is_connection_def stream_id_connection_def)

lemma from_parts_payload:
  assumes "frame_ok f"
  shows "from_parts \<lparr>fh_length = l, fh_kind = frame_kind f, fh_flags = frame_flags f,
      fh_stream = frame_stream f\<rparr> (frame_payload f) = Inr (DFrame f)"
proof (cases f)
  case (GoAway i c d)
  then have "i AND 0x7fffffff = i" using assms by (simp add: stream_id_mask)
  with GoAway assms show ?thesis
    by (simp add: from_parts_def framed_def go_away_from_parts_def read_error_code_def
        nth_append stream_id_ok_def)
qed (use assms in \<open>auto simp: from_parts_def framed_def on_stream_def data_from_parts_def
      strip_padding_def headers_from_parts_def settings_from_parts_def settings_chunks_put_params
      put_params_Nil
      window_update_from_parts_def rst_stream_from_parts_def read_error_code_def
      ping_from_parts_def continuation_from_parts_def and.assoc\<close>)

lemma frame_kind_roundtrip: "frame_type_from_u8 (frame_type_as_u8 (frame_kind f)) = frame_kind f"
  by (cases f) (simp_all add: frame_type_from_u8_def)

lemma frame_stream_ok: "frame_ok f \<Longrightarrow> stream_id_ok (frame_stream f)"
  by (cases f) (auto simp: on_stream_def)

lemma decode_any_frame_octets:
  assumes "frame_ok f" "payload_len f \<le> 16777215" "payload_len f \<le> unat (codec_max_frame_size c)"
  shows "decode_any c (frame_octets f @ rest) = (Inr (Some (DFrame f)), rest)"
  using decode_any_written [OF _ assms(2,3) frame_stream_ok [OF assms(1)] frame_kind_roundtrip]
    from_parts_payload [OF assms(1)]
  by (simp add: frame_octets_def payload_len_def)

text \<open>Round trip: a well-formed frame no longer than the receiving codec's limit is encoded
  without error, and decoding the octets it was written as, whatever follows them in the buffer,
  gives back that frame and leaves exactly what followed.\<close>

theorem encode_decode_roundtrip:
  assumes "frame_ok f" "payload_len f \<le> 16777215" "payload_len f \<le> unat (codec_max_frame_size c)"
  shows "\<exists>bs. encode c' f out = (Inr (), out @ bs) \<and> length bs = frame_header_len + payload_len f \<and>
    decode_any c (bs @ rest) = (Inr (Some (DFrame f)), rest) \<and>
    decode c (bs @ rest) = (Inr (Some f), rest)"
proof -
  have "length (frame_octets f) = frame_header_len + payload_len f"
    by (simp add: frame_octets_def payload_len_def frame_header_len_def)
  moreover have "encode c' f out = (Inr (), out @ frame_octets f)"
    using frame_write_octets [OF assms(1,2)] by (simp add: encode_def)
  moreover have "decode_any c (frame_octets f @ rest) = (Inr (Some (DFrame f)), rest)"
    by (rule decode_any_frame_octets [OF assms])
  ultimately show ?thesis by (auto simp: decode.simps [of c "frame_octets f @ rest"])
qed

theorem encode_decode_roundtrip_witness:
  "\<exists>bs. encode (codec_new 16384) (Headers 5 [130, 134] True True) [9] = (Inr (), [9] @ bs) \<and>
     length bs = 11 \<and>
     decode (codec_new 16384) (bs @ [0]) = (Inr (Some (Headers 5 [130, 134] True True)), [0])"
proof -
  have "frame_ok (Headers 5 [130, 134] True True)"
    by (simp add: on_stream_def stream_id_ok_def stream_id_new_def is_connection_def)
  from encode_decode_roundtrip [OF this, of "codec_new 16384" "codec_new 16384" "[9]" "[0]"]
  show ?thesis by (auto simp: payload_len_def codec_new_def frame_header_len_def)
qed

text \<open>The encoder refuses exactly the frames whose payload the 24-bit length field cannot
  express, with an oversize error, and then writes nothing.\<close>

theorem encode_refuses_exactly_oversized:
  assumes "frame_ok f"
  shows "if payload_len f \<le> 2 ^ 24 - 1 then encode c f out = (Inr (), out @ frame_octets f)
    else \<exists>l. encode c f out = (Inl (Oversized l max_allowed_frame_size), out)"
  using frame_write_octets [OF assms, of out] frame_write_oversized [OF assms, of out]
  by (simp add: encode_def)

theorem encode_refuses_exactly_oversized_witness:
  "frame_ok (Ping [1, 2, 3, 4, 5, 6, 7, 8] False) \<and>
   encode (codec_new 16384) (Ping [1, 2, 3, 4, 5, 6, 7, 8] False) [0]
     = (Inr (), [0] @ [0, 0, 8, 6, 0, 0, 0, 0, 0] @ [1, 2, 3, 4, 5, 6, 7, 8])"
proof -
  have ok: "frame_ok (Ping [1, 2, 3, 4, 5, 6, 7, 8] False)" by simp
  have octs: "frame_octets (Ping [1, 2, 3, 4, 5, 6, 7, 8] False)
      = [0, 0, 8, 6, 0, 0, 0, 0, 0] @ [1, 2, 3, 4, 5, 6, 7, 8]"
    by (simp add: frame_octets_def header_octets_def frame_header_write_def payload_len_def
        be_of_u32_def Let_def flag_defs stream_id_connection_def)
  show ?thesis
    using ok encode_refuses_exactly_oversized [OF ok, of "codec_new 16384" "[0]"] octs
    by (simp add: payload_len_def)
qed

subsection \<open>What the decoder accepts\<close>

text \<open>The rules of RFC 9113 section 6, one table each: where a frame may be addressed, how long it
  may be, and what its padding and priority fields may say.\<close>

fun placed_right :: "frame_type \<Rightarrow> stream_id \<Rightarrow> bool" where
  "placed_right TData i = (\<not> is_connection i)"
| "placed_right THeaders i = (\<not> is_connection i)"
| "placed_right TRstStream i = (\<not> is_connection i)"
| "placed_right TContinuation i = (\<not> is_connection i)"
| "placed_right TSettings i = is_connection i"
| "placed_right TPing i = is_connection i"
| "placed_right TGoAway i = is_connection i"
| "placed_right TWindowUpdate i = True"
| "placed_right (TUnknown k) i = (k = priority_type \<longrightarrow> \<not> is_connection i)"

fun sized_right :: "frame_type \<Rightarrow> flags \<Rightarrow> nat \<Rightarrow> bool" where
  "sized_right TRstStream fl n = (n = 4)"
| "sized_right TSettings fl n = (if flags_contains fl flag_ack then n = 0 else n mod 6 = 0)"
| "sized_right TPing fl n = (n = 8)"
| "sized_right TGoAway fl n = (8 \<le> n)"
| "sized_right TWindowUpdate fl n = (n = 4)"
| "sized_right (TUnknown k) fl n = (k = priority_type \<longrightarrow> n = 5)"
| "sized_right _ fl n = True"

definition padded_right :: "flags \<Rightarrow> octets \<Rightarrow> bool" where
  "padded_right fl p \<longleftrightarrow>
     (flags_contains fl flag_padded \<longrightarrow> p \<noteq> [] \<and> unat (p ! 0) < length p)"

definition unpadded :: "flags \<Rightarrow> octets \<Rightarrow> octets" where
  "unpadded fl p =
     (if flags_contains fl flag_padded then drop 1 (take (length p - unat (p ! 0)) p) else p)"

definition prioritised_right :: "flags \<Rightarrow> stream_id \<Rightarrow> octets \<Rightarrow> bool" where
  "prioritised_right fl i p \<longleftrightarrow>
     (flags_contains fl flag_priority \<longrightarrow> 5 \<le> length p \<and> depends_on p \<noteq> i)"

definition legal_frame :: "frame_header \<Rightarrow> octets \<Rightarrow> bool" where
  "legal_frame h p \<longleftrightarrow>
     fh_kind h \<noteq> TUnknown push_promise_type \<and>
     placed_right (fh_kind h) (fh_stream h) \<and>
     sized_right (fh_kind h) (fh_flags h) (length p) \<and>
     (fh_kind h = TData \<longrightarrow> padded_right (fh_flags h) p) \<and>
     (fh_kind h = THeaders \<longrightarrow> padded_right (fh_flags h) p \<and>
        prioritised_right (fh_flags h) (fh_stream h) (unpadded (fh_flags h) p)) \<and>
     (fh_kind h = TUnknown priority_type \<longrightarrow> depends_on p \<noteq> fh_stream h)"

lemma strip_padding_ok:
  "strip_padding k fl p = (if padded_right fl p then Inr (unpadded fl p)
     else Inl (if p = [] then BadLength k 0 else PaddingOverflow k))"
  by (auto simp: strip_padding_def padded_right_def unpadded_def Let_def)

lemma is_ok_framed [simp]: "is_ok (framed r) = is_ok r"
  by (cases r) (auto simp: framed_def)

lemma read_error_code_ok [simp]: "is_ok (read_error_code k b) \<longleftrightarrow> length b = 4"
  by (simp add: read_error_code_def)

text \<open>C35. The decoder accepts exactly the legal frames: a complete frame is decoded (or, for an
  extension type, ignored) if and only if its placement, length, padding and priority fields obey
  the tables; PUSH_PROMISE is never accepted. Everything else is an error.\<close>

theorem decoder_accepts_exactly_legal:
  "is_ok (from_parts h p) \<longleftrightarrow> legal_frame h p"
proof (cases "fh_kind h")
  case (TUnknown k)
  then show ?thesis
    by (auto simp: from_parts_def legal_frame_def validate_priority_def priority_field_len_def
        push_promise_type_def priority_type_def)
next
  case THeaders
  then show ?thesis
    by (auto simp: from_parts_def legal_frame_def headers_from_parts_def strip_padding_ok
        prioritised_right_def priority_field_len_def)
qed (auto simp: from_parts_def legal_frame_def data_from_parts_def strip_padding_ok
    rst_stream_from_parts_def read_error_code_def settings_from_parts_def ping_from_parts_def
    go_away_from_parts_def Let_def window_update_from_parts_def continuation_from_parts_def)

subsection \<open>Decoded frames are well-formed\<close>

lemma length_settings_chunks: "6 * length (settings_chunks p) \<le> length p"
  by (induction p rule: settings_chunks.induct) auto

lemma length_unpadded: "length (unpadded fl p) \<le> length p"
  by (simp add: unpadded_def)

lemma from_parts_frame_ok:
  assumes "from_parts h p = Inr (DFrame f)" "stream_id_ok (fh_stream h)"
  shows "frame_ok f \<and> payload_len f \<le> length p"
proof (cases "fh_kind h")
  case TSettings
  then show ?thesis using assms length_settings_chunks [of p]
    by (auto simp: from_parts_def framed_def settings_from_parts_def payload_len_def put_params_Nil
        split: if_splits)
next
  case THeaders
  then show ?thesis using assms length_unpadded [of "fh_flags h" p]
    by (auto simp: from_parts_def framed_def headers_from_parts_def strip_padding_ok
        payload_len_def on_stream_def split: if_splits)
next
  case (TUnknown k)
  then show ?thesis using assms
    by (auto simp: from_parts_def validate_priority_def split: if_splits)
qed (use assms length_unpadded [of "fh_flags h" p] in
    \<open>auto simp: from_parts_def framed_def data_from_parts_def strip_padding_ok on_stream_def
      rst_stream_from_parts_def read_error_code_def ping_from_parts_def go_away_from_parts_def
      window_update_from_parts_def continuation_from_parts_def payload_len_def Let_def and.assoc
      split: if_splits\<close>)

lemma decode_any_frame_ok:
  assumes "decode_any c buf = (Inr (Some (DFrame f)), rest)"
  shows "frame_ok f" "payload_len f \<le> unat (codec_max_frame_size c)"
    "payload_len f + frame_header_len + length rest \<le> length buf"
proof -
  let ?h = "frame_header_parse (take frame_header_len buf)"
  let ?total = "frame_header_len + unat (fh_length ?h)"
  let ?p = "drop frame_header_len (take ?total buf)"
  have d: "from_parts ?h ?p = Inr (DFrame f)" and rest: "rest = drop ?total buf"
    and long: "?total \<le> length buf" and le: "\<not> fh_length ?h > codec_max_frame_size c"
    using assms by (auto simp: decode_any_def Let_def map_sum_def split: if_splits sum.splits)
  have "stream_id_ok (fh_stream ?h)" by (simp add: frame_header_parse_def)
  from from_parts_frame_ok [OF d this] have ok: "frame_ok f" and pl: "payload_len f \<le> length ?p"
    by blast+
  show "frame_ok f" by (rule ok)
  show "payload_len f \<le> unat (codec_max_frame_size c)"
    using pl long le by (simp add: word_less_nat_alt)
  show "payload_len f + frame_header_len + length rest \<le> length buf"
    using pl long rest by simp
qed

text \<open>C36. Everything decoded can be sent on: a frame that came off the wire is well-formed, no
  longer than the limit the codec was given, and re-encoding it and decoding the result gives the
  same frame again, so forwarding normalises a frame once (padding, priority, unknown error
  codes) and never changes it afterwards.\<close>

theorem decoded_frame_reencodes:
  assumes "decode_any c buf = (Inr (Some (DFrame f)), rest)"
    "unat (codec_max_frame_size c) \<le> 2 ^ 24 - 1"
  shows "frame_ok f \<and> payload_len f \<le> unat (codec_max_frame_size c) \<and>
    encode c f [] = (Inr (), frame_octets f) \<and>
    decode_any c (frame_octets f) = (Inr (Some (DFrame f)), [])"
  using decode_any_frame_ok [OF assms(1)] assms(2) frame_write_octets [of f "[]"]
    decode_any_frame_octets [of f c "[]"]
  by (simp add: encode_def)

definition padded_data :: octets where
  "padded_data = [0, 0, 4, 0, 9, 0, 0, 0, 1, 2, 65, 0, 0]"

theorem decoded_frame_reencodes_witness:
  "decode_any (codec_new 16384) padded_data = (Inr (Some (DFrame (Data 1 [65] True))), [])
   \<and> encode (codec_new 16384) (Data 1 [65] True) [] = (Inr (), frame_octets (Data 1 [65] True))"
proof -
  have run: "decode_any (codec_new 16384) padded_data = (Inr (Some (DFrame (Data 1 [65] True))), [])"
    by (simp add: padded_data_def decode_any_def codec_new_def frame_header_len_def
        frame_header_parse_def u32_of_be_def stream_id_new_def frame_type_from_u8_def from_parts_def
        framed_def data_from_parts_def strip_padding_def flag_defs is_connection_def Let_def)
  show ?thesis using run decoded_frame_reencodes [OF run] by (simp add: codec_new_def)
qed

subsection \<open>Streaming\<close>

text \<open>Draining a reassembly buffer: every complete frame off its front, until the decoder asks for
  more octets or fails. This is the inner loop of the connection task.\<close>

function drain :: "frame_codec \<Rightarrow> octets \<Rightarrow> decoded list \<times> frame_error option \<times> octets" where
  "drain c buf =
     (case decode_any c buf of
        (Inl e, rest) \<Rightarrow> ([], Some e, rest)
      | (Inr None, rest) \<Rightarrow> ([], None, rest)
      | (Inr (Some d), rest) \<Rightarrow>
          (case drain c rest of (ds, e, left) \<Rightarrow> (d # ds, e, left)))"
  by pat_completeness auto
termination
  by (relation "measure (\<lambda>(c, buf). length buf)")
    (auto dest!: decode_any_shrinks [OF sym] simp: frame_header_len_def)

declare drain.simps [simp del]

lemma take_prefix_append: "n \<le> length xs \<Longrightarrow> take n (xs @ ys) = take n xs"
  by simp

lemma decode_any_append:
  assumes "decode_any c xs = (r, rest)" "r \<noteq> Inr None"
  shows "decode_any c (xs @ ys) = (r, rest @ ys)"
proof -
  have len: "frame_header_len \<le> length xs"
    using assms by (auto simp: decode_any_def split: if_splits)
  then show ?thesis using assms
    by (auto simp: decode_any_def Let_def split: if_splits)
qed

lemma decode_any_more: "decode_any c xs = (Inr None, rest) \<Longrightarrow> rest = xs"
  by (auto simp: decode_any_def Let_def map_sum_def split: if_splits sum.splits)

lemma drain_append:
  "drain c (xs @ ys) =
     (case drain c xs of
        (ds, Some e, left) \<Rightarrow> (ds, Some e, left @ ys)
      | (ds, None, left) \<Rightarrow> (case drain c (left @ ys) of (ds', e, left') \<Rightarrow> (ds @ ds', e, left')))"
proof (induction "length xs" arbitrary: xs rule: less_induct)
  case less
  obtain r rest where d: "decode_any c xs = (r, rest)" by (cases "decode_any c xs")
  show ?case
  proof (cases r)
    case (Inl e)
    with d decode_any_append [OF d, of ys] show ?thesis
      by (simp add: drain.simps [of c xs] drain.simps [of c "xs @ ys"])
  next
    case (Inr x)
    show ?thesis
    proof (cases x)
      case None
      with d Inr decode_any_more have "rest = xs" by blast
      with d Inr None show ?thesis
        by (simp add: drain.simps [of c xs] split: prod.splits)
    next
      case (Some f)
      with d Inr have "length rest < length xs"
        using decode_any_shrinks [of c xs f rest] by (simp add: frame_header_len_def)
      from less [OF this] show ?thesis
        using d Inr Some decode_any_append [OF d, of ys]
        by (simp add: drain.simps [of c xs] drain.simps [of c "xs @ ys"]
            split: prod.splits option.splits)
    qed
  qed
qed

text \<open>Feeding reads one at a time: each read is appended to what the last one left over.\<close>

fun feed :: "frame_codec \<Rightarrow> octets \<Rightarrow> octets list \<Rightarrow> decoded list \<times> frame_error option" where
  "feed c left [] = ([], None)"
| "feed c left (r # rs) =
     (case drain c (left @ r) of
        (ds, Some e, left') \<Rightarrow> (ds, Some e)
      | (ds, None, left') \<Rightarrow> (case feed c left' rs of (ds', e) \<Rightarrow> (ds @ ds', e)))"

lemma drain_stops_short: "drain c buf = (ds, None, left) \<Longrightarrow> decode_any c left = (Inr None, left)"
proof (induction "length buf" arbitrary: buf ds rule: less_induct)
  case less
  obtain r rest where d: "decode_any c buf = (r, rest)" by (cases "decode_any c buf")
  show ?case
  proof (cases r)
    case (Inl e)
    with less.prems d show ?thesis by (simp add: drain.simps [of c buf])
  next
    case (Inr x)
    show ?thesis
    proof (cases x)
      case None
      with less.prems d Inr decode_any_more [of c buf rest] show ?thesis
        by (simp add: drain.simps [of c buf])
    next
      case (Some f)
      with d Inr have "length rest < length buf"
        using decode_any_shrinks [of c buf f rest] by (simp add: frame_header_len_def)
      moreover from less.prems d Inr Some obtain ds' where "drain c rest = (ds', None, left)"
        by (auto simp: drain.simps [of c buf] split: prod.splits)
      ultimately show ?thesis by (rule less.hyps)
    qed
  qed
qed

lemma drain_idle: "drain c buf = (ds, None, left) \<Longrightarrow> drain c left = ([], None, left)"
  using drain_stops_short by (simp add: drain.simps [of c left])

lemma feed_drain:
  assumes "drain c left = ([], None, left)"
  shows "feed c left rs = (case drain c (left @ concat rs) of (ds, e, _) \<Rightarrow> (ds, e))"
  using assms
proof (induction rs arbitrary: left)
  case (Cons r rs)
  obtain ds e left' where d: "drain c (left @ r) = (ds, e, left')" by (cases "drain c (left @ r)")
  have app: "drain c (left @ r @ concat rs) = (case drain c (left @ r) of
        (ds, Some e, l) \<Rightarrow> (ds, Some e, l @ concat rs)
      | (ds, None, l) \<Rightarrow> (case drain c (l @ concat rs) of (ds', e, l') \<Rightarrow> (ds @ ds', e, l')))"
    using drain_append [of c "left @ r" "concat rs"] by simp
  show ?case
  proof (cases e)
    case None
    with d have "drain c left' = ([], None, left')" using drain_idle by blast
    from Cons.IH [OF this] show ?thesis
      using d None app by (simp split: prod.splits)
  next
    case (Some x)
    with d app show ?thesis by simp
  qed
qed simp

lemma drain_Nil: "drain c [] = ([], None, [])"
  by (simp add: drain.simps [of c "[]"] decode_any_def frame_header_len_def)

text \<open>Reassembly: however the peer's octets are cut into reads (byte by byte included), the
  frames that come out, and the error that ends the connection if there is one, are those of
  decoding the whole stream at once. A frame split across reads is never mis-parsed.\<close>

theorem reads_do_not_matter:
  "feed c [] rs = (case drain c (concat rs) of (ds, e, _) \<Rightarrow> (ds, e))"
  using feed_drain [OF drain_Nil] by simp

text \<open>A sequence of frames written back to back decodes in order.\<close>

lemma drain_frames:
  assumes "\<forall>f \<in> set fs. frame_ok f \<and> payload_len f \<le> 16777215 \<and>
    payload_len f \<le> unat (codec_max_frame_size c)"
  shows "drain c (concat (map frame_octets fs)) = (map DFrame fs, None, [])"
  using assms
proof (induction fs)
  case (Cons f fs)
  then show ?case
    using decode_any_frame_octets [of f c "concat (map frame_octets fs)"]
    by (simp add: drain.simps [of c "frame_octets f @ concat (map frame_octets fs)"])
qed (simp add: drain_Nil)

text \<open>The sender's side: \<^verbatim>\<open>FrameCodec::encode\<close> called for one frame after another on one buffer,
  stopping at an error.\<close>

fun encode_all :: "frame_codec \<Rightarrow> frame list \<Rightarrow> octets \<Rightarrow> (octets, frame_error, unit) outcome" where
  "encode_all c [] out = (Inr (), out)"
| "encode_all c (f # fs) out = and_then (encode c f out) (\<lambda>_. encode_all c fs)"

lemma encode_all_octets:
  assumes "\<forall>f \<in> set fs. frame_ok f \<and> payload_len f \<le> 16777215"
  shows "encode_all c fs out = (Inr (), out @ concat (map frame_octets fs))"
  using assms by (induction fs arbitrary: out) (simp_all add: encode_def frame_write_octets and_then_def)

text \<open>C16. A conversation survives the wire: the encoder writes any sequence of well-formed frames of
  at most \<open>2 ^ 24 - 1\<close> octets of payload without error, and if the receiver's limit admits them too,
  the octets written, cut into reads in any way, are received as exactly that sequence, in order,
  with no error.\<close>

theorem conversation_roundtrip:
  assumes "\<forall>f \<in> set fs. frame_ok f \<and> payload_len f \<le> 2 ^ 24 - 1 \<and>
      payload_len f \<le> unat (codec_max_frame_size c)"
    "concat rs = snd (encode_all c' fs [])"
  shows "fst (encode_all c' fs []) = Inr () \<and> feed c [] rs = (map DFrame fs, None)"
  using drain_frames [of fs c] encode_all_octets [of fs c' "[]"] assms reads_do_not_matter [of c rs] by simp

theorem conversation_roundtrip_witness:
  "feed (codec_new 16384) []
     (map (\<lambda>b. [b]) (snd (encode_all (codec_new 16384) [Data 1 [65] False, Headers 3 [0x82] False True] [])))
   = (map DFrame [Data 1 [65] False, Headers 3 [0x82] False True], None)"
proof -
  let ?fs = "[Data 1 [65] False, Headers 3 [0x82] False True]"
  let ?bs = "snd (encode_all (codec_new 16384) ?fs [])"
  have ok: "\<forall>f \<in> set ?fs. frame_ok f \<and> payload_len f \<le> 2 ^ 24 - 1 \<and>
      payload_len f \<le> unat (codec_max_frame_size (codec_new 16384))"
    by (simp add: on_stream_def stream_id_ok_def stream_id_new_def is_connection_def
        payload_len_def codec_new_def)
  have "concat (map (\<lambda>b. [b]) bs) = bs" for bs :: octets by (induction bs) simp_all
  then have "concat (map (\<lambda>b. [b]) ?bs) = ?bs" .
  from conversation_roundtrip [OF ok this] show ?thesis by blast
qed

end
