(* ===== verification/Stream_State.thy ===== *)
theory Stream_State
  imports Protocol_Types
begin

section \<open>The stream state machine\<close>

text \<open>
  \<^verbatim>\<open>StreamState\<close> and \<^verbatim>\<open>StreamEvent\<close> of \<^verbatim>\<open>core/src/stream.rs\<close>: the life of one stream as a function of
  its state and an event, returning the next state or the error code of an illegal transition.

  The specification beside it has no five-state diagram: a stream is two directions, each not
  yet opened, open or closed, and a frame is judged by the direction it moves in. The
  refinement lemma says that the code's table of transitions is exactly that.
\<close>

datatype stream_state = Idle | Open | HalfClosedLocal | HalfClosedRemote | Closed

datatype stream_event =
    SendHeaders bool | RecvHeaders bool | SendData bool | RecvData bool
  | SendRstStream | RecvRstStream

definition is_closed :: "stream_state \<Rightarrow> bool" where
  "is_closed s \<longleftrightarrow> s = Closed"

definition peer_can_send :: "stream_state \<Rightarrow> bool" where
  "peer_can_send s \<longleftrightarrow> s = Open \<or> s = HalfClosedLocal"

definition we_can_send :: "stream_state \<Rightarrow> bool" where
  "we_can_send s \<longleftrightarrow> s = Open \<or> s = HalfClosedRemote"

text \<open>The equations stand in the order of the source's match arms.\<close>

fun transition :: "stream_state \<Rightarrow> stream_event \<Rightarrow> error_code + stream_state" where
  "transition Idle (SendHeaders es) = Inr (if es then HalfClosedLocal else Open)"
| "transition Idle (RecvHeaders es) = Inr (if es then HalfClosedRemote else Open)"
| "transition Idle _ = Inl ProtocolError"
| "transition _ SendRstStream = Inr Closed"
| "transition _ RecvRstStream = Inr Closed"
| "transition Open (SendHeaders es) = Inr (if es then HalfClosedLocal else Open)"
| "transition Open (SendData es) = Inr (if es then HalfClosedLocal else Open)"
| "transition Open (RecvHeaders es) = Inr (if es then HalfClosedRemote else Open)"
| "transition Open (RecvData es) = Inr (if es then HalfClosedRemote else Open)"
| "transition HalfClosedLocal (RecvHeaders es) = Inr (if es then Closed else HalfClosedLocal)"
| "transition HalfClosedLocal (RecvData es) = Inr (if es then Closed else HalfClosedLocal)"
| "transition HalfClosedLocal _ = Inl StreamClosed"
| "transition HalfClosedRemote (SendHeaders es) = Inr (if es then Closed else HalfClosedRemote)"
| "transition HalfClosedRemote (SendData es) = Inr (if es then Closed else HalfClosedRemote)"
| "transition HalfClosedRemote _ = Inl StreamClosed"
| "transition Closed _ = Inl StreamClosed"

subsection \<open>The specification: two directions\<close>

datatype direction = Unopened | Sending | Finished

type_synonym directions = "direction \<times> direction"  \<comment> \<open>ours, the peer's\<close>

fun directions_of :: "stream_state \<Rightarrow> directions" where
  "directions_of Idle = (Unopened, Unopened)"
| "directions_of Open = (Sending, Sending)"
| "directions_of HalfClosedLocal = (Finished, Sending)"
| "directions_of HalfClosedRemote = (Sending, Finished)"
| "directions_of Closed = (Finished, Finished)"

definition finish :: "bool \<Rightarrow> direction" where
  "finish es = (if es then Finished else Sending)"

text \<open>One frame in one direction: \<open>d\<close> is the direction it moves in and \<open>e\<close> the other; only a
  header frame opens a stream, and opening it opens both directions.\<close>

fun frame_in :: "bool \<Rightarrow> bool \<Rightarrow> direction \<Rightarrow> direction \<Rightarrow> error_code + directions" where
  "frame_in headers es Unopened e = (if headers then Inr (finish es, Sending) else Inl ProtocolError)"
| "frame_in headers es Sending e = Inr (finish es, e)"
| "frame_in headers es Finished e = Inl StreamClosed"

definition swap_result :: "error_code + directions \<Rightarrow> error_code + directions" where
  "swap_result r = map_sum id prod.swap r"

fun directions_step :: "directions \<Rightarrow> stream_event \<Rightarrow> error_code + directions" where
  "directions_step (l, r) (SendHeaders es) = frame_in True es l r"
| "directions_step (l, r) (SendData es) = frame_in False es l r"
| "directions_step (l, r) (RecvHeaders es) = swap_result (frame_in True es r l)"
| "directions_step (l, r) (RecvData es) = swap_result (frame_in False es r l)"
| "directions_step (l, r) SendRstStream =
     (if l = Unopened then Inl ProtocolError else Inr (Finished, Finished))"
| "directions_step (l, r) RecvRstStream =
     (if l = Unopened then Inl ProtocolError else Inr (Finished, Finished))"

lemma directions_of_inject: "directions_of s = directions_of t \<longleftrightarrow> s = t"
  by (cases s; cases t) simp_all

text \<open>C31. The five-state transition table refines the two-direction specification: for every
  state and event, the code's answer, error code included, is the specification's answer on the
  pair of directions the state stands for.\<close>

theorem transition_refines_directions:
  "map_sum id directions_of (transition s e) = directions_step (directions_of s) e"
  by (cases s; cases e) (simp_all add: swap_result_def finish_def)

subsection \<open>What the predicates promise\<close>

lemma peer_can_send_iff: "peer_can_send s \<longleftrightarrow> is_ok (transition s (RecvData es))"
  by (cases s) (simp_all add: peer_can_send_def)

lemma we_can_send_iff: "we_can_send s \<longleftrightarrow> is_ok (transition s (SendData es))"
  by (cases s) (simp_all add: we_can_send_def)

lemma peer_can_send_directions: "peer_can_send s \<longleftrightarrow> snd (directions_of s) = Sending"
  by (cases s) (simp_all add: peer_can_send_def)

lemma we_can_send_directions: "we_can_send s \<longleftrightarrow> fst (directions_of s) = Sending"
  by (cases s) (simp_all add: we_can_send_def)

text \<open>A connection error (\<^verbatim>\<open>PROTOCOL_ERROR\<close>) comes only from an idle stream, a stream error
  (\<^verbatim>\<open>STREAM_CLOSED\<close>) only from one that exists.\<close>

lemma transition_error_scope:
  "transition s e = Inl c \<Longrightarrow>
     c = (if s = Idle then ProtocolError else StreamClosed)"
  by (cases s; cases e) auto

lemma transition_never_idle: "transition s e = Inr t \<Longrightarrow> t \<noteq> Idle"
  by (cases s; cases e) (auto split: if_splits)

text \<open>Progress: a stream only moves forward, so it reaches \<^verbatim>\<open>Closed\<close> at most once and never
  leaves it.\<close>

fun progress :: "stream_state \<Rightarrow> nat" where
  "progress Idle = 0"
| "progress Open = 1"
| "progress HalfClosedLocal = 2"
| "progress HalfClosedRemote = 2"
| "progress Closed = 3"

lemma transition_progress: "transition s e = Inr t \<Longrightarrow> progress s \<le> progress t"
  by (cases s; cases e) (auto split: if_splits)

lemma transition_same_rank: "transition s e = Inr t \<Longrightarrow> progress s = progress t \<Longrightarrow> s = t"
  by (cases s; cases e) (auto split: if_splits)

lemma closed_absorbing: "transition Closed e = Inr t \<Longrightarrow> t = Closed"
  by (cases e) auto

subsection \<open>A whole life\<close>

text \<open>Applying a run of events, stopping at the first illegal one.\<close>

fun transitions :: "stream_state \<Rightarrow> stream_event list \<Rightarrow> error_code + stream_state" where
  "transitions s [] = Inr s"
| "transitions s (e # es) =
     (case transition s e of Inl c \<Rightarrow> Inl c | Inr t \<Rightarrow> transitions t es)"

definition ends_peer :: "stream_event \<Rightarrow> bool" where
  "ends_peer e \<longleftrightarrow> e = RecvHeaders True \<or> e = RecvData True"

definition from_peer :: "stream_event \<Rightarrow> bool" where
  "from_peer e \<longleftrightarrow> (\<exists>es. e = RecvHeaders es \<or> e = RecvData es)"

definition ends_ours :: "stream_event \<Rightarrow> bool" where
  "ends_ours e \<longleftrightarrow> e = SendHeaders True \<or> e = SendData True"

definition from_us :: "stream_event \<Rightarrow> bool" where
  "from_us e \<longleftrightarrow> (\<exists>es. e = SendHeaders es \<or> e = SendData es)"

lemma transitions_append:
  "transitions s (xs @ ys) =
     (case transitions s xs of Inl c \<Rightarrow> Inl c | Inr t \<Rightarrow> transitions t ys)"
  by (induction xs arbitrary: s) (auto split: sum.splits)

lemma peer_finished_no_more:
  assumes "transitions s es = Inr t" "snd (directions_of s) = Finished" "e \<in> set es"
  shows "\<not> from_peer e"
  using assms
proof (induction es arbitrary: s)
  case (Cons f fs)
  then obtain u where u: "transition s f = Inr u" "transitions u fs = Inr t"
    by (auto split: sum.splits)
  have fin: "snd (directions_of u) = Finished" and nf: "\<not> from_peer f"
    using u(1) Cons.prems(2)
    by (cases s; cases f; auto simp: from_peer_def split: if_splits)+
  show ?case using Cons.IH [OF u(2) fin] nf Cons.prems(3) by auto
qed simp

lemma us_finished_no_more:
  assumes "transitions s es = Inr t" "fst (directions_of s) = Finished" "e \<in> set es"
  shows "\<not> from_us e"
  using assms
proof (induction es arbitrary: s)
  case (Cons f fs)
  then obtain u where u: "transition s f = Inr u" "transitions u fs = Inr t"
    by (auto split: sum.splits)
  have fin: "fst (directions_of u) = Finished" and nf: "\<not> from_us f"
    using u(1) Cons.prems(2)
    by (cases s; cases f; auto simp: from_us_def split: if_splits)+
  show ?case using Cons.IH [OF u(2) fin] nf Cons.prems(3) by auto
qed simp

lemma ends_peer_finishes: "transition s e = Inr t \<Longrightarrow> ends_peer e \<Longrightarrow> snd (directions_of t) = Finished"
  by (cases s; cases e) (auto simp: ends_peer_def split: if_splits)

lemma ends_ours_finishes: "transition s e = Inr t \<Longrightarrow> ends_ours e \<Longrightarrow> fst (directions_of t) = Finished"
  by (cases s; cases e) (auto simp: ends_ours_def split: if_splits)

text \<open>Exactly one end per direction: in any run of events the machine accepts, from any
  state, nothing the peer sends is accepted after the peer's END_STREAM, and nothing of ours
  after our own. So a second END_STREAM, a second field section after the end, or a body after a
  bodyless request is always refused.\<close>

theorem one_end_per_direction:
  assumes "transitions s (xs @ e # ys) = Inr t" "f \<in> set ys"
  shows "(ends_peer e \<longrightarrow> \<not> from_peer f) \<and> (ends_ours e \<longrightarrow> \<not> from_us f)"
proof -
  from assms(1) obtain u v where
    "transitions s xs = Inr u" "transition u e = Inr v" "transitions v ys = Inr t"
    by (auto simp: transitions_append split: sum.splits)
  then show ?thesis
    using peer_finished_no_more us_finished_no_more ends_peer_finishes ends_ours_finishes assms(2)
    by metis
qed

theorem one_end_per_direction_witness:
  "transitions Idle ([] @ RecvHeaders True # [SendHeaders False, SendData True]) = Inr Closed
   \<and> \<not> from_peer (SendData True)"
proof -
  have run: "transitions Idle ([] @ RecvHeaders True # [SendHeaders False, SendData True]) = Inr Closed"
    by simp
  show ?thesis
    using run one_end_per_direction [OF run, of "SendData True"] by (simp add: ends_peer_def)
qed

end
