(* ===== verification/Flow.thy ===== *)
theory Flow
  imports Protocol_Types
begin

section \<open>Flow-control windows\<close>

text \<open>
  \<^verbatim>\<open>core/src/flow.rs\<close>. A \<^verbatim>\<open>Window\<close> is an \<^verbatim>\<open>i32\<close>: an integer whose every store goes through
  \<^const>\<open>as_i32\<close>, so that wrapping is possible in the model exactly where it is in the code; the
  lemmas show that it does not happen. Octet counts (\<^verbatim>\<open>u32\<close>) are natural numbers.
\<close>

definition default_initial_window_size :: int where
  "default_initial_window_size = 65535"

definition max_window_size :: int where
  "max_window_size = 2147483647"

definition connection_window :: int where
  "connection_window = 1024 * 1024"

definition stream_initial_window :: int where
  "stream_initial_window = 256 * 1024"

definition send_budget :: nat where
  "send_budget = 16 * 1024"

text \<open>\<^verbatim>\<open>(window - DEFAULT_INITIAL_WINDOW_SIZE) as u32\<close>.\<close>

definition connection_window_bootstrap :: "int \<Rightarrow> nat" where
  "connection_window_bootstrap window =
     nat (as_i32 (window - default_initial_window_size) mod 4294967296)"

subsection \<open>The send side\<close>

datatype window = Window (available: int)

definition sendable :: "window \<Rightarrow> nat" where
  "sendable w = (if available w > 0 then nat (available w) else 0)"

definition consume :: "nat \<Rightarrow> window \<Rightarrow> (window, error_code, unit) outcome" where
  "consume len w =
     (if int len > available w then (Inl FlowControlError, w)
      else (Inr (), Window (as_i32 (available w - as_i32 (int len)))))"

definition increase :: "nat \<Rightarrow> window \<Rightarrow> (window, error_code, unit) outcome" where
  "increase increment w =
     (let next = available w + int increment
      in if next > max_window_size then (Inl FlowControlError, w)
         else (Inr (), Window (as_i32 next)))"

definition apply_delta :: "int \<Rightarrow> window \<Rightarrow> (window, error_code, unit) outcome" where
  "apply_delta delta w =
     (let next = available w + delta
      in if next > max_window_size then (Inl FlowControlError, w)
         else (Inr (), Window (as_i32 (max next i32_min))))"

definition window_ok :: "window \<Rightarrow> bool" where
  "window_ok w \<longleftrightarrow> in_i32 (available w)"

lemma available_sendable: "int (sendable w) = max 0 (available w)"
  by (simp add: sendable_def)

lemma consume_ok:
  assumes "window_ok w" "int len \<le> available w"
  shows "consume len w = (Inr (), Window (available w - int len))"
proof -
  have "in_i32 (int len)" "in_i32 (available w - int len)"
    using assms by (auto simp: window_ok_def in_i32_def)
  then show ?thesis using assms by (simp add: consume_def)
qed

lemma consume_err: "available w < int len \<Longrightarrow> consume len w = (Inl FlowControlError, w)"
  by (simp add: consume_def)

lemma increase_ok:
  assumes "window_ok w" "available w + int n \<le> max_window_size"
  shows "increase n w = (Inr (), Window (available w + int n))"
proof -
  have "in_i32 (available w + int n)"
    using assms by (auto simp: window_ok_def in_i32_def max_window_size_def)
  then show ?thesis using assms by (simp add: increase_def Let_def)
qed

lemma increase_err: "max_window_size < available w + int n \<Longrightarrow> increase n w = (Inl FlowControlError, w)"
  by (simp add: increase_def Let_def)

lemma apply_delta_ok:
  assumes "window_ok w" "available w + d \<le> max_window_size" "i32_min \<le> available w + d"
  shows "apply_delta d w = (Inr (), Window (available w + d))"
proof -
  have "in_i32 (available w + d)"
    using assms by (auto simp: window_ok_def in_i32_def max_window_size_def)
  then show ?thesis using assms by (simp add: apply_delta_def Let_def)
qed

lemma apply_delta_err: "max_window_size < available w + d \<Longrightarrow> apply_delta d w = (Inl FlowControlError, w)"
  by (simp add: apply_delta_def Let_def)

lemma window_ok_consume: "window_ok w \<Longrightarrow> window_ok (snd (consume n w))"
  by (auto simp: consume_def window_ok_def)

lemma window_ok_increase: "window_ok w \<Longrightarrow> window_ok (snd (increase n w))"
  by (auto simp: increase_def window_ok_def Let_def)

lemma window_ok_apply_delta: "window_ok w \<Longrightarrow> window_ok (snd (apply_delta d w))"
  by (auto simp: apply_delta_def window_ok_def Let_def)

text \<open>The three window operations, on every branch: a debit succeeds exactly when the octets
  are available and a credit (by an increment or by a SETTINGS delta) exactly when the result
  stays within \<open>2^31 - 1\<close>; a failure is \<^verbatim>\<open>FLOW_CONTROL_ERROR\<close> and leaves the window as it was; a
  success moves it by exactly the amount given, with no wrap-around, provided a decrease is not
  below what 32 bits hold.\<close>

theorem window_operations_exact:
  assumes "window_ok w"
  shows "consume n w =
      (if int n \<le> available w then (Inr (), Window (available w - int n)) else (Inl FlowControlError, w))
    \<and> increase n w =
      (if available w + int n \<le> 2 ^ 31 - 1 then (Inr (), Window (available w + int n))
       else (Inl FlowControlError, w))
    \<and> (i32_min \<le> available w + d \<longrightarrow> apply_delta d w =
      (if available w + d \<le> 2 ^ 31 - 1 then (Inr (), Window (available w + d))
       else (Inl FlowControlError, w)))"
  using assms consume_ok [OF assms] consume_err [of w n] increase_ok [OF assms] increase_err [of w n]
    apply_delta_ok [OF assms] apply_delta_err [of w d]
  by (auto simp: max_window_size_def not_le)

theorem window_operations_exact_witness:
  "window_ok (Window 10) \<and> consume 11 (Window 10) = (Inl FlowControlError, Window 10)
   \<and> increase 5 (Window 10) = (Inr (), Window 15)
   \<and> apply_delta (- 20) (Window 10) = (Inr (), Window (- 10))"
proof -
  have ok: "window_ok (Window 10)" by (simp add: window_ok_def in_i32_def)
  show ?thesis using ok window_operations_exact [OF ok, of 11 0] window_operations_exact [OF ok, of 5 "- 20"]
    by simp
qed

subsection \<open>A window over a connection's life\<close>

text \<open>
  What happens to a stream's send window: it is debited by DATA, credited by WINDOW_UPDATE, and
  moved by the difference when a SETTINGS frame changes \<^verbatim>\<open>INITIAL_WINDOW_SIZE\<close>. The state is
  the window and the setting in force; a run stops at the first error, as the connection does.
\<close>

datatype window_event = Sent nat | Credited nat | NewInitial int

fun window_step :: "window_event \<Rightarrow> window \<times> int \<Rightarrow> (window \<times> int, error_code, unit) outcome" where
  "window_step (Sent n) (w, i) = (case consume n w of (r, w') \<Rightarrow> (r, (w', i)))"
| "window_step (Credited n) (w, i) = (case increase n w of (r, w') \<Rightarrow> (r, (w', i)))"
| "window_step (NewInitial j) (w, i) = (case apply_delta (j - i) w of (r, w') \<Rightarrow> (r, (w', j)))"

fun window_run :: "window_event list \<Rightarrow> window \<times> int \<Rightarrow> (window \<times> int, error_code, unit) outcome" where
  "window_run [] s = (Inr (), s)"
| "window_run (e # es) s = and_then (window_step e s) (\<lambda>_. window_run es)"

fun sent :: "window_event \<Rightarrow> nat" where
  "sent (Sent n) = n" | "sent _ = 0"

fun credited :: "window_event \<Rightarrow> nat" where
  "credited (Credited n) = n" | "credited _ = 0"

definition total_sent :: "window_event list \<Rightarrow> nat" where
  "total_sent es = sum_list (map sent es)"

definition total_credited :: "window_event list \<Rightarrow> nat" where
  "total_credited es = sum_list (map credited es)"

text \<open>A legal \<^verbatim>\<open>INITIAL_WINDOW_SIZE\<close>; larger values are rejected before they get here.\<close>

definition initial_ok :: "int \<Rightarrow> bool" where
  "initial_ok i \<longleftrightarrow> 0 \<le> i \<and> i \<le> max_window_size"

fun event_ok :: "window_event \<Rightarrow> bool" where
  "event_ok (NewInitial j) = initial_ok j" | "event_ok _ = True"

text \<open>The invariant: the window never falls more than \<open>2^31 - 1\<close> below the setting in force,
  which is what keeps a decrease inside 32 bits.\<close>

definition ledger_inv :: "window \<times> int \<Rightarrow> bool" where
  "ledger_inv s \<longleftrightarrow> initial_ok (snd s) \<and> window_ok (fst s) \<and>
     - max_window_size \<le> available (fst s) - snd s"

lemma ledger_inv_iff:
  "ledger_inv (w, i) \<longleftrightarrow> initial_ok i \<and> window_ok w \<and> - max_window_size \<le> available w - i"
  by (simp add: ledger_inv_def)

lemma window_step_ledger:
  assumes "ledger_inv (w, i)" "event_ok e" "window_step e (w, i) = (Inr (), (w', i'))"
  shows "ledger_inv (w', i') \<and>
    available w' - i' = available w - i + int (credited e) - int (sent e)"
proof (cases e)
  case (Sent n)
  with assms have le: "int n \<le> available w" and ok: "window_ok w"
    by (auto simp: ledger_inv_iff consume_def split: if_splits)
  from consume_ok [OF ok le] le assms Sent show ?thesis
    by (auto simp: ledger_inv_iff initial_ok_def window_ok_def in_i32_def max_window_size_def)
next
  case (Credited n)
  with assms have le: "available w + int n \<le> max_window_size" and ok: "window_ok w"
    by (auto simp: ledger_inv_iff increase_def Let_def split: if_splits)
  from increase_ok [OF ok le] le assms Credited show ?thesis
    by (auto simp: ledger_inv_iff initial_ok_def window_ok_def in_i32_def max_window_size_def)
next
  case (NewInitial j)
  with assms have le: "available w + (j - i) \<le> max_window_size" and ok: "window_ok w"
    by (auto simp: ledger_inv_iff apply_delta_def Let_def split: if_splits)
  have ge: "i32_min \<le> available w + (j - i)"
    using assms NewInitial by (auto simp: ledger_inv_iff initial_ok_def max_window_size_def)
  from apply_delta_ok [OF ok le ge] le ge assms NewInitial show ?thesis
    by (auto simp: ledger_inv_iff initial_ok_def window_ok_def in_i32_def max_window_size_def)
qed

lemma window_run_ledger:
  assumes "window_run es (w, i) = (Inr (), (w', i'))" "ledger_inv (w, i)" "\<forall>e \<in> set es. event_ok e"
  shows "ledger_inv (w', i') \<and>
    available w' - i' = available w - i + int (total_credited es) - int (total_sent es)"
  using assms
proof (induction es arbitrary: w i)
  case (Cons e es)
  then obtain s where s: "window_step e (w, i) = (Inr (), s)" "window_run es s = (Inr (), (w', i'))"
    by (auto elim!: and_then_Inr)
  obtain v j where v: "s = (v, j)" by (cases s)
  have "ledger_inv (v, j) \<and> available v - j = available w - i + int (credited e) - int (sent e)"
    using window_step_ledger [of w i e v j] Cons.prems s v by simp
  moreover from this have "ledger_inv (w', i') \<and>
      available w' - i' = available v - j + int (total_credited es) - int (total_sent es)"
    using Cons.IH s v Cons.prems by simp
  ultimately show ?case by (simp add: total_sent_def total_credited_def)
qed (simp add: total_sent_def total_credited_def)

lemma ledger_inv_start: "initial_ok i \<Longrightarrow> ledger_inv (Window i, i)"
  by (auto simp: ledger_inv_iff initial_ok_def window_ok_def in_i32_def max_window_size_def)

text \<open>The ledger of a send window over a whole connection: whatever sequence of sends,
  WINDOW_UPDATEs and legal \<^verbatim>\<open>INITIAL_WINDOW_SIZE\<close> changes a window goes through without error, it
  ends at the setting in force plus everything credited minus everything sent, within 32 bits.
  No store wraps, and the clamp of a SETTINGS decrease never engages.\<close>

theorem send_window_ledger:
  assumes "window_run es (Window i, i) = (Inr (), (w, j))" "initial_ok i" "\<forall>e \<in> set es. event_ok e"
  shows "available w = j + int (total_credited es) - int (total_sent es) \<and> window_ok w"
  using window_run_ledger [OF assms(1) ledger_inv_start [OF assms(2)] assms(3)]
  by (simp add: ledger_inv_iff)

theorem send_window_ledger_witness:
  "window_run [Sent 60000, NewInitial 100, Credited 59900] (Window 65535, 65535)
     = (Inr (), (Window 0, 100))
   \<and> (0::int) = 100 + int (total_credited [Sent 60000, NewInitial 100, Credited 59900])
       - int (total_sent [Sent 60000, NewInitial 100, Credited 59900])"
proof -
  have run: "window_run [Sent 60000, NewInitial 100, Credited 59900] (Window 65535, 65535)
      = (Inr (), (Window 0, 100))"
    by (simp add: consume_def increase_def apply_delta_def max_window_size_def as_i32_def Let_def)
  show ?thesis
    using run send_window_ledger [OF run] by (simp add: initial_ok_def max_window_size_def)
qed

text \<open>We never emit more than the peer credited: at every point of such a run, whenever an
  octet has just been sent, everything sent so far fits in the setting in force then plus
  everything credited so far.\<close>

theorem never_sends_beyond_credit:
  assumes "window_run (es @ [Sent n]) (Window i, i) = (Inr (), (w, j))"
    "initial_ok i" "\<forall>e \<in> set es. event_ok e"
  shows "int (total_sent (es @ [Sent n])) \<le> j + int (total_credited es)"
proof -
  have split: "window_run (xs @ ys) s = and_then (window_run xs s) (\<lambda>_. window_run ys)" for xs ys s
    by (induction xs arbitrary: s) (auto simp: and_then_def split: prod.splits sum.splits)
  from assms(1) obtain s where pre: "window_run es (Window i, i) = (Inr (), s)"
    and last: "window_step (Sent n) s = (Inr (), (w, j))"
    by (auto simp: split elim!: and_then_Inr)
  obtain v k where s: "s = (v, k)" by (cases s)
  have "available v = k + int (total_credited es) - int (total_sent es)"
    using window_run_ledger [OF pre [unfolded s] ledger_inv_start [OF assms(2)] assms(3)] by simp
  moreover have "int n \<le> available v" "j = k"
    using last s by (auto simp: consume_def split: if_splits)
  ultimately show ?thesis by (simp add: total_sent_def total_credited_def)
qed

theorem never_sends_beyond_credit_witness:
  "int (total_sent ([Credited 5] @ [Sent 12])) \<le> 10 + int (total_credited [Credited 5])"
proof -
  have run: "window_run ([Credited 5] @ [Sent 12]) (Window 10, 10) = (Inr (), (Window 3, 10))"
    by (simp add: consume_def increase_def max_window_size_def as_i32_def Let_def)
  show ?thesis
    using never_sends_beyond_credit [OF run] by (simp add: initial_ok_def max_window_size_def)
qed

subsection \<open>The receive side\<close>

record recv_window =
  rw_window :: window
  rw_unreleased :: nat
  rw_initial :: int

definition recv_window_new :: "int \<Rightarrow> recv_window" where
  "recv_window_new initial = \<lparr>rw_window = Window initial, rw_unreleased = 0, rw_initial = initial\<rparr>"

definition recv_available :: "recv_window \<Rightarrow> int" where
  "recv_available r = available (rw_window r)"

definition recv_record :: "nat \<Rightarrow> recv_window \<Rightarrow> (recv_window, error_code, unit) outcome" where
  "recv_record len r =
     (case consume len (rw_window r) of (x, w) \<Rightarrow> (x, r\<lparr>rw_window := w\<rparr>))"

text \<open>\<open>release\<close> returns the increment to announce. The result of \<^verbatim>\<open>increase\<close> only feeds a
  \<^verbatim>\<open>debug_assert!\<close>, so its error branch leaves the window as it was and is otherwise ignored.\<close>

definition recv_release :: "nat \<Rightarrow> recv_window \<Rightarrow> nat option \<times> recv_window" where
  "recv_release len r =
     (let u = sat_add_u32 (rw_unreleased r) len
      in if int u * 2 < rw_initial r then (None, r\<lparr>rw_unreleased := u\<rparr>)
         else (Some u, r\<lparr>rw_unreleased := 0, rw_window := snd (increase u (rw_window r))\<rparr>))"

text \<open>The events of a receive window and its ledger: octets recorded, octets released, and the
  octets announced back to the peer. The consumer hands back only what has arrived.\<close>

datatype recv_event = Record nat | Release nat

record recv_ledger =
  rl_window :: recv_window
  rl_recorded :: nat
  rl_released :: nat
  rl_announced :: nat

definition recv_ledger_new :: "int \<Rightarrow> recv_ledger" where
  "recv_ledger_new i =
     \<lparr>rl_window = recv_window_new i, rl_recorded = 0, rl_released = 0, rl_announced = 0\<rparr>"

inductive recv_step :: "recv_ledger \<Rightarrow> recv_ledger \<Rightarrow> bool" where
  step_record: "recv_record n (rl_window s) = (Inr (), r) \<Longrightarrow>
     recv_step s (s\<lparr>rl_window := r, rl_recorded := rl_recorded s + n\<rparr>)"
| step_release_quiet: "rl_released s + n \<le> rl_recorded s \<Longrightarrow>
     recv_release n (rl_window s) = (None, r) \<Longrightarrow>
     recv_step s (s\<lparr>rl_window := r, rl_released := rl_released s + n\<rparr>)"
| step_release_announce: "rl_released s + n \<le> rl_recorded s \<Longrightarrow>
     recv_release n (rl_window s) = (Some k, r) \<Longrightarrow>
     recv_step s (s\<lparr>rl_window := r, rl_released := rl_released s + n,
                   rl_announced := rl_announced s + k\<rparr>)"

inductive recv_reachable :: "int \<Rightarrow> recv_ledger \<Rightarrow> bool" for i where
  recv_start: "recv_reachable i (recv_ledger_new i)"
| recv_next: "recv_reachable i s \<Longrightarrow> recv_step s t \<Longrightarrow> recv_reachable i t"

definition recv_inv :: "int \<Rightarrow> recv_ledger \<Rightarrow> bool" where
  "recv_inv i s \<longleftrightarrow>
     (let r = rl_window s in
       rw_initial r = i \<and> 0 \<le> recv_available r \<and> rl_released s \<le> rl_recorded s \<and>
       int (rw_unreleased r) * 2 < i \<and>
       recv_available r + int (rw_unreleased r) + int (rl_recorded s - rl_released s) = i \<and>
       rl_announced s + rw_unreleased r = rl_released s)"

lemma recv_inv_new: "0 < i \<Longrightarrow> recv_inv i (recv_ledger_new i)"
  by (simp add: recv_inv_def recv_ledger_new_def recv_window_new_def recv_available_def)

lemma recv_record_inv:
  assumes "recv_inv i s" "i \<le> max_window_size" "recv_record n (rl_window s) = (Inr (), r)"
  shows "recv_inv i (s\<lparr>rl_window := r, rl_recorded := rl_recorded s + n\<rparr>)"
proof -
  let ?w = "rw_window (rl_window s)"
  have le: "int n \<le> available ?w"
    using assms(3) by (auto simp: recv_record_def consume_def split: if_splits)
  have ok: "window_ok ?w"
    using assms(1,2) by (auto simp: recv_inv_def Let_def recv_available_def window_ok_def in_i32_def
        max_window_size_def)
  from consume_ok [OF ok le] assms le show ?thesis
    by (auto simp: recv_record_def recv_inv_def Let_def recv_available_def of_nat_diff)
qed

lemma recv_release_exact:
  assumes "recv_inv i s" "i \<le> max_window_size" "rl_released s + n \<le> rl_recorded s"
  shows "recv_release n (rl_window s) =
    (let r = rl_window s; u = rw_unreleased r + n in
     if int u * 2 < i then (None, r\<lparr>rw_unreleased := u\<rparr>)
     else (Some u, r\<lparr>rw_unreleased := 0, rw_window := Window (recv_available r + int u)\<rparr>))"
    and "recv_available (rl_window s) + int (rw_unreleased (rl_window s) + n) \<le> i"
proof -
  let ?r = "rl_window s" let ?u = "rw_unreleased ?r + n"
  have sum: "recv_available ?r + int (rw_unreleased ?r) + int (rl_recorded s - rl_released s) = i"
    and init: "rw_initial ?r = i" and nonneg: "0 \<le> recv_available ?r"
    using assms(1) by (auto simp: recv_inv_def Let_def)
  show le: "recv_available ?r + int ?u \<le> i"
    using sum assms(3) by (simp add: of_nat_diff)
  then have small: "?u \<le> u32_max" using nonneg assms(2) by (simp add: max_window_size_def)
  have ok: "window_ok (rw_window ?r)"
    using nonneg sum assms(2)
    by (auto simp: recv_available_def window_ok_def in_i32_def max_window_size_def)
  have "increase ?u (rw_window ?r) = (Inr (), Window (recv_available ?r + int ?u))"
    using increase_ok [OF ok, of ?u] le assms(2) by (simp add: recv_available_def)
  then show "recv_release n ?r = (let r = ?r; u = rw_unreleased r + n in
     if int u * 2 < i then (None, r\<lparr>rw_unreleased := u\<rparr>)
     else (Some u, r\<lparr>rw_unreleased := 0, rw_window := Window (recv_available r + int u)\<rparr>))"
    using small init by (simp add: recv_release_def Let_def sat_add_u32_exact)
qed

lemma recv_release_inv:
  assumes "recv_inv i s" "0 < i" "i \<le> max_window_size" "rl_released s + n \<le> rl_recorded s"
  shows "recv_release n (rl_window s) = (None, r) \<Longrightarrow>
      recv_inv i (s\<lparr>rl_window := r, rl_released := rl_released s + n\<rparr>)"
    and "recv_release n (rl_window s) = (Some k, r) \<Longrightarrow>
      recv_inv i (s\<lparr>rl_window := r, rl_released := rl_released s + n,
                    rl_announced := rl_announced s + k\<rparr>)"
  using assms recv_release_exact [OF assms(1,3,4)]
  by (auto simp: recv_inv_def Let_def recv_available_def of_nat_diff split: if_splits)

lemma recv_step_inv:
  assumes "recv_step s t" "recv_inv i s" "0 < i" "i \<le> max_window_size"
  shows "recv_inv i t"
  using assms(1)
proof cases
  case (step_record n r)
  with recv_record_inv assms show ?thesis by simp
next
  case (step_release_quiet n r)
  with recv_release_inv(1) assms show ?thesis by simp
next
  case (step_release_announce n k r)
  with recv_release_inv(2) assms show ?thesis by simp
qed

lemma recv_reachable_inv:
  "recv_reachable i s \<Longrightarrow> 0 < i \<Longrightarrow> i \<le> max_window_size \<Longrightarrow> recv_inv i s"
  by (induction rule: recv_reachable.induct) (auto intro: recv_inv_new recv_step_inv)

text \<open>Bounded memory: in every state a receive window of size \<open>i\<close> can reach, the octets that
  have arrived and not yet been handed on, the credit still with the peer and the credit not yet
  announced add up to exactly \<open>i\<close>; so the octets held never exceed the window, however slow the
  consumer, and what has been announced back is never more than what was handed on.\<close>

theorem recv_window_conserves_credit:
  assumes "recv_reachable i s" "0 < i" "i \<le> max_window_size"
  shows "int (rl_recorded s - rl_released s) + recv_available (rl_window s)
       + int (rw_unreleased (rl_window s)) = i
    \<and> int (rl_recorded s - rl_released s) \<le> i
    \<and> rl_announced s \<le> rl_released s \<and> rl_released s \<le> rl_recorded s"
  using recv_reachable_inv [OF assms] by (auto simp: recv_inv_def Let_def)

definition recv_example :: recv_ledger where
  "recv_example = (recv_ledger_new 10)\<lparr>rl_window := \<lparr>rw_window = Window 7, rw_unreleased = 0, rw_initial = 10\<rparr>,
     rl_recorded := 8, rl_released := 5, rl_announced := 5\<rparr>"

lemma recv_example_reachable: "recv_reachable 10 recv_example"
proof -
  let ?a = "(recv_ledger_new 10)\<lparr>rl_window := \<lparr>rw_window = Window 2, rw_unreleased = 0, rw_initial = 10\<rparr>,
     rl_recorded := 8\<rparr>"
  have 1: "recv_record 8 (rl_window (recv_ledger_new 10))
      = (Inr (), \<lparr>rw_window = Window 2, rw_unreleased = 0, rw_initial = 10\<rparr>)"
    by (simp add: recv_record_def recv_ledger_new_def recv_window_new_def consume_def as_i32_def)
  have 2: "recv_release 5 (rl_window ?a)
      = (Some 5, \<lparr>rw_window = Window 7, rw_unreleased = 0, rw_initial = 10\<rparr>)"
    by (simp add: recv_release_def increase_def sat_add_u32_def max_window_size_def as_i32_def Let_def)
  have "recv_step (recv_ledger_new 10) ?a"
    using step_record [OF 1] by (simp add: recv_ledger_new_def)
  moreover have "recv_step ?a recv_example"
    using step_release_announce [OF _ 2] by (simp add: recv_example_def recv_ledger_new_def)
  ultimately show ?thesis by (blast intro: recv_start recv_next)
qed

theorem recv_window_conserves_credit_witness:
  "rl_recorded recv_example - rl_released recv_example = 3
   \<and> int (rl_recorded recv_example - rl_released recv_example)
       + recv_available (rl_window recv_example) + int (rw_unreleased (rl_window recv_example)) = 10"
proof -
  have "(0::int) < 10" "(10::int) \<le> max_window_size" by (simp_all add: max_window_size_def)
  from recv_window_conserves_credit [OF recv_example_reachable this]
  show ?thesis by (simp add: recv_example_def recv_ledger_new_def)
qed

text \<open>The restored window never overflows and the peer is never stuck: in every reachable
  state, handing back what has arrived makes \<^verbatim>\<open>release\<close>'s inner \<^verbatim>\<open>increase\<close> succeed (the
  \<^verbatim>\<open>debug_assert!\<close> is unreachable), and once everything that arrived has been handed back the peer
  holds more than half the window as credit.\<close>

theorem recv_window_never_stalls:
  assumes "recv_reachable i s" "0 < i" "i \<le> max_window_size"
  shows "(\<forall>n k r. rl_released s + n \<le> rl_recorded s \<longrightarrow> recv_release n (rl_window s) = (Some k, r) \<longrightarrow>
      fst (increase k (rw_window (rl_window s))) = Inr () \<and>
      recv_available r = recv_available (rl_window s) + int k)
    \<and> (rl_released s = rl_recorded s \<longrightarrow> i < 2 * recv_available (rl_window s))"
proof -
  note inv = recv_reachable_inv [OF assms]
  have "fst (increase k (rw_window (rl_window s))) = Inr () \<and>
      recv_available r = recv_available (rl_window s) + int k"
    if n: "rl_released s + n \<le> rl_recorded s" and rel: "recv_release n (rl_window s) = (Some k, r)" for n k r
  proof -
    have k: "k = rw_unreleased (rl_window s) + n"
      and r: "recv_available r = recv_available (rl_window s) + int k"
      using recv_release_exact(1) [OF inv assms(3) n] rel
      by (auto simp: Let_def recv_available_def split: if_splits)
    have "recv_available (rl_window s) + int k \<le> max_window_size"
      using recv_release_exact(2) [OF inv assms(3) n] assms(3) k by simp
    moreover have "window_ok (rw_window (rl_window s))"
      using inv assms(3)
      by (auto simp: recv_inv_def Let_def recv_available_def window_ok_def in_i32_def max_window_size_def)
    ultimately show ?thesis using increase_ok r by (simp add: recv_available_def)
  qed
  moreover have "rl_released s = rl_recorded s \<longrightarrow> i < 2 * recv_available (rl_window s)"
    using inv by (auto simp: recv_inv_def Let_def)
  ultimately show ?thesis by blast
qed

theorem recv_window_never_stalls_witness:
  "recv_reachable 10 (recv_ledger_new 10) \<and> 10 < 2 * recv_available (rl_window (recv_ledger_new 10))"
  using recv_start [of 10] recv_window_never_stalls [OF recv_start [of 10]]
  by (simp add: recv_ledger_new_def max_window_size_def)

end
