(* ===== verification/Stream_Table.thy ===== *)
theory Stream_Table
  imports Stream_State Flow
begin

section \<open>The stream table\<close>

text \<open>
  \<^verbatim>\<open>Stream\<close>, \<^verbatim>\<open>StreamTable\<close>, \<^verbatim>\<open>OpenRejection\<close> and \<^verbatim>\<open>Lookup\<close> of \<^verbatim>\<open>core/src/stream.rs\<close>: every live stream
  of a connection, and the rules on identifiers and concurrency that no single stream can
  enforce. The \<^verbatim>\<open>HashMap\<close> is an association list with distinct keys. A method that hands out
  \<^verbatim>\<open>&mut Stream\<close> is followed, in its callers, by \<open>put_stream\<close>.

  Counters that cannot reach the end of their type (\<^verbatim>\<open>opened: u64\<close>, \<^verbatim>\<open>live.len() as u32\<close>) are
  natural numbers.
\<close>

subsection \<open>One stream\<close>

record stream =
  st_state :: stream_state
  st_send_window :: window
  st_recv_window :: recv_window
  st_send_queue :: "octets list"
  st_send_end_stream :: bool
  st_pending_trailers :: "header list option"
  st_queued :: bool
  st_response_started :: bool
  st_content_length :: "nat option"
  st_data_received :: nat
  st_pending_conn_release :: nat

definition stream_new :: "int \<Rightarrow> int \<Rightarrow> stream" where
  "stream_new send_window recv_window =
     \<lparr>st_state = Idle, st_send_window = Window send_window,
      st_recv_window = recv_window_new recv_window, st_send_queue = [],
      st_send_end_stream = False, st_pending_trailers = None, st_queued = False,
      st_response_started = False, st_content_length = None, st_data_received = 0,
      st_pending_conn_release = 0\<rparr>"

definition content_length_matches :: "stream \<Rightarrow> bool" where
  "content_length_matches s =
     (case st_content_length s of None \<Rightarrow> True | Some declared \<Rightarrow> declared = st_data_received s)"

definition pending_send :: "stream \<Rightarrow> nat" where
  "pending_send s = sum_list (map length (st_send_queue s))"

definition has_pending_send :: "stream \<Rightarrow> bool" where
  "has_pending_send s \<longleftrightarrow>
     st_send_queue s \<noteq> [] \<or> st_send_end_stream s \<or> st_pending_trailers s \<noteq> None"

datatype open_rejection = RejectProtocol string | Refused

datatype lookup_result = LookupLive stream | LookupClosed | LookupIdle

definition lookup_is_idle :: "lookup_result \<Rightarrow> bool" where
  "lookup_is_idle l \<longleftrightarrow> l = LookupIdle"

subsection \<open>The table and its operations\<close>

record stream_table =
  live :: "(stream_id \<times> stream) list"
  highest_peer_id :: stream_id
  highest_local_id :: stream_id
  max_concurrent :: nat
  initial_send_window :: int
  initial_recv_window :: int
  peak_concurrent :: nat
  opened :: nat
  reclaimed :: nat

definition stream_table_new :: "nat \<Rightarrow> int \<Rightarrow> int \<Rightarrow> stream_table" where
  "stream_table_new m send recv =
     \<lparr>live = [], highest_peer_id = stream_id_connection, highest_local_id = stream_id_connection,
      max_concurrent = m, initial_send_window = send, initial_recv_window = recv,
      peak_concurrent = 0, opened = 0, reclaimed = 0\<rparr>"

definition live_count :: "stream_table \<Rightarrow> nat" where
  "live_count t = length (live t)"

definition can_open_local :: "stream_table \<Rightarrow> bool" where
  "can_open_local t \<longleftrightarrow>
     live_count t < max_concurrent t \<and> highest_local_id t < max_local_stream_id"

definition insert_new :: "stream_id \<Rightarrow> stream_table \<Rightarrow> stream \<times> stream_table" where
  "insert_new i t =
     (let s = stream_new (initial_send_window t) (initial_recv_window t);
          al = AList.update i s (live t)
      in (s, t\<lparr>opened := opened t + 1, live := al,
               peak_concurrent := max (peak_concurrent t) (length al)\<rparr>))"

definition open_peer :: "stream_id \<Rightarrow> stream_table \<Rightarrow> (stream_table, open_rejection, stream) outcome" where
  "open_peer i t =
     (if \<not> is_client_initiated i
        then (Inl (RejectProtocol ''a client may only open odd-numbered streams''), t)
      else if i \<le> highest_peer_id t
        then (Inl (RejectProtocol ''stream ids must strictly increase''), t)
      else if live_count t \<ge> max_concurrent t
        then (Inl Refused, t\<lparr>highest_peer_id := i\<rparr>)
      else case insert_new i (t\<lparr>highest_peer_id := i\<rparr>) of (s, t') \<Rightarrow> (Inr s, t'))"

definition open_local :: "stream_id \<Rightarrow> stream_table \<Rightarrow> (stream_table, open_rejection, stream) outcome" where
  "open_local i t =
     (if \<not> is_client_initiated i
        then (Inl (RejectProtocol ''a client may only open odd-numbered streams''), t)
      else if i \<le> highest_local_id t
        then (Inl (RejectProtocol ''stream ids must strictly increase''), t)
      else if live_count t \<ge> max_concurrent t
        then (Inl Refused, t)
      else case insert_new i (t\<lparr>highest_local_id := i\<rparr>) of (s, t') \<Rightarrow> (Inr s, t'))"

definition set_max_concurrent :: "nat \<Rightarrow> stream_table \<Rightarrow> stream_table" where
  "set_max_concurrent m t = t\<lparr>max_concurrent := m\<rparr>"

definition lookup_stream :: "stream_id \<Rightarrow> stream_table \<Rightarrow> lookup_result" where
  "lookup_stream i t =
     (case map_of (live t) i of
        Some s \<Rightarrow> LookupLive s
      | None \<Rightarrow> if i \<le> max (highest_peer_id t) (highest_local_id t) then LookupClosed else LookupIdle)"

definition get_stream :: "stream_id \<Rightarrow> stream_table \<Rightarrow> stream option" where
  "get_stream i t = map_of (live t) i"

text \<open>A write through a \<^verbatim>\<open>&mut Stream\<close>.\<close>

definition put_stream :: "stream_id \<Rightarrow> stream \<Rightarrow> stream_table \<Rightarrow> stream_table" where
  "put_stream i s t = t\<lparr>live := AList.update i s (live t)\<rparr>"

definition retire :: "stream_id \<Rightarrow> stream_table \<Rightarrow> stream_table" where
  "retire i t =
     (case map_of (live t) i of
        None \<Rightarrow> t
      | Some s \<Rightarrow> t\<lparr>live := AList.delete i (live t),
                   reclaimed := sat_add_u32 (reclaimed t) (st_pending_conn_release s)\<rparr>)"

definition apply_event ::
    "stream_id \<Rightarrow> stream_event \<Rightarrow> stream_table \<Rightarrow> (stream_table, stream_error, stream_state) outcome" where
  "apply_event i e t =
     (case map_of (live t) i of
        None \<Rightarrow>
          (Inl \<lparr>serr_stream = i, serr_code =
             (if i \<le> max (highest_peer_id t) (highest_local_id t) then StreamClosed
              else ProtocolError)\<rparr>, t)
      | Some s \<Rightarrow>
          (case transition (st_state s) e of
             Inl c \<Rightarrow> (Inl \<lparr>serr_stream = i, serr_code = c\<rparr>, t)
           | Inr n \<Rightarrow>
               let t' = put_stream i (s\<lparr>st_state := n\<rparr>) t
               in (Inr n, if is_closed n then retire i t' else t')))"

definition take_reclaimed :: "stream_table \<Rightarrow> nat \<times> stream_table" where
  "take_reclaimed t = (reclaimed t, t\<lparr>reclaimed := 0\<rparr>)"

text \<open>The loop over \<^verbatim>\<open>values_mut()\<close>, which an error leaves where it is.\<close>

fun delta_streams ::
    "int \<Rightarrow> (stream_id \<times> stream) list \<Rightarrow> ((stream_id \<times> stream) list, error_code, unit) outcome" where
  "delta_streams d [] = (Inr (), [])"
| "delta_streams d ((i, s) # al) =
     (case apply_delta d (st_send_window s) of
        (Inl c, w) \<Rightarrow> (Inl c, (i, s\<lparr>st_send_window := w\<rparr>) # al)
      | (Inr _, w) \<Rightarrow>
          (case delta_streams d al of (r, al') \<Rightarrow> (r, (i, s\<lparr>st_send_window := w\<rparr>) # al')))"

definition apply_initial_window_delta ::
    "int \<Rightarrow> stream_table \<Rightarrow> (stream_table, error_code, unit) outcome" where
  "apply_initial_window_delta d t =
     (case delta_streams d (live t) of
        (r, al) \<Rightarrow> (r, t\<lparr>initial_send_window := sat_add_i32 (initial_send_window t) d, live := al\<rparr>))"

subsection \<open>The invariant\<close>

definition table_inv :: "stream_table \<Rightarrow> bool" where
  "table_inv t \<longleftrightarrow>
     distinct_keys (live t) \<and>
     (\<forall>(i, s) \<in> set (live t). is_client_initiated i \<and>
        i \<le> max (highest_peer_id t) (highest_local_id t) \<and> st_state s \<noteq> Closed) \<and>
     live_count t \<le> peak_concurrent t \<and> peak_concurrent t \<le> opened t"

text \<open>The same, read through lookups.\<close>

definition entry_ok :: "stream_table \<Rightarrow> stream_id \<Rightarrow> stream \<Rightarrow> bool" where
  "entry_ok t i s \<longleftrightarrow> is_client_initiated i \<and>
     i \<le> max (highest_peer_id t) (highest_local_id t) \<and> st_state s \<noteq> Closed"

lemma table_inv_iff:
  "table_inv t \<longleftrightarrow> distinct_keys (live t) \<and>
     (\<forall>i s. map_of (live t) i = Some s \<longrightarrow> entry_ok t i s) \<and>
     live_count t \<le> peak_concurrent t \<and> peak_concurrent t \<le> opened t"
proof (cases "distinct_keys (live t)")
  case True
  from distinct_keys_map_of [OF True] show ?thesis
    by (force simp: table_inv_def entry_ok_def)
qed (simp add: table_inv_def)

lemma table_inv_new [simp]: "table_inv (stream_table_new m s r)"
  by (simp add: table_inv_def stream_table_new_def live_count_def)

lemma table_inv_distinct: "table_inv t \<Longrightarrow> distinct_keys (live t)"
  by (simp add: table_inv_def)

lemma table_inv_live: "table_inv t \<Longrightarrow> map_of (live t) i = Some s \<Longrightarrow> entry_ok t i s"
  by (simp add: table_inv_iff)

lemma entry_ok_mono:
  "entry_ok t i s \<Longrightarrow> max (highest_peer_id t) (highest_local_id t)
     \<le> max (highest_peer_id u) (highest_local_id u) \<Longrightarrow> entry_ok u i s"
  unfolding entry_ok_def by (blast intro: order_trans)

lemma map_of_old_key: "map_of al k = Some v \<Longrightarrow> has_key al k"
  by (simp add: has_key_def)

lemma table_inv_put:
  assumes "table_inv t" "map_of (live t) i = Some s" "st_state s' \<noteq> Closed"
  shows "table_inv (put_stream i s' t)"
  using assms table_inv_live [OF assms(1,2)]
  by (auto simp: table_inv_iff put_stream_def live_count_def length_update_old map_of_old_key
      entry_ok_def)

lemma table_inv_retire: "table_inv t \<Longrightarrow> table_inv (retire i t)"
  using length_alist_delete_le [of i "live t"]
  by (auto simp: retire_def table_inv_iff live_count_def entry_ok_def split: option.splits)

text \<open>A stream that reaches \<^verbatim>\<open>Closed\<close> is written and at once retired.\<close>

lemma retire_put:
  assumes "distinct_keys (live t)" "map_of (live t) i = Some s"
    "st_pending_conn_release s' = st_pending_conn_release s"
  shows "retire i (put_stream i s' t) = retire i t"
proof -
  have "AList.delete i (AList.update i s' (live t)) = AList.delete i (live t)"
    by (rule delete_update_same)
  then show ?thesis using assms(2,3) by (simp add: retire_def put_stream_def)
qed

lemma apply_event_closes:
  assumes "distinct_keys (live t)" "map_of (live t) i = Some s" "transition (st_state s) e = Inr Closed"
  shows "apply_event i e t = (Inr Closed, retire i t)"
  using assms retire_put [OF assms(1,2), of "s\<lparr>st_state := Closed\<rparr>"]
  by (simp add: apply_event_def Let_def is_closed_def)

lemma apply_event_moves:
  assumes "map_of (live t) i = Some s" "transition (st_state s) e = Inr n" "n \<noteq> Closed"
  shows "apply_event i e t = (Inr n, put_stream i (s\<lparr>st_state := n\<rparr>) t)"
  using assms by (simp add: apply_event_def is_closed_def)

lemma apply_event_illegal:
  assumes "map_of (live t) i = Some s" "transition (st_state s) e = Inl c"
  shows "apply_event i e t = (Inl \<lparr>serr_stream = i, serr_code = c\<rparr>, t)"
  using assms by (simp add: apply_event_def)

lemma apply_event_absent:
  "map_of (live t) i = None \<Longrightarrow> snd (apply_event i e t) = t"
  by (simp add: apply_event_def)

lemma table_inv_apply:
  assumes "table_inv t"
  shows "table_inv (snd (apply_event i e t))"
proof (cases "map_of (live t) i")
  case (Some s)
  note dk = assms [unfolded table_inv_iff, THEN conjunct1]
  show ?thesis
  proof (cases "transition (st_state s) e")
    case (Inr n)
    show ?thesis
    proof (cases "n = Closed")
      case True
      with apply_event_closes [OF dk Some] Inr assms show ?thesis by (simp add: table_inv_retire)
    next
      case False
      with apply_event_moves [OF Some Inr] table_inv_put [OF assms Some, of "s\<lparr>st_state := n\<rparr>"]
      show ?thesis by simp
    qed
  qed (use Some assms in \<open>simp add: apply_event_def\<close>)
qed (use assms in \<open>simp add: apply_event_absent\<close>)

lemma insert_new_inv:
  assumes "table_inv t" "is_client_initiated i" "i \<le> max hp hl"
    "highest_peer_id t \<le> hp" "highest_local_id t \<le> hl" "\<not> has_key (live t) i"
  shows "table_inv (snd (insert_new i (t\<lparr>highest_peer_id := hp, highest_local_id := hl\<rparr>)))"
proof -
  have mono: "max (highest_peer_id t) (highest_local_id t) \<le> max hp hl"
    using assms(4,5) by (simp add: max.coboundedI1 max.coboundedI2)
  show ?thesis
    unfolding table_inv_iff
  proof (intro conjI allI impI)
    fix j s
    assume "map_of (live (snd (insert_new i (t\<lparr>highest_peer_id := hp, highest_local_id := hl\<rparr>)))) j = Some s"
    then show "entry_ok (snd (insert_new i (t\<lparr>highest_peer_id := hp, highest_local_id := hl\<rparr>))) j s"
      using assms(1,2,3) mono table_inv_live [OF assms(1), of j s]
      by (auto simp: insert_new_def Let_def entry_ok_def stream_new_def split: if_splits
          intro: order_trans)
  qed (use assms in \<open>auto simp: table_inv_iff insert_new_def Let_def live_count_def length_update_new\<close>)
qed

lemma beyond_high_not_live:
  assumes "table_inv t" "max (highest_peer_id t) (highest_local_id t) < i"
  shows "\<not> has_key (live t) i"
proof
  assume "has_key (live t) i"
  then obtain s where "map_of (live t) i = Some s" by (auto simp: has_key_def)
  from table_inv_live [OF assms(1) this] have "i \<le> max (highest_peer_id t) (highest_local_id t)"
    by (simp add: entry_ok_def)
  from leD [OF this] assms(2) show False by blast
qed

end
