(* ===== verification/Stream_Table_Props.thy ===== *)
theory Stream_Table_Props
  imports Stream_Table
begin

section \<open>What the stream table promises\<close>

subsection \<open>Opening streams: the identifier contract\<close>

text \<open>
  Both sides of the proxy open streams under the same contract: the client leg through
  \<^const>\<open>open_peer\<close>, the upstream leg through \<^const>\<open>open_local\<close>. The locale states it over a
  registry with a high-water mark, and proves once what the connection layer relies on: an
  identifier is accepted at most once, in increasing order, whatever happens in between.
\<close>

locale id_registry =
  fixes opn :: "stream_id \<Rightarrow> 't \<Rightarrow> ('t, open_rejection, 's) outcome"
    and high :: "'t \<Rightarrow> stream_id"
    and is_live :: "'t \<Rightarrow> stream_id \<Rightarrow> bool"
    and good :: "'t \<Rightarrow> bool"
  assumes accepted_above: "good t \<Longrightarrow> opn i t = (Inr s, u) \<Longrightarrow> high t < i"
    and accepted_marks: "good t \<Longrightarrow> opn i t = (Inr s, u) \<Longrightarrow> high u = i"
    and accepted_live: "good t \<Longrightarrow> opn i t = (Inr s, u) \<Longrightarrow> is_live u j \<longleftrightarrow> j = i \<or> is_live t j"
    and rejected_live: "good t \<Longrightarrow> opn i t = (Inl e, u) \<Longrightarrow> is_live u = is_live t"
    and high_mono: "good t \<Longrightarrow> high t \<le> high (snd (opn i t))"
    and good_step: "good t \<Longrightarrow> good (snd (opn i t))"
begin

text \<open>What may happen between two opens: anything that keeps the registry good and does not lower
  the mark.\<close>

lemma strictly_increasing:
  assumes "good t" "opn i t = (Inr s, u)" "good v" "high u \<le> high v" "opn j v = (Inr s', w)"
  shows "i < j"
  using accepted_above [OF assms(3,5)] accepted_marks [OF assms(1,2)] assms(4) by simp

lemma never_reopened:
  assumes "good t" "opn i t = (Inr s, u)" "good v" "high u \<le> high v"
  shows "\<exists>e. fst (opn i v) = Inl e"
proof (cases "fst (opn i v)")
  case (Inr s')
  then obtain w where "opn i v = (Inr s', w)" by (cases "opn i v") auto
  from strictly_increasing [OF assms this] show ?thesis by simp
qed blast

lemma below_mark_rejected:
  assumes "good t" "i \<le> high t"
  shows "\<exists>e. fst (opn i t) = Inl e"
proof (cases "fst (opn i t)")
  case (Inr s)
  then obtain u where "opn i t = (Inr s, u)" by (cases "opn i t") auto
  from accepted_above [OF assms(1) this] assms(2) show ?thesis by simp
qed blast

end

definition table_live :: "stream_table \<Rightarrow> stream_id \<Rightarrow> bool" where
  "table_live t = has_key (live t)"

text \<open>A connection plays one role: on the client leg no stream is opened by us, on the upstream
  leg none by the peer.\<close>

definition peer_role :: "stream_table \<Rightarrow> bool" where
  "peer_role t \<longleftrightarrow> table_inv t \<and> highest_local_id t = 0"

definition local_role :: "stream_table \<Rightarrow> bool" where
  "local_role t \<longleftrightarrow> table_inv t \<and> highest_peer_id t = 0"

lemma open_peer_accepted:
  assumes "open_peer i t = (Inr s, u)"
  shows "is_client_initiated i" "highest_peer_id t < i" "live_count t < max_concurrent t"
    "u = snd (insert_new i (t\<lparr>highest_peer_id := i\<rparr>))"
    "s = stream_new (initial_send_window t) (initial_recv_window t)"
  using assms by (auto simp: open_peer_def insert_new_def Let_def split: if_splits)

lemma open_peer_rejected:
  assumes "open_peer i t = (Inl e, u)"
  shows "live u = live t" "highest_peer_id t \<le> highest_peer_id u" "u = t \<or> u = t\<lparr>highest_peer_id := i\<rparr>"
  using assms by (auto simp: open_peer_def insert_new_def Let_def split: if_splits)

lemma open_local_accepted:
  assumes "open_local i t = (Inr s, u)"
  shows "is_client_initiated i" "highest_local_id t < i" "live_count t < max_concurrent t"
    "u = snd (insert_new i (t\<lparr>highest_local_id := i\<rparr>))"
    "s = stream_new (initial_send_window t) (initial_recv_window t)"
  using assms by (auto simp: open_local_def insert_new_def Let_def split: if_splits)

lemma open_local_rejected: "open_local i t = (Inl e, u) \<Longrightarrow> u = t"
  by (auto simp: open_local_def insert_new_def Let_def split: if_splits)

lemma insert_new_fields [simp]:
  "highest_peer_id (snd (insert_new i t)) = highest_peer_id t"
  "highest_local_id (snd (insert_new i t)) = highest_local_id t"
  "max_concurrent (snd (insert_new i t)) = max_concurrent t"
  "initial_send_window (snd (insert_new i t)) = initial_send_window t"
  "reclaimed (snd (insert_new i t)) = reclaimed t"
  "opened (snd (insert_new i t)) = Suc (opened t)"
  "live (snd (insert_new i t))
     = AList.update i (stream_new (initial_send_window t) (initial_recv_window t)) (live t)"
  by (simp_all add: insert_new_def Let_def)

lemma table_inv_raise_peer:
  assumes "table_inv t" "highest_peer_id t \<le> i"
  shows "table_inv (t\<lparr>highest_peer_id := i\<rparr>)"
proof -
  have "max (highest_peer_id t) (highest_local_id t) \<le> max i (highest_local_id t)"
    using assms(2) by (simp add: max.coboundedI1)
  then have "entry_ok (t\<lparr>highest_peer_id := i\<rparr>) j s" if "entry_ok t j s" for j s
    using entry_ok_mono [OF that, of "t\<lparr>highest_peer_id := i\<rparr>"] by simp
  then show ?thesis
    using assms(1) by (simp add: table_inv_iff live_count_def)
qed

lemma open_peer_inv:
  assumes "peer_role t"
  shows "peer_role (snd (open_peer i t))"
proof -
  have ti: "table_inv t" and role: "highest_local_id t = 0"
    using assms by (simp_all add: peer_role_def)
  obtain r u where o: "open_peer i t = (r, u)" by (cases "open_peer i t")
  show ?thesis
  proof (cases r)
    case (Inl e)
    with o open_peer_rejected [of i t e u] ti role table_inv_raise_peer [OF ti, of i]
    show ?thesis by (auto simp: peer_role_def)
  next
    case (Inr s)
    note acc = open_peer_accepted [OF o [unfolded Inr]]
    have "\<not> has_key (live t) i"
      using beyond_high_not_live [OF ti, of i] acc(2) role by (simp add: max_def word_gt_0)
    then have "table_inv (snd (insert_new i (t\<lparr>highest_peer_id := i, highest_local_id := 0\<rparr>)))"
      using acc(1,2) ti role by (intro insert_new_inv) auto
    moreover have "t\<lparr>highest_peer_id := i, highest_local_id := 0\<rparr> = t\<lparr>highest_peer_id := i\<rparr>"
      using role by simp
    ultimately show ?thesis using acc(4) o role by (simp add: peer_role_def)
  qed
qed

lemma open_local_inv:
  assumes "local_role t"
  shows "local_role (snd (open_local i t))"
proof -
  have ti: "table_inv t" and role: "highest_peer_id t = 0"
    using assms by (simp_all add: local_role_def)
  obtain r u where o: "open_local i t = (r, u)" by (cases "open_local i t")
  show ?thesis
  proof (cases r)
    case (Inl e)
    with o open_local_rejected [of i t e u] assms show ?thesis by simp
  next
    case (Inr s)
    note acc = open_local_accepted [OF o [unfolded Inr]]
    have "\<not> has_key (live t) i"
      using beyond_high_not_live [OF ti, of i] acc(2) role by (simp add: max_def word_gt_0)
    then have "table_inv (snd (insert_new i (t\<lparr>highest_peer_id := 0, highest_local_id := i\<rparr>)))"
      using acc(1,2) ti role by (intro insert_new_inv) auto
    moreover have "t\<lparr>highest_peer_id := 0, highest_local_id := i\<rparr> = t\<lparr>highest_local_id := i\<rparr>"
      using role by simp
    ultimately show ?thesis using acc(4) o role by (simp add: local_role_def)
  qed
qed

interpretation peer_ids: id_registry open_peer highest_peer_id table_live peer_role
proof
  fix t i
  assume "peer_role t"
  then show "peer_role (snd (open_peer i t))" by (rule open_peer_inv)
next
  fix t i
  assume "peer_role t"
  show "highest_peer_id t \<le> highest_peer_id (snd (open_peer i t))"
    by (auto simp: open_peer_def insert_new_def Let_def)
qed (auto dest: open_peer_accepted open_peer_rejected simp: table_live_def
    has_key_update [abs_def] open_peer_accepted(4) open_peer_rejected(1))

interpretation local_ids: id_registry open_local highest_local_id table_live local_role
proof
  fix t i
  assume "local_role t"
  then show "local_role (snd (open_local i t))" by (rule open_local_inv)
next
  fix t i
  assume "local_role t"
  show "highest_local_id t \<le> highest_local_id (snd (open_local i t))"
    by (auto simp: open_local_def insert_new_def Let_def)
qed (auto dest: open_local_accepted open_local_rejected simp: table_live_def
    has_key_update [abs_def] open_local_accepted(4))

subsection \<open>What the other operations leave alone\<close>

lemma retire_fields [simp]:
  "highest_peer_id (retire i t) = highest_peer_id t"
  "highest_local_id (retire i t) = highest_local_id t"
  "max_concurrent (retire i t) = max_concurrent t"
  "opened (retire i t) = opened t"
  by (simp_all add: retire_def split: option.splits)

lemma put_stream_fields [simp]:
  "highest_peer_id (put_stream i s t) = highest_peer_id t"
  "highest_local_id (put_stream i s t) = highest_local_id t"
  "max_concurrent (put_stream i s t) = max_concurrent t"
  "opened (put_stream i s t) = opened t"
  "live (put_stream i s t) = AList.update i s (live t)"
  "reclaimed (put_stream i s t) = reclaimed t"
  by (simp_all add: put_stream_def)

lemma apply_event_fields [simp]:
  "highest_peer_id (snd (apply_event i e t)) = highest_peer_id t"
  "highest_local_id (snd (apply_event i e t)) = highest_local_id t"
  "max_concurrent (snd (apply_event i e t)) = max_concurrent t"
  by (simp_all add: apply_event_def Let_def split: option.splits sum.splits)

lemma delta_streams_shape:
  "map fst (snd (delta_streams d al)) = map fst al"
  "map (st_state \<circ> snd) (snd (delta_streams d al)) = map (st_state \<circ> snd) al"
  "map (st_pending_conn_release \<circ> snd) (snd (delta_streams d al))
     = map (st_pending_conn_release \<circ> snd) al"
  by (induction d al rule: delta_streams.induct) (auto split: prod.splits sum.splits)

lemma delta_streams_entry:
  "(i, s) \<in> set (snd (delta_streams d al)) \<Longrightarrow> \<exists>s'. (i, s') \<in> set al \<and> st_state s = st_state s'"
  by (induction d al rule: delta_streams.induct) (auto split: prod.splits sum.splits)

lemma apply_initial_window_delta_fields [simp]:
  "highest_peer_id (snd (apply_initial_window_delta d t)) = highest_peer_id t"
  "highest_local_id (snd (apply_initial_window_delta d t)) = highest_local_id t"
  "max_concurrent (snd (apply_initial_window_delta d t)) = max_concurrent t"
  "live (snd (apply_initial_window_delta d t)) = snd (delta_streams d (live t))"
  by (simp_all add: apply_initial_window_delta_def split: prod.splits)

lemma length_delta_streams [simp]: "length (snd (delta_streams d al)) = length al"
  using arg_cong [OF delta_streams_shape(1), of length] by simp

lemma table_inv_delta:
  assumes "table_inv t"
  shows "table_inv (snd (apply_initial_window_delta d t))"
proof -
  have "distinct_keys (snd (delta_streams d (live t)))"
    using table_inv_distinct [OF assms] by (simp add: distinct_keys_def delta_streams_shape)
  moreover have "opened (snd (apply_initial_window_delta d t)) = opened t"
    "peak_concurrent (snd (apply_initial_window_delta d t)) = peak_concurrent t"
    by (simp_all add: apply_initial_window_delta_def split: prod.splits)
  ultimately show ?thesis
    using assms by (fastforce simp: table_inv_def live_count_def dest: delta_streams_entry)
qed

lemma live_count_retire: "live_count (retire i t) \<le> live_count t"
  using length_alist_delete_le [of i "live t"]
  by (simp add: retire_def live_count_def split: option.splits)

lemma live_count_put: "map_of (live t) i = Some s \<Longrightarrow> live_count (put_stream i s' t) = live_count t"
  by (simp add: live_count_def length_update_old map_of_old_key)

lemma live_count_apply: "live_count (snd (apply_event i e t)) \<le> live_count t"
  using live_count_retire [of i] live_count_put [of t i]
  by (auto simp: apply_event_def Let_def split: option.splits sum.splits) (metis order_refl)+

subsection \<open>The life of a client connection's table\<close>

text \<open>
  Every sequence of operations the client leg performs on its table, with what is remembered
  about it: the identifiers accepted, in order; those seen (accepted, or refused for capacity);
  and the largest concurrency limit that was ever in force. Streams are written through
  \<^verbatim>\<open>&mut Stream\<close> except for their state, which only the state machine moves.
\<close>

inductive table_history ::
    "nat \<Rightarrow> int \<Rightarrow> int \<Rightarrow> stream_table \<Rightarrow> stream_id list \<Rightarrow> stream_id list \<Rightarrow> nat \<Rightarrow> bool"
  for m sw rw where
  th_new: "table_history m sw rw (stream_table_new m sw rw) [] [] m"
| th_accept: "table_history m sw rw t acc seen lim \<Longrightarrow> open_peer i t = (Inr s, u) \<Longrightarrow>
     table_history m sw rw u (acc @ [i]) (i # seen) lim"
| th_refuse: "table_history m sw rw t acc seen lim \<Longrightarrow> open_peer i t = (Inl Refused, u) \<Longrightarrow>
     table_history m sw rw u acc (i # seen) lim"
| th_illegal: "table_history m sw rw t acc seen lim \<Longrightarrow> open_peer i t = (Inl (RejectProtocol w), u) \<Longrightarrow>
     table_history m sw rw u acc seen lim"
| th_apply: "table_history m sw rw t acc seen lim \<Longrightarrow>
     table_history m sw rw (snd (apply_event i e t)) acc seen lim"
| th_retire: "table_history m sw rw t acc seen lim \<Longrightarrow>
     table_history m sw rw (retire i t) acc seen lim"
| th_reclaim: "table_history m sw rw t acc seen lim \<Longrightarrow>
     table_history m sw rw (snd (take_reclaimed t)) acc seen lim"
| th_limit: "table_history m sw rw t acc seen lim \<Longrightarrow>
     table_history m sw rw (set_max_concurrent n t) acc seen (max lim n)"
| th_delta: "table_history m sw rw t acc seen lim \<Longrightarrow>
     table_history m sw rw (snd (apply_initial_window_delta d t)) acc seen lim"
| th_write: "table_history m sw rw t acc seen lim \<Longrightarrow> map_of (live t) i = Some s \<Longrightarrow>
     st_state s' = st_state s \<Longrightarrow> table_history m sw rw (put_stream i s' t) acc seen lim"

definition seen_mark :: "stream_id list \<Rightarrow> stream_id" where
  "seen_mark seen = (case seen of [] \<Rightarrow> 0 | i # _ \<Rightarrow> i)"

definition history_inv :: "stream_table \<Rightarrow> stream_id list \<Rightarrow> stream_id list \<Rightarrow> nat \<Rightarrow> bool" where
  "history_inv t acc seen lim \<longleftrightarrow>
     peer_role t \<and> sorted_wrt (<) acc \<and> set acc \<subseteq> set seen \<and>
     (\<forall>i \<in> set acc. is_client_initiated i) \<and>
     highest_peer_id t = seen_mark seen \<and> (\<forall>i \<in> set seen. i \<le> seen_mark seen \<and> i \<noteq> 0) \<and>
     (\<forall>i. has_key (live t) i \<longrightarrow> i \<in> set acc) \<and>
     max_concurrent t \<le> lim \<and> live_count t \<le> lim"

lemma history_inv_quiet:
  assumes "history_inv t acc seen lim" "table_inv u" "highest_peer_id u = highest_peer_id t"
    "highest_local_id u = highest_local_id t" "max_concurrent u \<le> lim'"
    "\<And>i. has_key (live u) i \<Longrightarrow> has_key (live t) i" "live_count u \<le> live_count t" "lim \<le> lim'"
  shows "history_inv u acc seen lim'"
  using assms by (auto simp: history_inv_def peer_role_def)

lemma history_inv_accept:
  assumes "history_inv t acc seen lim" "open_peer i t = (Inr s, u)"
  shows "history_inv u (acc @ [i]) (i # seen) lim"
proof -
  have role: "peer_role t" using assms(1) by (simp add: history_inv_def)
  note a = open_peer_accepted [OF assms(2)]
  have above: "\<forall>j \<in> set seen. j < i"
    using assms(1) a(2) by (auto simp: history_inv_def)
  have "live_count u \<le> Suc (live_count t)"
    unfolding a(4) by (simp add: live_count_def)
      (metis length_update_new length_update_old le_refl le_SucI)
  then have "live_count u \<le> lim" using a(3) assms(1) by (simp add: history_inv_def)
  moreover have "peer_role u" using open_peer_inv [OF role, of i] assms(2) by simp
  moreover have "i \<noteq> 0" using a(1) by (simp add: is_client_initiated_def)
  moreover have "highest_peer_id u = i" "max_concurrent u = max_concurrent t"
    "\<And>j. has_key (live u) j \<longleftrightarrow> j = i \<or> has_key (live t) j"
    unfolding a(4) by simp_all
  ultimately show ?thesis
    using assms(1) above a(1) by (fastforce simp: history_inv_def seen_mark_def sorted_wrt_append)
qed

lemma history_inv_refuse:
  assumes "history_inv t acc seen lim" "open_peer i t = (Inl Refused, u)"
  shows "history_inv u acc (i # seen) lim"
proof -
  have u: "u = t\<lparr>highest_peer_id := i\<rparr>" and i: "is_client_initiated i" "highest_peer_id t < i"
    using assms(2) by (auto simp: open_peer_def insert_new_def Let_def split: if_splits)
  have "peer_role u" using open_peer_inv [of t i] assms by (simp add: history_inv_def)
  then show ?thesis
    using assms(1) i u
    by (fastforce simp: history_inv_def seen_mark_def live_count_def is_client_initiated_def)
qed

lemma table_history_inv:
  "table_history m sw rw t acc seen lim \<Longrightarrow> history_inv t acc seen lim"
proof (induction rule: table_history.induct)
  case th_new
  then show ?case
    by (simp add: history_inv_def peer_role_def seen_mark_def)
      (simp add: stream_table_new_def stream_id_connection_def live_count_def has_key_def)
next
  case (th_accept t acc seen lim i s u)
  then show ?case by (blast intro: history_inv_accept)
next
  case (th_refuse t acc seen lim i u)
  then show ?case by (blast intro: history_inv_refuse)
next
  case (th_illegal t acc seen lim i w u)
  then have "u = t" by (auto simp: open_peer_def insert_new_def Let_def split: if_splits)
  with th_illegal show ?case by simp
next
  case (th_apply t acc seen lim i e)
  then have "table_inv (snd (apply_event i e t))"
    by (intro table_inv_apply) (simp add: history_inv_def peer_role_def)
  then show ?case using th_apply.IH live_count_apply [of i e t]
    by (intro history_inv_quiet [OF th_apply.IH])
      (auto simp: history_inv_def apply_event_def Let_def retire_def map_of_old_key
        split: option.splits sum.splits if_splits)
next
  case (th_retire t acc seen lim i)
  then have "table_inv (retire i t)"
    by (intro table_inv_retire) (simp add: history_inv_def peer_role_def)
  then show ?case using th_retire.IH live_count_retire [of i t]
    by (intro history_inv_quiet [OF th_retire.IH])
      (auto simp: history_inv_def retire_def split: option.splits)
next
  case (th_reclaim t acc seen lim)
  then show ?case
    by (auto simp: history_inv_def take_reclaimed_def peer_role_def table_inv_def live_count_def)
next
  case (th_limit t acc seen lim n)
  then show ?case
    by (auto simp: history_inv_def set_max_concurrent_def peer_role_def table_inv_def live_count_def)
next
  case (th_delta t acc seen lim d)
  then have "table_inv (snd (apply_initial_window_delta d t))"
    by (intro table_inv_delta) (simp add: history_inv_def peer_role_def)
  then show ?case using th_delta.IH
    by (intro history_inv_quiet [OF th_delta.IH])
      (auto simp: history_inv_def live_count_def has_key_iff delta_streams_shape
        simp flip: set_map)
next
  case (th_write t acc seen lim i s s')
  then have ti: "table_inv t" by (simp add: history_inv_def peer_role_def)
  from table_inv_live [OF ti th_write.hyps(2)] th_write.hyps(3)
  have "table_inv (put_stream i s' t)"
    by (intro table_inv_put [OF ti th_write.hyps(2)]) (simp add: entry_ok_def)
  then show ?case using th_write live_count_put [OF th_write.hyps(2), of s'] map_of_old_key
    by (intro history_inv_quiet [OF th_write.IH]) (auto simp: history_inv_def)
qed

text \<open>C32. Identifiers are used once, in order: over any life of a client connection the
  identifiers accepted are odd and strictly increasing, every live stream is one of them, and no
  identifier that was accepted before, is live, or lies below one already seen can be accepted
  again.\<close>

theorem stream_ids_used_once:
  assumes "table_history m sw rw t acc seen lim"
  shows "sorted_wrt (<) acc \<and> distinct acc \<and> list_all odd acc \<and>
    {i. table_live t i} \<subseteq> set acc \<and>
    (i \<in> set seen \<longrightarrow> \<not> is_ok (fst (open_peer i t)))"
proof -
  note inv = table_history_inv [OF assms]
  have "i \<in> set seen \<Longrightarrow> \<exists>e. fst (open_peer i t) = Inl e"
    using inv by (intro peer_ids.below_mark_rejected) (auto simp: history_inv_def)
  moreover have "distinct acc"
    using inv strict_sorted_iff [of acc] by (simp add: history_inv_def)
  ultimately show ?thesis
    using inv by (auto simp: history_inv_def list_all_iff is_client_initiated_odd table_live_def)
qed

definition table_1 :: stream_table where
  "table_1 = snd (open_peer 1 (stream_table_new 1 65535 65535))"

definition table_13 :: stream_table where
  "table_13 = snd (open_peer 3 table_1)"

lemma table_1_history: "table_history 1 65535 65535 table_1 [1] [1] 1"
proof -
  have "open_peer 1 (stream_table_new 1 65535 65535) = (Inr (stream_new 65535 65535), table_1)"
    by (simp add: table_1_def open_peer_def stream_table_new_def is_client_initiated_def
        stream_id_connection_def live_count_def insert_new_def Let_def)
  from th_accept [OF th_new this] show ?thesis by simp
qed

lemma table_13_history: "table_history 1 65535 65535 table_13 [1] [3, 1] 1"
proof -
  have lt: "\<not> (3 :: stream_id) \<le> 1" by (simp add: word_le_nat_alt)
  have "open_peer 3 table_1 = (Inl Refused, table_13)"
    using lt by (simp add: table_13_def table_1_def open_peer_def stream_table_new_def
        is_client_initiated_def stream_id_connection_def live_count_def insert_new_def Let_def)
  from th_refuse [OF table_1_history this] show ?thesis .
qed

theorem stream_ids_used_once_witness:
  "table_history 1 65535 65535 table_13 [1] [3, 1] 1 \<and> \<not> is_ok (fst (open_peer 3 table_13))"
  using table_13_history stream_ids_used_once [OF table_13_history, of 3] by simp

text \<open>What a frame's identifier means is decided without a record of finished streams: after
  any life of a client connection, an identifier with no live stream is idle exactly when it is
  above every identifier the peer ever opened or was refused, and closed otherwise; and an event
  on it is a connection-scoped \<^verbatim>\<open>PROTOCOL_ERROR\<close> in the first case, \<^verbatim>\<open>STREAM_CLOSED\<close> in the second.\<close>

theorem lookup_tells_closed_from_idle:
  assumes "table_history m sw rw t acc seen lim" "i \<noteq> 0"
  shows "lookup_stream i t =
      (case get_stream i t of Some s \<Rightarrow> LookupLive s
       | None \<Rightarrow> if list_all (\<lambda>j. j < i) seen then LookupIdle else LookupClosed)
    \<and> (get_stream i t = None \<longrightarrow>
        fst (apply_event i e t) = Inl \<lparr>serr_stream = i, serr_code =
          (if list_all (\<lambda>j. j < i) seen then ProtocolError else StreamClosed)\<rparr>)"
proof -
  note inv = table_history_inv [OF assms(1)]
  have "i \<le> max (highest_peer_id t) (highest_local_id t) \<longleftrightarrow> i \<le> seen_mark seen"
    using inv assms(2) by (auto simp: history_inv_def peer_role_def max_def)
  also have "\<dots> \<longleftrightarrow> \<not> list_all (\<lambda>j. j < i) seen"
    using inv assms(2) by (cases seen) (auto simp: history_inv_def seen_mark_def list_all_iff not_le not_less)
  finally show ?thesis
    by (auto simp: lookup_stream_def get_stream_def apply_event_def split: option.splits)
qed

theorem lookup_tells_closed_from_idle_witness:
  "lookup_stream 3 table_13 = LookupClosed \<and> lookup_stream 5 table_13 = LookupIdle"
proof -
  have "get_stream 3 table_13 = None" "get_stream 5 table_13 = None"
    by (simp_all add: get_stream_def table_13_def table_1_def open_peer_def stream_table_new_def
        is_client_initiated_def stream_id_connection_def live_count_def insert_new_def Let_def)
  then show ?thesis
    using lookup_tells_closed_from_idle [OF table_13_history, of 3]
      lookup_tells_closed_from_idle [OF table_13_history, of 5] by simp
qed

text \<open>The concurrency limit holds: the number of live streams never exceeds the largest limit
  that was ever in force (a lowered limit is not retroactive), a legal new identifier is refused
  exactly when the limit in force is already met, and a refusal processes nothing: no stream is
  created or changed.\<close>

theorem concurrency_limit_holds:
  assumes "table_history m sw rw t acc seen lim"
  shows "live_count t \<le> lim \<and>
    (is_client_initiated i \<and> list_all (\<lambda>j. j < i) seen \<longrightarrow>
      (fst (open_peer i t) = Inl Refused \<longleftrightarrow> max_concurrent t \<le> live_count t)) \<and>
    (fst (open_peer i t) = Inl Refused \<longrightarrow> live (snd (open_peer i t)) = live t)"
proof -
  note inv = table_history_inv [OF assms]
  have "highest_peer_id t < i" if "is_client_initiated i" "list_all (\<lambda>j. j < i) seen"
    using inv that
    by (cases seen) (auto simp: history_inv_def seen_mark_def is_client_initiated_def word_gt_0)
  then show ?thesis
    using inv by (auto simp: history_inv_def open_peer_def insert_new_def Let_def not_le not_less)
qed

theorem concurrency_limit_holds_witness:
  "live_count table_13 \<le> 1 \<and> fst (open_peer 5 table_13) = Inl Refused"
  using concurrency_limit_holds [OF table_13_history, of 5]
  by (simp add: is_client_initiated_def table_13_def table_1_def open_peer_def stream_table_new_def
      stream_id_connection_def live_count_def insert_new_def Let_def)

subsection \<open>Connection credit is never lost\<close>

text \<open>The connection-level receive credit the table owes: what live streams still hold and what
  retired ones left behind.\<close>

definition owed :: "stream_table \<Rightarrow> nat" where
  "owed t = sum_list (map (st_pending_conn_release \<circ> snd) (live t)) + reclaimed t"

lemma sum_delete:
  assumes "distinct_keys al" "map_of al i = Some s"
  shows "sum_list (map (f \<circ> snd) al) = f s + sum_list (map (f \<circ> snd) (AList.delete i al) :: nat list)"
  using assms
proof (induction al)
  case (Cons p al)
  have "distinct_keys al" using Cons.prems(1) by (simp add: distinct_keys_def)
  moreover have "AList.delete i al = al" if "fst p = i"
  proof -
    have "i \<notin> fst ` set al" using Cons.prems(1) that by (auto simp: distinct_keys_def)
    then show ?thesis unfolding AList.delete_eq by (force intro: filter_True)
  qed
  ultimately show ?case
    using Cons by (cases p) (auto simp: AList.delete_eq split: if_splits)
qed simp

lemma sum_update_same:
  assumes "map_of al i = Some s" "f s' = (f s :: nat)" "distinct_keys al"
  shows "sum_list (map (f \<circ> snd) (AList.update i s' al)) = sum_list (map (f \<circ> snd) al)"
  using assms by (induction al) (auto simp: distinct_keys_def split: if_splits)

lemma owed_retire:
  assumes "table_inv t" "owed t \<le> u32_max"
  shows "owed (retire i t) = owed t"
proof (cases "map_of (live t) i")
  case (Some s)
  note sum = sum_delete [OF table_inv_distinct [OF assms(1)] Some, of st_pending_conn_release]
  then have "reclaimed t + st_pending_conn_release s \<le> u32_max"
    using assms(2) by (simp add: owed_def)
  with sum Some show ?thesis by (simp add: retire_def owed_def sat_add_u32_exact)
qed (simp add: retire_def)

lemma owed_put:
  assumes "table_inv t" "map_of (live t) i = Some s"
    "st_pending_conn_release s' = st_pending_conn_release s"
  shows "owed (put_stream i s' t) = owed t"
  using sum_update_same [OF assms(2,3) table_inv_distinct [OF assms(1)]] by (simp add: owed_def)

lemma owed_apply:
  assumes "table_inv t" "owed t \<le> u32_max"
  shows "owed (snd (apply_event i e t)) = owed t"
proof (cases "map_of (live t) i")
  case (Some s)
  show ?thesis
  proof (cases "transition (st_state s) e")
    case (Inr n)
    then show ?thesis
      using apply_event_closes [OF table_inv_distinct [OF assms(1)] Some, of e]
        apply_event_moves [OF Some Inr] owed_retire [OF assms, of i]
        owed_put [OF assms(1) Some, of "s\<lparr>st_state := n\<rparr>"]
      by (cases "n = Closed") auto
  qed (use Some in \<open>simp add: apply_event_def\<close>)
qed (simp add: apply_event_absent)

lemma owed_insert:
  assumes "\<not> has_key (live t) i"
  shows "owed (snd (insert_new i t)) = owed t"
proof -
  have "AList.update i v al = al @ [(i, v)]" if "\<not> has_key al i" for v :: stream and al
    using that by (induction al) (auto simp: has_key_def split: if_splits)
  with assms show ?thesis by (simp add: owed_def stream_new_def)
qed

text \<open>Credit is conserved: as long as what is owed fits a \<^verbatim>\<open>u32\<close> (it is bounded by the
  connection window), retiring a stream, applying an event that closes it, or opening another
  changes nothing of what the connection is owed back, and draining hands over exactly the part
  retired streams left behind. No abandoned transfer leaks connection window.\<close>

theorem connection_credit_conserved:
  assumes "peer_role t" "owed t \<le> u32_max"
  shows "owed (retire i t) = owed t \<and> owed (snd (apply_event i e t)) = owed t \<and>
    owed (snd (open_peer i t)) = owed t \<and>
    fst (take_reclaimed t) + owed (snd (take_reclaimed t)) = owed t \<and>
    \<not> table_live (retire i t) i"
proof -
  have ti: "table_inv t" and role: "highest_local_id t = 0"
    using assms(1) by (simp_all add: peer_role_def)
  have "owed (snd (open_peer i t)) = owed t"
  proof (cases "fst (open_peer i t)")
    case (Inl e)
    then show ?thesis by (auto simp: open_peer_def insert_new_def owed_def Let_def split: if_splits)
  next
    case (Inr s)
    then obtain u where o: "open_peer i t = (Inr s, u)" by (cases "open_peer i t") auto
    note a = open_peer_accepted [OF o]
    have "\<not> has_key (live t) i"
      using beyond_high_not_live [OF ti, of i] a(2) role by (simp add: max_def word_gt_0)
    with owed_insert [of "t\<lparr>highest_peer_id := i\<rparr>" i] a(4) o show ?thesis
      by (simp add: owed_def)
  qed
  then show ?thesis
    using owed_retire [OF ti assms(2)] owed_apply [OF ti assms(2)]
    by (auto simp: take_reclaimed_def owed_def table_live_def retire_def has_key_def
        split: option.splits)
qed

definition table_owing :: stream_table where
  "table_owing = put_stream 1 ((stream_new 65535 65535)\<lparr>st_state := Open, st_pending_conn_release := 700\<rparr>) table_1"

theorem connection_credit_conserved_witness:
  "owed table_owing = 700 \<and> owed (retire 1 table_owing) = 700 \<and>
   fst (take_reclaimed (retire 1 table_owing)) = 700"
proof -
  have l: "live table_owing = [(1, (stream_new 65535 65535)\<lparr>st_state := Open, st_pending_conn_release := 700\<rparr>)]"
    by (simp add: table_owing_def put_stream_def table_1_def open_peer_def stream_table_new_def
        is_client_initiated_def stream_id_connection_def live_count_def insert_new_def Let_def)
  have f: "highest_local_id table_owing = 0" "highest_peer_id table_owing = 1"
    "peak_concurrent table_owing = 1" "opened table_owing = 1" "reclaimed table_owing = 0"
    by (simp_all add: table_owing_def put_stream_def table_1_def open_peer_def stream_table_new_def
        is_client_initiated_def stream_id_connection_def live_count_def insert_new_def Let_def)
  have role: "peer_role table_owing"
    using l f by (simp add: peer_role_def table_inv_def distinct_keys_def live_count_def
        is_client_initiated_def stream_new_def)
  have "owed table_owing = 700" using l f by (simp add: owed_def)
  moreover have "fst (take_reclaimed (retire 1 table_owing)) = 700"
    using l f by (simp add: take_reclaimed_def retire_def sat_add_u32_def)
  ultimately show ?thesis using connection_credit_conserved [OF role, of 1] by simp
qed

subsection \<open>A change of INITIAL\_WINDOW\_SIZE\<close>

lemma delta_streams_ok:
  assumes "delta_streams d al = (Inr (), al')"
  shows "al' = map (\<lambda>(i, s). (i, s\<lparr>st_send_window := snd (apply_delta d (st_send_window s))\<rparr>)) al
    \<and> list_all (\<lambda>(i, s). available (st_send_window s) + d \<le> max_window_size) al"
  using assms
proof (induction al arbitrary: al')
  case (Cons p al)
  obtain i s where p: "p = (i, s)" by (cases p)
  obtain r w where w: "apply_delta d (st_send_window s) = (r, w)"
    by (cases "apply_delta d (st_send_window s)")
  with Cons.prems p obtain u where r: "r = Inr u" by (cases r) auto
  obtain q al2 where d: "delta_streams d al = (q, al2)" by (cases "delta_streams d al")
  have q: "q = Inr ()" and al': "al' = (i, s\<lparr>st_send_window := w\<rparr>) # al2"
    using Cons.prems p w r d by auto
  from Cons.IH [of al2] d q have
    "al2 = map (\<lambda>(i, s). (i, s\<lparr>st_send_window := snd (apply_delta d (st_send_window s))\<rparr>)) al"
    "list_all (\<lambda>(i, s). available (st_send_window s) + d \<le> max_window_size) al" by auto
  then show ?case
    using p w r al' by (auto simp: apply_delta_def Let_def split: if_splits)
qed simp

lemma map_of_map_value: "map_of (map (\<lambda>(i, s). (i, f s)) al) i = map_option f (map_of al i)"
  by (induction al) auto

text \<open>A SETTINGS change reaches every open stream: when the fan-out succeeds, each live
  stream's send window has moved by exactly the difference (possibly below zero) and nothing else
  of any stream has changed; streams opened later start from the new value.\<close>

theorem window_delta_reaches_every_stream:
  assumes "apply_initial_window_delta d t = (Inr (), u)"
    "\<And>i s. get_stream i t = Some s \<Longrightarrow> window_ok (st_send_window s) \<and> i32_min \<le> available (st_send_window s) + d"
    "in_i32 (initial_send_window t + d)"
  shows "get_stream i u = map_option
      (\<lambda>s. s\<lparr>st_send_window := Window (available (st_send_window s) + d)\<rparr>) (get_stream i t)
    \<and> initial_send_window u = initial_send_window t + d"
proof -
  from assms(1) obtain al where d: "delta_streams d (live t) = (Inr (), al)"
    and u: "u = t\<lparr>initial_send_window := sat_add_i32 (initial_send_window t) d, live := al\<rparr>"
    by (auto simp: apply_initial_window_delta_def split: prod.splits)
  note al = delta_streams_ok [OF d]
  have "map_of al i = map_option (\<lambda>s. s\<lparr>st_send_window := snd (apply_delta d (st_send_window s))\<rparr>) (map_of (live t) i)"
    using al by (simp add: map_of_map_value)
  also have "\<dots> = map_option (\<lambda>s. s\<lparr>st_send_window := Window (available (st_send_window s) + d)\<rparr>) (map_of (live t) i)"
  proof (cases "map_of (live t) i")
    case (Some s)
    have "available (st_send_window s) + d \<le> max_window_size"
      using al map_of_SomeD [OF Some] by (auto simp: list_all_iff)
    then have "apply_delta d (st_send_window s) = (Inr (), Window (available (st_send_window s) + d))"
      using assms(2) [of i s] Some by (intro apply_delta_ok) (auto simp: get_stream_def)
    with Some show ?thesis by simp
  qed simp
  finally show ?thesis
    using u assms(3) by (auto simp: get_stream_def sat_add_i32_def in_i32_def)
qed

theorem window_delta_reaches_every_stream_witness:
  "map_option (\<lambda>s. available (st_send_window s)) (get_stream 1 (snd (apply_initial_window_delta (- 65535) table_1)))
   = Some 0"
proof -
  have l: "live table_1 = [(1, stream_new 65535 65535)]" and i: "initial_send_window table_1 = 65535"
    by (simp_all add: table_1_def open_peer_def stream_table_new_def is_client_initiated_def
        stream_id_connection_def live_count_def insert_new_def Let_def)
  have "fst (apply_initial_window_delta (- 65535) table_1) = Inr ()"
    using l by (simp add: apply_initial_window_delta_def apply_delta_def stream_new_def
        max_window_size_def Let_def)
  then have run: "apply_initial_window_delta (- 65535) table_1
      = (Inr (), snd (apply_initial_window_delta (- 65535) table_1))"
    by (metis prod.collapse)
  have pre: "window_ok (st_send_window s) \<and> i32_min \<le> available (st_send_window s) + - 65535"
    if "get_stream j table_1 = Some s" for j s
    using that l by (auto simp: get_stream_def stream_new_def window_ok_def in_i32_def split: if_splits)
  have "in_i32 (initial_send_window table_1 + - 65535)" using i by (simp add: in_i32_def)
  from window_delta_reaches_every_stream [OF run, where i = 1] pre this
  have "get_stream 1 (snd (apply_initial_window_delta (- 65535) table_1))
      = map_option (\<lambda>s. s\<lparr>st_send_window := Window (available (st_send_window s) + - 65535)\<rparr>) (get_stream 1 table_1)"
    by blast
  with l show ?thesis by (simp add: get_stream_def stream_new_def)
qed

end
