(* ===== verification/F64.thy ===== *)
theory F64
imports Prelude Complex_Main
begin

section \<open>Double-precision arithmetic\<close>

text \<open>
  The \<^verbatim>\<open>f64\<close> the guard and the daemon's settings compute with: a finite double is the
  rational number it stands for, or the value is positive infinity (which \<^verbatim>\<open>Limits::permissive\<close>
  uses). Every operation rounds its exact result to the nearest double, ties to even, with a
  fraction of 52 bits, gradual underflow below \<open>2 ^ -1022\<close> and overflow to infinity. NaN and negative
  infinity do not occur in the code modelled (it guards the product of an infinite rate) and are
  left out, and so is the sign of zero, which no comparison sees.
\<close>

datatype f64 = Finite rat | Infinite

subsection \<open>Rounding\<close>

definition pow2 :: "int \<Rightarrow> rat" where
  "pow2 k = (if 0 \<le> k then of_int (2 ^ nat k) else 1 / of_int (2 ^ nat (- k)))"

text \<open>The exponent of the leading binary digit of a positive number.\<close>

function bit_length :: "int \<Rightarrow> nat" where
  "bit_length n = (if n \<le> 0 then 0 else Suc (bit_length (n div 2)))"
  by pat_completeness auto
termination by (relation "measure nat") auto

declare bit_length.simps [simp del]

definition top_bit :: "rat \<Rightarrow> int" where
  "top_bit x = (case quotient_of x of (n, d) \<Rightarrow>
     let k = int (bit_length n) - int (bit_length d)
     in if pow2 k \<le> x then k else k - 1)"

definition round_even :: "rat \<Rightarrow> int" where
  "round_even x =
     (let f = \<lfloor>x\<rfloor>; r = x - of_int f
      in if r < 1 / 2 \<or> (r = 1 / 2 \<and> even f) then f else f + 1)"

text \<open>The unit in the last place of the doubles around a number.\<close>

definition ulp :: "rat \<Rightarrow> rat" where
  "ulp x = pow2 (max (top_bit \<bar>x\<bar> - 52) (- 1074))"

text \<open>The nearest double, the exponent's upper bound apart; \<^verbatim>\<open>f64_round\<close> adds the overflow.\<close>

definition f64_of :: "rat \<Rightarrow> rat" where
  "f64_of x = (if x = 0 then 0 else of_int (round_even (x / ulp x)) * ulp x)"

definition f64_round :: "rat \<Rightarrow> f64" where
  "f64_round x = (let y = f64_of x in if y \<le> 0 \<or> top_bit y < 1024 then Finite y else Infinite)"

subsection \<open>The operations the code uses\<close>

fun f64_add :: "f64 \<Rightarrow> f64 \<Rightarrow> f64" where
  "f64_add (Finite x) (Finite y) = f64_round (x + y)"
| "f64_add Infinite y = Infinite"
| "f64_add x Infinite = Infinite"

fun f64_min :: "f64 \<Rightarrow> f64 \<Rightarrow> f64" where
  "f64_min (Finite x) (Finite y) = Finite (min x y)"
| "f64_min Infinite y = y"
| "f64_min x Infinite = x"

fun f64_less_1 :: "f64 \<Rightarrow> bool" where
  "f64_less_1 (Finite x) = (x < 1)"
| "f64_less_1 Infinite = False"

text \<open>\<^verbatim>\<open>Duration::as_secs_f64\<close> converts the whole seconds and the nanoseconds apart, divides the
  latter and adds: three roundings. The seconds of a \<^verbatim>\<open>Duration\<close> fit 64 bits, so none of them overflows.\<close>

definition as_secs :: "nat \<Rightarrow> rat" where
  "as_secs ns =
     (let n = int ns
      in f64_of (f64_of (of_int (n div 1000000000)) + f64_of (of_int (n mod 1000000000) / 1000000000)))"

subsection \<open>How close the nearest double is\<close>

lemma pow2_pos [simp]: "0 < pow2 k"
  by (simp add: pow2_def)

lemma pow2_nonneg [simp]: "0 \<le> pow2 k"
  by (simp add: pow2_def)

lemma pow2_nonzero [simp]: "pow2 k \<noteq> 0"
  by (simp add: pow2_def)

lemma pow2_powi: "pow2 k = 2 powi k"
  by (simp only: pow2_def power_int_def divide_inverse power_inverse mult_1_left of_int_power
      of_int_numeral)

lemma pow2_add: "pow2 (a + b) = pow2 a * pow2 b"
  by (simp add: pow2_powi power_int_add)

lemma pow2_mono: "a \<le> b \<Longrightarrow> pow2 a \<le> pow2 b"
  by (simp add: pow2_powi power_int_increasing)

lemma bit_length_bounds:
  assumes "0 < n"
  shows "0 < bit_length n \<and> 2 ^ (bit_length n - 1) \<le> n \<and> n < 2 ^ bit_length n"
  using assms
proof (induction n rule: bit_length.induct)
  case (1 n)
  have step: "bit_length n = Suc (bit_length (n div 2))" using 1 by (simp add: bit_length.simps [of n])
  show ?case
  proof (cases "n = 1")
    case True
    then show ?thesis using step by (simp add: bit_length.simps)
  next
    case False
    then have "0 < n div 2" using 1(2) by simp
    then have "0 < bit_length (n div 2)" "2 ^ (bit_length (n div 2) - 1) \<le> n div 2" "n div 2 < 2 ^ bit_length (n div 2)"
      using 1 by auto
    then show ?thesis using step by (cases "bit_length (n div 2)") auto
  qed
qed

lemma top_bit_le:
  assumes "0 < x"
  shows "pow2 (top_bit x) \<le> x"
proof -
  obtain n d where q: "quotient_of x = (n, d)" by (cases "quotient_of x")
  have d: "0 < d" and x: "x = of_int n / of_int d"
    using q quotient_of_denom_pos quotient_of_div by auto
  have n: "0 < n" using assms x d by (simp add: zero_less_divide_iff)
  let ?fn = "bit_length n" and ?fd = "bit_length d"
  have lo: "2 ^ (?fn - 1) \<le> n" and hi: "d < 2 ^ ?fd" and fn: "0 < ?fn"
    using bit_length_bounds n d by auto
  have "pow2 (int ?fn - int ?fd - 1) * of_int d \<le> pow2 (int ?fn - int ?fd - 1) * 2 ^ ?fd"
  proof -
    have "(of_int d :: rat) \<le> of_int (2 ^ ?fd)" using hi by (simp only: of_int_le_iff)
    then show ?thesis by (intro mult_left_mono) simp_all
  qed
  also have "\<dots> = pow2 (int (?fn - 1))"
    using fn by (simp add: pow2_powi power_int_diff of_nat_diff)
  also have "\<dots> \<le> of_int n"
  proof -
    have "(of_int (2 ^ (?fn - 1)) :: rat) \<le> of_int n" using lo by (simp only: of_int_le_iff)
    then show ?thesis by (simp add: pow2_powi)
  qed
  finally have "pow2 (int ?fn - int ?fd - 1) \<le> x"
    using d x by (simp add: pos_le_divide_eq)
  then show ?thesis by (simp add: top_bit_def q Let_def)
qed

lemma f64_round_in_range:
  assumes "f64_of x < 2 ^ 1024"
  shows "f64_round x = Finite (f64_of x)"
proof (cases "0 < f64_of x")
  case True
  have "top_bit (f64_of x) < 1024"
  proof (rule ccontr)
    assume "\<not> top_bit (f64_of x) < 1024"
    then have "pow2 1024 \<le> pow2 (top_bit (f64_of x))" by (intro pow2_mono) simp
    then have "pow2 1024 \<le> f64_of x" using top_bit_le [OF True] by linarith
    moreover have "pow2 1024 = 2 ^ 1024" unfolding pow2_def by simp
    ultimately show False using assms by simp
  qed
  then show ?thesis by (simp add: f64_round_def Let_def)
qed (simp add: f64_round_def Let_def)

lemma round_even_close: "\<bar>of_int (round_even x) - x\<bar> \<le> 1 / 2"
proof -
  define r where "r = x - of_int \<lfloor>x\<rfloor>"
  have r: "0 \<le> r" "r < 1" unfolding r_def by linarith+
  show ?thesis
  proof (cases "r < 1 / 2 \<or> (r = 1 / 2 \<and> even \<lfloor>x\<rfloor>)")
    case True
    then have "round_even x = \<lfloor>x\<rfloor>" by (simp only: round_even_def Let_def r_def [symmetric] if_True)
    moreover have "r \<le> 1 / 2" using True by linarith
    ultimately show ?thesis using r unfolding r_def abs_le_iff by linarith
  next
    case False
    then have "round_even x = \<lfloor>x\<rfloor> + 1" by (simp only: round_even_def Let_def r_def [symmetric] if_False)
    moreover have "1 / 2 \<le> r" using False by linarith
    ultimately show ?thesis using r unfolding r_def abs_le_iff of_int_add of_int_1 by linarith
  qed
qed

lemma ulp_pos [simp]: "0 < ulp x" and ulp_nonzero [simp]: "ulp x \<noteq> 0"
  by (simp_all add: ulp_def)

text \<open>The result is within half a unit in the last place.\<close>

lemma f64_of_close: "\<bar>f64_of x - x\<bar> \<le> ulp x / 2"
proof (cases "x = 0")
  case False
  have "f64_of x - x = (of_int (round_even (x / ulp x)) - x / ulp x) * ulp x"
    using False ulp_pos [of x] by (simp add: f64_of_def left_diff_distrib)
  then have "\<bar>f64_of x - x\<bar> = \<bar>of_int (round_even (x / ulp x)) - x / ulp x\<bar> * ulp x"
    using abs_of_pos [OF ulp_pos [of x]] by (simp only: abs_mult)
  also have "\<dots> \<le> 1 / 2 * ulp x"
    by (intro mult_right_mono round_even_close) (simp add: less_imp_le)
  finally show ?thesis by simp
qed (simp add: f64_of_def ulp_def less_imp_le)

lemma ulp_le:
  assumes "0 < x"
  shows "ulp x \<le> max (x / 2 ^ 52) (1 / 2 ^ 1074)"
proof -
  have "pow2 (top_bit x - 52) = pow2 (top_bit x) / 2 ^ 52"
    by (simp add: pow2_powi power_int_diff)
  also have "\<dots> \<le> x / 2 ^ 52" using top_bit_le [OF assms] by (intro divide_right_mono) simp_all
  finally have "pow2 (top_bit x - 52) \<le> x / 2 ^ 52" .
  moreover have "pow2 (- 1074) = 1 / 2 ^ 1074" by (simp only: pow2_def) simp
  ultimately show ?thesis
    using assms by (auto simp only: ulp_def max_def abs_of_pos split: if_splits)
qed

lemma f64_of_0 [simp]: "f64_of 0 = 0"
  by (simp add: f64_of_def)

lemma f64_of_relative:
  assumes "x = 0 \<or> 1 / 2 ^ 1022 \<le> x"
  shows "\<bar>f64_of x - x\<bar> \<le> x / 2 ^ 53"
proof (cases "x = 0")
  case False
  then have x: "1 / 2 ^ 1022 \<le> x" using assms by simp
  have pos: "0 < x" using less_le_trans [OF _ x, of 0] by simp
  have "1 / 2 ^ 1074 = (1 / 2 ^ 1022) / (2 ^ 52 :: rat)" by simp
  also have "\<dots> \<le> x / 2 ^ 52" using x by (intro divide_right_mono) simp_all
  finally have "ulp x \<le> x / 2 ^ 52" using ulp_le [OF pos] by linarith
  then show ?thesis using f64_of_close [of x] by simp
qed simp

lemma f64_of_error:
  assumes "0 \<le> x"
  shows "\<bar>f64_of x - x\<bar> \<le> x / 2 ^ 53 + 1 / 2 ^ 60"
proof (cases "x = 0")
  case False
  then have pos: "0 < x" using assms by simp
  have "ulp x \<le> x / 2 ^ 52 + 1 / 2 ^ 60"
  proof -
    have "(1 / 2 ^ 1074 :: rat) \<le> 1 / 2 ^ 60" by (intro divide_left_mono power_increasing) simp_all
    then show ?thesis using ulp_le [OF pos] pos by (simp add: max_def split: if_splits)
  qed
  then show ?thesis using f64_of_close [of x] by simp
qed simp

lemma f64_of_nonneg:
  assumes "0 \<le> x"
  shows "0 \<le> f64_of x"
proof -
  have "0 \<le> x / ulp x" using assms by (intro divide_nonneg_pos) simp_all
  then have "0 \<le> round_even (x / ulp x)"
    using zero_le_floor [of "x / ulp x"] by (auto simp: round_even_def Let_def)
  then show ?thesis using ulp_pos [of x] by (simp add: f64_of_def less_imp_le)
qed

text \<open>A number of at most 53 binary digits, whole or with a binary fraction, is a double already.\<close>

lemma round_even_of_int [simp]: "round_even (of_int k) = k"
  by (simp add: round_even_def)

lemma f64_of_exact:
  assumes "\<bar>m\<bar> < 2 ^ 53" "k \<le> 1074" "x = of_int m / 2 ^ k"
  shows "f64_of x = x"
proof (cases "m = 0")
  case False
  let ?e = "max (top_bit \<bar>x\<bar> - 52) (- 1074)"
  have pos: "0 < \<bar>x\<bar>" using False assms(3) by simp
  have "pow2 (top_bit \<bar>x\<bar>) \<le> \<bar>x\<bar>" using top_bit_le [OF pos] .
  also have "\<bar>x\<bar> = of_int \<bar>m\<bar> / 2 ^ k" using assms(3) by simp
  also have "\<dots> < 2 ^ 53 / 2 ^ k"
  proof -
    have "(of_int \<bar>m\<bar> :: rat) < of_int (2 ^ 53)" using assms(1) by (simp only: of_int_less_iff)
    then show ?thesis by (intro divide_strict_right_mono) simp_all
  qed
  also have "\<dots> = pow2 (53 - int k)" by (simp add: pow2_powi power_int_diff)
  finally have "top_bit \<bar>x\<bar> < 53 - int k"
    using pow2_mono [of "53 - int k" "top_bit \<bar>x\<bar>"] by linarith
  then have e: "?e \<le> - int k" using assms(2) by simp
  then obtain j where j: "- int k = ?e + int j" by (metis nat_le_iff_add zle_iff_zadd)
  have "x = of_int m * pow2 (- int k)" using assms(3) by (simp add: pow2_powi power_int_minus divide_inverse)
  also have "\<dots> = of_int (m * 2 ^ j) * ulp x"
    unfolding j pow2_add ulp_def by (simp add: pow2_powi)
  finally have x: "x = of_int (m * 2 ^ j) * ulp x" .
  then have "x / ulp x = of_int (m * 2 ^ j)" by (metis nonzero_mult_div_cancel_right ulp_nonzero)
  then have "f64_of x = of_int (m * 2 ^ j) * ulp x" if "x \<noteq> 0"
    using that by (simp only: f64_of_def if_False round_even_of_int)
  then show ?thesis using x pos by simp
qed (use assms in simp)

lemma f64_round_exact:
  assumes "\<bar>m\<bar> < 2 ^ 53" "k \<le> 1074" "x = of_int m / 2 ^ k"
  shows "f64_round x = Finite x"
proof -
  have "x \<le> of_int \<bar>m\<bar>"
  proof -
    have "x \<le> of_int \<bar>m\<bar> / 2 ^ k" unfolding assms(3) by (intro divide_right_mono) simp_all
    also have "\<dots> \<le> of_int \<bar>m\<bar> / 1" by (intro divide_left_mono) simp_all
    finally show ?thesis by simp
  qed
  also have "\<dots> < of_int (2 ^ 53)" using assms(1) by (simp only: of_int_less_iff)
  also have "(of_int (2 ^ 53) :: rat) < 2 ^ 1024" by simp
  finally show ?thesis using f64_round_in_range [of x] f64_of_exact [OF assms] by simp
qed

lemma f64_of_code [code]:
  "f64_of x = (case quotient_of x of (n, d) \<Rightarrow>
     if d = 1 \<and> \<bar>n\<bar> < 2 ^ 53 then of_int n else of_int (round_even (x / ulp x)) * ulp x)"
proof -
  obtain n d where q: "quotient_of x = (n, d)" by (cases "quotient_of x")
  then have x: "x = of_int n / of_int d" by (rule quotient_of_div)
  show ?thesis
  proof (cases "d = 1 \<and> \<bar>n\<bar> < 2 ^ 53")
    case True
    then show ?thesis using f64_of_exact [of n 0 x] q x by simp
  next
    case False
    have "x \<noteq> 0"
    proof
      assume "x = 0"
      then have "n = 0 \<and> d = 1" using q by simp
      then show False using False by simp
    qed
    then show ?thesis using False q by (auto simp: f64_of_def)
  qed
qed

text \<open>A duration's seconds are right to twice the precision of a double.\<close>

definition seconds :: "nat \<Rightarrow> rat" where
  "seconds ns = of_nat ns / 1000000000"

lemma seconds_add: "a \<le> b \<Longrightarrow> b \<le> c \<Longrightarrow> seconds (c - a) = seconds (b - a) + seconds (c - b)"
  by (simp add: seconds_def of_nat_diff add_divide_distrib [symmetric])

lemma seconds_nonneg [simp]: "0 \<le> seconds n"
  by (simp add: seconds_def)

lemma seconds_0 [simp]: "seconds 0 = 0"
  by (simp add: seconds_def)

lemma seconds_mono: "a \<le> b \<Longrightarrow> seconds a \<le> seconds b"
  by (simp add: seconds_def divide_right_mono)

lemma tiny: "(1 / 2 ^ 1022 :: rat) \<le> 1 / 2000000000"
  by (intro divide_left_mono) simp_all

lemma f64_of_count:
  "\<bar>f64_of (of_nat n) - of_nat n\<bar> \<le> of_nat n / 2 ^ 53"
  "\<bar>f64_of (of_nat n / 1000000000) - of_nat n / 1000000000\<bar> \<le> of_nat n / 1000000000 / 2 ^ 53"
proof -
  have "(of_nat n :: rat) = 0 \<or> 1 \<le> (of_nat n :: rat)" by (cases n) simp_all
  then have "(of_nat n :: rat) = 0 \<or> 1 / 2 ^ 1022 \<le> (of_nat n :: rat)"
    and "(of_nat n / 1000000000 :: rat) = 0 \<or> 1 / 2 ^ 1022 \<le> (of_nat n / 1000000000 :: rat)"
    using tiny by linarith+
  then show "\<bar>f64_of (of_nat n) - of_nat n\<bar> \<le> of_nat n / 2 ^ 53"
    "\<bar>f64_of (of_nat n / 1000000000) - of_nat n / 1000000000\<bar> \<le> of_nat n / 1000000000 / 2 ^ 53"
    by (intro f64_of_relative; blast)+
qed

lemma as_secs_nat:
  "as_secs ns =
     f64_of (f64_of (of_nat (ns div 1000000000)) + f64_of (of_nat (ns mod 1000000000) / 1000000000))"
proof -
  have "of_int (int ns div 1000000000) = (of_nat (ns div 1000000000) :: rat)"
    by (metis of_int_of_nat_eq of_nat_numeral zdiv_int)
  moreover have "of_int (int ns mod 1000000000) = (of_nat (ns mod 1000000000) :: rat)"
    by (metis of_int_of_nat_eq of_nat_numeral zmod_int)
  ultimately show ?thesis by (simp only: as_secs_def Let_def)
qed

lemma as_secs_close: "\<bar>as_secs ns - seconds ns\<bar> \<le> 3 * seconds ns / 2 ^ 53"
proof -
  let ?s = "of_nat (ns div 1000000000) :: rat" and ?f = "of_nat (ns mod 1000000000) / 1000000000 :: rat"
  have ns: "ns = 1000000000 * (ns div 1000000000) + ns mod 1000000000" by simp
  have sum: "seconds ns = ?s + ?f"
    unfolding seconds_def by (subst ns, simp only: of_nat_add of_nat_mult) (simp add: add_divide_distrib)
  let ?a = "f64_of ?s + f64_of ?f"
  have a: "\<bar>?a - seconds ns\<bar> \<le> seconds ns / 2 ^ 53"
    using f64_of_count(1) [of "ns div 1000000000"] f64_of_count(2) [of "ns mod 1000000000"] sum
    unfolding abs_le_iff sum add_divide_distrib by linarith
  have "?a = 0 \<or> 1 / 2 ^ 1022 \<le> ?a"
  proof (cases "ns = 0")
    case False
    then have "1 / 1000000000 \<le> seconds ns" by (simp add: seconds_def divide_right_mono)
    then have "1 / 2000000000 \<le> ?a" 
    proof -
      have "seconds ns / 2 ^ 53 \<le> seconds ns / 2" by (intro divide_left_mono) simp_all
      then have "seconds ns / 2 \<le> ?a" using a by linarith
      moreover have "1 / 2000000000 \<le> seconds ns / 2"
        using \<open>1 / 1000000000 \<le> seconds ns\<close> by (simp add: pos_le_divide_eq)
      ultimately show ?thesis by (rule order_trans [rotated])
    qed
    then show ?thesis using tiny by linarith
  qed simp
  then have r: "\<bar>as_secs ns - ?a\<bar> \<le> ?a / 2 ^ 53"
    unfolding as_secs_nat by (rule f64_of_relative)
  have "seconds ns / 2 ^ 53 \<le> seconds ns / 1" by (intro divide_left_mono) simp_all
  then have "?a \<le> 2 * seconds ns" using a by linarith
  then have "?a / 2 ^ 53 \<le> 2 * seconds ns / 2 ^ 53" by (intro divide_right_mono) simp_all
  also have "\<dots> = 2 * (seconds ns / 2 ^ 53)" by simp
  finally have "\<bar>as_secs ns - seconds ns\<bar> \<le> 3 * (seconds ns / 2 ^ 53)" using r a by linarith
  then show ?thesis by simp
qed

lemma as_secs_nonneg [simp]: "0 \<le> as_secs ns"
  unfolding as_secs_nat by (intro f64_of_nonneg add_nonneg_nonneg) simp_all

end
