(* ===== verification/Guard.thy ===== *)
theory Guard
  imports Protocol_Types F64
begin

section \<open>The abuse guard\<close>

text \<open>
  \<^verbatim>\<open>core/src/guard.rs\<close>: counters with thresholds, one set per client connection, every method
  given the current time. The buckets and the meters compute in doubles (\<^verbatim>\<open>F64\<close>), every
  operation rounded. Event counts (\<^verbatim>\<open>u32\<close>) that only ever grow by one per frame are natural
  numbers.
\<close>

datatype signal = Resets | UnansweredResets | ControlFrames | EmptyFrames | Continuations

fun signal_as_str :: "signal \<Rightarrow> string" where
  "signal_as_str Resets = ''resets''"
| "signal_as_str UnansweredResets = ''unanswered_resets''"
| "signal_as_str ControlFrames = ''control_frames''"
| "signal_as_str EmptyFrames = ''empty_frames''"
| "signal_as_str Continuations = ''continuations''"

datatype verdict = VOk | Trip signal

fun tripped :: "verdict \<Rightarrow> signal option" where
  "tripped VOk = None"
| "tripped (Trip s) = Some s"

record limits =
  reset_burst :: f64
  reset_rate :: f64
  unanswered_burst :: f64
  unanswered_rate :: f64
  control_burst :: f64
  control_rate :: f64
  max_consecutive_empty :: nat
  max_continuations :: nat
  observe_only :: bool

definition limits_default :: limits where
  "limits_default =
     \<lparr>reset_burst = Finite 100, reset_rate = Finite 20,
      unanswered_burst = Finite 50, unanswered_rate = Finite 15,
      control_burst = Finite 200, control_rate = Finite 50,
      max_consecutive_empty = 32, max_continuations = 64, observe_only = False\<rparr>"

definition limits_permissive :: limits where
  "limits_permissive =
     \<lparr>reset_burst = Infinite, reset_rate = Infinite,
      unanswered_burst = Infinite, unanswered_rate = Infinite,
      control_burst = Infinite, control_rate = Infinite,
      max_consecutive_empty = u32_max, max_continuations = u32_max, observe_only = False\<rparr>"

subsection \<open>The token bucket\<close>

record bucket =
  tokens :: f64
  rate :: f64
  burst :: f64
  last_take :: instant

definition bucket_new :: "f64 \<Rightarrow> f64 \<Rightarrow> instant \<Rightarrow> bucket" where
  "bucket_new b r now = \<lparr>tokens = b, rate = r, burst = b, last_take = now\<rparr>"

definition bucket_take :: "instant \<Rightarrow> bucket \<Rightarrow> bool \<times> bucket" where
  "bucket_take now b =
     (let elapsed = as_secs (now - last_take b);
          refilled = (case rate b of
            Finite r \<Rightarrow> f64_min (f64_add (tokens b) (f64_round (elapsed * r))) (burst b)
          | Infinite \<Rightarrow> burst b);
          b' = b\<lparr>last_take := now, tokens := refilled\<rparr>
      in if f64_less_1 refilled then (False, b')
         else (True, b'\<lparr>tokens := f64_add refilled (Finite (- 1))\<rparr>))"

subsection \<open>The rate meter\<close>

record rate_meter =
  window_start :: instant
  meter_count :: nat
  peak_per_sec :: rat

definition meter_window :: nat where
  "meter_window = 1000000000"

definition rate_meter_new :: "instant \<Rightarrow> rate_meter" where
  "rate_meter_new now = \<lparr>window_start = now, meter_count = 0, peak_per_sec = 0\<rparr>"

definition rate_meter_record :: "instant \<Rightarrow> rate_meter \<Rightarrow> rate_meter" where
  "rate_meter_record now m =
     (let elapsed = now - window_start m;
          m' = (if elapsed \<ge> meter_window then
                  m\<lparr>peak_per_sec := (let r = f64_of (of_nat (meter_count m) / as_secs elapsed) in
                       if r > peak_per_sec m then r else peak_per_sec m),
                    window_start := now, meter_count := 0\<rparr>
                else m)
      in m'\<lparr>meter_count := sat_add_u32 (meter_count m') 1\<rparr>)"

definition rate_meter_peak :: "instant \<Rightarrow> rate_meter \<Rightarrow> rat" where
  "rate_meter_peak now m =
     (let elapsed = as_secs (max (now - window_start m) meter_window);
          partial = f64_of (of_nat (meter_count m) / elapsed)
      in max (peak_per_sec m) partial)"

record meter =
  m_bucket :: bucket
  m_rate :: rate_meter

definition meter_new :: "f64 \<Rightarrow> f64 \<Rightarrow> instant \<Rightarrow> meter" where
  "meter_new b r now = \<lparr>m_bucket = bucket_new b r now, m_rate = rate_meter_new now\<rparr>"

definition meter_record :: "instant \<Rightarrow> meter \<Rightarrow> bool \<times> meter" where
  "meter_record now m =
     (case bucket_take now (m_bucket m) of
        (ok, b) \<Rightarrow> (ok, m\<lparr>m_rate := rate_meter_record now (m_rate m), m_bucket := b\<rparr>))"

subsection \<open>The guard\<close>

record peaks =
  pk_resets_per_sec :: rat
  pk_unanswered_per_sec :: rat
  pk_control_per_sec :: rat
  pk_max_consecutive_empty :: nat
  pk_max_continuations :: nat

record guard =
  g_limits :: limits
  g_resets :: meter
  g_unanswered :: meter
  g_control :: meter
  consecutive_empty :: nat
  continuations :: nat
  peak_empty :: nat
  peak_continuations :: nat
  last_trip :: "signal option"

definition guard_new :: "limits \<Rightarrow> instant \<Rightarrow> guard" where
  "guard_new l now =
     \<lparr>g_limits = l,
      g_resets = meter_new (reset_burst l) (reset_rate l) now,
      g_unanswered = meter_new (unanswered_burst l) (unanswered_rate l) now,
      g_control = meter_new (control_burst l) (control_rate l) now,
      consecutive_empty = 0, continuations = 0, peak_empty = 0, peak_continuations = 0,
      last_trip = None\<rparr>"

definition guard_verdict :: "signal \<Rightarrow> guard \<Rightarrow> verdict \<times> guard" where
  "guard_verdict s g =
     (if observe_only (g_limits g) then (VOk, g) else (Trip s, g\<lparr>last_trip := Some s\<rparr>))"

definition on_reset :: "bool \<Rightarrow> instant \<Rightarrow> guard \<Rightarrow> verdict \<times> guard" where
  "on_reset answered now g =
     (case meter_record now (g_resets g) of
        (ok, m) \<Rightarrow>
          let g1 = g\<lparr>g_resets := m\<rparr> in
          if \<not> ok then guard_verdict Resets g1
          else if answered then (VOk, g1)
          else case meter_record now (g_unanswered g1) of
            (ok', m') \<Rightarrow>
              let g2 = g1\<lparr>g_unanswered := m'\<rparr> in
              if \<not> ok' then guard_verdict UnansweredResets g2 else (VOk, g2))"

definition on_control_frame :: "instant \<Rightarrow> guard \<Rightarrow> verdict \<times> guard" where
  "on_control_frame now g =
     (case meter_record now (g_control g) of
        (ok, m) \<Rightarrow>
          let g1 = g\<lparr>g_control := m\<rparr> in
          if \<not> ok then guard_verdict ControlFrames g1 else (VOk, g1))"

definition on_data :: "nat \<Rightarrow> bool \<Rightarrow> guard \<Rightarrow> verdict \<times> guard" where
  "on_data len end_stream g =
     (if len > 0 \<or> end_stream then (VOk, g\<lparr>consecutive_empty := 0\<rparr>)
      else
        let n = consecutive_empty g + 1;
            g1 = g\<lparr>consecutive_empty := n, peak_empty := max (peak_empty g) n\<rparr>
        in if n > max_consecutive_empty (g_limits g) then guard_verdict EmptyFrames g1
           else (VOk, g1))"

definition on_continuation :: "guard \<Rightarrow> verdict \<times> guard" where
  "on_continuation g =
     (let n = continuations g + 1;
          g1 = g\<lparr>continuations := n, peak_continuations := max (peak_continuations g) n\<rparr>
      in if n > max_continuations (g_limits g) then guard_verdict Continuations g1 else (VOk, g1))"

definition on_header_block_end :: "guard \<Rightarrow> guard" where
  "on_header_block_end g = g\<lparr>continuations := 0\<rparr>"

definition guard_peaks :: "instant \<Rightarrow> guard \<Rightarrow> peaks" where
  "guard_peaks now g =
     \<lparr>pk_resets_per_sec = rate_meter_peak now (m_rate (g_resets g)),
      pk_unanswered_per_sec = rate_meter_peak now (m_rate (g_unanswered g)),
      pk_control_per_sec = rate_meter_peak now (m_rate (g_control g)),
      pk_max_consecutive_empty = peak_empty g,
      pk_max_continuations = peak_continuations g\<rparr>"

subsection \<open>The token bucket's contract\<close>

text \<open>A bucket fed a list of instants: the verdict of every take, in order.\<close>

fun takes :: "instant list \<Rightarrow> bucket \<Rightarrow> bool list" where
  "takes [] b = []"
| "takes (t # ts) b = (case bucket_take t b of (ok, b') \<Rightarrow> ok # takes ts b')"

text \<open>The specification has no tokens and no rounding: in every window of consecutive events, from
  the \<open>i\<close>th to the \<open>j\<close>th, the events, each at some cost, fit the burst plus the rate times the time
  between them.\<close>

definition within_budget :: "rat \<Rightarrow> rat \<Rightarrow> rat \<Rightarrow> instant list \<Rightarrow> bool" where
  "within_budget c bst r ts \<longleftrightarrow>
     (\<forall>i j. i \<le> j \<longrightarrow> j < length ts \<longrightarrow>
        c * of_nat (j - i + 1) \<le> bst + r * seconds (ts ! j - ts ! i))"

text \<open>A window's demand, measured from the refill before its first event.\<close>

definition conforms :: "rat \<Rightarrow> rat \<Rightarrow> rat \<Rightarrow> rat \<Rightarrow> instant \<Rightarrow> instant list \<Rightarrow> bool" where
  "conforms c tok r bst t0 ts \<longleftrightarrow>
     (\<forall>j < length ts. c * of_nat (j + 1) \<le> tok + r * seconds (ts ! j - t0)) \<and>
     within_budget c bst r ts"

lemma within_budget_Cons:
  "within_budget c bst r (t # ts) \<longleftrightarrow>
     c \<le> bst \<and> (\<forall>j < length ts. c * of_nat (j + 2) \<le> bst + r * seconds (ts ! j - t)) \<and>
     within_budget c bst r ts"
  (is "?L \<longleftrightarrow> ?R")
proof
  assume L: ?L
  have "c \<le> bst" using L [unfolded within_budget_def, rule_format, of 0 0] by simp
  moreover have "c * of_nat (j + 2) \<le> bst + r * seconds (ts ! j - t)" if "j < length ts" for j
    using L [unfolded within_budget_def, rule_format, of 0 "Suc j"] that by simp
  moreover have "within_budget c bst r ts"
    unfolding within_budget_def
  proof (intro allI impI)
    fix i j assume "i \<le> j" "j < length ts"
    then show "c * of_nat (j - i + 1) \<le> bst + r * seconds (ts ! j - ts ! i)"
      using L [unfolded within_budget_def, rule_format, of "Suc i" "Suc j"] by simp
  qed
  ultimately show ?R by blast
next
  assume R: ?R
  show ?L
    unfolding within_budget_def
  proof (intro allI impI)
    fix i j assume ij: "i \<le> j" "j < length (t # ts)"
    show "c * of_nat (j - i + 1) \<le> bst + r * seconds ((t # ts) ! j - (t # ts) ! i)"
    proof (cases i)
      case 0
      show ?thesis
      proof (cases j)
        case (Suc k)
        have "c * of_nat (k + 2) \<le> bst + r * seconds (ts ! k - t)" using R ij Suc by simp
        then show ?thesis using 0 Suc by simp
      qed (use R 0 in simp)
    next
      case (Suc k)
      then obtain l where l: "j = Suc l" using ij by (cases j) auto
      have "c * of_nat (l - k + 1) \<le> bst + r * seconds (ts ! l - ts ! k)"
        using R ij Suc l by (auto simp: within_budget_def)
      then show ?thesis using Suc l by simp
    qed
  qed
qed

lemma conforms_Cons:
  assumes "sorted (t0 # t # ts)"
  shows "conforms c tok r bst t0 (t # ts) \<longleftrightarrow>
    c \<le> min (tok + seconds (t - t0) * r) bst \<and>
    conforms c (min (tok + seconds (t - t0) * r) bst - c) r bst t ts"
proof -
  let ?l = "min (tok + seconds (t - t0) * r) bst"
  have t0: "t0 \<le> t" and ts: "\<forall>u \<in> set ts. t \<le> u" using assms by auto
  have shift: "tok + r * seconds (ts ! j - t0) = (tok + seconds (t - t0) * r) + r * seconds (ts ! j - t)"
    if "j < length ts" for j
    using seconds_add [of t0 t "ts ! j"] t0 ts that by (simp add: distrib_left mult.commute)
  have "conforms c tok r bst t0 (t # ts) \<longleftrightarrow> c \<le> tok + r * seconds (t - t0) \<and>
      (\<forall>j < length ts. c * of_nat (j + 2) \<le> tok + r * seconds (ts ! j - t0)) \<and>
      c \<le> bst \<and> (\<forall>j < length ts. c * of_nat (j + 2) \<le> bst + r * seconds (ts ! j - t)) \<and>
      within_budget c bst r ts"
    unfolding conforms_def within_budget_Cons by (auto simp: less_Suc_eq_0_disj)
  also have "\<dots> \<longleftrightarrow> c \<le> ?l \<and> (\<forall>j < length ts. c * of_nat (j + 2) \<le> ?l + r * seconds (ts ! j - t)) \<and>
      within_budget c bst r ts"
    using shift by (auto simp: mult.commute min_def)
  also have "\<dots> \<longleftrightarrow> c \<le> ?l \<and> conforms c (?l - c) r bst t ts"
    by (auto simp: conforms_def algebra_simps)
  finally show ?thesis .
qed

lemma conforms_mono:
  assumes "conforms c tok r bst t ts" "tok \<le> tok'"
  shows "conforms c tok' r bst t ts"
  using assms by (force simp: conforms_def)

text \<open>One refill in doubles is within a few roundings of the burst from the exact one.\<close>

lemma below_overflow:
  fixes B :: rat
  assumes "B \<le> 2 ^ 1000" "x \<le> 10 * B"
  shows "x < 2 ^ 1024"
proof -
  have "x \<le> 10 * 2 ^ 1000" using assms by linarith
  also have "\<dots> < (2 ^ 1024 :: rat)" by simp
  finally show ?thesis .
qed

lemma seconds_error:
  assumes "0 \<le> r"
  shows "\<bar>as_secs ns * r - seconds ns * r\<bar> \<le> 3 * (seconds ns * r / 2 ^ 53)"
proof -
  have "\<bar>as_secs ns * r - seconds ns * r\<bar> = \<bar>as_secs ns - seconds ns\<bar> * r"
    using assms by (simp add: abs_mult left_diff_distrib [symmetric])
  also have "\<dots> \<le> 3 * seconds ns / 2 ^ 53 * r"
    using assms by (intro mult_right_mono as_secs_close)
  finally show ?thesis by simp
qed

lemma refill_close:
  assumes "0 \<le> tok" "tok \<le> 2 * B" "1 \<le> B" "B \<le> 2 ^ 1000" "0 \<le> r"
  obtains l where "f64_min (f64_add (Finite tok) (f64_round (as_secs ns * r))) (Finite B) = Finite l"
    "0 \<le> l" "l \<le> B" "\<bar>l - min (tok + seconds ns * r) B\<bar> \<le> 13 * (B / 2 ^ 53)"
proof -
  define q where "q = seconds ns * r"
  define p where "p = as_secs ns * r"
  define e where "e = B / 2 ^ 53"
  have e: "1 / 2 ^ 53 \<le> e" unfolding e_def using assms(3) by (intro divide_right_mono) simp_all
  have e60: "1 / 2 ^ 60 \<le> e / 100" using e by simp
  have eB: "e \<le> B / 100" unfolding e_def using assms(3) by (intro divide_left_mono) simp_all
  have q0: "0 \<le> q" and p0: "0 \<le> p" unfolding q_def p_def using assms(5) by simp_all
  have pq: "\<bar>p - q\<bar> \<le> 3 * (q / 2 ^ 53)" unfolding p_def q_def using seconds_error [OF assms(5)] .
  have fp: "\<bar>f64_of p - p\<bar> \<le> p / 2 ^ 53 + 1 / 2 ^ 60" using f64_of_error [OF p0] .
  have fp0: "0 \<le> f64_of p" using f64_of_nonneg [OF p0] .
  have fs: "\<bar>f64_of (tok + f64_of p) - (tok + f64_of p)\<bar> \<le> (tok + f64_of p) / 2 ^ 53 + 1 / 2 ^ 60"
    using f64_of_error [of "tok + f64_of p"] assms(1) fp0 by simp
  have small: "x / 2 ^ 53 \<le> x / 100" if "0 \<le> x" for x :: rat
    using that by (intro divide_left_mono) simp_all
  have scale: "x / 2 ^ 53 \<le> c * e" if "x \<le> c * B" for x c
    using divide_right_mono [OF that, of "2 ^ 53"] unfolding e_def by simp
  show thesis
  proof (cases "q < 2 * B")
    case True
    have p2: "p \<le> 21 / 10 * B" using pq small [OF q0] True assms(3) scale [of q 2] eB by linarith
    have q53: "q / 2 ^ 53 \<le> 2 * e" using True by (intro scale) simp
    have p53: "p / 2 ^ 53 \<le> 21 / 10 * e" using p2 by (rule scale)
    have y: "f64_of p \<le> 22 / 10 * B" using fp p2 p53 e60 eB assms(3) by linarith
    have s: "tok + f64_of p \<le> 42 / 10 * B" using y assms(2) by linarith
    have s53: "(tok + f64_of p) / 2 ^ 53 \<le> 42 / 10 * e" using s by (rule scale)
    have z: "f64_of (tok + f64_of p) \<le> 5 * B" using fs s s53 e60 eB assms(3) by linarith
    have "f64_round p = Finite (f64_of p)"
      using y assms(3) by (intro f64_round_in_range below_overflow [OF assms(4)]) linarith
    moreover have "f64_round (tok + f64_of p) = Finite (f64_of (tok + f64_of p))"
      using z assms(3) by (intro f64_round_in_range below_overflow [OF assms(4)]) linarith
    ultimately have "f64_min (f64_add (Finite tok) (f64_round p)) (Finite B) =
        Finite (min (f64_of (tok + f64_of p)) B)" by simp
    moreover have "0 \<le> f64_of (tok + f64_of p)" using assms(1) fp0 by (intro f64_of_nonneg) simp
    moreover have "\<bar>f64_of (tok + f64_of p) - (tok + q)\<bar> \<le> 13 * e"
      using pq fp fs q53 p53 s53 e60 by linarith
    ultimately show thesis
      using that [of "min (f64_of (tok + f64_of p)) B"] assms(3)
      unfolding q_def p_def e_def by linarith
  next
    case False
    have p15: "19 / 10 * B \<le> p" using pq small [OF q0] False by linarith
    have y: "18 / 10 * B \<le> f64_of p" using fp p15 small [OF p0] e60 eB assms(3) by linarith
    have z: "B \<le> f64_of (tok + f64_of p)"
    proof -
      define s where "s = tok + f64_of p"
      have "0 \<le> s" "18 / 10 * B \<le> s" using y assms(1) fp0 unfolding s_def by linarith+
      then show ?thesis using fs small [of s] e60 eB assms(3) unfolding s_def [symmetric] by linarith
    qed
    have "f64_min (f64_add (Finite tok) (f64_round p)) (Finite B) = Finite B"
      using z by (simp add: f64_round_def Let_def)
    moreover have "min (tok + q) B = B" using False assms(1,3) by simp
    ultimately show thesis using that [of B] assms(3) unfolding q_def p_def by simp
  qed
qed

lemma spend_close:
  assumes "1 \<le> l" "l \<le> B" "1 \<le> B" "B \<le> 2 ^ 1000"
  obtains k where "f64_add (Finite l) (Finite (- 1)) = Finite k" "0 \<le> k" "k \<le> 2 * B"
    "\<bar>k - (l - 1)\<bar> \<le> 2 * (B / 2 ^ 53)"
proof -
  define e where "e = B / 2 ^ 53"
  have e60: "1 / 2 ^ 60 \<le> e"
  proof -
    have "1 / 2 ^ 53 \<le> e" unfolding e_def using assms(3) by (intro divide_right_mono) simp_all
    then show ?thesis by simp
  qed
  have eB: "e \<le> B / 100" and e1: "e \<le> B / 2 ^ 53"
    unfolding e_def using assms(3) by (intro divide_left_mono; simp)+
  have x0: "0 \<le> l - 1" using assms(1) by simp
  have "(l - 1) / 2 ^ 53 \<le> e" unfolding e_def using assms(2) by (intro divide_right_mono) simp_all
  then have c: "\<bar>f64_of (l - 1) - (l - 1)\<bar> \<le> 2 * e"
    using f64_of_error [OF x0] e60 by linarith
  have u: "f64_of (l - 1) \<le> 10 * B" using c eB assms by linarith
  have eq: "f64_add (Finite l) (Finite (- 1)) = Finite (f64_of (l - 1))"
    using f64_round_in_range [OF below_overflow [OF assms(4) u]] by simp
  show thesis
  proof (rule that [OF eq f64_of_nonneg [OF x0] _ c [unfolded e_def]])
    show "f64_of (l - 1) \<le> 2 * B" using c eB assms by linarith
  qed
qed

text \<open>One take against one exact step of the contract.\<close>

lemma take_cases:
  fixes t :: instant
  assumes "tokens b = Finite tok" "rate b = Finite r" "burst b = Finite B"
    "0 \<le> tok" "tok \<le> 2 * B" "1 \<le> B" "B \<le> 2 ^ 1000" "0 \<le> r"
  defines "L \<equiv> min (tok + seconds (t - last_take b) * r) B" and "d \<equiv> 13 * (B / 2 ^ 53)"
  obtains "fst (bucket_take t b) = False" "L < 1 + d"
  | k where "bucket_take t b = (True, b\<lparr>last_take := t, tokens := Finite k\<rparr>)"
      "1 - d \<le> L" "0 \<le> k" "k \<le> 2 * B" "\<bar>k - (L - 1)\<bar> \<le> B / 2 ^ 49"
proof -
  obtain l where l: "f64_min (f64_add (Finite tok) (f64_round (as_secs (t - last_take b) * r))) (Finite B) = Finite l"
    "0 \<le> l" "l \<le> B" "\<bar>l - L\<bar> \<le> d"
    unfolding L_def d_def using refill_close [OF assms(4-8)] .
  show thesis
  proof (cases "l < 1")
    case True
    have "fst (bucket_take t b) = False"
      using assms(1-3) l(1) True by (simp add: bucket_take_def Let_def)
    moreover have "L < 1 + d" using l(4) True by linarith
    ultimately show thesis by (rule that(1))
  next
    case False
    then have "1 \<le> l" by simp
    from spend_close [OF this l(3) assms(6,7)] obtain k
      where k: "f64_add (Finite l) (Finite (- 1)) = Finite k" "0 \<le> k" "k \<le> 2 * B"
        "\<bar>k - (l - 1)\<bar> \<le> 2 * (B / 2 ^ 53)" by blast
    have eq: "bucket_take t b = (True, b\<lparr>last_take := t, tokens := Finite k\<rparr>)"
      using assms(1-3) l(1) k(1) False by (simp add: bucket_take_def Let_def)
    have ge: "1 - d \<le> L" using l(4) \<open>1 \<le> l\<close> by linarith
    have "B / 2 ^ 49 = 16 * (B / 2 ^ 53)" by simp
    moreover have "0 \<le> B / 2 ^ 53" using assms(6) by simp
    ultimately have close: "\<bar>k - (L - 1)\<bar> \<le> B / 2 ^ 49"
      using l(4) k(4) unfolding d_def by linarith
    show thesis by (rule that(2) [OF eq ge k(2,3) close])
  qed
qed

lemma takes_all_conforms:
  assumes "tokens b = Finite tok" "rate b = Finite r" "burst b = Finite B"
    "0 \<le> tok" "tok \<le> 2 * B" "1 \<le> B" "B \<le> 2 ^ 1000" "0 \<le> r"
    "sorted (last_take b # ts)" "list_all (\<lambda>ok. ok) (takes ts b)"
  shows "conforms (1 - B / 2 ^ 49) tok r B (last_take b) ts"
  using assms
proof (induction ts arbitrary: b tok)
  case Nil
  then show ?case by (simp add: conforms_def within_budget_def)
next
  case (Cons t ts)
  let ?L = "min (tok + seconds (t - last_take b) * r) B"
  note take = take_cases [OF Cons.prems(1-8), of t]
  from take show ?case
  proof cases
    case 1
    then show ?thesis using Cons.prems(10) by (cases "bucket_take t b") simp
  next
    case (2 k)
    let ?b = "b\<lparr>last_take := t, tokens := Finite k\<rparr>"
    have c: "conforms (1 - B / 2 ^ 49) k r B (last_take ?b) ts"
      using Cons.prems 2(1,3,4) by (intro Cons.IH) simp_all
    have kL: "k \<le> ?L - (1 - B / 2 ^ 49)" using 2(5) by linarith
    then have le: "1 - B / 2 ^ 49 \<le> ?L" using 2(3) by linarith
    have "conforms (1 - B / 2 ^ 49) k r B t ts" using c by simp
    from conforms_mono [OF this kL] le show ?thesis
      using conforms_Cons [OF Cons.prems(9)] by blast
  qed
qed

lemma conforms_takes_all:
  assumes "tokens b = Finite tok" "rate b = Finite r" "burst b = Finite B"
    "0 \<le> tok" "tok \<le> 2 * B" "1 \<le> B" "B \<le> 2 ^ 1000" "0 \<le> r"
    "sorted (last_take b # ts)" "conforms (1 + B / 2 ^ 49) tok r B (last_take b) ts"
  shows "list_all (\<lambda>ok. ok) (takes ts b)"
  using assms
proof (induction ts arbitrary: b tok)
  case (Cons t ts)
  let ?L = "min (tok + seconds (t - last_take b) * r) B"
  have c: "1 + B / 2 ^ 49 \<le> ?L" "conforms (1 + B / 2 ^ 49) (?L - (1 + B / 2 ^ 49)) r B t ts"
    using Cons.prems(9,10) conforms_Cons by blast+
  have "13 * (B / 2 ^ 53) \<le> B / 2 ^ 49" using Cons.prems(6) by simp
  note take = take_cases [OF Cons.prems(1-8), of t]
  from take show ?case
  proof cases
    case 1
    then show ?thesis using c(1) \<open>13 * (B / 2 ^ 53) \<le> B / 2 ^ 49\<close> by linarith
  next
    case (2 k)
    let ?b = "b\<lparr>last_take := t, tokens := Finite k\<rparr>"
    have "?L - (1 + B / 2 ^ 49) \<le> k" using 2(5) by linarith
    then have "conforms (1 + B / 2 ^ 49) k r B (last_take ?b) ts"
      using conforms_mono [OF c(2)] by simp
    then have "list_all (\<lambda>ok. ok) (takes ts ?b)"
      using Cons.prems 2(3,4) by (intro Cons.IH) simp_all
    then show ?thesis using 2(1) by simp
  qed
qed simp

text \<open>A fresh bucket is full, so the windows alone decide.\<close>

lemma fresh_conforms:
  assumes "sorted (now # ts)" "0 \<le> r"
  shows "conforms c B r B now ts \<longleftrightarrow> within_budget c B r ts"
proof -
  have "c * of_nat (j + 1) \<le> B + r * seconds (ts ! j - now)"
    if w: "within_budget c B r ts" and j: "j < length ts" for j
  proof -
    have "c * of_nat (j + 1) \<le> B + r * seconds (ts ! j - ts ! 0)"
      using w j by (auto simp: within_budget_def dest: spec [of _ 0])
    moreover have "seconds (ts ! j - ts ! 0) \<le> seconds (ts ! j - now)"
      using assms(1) j by (intro seconds_mono diff_le_mono2) (cases ts, auto)
    ultimately show ?thesis
      using assms(2) by (meson add_left_mono mult_left_mono order_trans)
  qed
  then show ?thesis by (auto simp: conforms_def)
qed

text \<open>C37. The token bucket's contract, in doubles: whatever a fresh bucket lets through keeps, in
  every window of consecutive events, to the burst plus the rate times the window's length, counted
  exactly, and every schedule that keeps to them passes; up to a rounding margin of \<open>2 ^ -49\<close> of the burst
  per event of the window, on either side (the code does reject, by rounding, the last of some
  schedules that fill the budget exactly). So sustained traffic within the limits never trips it,
  from any phase, and an excess, however it is spread over window boundaries, does. Events are in
  time order, the burst is at least one event and at most \<open>2 ^ 1000\<close>, the rate not negative, and both
  finite.\<close>

theorem bucket_keeps_the_budget:
  assumes "sorted (now # ts)" "0 \<le> r" "1 \<le> B" "B \<le> 2 ^ 1000"
  shows "(list_all (\<lambda>ok. ok) (takes ts (bucket_new (Finite B) (Finite r) now)) \<longrightarrow>
      within_budget (1 - B / 2 ^ 49) B r ts)
    \<and> (within_budget (1 + B / 2 ^ 49) B r ts \<longrightarrow>
      list_all (\<lambda>ok. ok) (takes ts (bucket_new (Finite B) (Finite r) now)))"
proof -
  let ?b = "bucket_new (Finite B) (Finite r) now"
  have b: "tokens ?b = Finite B" "rate ?b = Finite r" "burst ?b = Finite B" "last_take ?b = now"
    by (simp_all add: bucket_new_def)
  have B: "0 \<le> B" "B \<le> 2 * B" using assms(3) by simp_all
  have s: "sorted (last_take ?b # ts)" using assms(1) b(4) by simp
  show ?thesis
    using takes_all_conforms [OF b(1-3) B assms(3,4,2) s] conforms_takes_all [OF b(1-3) B assms(3,4,2) s]
      fresh_conforms [OF assms(1,2)] b(4) by auto
qed

text \<open>With a burst of two and two events a second: four events in half a second are one too many,
  and the last of them is stopped; spread over a second and a half they all pass.\<close>

theorem bucket_keeps_the_budget_witness:
  "takes [0, 0, 500000000, 500000000] (bucket_new (Finite 2) (Finite 2) 0) = [True, True, True, False]
   \<and> \<not> within_budget (1 + 2 / 2 ^ 49) 2 2 [0, 0, 500000000, 500000000]
   \<and> within_budget (1 - 2 / 2 ^ 49) 2 2 [0, 500000000, 1000000000]"
proof -
  have half: "f64_of (1 / 2) = 1 / 2" by (rule f64_of_exact [of 1 1]) simp_all
  have halves: "f64_round 0 = Finite 0" "f64_round 1 = Finite 1" "f64_round 2 = Finite 2" 
    "as_secs 0 = 0" "as_secs 500000000 = 1 / 2"
    using f64_round_exact [of 0 0 0] f64_round_exact [of 1 0 1] f64_round_exact [of 2 0 2]
    by (simp_all add: as_secs_def half)
  have run: "takes [0, 0, 500000000, 500000000] (bucket_new (Finite 2) (Finite 2) 0) = [True, True, True, False]"
    and run': "takes [0, 500000000, 1000000000] (bucket_new (Finite 2) (Finite 2) 0) = [True, True, True]"
    by (simp_all add: bucket_take_def bucket_new_def Let_def halves)
  have "sorted [0, 0, 0, 500000000, 500000000 :: nat]" "sorted [0, 0, 500000000, 1000000000 :: nat]"
    "(0 :: rat) \<le> 2" "(1 :: rat) \<le> 2" "(2 :: rat) \<le> 2 ^ 1000" by simp_all
  note s = this
  from bucket_keeps_the_budget [OF s(1,3-5)] bucket_keeps_the_budget [OF s(2-5)] run run'
  show ?thesis by simp
qed

subsection \<open>What the guard does with its counters\<close>

text \<open>Observing never interferes: a guard in observe-only mode answers every event with no
  trip, records no signal, and stays in observe-only mode.\<close>

theorem observe_only_never_trips:
  assumes "observe_only (g_limits g)"
  shows "fst (on_reset a now g) = VOk \<and> fst (on_control_frame now g) = VOk \<and>
    fst (on_data n e g) = VOk \<and> fst (on_continuation g) = VOk \<and>
    (\<forall>g'. g' \<in> {snd (on_reset a now g), snd (on_control_frame now g), snd (on_data n e g),
        snd (on_continuation g), on_header_block_end g} \<longrightarrow>
      last_trip g' = last_trip g \<and> g_limits g' = g_limits g)"
  using assms
  by (auto simp: on_reset_def on_control_frame_def on_data_def on_continuation_def Let_def
      on_header_block_end_def guard_verdict_def split: prod.splits)

theorem observe_only_never_trips_witness:
  "fst (on_continuation (guard_new (limits_default\<lparr>max_continuations := 0, observe_only := True\<rparr>) 0)) = VOk"
  using observe_only_never_trips [of "guard_new (limits_default\<lparr>max_continuations := 0, observe_only := True\<rparr>) 0"]
  by (simp add: guard_new_def)

text \<open>Feeding a guard a list of DATA frames (length and END\_STREAM), collecting the verdicts.\<close>

fun on_data_all :: "(nat \<times> bool) list \<Rightarrow> guard \<Rightarrow> verdict list \<times> guard" where
  "on_data_all [] g = ([], g)"
| "on_data_all ((n, e) # ds) g =
     (case on_data n e g of (v, g') \<Rightarrow> case on_data_all ds g' of (vs, g'') \<Rightarrow> (v # vs, g''))"

definition idle_data :: "nat \<times> bool \<Rightarrow> bool" where
  "idle_data d \<longleftrightarrow> fst d = 0 \<and> \<not> snd d"

text \<open>The run of empty frames that ends a list.\<close>

definition trailing_idle :: "(nat \<times> bool) list \<Rightarrow> nat" where
  "trailing_idle ds = length (takeWhile idle_data (rev ds))"

lemma trailing_idle_snoc: "trailing_idle (ds @ [d]) = (if idle_data d then Suc (trailing_idle ds) else 0)"
  by (simp add: trailing_idle_def)

lemma on_data_all_snoc:
  "on_data_all (ds @ [(n, e)]) g =
     (case on_data_all ds g of (vs, g') \<Rightarrow> case on_data n e g' of (v, g'') \<Rightarrow> (vs @ [v], g''))"
  by (induction ds g rule: on_data_all.induct) (auto split: prod.splits)

lemma on_data_limits: "g_limits (snd (on_data n e g)) = g_limits g"
  by (simp add: on_data_def guard_verdict_def Let_def)

lemma on_data_all_state:
  assumes "consecutive_empty g = 0"
  shows "consecutive_empty (snd (on_data_all ds g)) = trailing_idle ds \<and>
    g_limits (snd (on_data_all ds g)) = g_limits g"
  using assms
proof (induction ds rule: rev_induct)
  case (snoc d ds)
  obtain n e where d: "d = (n, e)" by (cases d)
  obtain vs g' where a: "on_data_all ds g = (vs, g')" by (cases "on_data_all ds g")
  obtain v g'' where b: "on_data n e g' = (v, g'')" by (cases "on_data n e g'")
  have c: "consecutive_empty g' = trailing_idle ds" and l: "g_limits g' = g_limits g"
    using snoc a by auto
  have "consecutive_empty g'' = trailing_idle (ds @ [d])" and "g_limits g'' = g_limits g"
    using b c l d by (auto simp: on_data_def trailing_idle_snoc idle_data_def guard_verdict_def Let_def
        split: if_splits)
  then show ?case using a b d by (simp add: on_data_all_snoc)
qed (simp add: trailing_idle_def)

text \<open>Empty DATA frames: on an enforcing connection a DATA frame trips the guard exactly when
  it extends a run of consecutive empty frames without END\_STREAM beyond the limit; any octet and
  any END\_STREAM starts the count again.\<close>

theorem empty_data_trips_exactly_past_limit:
  assumes "\<not> observe_only l"
  shows "last (fst (on_data_all (ds @ [d]) (guard_new l now))) =
    (if max_consecutive_empty l < trailing_idle (ds @ [d]) then Trip EmptyFrames else VOk)"
proof -
  let ?g = "guard_new l now"
  obtain n e where d: "d = (n, e)" by (cases d)
  obtain vs g' where a: "on_data_all ds ?g = (vs, g')" by (cases "on_data_all ds ?g")
  have c: "consecutive_empty g' = trailing_idle ds" and lim: "g_limits g' = l"
    using on_data_all_state [of ?g ds] a by (auto simp: guard_new_def)
  have "fst (on_data n e g') = (if max_consecutive_empty l < trailing_idle (ds @ [d]) then Trip EmptyFrames else VOk)"
    using assms c lim d
    by (auto simp: on_data_def trailing_idle_snoc idle_data_def guard_verdict_def Let_def)
  then show ?thesis using a d by (cases "on_data n e g'") (simp add: on_data_all_snoc)
qed

theorem empty_data_trips_exactly_past_limit_witness:
  "last (fst (on_data_all ([(0, False), (0, False)] @ [(0, False)])
     (guard_new (limits_default\<lparr>max_consecutive_empty := 2\<rparr>) 0))) = Trip EmptyFrames"
proof -
  have "\<not> observe_only (limits_default\<lparr>max_consecutive_empty := 2\<rparr>)" by (simp add: limits_default_def)
  from empty_data_trips_exactly_past_limit [OF this, of "[(0, False), (0, False)]" "(0, False)" 0]
  show ?thesis by (simp add: trailing_idle_def idle_data_def limits_default_def)
qed

end
