(* ===== verification/Lb.thy ===== *)
theory Lb
  imports Prelude
begin

section \<open>Load balancing\<close>

text \<open>
  \<^verbatim>\<open>core/src/lb.rs\<close>: a backend is its address; the balancer samples two distinct candidates
  with a xorshift generator kept at its width of 64 bits, and takes the less loaded one. The
  generator's state is passed explicitly.
\<close>

datatype socket_addr = SocketAddr (addr_ip: octets) (addr_port: u16)

datatype backend = Backend (backend_addr: socket_addr)

record backend_load =
  load_backend :: backend
  outstanding :: nat

record power_of_two = rng_state :: u64

definition power_of_two_seeded :: "u64 \<Rightarrow> power_of_two" where
  "power_of_two_seeded seed = \<lparr>rng_state = seed\<rparr>"

definition power_of_two_new :: power_of_two where
  "power_of_two_new = power_of_two_seeded 0x2545f4914f6cdd1d"

definition xorshift :: "u64 \<Rightarrow> u64" where
  "xorshift x0 =
     (let x1 = x0 XOR push_bit 13 x0;
          x2 = x1 XOR drop_bit 7 x1
      in x2 XOR push_bit 17 x2)"

definition rng_next :: "power_of_two \<Rightarrow> u64 \<times> power_of_two" where
  "rng_next lb = (let x = xorshift (rng_state lb) in (x, lb\<lparr>rng_state := x\<rparr>))"

definition second_index :: "nat \<Rightarrow> nat \<Rightarrow> nat" where
  "second_index first drawn = (if first \<le> drawn then drawn + 1 else drawn)"

definition lb_pick :: "power_of_two \<Rightarrow> backend_load list \<Rightarrow> backend option \<times> power_of_two" where
  "lb_pick lb candidates =
     (let n = length candidates in
      if n = 0 then (None, lb)
      else if n = 1 then (Some (load_backend (candidates ! 0)), lb)
      else
        let (x, lb1) = rng_next lb;
            first = unat x mod n;
            (y, lb2) = rng_next lb1;
            second = second_index first (unat y mod (n - 1));
            a = candidates ! first;
            b = candidates ! second
        in (Some (if outstanding a \<le> outstanding b then load_backend a else load_backend b), lb2))"

subsection \<open>The two samples\<close>

lemma second_index_distinct [simp]: "second_index i j \<noteq> i"
  by (auto simp: second_index_def)

lemma second_index_less: "i < n \<Longrightarrow> j < n - 1 \<Longrightarrow> second_index i j < n"
  by (auto simp: second_index_def)

lemma second_index_onto: "i < n \<Longrightarrow> k < n \<Longrightarrow> k \<noteq> i \<Longrightarrow> \<exists>j < n - 1. second_index i j = k"
  by (cases "k < i") (auto simp: second_index_def intro: exI [of _ "k - 1"] exI [of _ k])

text \<open>What a pick among two or more candidates is: the less loaded of two different positions.\<close>

lemma lb_pick_samples:
  assumes "2 \<le> length cs"
  shows "\<exists>i j. i < length cs \<and> j < length cs \<and> i \<noteq> j
           \<and> outstanding (cs ! i) \<le> outstanding (cs ! j)
           \<and> fst (lb_pick lb cs) = Some (load_backend (cs ! i))"
proof -
  define x where "x = xorshift (rng_state lb)"
  define y where "y = xorshift x"
  define f where "f = unat x mod length cs"
  define s where "s = second_index f (unat y mod (length cs - 1))"
  have ne: "cs \<noteq> []" using assms by auto
  then have f: "f < length cs" by (simp add: f_def)
  have s: "s < length cs"
    unfolding s_def using f assms by (intro second_index_less) simp_all
  have d: "s \<noteq> f" by (simp add: s_def)
  have pick: "fst (lb_pick lb cs) =
      Some (if outstanding (cs ! f) \<le> outstanding (cs ! s)
            then load_backend (cs ! f) else load_backend (cs ! s))"
    using assms ne
    by (simp add: lb_pick_def rng_next_def Let_def f_def s_def x_def y_def)
  show ?thesis
  proof (cases "outstanding (cs ! f) \<le> outstanding (cs ! s)")
    case True
    with f s d pick show ?thesis by (intro exI [of _ f] exI [of _ s]) simp
  next
    case False
    with f s d pick show ?thesis by (intro exI [of _ s] exI [of _ f]) simp
  qed
qed

lemma lb_pick_none_iff: "fst (lb_pick lb cs) = None \<longleftrightarrow> cs = []"
proof (cases "2 \<le> length cs")
  case True
  then show ?thesis using lb_pick_samples [OF True, of lb] by auto
next
  case False
  then show ?thesis by (cases cs rule: remdups_adj.cases) (auto simp: lb_pick_def Let_def)
qed

lemma lb_pick_member:
  assumes "fst (lb_pick lb cs) = Some b"
  shows "b \<in> load_backend ` set cs"
proof (cases "2 \<le> length cs")
  case True
  then show ?thesis using lb_pick_samples [OF True, of lb] assms by auto
next
  case False
  with assms show ?thesis
    by (cases cs rule: remdups_adj.cases) (auto simp: lb_pick_def Let_def split: if_splits)
qed

text \<open>The balancer answers exactly when there is a candidate, and then with the backend of
  one; with at least two candidates its answer is backed by two samples at different positions,
  of which it is not the more loaded, so a candidate strictly busier than every other is never
  chosen.\<close>

theorem pick_avoids_the_busiest:
  "(fst (lb_pick lb cs) = None \<longleftrightarrow> cs = [])
   \<and> (\<forall>b. fst (lb_pick lb cs) = Some b \<longrightarrow>
        (\<exists>i < length cs. load_backend (cs ! i) = b
           \<and> (2 \<le> length cs \<longrightarrow>
                (\<exists>j < length cs. j \<noteq> i \<and> outstanding (cs ! i) \<le> outstanding (cs ! j)))))"
proof -
  have "\<exists>i < length cs. load_backend (cs ! i) = b
           \<and> (2 \<le> length cs \<longrightarrow>
                (\<exists>j < length cs. j \<noteq> i \<and> outstanding (cs ! i) \<le> outstanding (cs ! j)))"
    if "fst (lb_pick lb cs) = Some b" for b
  proof (cases "2 \<le> length cs")
    case True
    then show ?thesis using lb_pick_samples [OF True, of lb] that by fastforce
  next
    case False
    from lb_pick_member [OF that] obtain i where "i < length cs" "load_backend (cs ! i) = b"
      by (auto simp: in_set_conv_nth)
    with False show ?thesis by blast
  qed
  then show ?thesis by (simp add: lb_pick_none_iff)
qed

definition sample_load :: "u16 \<Rightarrow> nat \<Rightarrow> backend_load" where
  "sample_load port n = \<lparr>load_backend = Backend (SocketAddr [127, 0, 0, 1] port), outstanding = n\<rparr>"

theorem pick_avoids_the_busiest_witness:
  "fst (lb_pick (power_of_two_seeded 1) [sample_load 8080 10, sample_load 8081 0])
     = Some (load_backend (sample_load 8081 0))"
proof -
  let ?cs = "[sample_load 8080 10, sample_load 8081 0]"
  let ?p = "fst (lb_pick (power_of_two_seeded 1) ?cs)"
  from pick_avoids_the_busiest [of "power_of_two_seeded 1" ?cs]
  obtain b where b: "?p = Some b" by auto
  with pick_avoids_the_busiest [of "power_of_two_seeded 1" ?cs]
  obtain i where i: "i < length ?cs" "load_backend (?cs ! i) = b"
    "2 \<le> length ?cs \<longrightarrow>
       (\<exists>j < length ?cs. j \<noteq> i \<and> outstanding (?cs ! i) \<le> outstanding (?cs ! j))"
    by blast
  have "i = 1"
  proof (rule ccontr)
    assume "i \<noteq> 1"
    with i(1) have "i = 0" by simp
    with i(3) show False by (auto simp: sample_load_def less_Suc_eq)
  qed
  with i(2) b show ?thesis by simp
qed

subsection \<open>The generator\<close>

lemma inj_xor_push: "0 < k \<Longrightarrow> inj (\<lambda>x :: u64. x XOR push_bit k x)"
proof (rule injI)
  fix a b :: u64 assume k: "0 < k" and eq: "a XOR push_bit k a = b XOR push_bit k b"
  have "bit a n = bit b n" for n
  proof (induction n rule: less_induct)
    case (less n)
    have "bit (a XOR push_bit k a) n = bit (b XOR push_bit k b) n" using eq by simp
    with less [of "n - k"] k show ?case
      by (cases "n < 64") (auto simp: bit_simps dest: bit_imp_le_length)
  qed
  then show "a = b" by (auto intro: bit_eqI)
qed

lemma inj_xor_drop: "0 < k \<Longrightarrow> inj (\<lambda>x :: u64. x XOR drop_bit k x)"
proof (rule injI)
  fix a b :: u64 assume k: "0 < k" and eq: "a XOR drop_bit k a = b XOR drop_bit k b"
  have "n < 64 \<Longrightarrow> bit a n = bit b n" for n
  proof (induction "64 - n" arbitrary: n rule: less_induct)
    case (less n)
    have "bit a (k + n) = bit b (k + n)"
      using less k by (cases "k + n < 64") (auto dest: bit_imp_le_length)
    moreover have "bit (a XOR drop_bit k a) n = bit (b XOR drop_bit k b) n" using eq by simp
    ultimately show ?case by (auto simp: bit_simps)
  qed
  then show "a = b" by (auto intro!: bit_word_eqI)
qed

lemma inj_xorshift: "inj xorshift"
proof -
  have "xorshift =
      (\<lambda>x. x XOR push_bit 17 x) \<circ> (\<lambda>x. x XOR drop_bit 7 x) \<circ> (\<lambda>x. x XOR push_bit 13 x)"
    by (simp add: fun_eq_iff xorshift_def Let_def)
  moreover have "inj \<dots>"
    by (intro inj_compose inj_xor_push inj_xor_drop) simp_all
  ultimately show ?thesis by metis
qed

lemma xorshift_0 [simp]: "xorshift 0 = 0"
  by (simp add: xorshift_def)

text \<open>The xorshift generator never falls into its fixed point: from a non-zero state, which
  the default seed is, every later state is non-zero and the step is a bijection of the 64-bit
  words, so that distinct states stay distinct.\<close>

theorem xorshift_never_degenerates:
  "inj xorshift \<and> (\<forall>k. (xorshift ^^ k) (rng_state power_of_two_new) \<noteq> 0)"
proof -
  have "(xorshift ^^ k) (rng_state power_of_two_new) \<noteq> 0" for k
  proof (induction k)
    case 0 show ?case by (simp add: power_of_two_new_def power_of_two_seeded_def)
  next
    case (Suc k)
    then show ?case using injD [OF inj_xorshift, of _ 0] by auto
  qed
  with inj_xorshift show ?thesis by blast
qed

end
