(* ===== verification/Health.thy ===== *)
theory Health
  imports Lb
begin

section \<open>Backend health, ejection and probe-back\<close>

text \<open>
  \<^verbatim>\<open>core/src/health.rs\<close>: which backends the balancer may see. The mutex-protected map is a map
  from backends to entries; every method takes the whole state and the current time. The failure
  run is a \<^verbatim>\<open>u32\<close> and the ejection counters are \<^verbatim>\<open>u64\<close>, all with their wrap-around.
\<close>

record policy =
  eject_after :: u32
  base_backoff :: duration
  max_backoff :: duration
  ping_idle :: duration
  ping_timeout :: duration
  idle_timeout :: duration

definition policy_default :: policy where
  "policy_default =
     \<lparr>eject_after = 5, base_backoff = from_secs 10, max_backoff = from_secs 30,
      ping_idle = from_secs 5, ping_timeout = from_secs 5, idle_timeout = from_secs 60\<rparr>"

definition policy_permissive :: policy where
  "policy_permissive = policy_default\<lparr>eject_after := 0xffffffff\<rparr>"

datatype backend_state = Healthy | Ejected | HalfOpen

record health_entry =
  consecutive_failures :: u32
  ejected_until :: "instant option"
  trial_in_flight :: bool
  backoff :: duration
  entry_ejections :: u64

definition entry_new :: "policy \<Rightarrow> health_entry" where
  "entry_new p =
     \<lparr>consecutive_failures = 0, ejected_until = None, trial_in_flight = False,
      backoff = base_backoff p, entry_ejections = 0\<rparr>"

definition entry_state :: "health_entry \<Rightarrow> instant \<Rightarrow> backend_state" where
  "entry_state e now =
     (case ejected_until e of
        None \<Rightarrow> Healthy
      | Some u \<Rightarrow> if now < u then Ejected else HalfOpen)"

record health =
  backends :: "backend \<rightharpoonup> health_entry"
  health_policy :: policy
  ejections :: u64

definition health_new :: "policy \<Rightarrow> health" where
  "health_new p = \<lparr>backends = Map.empty, health_policy = p, ejections = 0\<rparr>"

text \<open>\<^verbatim>\<open>backends.entry(..).or_insert_with(..)\<close>, the start of \<^verbatim>\<open>failure\<close> and \<^verbatim>\<open>success\<close>.\<close>

definition entry_or_new :: "health \<Rightarrow> backend \<Rightarrow> health_entry" where
  "entry_or_new h b =
     (case backends h b of None \<Rightarrow> entry_new (health_policy h) | Some e \<Rightarrow> e)"

definition health_failure :: "health \<Rightarrow> backend \<Rightarrow> instant \<Rightarrow> health" where
  "health_failure h b now =
     (let e = entry_or_new h b in
      if trial_in_flight e then
        let longer = min (backoff e * 2) (max_backoff (health_policy h)) in
        h\<lparr>backends := (backends h)(b \<mapsto>
             e\<lparr>trial_in_flight := False, backoff := longer, ejected_until := Some (now + longer),
               entry_ejections := entry_ejections e + 1\<rparr>),
          ejections := ejections h + 1\<rparr>
      else
        let e1 = e\<lparr>consecutive_failures := consecutive_failures e + 1\<rparr> in
        if eject_after (health_policy h) \<le> consecutive_failures e1 \<and> ejected_until e1 = None then
          h\<lparr>backends := (backends h)(b \<mapsto>
               e1\<lparr>ejected_until := Some (now + backoff e1),
                  entry_ejections := entry_ejections e1 + 1\<rparr>),
            ejections := ejections h + 1\<rparr>
        else h\<lparr>backends := (backends h)(b \<mapsto> e1)\<rparr>)"

definition health_success :: "health \<Rightarrow> backend \<Rightarrow> health" where
  "health_success h b =
     (let e = entry_or_new h b in
      h\<lparr>backends := (backends h)(b \<mapsto>
          e\<lparr>consecutive_failures := 0, ejected_until := None, trial_in_flight := False,
            backoff := base_backoff (health_policy h)\<rparr>)\<rparr>)"

definition admissible :: "health \<Rightarrow> instant \<Rightarrow> backend \<Rightarrow> bool" where
  "admissible h now b =
     (case backends h b of
        None \<Rightarrow> True
      | Some e \<Rightarrow>
          (case entry_state e now of
             Healthy \<Rightarrow> True
           | Ejected \<Rightarrow> False
           | HalfOpen \<Rightarrow> \<not> trial_in_flight e))"

definition eligible :: "health \<Rightarrow> backend_load list \<Rightarrow> instant \<Rightarrow> backend_load list" where
  "eligible h candidates now =
     (let el = filter (\<lambda>c. admissible h now (load_backend c)) candidates in
      if el = [] \<and> candidates \<noteq> [] then candidates else el)"

definition claim_trial :: "health \<Rightarrow> backend \<Rightarrow> instant \<Rightarrow> health" where
  "claim_trial h b now =
     (case backends h b of
        None \<Rightarrow> h
      | Some e \<Rightarrow>
          if entry_state e now = HalfOpen \<and> \<not> trial_in_flight e
          then h\<lparr>backends := (backends h)(b \<mapsto> e\<lparr>trial_in_flight := True\<rparr>)\<rparr>
          else h)"

definition health_state :: "health \<Rightarrow> backend \<Rightarrow> instant \<Rightarrow> backend_state" where
  "health_state h b now =
     (case backends h b of None \<Rightarrow> Healthy | Some e \<Rightarrow> entry_state e now)"

definition healthy_count :: "health \<Rightarrow> backend list \<Rightarrow> instant \<Rightarrow> nat" where
  "healthy_count h candidates now =
     length (filter (\<lambda>b. health_state h b now = Healthy) candidates)"

subsection \<open>Histories\<close>

text \<open>What the rest of the proxy reports, in the order the mutex serialises it.\<close>

datatype health_event = Failed backend instant | Succeeded backend | Claimed backend instant

fun event_backend :: "health_event \<Rightarrow> backend" where
  "event_backend (Failed b t) = b"
| "event_backend (Succeeded b) = b"
| "event_backend (Claimed b t) = b"

fun health_step :: "health_event \<Rightarrow> health \<Rightarrow> health" where
  "health_step (Failed b t) h = health_failure h b t"
| "health_step (Succeeded b) h = health_success h b"
| "health_step (Claimed b t) h = claim_trial h b t"

definition health_run :: "health_event list \<Rightarrow> health \<Rightarrow> health" where
  "health_run es h = fold health_step es h"

lemma health_run_Nil [simp]: "health_run [] h = h"
  by (simp add: health_run_def)

lemma health_run_Cons [simp]: "health_run (e # es) h = health_run es (health_step e h)"
  by (simp add: health_run_def)

lemma health_run_snoc: "health_run (es @ [e]) h = health_step e (health_run es h)"
  by (simp add: health_run_def)

lemmas health_defs =
  health_failure_def health_success_def claim_trial_def entry_or_new_def entry_new_def

lemma health_step_other [simp]:
  "event_backend e \<noteq> b \<Longrightarrow> backends (health_step e h) b = backends h b"
  by (cases e) (auto simp: health_defs Let_def split: option.split)

lemma health_policy_step [simp]: "health_policy (health_step e h) = health_policy h"
  by (cases e) (auto simp: health_defs Let_def split: option.split)

lemma health_policy_run [simp]: "health_policy (health_run es h) = health_policy h"
  by (induction es arbitrary: h) simp_all

lemma health_run_projection:
  "backends (health_run es h) b = backends (health_run (filter (\<lambda>e. event_backend e = b) es) h) b"
proof -
  have "backends (health_run es h) b = backends (health_run (filter (\<lambda>e. event_backend e = b) es) h') b"
    if "backends h b = backends h' b" "health_policy h = health_policy h'" for h h'
    using that
  proof (induction es arbitrary: h h')
    case (Cons e es)
    show ?case
    proof (cases "event_backend e = b")
      case True
      then have "backends (health_step e h) b = backends (health_step e h') b"
        using Cons.prems by (cases e) (auto simp: health_defs Let_def split: option.split)
      with True Cons show ?thesis by simp
    next
      case False
      with Cons show ?thesis by simp
    qed
  qed simp
  then show ?thesis by blast
qed

subsection \<open>Ejection\<close>

text \<open>A backend with a clean record: unknown, or restored by its last success.\<close>

definition clean_record :: "health \<Rightarrow> backend \<Rightarrow> bool" where
  "clean_record h b \<longleftrightarrow>
     consecutive_failures (entry_or_new h b) = 0 \<and> ejected_until (entry_or_new h b) = None
     \<and> \<not> trial_in_flight (entry_or_new h b)
     \<and> backoff (entry_or_new h b) = base_backoff (health_policy h)"

lemma clean_record_new [simp]: "clean_record (health_new p) b"
  by (simp add: clean_record_def health_new_def entry_or_new_def entry_new_def)

lemma health_policy_new: "health_policy (health_new p) = p"
  by (simp add: health_new_def)

lemma health_policy_success: "health_policy (health_success h b) = health_policy h"
  by (simp add: health_success_def Let_def)

lemma clean_record_success [simp]: "clean_record (health_success h b) b"
  by (simp add: clean_record_def health_success_def entry_or_new_def Let_def)

lemma entry_or_new_claim:
  "entry_or_new (claim_trial h b now) b =
     (if entry_state (entry_or_new h b) now = HalfOpen
      then (entry_or_new h b)\<lparr>trial_in_flight := True\<rparr> else entry_or_new h b)"
  by (auto simp: claim_trial_def entry_or_new_def entry_new_def entry_state_def split: option.split)

lemma entry_or_new_failure:
  "entry_or_new (health_failure h b now) b =
     (let e = entry_or_new h b; p = health_policy h in
      if trial_in_flight e then
        e\<lparr>trial_in_flight := False, backoff := min (backoff e * 2) (max_backoff p),
          ejected_until := Some (now + min (backoff e * 2) (max_backoff p)),
          entry_ejections := entry_ejections e + 1\<rparr>
      else if eject_after p \<le> consecutive_failures e + 1 \<and> ejected_until e = None then
        e\<lparr>consecutive_failures := consecutive_failures e + 1,
          ejected_until := Some (now + backoff e), entry_ejections := entry_ejections e + 1\<rparr>
      else e\<lparr>consecutive_failures := consecutive_failures e + 1\<rparr>)"
  by (simp add: health_failure_def Let_def entry_or_new_def)

lemma entry_or_new_success:
  "entry_or_new (health_success h b) b =
     (entry_or_new h b)\<lparr>consecutive_failures := 0, ejected_until := None, trial_in_flight := False,
        backoff := base_backoff (health_policy h)\<rparr>"
  by (simp add: health_success_def Let_def entry_or_new_def)

text \<open>An entry after a run of failures from a clean record.\<close>

lemma failure_run:
  assumes "clean_record h b" "0 < unat (eject_after (health_policy h))"
  defines "n \<equiv> unat (eject_after (health_policy h))"
  shows "let e = entry_or_new (health_run (map (Failed b) ts) h) b in
           \<not> trial_in_flight e \<and> backoff e = base_backoff (health_policy h)
           \<and> (length ts < n \<longrightarrow> unat (consecutive_failures e) = length ts)
           \<and> ejected_until e =
               (if length ts < n then None else Some (ts ! (n - 1) + base_backoff (health_policy h)))"
proof (induction ts rule: rev_induct)
  case Nil
  then show ?case using assms by (simp add: clean_record_def Let_def)
next
  case (snoc t ts)
  let ?e = "entry_or_new (health_run (map (Failed b) ts) h) b"
  have n: "n < 2 ^ LENGTH(32)" unfolding n_def by (rule unsigned_less)
  have inc: "unat (consecutive_failures ?e + 1) = Suc (length ts)" if "length ts < n"
    using snoc that n by (simp add: Let_def unat_word_ariths)
  have le: "eject_after (health_policy h) \<le> consecutive_failures ?e + 1 \<longleftrightarrow> n \<le> Suc (length ts)"
    if "length ts < n"
    using inc [OF that] by (simp add: word_le_nat_alt n_def)
  have step: "entry_or_new (health_run (map (Failed b) (ts @ [t])) h) b =
      entry_or_new (health_failure (health_run (map (Failed b) ts) h) b t) b"
    by (simp add: health_run_snoc)
  have pos: "0 < n" using assms(2) by (simp add: n_def)
  show ?case
  proof (cases "length ts < n")
    case True
    then show ?thesis
      using snoc le [OF True] inc [OF True] pos unfolding step
      by (auto simp: entry_or_new_failure Let_def nth_append not_less le_Suc_eq)
  next
    case False
    then have "n - 1 < length ts" using pos by linarith
    with False show ?thesis
      using snoc unfolding step by (auto simp: entry_or_new_failure Let_def nth_append)
  qed
qed

lemma entry_or_new_cong:
  "backends h b = backends h' b \<Longrightarrow> health_policy h = health_policy h' \<Longrightarrow>
     entry_or_new h b = entry_or_new h' b"
  by (simp add: entry_or_new_def split: option.split)

lemma health_state_entry: "health_state h b now = entry_state (entry_or_new h b) now"
  by (simp add: health_state_def entry_or_new_def entry_new_def entry_state_def split: option.split)

text \<open>Ejection is exact. While the events of a backend since its last success (or since the
  start) are failures only, whatever happens to other backends in between, it is in rotation as
  long as there were fewer than \<^verbatim>\<open>eject_after\<close> of them, and from then on it is ejected until
  \<^verbatim>\<open>base_backoff\<close> after the failure that reached the threshold, and half-open afterwards; further
  failures do not prolong the ejection.\<close>

theorem ejection_is_exact:
  assumes "h = health_new p \<or> (\<exists>h0. h = health_success h0 b \<and> health_policy h0 = p)"
    and "0 < unat (eject_after p)"
    and "filter (\<lambda>e. event_backend e = b) es = map (Failed b) ts"
  shows "health_state (health_run es h) b now =
     (if length ts < unat (eject_after p) then Healthy
      else if now < ts ! (unat (eject_after p) - 1) + base_backoff p then Ejected else HalfOpen)"
proof -
  have p: "health_policy h = p" and c: "clean_record h b"
    using assms(1) by (auto simp: health_policy_new health_policy_success)
  have "entry_or_new (health_run es h) b = entry_or_new (health_run (map (Failed b) ts) h) b"
    by (rule entry_or_new_cong) (simp_all add: health_run_projection [of es h b] assms(3))
  moreover have "ejected_until (entry_or_new (health_run (map (Failed b) ts) h) b) =
      (if length ts < unat (eject_after p) then None
       else Some (ts ! (unat (eject_after p) - 1) + base_backoff p))"
    using failure_run [of h b ts] c assms(2) unfolding p by (simp only: Let_def)
  ultimately show ?thesis by (simp add: health_state_entry entry_state_def)
qed

definition sample_backend :: "u16 \<Rightarrow> backend" where
  "sample_backend port = Backend (SocketAddr [127, 0, 0, 1] port)"

theorem ejection_is_exact_witness:
  "health_state (health_run
      [Failed (sample_backend 1) 10, Succeeded (sample_backend 2), Failed (sample_backend 1) 20]
      (health_new (policy_default\<lparr>eject_after := 2\<rparr>))) (sample_backend 1) 25 = Ejected"
proof -
  let ?p = "policy_default\<lparr>eject_after := 2\<rparr>"
  have "filter (\<lambda>e. event_backend e = sample_backend 1)
     [Failed (sample_backend 1) 10, Succeeded (sample_backend 2), Failed (sample_backend 1) 20]
     = map (Failed (sample_backend 1)) [10, 20]"
    by (simp add: sample_backend_def)
  from ejection_is_exact [OF disjI1 [OF refl] _ this, of ?p 25] show ?thesis
    by (simp add: policy_default_def from_secs_def)
qed

subsection \<open>The single trial\<close>

lemma admissible_entry:
  "admissible h now b \<longleftrightarrow>
     entry_state (entry_or_new h b) now = Healthy
     \<or> entry_state (entry_or_new h b) now = HalfOpen \<and> \<not> trial_in_flight (entry_or_new h b)"
  by (cases "entry_state (entry_or_new h b) now")
    (auto simp: admissible_def entry_or_new_def entry_new_def entry_state_def
      split: option.splits if_splits)

definition on_trial :: "health \<Rightarrow> backend \<Rightarrow> bool" where
  "on_trial h b \<longleftrightarrow>
     trial_in_flight (entry_or_new h b) \<and> ejected_until (entry_or_new h b) \<noteq> None"

lemma on_trial_not_admissible: "on_trial h b \<Longrightarrow> \<not> admissible h now b"
  by (auto simp: on_trial_def admissible_entry entry_state_def split: option.splits if_splits)

lemma on_trial_other: "event_backend e \<noteq> b \<Longrightarrow> on_trial (health_step e h) b = on_trial h b"
  by (simp add: on_trial_def entry_or_new_cong [of "health_step e h" b h])

lemma on_trial_persists:
  assumes "on_trial h b" "\<forall>e \<in> set es. event_backend e = b \<longrightarrow> (\<exists>t. e = Claimed b t)"
  shows "on_trial (health_run es h) b"
  using assms
proof (induction es arbitrary: h)
  case (Cons e es)
  have "on_trial (health_step e h) b"
  proof (cases "event_backend e = b")
    case True
    with Cons.prems obtain t where "e = Claimed b t" by auto
    with Cons.prems(1) show ?thesis by (auto simp: on_trial_def entry_or_new_claim)
  next
    case False
    with Cons.prems(1) show ?thesis by (simp add: on_trial_other)
  qed
  with Cons show ?case by simp
qed simp

lemma set_eligible:
  "set (eligible h cs now) =
     (if \<exists>c \<in> set cs. admissible h now (load_backend c)
      then {c \<in> set cs. admissible h now (load_backend c)} else set cs)"
  by (auto simp: eligible_def Let_def filter_empty_conv)

text \<open>C38. Probe-back is one request. Once the trial of a half-open backend is claimed, then until
  a success or a failure is reported for it, whatever else is reported and however long it
  takes, it is never admissible again, and the candidate list holds it only when no candidate at
  all is admissible. (A trial whose outcome is never reported keeps the backend out for good.)\<close>

theorem single_trial:
  assumes "health_state h b now = HalfOpen"
    and "\<forall>e \<in> set es. event_backend e = b \<longrightarrow> (\<exists>t. e = Claimed b t)"
    and "h' = health_run es (claim_trial h b now)"
  shows "\<not> admissible h' later b
    \<and> (b \<in> load_backend ` set (eligible h' cs later) \<longrightarrow>
         eligible h' cs later = cs \<and> (\<forall>c \<in> set cs. \<not> admissible h' later (load_backend c)))"
proof -
  have "on_trial (claim_trial h b now) b"
    using assms(1)
    by (auto simp: on_trial_def entry_or_new_claim health_state_entry entry_state_def
          split: option.splits)
  then have "on_trial h' b" using assms by (simp add: on_trial_persists)
  then have not: "\<not> admissible h' later b" by (rule on_trial_not_admissible)
  then show ?thesis
    by (auto simp: set_eligible eligible_def Let_def filter_empty_conv split: if_splits)
qed

theorem single_trial_witness:
  "\<not> admissible (health_run [Succeeded (sample_backend 2), Claimed (sample_backend 1) 31]
       (claim_trial (health_run [Failed (sample_backend 1) 10]
          (health_new (policy_default\<lparr>eject_after := 1, base_backoff := 20\<rparr>))) (sample_backend 1) 30))
     1000000 (sample_backend 1)"
  by (rule single_trial [THEN conjunct1, OF _ _ refl])
    (simp_all add: sample_backend_def health_state_def health_defs health_new_def Let_def
      entry_state_def policy_default_def)

text \<open>The outcome of the trial decides: a success restores the backend to rotation with a
  clean record at once, a failure ejects it again, for twice the previous backoff up to the
  ceiling, whatever the failure count.\<close>

theorem trial_outcome_decides:
  assumes "health_state h b now = HalfOpen"
    and "longer = min (2 * backoff (entry_or_new h b)) (max_backoff (health_policy h))"
  shows "(\<forall>t. health_state (health_success (claim_trial h b now) b) b t = Healthy)
    \<and> (\<forall>t. health_state (health_failure (claim_trial h b now) b f) b t =
            (if t < f + longer then Ejected else HalfOpen))
    \<and> admissible (health_failure (claim_trial h b now) b f) (f + longer) b"
proof -
  let ?c = "claim_trial h b now"
  have e: "trial_in_flight (entry_or_new ?c b)" "backoff (entry_or_new ?c b) = backoff (entry_or_new h b)"
    and p: "health_policy ?c = health_policy h"
    using assms(1) health_policy_step [of "Claimed b now"]
    by (simp_all add: health_state_entry entry_or_new_claim)
  have "entry_state (entry_or_new (health_failure ?c b f) b) t =
          (if t < f + longer then Ejected else HalfOpen)"
    and "\<not> trial_in_flight (entry_or_new (health_failure ?c b f) b)" for t
    by (simp_all add: entry_or_new_failure Let_def e p assms(2) entry_state_def mult.commute)
  moreover have "entry_state (entry_or_new (health_success ?c b) b) t = Healthy" for t
    by (simp add: entry_or_new_success entry_state_def)
  ultimately show ?thesis by (simp add: health_state_entry admissible_entry)
qed

theorem trial_outcome_decides_witness:
  "health_state (health_failure (claim_trial (health_run [Failed (sample_backend 1) 10]
          (health_new (policy_default\<lparr>eject_after := 1, base_backoff := 20\<rparr>)))
       (sample_backend 1) 30) (sample_backend 1) 35) (sample_backend 1) 70 = Ejected"
proof -
  let ?h = "health_run [Failed (sample_backend 1) 10]
     (health_new (policy_default\<lparr>eject_after := 1, base_backoff := 20\<rparr>))"
  have "health_state ?h (sample_backend 1) 30 = HalfOpen"
    "min (2 * backoff (entry_or_new ?h (sample_backend 1))) (max_backoff (health_policy ?h)) = 40"
    by (simp_all add: sample_backend_def health_state_def health_defs health_new_def Let_def
      entry_state_def policy_default_def from_secs_def)
  then show ?thesis
    using trial_outcome_decides [of ?h "sample_backend 1" 30 40 35] by simp
qed

subsection \<open>Backoff\<close>

text \<open>One failed probe: the trial is claimed at the first time and fails at the second.\<close>

definition failed_probe :: "backend \<Rightarrow> instant \<times> instant \<Rightarrow> health \<Rightarrow> health" where
  "failed_probe b ct h = health_failure (claim_trial h b (fst ct)) b (snd ct)"

text \<open>Each probe of the list is claimed while the backend is half-open.\<close>

fun probes_due :: "backend \<Rightarrow> (instant \<times> instant) list \<Rightarrow> health \<Rightarrow> bool" where
  "probes_due b [] h = True"
| "probes_due b (ct # cts) h =
     (health_state h b (fst ct) = HalfOpen \<and> probes_due b cts (failed_probe b ct h))"

lemma failed_probe_entry:
  assumes "health_state h b (fst ct) = HalfOpen"
  shows "backoff (entry_or_new (failed_probe b ct h) b) =
      min (2 * backoff (entry_or_new h b)) (max_backoff (health_policy h))"
    and "ejected_until (entry_or_new (failed_probe b ct h) b) =
      Some (snd ct + min (2 * backoff (entry_or_new h b)) (max_backoff (health_policy h)))"
    and "health_policy (failed_probe b ct h) = health_policy h"
proof -
  have p: "health_policy (claim_trial h b (fst ct)) = health_policy h"
    using health_policy_step [of "Claimed b (fst ct)"] by simp
  have "entry_or_new (claim_trial h b (fst ct)) b = (entry_or_new h b)\<lparr>trial_in_flight := True\<rparr>"
    using assms by (simp add: health_state_entry entry_or_new_claim)
  then show "backoff (entry_or_new (failed_probe b ct h) b) =
      min (2 * backoff (entry_or_new h b)) (max_backoff (health_policy h))"
    and "ejected_until (entry_or_new (failed_probe b ct h) b) =
      Some (snd ct + min (2 * backoff (entry_or_new h b)) (max_backoff (health_policy h)))"
    by (simp_all add: failed_probe_def entry_or_new_failure Let_def p mult.commute)
  show "health_policy (failed_probe b ct h) = health_policy h"
    using p health_policy_step [of "Failed b (snd ct)"] by (simp add: failed_probe_def)
qed

lemma doubled_min: "min (min (2 * x) m * 2 ^ (n + 1)) m = min (x * 2 ^ (Suc n + 1)) (m :: nat)"
proof -
  have scale: "z * 1 \<le> z * 2 ^ (n + 1)" for z :: nat by (intro mult_le_mono2) simp
  show ?thesis
  proof (cases "2 * x \<le> m")
    case False
    then have "m \<le> (2 * x) * 2 ^ (n + 1)" using scale [of "2 * x"] by linarith
    then have "min (x * 2 ^ (Suc n + 1)) m = m" by (simp add: mult.commute mult.left_commute)
    moreover have "min (m * 2 ^ (n + 1)) m = m" using scale [of m] by (simp only: min.absorb2 mult_1_right)
    ultimately show ?thesis using False by (simp only: min.absorb2 linorder_not_le less_imp_le)
  qed (simp add: min_def mult.commute mult.left_commute)
qed

text \<open>Backoff doubles to the ceiling: after \<^term>\<open>k\<close> failed probes in a row from a first
  ejection the backend is out for \<^verbatim>\<open>base_backoff * 2^k\<close>, capped at \<^verbatim>\<open>max_backoff\<close>, counted from
  the last failure.\<close>

theorem backoff_doubles_to_the_ceiling:
  assumes "base_backoff p \<le> max_backoff p" "health_policy h = p"
    and "backoff (entry_or_new h b) = base_backoff p"
    and "probes_due b (cts @ [(c, f)]) h"
    and "wait = min (base_backoff p * 2 ^ (length cts + 1)) (max_backoff p)"
  shows "health_state (fold (failed_probe b) (cts @ [(c, f)]) h) b t =
     (if t < f + wait then Ejected else HalfOpen)"
proof -
  have "backoff (entry_or_new (fold (failed_probe b) (cts @ [(c, f)]) h) b) =
          min (backoff (entry_or_new h b) * 2 ^ (length cts + 1)) (max_backoff p)
      \<and> ejected_until (entry_or_new (fold (failed_probe b) (cts @ [(c, f)]) h) b) =
          Some (f + min (backoff (entry_or_new h b) * 2 ^ (length cts + 1)) (max_backoff p))"
    if "backoff (entry_or_new h b) \<le> max_backoff p" "health_policy h = p"
      "probes_due b (cts @ [(c, f)]) h" for h
    using that
  proof (induction cts arbitrary: h)
    case Nil
    then show ?case by (simp add: failed_probe_entry mult.commute)
  next
    case (Cons ct cts)
    let ?h = "failed_probe b ct h"
    have st: "health_state h b (fst ct) = HalfOpen" using Cons.prems(3) by simp
    note e = failed_probe_entry [OF st]
    have "min (min (2 * x) m * 2 ^ (length cts + 1)) m = min (x * 2 ^ (length (ct # cts) + 1)) m"
      for x m :: nat
      using doubled_min by simp
    with Cons.IH [of ?h] Cons.prems e show ?case by simp
  qed
  from this [of h] assms show ?thesis by (simp add: health_state_entry entry_state_def)
qed

theorem backoff_doubles_to_the_ceiling_witness:
  "health_state (fold (failed_probe (sample_backend 1)) ([(30, 35)] @ [(100, 110)])
      (health_run [Failed (sample_backend 1) 10]
         (health_new (policy_default\<lparr>eject_after := 1, base_backoff := 20\<rparr>))))
     (sample_backend 1) 189 = Ejected"
proof -
  let ?p = "policy_default\<lparr>eject_after := 1, base_backoff := 20\<rparr>"
  let ?h = "health_run [Failed (sample_backend 1) 10] (health_new ?p)"
  have "base_backoff ?p \<le> max_backoff ?p" "health_policy ?h = ?p"
    "backoff (entry_or_new ?h (sample_backend 1)) = base_backoff ?p"
    "probes_due (sample_backend 1) ([(30, 35)] @ [(100, 110)]) ?h"
    "80 = min (base_backoff ?p * 2 ^ (length [(30, 35)] + 1)) (max_backoff ?p)"
    by (simp_all add: sample_backend_def health_state_def health_defs health_new_def Let_def
      entry_state_def policy_default_def from_secs_def failed_probe_def)
  from backoff_doubles_to_the_ceiling [OF this, of 189] show ?thesis by simp
qed

subsection \<open>What every history keeps\<close>

text \<open>
  The total counts exactly the ejections of the entries; both wrap at 64 bits.
\<close>

definition ejections_accounted :: "health \<Rightarrow> bool" where
  "ejections_accounted h \<longleftrightarrow>
     finite (dom (backends h))
     \<and> ejections h = (\<Sum>b \<in> dom (backends h). entry_ejections (the (backends h b)))"

lemma ejections_accounted_put:
  assumes "ejections_accounted h" "backends h' = (backends h)(b \<mapsto> e)" "ejections h' = ejections h + d"
    and "entry_ejections e = entry_ejections (entry_or_new h b) + d"
  shows "ejections_accounted h'"
proof -
  let ?m = "backends h"
  have fin: "finite (dom ?m)" using assms(1) by (simp add: ejections_accounted_def)
  have "(\<Sum>x \<in> dom (?m(b \<mapsto> e)). entry_ejections (the ((?m(b \<mapsto> e)) x))) =
      entry_ejections e + (\<Sum>x \<in> dom ?m - {b}. entry_ejections (the (?m x)))"
    using fin by (simp add: sum.insert_remove)
  also have "\<dots> = (\<Sum>x \<in> dom ?m. entry_ejections (the (?m x))) + d"
  proof (cases "?m b")
    case None
    then show ?thesis using assms(4) by (simp add: domIff entry_or_new_def entry_new_def)
  next
    case (Some e0)
    then show ?thesis
      using fin assms(4) by (simp add: sum.remove [of "dom ?m" b] domI entry_or_new_def)
  qed
  finally show ?thesis using assms(1-3) by (simp add: ejections_accounted_def)
qed

lemma ejections_accounted_step:
  assumes "ejections_accounted h"
  shows "ejections_accounted (health_step e h)"
proof (cases e)
  case (Failed b t)
  have "(\<exists>e'. backends (health_failure h b t) = (backends h)(b \<mapsto> e')
        \<and> ejections (health_failure h b t) = ejections h + 1
        \<and> entry_ejections e' = entry_ejections (entry_or_new h b) + 1)
    \<or> (\<exists>e'. backends (health_failure h b t) = (backends h)(b \<mapsto> e')
        \<and> ejections (health_failure h b t) = ejections h + 0
        \<and> entry_ejections e' = entry_ejections (entry_or_new h b) + 0)"
    by (auto simp: health_failure_def Let_def intro!: exI)
  with assms Failed show ?thesis
    using ejections_accounted_put by (metis health_step.simps(1))
next
  case (Succeeded b)
  show ?thesis
    unfolding Succeeded health_step.simps
    by (rule ejections_accounted_put [OF assms, where d = 0 and b = b
          and e = "(entry_or_new h b)\<lparr>consecutive_failures := 0, ejected_until := None,
             trial_in_flight := False, backoff := base_backoff (health_policy h)\<rparr>"])
      (simp_all add: health_success_def Let_def)
next
  case (Claimed b t)
  show ?thesis
  proof (cases "\<exists>e. backends h b = Some e \<and> entry_state e t = HalfOpen \<and> \<not> trial_in_flight e")
    case True
    then obtain e where e: "backends h b = Some e" "entry_state e t = HalfOpen" "\<not> trial_in_flight e"
      by blast
    show ?thesis
      unfolding Claimed health_step.simps
      by (rule ejections_accounted_put [OF assms, where d = 0 and b = b and e = "e\<lparr>trial_in_flight := True\<rparr>"])
        (use e in \<open>simp_all add: claim_trial_def entry_or_new_def\<close>)
  next
    case False
    then have "claim_trial h b t = h" by (auto simp: claim_trial_def split: option.split)
    with assms Claimed show ?thesis by simp
  qed
qed

definition entry_inv :: "policy \<Rightarrow> health_entry \<Rightarrow> bool" where
  "entry_inv p e \<longleftrightarrow>
     (trial_in_flight e \<longrightarrow> ejected_until e \<noteq> None)
     \<and> (ejected_until e = None \<longrightarrow>
          consecutive_failures e < eject_after p \<and> backoff e = base_backoff p)
     \<and> base_backoff p \<le> backoff e \<and> backoff e \<le> max_backoff p"

lemma entry_inv_step:
  assumes "0 < eject_after (health_policy h)"
    and "base_backoff (health_policy h) \<le> max_backoff (health_policy h)"
    and "entry_inv (health_policy h) (entry_or_new h b)"
  shows "entry_inv (health_policy h) (entry_or_new (health_step e h) b)"
proof (cases "event_backend e = b")
  case False
  then have "entry_or_new (health_step e h) b = entry_or_new h b"
    by (intro entry_or_new_cong) simp_all
  with assms show ?thesis by simp
next
  case True
  then show ?thesis
    using assms
    by (cases e) (auto simp: entry_inv_def entry_or_new_failure entry_or_new_success
        entry_or_new_claim entry_state_def Let_def not_le split: option.splits)
qed

text \<open>In every history from the start (with a positive threshold and a ceiling not below the
  base): a backend in rotation is below the failure threshold and would be ejected for the base
  backoff; every backoff lies between the two bounds; a trial in flight belongs to a backend
  that is out of rotation; and the ejection counter is the sum over the backends.\<close>

theorem health_history_invariant:
  assumes "0 < eject_after p" "base_backoff p \<le> max_backoff p"
  shows "ejections_accounted (health_run es (health_new p))
    \<and> entry_inv p (entry_or_new (health_run es (health_new p)) b)"
proof (induction es rule: rev_induct)
  case Nil
  then show ?case
    using assms by (simp add: ejections_accounted_def health_new_def entry_or_new_def entry_new_def
        entry_inv_def)
next
  case (snoc e es)
  have p: "health_policy (health_run es (health_new p)) = p" by (simp add: health_policy_new)
  with snoc assms show ?case
    using entry_inv_step [of "health_run es (health_new p)" b e]
    by (simp add: health_run_snoc ejections_accounted_step)
qed

theorem health_history_invariant_witness:
  "entry_inv policy_default (entry_or_new
     (health_run [Failed (sample_backend 1) 5, Claimed (sample_backend 1) 7]
        (health_new policy_default)) (sample_backend 1))"
  by (rule health_history_invariant [THEN conjunct2]) (simp_all add: policy_default_def from_secs_def)

subsection \<open>Failing open\<close>

text \<open>Health checking never empties the candidate list, so the balancer refuses only when there
  is no backend at all; and whenever at least one backend is admissible, the one it picks is an
  admissible candidate.\<close>

theorem fail_open_routing:
  "(fst (lb_pick lb (eligible h cs now)) = None \<longleftrightarrow> cs = [])
   \<and> (\<forall>b. fst (lb_pick lb (eligible h cs now)) = Some b \<longrightarrow>
        b \<in> load_backend ` set cs
        \<and> ((\<exists>c \<in> set cs. admissible h now (load_backend c)) \<longrightarrow> admissible h now b))"
proof -
  have "eligible h cs now = [] \<longleftrightarrow> cs = []"
    by (auto simp: eligible_def Let_def)
  moreover have "b \<in> load_backend ` set cs
        \<and> ((\<exists>c \<in> set cs. admissible h now (load_backend c)) \<longrightarrow> admissible h now b)"
    if "fst (lb_pick lb (eligible h cs now)) = Some b" for b
    using lb_pick_member [OF that] by (auto simp: set_eligible split: if_splits)
  ultimately show ?thesis by (simp add: lb_pick_none_iff)
qed

theorem fail_open_routing_witness:
  "\<exists>b. fst (lb_pick power_of_two_new (eligible
       (health_run [Failed (sample_backend 8080) 5] (health_new (policy_default\<lparr>eject_after := 1\<rparr>)))
       [sample_load 8080 0] 6)) = Some b"
  using fail_open_routing [of power_of_two_new _ "[sample_load 8080 0]" 6] by auto

end
