(* ===== verification/Huffman_Codes.thy ===== *)
theory Huffman_Codes
  imports Prelude "HOL-Library.Sublist" "HOL-Library.Multiset"
begin

section \<open>The Huffman code of HPACK\<close>

text \<open>
  The table of \<^verbatim>\<open>core/src/hpack/huffman.rs\<close> (RFC 7541, Appendix B): for each octet, and for
  the end-of-string symbol last, the code word and its length in bits. The second half of the
  theory is what the coder and the decoder rely on: the 257 words form a complete prefix code,
  with no word shorter than five bits.
\<close>

definition codes_ascii :: "(u32 \<times> nat) list" where
  "codes_ascii =
  [(0x1ff8, 13), (0x7fffd8, 23), (0xfffffe2, 28), (0xfffffe3, 28), (0xfffffe4, 28),
   (0xfffffe5, 28), (0xfffffe6, 28), (0xfffffe7, 28), (0xfffffe8, 28), (0xffffea, 24),
   (0x3ffffffc, 30), (0xfffffe9, 28), (0xfffffea, 28), (0x3ffffffd, 30), (0xfffffeb, 28),
   (0xfffffec, 28), (0xfffffed, 28), (0xfffffee, 28), (0xfffffef, 28), (0xffffff0, 28),
   (0xffffff1, 28), (0xffffff2, 28), (0x3ffffffe, 30), (0xffffff3, 28), (0xffffff4, 28),
   (0xffffff5, 28), (0xffffff6, 28), (0xffffff7, 28), (0xffffff8, 28), (0xffffff9, 28),
   (0xffffffa, 28), (0xffffffb, 28), (0x14, 6), (0x3f8, 10), (0x3f9, 10),
   (0xffa, 12), (0x1ff9, 13), (0x15, 6), (0xf8, 8), (0x7fa, 11),
   (0x3fa, 10), (0x3fb, 10), (0xf9, 8), (0x7fb, 11), (0xfa, 8),
   (0x16, 6), (0x17, 6), (0x18, 6), (0x0, 5), (0x1, 5),
   (0x2, 5), (0x19, 6), (0x1a, 6), (0x1b, 6), (0x1c, 6),
   (0x1d, 6), (0x1e, 6), (0x1f, 6), (0x5c, 7), (0xfb, 8),
   (0x7ffc, 15), (0x20, 6), (0xffb, 12), (0x3fc, 10), (0x1ffa, 13),
   (0x21, 6), (0x5d, 7), (0x5e, 7), (0x5f, 7), (0x60, 7),
   (0x61, 7), (0x62, 7), (0x63, 7), (0x64, 7), (0x65, 7),
   (0x66, 7), (0x67, 7), (0x68, 7), (0x69, 7), (0x6a, 7),
   (0x6b, 7), (0x6c, 7), (0x6d, 7), (0x6e, 7), (0x6f, 7),
   (0x70, 7), (0x71, 7), (0x72, 7), (0xfc, 8), (0x73, 7),
   (0xfd, 8), (0x1ffb, 13), (0x7fff0, 19), (0x1ffc, 13), (0x3ffc, 14),
   (0x22, 6), (0x7ffd, 15), (0x3, 5), (0x23, 6), (0x4, 5),
   (0x24, 6), (0x5, 5), (0x25, 6), (0x26, 6), (0x27, 6),
   (0x6, 5), (0x74, 7), (0x75, 7), (0x28, 6), (0x29, 6),
   (0x2a, 6), (0x7, 5), (0x2b, 6), (0x76, 7), (0x2c, 6),
   (0x8, 5), (0x9, 5), (0x2d, 6), (0x77, 7), (0x78, 7),
   (0x79, 7), (0x7a, 7), (0x7b, 7), (0x7ffe, 15), (0x7fc, 11),
   (0x3ffd, 14), (0x1ffd, 13), (0xffffffc, 28)]"

definition codes_high :: "(u32 \<times> nat) list" where
  "codes_high =
  [(0xfffe6, 20), (0x3fffd2, 22), (0xfffe7, 20), (0xfffe8, 20), (0x3fffd3, 22),
   (0x3fffd4, 22), (0x3fffd5, 22), (0x7fffd9, 23), (0x3fffd6, 22), (0x7fffda, 23),
   (0x7fffdb, 23), (0x7fffdc, 23), (0x7fffdd, 23), (0x7fffde, 23), (0xffffeb, 24),
   (0x7fffdf, 23), (0xffffec, 24), (0xffffed, 24), (0x3fffd7, 22), (0x7fffe0, 23),
   (0xffffee, 24), (0x7fffe1, 23), (0x7fffe2, 23), (0x7fffe3, 23), (0x7fffe4, 23),
   (0x1fffdc, 21), (0x3fffd8, 22), (0x7fffe5, 23), (0x3fffd9, 22), (0x7fffe6, 23),
   (0x7fffe7, 23), (0xffffef, 24), (0x3fffda, 22), (0x1fffdd, 21), (0xfffe9, 20),
   (0x3fffdb, 22), (0x3fffdc, 22), (0x7fffe8, 23), (0x7fffe9, 23), (0x1fffde, 21),
   (0x7fffea, 23), (0x3fffdd, 22), (0x3fffde, 22), (0xfffff0, 24), (0x1fffdf, 21),
   (0x3fffdf, 22), (0x7fffeb, 23), (0x7fffec, 23), (0x1fffe0, 21), (0x1fffe1, 21),
   (0x3fffe0, 22), (0x1fffe2, 21), (0x7fffed, 23), (0x3fffe1, 22), (0x7fffee, 23),
   (0x7fffef, 23), (0xfffea, 20), (0x3fffe2, 22), (0x3fffe3, 22), (0x3fffe4, 22),
   (0x7ffff0, 23), (0x3fffe5, 22), (0x3fffe6, 22), (0x7ffff1, 23), (0x3ffffe0, 26),
   (0x3ffffe1, 26), (0xfffeb, 20), (0x7fff1, 19), (0x3fffe7, 22), (0x7ffff2, 23),
   (0x3fffe8, 22), (0x1ffffec, 25), (0x3ffffe2, 26), (0x3ffffe3, 26), (0x3ffffe4, 26),
   (0x7ffffde, 27), (0x7ffffdf, 27), (0x3ffffe5, 26), (0xfffff1, 24), (0x1ffffed, 25),
   (0x7fff2, 19), (0x1fffe3, 21), (0x3ffffe6, 26), (0x7ffffe0, 27), (0x7ffffe1, 27),
   (0x3ffffe7, 26), (0x7ffffe2, 27), (0xfffff2, 24), (0x1fffe4, 21), (0x1fffe5, 21),
   (0x3ffffe8, 26), (0x3ffffe9, 26), (0xffffffd, 28), (0x7ffffe3, 27), (0x7ffffe4, 27),
   (0x7ffffe5, 27), (0xfffec, 20), (0xfffff3, 24), (0xfffed, 20), (0x1fffe6, 21),
   (0x3fffe9, 22), (0x1fffe7, 21), (0x1fffe8, 21), (0x7ffff3, 23), (0x3fffea, 22),
   (0x3fffeb, 22), (0x1ffffee, 25), (0x1ffffef, 25), (0xfffff4, 24), (0xfffff5, 24),
   (0x3ffffea, 26), (0x7ffff4, 23), (0x3ffffeb, 26), (0x7ffffe6, 27), (0x3ffffec, 26),
   (0x3ffffed, 26), (0x7ffffe7, 27), (0x7ffffe8, 27), (0x7ffffe9, 27), (0x7ffffea, 27),
   (0x7ffffeb, 27), (0xffffffe, 28), (0x7ffffec, 27), (0x7ffffed, 27), (0x7ffffee, 27),
   (0x7ffffef, 27), (0x7fffff0, 27), (0x3ffffee, 26), (0x3fffffff, 30)]"

definition huffman_codes :: "(u32 \<times> nat) list" where
  "huffman_codes = codes_ascii @ codes_high"

definition eos :: nat where
  "eos = 256"

text \<open>\<^verbatim>\<open>(code >> bit) & 1\<close> for \<^verbatim>\<open>bit\<close> in \<^verbatim>\<open>(0..len).rev()\<close>: a code word, first bit first.\<close>

definition code_bits :: "u32 \<times> nat \<Rightarrow> bool list" where
  "code_bits cl = map (bit (fst cl)) (rev [0..<snd cl])"

definition code_words :: "bool list list" where
  "code_words = map code_bits huffman_codes"

subsection \<open>Complete prefix codes\<close>

text \<open>
  A check that computes: a code is complete when it is the empty word alone, or has no empty word
  and both halves, by first bit, are complete.
\<close>

fun complete_code :: "nat \<Rightarrow> bool list list \<Rightarrow> bool" where
  "complete_code 0 ws = (ws = [[]])"
| "complete_code (Suc n) ws =
     (ws = [[]]
      \<or> ([] \<notin> set ws \<and> complete_code n (map tl (filter hd ws))
         \<and> complete_code n (map tl (filter (\<lambda>w. \<not> hd w) ws))))"

text \<open>An equation that computes the bits of a word from its value, one halving per bit.\<close>

fun int_bits :: "nat \<Rightarrow> int \<Rightarrow> bool list \<Rightarrow> bool list" where
  "int_bits 0 x acc = acc"
| "int_bits (Suc n) x acc = int_bits n (x div 2) (odd x # acc)"

lemma int_bits_eq: "int_bits n x acc = map (bit x) (rev [0..<n]) @ acc"
proof (induction n arbitrary: x acc)
  case (Suc n)
  have "map (bit x) (rev [0..<Suc n]) = map (bit (x div 2)) (rev [0..<n]) @ [odd x]"
    by (simp only: upt_conv_Cons [OF zero_less_Suc] map_Suc_upt [symmetric] rev.simps rev_map
        map_append list.map map_map comp_def bit_Suc bit_0)
  with Suc show ?case by simp
qed simp

lemma code_bits_code [code]: "code_bits cl = int_bits (snd cl) (uint (fst cl)) []"
  by (auto simp: int_bits_eq code_bits_def bit_uint_iff dest: bit_imp_le_length)

text \<open>The one evaluation of the table.\<close>

lemma code_words_checked:
  "let ws = code_words in
     complete_code 30 ws \<and> list_all (\<lambda>w. 5 \<le> length w) ws \<and> length ws = 257
     \<and> ws ! eos = replicate 30 True"
  by code_simp

lemma code_words_complete: "complete_code 30 code_words"
  and code_words_long: "w \<in> set code_words \<Longrightarrow> 5 \<le> length w"
  and length_code_words [simp]: "length code_words = 257"
  and code_words_eos: "code_words ! eos = replicate 30 True"
  using code_words_checked by (auto simp: Let_def list_all_iff)

lemma huffman_codes_fit: "list_all (\<lambda>(code, len). len \<le> 30 \<and> drop_bit len code = 0) huffman_codes"
  by (simp add: huffman_codes_def codes_ascii_def codes_high_def)

text \<open>What the check says.\<close>

lemma complete_code_Nil [simp]: "\<not> complete_code n []"
  by (induction n) simp_all

lemma complete_code_distinct: "complete_code n ws \<Longrightarrow> distinct ws"
proof (induction n ws rule: complete_code.induct)
  case (2 n ws)
  show ?case
  proof (cases "ws = [[]]")
    case False
    let ?T = "filter hd ws" and ?F = "filter (\<lambda>w. \<not> hd w) ws"
    from 2 False have d: "distinct (map tl ?T)" "distinct (map tl ?F)" by auto
    then have "distinct ?T" "distinct ?F" by (simp_all add: distinct_map)
    moreover have "mset ws = mset (?T @ ?F)"
      by (metis mset_append mset_filter multiset_partition)
    moreover have "set ?T \<inter> set ?F = {}" by auto
    ultimately show ?thesis by (metis distinct_append mset_eq_imp_distinct_iff)
  qed simp
qed simp

text \<open>Every word of an incomplete prefix can be continued both ways, and no word continues one.\<close>

lemma complete_code_step:
  assumes "complete_code (Suc n) ws" "ws \<noteq> [[]]"
  shows "[] \<notin> set ws"
    and "b # u \<in> set ws \<longleftrightarrow> u \<in> set (map tl (filter (\<lambda>w. hd w = b) ws))"
    and "complete_code n (map tl (filter (\<lambda>w. hd w = b) ws))"
proof -
  show ne: "[] \<notin> set ws" using assms by simp
  show "b # u \<in> set ws \<longleftrightarrow> u \<in> set (map tl (filter (\<lambda>w. hd w = b) ws))"
  proof
    assume "u \<in> set (map tl (filter (\<lambda>w. hd w = b) ws))"
    then obtain w where "w \<in> set ws" "hd w = b" "u = tl w" by auto
    with ne show "b # u \<in> set ws" by (cases w) auto
  qed force
  show "complete_code n (map tl (filter (\<lambda>w. hd w = b) ws))"
    using assms by (cases b) auto
qed

lemma complete_code_prefix_free:
  "complete_code n ws \<Longrightarrow> u \<in> set ws \<Longrightarrow> v \<in> set ws \<Longrightarrow> prefix u v \<Longrightarrow> u = v"
proof (induction n arbitrary: ws u v)
  case (Suc n)
  show ?case
  proof (cases "ws = [[]]")
    case False
    note step = complete_code_step [OF Suc.prems(1) False]
    obtain b u' where u: "u = b # u'" using step(1) Suc.prems(2) by (cases u) auto
    with Suc.prems(4) obtain v' where v: "v = b # v'" "prefix u' v'" by (cases v) auto
    from Suc.IH [OF step(3), of u' b v'] Suc.prems(2,3) show ?thesis
      unfolding u v(1) step(2) using v(2) by simp
  qed (use Suc in auto)
qed auto

lemma complete_code_full:
  "complete_code n ws \<Longrightarrow> strict_prefix u w \<Longrightarrow> w \<in> set ws \<Longrightarrow> \<exists>v \<in> set ws. prefix (u @ [b]) v"
proof (induction n arbitrary: ws u w)
  case (Suc n)
  show ?case
  proof (cases "ws = [[]]")
    case False
    note step = complete_code_step [OF Suc.prems(1) False]
    show ?thesis
    proof (cases u)
      case Nil
      have "map tl (filter (\<lambda>w. hd w = b) ws) \<noteq> []"
        using step(3) [of b] by (cases n) auto
      then obtain v where "v \<in> set ws" "hd v = b" by (auto simp: filter_empty_conv)
      with step(1) Nil show ?thesis by (cases v) (auto intro!: bexI [of _ v])
    next
      case (Cons c u')
      with Suc.prems(2) obtain w' where w: "w = c # w'" "strict_prefix u' w'" by (cases w) auto
      from Suc.IH [OF step(3) [of c] w(2)] Suc.prems(3)
      obtain v where "v \<in> set (map tl (filter (\<lambda>w. hd w = c) ws))" "prefix (u' @ [b]) v"
        unfolding w(1) step(2) by blast
      with Cons show ?thesis by (intro bexI [of _ "c # v"]) (auto simp: step(2))
    qed
  qed (use Suc in auto)
qed auto

subsection \<open>Reading a prefix code\<close>

locale prefix_code =
  fixes syms :: "'a set" and word :: "'a \<Rightarrow> bool list"
  assumes prefix_free: "a \<in> syms \<Longrightarrow> b \<in> syms \<Longrightarrow> prefix (word a) (word b) \<Longrightarrow> a = b"
    and word_nonempty: "a \<in> syms \<Longrightarrow> word a \<noteq> []"
begin

text \<open>A rest that no word starts.\<close>

definition incomplete :: "bool list \<Rightarrow> bool" where
  "incomplete r \<longleftrightarrow> (\<forall>a \<in> syms. \<not> prefix (word a) r)"

lemma unique_parse:
  assumes "concat (map word xs) @ p = concat (map word ys) @ q"
    and "set xs \<subseteq> syms" "set ys \<subseteq> syms" "incomplete p" "incomplete q"
  shows "xs = ys \<and> p = q"
  using assms
proof (induction xs arbitrary: ys)
  case Nil
  then show ?case by (cases ys) (auto simp: incomplete_def)
next
  case (Cons x xs)
  from Cons.prems obtain y ys' where ys: "ys = y # ys'"
    by (cases ys) (auto simp: incomplete_def)
  from Cons.prems(1) have "word x @ concat (map word xs) @ p = word y @ concat (map word ys') @ q"
    by (simp add: ys)
  then have "prefix (word x) (word y) \<or> prefix (word y) (word x)"
    by (metis prefixI prefix_same_cases)
  then have "x = y" using Cons.prems(2,3) ys prefix_free by auto
  with Cons ys show ?case by auto
qed

end

definition symbol_word :: "nat \<Rightarrow> bool list" where
  "symbol_word s = code_words ! s"

lemma symbol_word_in [simp]: "s < 257 \<Longrightarrow> symbol_word s \<in> set code_words"
  by (simp add: symbol_word_def)

interpretation huffman: prefix_code "{..<257}" symbol_word
proof
  fix a b assume "a \<in> {..<257}" "b \<in> {..<257}" "prefix (symbol_word a) (symbol_word b)"
  then have "code_words ! a = code_words ! b"
    using complete_code_prefix_free [OF code_words_complete] by (simp add: symbol_word_def)
  with \<open>a \<in> _\<close> \<open>b \<in> _\<close> show "a = b"
    using complete_code_distinct [OF code_words_complete] by (simp add: nth_eq_iff_index_eq)
next
  fix a :: nat assume "a \<in> {..<257}"
  then show "symbol_word a \<noteq> []" using code_words_long [of "symbol_word a"] by auto
qed

end
