(* ===== verification/Huffman.thy ===== *)
theory Huffman
  imports Huffman_Codes
begin

section \<open>The Huffman coder and the decoder's state machine\<close>

text \<open>
  \<^verbatim>\<open>core/src/hpack/huffman.rs\<close>: the encoder, with its 64-bit accumulator, and the decoder, whose
  nibble-indexed table is built from the codes through a tree in an arena of nodes, as in the
  code. An absent child (\<^verbatim>\<open>NONE\<close>) is \<^const>\<open>None\<close>. Following an absent child, or breaking one of
  the assertions of the construction, is a panic: the build then has no value.

  The error type of \<^verbatim>\<open>hpack.rs\<close> is here because both files use it; the text of a compression
  error is not modelled.
\<close>

datatype hpack_error = Compression | HeaderListTooLarge (too_large_size: nat) (too_large_limit: nat)

subsection \<open>Encoding\<close>

definition huffman_encoded_len :: "octets \<Rightarrow> nat" where
  "huffman_encoded_len src =
     (let bits = sum_list (map (\<lambda>b. snd (huffman_codes ! unat b)) src) in (bits + 7) div 8)"

text \<open>\<^verbatim>\<open>while nbits >= 8\<close>: emit the oldest complete octets of the accumulator.\<close>

fun drain_acc :: "u64 \<Rightarrow> nat \<Rightarrow> octets \<Rightarrow> nat \<times> octets" where
  "drain_acc acc nbits out =
     (if 8 \<le> nbits then drain_acc acc (nbits - 8) (out @ [ucast (drop_bit (nbits - 8) acc)])
      else (nbits, out))"

declare drain_acc.simps [simp del]

fun encode_symbols :: "octets \<Rightarrow> u64 \<Rightarrow> nat \<Rightarrow> octets \<Rightarrow> u64 \<times> nat \<times> octets" where
  "encode_symbols [] acc nbits out = (acc, nbits, out)"
| "encode_symbols (byte # src) acc nbits out =
     (let (code, len) = huffman_codes ! unat byte;
          acc' = push_bit len acc OR ucast code;
          (nbits', out') = drain_acc acc' (nbits + len) out
      in encode_symbols src acc' nbits' out')"

definition huffman_encode :: "octets \<Rightarrow> octets \<Rightarrow> octets" where
  "huffman_encode src out =
     (let (acc, nbits, out') = encode_symbols src 0 0 out in
      if 0 < nbits then
        let pad = 8 - nbits; ones = push_bit pad 1 - 1 in
        out' @ [ucast (push_bit pad acc OR ones)]
      else out')"

subsection \<open>The code tree\<close>

record arena =
  children :: "nat option list list"
  symbol :: "nat option list"

definition arena_new :: arena where
  "arena_new = \<lparr>children = [[None, None]], symbol = [None]\<rparr>"

definition child :: "arena \<Rightarrow> nat \<Rightarrow> bool \<Rightarrow> nat option" where
  "child ar node b = children ar ! node ! of_bool b"

text \<open>One bit of a code: make the child if it is absent, then move to it.\<close>

definition arena_step :: "bool \<Rightarrow> arena \<times> nat \<Rightarrow> arena \<times> nat" where
  "arena_step b an =
     (let (ar, node) = an in
      case child ar node b of
        Some k \<Rightarrow> (ar, k)
      | None \<Rightarrow>
          let k = length (children ar) in
          (\<lparr>children = (children ar @ [[None, None]])[node := (children ar ! node)[of_bool b := Some k]],
            symbol = symbol ar @ [None]\<rparr>, k))"

definition arena_insert :: "nat \<Rightarrow> u32 \<times> nat \<Rightarrow> arena \<Rightarrow> arena" where
  "arena_insert s cl ar =
     (let (ar', node) = fold arena_step (code_bits cl) (ar, 0) in
      ar'\<lparr>symbol := (symbol ar')[node := Some s]\<rparr>)"

definition arena_build :: "(u32 \<times> nat) list \<Rightarrow> arena" where
  "arena_build codes = fold (\<lambda>(s, cl). arena_insert s cl) (enumerate 0 codes) arena_new"

subsection \<open>The state machine\<close>

definition invalid_state :: nat where
  "invalid_state = 65535"

definition root_state :: nat where
  "root_state = 0"

record huffman_transition =
  next_state :: nat
  emit :: "u8 option"

record decode_table =
  states :: "huffman_transition list list"
  depth :: "nat list"
  eos_prefix :: "bool list"

text \<open>Numbering the internal nodes: \<^verbatim>\<open>state_of\<close> and \<^verbatim>\<open>nodes\<close>.\<close>

definition number_node :: "nat \<times> nat option list \<Rightarrow> nat list \<times> nat list \<Rightarrow> nat list \<times> nat list" where
  "number_node nk sn =
     (let (node, kids) = nk; (state_of, nodes) = sn in
      if kids \<noteq> [None, None] then (state_of[node := length nodes], nodes @ [node]) else sn)"

definition number_nodes :: "nat option list list \<Rightarrow> nat list \<times> nat list" where
  "number_nodes ch =
     fold number_node (enumerate 0 ch) (replicate (length ch) invalid_state, [])"

text \<open>The four bits of a nibble, from a state: a panic, the end-of-string symbol, or the node
  reached with the symbol completed on the way.\<close>

datatype nibble_walk = WalkPanic | WalkEos | Walked nat "u8 option"

fun walk_nibble :: "arena \<Rightarrow> bool list \<Rightarrow> nat \<Rightarrow> u8 option \<Rightarrow> nibble_walk" where
  "walk_nibble ar [] node em = Walked node em"
| "walk_nibble ar (b # bs) node em =
     (case child ar node b of
        None \<Rightarrow> WalkPanic
      | Some k \<Rightarrow>
          (case symbol ar ! k of
             None \<Rightarrow> walk_nibble ar bs k em
           | Some s \<Rightarrow>
               if s = eos then WalkEos
               else if em \<noteq> None then WalkPanic
               else walk_nibble ar bs 0 (Some (of_nat s))))"

definition nibble_bits :: "nat \<Rightarrow> bool list" where
  "nibble_bits nibble = map (bit nibble) [3, 2, 1, 0]"

fun transition_of_walk :: "nat list \<Rightarrow> nibble_walk \<Rightarrow> huffman_transition option" where
  "transition_of_walk state_of WalkPanic = None"
| "transition_of_walk state_of WalkEos = Some \<lparr>next_state = invalid_state, emit = None\<rparr>"
| "transition_of_walk state_of (Walked node em) = Some \<lparr>next_state = state_of ! node, emit = em\<rparr>"

definition transition_row :: "arena \<Rightarrow> nat list \<Rightarrow> nat \<Rightarrow> huffman_transition list option" where
  "transition_row ar state_of start =
     those (map (\<lambda>nibble. transition_of_walk state_of (walk_nibble ar (nibble_bits nibble) start None))
              [0..<16])"

text \<open>
  The descent that records depth and all-ones paths. The stack's top is the head of the list. The
  fuel bounds the number of nodes popped.
\<close>

definition push_kids :: "arena \<Rightarrow> nat \<Rightarrow> nat \<Rightarrow> bool \<Rightarrow> (nat \<times> nat \<times> bool) list \<Rightarrow> (nat \<times> nat \<times> bool) list" where
  "push_kids ar node d ones stack =
     fold (\<lambda>b st. case child ar node b of None \<Rightarrow> st | Some k \<Rightarrow> (k, d + 1, ones \<and> b) # st)
       [False, True] stack"

fun descend :: "nat \<Rightarrow> arena \<Rightarrow> nat list \<Rightarrow> (nat \<times> nat \<times> bool) list \<Rightarrow> nat list \<times> bool list
    \<Rightarrow> (nat list \<times> bool list) option" where
  "descend fuel ar state_of [] de = Some de"
| "descend 0 ar state_of (x # stack) de = None"
| "descend (Suc fuel) ar state_of ((node, d, ones) # stack) (dep, eosp) =
     (if symbol ar ! node \<noteq> None then descend fuel ar state_of stack (dep, eosp)
      else
        let state = state_of ! node in
        descend fuel ar state_of (push_kids ar node d ones stack)
          (dep[state := d], eosp[state := ones]))"

definition build_table :: "(u32 \<times> nat) list \<Rightarrow> decode_table option" where
  "build_table codes =
     (let ar = arena_build codes;
          (state_of, nodes) = number_nodes (children ar) in
      if state_of ! 0 \<noteq> root_state then None
      else
        case those (map (transition_row ar state_of) nodes) of
          None \<Rightarrow> None
        | Some rows \<Rightarrow>
            (case descend (length (children ar)) ar state_of [(0, 0, True)]
                    (replicate (length nodes) 0, replicate (length nodes) False) of
               None \<Rightarrow> None
             | Some (dep, eosp) \<Rightarrow> Some \<lparr>states = rows, depth = dep, eos_prefix = eosp\<rparr>))"

definition the_table :: decode_table where
  "the_table = the (build_table huffman_codes)"

subsection \<open>Decoding\<close>

fun octet_nibbles :: "octets \<Rightarrow> nat list" where
  "octet_nibbles [] = []"
| "octet_nibbles (b # bs) = unat (drop_bit 4 b) # unat (b AND 0x0f) # octet_nibbles bs"

fun decode_nibbles :: "decode_table \<Rightarrow> nat list \<Rightarrow> nat \<Rightarrow> octets \<Rightarrow> hpack_error + (nat \<times> octets)" where
  "decode_nibbles tab [] state out = Inr (state, out)"
| "decode_nibbles tab (n # ns) state out =
     (let t = states tab ! state ! n in
      if next_state t = invalid_state then Inl Compression
      else decode_nibbles tab ns (next_state t)
             (case emit t of None \<Rightarrow> out | Some s \<Rightarrow> out @ [s]))"

definition huffman_decode :: "octets \<Rightarrow> hpack_error + octets" where
  "huffman_decode src =
     (case decode_nibbles the_table (octet_nibbles src) root_state [] of
        Inl e \<Rightarrow> Inl e
      | Inr (state, out) \<Rightarrow>
          if state \<noteq> root_state then
            if 7 < depth the_table ! state then Inl Compression
            else if \<not> eos_prefix the_table ! state then Inl Compression
            else Inr out
          else Inr out)"

end
