(* ===== verification/Hpack.thy ===== *)
theory Hpack
  imports Huffman Protocol_Types
begin

section \<open>HPACK: integers, strings, tables, decoder and encoder\<close>

text \<open>
  \<^verbatim>\<open>core/src/hpack.rs\<close> and \<^verbatim>\<open>core/src/hpack/static_table.rs\<close>. A \<^verbatim>\<open>Cursor\<close> is the octets that are
  left; \<^verbatim>\<open>usize\<close> values are natural numbers (those read from the wire are bounded by the code
  itself). The decoder and the encoder are records with their dynamic tables; a method that
  fails returns the decoder as it is at that point.
\<close>

definition entry_overhead :: nat where
  "entry_overhead = 32"

definition header_list_size :: "header \<Rightarrow> nat" where
  "header_list_size h = length (hdr_name h) + length (hdr_value h) + entry_overhead"

fun connection_error_of_hpack :: "hpack_error \<Rightarrow> connection_error" where
  "connection_error_of_hpack Compression = ConnectionError CompressionError"
| "connection_error_of_hpack (HeaderListTooLarge sz lim) = ConnectionError EnhanceYourCalm"

subsection \<open>The cursor\<close>

fun next_byte :: "octets \<Rightarrow> hpack_error + u8 \<times> octets" where
  "next_byte [] = Inl Compression"
| "next_byte (b # rest) = Inr (b, rest)"

definition take_octets :: "nat \<Rightarrow> octets \<Rightarrow> hpack_error + octets \<times> octets" where
  "take_octets len cur =
     (if length cur < len then Inl Compression else Inr (List.take len cur, List.drop len cur))"

subsection \<open>Integers\<close>

text \<open>The loop of \<^verbatim>\<open>decode_int\<close>.\<close>

fun decode_int_more :: "nat \<Rightarrow> nat \<Rightarrow> octets \<Rightarrow> hpack_error + nat \<times> octets" where
  "decode_int_more val sh [] = Inl Compression"
| "decode_int_more val sh (byte # cur) =
     (let val' = val + push_bit sh (unat (byte AND 0x7f)) in
      if u32_max < val' then Inl Compression
      else if byte AND 0x80 = 0 then Inr (val', cur)
      else if 28 < sh + 7 then Inl Compression
      else decode_int_more val' (sh + 7) cur)"

definition decode_int :: "u8 \<Rightarrow> nat \<Rightarrow> octets \<Rightarrow> hpack_error + nat \<times> octets" where
  "decode_int first prefix_bits cur =
     (let mk = 2 ^ prefix_bits - 1;
          val = unat (ucast first AND (of_nat mk :: u32)) in
      if val < mk then Inr (val, cur) else decode_int_more val 0 cur)"

text \<open>The \<^verbatim>\<open>while\<close> loop of \<^verbatim>\<open>encode_int\<close>, and the octet after it.\<close>

fun encode_int_more :: "nat \<Rightarrow> octets" where
  "encode_int_more rest =
     (if 0x80 \<le> rest then (of_nat (rest mod 0x80) OR 0x80) # encode_int_more (rest div 0x80)
      else [of_nat rest])"

declare encode_int_more.simps [simp del]

definition encode_int :: "nat \<Rightarrow> nat \<Rightarrow> u8 \<Rightarrow> octets" where
  "encode_int val prefix_bits high_bits =
     (let mk = 2 ^ prefix_bits - 1 in
      if val < mk then [high_bits OR of_nat val]
      else (high_bits OR of_nat mk) # encode_int_more (val - mk))"

subsection \<open>Strings\<close>

definition decode_string :: "octets \<Rightarrow> hpack_error + octets \<times> octets" where
  "decode_string cur =
     (case next_byte cur of
        Inl e \<Rightarrow> Inl e
      | Inr (first, cur1) \<Rightarrow>
          (case decode_int first 7 cur1 of
             Inl e \<Rightarrow> Inl e
           | Inr (len, cur2) \<Rightarrow>
               (case take_octets len cur2 of
                  Inl e \<Rightarrow> Inl e
                | Inr (raw, cur3) \<Rightarrow>
                    if first AND 0x80 \<noteq> 0 then
                      (case huffman_decode raw of
                         Inl e \<Rightarrow> Inl e
                       | Inr s \<Rightarrow> Inr (s, cur3))
                    else Inr (raw, cur3))))"

definition encode_string :: "octets \<Rightarrow> bool \<Rightarrow> octets" where
  "encode_string s huffman_allowed =
     (let coded_len = huffman_encoded_len s in
      if huffman_allowed \<and> coded_len \<le> length s
      then huffman_encode s (encode_int coded_len 7 0x80)
      else encode_int (length s) 7 0x00 @ s)"

subsection \<open>The static table\<close>

definition ascii :: "string \<Rightarrow> octets" where
  "ascii s = map (\<lambda>c. of_nat (of_char c)) s"

definition static_strings :: "(string \<times> string) list" where
  "static_strings =
  [('':authority'', ''''), ('':method'', ''GET''),
   ('':method'', ''POST''), ('':path'', ''/''),
   ('':path'', ''/index.html''), ('':scheme'', ''http''),
   ('':scheme'', ''https''), ('':status'', ''200''),
   ('':status'', ''204''), ('':status'', ''206''),
   ('':status'', ''304''), ('':status'', ''400''),
   ('':status'', ''404''), ('':status'', ''500''),
   (''accept-charset'', ''''), (''accept-encoding'', ''gzip, deflate''),
   (''accept-language'', ''''), (''accept-ranges'', ''''),
   (''accept'', ''''), (''access-control-allow-origin'', ''''),
   (''age'', ''''), (''allow'', ''''),
   (''authorization'', ''''), (''cache-control'', ''''),
   (''content-disposition'', ''''), (''content-encoding'', ''''),
   (''content-language'', ''''), (''content-length'', ''''),
   (''content-location'', ''''), (''content-range'', ''''),
   (''content-type'', ''''), (''cookie'', ''''),
   (''date'', ''''), (''etag'', ''''),
   (''expect'', ''''), (''expires'', ''''),
   (''from'', ''''), (''host'', ''''),
   (''if-match'', ''''), (''if-modified-since'', ''''),
   (''if-none-match'', ''''), (''if-range'', ''''),
   (''if-unmodified-since'', ''''), (''last-modified'', ''''),
   (''link'', ''''), (''location'', ''''),
   (''max-forwards'', ''''), (''proxy-authenticate'', ''''),
   (''proxy-authorization'', ''''), (''range'', ''''),
   (''referer'', ''''), (''refresh'', ''''),
   (''retry-after'', ''''), (''server'', ''''),
   (''set-cookie'', ''''), (''strict-transport-security'', ''''),
   (''transfer-encoding'', ''''), (''user-agent'', ''''),
   (''vary'', ''''), (''via'', ''''),
   (''www-authenticate'', '''')]"

definition static_entries :: "(octets \<times> octets) list" where
  "static_entries = map (\<lambda>(n, v). (ascii n, ascii v)) static_strings"

definition static_len :: nat where
  "static_len = length static_entries"

definition static_get :: "nat \<Rightarrow> (octets \<times> octets) option" where
  "static_get index =
     (if index = 0 then None
      else if index - 1 < length static_entries then Some (static_entries ! (index - 1)) else None)"

subsection \<open>The dynamic table\<close>

record dynamic_table =
  entries :: "(octets \<times> octets) list"
  table_octets :: nat
  max_size :: nat

definition dynamic_table_new :: "nat \<Rightarrow> dynamic_table" where
  "dynamic_table_new m = \<lparr>entries = [], table_octets = 0, max_size = m\<rparr>"

definition table_get :: "dynamic_table \<Rightarrow> nat \<Rightarrow> (octets \<times> octets) option" where
  "table_get tab i = (if i < length (entries tab) then Some (entries tab ! i) else None)"

definition entry_cost :: "octets \<times> octets \<Rightarrow> nat" where
  "entry_cost nv = length (fst nv) + length (snd nv) + entry_overhead"

text \<open>
  \<^verbatim>\<open>evict_to\<close>: drop the oldest entry, the last, while the size is above the target. On an empty
  table the code would panic (\<^verbatim>\<open>expect\<close>); \<open>None\<close> is that panic.
\<close>

fun evict_loop :: "nat \<Rightarrow> (octets \<times> octets) list \<Rightarrow> nat \<Rightarrow> ((octets \<times> octets) list \<times> nat) option" where
  "evict_loop target es sz =
     (if sz \<le> target then Some (es, sz)
      else if es = [] then None
      else evict_loop target (butlast es) (sz - entry_cost (List.last es)))"

declare evict_loop.simps [simp del]

definition evict_to :: "nat \<Rightarrow> dynamic_table \<Rightarrow> dynamic_table" where
  "evict_to target tab =
     (case evict_loop target (entries tab) (table_octets tab) of
        None \<Rightarrow> tab
      | Some (es, sz) \<Rightarrow> tab\<lparr>entries := es, table_octets := sz\<rparr>)"

definition table_insert :: "octets \<Rightarrow> octets \<Rightarrow> dynamic_table \<Rightarrow> dynamic_table" where
  "table_insert name val tab =
     (let cost = length name + length val + entry_overhead;
          tab1 = evict_to (max_size tab - cost) tab in
      if max_size tab1 < cost then tab1
      else tab1\<lparr>entries := (name, val) # entries tab1, table_octets := table_octets tab1 + cost\<rparr>)"

definition set_max_size :: "nat \<Rightarrow> dynamic_table \<Rightarrow> dynamic_table" where
  "set_max_size m tab = evict_to m (tab\<lparr>max_size := m\<rparr>)"

definition lookup_index :: "dynamic_table \<Rightarrow> nat \<Rightarrow> hpack_error + octets \<times> octets" where
  "lookup_index tab index =
     (if index = 0 then Inl Compression
      else if index \<le> static_len then
        (case static_get index of None \<Rightarrow> Inl Compression | Some e \<Rightarrow> Inr e)
      else
        (case table_get tab (index - static_len - 1) of None \<Rightarrow> Inl Compression | Some e \<Rightarrow> Inr e))"

datatype table_match = FullMatch nat | NameMatch nat | NoMatch

text \<open>One pass over a table whose first entry has the given wire index: a full match ends the
  search, the first name match is kept.\<close>

fun find_in :: "(octets \<times> octets) list \<Rightarrow> nat \<Rightarrow> octets \<Rightarrow> octets \<Rightarrow> nat option \<Rightarrow> nat + nat option" where
  "find_in [] index name val name_only = Inr name_only"
| "find_in ((n, v) # es) index name val name_only =
     (if n = name then
        if v = val then Inl index
        else find_in es (index + 1) name val
               (case name_only of None \<Rightarrow> Some index | Some i \<Rightarrow> Some i)
      else find_in es (index + 1) name val name_only)"

definition find_match :: "dynamic_table \<Rightarrow> octets \<Rightarrow> octets \<Rightarrow> table_match" where
  "find_match tab name val =
     (case find_in static_entries 1 name val None of
        Inl i \<Rightarrow> FullMatch i
      | Inr name_only \<Rightarrow>
          (case find_in (entries tab) (static_len + 1) name val name_only of
             Inl i \<Rightarrow> FullMatch i
           | Inr None \<Rightarrow> NoMatch
           | Inr (Some i) \<Rightarrow> NameMatch i))"

subsection \<open>The decoder\<close>

record hpack_decoder =
  dec_table :: dynamic_table
  capacity :: nat
  max_header_list_size :: "nat option"

definition hpack_decoder_new :: "nat \<Rightarrow> nat option \<Rightarrow> hpack_decoder" where
  "hpack_decoder_new max_table limit =
     \<lparr>dec_table = dynamic_table_new max_table, capacity = max_table, max_header_list_size = limit\<rparr>"

definition decode_literal :: "dynamic_table \<Rightarrow> u8 \<Rightarrow> nat \<Rightarrow> octets \<Rightarrow> bool \<Rightarrow> hpack_error + header \<times> octets" where
  "decode_literal tab first prefix_bits cur sens =
     (case decode_int first prefix_bits cur of
        Inl e \<Rightarrow> Inl e
      | Inr (index, cur1) \<Rightarrow>
          (case (if index = 0 then decode_string cur1
                 else (case lookup_index tab index of
                         Inl e \<Rightarrow> Inl e
                       | Inr (name, val) \<Rightarrow> Inr (name, cur1))) of
             Inl e \<Rightarrow> Inl e
           | Inr (name, cur2) \<Rightarrow>
               (case decode_string cur2 of
                  Inl e \<Rightarrow> Inl e
                | Inr (val, cur3) \<Rightarrow>
                    Inr (\<lparr>hdr_name = name, hdr_value = val, sensitive = sens\<rparr>, cur3))))"

text \<open>
  One representation of the block: a field, with the table it leaves, or a table size update
  (\<^verbatim>\<open>None\<close>, the \<^verbatim>\<open>continue\<close> of the loop).
\<close>

definition decode_step :: "nat \<Rightarrow> bool \<Rightarrow> dynamic_table \<Rightarrow> u8 \<Rightarrow> octets
    \<Rightarrow> hpack_error + header option \<times> dynamic_table \<times> octets" where
  "decode_step cap update_allowed tab first cur =
     (if first AND 0x80 \<noteq> 0 then
        (case decode_int first 7 cur of
           Inl e \<Rightarrow> Inl e
         | Inr (index, cur1) \<Rightarrow>
             (case lookup_index tab index of
                Inl e \<Rightarrow> Inl e
              | Inr (name, val) \<Rightarrow>
                  Inr (Some \<lparr>hdr_name = name, hdr_value = val, sensitive = False\<rparr>, tab, cur1)))
      else if first AND 0xc0 = 0x40 then
        (case decode_literal tab first 6 cur False of
           Inl e \<Rightarrow> Inl e
         | Inr (h, cur1) \<Rightarrow> Inr (Some h, table_insert (hdr_name h) (hdr_value h) tab, cur1))
      else if first AND 0xe0 = 0x20 then
        if \<not> update_allowed then Inl Compression
        else
          (case decode_int first 5 cur of
             Inl e \<Rightarrow> Inl e
           | Inr (sz, cur1) \<Rightarrow>
               if cap < sz then Inl Compression
               else Inr (None, set_max_size sz tab, cur1))
      else
        (case decode_literal tab first 4 cur (first AND 0xf0 = 0x10) of
           Inl e \<Rightarrow> Inl e
         | Inr (h, cur1) \<Rightarrow> Inr (Some h, tab, cur1)))"

subsection \<open>Every step consumes\<close>

lemma decode_int_more_length: "decode_int_more v s cur = Inr (x, cur') \<Longrightarrow> length cur' < length cur"
  by (induction v s cur rule: decode_int_more.induct) (fastforce simp: Let_def split: if_splits)+

lemma decode_int_length: "decode_int first p cur = Inr (x, cur') \<Longrightarrow> length cur' \<le> length cur"
  by (auto simp: decode_int_def Let_def split: if_splits dest: decode_int_more_length)

lemma take_octets_length: "take_octets n cur = Inr (s, cur') \<Longrightarrow> length cur' \<le> length cur"
  by (auto simp: take_octets_def split: if_splits)

lemma decode_string_length: "decode_string cur = Inr (s, cur') \<Longrightarrow> length cur' < length cur"
  by (cases cur)
    (auto simp: decode_string_def split: sum.splits if_splits
      dest!: decode_int_length take_octets_length)

lemma decode_literal_length: "decode_literal tab first p cur sens = Inr (h, cur') \<Longrightarrow> length cur' < length cur"
  by (fastforce simp: decode_literal_def split: sum.splits if_splits
      dest!: decode_int_length decode_string_length)

lemma decode_step_length: "decode_step cap upd tab first cur = Inr (h, tab', cur') \<Longrightarrow> length cur' \<le> length cur"
  by (fastforce simp: decode_step_def split: sum.splits if_splits
      dest!: decode_int_length decode_literal_length)

text \<open>
  What the loop does with a field once its cost is added: past the limit nothing is kept, and the
  limit is noted. Then the loop itself; its first two arguments are the table capacity and the
  limit on the list.
\<close>

definition accumulate :: "nat option \<Rightarrow> nat \<Rightarrow> header \<Rightarrow> header list \<Rightarrow> nat option \<Rightarrow> header list \<times> nat option" where
  "accumulate lim list_sz h headers oversized =
     (case lim of
        Some l \<Rightarrow>
          if l < list_sz then ([], case oversized of None \<Rightarrow> Some l | Some l0 \<Rightarrow> Some l0)
          else (headers @ [h], oversized)
      | None \<Rightarrow> (headers @ [h], oversized))"

function decode_loop :: "nat \<Rightarrow> nat option \<Rightarrow> dynamic_table \<Rightarrow> octets \<Rightarrow> header list \<Rightarrow> nat
    \<Rightarrow> nat option \<Rightarrow> bool \<Rightarrow> (dynamic_table, hpack_error, header list) outcome" where
  "decode_loop cap lim tab [] headers list_sz oversized upd =
     ((case oversized of
         Some l \<Rightarrow> Inl (HeaderListTooLarge list_sz l)
       | None \<Rightarrow> Inr headers), tab)"
| "decode_loop cap lim tab (first # cur) headers list_sz oversized upd =
     (case decode_step cap upd tab first cur of
        Inl e \<Rightarrow> (Inl e, tab)
      | Inr (None, tab', cur') \<Rightarrow> decode_loop cap lim tab' cur' headers list_sz oversized upd
      | Inr (Some h, tab', cur') \<Rightarrow>
          (case accumulate lim (list_sz + header_list_size h) h headers oversized of
             (headers', oversized') \<Rightarrow>
               decode_loop cap lim tab' cur' headers' (list_sz + header_list_size h) oversized' False))"
  by pat_completeness auto

termination
  by (relation "measure (\<lambda>(cap, lim, tab, cur, hs, n, ov, upd). length cur)")
    (auto dest!: decode_step_length)

definition hpack_decode :: "octets \<Rightarrow> hpack_decoder \<Rightarrow> (hpack_decoder, hpack_error, header list) outcome" where
  "hpack_decode block d =
     (case decode_loop (capacity d) (max_header_list_size d) (dec_table d) block [] 0 None True of
        (r, tab) \<Rightarrow> (r, d\<lparr>dec_table := tab\<rparr>))"

subsection \<open>The encoder\<close>

record hpack_encoder =
  enc_table :: dynamic_table
  pending_size_update :: "nat option"
  huffman_on :: bool

definition hpack_encoder_new :: "nat \<Rightarrow> hpack_encoder" where
  "hpack_encoder_new m =
     \<lparr>enc_table = dynamic_table_new m, pending_size_update = None, huffman_on = True\<rparr>"

definition set_huffman :: "bool \<Rightarrow> hpack_encoder \<Rightarrow> hpack_encoder" where
  "set_huffman on e = e\<lparr>huffman_on := on\<rparr>"

definition set_max_table_size :: "nat \<Rightarrow> hpack_encoder \<Rightarrow> hpack_encoder" where
  "set_max_table_size m e =
     (if m \<noteq> max_size (enc_table e) then
        e\<lparr>enc_table := set_max_size m (enc_table e), pending_size_update := Some m\<rparr>
      else e)"

text \<open>What \<^verbatim>\<open>encode_one\<close> appends, and the table it leaves.\<close>

definition encode_one :: "bool \<Rightarrow> dynamic_table \<Rightarrow> header \<Rightarrow> octets \<times> dynamic_table" where
  "encode_one huff tab h =
     (let name = hdr_name h; val = hdr_value h in
      if sensitive h then
        ((case find_match tab name val of
            FullMatch i \<Rightarrow> encode_int i 4 0x10
          | NameMatch i \<Rightarrow> encode_int i 4 0x10
          | NoMatch \<Rightarrow> 0x10 # encode_string name huff) @ encode_string val huff, tab)
      else
        (case find_match tab name val of
           FullMatch i \<Rightarrow> (encode_int i 7 0x80, tab)
         | NameMatch i \<Rightarrow>
             (encode_int i 6 0x40 @ encode_string val huff, table_insert name val tab)
         | NoMatch \<Rightarrow>
             (0x40 # encode_string name huff @ encode_string val huff, table_insert name val tab)))"

fun encode_all :: "bool \<Rightarrow> dynamic_table \<Rightarrow> header list \<Rightarrow> octets \<times> dynamic_table" where
  "encode_all huff tab [] = ([], tab)"
| "encode_all huff tab (h # hs) =
     (let (out, tab1) = encode_one huff tab h; (rest, tab2) = encode_all huff tab1 hs
      in (out @ rest, tab2))"

definition hpack_encode :: "header list \<Rightarrow> hpack_encoder \<Rightarrow> octets \<times> hpack_encoder" where
  "hpack_encode headers e =
     (let start = (case pending_size_update e of None \<Rightarrow> [] | Some sz \<Rightarrow> encode_int sz 5 0x20);
          (out, tab) = encode_all (huffman_on e) (enc_table e) headers
      in (start @ out, e\<lparr>enc_table := tab, pending_size_update := None\<rparr>))"

end
