(* ===== verification/Huffman_Tree.thy ===== *)
theory Huffman_Tree
  imports Huffman
begin

section \<open>The decoder's table, proved from its construction\<close>

text \<open>
  The arena holds one node per prefix of a code word. This is proved for any list of words by
  giving each node its address, the bits on the way from the root, and then used for the
  Huffman code: the construction does not panic, and the table steps as reading the code bit by
  bit does.
\<close>

subsection \<open>Addresses\<close>

definition arena_ok :: "arena \<Rightarrow> bool list list \<Rightarrow> bool" where
  "arena_ok ar addr \<longleftrightarrow>
     length (children ar) = length addr \<and> length (symbol ar) = length addr
     \<and> addr \<noteq> [] \<and> addr ! 0 = [] \<and> distinct addr
     \<and> (\<forall>u b. u @ [b] \<in> set addr \<longrightarrow> u \<in> set addr)
     \<and> (\<forall>n < length addr. length (children ar ! n) = 2)
     \<and> (\<forall>n < length addr. \<forall>b k. child ar n b = Some k \<longleftrightarrow> k < length addr \<and> addr ! k = addr ! n @ [b])"

lemma arena_okD:
  assumes "arena_ok ar addr"
  shows "length (children ar) = length addr" "length (symbol ar) = length addr"
    "addr \<noteq> []" "addr ! 0 = []" "distinct addr"
    "n < length addr \<Longrightarrow> length (children ar ! n) = 2"
    "n < length addr \<Longrightarrow> child ar n b = Some k \<longleftrightarrow> k < length addr \<and> addr ! k = addr ! n @ [b]"
    "u @ [b] \<in> set addr \<Longrightarrow> u \<in> set addr"
  using assms unfolding arena_ok_def by blast+

lemma arena_ok_new: "arena_ok arena_new [[]]"
  by (auto simp: arena_ok_def arena_new_def child_def nth_Cons' split: if_splits)

lemma arena_ok_symbol [simp]: "arena_ok (ar\<lparr>symbol := xs\<rparr>) addr \<longleftrightarrow>
    length xs = length addr \<and> arena_ok (ar\<lparr>symbol := replicate (length addr) None\<rparr>) addr"
  by (auto simp: arena_ok_def child_def)

lemma nth_of_bool_update:
  "length xs = 2 \<Longrightarrow> (xs[of_bool b := y]) ! of_bool c = (if b = c then y else xs ! of_bool c)"
  by (cases b; cases c) (auto simp: nth_list_update)

lemma arena_step_ok:
  assumes ok: "arena_ok ar addr" and n: "n < length addr"
    and step: "arena_step b (ar, n) = (ar', n')"
  shows "\<exists>ext. arena_ok ar' (addr @ ext) \<and> n' < length (addr @ ext)
      \<and> (addr @ ext) ! n' = addr ! n @ [b]
      \<and> symbol ar' = symbol ar @ replicate (length ext) None
      \<and> set (addr @ ext) = insert (addr ! n @ [b]) (set addr)"
proof (cases "child ar n b")
  case (Some k)
  with step have "ar' = ar" "n' = k" by (simp_all add: arena_step_def)
  moreover have "k < length addr" "addr ! k = addr ! n @ [b]"
    using arena_okD(7) [OF ok n] Some by auto
  ultimately show ?thesis
    using ok by (intro exI [of _ "[]"]) (auto simp: insert_absorb in_set_conv_nth)
next
  case None
  note D = arena_okD [OF ok]
  let ?new = "addr ! n @ [b]"
  have new: "?new \<notin> set addr"
    using D(7) [OF n, of b] None by (auto simp: in_set_conv_nth)
  have ar': "ar' = \<lparr>children = (children ar @ [[None, None]])
        [n := (children ar ! n)[of_bool b := Some (length addr)]], symbol = symbol ar @ [None]\<rparr>"
    and n': "n' = length addr"
    using step None by (auto simp: arena_step_def Let_def D(1))
  have ch: "child ar' m c =
      (if m = n \<and> c = b then Some (length addr) else if m < length addr then child ar m c else None)"
    if "m \<le> length addr" for m c
    using that n D(1) D(6) [OF n]
    by (auto simp: ar' child_def nth_list_update nth_append nth_of_bool_update of_bool_def)
  have "arena_ok ar' (addr @ [?new])"
    unfolding arena_ok_def
  proof (intro conjI allI impI)
    show "length (children ar') = length (addr @ [?new])" "length (symbol ar') = length (addr @ [?new])"
      by (simp_all add: ar' D)
    show "addr @ [?new] \<noteq> []" "(addr @ [?new]) ! 0 = []" using D(3,4) by (simp_all add: nth_append)
    show "distinct (addr @ [?new])" using D(5) new by simp
    show "u \<in> set (addr @ [?new])" if "u @ [c] \<in> set (addr @ [?new])" for u c
      using that D(8) n by auto
    fix m assume m: "m < length (addr @ [?new])"
    show "length (children ar' ! m) = 2"
      using m D(1,6) n by (auto simp: ar' nth_list_update nth_append)
    fix c k
    have old: "addr ! k \<noteq> ?new @ [c]" if "k < length addr"
      using new D(8) [of ?new c] that by (metis nth_mem)
    show "(child ar' m c = Some k) =
        (k < length (addr @ [?new]) \<and> (addr @ [?new]) ! k = (addr @ [?new]) ! m @ [c])"
    proof (cases "m = length addr")
      case True
      have "m \<noteq> n" using True n by simp
      with True old show ?thesis by (auto simp: ch nth_append less_Suc_eq)
    next
      case False
      with m have m': "m < length addr" by simp
      have eq: "addr ! m @ [c] = ?new \<longleftrightarrow> m = n \<and> c = b"
        using m' n D(5) by (auto simp: nth_eq_iff_index_eq)
      have "k \<noteq> length addr \<Longrightarrow> m = n \<Longrightarrow> c = b \<Longrightarrow> k < length addr \<Longrightarrow> addr ! k \<noteq> ?new"
        using new by (metis nth_mem)
      with m' eq D(7) [OF m', of c k] show ?thesis
        by (cases "k < length addr"; cases "k = length addr"; cases "m = n \<and> c = b")
          (auto simp: ch nth_append)
    qed
  qed
  then show ?thesis
    by (intro exI [of _ "[?new]"]) (auto simp: ar' n' nth_append)
qed

lemma union_via_insert:
  "S = insert a T \<Longrightarrow> a \<in> A \<Longrightarrow> x \<in> T \<Longrightarrow> X = insert x A \<union> T \<Longrightarrow> X = A \<union> S"
  by auto

lemma arena_steps_ok:
  assumes "arena_ok ar addr" "n < length addr" "fold arena_step w (ar, n) = (ar', n')"
  shows "\<exists>ext. arena_ok ar' (addr @ ext) \<and> n' < length (addr @ ext)
      \<and> (addr @ ext) ! n' = addr ! n @ w
      \<and> symbol ar' = symbol ar @ replicate (length ext) None
      \<and> set (addr @ ext) = set addr \<union> {addr ! n @ u | u. prefix u w}"
  using assms
proof (induction w arbitrary: ar addr n)
  case Nil
  then show ?case by (intro exI [of _ "[]"]) auto
next
  case (Cons b w)
  obtain ar1 n1 where s1: "arena_step b (ar, n) = (ar1, n1)" by fastforce
  from arena_step_ok [OF Cons.prems(1,2) s1] obtain e1 where
    e1: "arena_ok ar1 (addr @ e1)" "n1 < length (addr @ e1)" "(addr @ e1) ! n1 = addr ! n @ [b]"
      "symbol ar1 = symbol ar @ replicate (length e1) None"
      "set (addr @ e1) = insert (addr ! n @ [b]) (set addr)"
    by blast
  have "fold arena_step w (ar1, n1) = (ar', n')" using Cons.prems(3) s1 by simp
  from Cons.IH [OF e1(1,2) this] obtain e2 where
    e2: "arena_ok ar' ((addr @ e1) @ e2)" "n' < length ((addr @ e1) @ e2)"
      "((addr @ e1) @ e2) ! n' = (addr @ e1) ! n1 @ w"
      "symbol ar' = symbol ar1 @ replicate (length e2) None"
      "set ((addr @ e1) @ e2) = set (addr @ e1) \<union> {(addr @ e1) ! n1 @ u | u. prefix u w}"
    by blast
  have "{addr ! n @ u | u. prefix u (b # w)} =
      insert (addr ! n) {addr ! n @ [b] @ u | u. prefix u w}"
    by (auto simp: prefix_Cons)
  moreover have "addr ! n \<in> set addr" using Cons.prems(2) by simp
  moreover have "addr ! n @ [b] \<in> {addr ! n @ [b] @ u | u. prefix u w}" by auto
  moreover have "set (addr @ (e1 @ e2)) =
      insert (addr ! n @ [b]) (set addr) \<union> {addr ! n @ [b] @ u | u. prefix u w}"
    using e2(5) unfolding e1(3,5) by simp
  ultimately have "set (addr @ (e1 @ e2)) = set addr \<union> {addr ! n @ u | u. prefix u (b # w)}"
    by (rule union_via_insert)
  with e1 e2 show ?case
    by (intro exI [of _ "e1 @ e2"]) (simp add: replicate_add)
qed

subsection \<open>What the arena represents\<close>

text \<open>The nodes are the prefixes of the words, and a symbol sits at the end of its word.\<close>

definition represents :: "arena \<Rightarrow> bool list list \<Rightarrow> bool list list \<Rightarrow> bool" where
  "represents ar addr ws \<longleftrightarrow>
     arena_ok ar addr
     \<and> set addr = insert [] {u. \<exists>w \<in> set ws. prefix u w}
     \<and> (\<forall>n < length addr. \<forall>s. symbol ar ! n = Some s \<longleftrightarrow> s < length ws \<and> ws ! s = addr ! n)"

lemma represents_new: "represents arena_new [[]] []"
  using arena_ok_new by (simp add: represents_def) (simp add: arena_new_def)

lemma represents_insert:
  assumes rep: "represents ar addr ws" and new: "code_bits cl \<notin> set ws"
  shows "\<exists>addr'. represents (arena_insert (length ws) cl ar) addr' (ws @ [code_bits cl])"
proof -
  let ?w = "code_bits cl"
  from rep have ok: "arena_ok ar addr"
    and nodes: "set addr = insert [] {u. \<exists>w \<in> set ws. prefix u w}"
    and sym: "\<And>n s. n < length addr \<Longrightarrow> symbol ar ! n = Some s \<longleftrightarrow> s < length ws \<and> ws ! s = addr ! n"
    by (auto simp: represents_def)
  note D = arena_okD [OF ok]
  obtain ar' n' where run: "fold arena_step ?w (ar, 0) = (ar', n')" by fastforce
  from arena_steps_ok [OF ok _ run] D(3,4) obtain ext where
    ext: "arena_ok ar' (addr @ ext)" "n' < length (addr @ ext)" "(addr @ ext) ! n' = ?w"
      "symbol ar' = symbol ar @ replicate (length ext) None"
      "set (addr @ ext) = set addr \<union> {u. prefix u ?w}"
    by auto
  have result: "arena_insert (length ws) cl ar = ar'\<lparr>symbol := (symbol ar')[n' := Some (length ws)]\<rparr>"
    by (simp add: arena_insert_def run)
  have old: "symbol ar' ! n = Some s \<longleftrightarrow> s < length ws \<and> ws ! s = (addr @ ext) ! n"
    if n: "n < length (addr @ ext)" for n s
  proof (cases "n < length addr")
    case True
    then show ?thesis using sym [OF True] ext(4) D(2) by (simp add: nth_append)
  next
    case False
    have "(addr @ ext) ! n \<notin> set addr"
      using arena_okD(5) [OF ext(1)] False n by (auto simp: nth_append)
    then have "(addr @ ext) ! n \<notin> set ws" using nodes by auto
    with False n ext(4) D(2) show ?thesis by (auto simp: nth_append in_set_conv_nth)
  qed
  have only: "(addr @ ext) ! n = ?w \<longleftrightarrow> n = n'" if "n < length (addr @ ext)" for n
    using nth_eq_iff_index_eq [OF arena_okD(5) [OF ext(1)] that ext(2)] ext(3) by simp
  have "represents (arena_insert (length ws) cl ar) (addr @ ext) (ws @ [?w])"
    unfolding represents_def
  proof (intro conjI allI impI)
    show "arena_ok (arena_insert (length ws) cl ar) (addr @ ext)"
      using ext(1) arena_okD(2) [OF ext(1)] by (simp add: result arena_ok_def child_def)
    show "set (addr @ ext) = insert [] {u. \<exists>w \<in> set (ws @ [?w]). prefix u w}"
      using ext(5) nodes by auto
    fix n s assume n: "n < length (addr @ ext)"
    show "(symbol (arena_insert (length ws) cl ar) ! n = Some s) =
        (s < length (ws @ [?w]) \<and> (ws @ [?w]) ! s = (addr @ ext) ! n)"
    proof (cases "n = n'")
      case True
      then show ?thesis
        using n ext(3) new arena_okD(2) [OF ext(1)] by (auto simp: result nth_append less_Suc_eq in_set_conv_nth)
    next
      case False
      then show ?thesis
        using old [OF n, of s] only [OF n] by (auto simp: result nth_append less_Suc_eq)
    qed
  qed
  then show ?thesis by blast
qed

lemma arena_build_represents:
  "distinct (map code_bits codes) \<Longrightarrow>
     \<exists>addr. represents (arena_build codes) addr (map code_bits codes)"
proof (induction codes rule: rev_induct)
  case Nil
  then show ?case using represents_new by (auto simp: arena_build_def)
next
  case (snoc cl codes)
  then obtain addr where "represents (arena_build codes) addr (map code_bits codes)" by auto
  from represents_insert [OF this, of cl] snoc.prems show ?case
    by (auto simp: arena_build_def enumerate_append_eq)
qed

subsection \<open>Reading bit by bit\<close>

text \<open>The reference: the pending bits grow until they are a word; the end-of-string symbol fails.\<close>

definition symbol_of :: "bool list \<Rightarrow> nat option" where
  "symbol_of u = map_of (zip code_words [0..<257]) u"

lemma symbol_of_iff: "symbol_of u = Some s \<longleftrightarrow> s < 257 \<and> symbol_word s = u"
proof -
  have "symbol_of u = Some s \<longleftrightarrow> (u, s) \<in> set (zip code_words [0..<257])"
    unfolding symbol_of_def
    by (rule map_of_eq_Some_iff)
      (simp add: map_fst_zip complete_code_distinct [OF code_words_complete])
  also have "\<dots> \<longleftrightarrow> s < 257 \<and> symbol_word s = u"
    by (auto simp: set_zip symbol_word_def)
  finally show ?thesis .
qed

lemma symbol_of_None: "symbol_of u = None \<longleftrightarrow> u \<notin> set code_words"
proof -
  have "u \<in> set code_words \<longleftrightarrow> (\<exists>s < 257. symbol_word s = u)"
    by (auto simp: in_set_conv_nth symbol_word_def)
  then show ?thesis by (metis not_None_eq symbol_of_iff)
qed

fun scan :: "bool list \<Rightarrow> bool list \<Rightarrow> (nat list \<times> bool list) option" where
  "scan u [] = Some ([], u)"
| "scan u (b # bs) =
     (case symbol_of (u @ [b]) of
        None \<Rightarrow> scan (u @ [b]) bs
      | Some s \<Rightarrow>
          if s = eos then None
          else map_option (\<lambda>(ss, v). (s # ss, v)) (scan [] bs))"

lemma scan_append:
  "scan u (bs @ cs) =
     (case scan u bs of
        None \<Rightarrow> None
      | Some (ss, v) \<Rightarrow> map_option (\<lambda>(ss', v'). (ss @ ss', v')) (scan v cs))"
  by (induction u bs rule: scan.induct)
    (auto simp: map_option_case split: option.splits prod.splits)

subsection \<open>The arena of the Huffman code\<close>

lemma code_words_nonempty: "\<exists>w. w \<in> set code_words"
  using length_code_words by (metis length_0_conv list.set_sel(1) zero_neq_numeral)

text \<open>A node is either a word, with its symbol and no children, or an inner node with both.\<close>

lemma represents_node:
  assumes rep: "represents ar addr code_words" and n: "n < length addr"
  shows "symbol ar ! n = symbol_of (addr ! n)"
    and "addr ! n \<in> set code_words \<Longrightarrow> child ar n b = None"
    and "addr ! n \<notin> set code_words \<Longrightarrow>
           \<exists>k < length addr. child ar n b = Some k \<and> addr ! k = addr ! n @ [b]"
proof -
  have ok: "arena_ok ar addr" and nodes: "set addr = {u. \<exists>w \<in> set code_words. prefix u w}"
    using rep code_words_nonempty by (auto simp: represents_def)
  have "symbol ar ! n = Some s \<longleftrightarrow> symbol_of (addr ! n) = Some s" for s
    using rep n by (simp add: represents_def symbol_of_iff symbol_word_def)
  then show "symbol ar ! n = symbol_of (addr ! n)" by (metis option.exhaust)
  obtain w where w: "w \<in> set code_words" "prefix (addr ! n) w"
    using nodes nth_mem [OF n] by auto
  show "child ar n b = None" if "addr ! n \<in> set code_words"
  proof (rule ccontr)
    assume "child ar n b \<noteq> None"
    then have "addr ! n @ [b] \<in> set addr"
      using arena_okD(7) [OF ok n] by (metis not_Some_eq nth_mem)
    then obtain v where v: "v \<in> set code_words" "prefix (addr ! n @ [b]) v" using nodes by auto
    then have "prefix (addr ! n) v" by (metis append_prefixD)
    with complete_code_prefix_free [OF code_words_complete that v(1)] v(2) show False by auto
  qed
  show "\<exists>k < length addr. child ar n b = Some k \<and> addr ! k = addr ! n @ [b]"
    if "addr ! n \<notin> set code_words"
  proof -
    from w that have "strict_prefix (addr ! n) w" by (auto simp: strict_prefix_def)
    from complete_code_full [OF code_words_complete this w(1), of b]
    have "addr ! n @ [b] \<in> set addr" using nodes by auto
    then obtain k where "k < length addr" "addr ! k = addr ! n @ [b]" by (metis in_set_conv_nth)
    with arena_okD(7) [OF ok n] show ?thesis by blast
  qed
qed

lemma root_not_word: "[] \<notin> set code_words"
  using code_words_long by force

text \<open>The tree walk of a nibble is the reference reading of its bits.\<close>

lemma walk_nibble_scan:
  assumes rep: "represents ar addr code_words"
    and "n < length addr" "addr ! n \<notin> set code_words" "length bs \<le> 4"
    and "em \<noteq> None \<Longrightarrow> length (addr ! n) + length bs < 5"
  shows "case scan (addr ! n) bs of
      None \<Rightarrow> walk_nibble ar bs n em = WalkEos
    | Some (ss, v) \<Rightarrow>
        \<exists>m < length addr. addr ! m = v \<and> v \<notin> set code_words
          \<and> (ss = [] \<and> walk_nibble ar bs n em = Walked m em
             \<or> em = None \<and> (\<exists>s. ss = [s] \<and> walk_nibble ar bs n em = Walked m (Some (of_nat s))))"
  using assms(2-)
proof (induction bs arbitrary: n em)
  case Nil
  then show ?case by auto
next
  case (Cons b bs)
  obtain k where k: "k < length addr" "child ar n b = Some k" "addr ! k = addr ! n @ [b]"
    using represents_node(3) [OF rep Cons.prems(1,2)] by blast
  have sym: "symbol ar ! k = symbol_of (addr ! n @ [b])"
    using represents_node(1) [OF rep k(1)] k(3) by simp
  show ?case
  proof (cases "symbol_of (addr ! n @ [b])")
    case None
    then have "addr ! k \<notin> set code_words" using k(3) by (simp add: symbol_of_None)
    note word = this
    have "length bs \<le> 4" "em \<noteq> None \<Longrightarrow> length (addr ! k) + length bs < 5"
      using Cons.prems(3,4) k(3) by auto
    note IH = Cons.IH [OF k(1) word this]
    have eqs: "walk_nibble ar (b # bs) n em = walk_nibble ar bs k em"
      "scan (addr ! n) (b # bs) = scan (addr ! k) bs"
      using k sym None by simp_all
    show ?thesis unfolding eqs by (rule IH)
  next
    case (Some s)
    then have "5 \<le> length (addr ! n @ [b])"
      using code_words_long symbol_of_None by (metis option.distinct(1))
    then have em: "em = None" using Cons.prems(4) by fastforce
    have root: "0 < length addr" "addr ! 0 = []"
      using rep arena_okD(3,4) by (auto simp: represents_def)
    from Cons.IH [of 0 "Some (of_nat s)"] root root_not_word Cons.prems(3)
    have "case scan [] bs of
        None \<Rightarrow> walk_nibble ar bs 0 (Some (of_nat s)) = WalkEos
      | Some (ss, v) \<Rightarrow> \<exists>m < length addr. addr ! m = v \<and> v \<notin> set code_words
          \<and> ss = [] \<and> walk_nibble ar bs 0 (Some (of_nat s)) = Walked m (Some (of_nat s))"
      by (auto split: option.splits)
    with k sym Some em show ?thesis by (auto split: option.splits)
  qed
qed

subsection \<open>Numbering\<close>

definition inner_nodes :: "nat option list list \<Rightarrow> nat list" where
  "inner_nodes ch = filter (\<lambda>n. ch ! n \<noteq> [None, None]) [0..<length ch]"

lemma number_nodes_fold:
  assumes "length ch \<le> length so"
  shows "let (so', nodes) = fold number_node (enumerate 0 ch) (so, []) in
      nodes = inner_nodes ch \<and> length so' = length so
      \<and> (\<forall>i < length nodes. so' ! (nodes ! i) = i)"
  using assms
proof (induction ch rule: rev_induct)
  case Nil
  then show ?case by (simp add: inner_nodes_def)
next
  case (snoc kids ch)
  obtain so' nodes where run: "fold number_node (enumerate 0 ch) (so, []) = (so', nodes)" by fastforce
  have IH: "nodes = inner_nodes ch" "length so' = length so" "\<And>i. i < length nodes \<Longrightarrow> so' ! (nodes ! i) = i"
    using snoc run by (auto simp: Let_def)
  have inner: "inner_nodes (ch @ [kids]) =
      inner_nodes ch @ (if kids \<noteq> [None, None] then [length ch] else [])"
  proof -
    have "filter (\<lambda>n. (ch @ [kids]) ! n \<noteq> [None, None]) [0..<length ch] = inner_nodes ch"
      unfolding inner_nodes_def by (rule filter_cong) (auto simp: nth_append)
    then show ?thesis by (simp add: inner_nodes_def)
  qed
  have "nodes ! i \<noteq> length ch" if "i < length nodes" for i
    using nth_mem [OF that] unfolding IH(1) inner_nodes_def by auto
  note fresh = this this [symmetric]
  have run': "fold number_node (enumerate 0 (ch @ [kids])) (so, []) =
      (if kids \<noteq> [None, None] then (so'[length ch := length nodes], nodes @ [length ch])
       else (so', nodes))"
    by (simp add: run enumerate_append_eq) (simp add: number_node_def)
  show ?case
    using snoc.prems IH fresh unfolding run' inner
    by (cases "kids = [None, None]") (auto simp: nth_append nth_list_update less_Suc_eq)
qed

lemma number_nodes_spec:
  assumes "number_nodes ch = (so, nodes)"
  shows "nodes = inner_nodes ch" "length so = length ch"
    "i < length nodes \<Longrightarrow> so ! (nodes ! i) = i"
    "n < length ch \<Longrightarrow> ch ! n \<noteq> [None, None] \<Longrightarrow> so ! n < length nodes \<and> nodes ! (so ! n) = n"
proof -
  have spec: "nodes = inner_nodes ch \<and> length so = length ch \<and> (\<forall>i < length nodes. so ! (nodes ! i) = i)"
    using number_nodes_fold [of ch "replicate (length ch) invalid_state"] assms
    by (auto simp: number_nodes_def)
  then show "nodes = inner_nodes ch" "length so = length ch"
    "i < length nodes \<Longrightarrow> so ! (nodes ! i) = i" by auto
  assume "n < length ch" "ch ! n \<noteq> [None, None]"
  then have "n \<in> set nodes" using spec by (simp add: inner_nodes_def)
  then obtain i where "i < length nodes" "nodes ! i = n" by (auto simp: in_set_conv_nth)
  with spec show "so ! n < length nodes \<and> nodes ! (so ! n) = n" by auto
qed

subsection \<open>The descent\<close>

definition subtree :: "bool list list \<Rightarrow> nat \<Rightarrow> nat set" where
  "subtree addr n = {m. m < length addr \<and> prefix (addr ! n) (addr ! m)}"

lemma finite_subtree [simp]: "finite (subtree addr n)"
  by (simp add: subtree_def)

lemma prefix_split: "prefix u v \<longleftrightarrow> v = u \<or> prefix (u @ [False]) v \<or> prefix (u @ [True]) v"
proof
  assume "prefix u v"
  then obtain w where v: "v = u @ w" by (auto simp: prefix_def)
  then show "v = u \<or> prefix (u @ [False]) v \<or> prefix (u @ [True]) v" by (cases w) auto
qed (auto dest: append_prefixD)

text \<open>An inner node heads two smaller subtrees; everything the descent needs about one pop.\<close>

lemma inner_node:
  assumes rep: "represents ar addr code_words" and n: "n < length addr" "addr ! n \<notin> set code_words"
  obtains k0 k1 where "k0 < length addr" "k1 < length addr"
    "addr ! k0 = addr ! n @ [False]" "addr ! k1 = addr ! n @ [True]"
    "push_kids ar n d ones stack = (k1, d + 1, ones) # (k0, d + 1, False) # stack"
    "card (subtree addr n) = 1 + card (subtree addr k0) + card (subtree addr k1)"
proof -
  obtain k0 k1 where k: "k0 < length addr" "child ar n False = Some k0" "addr ! k0 = addr ! n @ [False]"
      "k1 < length addr" "child ar n True = Some k1" "addr ! k1 = addr ! n @ [True]"
    using represents_node(3) [OF rep n] by metis
  have "distinct addr" using rep arena_okD(5) by (auto simp: represents_def)
  then have "subtree addr n = insert n (subtree addr k0 \<union> subtree addr k1)"
    using n k prefix_split [of "addr ! n"] by (auto simp: subtree_def nth_eq_iff_index_eq)
  moreover have "n \<notin> subtree addr k0 \<union> subtree addr k1" "subtree addr k0 \<inter> subtree addr k1 = {}"
    using k by (auto simp: subtree_def prefix_def)
  ultimately have "card (subtree addr n) = 1 + card (subtree addr k0) + card (subtree addr k1)"
    by (simp add: card_Un_disjoint)
  moreover have "push_kids ar n d ones stack = (k1, d + 1, ones) # (k0, d + 1, False) # stack"
    using k by (simp add: push_kids_def)
  ultimately show thesis using k that by blast
qed

definition all_ones :: "bool list \<Rightarrow> bool" where
  "all_ones u \<longleftrightarrow> list_all (\<lambda>b. b) u"

definition stack_ok :: "bool list list \<Rightarrow> (nat \<times> nat \<times> bool) list \<Rightarrow> bool" where
  "stack_ok addr stack \<longleftrightarrow>
     (\<forall>(n, d, ones) \<in> set stack. n < length addr \<and> d = length (addr ! n) \<and> ones = all_ones (addr ! n))"

text \<open>What the two result lists hold for the state of an inner node: the facts of its address when
  the stack covers it, what was there otherwise.\<close>

definition covered :: "bool list list \<Rightarrow> (nat \<times> nat \<times> bool) list \<Rightarrow> nat \<Rightarrow> bool" where
  "covered addr stack m \<longleftrightarrow> (\<exists>n \<in> fst ` set stack. prefix (addr ! n) (addr ! m))"

lemma descend_spec:
  assumes rep: "represents ar addr code_words"
    and so: "\<And>m m'. m < length addr \<Longrightarrow> addr ! m \<notin> set code_words \<Longrightarrow> m' < length addr \<Longrightarrow>
        addr ! m' \<notin> set code_words \<Longrightarrow> so ! m < N \<and> (so ! m = so ! m' \<longrightarrow> m = m')"
    and "stack_ok addr stack" "length dep = N" "length eosp = N"
    and "sum_list (map (\<lambda>(n, _). card (subtree addr n)) stack) \<le> fuel"
  shows "\<exists>dep' eosp'. descend fuel ar so stack (dep, eosp) = Some (dep', eosp')
    \<and> (\<forall>m < length addr. addr ! m \<notin> set code_words \<longrightarrow>
        (if covered addr stack m
         then dep' ! (so ! m) = length (addr ! m) \<and> eosp' ! (so ! m) = all_ones (addr ! m)
         else dep' ! (so ! m) = dep ! (so ! m) \<and> eosp' ! (so ! m) = eosp ! (so ! m)))"
  using assms(3-)
proof (induction fuel arbitrary: stack dep eosp)
  case 0
  have "card (subtree addr n) \<noteq> 0" if "(n, d, ones) \<in> set stack" for n d ones
  proof -
    have "n \<in> subtree addr n" using that 0(1) by (auto simp: stack_ok_def subtree_def)
    then show ?thesis by (metis card_0_eq empty_iff finite_subtree)
  qed
  with 0(4) have "stack = []" by (cases stack) (auto, blast)
  then show ?case by (simp add: covered_def)
next
  case (Suc fuel)
  show ?case
  proof (cases stack)
    case Nil
    then show ?thesis by (simp add: covered_def)
  next
    case (Cons top rest)
    obtain n d ones where top: "top = (n, d, ones)" by (cases top)
    have n: "n < length addr" and d: "d = length (addr ! n)" "ones = all_ones (addr ! n)"
      and rest: "stack_ok addr rest"
      using Suc.prems(1) Cons top by (auto simp: stack_ok_def)
    show ?thesis
    proof (cases "addr ! n \<in> set code_words")
      case True
      then have "symbol ar ! n \<noteq> None"
        using represents_node(1) [OF rep n] symbol_of_None by auto
      then have pop: "descend (Suc fuel) ar so stack (dep, eosp) = descend fuel ar so rest (dep, eosp)"
        by (simp add: Cons top)
      have fuel: "sum_list (map (\<lambda>(n, _). card (subtree addr n)) rest) \<le> fuel"
      proof -
        have "n \<in> subtree addr n" using n by (simp add: subtree_def)
        then have "0 < card (subtree addr n)" by (auto simp: card_gt_0_iff)
        with Suc.prems(4) show ?thesis by (simp add: Cons top)
      qed
      have "covered addr stack m = covered addr rest m"
        if "m < length addr" "addr ! m \<notin> set code_words" for m
      proof -
        have "\<not> prefix (addr ! n) (addr ! m)"
        proof
          assume p: "prefix (addr ! n) (addr ! m)"
          have "addr ! m \<in> set addr" using that by simp
          then obtain w where "w \<in> set code_words" "prefix (addr ! m) w"
            using rep code_words_nonempty by (auto simp: represents_def)
          with p True that(2) complete_code_prefix_free [OF code_words_complete, of "addr ! n" w]
          show False by (metis prefix_order.antisym prefix_order.trans)
        qed
        then show ?thesis by (simp add: covered_def Cons top)
      qed
      with Suc.IH [OF rest Suc.prems(2,3) fuel] show ?thesis
        unfolding pop by (metis (no_types, lifting))
    next
      case False
      obtain k0 k1 where k: "k0 < length addr" "k1 < length addr"
          "addr ! k0 = addr ! n @ [False]" "addr ! k1 = addr ! n @ [True]"
          "push_kids ar n d ones rest = (k1, d + 1, ones) # (k0, d + 1, False) # rest"
          "card (subtree addr n) = 1 + card (subtree addr k0) + card (subtree addr k1)"
        using inner_node [OF rep n False] by metis
      let ?stack = "push_kids ar n d ones rest"
      let ?dep = "dep[so ! n := d]" and ?eosp = "eosp[so ! n := ones]"
      have "symbol ar ! n = None"
        using represents_node(1) [OF rep n] False symbol_of_None by auto
      then have pop: "descend (Suc fuel) ar so stack (dep, eosp) = descend fuel ar so ?stack (?dep, ?eosp)"
        by (simp add: Cons top Let_def)
      have "stack_ok addr ?stack"
        using rest k d unfolding k(5) by (auto simp: stack_ok_def all_ones_def)
      moreover have "sum_list (map (\<lambda>(n, _). card (subtree addr n)) ?stack) \<le> fuel"
        using Suc.prems(4) k(6) unfolding k(5) by (simp add: Cons top)
      moreover have "length ?dep = N" "length ?eosp = N" using Suc.prems by simp_all
      ultimately obtain dep' eosp' where
        run: "descend fuel ar so ?stack (?dep, ?eosp) = Some (dep', eosp')"
        and res: "\<And>m. m < length addr \<Longrightarrow> addr ! m \<notin> set code_words \<Longrightarrow>
          (if covered addr ?stack m
           then dep' ! (so ! m) = length (addr ! m) \<and> eosp' ! (so ! m) = all_ones (addr ! m)
           else dep' ! (so ! m) = ?dep ! (so ! m) \<and> eosp' ! (so ! m) = ?eosp ! (so ! m))"
        using Suc.IH by blast
      have cov: "covered addr stack m \<longleftrightarrow> m = n \<or> covered addr ?stack m"
        if "m < length addr" for m
        using that n k(3,4) prefix_split [of "addr ! n" "addr ! m"] arena_okD(5) rep
        unfolding k(5) by (auto simp: covered_def Cons top represents_def nth_eq_iff_index_eq)
      have "so ! n < N" using so [OF n False n False] by simp
      then have at_n: "?dep ! (so ! n) = length (addr ! n)" "?eosp ! (so ! n) = all_ones (addr ! n)"
        using Suc.prems(2,3) d by simp_all
      have other: "?dep ! (so ! m) = dep ! (so ! m)" "?eosp ! (so ! m) = eosp ! (so ! m)"
        if "m < length addr" "addr ! m \<notin> set code_words" "m \<noteq> n" for m
        using so [OF that(1,2) n False] that(3) by (simp_all add: nth_list_update)
      have res_n: "dep' ! (so ! n) = length (addr ! n) \<and> eosp' ! (so ! n) = all_ones (addr ! n)"
        using res [OF n False] at_n by (simp split: if_splits)
      have "if covered addr stack m
         then dep' ! (so ! m) = length (addr ! m) \<and> eosp' ! (so ! m) = all_ones (addr ! m)
         else dep' ! (so ! m) = dep ! (so ! m) \<and> eosp' ! (so ! m) = eosp ! (so ! m)"
        if m: "m < length addr" "addr ! m \<notin> set code_words" for m
        using res [OF m] res_n cov [OF m(1)] other [OF m] by (cases "m = n") simp_all
      then show ?thesis unfolding pop run by simp
    qed
  qed
qed

subsection \<open>The table\<close>

text \<open>Word lengths bound the number of states, far below the invalid one.\<close>

lemma complete_code_length: "complete_code n ws \<Longrightarrow> w \<in> set ws \<Longrightarrow> length w \<le> n"
proof (induction n arbitrary: ws w)
  case (Suc n)
  show ?case
  proof (cases "ws = [[]]")
    case False
    note step = complete_code_step [OF Suc.prems(1) False]
    obtain b u where w: "w = b # u" using step(1) Suc.prems(2) by (cases w) auto
    from Suc.IH [OF step(3)] Suc.prems(2) show ?thesis unfolding w step(2) by simp
  qed (use Suc in auto)
qed auto

lemma represents_size:
  assumes "represents ar addr code_words"
  shows "length addr < invalid_state"
proof -
  have "set addr = (\<Union>w \<in> set code_words. set (prefixes w))" and "distinct addr"
    using assms code_words_nonempty arena_okD(5) by (auto simp: represents_def)
  then have "length addr = card (\<Union>w \<in> set code_words. set (prefixes w))"
    by (metis distinct_card)
  also have "\<dots> \<le> (\<Sum>w \<in> set code_words. card (set (prefixes w)))"
    by (rule card_UN_le) simp
  also have "\<dots> \<le> (\<Sum>w \<in> set code_words. 31)"
  proof (rule sum_mono)
    fix w assume "w \<in> set code_words"
    then have "length w \<le> 30" by (rule complete_code_length [OF code_words_complete])
    then show "card (set (prefixes w)) \<le> 31"
      using card_length [of "prefixes w"] by simp
  qed
  also have "\<dots> \<le> 257 * 31"
    using card_length [of code_words] by simp
  finally show ?thesis by (simp add: invalid_state_def)
qed

text \<open>
  What the construction yields: states named by the pending bits they stand for (\<^term>\<open>sa\<close>), the
  root for none; every transition is the reference reading of its four bits; and the two lists
  hold the number of pending bits and whether they are all ones.
\<close>

definition table_ok :: "decode_table \<Rightarrow> bool list list \<Rightarrow> bool" where
  "table_ok tab sa \<longleftrightarrow>
     distinct sa \<and> length sa < invalid_state \<and> root_state < length sa \<and> sa ! root_state = []
     \<and> set sa \<inter> set code_words = {}
     \<and> (\<forall>i < length sa. depth tab ! i = length (sa ! i) \<and> eos_prefix tab ! i = all_ones (sa ! i))
     \<and> (\<forall>i < length sa. \<forall>nib < 16.
          case scan (sa ! i) (nibble_bits nib) of
            None \<Rightarrow> next_state (states tab ! i ! nib) = invalid_state
          | Some (ss, v) \<Rightarrow>
              next_state (states tab ! i ! nib) < length sa
              \<and> sa ! next_state (states tab ! i ! nib) = v
              \<and> (ss = [] \<and> emit (states tab ! i ! nib) = None
                 \<or> (\<exists>s. ss = [s] \<and> emit (states tab ! i ! nib) = Some (of_nat s))))"

lemma those_map_Some: "(\<And>x. x \<in> set xs \<Longrightarrow> f x = Some (g x)) \<Longrightarrow> those (map f xs) = Some (map g xs)"
  by (induction xs) simp_all

lemma build_table_ok: "\<exists>tab sa. build_table huffman_codes = Some tab \<and> table_ok tab sa"
proof -
  let ?ar = "arena_build huffman_codes"
  obtain addr where rep: "represents ?ar addr code_words"
    using arena_build_represents [of huffman_codes] complete_code_distinct [OF code_words_complete]
    unfolding code_words_def by blast
  have ok: "arena_ok ?ar addr" using rep by (simp add: represents_def)
  note D = arena_okD [OF ok]
  obtain so nodes where num: "number_nodes (children ?ar) = (so, nodes)" by fastforce
  note spec = number_nodes_spec [OF num]
  have inner: "children ?ar ! n \<noteq> [None, None] \<longleftrightarrow> addr ! n \<notin> set code_words"
    if n: "n < length addr" for n
  proof -
    have "children ?ar ! n = [child ?ar n False, child ?ar n True]"
      using D(6) [OF n] by (auto simp: child_def length_Suc_conv numeral_2_eq_2)
    moreover have "child ?ar n b = None \<longleftrightarrow> addr ! n \<in> set code_words" for b
      using represents_node(2,3) [OF rep n, of b] by (metis option.distinct(1))
    ultimately show ?thesis by (metis list.inject)
  qed
  have nodes: "n \<in> set nodes \<longleftrightarrow> n < length addr \<and> addr ! n \<notin> set code_words" for n
    unfolding spec(1) inner_nodes_def set_filter D(1) using inner by auto
  have so: "so ! n < length nodes \<and> nodes ! (so ! n) = n"
    if "n < length addr" "addr ! n \<notin> set code_words" for n
    using spec(4) [of n] that inner D(1) by simp
  have "distinct nodes" unfolding spec(1) by (simp add: inner_nodes_def)
  have "sorted nodes" unfolding spec(1) inner_nodes_def
    by (intro sorted_wrt_filter) simp
  have zero: "0 < length addr" "addr ! 0 \<notin> set code_words"
    using D(3,4) root_not_word by auto
  have so0: "so ! 0 = root_state"
  proof -
    from so [OF zero] \<open>sorted nodes\<close> have "nodes ! 0 \<le> 0" "0 < length nodes"
      by (metis le0 sorted_nth_mono, linarith)
    with spec(3) [of 0] show ?thesis by (simp add: root_state_def)
  qed
  define sa where "sa = map (\<lambda>n. addr ! n) nodes"
  define tr where "tr n nib = the (transition_of_walk so (walk_nibble ?ar (nibble_bits nib) n None))"
    for n nib
  have sa: "distinct sa" "length sa < invalid_state" "set sa \<inter> set code_words = {}"
  proof -
    show "distinct sa"
      using \<open>distinct nodes\<close> nodes D(5)
      by (auto simp: sa_def distinct_map inj_on_def nth_eq_iff_index_eq)
    have "length nodes \<le> length addr"
      unfolding spec(1) inner_nodes_def D(1) [symmetric] by (metis length_filter_le length_upt minus_nat.diff_0)
    then show "length sa < invalid_state" using represents_size [OF rep] by (simp add: sa_def)
    show "set sa \<inter> set code_words = {}" using nodes by (auto simp: sa_def)
  qed
  have step: "case scan (addr ! n) (nibble_bits nib) of
      None \<Rightarrow> transition_of_walk so (walk_nibble ?ar (nibble_bits nib) n None)
        = Some \<lparr>next_state = invalid_state, emit = None\<rparr>
    | Some (ss, v) \<Rightarrow> \<exists>m < length addr. addr ! m = v \<and> v \<notin> set code_words
        \<and> (ss = [] \<and> transition_of_walk so (walk_nibble ?ar (nibble_bits nib) n None)
              = Some \<lparr>next_state = so ! m, emit = None\<rparr>
           \<or> (\<exists>s. ss = [s] \<and> transition_of_walk so (walk_nibble ?ar (nibble_bits nib) n None)
              = Some \<lparr>next_state = so ! m, emit = Some (of_nat s)\<rparr>))"
    if "n \<in> set nodes" for n nib
  proof -
    have "n < length addr" "addr ! n \<notin> set code_words" "length (nibble_bits nib) \<le> 4"
      using that nodes by (simp_all add: nibble_bits_def)
    from walk_nibble_scan [OF rep this, of None] show ?thesis
      by (auto split: option.splits)
  qed
  have "transition_of_walk so (walk_nibble ?ar (nibble_bits nib) n None) = Some (tr n nib)"
    if "n \<in> set nodes" for n nib
    using step [OF that, of nib] by (auto simp: tr_def split: option.splits)
  then have rows: "those (map (transition_row ?ar so) nodes) = Some (map (\<lambda>n. map (tr n) [0..<16]) nodes)"
    by (intro those_map_Some) (simp add: transition_row_def those_map_Some)
  obtain dep eosp where run: "descend (length (children ?ar)) ?ar so [(0, 0, True)]
      (replicate (length nodes) 0, replicate (length nodes) False) = Some (dep, eosp)"
    and facts: "\<And>m. m < length addr \<Longrightarrow> addr ! m \<notin> set code_words \<Longrightarrow>
       dep ! (so ! m) = length (addr ! m) \<and> eosp ! (so ! m) = all_ones (addr ! m)"
  proof -
    have "card (subtree addr 0) \<le> card {..<length addr}"
      by (rule card_mono) (auto simp: subtree_def)
    then have "sum_list (map (\<lambda>(n, _). card (subtree addr n)) [(0 :: nat, 0 :: nat, True)])
        \<le> length (children ?ar)" by (simp add: D(1))
    moreover have "stack_ok addr [(0, 0, True)]" using zero D(4) by (simp add: stack_ok_def all_ones_def)
    moreover have "covered addr [(0, 0, True)] m" for m using D(4) by (simp add: covered_def)
    moreover have "so ! m < length nodes \<and> (so ! m = so ! m' \<longrightarrow> m = m')"
      if "m < length addr" "addr ! m \<notin> set code_words" "m' < length addr" "addr ! m' \<notin> set code_words"
      for m m' using so that by metis
    ultimately show thesis
      using descend_spec [OF rep, of so "length nodes" "[(0, 0, True)]"
          "replicate (length nodes) 0" "replicate (length nodes) False"] that
      by simp blast
  qed
  let ?tab = "\<lparr>states = map (\<lambda>n. map (tr n) [0..<16]) nodes, depth = dep, eos_prefix = eosp\<rparr>"
  have "build_table huffman_codes = Some ?tab"
    by (simp add: build_table_def num so0 rows run)
  moreover have "table_ok ?tab sa"
    unfolding table_ok_def
  proof (intro conjI allI impI sa)
    have z: "0 < length nodes" "nodes ! 0 = 0" using so [OF zero] so0 by (simp_all add: root_state_def)
    then show "root_state < length sa" "sa ! root_state = []"
      by (simp_all add: sa_def root_state_def D(4))
  next
    fix i assume "i < length sa"
    then have i: "i < length nodes" and n: "nodes ! i \<in> set nodes" by (simp_all add: sa_def)
    then have "nodes ! i < length addr" "addr ! (nodes ! i) \<notin> set code_words" using nodes by auto
    from facts [OF this] spec(3) [OF i] i
    show "depth ?tab ! i = length (sa ! i)" "eos_prefix ?tab ! i = all_ones (sa ! i)"
      by (simp_all add: sa_def)
    fix nib :: nat assume "nib < 16"
    then have cell: "states ?tab ! i ! nib = tr (nodes ! i) nib" using i by simp
    have at: "so ! m < length sa" "sa ! (so ! m) = addr ! m"
      if "m < length addr" "addr ! m \<notin> set code_words" for m
      using so [OF that] by (simp_all add: sa_def)
    show "case scan (sa ! i) (nibble_bits nib) of
            None \<Rightarrow> next_state (states ?tab ! i ! nib) = invalid_state
          | Some (ss, v) \<Rightarrow>
              next_state (states ?tab ! i ! nib) < length sa
              \<and> sa ! next_state (states ?tab ! i ! nib) = v
              \<and> (ss = [] \<and> emit (states ?tab ! i ! nib) = None
                 \<or> (\<exists>s. ss = [s] \<and> emit (states ?tab ! i ! nib) = Some (of_nat s)))"
      using step [OF n, of nib] at i unfolding cell tr_def
      by (auto simp: sa_def split: option.splits)
  qed
  ultimately show ?thesis by blast
qed

end
