(* ===== verification/Huffman_Props.thy ===== *)
theory Huffman_Props
  imports Huffman_Tree
begin

section \<open>Huffman strings: exactly what is accepted, and the round trip\<close>

text \<open>
  The decoder accepts an octet string exactly when its bits are code words of octets followed by
  at most seven one bits, and then yields those octets; the encoder produces such a string, of
  the length it announces.
\<close>

subsection \<open>Octets as bits\<close>

definition octet_bits :: "u8 \<Rightarrow> bool list" where
  "octet_bits b = map (bit b) (rev [0..<8])"

definition bits_of :: "octets \<Rightarrow> bool list" where
  "bits_of bs = concat (map octet_bits bs)"

lemma length_octet_bits [simp]: "length (octet_bits b) = 8"
  by (simp add: octet_bits_def)

lemma bits_of_simps [simp]:
  "bits_of [] = []" "bits_of (b # bs) = octet_bits b @ bits_of bs"
  "bits_of (xs @ ys) = bits_of xs @ bits_of ys"
  by (simp_all add: bits_of_def)

lemma length_bits_of [simp]: "length (bits_of bs) = 8 * length bs"
  by (induction bs) simp_all

lemma rev_upt_8: "rev [0..<8] = [7, 6, 5, 4, 3, 2, 1, 0 :: nat]"
  by (simp add: upt_rec)

lemma low_nibble: "(b :: u8) AND 0x0f = take_bit 4 b"
  by (simp add: take_bit_eq_mask mask_eq_exp_minus_1)

lemma octet_nibble_bits:
  "nibble_bits (unat (drop_bit 4 b)) @ nibble_bits (unat (b AND 0x0f)) = octet_bits (b :: u8)"
  unfolding low_nibble
  by (simp add: nibble_bits_def octet_bits_def rev_upt_8 bit_unsigned_iff bit_drop_bit_eq bit_take_bit_iff)

lemma octet_nibbles_bits: "concat (map nibble_bits (octet_nibbles bs)) = bits_of bs"
  by (induction bs) (simp_all flip: octet_nibble_bits)

lemma octet_nibbles_less: "n \<in> set (octet_nibbles bs) \<Longrightarrow> n < 16"
proof (induction bs)
  case (Cons b bs)
  have "unat b < 256" using unsigned_less [of b, where 'a = nat] by simp
  then have "unat (drop_bit 4 b) < 16" by (simp add: drop_bit_eq_div unat_div_distrib)
  moreover have "unat (b AND 0x0f) < 16"
    unfolding low_nibble using take_bit_nat_less_exp [of 4 "unat b"] by (simp add: unsigned_take_bit_eq)
  ultimately show ?case using Cons by auto
qed simp

subsection \<open>The bit-by-bit reading\<close>

definition words_of :: "nat list \<Rightarrow> bool list" where
  "words_of ss = concat (map symbol_word ss)"

lemma words_of_simps [simp]:
  "words_of [] = []" "words_of (s # ss) = symbol_word s @ words_of ss"
  by (simp_all add: words_of_def)

lemma incomplete_iff: "huffman.incomplete u \<longleftrightarrow> (\<forall>w \<in> set code_words. \<not> prefix w u)"
  unfolding huffman.incomplete_def by (auto simp: in_set_conv_nth symbol_word_def Ball_def)

lemma incomplete_Nil [simp]: "huffman.incomplete []"
  using root_not_word by (auto simp: incomplete_iff)

lemma scan_sound:
  assumes "scan u bs = Some (ss, v)" "huffman.incomplete u"
  shows "u @ bs = words_of ss @ v \<and> set ss \<subseteq> {..<256} \<and> huffman.incomplete v"
  using assms
proof (induction u bs arbitrary: ss v rule: scan.induct)
  case (1 u)
  then show ?case by simp
next
  case (2 u b bs)
  show ?case
  proof (cases "symbol_of (u @ [b])")
    case None
    then have "huffman.incomplete (u @ [b])"
      using 2(4) symbol_of_None by (auto simp: incomplete_iff)
    with 2 None show ?thesis by simp
  next
    case (Some s)
    with 2(3) obtain ss' where ss': "scan [] bs = Some (ss', v)" "ss = s # ss'" "s \<noteq> eos"
      by (auto split: if_splits)
    from 2(2) [OF Some ss'(3) ss'(1)]
    have "bs = words_of ss' @ v" "set ss' \<subseteq> {..<256}" "huffman.incomplete v" by simp_all
    moreover have "symbol_word s = u @ [b]" "s < 256"
      using Some ss'(3) by (auto simp: symbol_of_iff eos_def)
    ultimately show ?thesis using ss' by simp
  qed
qed

lemma scan_rest: "huffman.incomplete (u @ bs) \<Longrightarrow> scan u bs = Some ([], u @ bs)"
proof (induction bs arbitrary: u)
  case (Cons b bs)
  then have "symbol_of (u @ [b]) = None"
    unfolding symbol_of_None incomplete_iff by (metis append.assoc append_Cons append_Nil prefixI)
  with Cons show ?case by simp
qed simp

lemma scan_word:
  assumes "u @ bs = symbol_word s @ rest" "strict_prefix u (symbol_word s)" "s < 256"
  shows "scan u bs = map_option (\<lambda>(ss, v). (s # ss, v)) (scan [] rest)"
  using assms
proof (induction bs arbitrary: u)
  case Nil
  then show ?case by (metis append_Nil2 prefixI prefix_order.antisym prefix_order.less_imp_le
      prefix_order.less_irrefl)
next
  case (Cons b bs)
  have pre: "prefix (u @ [b]) (symbol_word s)"
    using Cons.prems(1,2) by (metis append_one_prefix prefix_length_less prefixI strict_prefixE'
        append_Cons append_Nil append_assoc append_eq_append_conv_if hd_append list.sel(1) nth_append_length
        prefix_length_prefix length_append_singleton Suc_leI)
  show ?case
  proof (cases "u @ [b] = symbol_word s")
    case True
    then have "symbol_of (u @ [b]) = Some s" using Cons.prems(3) by (simp add: symbol_of_iff)
    moreover have "bs = rest" using Cons.prems(1) True [symmetric] by simp
    ultimately show ?thesis using Cons.prems(3) by (simp add: eos_def)
  next
    case False
    with pre have strict: "strict_prefix (u @ [b]) (symbol_word s)" by (simp add: strict_prefix_def)
    have "symbol_of (u @ [b]) = None"
    proof (rule ccontr)
      assume "symbol_of (u @ [b]) \<noteq> None"
      then have "u @ [b] \<in> set code_words" by (simp add: symbol_of_None)
      from complete_code_prefix_free [OF code_words_complete this _ pre] False Cons.prems(3)
      show False by simp
    qed
    with Cons.IH [OF _ strict Cons.prems(3)] Cons.prems(1) show ?thesis by simp
  qed
qed

lemma scan_complete:
  "set ss \<subseteq> {..<256} \<Longrightarrow> huffman.incomplete v \<Longrightarrow> scan [] (words_of ss @ v) = Some (ss, v)"
proof (induction ss)
  case Nil
  then show ?case using scan_rest [of "[]" v] by simp
next
  case (Cons s ss)
  have "strict_prefix [] (symbol_word s)"
    using huffman.word_nonempty [of s] Cons.prems(1) by (auto simp: strict_prefix_def)
  from scan_word [of "[]" "words_of (s # ss) @ v" s "words_of ss @ v", OF _ this] Cons
  show ?case by simp
qed

text \<open>At most seven one bits never start a word.\<close>

lemma all_ones_incomplete:
  assumes "all_ones v" "length v \<le> 7"
  shows "huffman.incomplete v"
  unfolding incomplete_iff
proof (intro ballI notI)
  fix w assume w: "w \<in> set code_words" "prefix w v"
  then have "\<forall>b \<in> set w. b" and "length w \<le> 7"
    using assms by (auto simp: prefix_def all_ones_def list_all_iff)
  moreover from this(1) have "w = replicate (length w) True" by (intro replicate_eqI) auto
  moreover have "prefix (replicate n True) (replicate 30 True)" if "n \<le> 7" for n
    using that by (intro prefixI [of _ _ "replicate (30 - n) True"]) (simp flip: replicate_add)
  ultimately have "prefix w (code_words ! eos)" unfolding code_words_eos by metis
  then have "w = code_words ! eos"
    using complete_code_prefix_free [OF code_words_complete w(1), of "code_words ! eos"]
    by (simp add: eos_def)
  with \<open>length w \<le> 7\<close> show False by (simp add: code_words_eos)
qed

subsection \<open>The decoder\<close>

lemma the_table_ok: "\<exists>sa. table_ok the_table sa"
  using build_table_ok by (auto simp: the_table_def)

lemma decode_nibbles_scan:
  assumes tab: "table_ok tab sa" and "i < length sa" "\<forall>n \<in> set ns. n < 16"
  shows "case scan (sa ! i) (concat (map nibble_bits ns)) of
      None \<Rightarrow> decode_nibbles tab ns i out = Inl Compression
    | Some (ss, v) \<Rightarrow>
        \<exists>j < length sa. sa ! j = v \<and> decode_nibbles tab ns i out = Inr (j, out @ map of_nat ss)"
  using assms(2-)
proof (induction ns arbitrary: i out)
  case Nil
  then show ?case by auto
next
  case (Cons n ns)
  let ?t = "states tab ! i ! n"
  have cell: "case scan (sa ! i) (nibble_bits n) of
      None \<Rightarrow> next_state ?t = invalid_state
    | Some (ss, v) \<Rightarrow> next_state ?t < length sa \<and> sa ! next_state ?t = v
        \<and> (ss = [] \<and> emit ?t = None \<or> (\<exists>s. ss = [s] \<and> emit ?t = Some (of_nat s)))"
    using tab Cons.prems by (simp add: table_ok_def)
  show ?case
  proof (cases "scan (sa ! i) (nibble_bits n)")
    case None
    with cell show ?thesis by (simp add: scan_append)
  next
    case (Some ssv)
    obtain ss v where ssv: "ssv = (ss, v)" by (cases ssv)
    have j: "next_state ?t < length sa" "sa ! next_state ?t = v"
      and e: "(case emit ?t of None \<Rightarrow> out | Some s \<Rightarrow> out @ [s]) = out @ map of_nat ss"
      using cell Some ssv by auto
    have "next_state ?t \<noteq> invalid_state" using j(1) tab by (auto simp: table_ok_def)
    then have run: "decode_nibbles tab (n # ns) i out = decode_nibbles tab ns (next_state ?t) (out @ map of_nat ss)"
      by (simp add: Let_def e)
    show ?thesis
      using Cons.IH [OF j(1), of "out @ map of_nat ss"] Cons.prems(2) j(2)
      unfolding run by (auto simp: scan_append Some ssv split: option.splits)
  qed
qed

lemma huffman_decode_scan:
  "huffman_decode src =
     (case scan [] (bits_of src) of
        None \<Rightarrow> Inl Compression
      | Some (ss, v) \<Rightarrow> if length v \<le> 7 \<and> all_ones v then Inr (map of_nat ss) else Inl Compression)"
proof -
  obtain sa where tab: "table_ok the_table sa" using the_table_ok by blast
  then have root: "root_state < length sa" "sa ! root_state = []" "distinct sa"
    by (simp_all add: table_ok_def)
  have pad: "depth the_table ! j = length (sa ! j)" "eos_prefix the_table ! j = all_ones (sa ! j)"
    "j = root_state \<longleftrightarrow> sa ! j = []" if "j < length sa" for j
    using tab that nth_eq_iff_index_eq [OF root(3) that root(1)] root(2) by (simp_all add: table_ok_def)
  from decode_nibbles_scan [OF tab root(1), of "octet_nibbles src" "[]"] octet_nibbles_less
  show ?thesis
    by (auto simp: huffman_decode_def octet_nibbles_bits root pad all_ones_def
        split: option.splits if_splits)
qed

text \<open>C39. The Huffman decoder accepts an octet string exactly when its bits are the code words of
  some octets followed by at most seven one bits, and the octets it yields are those; everything
  else, the end-of-string symbol included, is a compression error. The table it uses is the value
  of its construction, which does not panic.\<close>

theorem huffman_accepts_exactly_the_code:
  "build_table huffman_codes = Some the_table
   \<and> (huffman_decode src = Inr out \<longleftrightarrow>
        (\<exists>pad. bits_of src = words_of (map unat out) @ pad \<and> length pad \<le> 7 \<and> all_ones pad))
   \<and> (huffman_decode src = Inl e \<longrightarrow> e = Compression)"
proof (intro conjI)
  show "build_table huffman_codes = Some the_table"
    using build_table_ok by (auto simp: the_table_def)
  show "huffman_decode src = Inl e \<longrightarrow> e = Compression"
    by (auto simp: huffman_decode_scan split: option.splits if_splits)
  show "huffman_decode src = Inr out \<longleftrightarrow>
        (\<exists>pad. bits_of src = words_of (map unat out) @ pad \<and> length pad \<le> 7 \<and> all_ones pad)"
  proof
    assume "huffman_decode src = Inr out"
    then obtain ss v where s: "scan [] (bits_of src) = Some (ss, v)" "length v \<le> 7" "all_ones v"
        "out = map of_nat ss"
      by (auto simp: huffman_decode_scan split: option.splits if_splits)
    from scan_sound [OF s(1)] have "bits_of src = words_of ss @ v" "set ss \<subseteq> {..<256}" by simp_all
    moreover have "map (unat \<circ> (of_nat :: nat \<Rightarrow> u8)) ss = ss"
      using \<open>set ss \<subseteq> _\<close> by (induction ss) (simp_all add: unsigned_of_nat take_bit_nat_eq_self)
    ultimately show "\<exists>pad. bits_of src = words_of (map unat out) @ pad \<and> length pad \<le> 7 \<and> all_ones pad"
      using s by auto
  next
    assume "\<exists>pad. bits_of src = words_of (map unat out) @ pad \<and> length pad \<le> 7 \<and> all_ones pad"
    then obtain pad where pad: "bits_of src = words_of (map unat out) @ pad" "length pad \<le> 7" "all_ones pad"
      by blast
    have "set (map unat out) \<subseteq> {..<256}"
      using unsigned_less [where 'a = nat and 'b = 8] by auto
    from scan_complete [OF this all_ones_incomplete [OF pad(3,2)]] pad
    show "huffman_decode src = Inr out" by (simp add: huffman_decode_scan comp_def)
  qed
qed

text \<open>The pattern 0xff 0xff 0xff 0xff holds the end-of-string symbol; "a" is 00011 and three ones.\<close>

theorem huffman_accepts_exactly_the_code_witness:
  "huffman_decode [0x1f] = Inr [0x61]"
proof -
  have "symbol_word 97 = [False, False, False, True, True]" by code_simp
  then have "bits_of [0x1f] = words_of (map unat [0x61 :: u8]) @ [True, True, True]"
    by (simp add: octet_bits_def rev_upt_8)
  moreover have "length [True, True, True] \<le> 7" "all_ones [True, True, True]"
    by (simp_all add: all_ones_def)
  ultimately show ?thesis using huffman_accepts_exactly_the_code by blast
qed

subsection \<open>The encoder\<close>

text \<open>The lowest \<^term>\<open>n\<close> bits of the accumulator, the oldest first.\<close>

definition pending_bits :: "u64 \<Rightarrow> nat \<Rightarrow> bool list" where
  "pending_bits acc n = map (bit acc) (rev [0..<n])"

lemma length_pending_bits [simp]: "length (pending_bits acc n) = n"
  by (simp add: pending_bits_def)

lemma rev_upt_add: "rev [0..<a + b] = map (\<lambda>i. a + i) (rev [0..<b]) @ rev [0..<a]"
proof -
  have "map (\<lambda>i. a + i) [0..<b] = [a..<a + b]"
    using map_add_upt [of a b] by (simp add: add.commute)
  then have "map (\<lambda>i. a + i) (rev [0..<b]) = rev [a..<a + b]" by (simp flip: rev_map)
  then show ?thesis by (simp add: upt_add_eq_append [of 0 a b])
qed

lemma drain_acc_bits:
  assumes "nbits \<le> 64" "drain_acc acc nbits out = (nbits', out')"
  shows "nbits' < 8 \<and> bits_of out' @ pending_bits acc nbits' = bits_of out @ pending_bits acc nbits"
  using assms
proof (induction acc nbits out rule: drain_acc.induct)
  case (1 acc nbits out)
  show ?case
  proof (cases "8 \<le> nbits")
    case True
    let ?b = "ucast (drop_bit (nbits - 8) acc) :: u8"
    have "octet_bits ?b = map (\<lambda>i. bit acc (nbits - 8 + i)) (rev [0..<8])"
      by (auto simp: octet_bits_def bit_simps)
    moreover have "rev [0..<nbits] = map (\<lambda>i. nbits - 8 + i) (rev [0..<8]) @ rev [0..<nbits - 8]"
      using rev_upt_add [of "nbits - 8" 8] True by simp
    ultimately have "pending_bits acc nbits = octet_bits ?b @ pending_bits acc (nbits - 8)"
      by (simp add: pending_bits_def)
    with 1 True show ?thesis by (simp add: drain_acc.simps [of acc nbits])
  next
    case False
    with 1 show ?thesis by (simp add: drain_acc.simps [of acc nbits])
  qed
qed

lemma push_code_bits:
  assumes "drop_bit len code = 0" "n + len \<le> 64"
  shows "pending_bits (push_bit len acc OR ucast (code :: u32)) (n + len) =
     pending_bits acc n @ code_bits (code, len)"
proof -
  have hi: "\<not> bit code i" if "len \<le> i" for i
    using arg_cong [OF assms(1), of "\<lambda>w. bit w (i - len)"] that by (simp add: bit_simps)
  have "rev [0..<n + len] = map (\<lambda>i. len + i) (rev [0..<n]) @ rev [0..<len]"
    using rev_upt_add [of len n] by (simp add: add.commute)
  then show ?thesis
    using assms(2) hi by (auto simp: pending_bits_def code_bits_def bit_simps)
qed

lemma huffman_codes_unat:
  obtains code len where "huffman_codes ! unat (b :: u8) = (code, len)"
    "symbol_word (unat b) = code_bits (code, len)" "len \<le> 30" "drop_bit len code = 0"
proof -
  obtain code len where c: "huffman_codes ! unat b = (code, len)" by fastforce
  have n: "unat b < length huffman_codes"
    using unsigned_less [of b, where 'a = nat] length_code_words by (simp add: code_words_def)
  then have "symbol_word (unat b) = code_bits (code, len)"
    using c by (simp add: symbol_word_def code_words_def)
  moreover have "len \<le> 30 \<and> drop_bit len code = 0"
    using huffman_codes_fit nth_mem [OF n] c by (auto simp: list_all_iff)
  ultimately show thesis using c that by blast
qed

lemma encode_symbols_bits:
  assumes "nbits < 8" "encode_symbols src acc nbits out = (acc', nbits', out')"
  shows "nbits' < 8 \<and> bits_of out' @ pending_bits acc' nbits' =
    bits_of out @ pending_bits acc nbits @ words_of (map unat src)"
  using assms
proof (induction src arbitrary: acc nbits out)
  case Nil
  then show ?case by simp
next
  case (Cons b src)
  obtain code len where c: "huffman_codes ! unat b = (code, len)"
      "symbol_word (unat b) = code_bits (code, len)" "len \<le> 30" "drop_bit len code = 0"
    by (rule huffman_codes_unat)
  let ?acc = "push_bit len acc OR ucast code"
  obtain n1 o1 where d: "drain_acc ?acc (nbits + len) out = (n1, o1)" by fastforce
  have "n1 < 8 \<and> bits_of o1 @ pending_bits ?acc n1 = bits_of out @ pending_bits ?acc (nbits + len)"
    using Cons.prems(1) c(3) by (intro drain_acc_bits [OF _ d]) simp
  moreover have "pending_bits ?acc (nbits + len) = pending_bits acc nbits @ symbol_word (unat b)"
    using push_code_bits [OF c(4), of nbits acc] Cons.prems(1) c(2,3) by simp
  moreover have "encode_symbols src ?acc n1 o1 = (acc', nbits', out')"
    using Cons.prems(2) by (simp add: c(1) d)
  ultimately show ?case using Cons.IH [of n1 ?acc o1] by simp
qed

text \<open>The whole encoding: the code words and fewer than eight one bits.\<close>

lemma huffman_encode_bits:
  "\<exists>pad. bits_of (huffman_encode src out) = bits_of out @ words_of (map unat src) @ pad
     \<and> length pad < 8 \<and> all_ones pad"
proof -
  obtain acc nbits out' where run: "encode_symbols src 0 0 out = (acc, nbits, out')"
    by (cases "encode_symbols src 0 0 out")
  from encode_symbols_bits [OF _ this] have n: "nbits < 8"
    and bits: "bits_of out' @ pending_bits acc nbits = bits_of out @ words_of (map unat src)"
    by (simp_all add: pending_bits_def)
  show ?thesis
  proof (cases "nbits = 0")
    case True
    with bits run show ?thesis
      by (intro exI [of _ "[]"]) (simp add: huffman_encode_def pending_bits_def all_ones_def)
  next
    case False
    let ?pad = "8 - nbits"
    let ?last = "ucast (push_bit ?pad acc OR (push_bit ?pad 1 - 1)) :: u8"
    have ones: "push_bit ?pad (1 :: u64) - 1 = mask ?pad" by (simp add: mask_eq_decr_exp push_bit_of_1)
    have "octet_bits ?last = map (bit ?last) (map (\<lambda>i. ?pad + i) (rev [0..<nbits]) @ rev [0..<?pad])"
      using rev_upt_add [of ?pad nbits] n unfolding octet_bits_def by simp
    also have "\<dots> = pending_bits acc nbits @ replicate ?pad True"
      unfolding ones using n
      by (auto simp: pending_bits_def bit_simps map_replicate_const [symmetric] intro!: replicate_eqI)
    finally have "bits_of (huffman_encode src out) =
        bits_of out @ words_of (map unat src) @ replicate ?pad True"
      using run False bits by (simp add: huffman_encode_def Let_def flip: append_assoc)
    with False show ?thesis by (intro exI [of _ "replicate ?pad True"]) (simp add: all_ones_def list_all_iff)
  qed
qed

lemma length_words_of:
  "length (words_of (map unat src)) = sum_list (map (\<lambda>b. snd (huffman_codes ! unat b)) (src :: octets))"
proof (induction src)
  case (Cons b src)
  obtain code len where "huffman_codes ! unat b = (code, len)"
      "symbol_word (unat b) = code_bits (code, len)" "len \<le> 30" "drop_bit len code = 0"
    by (rule huffman_codes_unat)
  with Cons show ?case by (simp add: code_bits_def)
qed simp

lemma length_huffman_encode: "length (huffman_encode src []) = huffman_encoded_len src"
proof -
  obtain pad where pad: "bits_of (huffman_encode src []) = words_of (map unat src) @ pad" "length pad < 8"
    using huffman_encode_bits [of src "[]"] by auto
  from arg_cong [OF pad(1), of length]
  have "8 * length (huffman_encode src []) = length (words_of (map unat src)) + length pad" by simp
  then show ?thesis
    using pad(2) by (simp add: huffman_encoded_len_def Let_def flip: length_words_of)
qed

lemma huffman_decode_encode: "huffman_decode (huffman_encode src []) = Inr src"
proof -
  obtain pad where "bits_of (huffman_encode src []) = words_of (map unat src) @ pad"
      "length pad < 8" "all_ones pad"
    using huffman_encode_bits [of src "[]"] by auto
  then show ?thesis
    using scan_complete [OF _ all_ones_incomplete, of "map unat src" pad]
      unsigned_less [where 'a = nat and 'b = 8]
    by (auto simp: huffman_decode_scan comp_def image_subset_iff)
qed

lemma drain_acc_append: "drain_acc acc n (xs @ ys) = map_prod id ((@) xs) (drain_acc acc n ys)"
proof (induction acc n ys rule: drain_acc.induct)
  case (1 acc nbits ys)
  then show ?case
    by (simp add: drain_acc.simps [of acc nbits "xs @ ys"] drain_acc.simps [of acc nbits ys])
qed

lemma huffman_encode_append: "huffman_encode src out = out @ huffman_encode src []"
proof -
  have "encode_symbols src acc n (xs @ ys) =
      (\<lambda>(a, m, zs). (a, m, xs @ zs)) (encode_symbols src acc n ys)" for acc n xs ys
    by (induction src arbitrary: acc n ys)
      (auto simp: drain_acc_append case_prod_beta Let_def)
  from this [of 0 0 out "[]"] show ?thesis
    by (auto simp: huffman_encode_def Let_def case_prod_beta)
qed

text \<open>Round trip: what the encoder appends is what was there followed by a string that the
  decoder reads back as the source, and its length is the one \<^verbatim>\<open>encoded_len\<close> announces.\<close>

theorem huffman_roundtrip:
  "huffman_encode src out = out @ huffman_encode src []
   \<and> huffman_decode (huffman_encode src []) = Inr src
   \<and> length (huffman_encode src []) = huffman_encoded_len src"
  by (intro conjI huffman_encode_append huffman_decode_encode length_huffman_encode)

end
