(* ===== verification/Hpack_Coding.thy ===== *)
theory Hpack_Coding
  imports Hpack Huffman_Props
begin

section \<open>HPACK primitives: what is written is read back\<close>

text \<open>
  Integers and strings as instances of one interface, a self-delimiting wire format: a printer and
  a parser that reads back what was printed and leaves the rest. What follows for any such format
  is proved in the locale.
\<close>

locale wire_format =
  fixes print :: "'a \<Rightarrow> octets" and parse :: "octets \<Rightarrow> hpack_error + 'a \<times> octets"
    and valid :: "'a \<Rightarrow> bool"
  assumes parse_print: "valid x \<Longrightarrow> parse (print x @ rest) = Inr (x, rest)"
begin

lemma unambiguous:
  "valid x \<Longrightarrow> valid y \<Longrightarrow> print x @ r = print y @ s \<Longrightarrow> x = y \<and> r = s"
  using parse_print by (metis Inr_inject Pair_inject)

end

subsection \<open>Bits of octets\<close>

lemma and_mask_u8: "p \<le> 8 \<Longrightarrow> unat ((x :: u8) AND of_nat (2 ^ p - 1)) = unat x mod 2 ^ p"
proof -
  have "(of_nat (2 ^ p - 1) :: u8) = mask p" by (simp add: mask_eq_exp_minus_1 of_nat_diff)
  then have "x AND of_nat (2 ^ p - 1) = take_bit p x" by (simp add: take_bit_eq_mask)
  then show ?thesis
    by (simp only: unsigned_take_bit_eq take_bit_eq_mod [of p "unat x", symmetric])
qed

lemma unat_of_nat_u8 [simp]: "k < 256 \<Longrightarrow> unat (of_nat k :: u8) = k"
  by (simp add: unsigned_of_nat take_bit_nat_eq_self)

lemma bit_small_u8: "k < 2 ^ p \<Longrightarrow> bit (of_nat k :: u8) n \<Longrightarrow> n < p"
  by (metis bit_of_nat_iff_bit bit_take_bit_iff of_nat_take_bit take_bit_nat_eq_self_iff
      bit_nat_iff bit_of_nat_iff possible_bit_def take_bit_nat_eq_self)

text \<open>The leading octet of an integer: the selector bits of the representation and the prefix.\<close>

definition selector :: "u8 \<Rightarrow> nat \<Rightarrow> bool" where
  "selector high p \<longleftrightarrow> 4 \<le> p \<and> p \<le> 7 \<and> take_bit p high = 0"

lemma selector_cases [simp]:
  "selector 0x80 7" "selector 0x00 7" "selector 0x40 6" "selector 0x20 5" "selector 0x10 4"
  by (simp_all add: selector_def)

lemma lead_prefix:
  assumes "selector high p" "k < 2 ^ p"
  shows "unat (ucast (high OR of_nat k) AND (of_nat (2 ^ p - 1) :: u32)) = k"
proof -
  have "(of_nat (2 ^ p - 1) :: u32) = mask p" by (simp add: mask_eq_exp_minus_1 of_nat_diff)
  then have "ucast (high OR of_nat k) AND (of_nat (2 ^ p - 1) :: u32) =
      take_bit p (ucast (high OR of_nat k))"
    by (simp add: take_bit_eq_mask)
  also have "\<dots> = ucast (take_bit p (of_nat k :: u8))"
    using assms by (auto simp: selector_def intro!: bit_word_eqI simp: bit_simps dest: arg_cong [of _ _ "\<lambda>w. bit w _"])
  finally have e: "ucast (high OR of_nat k) AND (of_nat (2 ^ p - 1) :: u32) =
      ucast (take_bit p (of_nat k :: u8))" .
  have "(2 :: nat) ^ p \<le> 2 ^ 7" using assms(1) by (intro power_increasing) (simp_all add: selector_def)
  with assms(2) have k: "k < 256" by simp
  show ?thesis
    unfolding e using assms(2) k
    by (simp add: unsigned_ucast_eq unsigned_take_bit_eq take_bit_nat_eq_self)
qed

lemma lead_selects:
  assumes "k < 2 ^ p" "take_bit p m = 0"
  shows "(high OR of_nat k) AND (m :: u8) = high AND m"
proof (rule bit_word_eqI)
  fix n assume "n < LENGTH(8)"
  have "\<not> bit m n" if "n < p"
    using arg_cong [OF assms(2), of "\<lambda>w. bit w n"] that by (simp add: bit_simps)
  then show "bit ((high OR of_nat k) AND m) n = bit (high AND m) n"
    using bit_small_u8 [OF assms(1), of n] by (auto simp: bit_and_iff bit_or_iff)
qed

subsection \<open>Integers\<close>

lemma continuation_octet:
  assumes "r < 128"
  shows "unat ((of_nat r OR 0x80) AND (0x7f :: u8)) = r" "(of_nat r OR 0x80) AND (0x80 :: u8) \<noteq> 0"
    "unat (of_nat r AND (0x7f :: u8)) = r" "of_nat r AND (0x80 :: u8) = 0"
proof -
  have m: "(of_nat (2 ^ 7 - 1) :: u8) = 0x7f" by simp
  have "(of_nat r OR 0x80) AND (0x7f :: u8) = of_nat r AND 0x7f"
    by (simp add: bit.conj_disj_distrib2)
  moreover show "unat (of_nat r AND (0x7f :: u8)) = r"
    using and_mask_u8 [of 7 "of_nat r"] assms by simp
  ultimately show "unat ((of_nat r OR 0x80) AND (0x7f :: u8)) = r" by simp
  show zero: "of_nat r AND (0x80 :: u8) = 0"
    using lead_selects [where k = r and p = 7 and m = "0x80" and high = 0] assms by simp
  then show "(of_nat r OR 0x80) AND (0x80 :: u8) \<noteq> 0"
    by (simp add: bit.conj_disj_distrib2)
qed

lemma decode_int_more_encode:
  assumes "val + r * 2 ^ sh \<le> u32_max" "7 dvd sh"
  shows "decode_int_more val sh (encode_int_more r @ rest) = Inr (val + r * 2 ^ sh, rest)"
  using assms
proof (induction r arbitrary: val sh rule: encode_int_more.induct)
  case (1 r)
  show ?case
  proof (cases "128 \<le> r")
    case False
    then show ?thesis
      using 1(2) by (simp add: encode_int_more.simps [of r] continuation_octet push_bit_eq_mult)
  next
    case True
    have split: "(r mod 128) * 2 ^ sh + (r div 128) * 2 ^ (sh + 7) = r * 2 ^ sh"
    proof -
      have "r * 2 ^ sh = (r div 128 * 128 + r mod 128) * 2 ^ sh" by simp
      then show ?thesis by (simp only: power_add distrib_right mult.assoc) simp
    qed
    have "2 ^ (sh + 7) \<le> r * 2 ^ sh" using True by (simp add: power_add)
    then have "(2 :: nat) ^ (sh + 7) < 2 ^ 32" using 1(2) by simp
    then have "sh + 7 < 32" by (rule power_less_imp_less_exp [rotated]) simp
    moreover have "7 dvd sh + 7" using 1(3) by simp
    ultimately have "sh + 7 \<le> 28" by (auto elim!: dvdE)
    with 1 True split show ?thesis
      by (simp add: encode_int_more.simps [of r] continuation_octet push_bit_eq_mult)
  qed
qed

lemma decode_encode_int:
  assumes sel: "selector high p" and "val \<le> u32_max"
  obtains more where "encode_int val p high = (high OR of_nat (min val (2 ^ p - 1))) # more"
    "\<And>rest. decode_int (high OR of_nat (min val (2 ^ p - 1))) p (more @ rest) = Inr (val, rest)"
proof -
  have lead: "unat (ucast (high OR of_nat k) AND (of_nat (2 ^ p - 1) :: u32)) = k" if "k < 2 ^ p" for k
    using lead_prefix [OF sel that] .
  show thesis
  proof (cases "val < 2 ^ p - 1")
    case True
    then show ?thesis
      using that [of "[]"] lead [of val] by (simp add: encode_int_def decode_int_def Let_def min_def)
  next
    case False
    then have m: "min val (2 ^ p - 1) = 2 ^ p - 1" by simp
    have "decode_int_more (2 ^ p - 1) 0 (encode_int_more (val - (2 ^ p - 1)) @ rest) = Inr (val, rest)" for rest
      using decode_int_more_encode [of "2 ^ p - 1" "val - (2 ^ p - 1)" 0] False assms(2) by simp
    then show ?thesis
      using that [of "encode_int_more (val - (2 ^ p - 1))"] lead [of "2 ^ p - 1"] False
      unfolding m by (simp add: encode_int_def decode_int_def Let_def)
  qed
qed

lemma encode_int_lead:
  assumes "selector high p" "val \<le> u32_max"
  obtains first more where "encode_int val p high = first # more"
    "\<And>m. take_bit p m = 0 \<Longrightarrow> first AND m = high AND m"
    "\<And>rest. decode_int first p (more @ rest) = Inr (val, rest)"
proof -
  have "min val (2 ^ p - 1) < 2 ^ p" by (simp add: min.strict_coboundedI2)
  then show thesis
    using that lead_selects decode_encode_int [OF assms] by metis
qed

lemma take_bit_0x80 [simp]: "take_bit 7 (0x80 :: u8) = 0"
  by simp

text \<open>An integer after its representation's selector, as one format.\<close>

definition print_int :: "u8 \<Rightarrow> nat \<Rightarrow> nat \<Rightarrow> octets" where
  "print_int high p val = encode_int val p high"

definition parse_int :: "nat \<Rightarrow> octets \<Rightarrow> hpack_error + nat \<times> octets" where
  "parse_int p cur =
     (case next_byte cur of Inl e \<Rightarrow> Inl e | Inr (first, cur1) \<Rightarrow> decode_int first p cur1)"

lemma parse_print_int:
  "selector high p \<Longrightarrow> val \<le> u32_max \<Longrightarrow> parse_int p (print_int high p val @ rest) = Inr (val, rest)"
  by (rule decode_encode_int) (auto simp: parse_int_def print_int_def)

interpretation indexed: wire_format "print_int 0x80 7" "parse_int 7" "\<lambda>i. i \<le> u32_max"
  by unfold_locales (simp add: parse_print_int)

interpretation incremental: wire_format "print_int 0x40 6" "parse_int 6" "\<lambda>i. i \<le> u32_max"
  by unfold_locales (simp add: parse_print_int)

interpretation size_update: wire_format "print_int 0x20 5" "parse_int 5" "\<lambda>i. i \<le> u32_max"
  by unfold_locales (simp add: parse_print_int)

interpretation never_indexed: wire_format "print_int 0x10 4" "parse_int 4" "\<lambda>i. i \<le> u32_max"
  by unfold_locales (simp add: parse_print_int)

text \<open>Integers survive the wire: at every prefix length a representation uses, each value of at
  most 32 bits is read back, whatever follows it, and the selector bits are still those of the
  representation, so that the integer cannot change the kind of its field.\<close>

theorem integers_survive_the_wire:
  assumes "selector high p" "val \<le> u32_max" "take_bit p m = 0"
  shows "parse_int p (encode_int val p high @ rest) = Inr (val, rest)
    \<and> (hd (encode_int val p high)) AND m = high AND m"
proof -
  obtain first more where "encode_int val p high = first # more" "first AND m = high AND m"
    using encode_int_lead [OF assms(1,2)] assms(3) by metis
  then show ?thesis
    using parse_print_int [OF assms(1,2)] by (simp add: print_int_def)
qed

theorem integers_survive_the_wire_witness:
  "parse_int 5 (encode_int 1337 5 0x20 @ [7]) = Inr (1337, [7])
   \<and> (hd (encode_int 1337 5 0x20)) AND 0xe0 = 0x20 AND 0xe0"
  by (rule integers_survive_the_wire) simp_all

lemma decode_int_more_bounded:
  assumes "decode_int_more val sh cur = Inr (x, cur')" "sh \<le> 28" "7 dvd sh"
  shows "x \<le> u32_max \<and> length cur \<le> length cur' + (35 - sh) div 7"
  using assms
proof (induction val sh cur rule: decode_int_more.induct)
  case (2 val sh byte cur)
  have step: "1 + (35 - (sh + 7)) div 7 \<le> (35 - sh) div 7" if "sh + 7 \<le> 28" using that by linarith
  have last: "1 \<le> (35 - sh) div 7" using 2(3) by linarith
  from 2 show ?case
    using step last
    by (auto simp: Let_def split: if_splits) 
qed simp

text \<open>Hostile integers: whatever the octets, a decoded integer fits 32 bits, and decoding reads
  at most five continuation octets before it succeeds or fails.\<close>

theorem hostile_integers_bounded:
  assumes "parse_int p cur = Inr (x, cur')" "4 \<le> p" "p \<le> 7"
  shows "x \<le> u32_max \<and> length cur' < length cur \<and> length cur \<le> length cur' + 6"
proof -
  obtain first cur1 where cur: "cur = first # cur1" "decode_int first p cur1 = Inr (x, cur')"
    using assms(1) by (cases cur) (auto simp: parse_int_def)
  let ?mk = "2 ^ p - 1 :: nat"
  have "?mk \<le> 127" using power_increasing [of p 7 "2 :: nat"] assms(3) by simp
  then show ?thesis
    using cur decode_int_length [OF cur(2)]
      decode_int_more_bounded [of "unat (ucast first AND (of_nat ?mk :: u32))" 0 cur1 x cur']
    by (auto simp: decode_int_def Let_def split: if_splits)
qed

theorem hostile_integers_bounded_witness:
  "(1337 :: nat) \<le> u32_max \<and> length [7 :: u8] < length [0x1f, 0x9a, 0x0a, 7 :: u8]
   \<and> length [0x1f, 0x9a, 0x0a, 7 :: u8] \<le> length [7 :: u8] + 6"
  by (rule hostile_integers_bounded [of 5])
    (simp_all add: parse_int_def decode_int_def push_bit_eq_mult)

subsection \<open>Strings\<close>

lemma decode_encode_string:
  assumes "length s \<le> u32_max"
  shows "decode_string (encode_string s huff @ rest) = Inr (s, rest)"
proof (cases "huff \<and> huffman_encoded_len s \<le> length s")
  case True
  let ?n = "huffman_encoded_len s"
  have "?n \<le> u32_max" using True assms by simp
  from encode_int_lead [OF selector_cases(1) this] obtain first more where
    e: "encode_int ?n 7 0x80 = first # more" "first AND 0x80 = 0x80 AND 0x80"
      "\<And>rest. decode_int first 7 (more @ rest) = Inr (?n, rest)"
    by (metis take_bit_0x80)
  moreover have "encode_string s huff = encode_int ?n 7 0x80 @ huffman_encode s []"
    using True huffman_encode_append [of s "encode_int ?n 7 0x80"] by (simp add: encode_string_def Let_def)
  ultimately show ?thesis
    by (simp add: decode_string_def take_octets_def length_huffman_encode huffman_decode_encode)
next
  case False
  from encode_int_lead [OF selector_cases(2) assms] obtain first more where
    e: "encode_int (length s) 7 0x00 = first # more" "first AND 0x80 = 0x00 AND 0x80"
      "\<And>rest. decode_int first 7 (more @ rest) = Inr (length s, rest)"
    by (metis take_bit_0x80)
  moreover have "encode_string s huff = encode_int (length s) 7 0x00 @ s"
    using False by (auto simp: encode_string_def Let_def)
  ultimately show ?thesis
    by (simp add: decode_string_def take_octets_def)
qed

interpretation string_literal: wire_format "\<lambda>s. encode_string s huff" decode_string "\<lambda>s. length s \<le> u32_max"
  by unfold_locales (rule decode_encode_string)

end
