(* ===== verification/Hpack_Props.thy ===== *)
theory Hpack_Props
  imports Hpack_Coding
begin

section \<open>HPACK: tables that stay bounded and in step\<close>

text \<open>
  The dynamic table's accounting and bound on any input, hostile or not; the choice of
  representation by the encoder; and the conversation of an encoder with a decoder, with table
  resizes in between, in which every header list arrives as it was sent.
\<close>

subsection \<open>The dynamic table\<close>

definition table_cost :: "(octets \<times> octets) list \<Rightarrow> nat" where
  "table_cost es = sum_list (map entry_cost es)"

lemma table_cost_simps [simp]:
  "table_cost [] = 0" "table_cost (e # es) = entry_cost e + table_cost es"
  "table_cost (xs @ ys) = table_cost xs + table_cost ys"
  by (simp_all add: table_cost_def)

lemma table_cost_prefix: "prefix xs ys \<Longrightarrow> table_cost xs \<le> table_cost ys"
  by (auto simp: prefix_def)

definition table_ok :: "dynamic_table \<Rightarrow> bool" where
  "table_ok tab \<longleftrightarrow> table_octets tab = table_cost (entries tab) \<and> table_octets tab \<le> max_size tab"

text \<open>Eviction leaves the longest prefix, newest first, that fits.\<close>

fun fitting :: "nat \<Rightarrow> (octets \<times> octets) list \<Rightarrow> (octets \<times> octets) list" where
  "fitting room [] = []"
| "fitting room (e # es) = (if entry_cost e \<le> room then e # fitting (room - entry_cost e) es else [])"

lemma fitting_prefix: "prefix (fitting room es) es"
  by (induction room es rule: fitting.induct) auto

lemma fitting_cost: "table_cost (fitting room es) \<le> room"
  by (induction room es rule: fitting.induct) auto

lemma fitting_all: "table_cost es \<le> room \<Longrightarrow> fitting room es = es"
  by (induction room es rule: fitting.induct) auto

lemma fitting_greatest: "prefix xs es \<Longrightarrow> table_cost xs \<le> room \<Longrightarrow> prefix xs (fitting room es)"
proof (induction room es arbitrary: xs rule: fitting.induct)
  case (2 room e es)
  then show ?case by (cases xs) auto
qed simp

lemma fitting_snoc: "room < table_cost (es @ [e]) \<Longrightarrow> fitting room (es @ [e]) = fitting room es"
  by (induction room es rule: fitting.induct) auto

lemma evict_loop_fitting:
  "evict_loop target es (table_cost es) = Some (fitting target es, table_cost (fitting target es))"
proof (induction es rule: rev_induct)
  case Nil
  then show ?case by (simp add: evict_loop.simps)
next
  case (snoc e es)
  then show ?case
    by (simp add: evict_loop.simps [of target "es @ [e]"] fitting_all fitting_snoc)
qed

lemma evict_to_fitting:
  "table_octets tab = table_cost (entries tab) \<Longrightarrow>
     evict_to target tab =
       tab\<lparr>entries := fitting target (entries tab), table_octets := table_cost (fitting target (entries tab))\<rparr>"
  by (simp add: evict_to_def evict_loop_fitting)

lemma table_insert_entries:
  fixes n v :: octets
  assumes "table_ok tab"
  defines "cost \<equiv> length n + length v + entry_overhead"
  shows "entries (table_insert n v tab) =
      (if max_size tab < cost then [] else (n, v) # fitting (max_size tab - cost) (entries tab))"
    and "max_size (table_insert n v tab) = max_size tab"
    and "table_ok (table_insert n v tab)"
proof -
  have e: "entry_cost (a, b) = length a + length b + entry_overhead" for a b
    by (simp add: entry_cost_def)
  have z: "fitting 0 (entries tab) = []"
    by (cases "entries tab") (simp_all add: entry_cost_def entry_overhead_def)
  show "entries (table_insert n v tab) =
      (if max_size tab < cost then [] else (n, v) # fitting (max_size tab - cost) (entries tab))"
    and "max_size (table_insert n v tab) = max_size tab"
    using assms z by (auto simp: table_insert_def Let_def table_ok_def evict_to_fitting)
  show "table_ok (table_insert n v tab)"
    using assms z fitting_cost [of "max_size tab - cost" "entries tab"]
    by (auto simp: table_insert_def Let_def table_ok_def evict_to_fitting e)
qed

lemma set_max_size_entries:
  assumes "table_ok tab"
  shows "entries (set_max_size m tab) = fitting m (entries tab)"
    and "max_size (set_max_size m tab) = m" and "table_ok (set_max_size m tab)"
  using assms fitting_cost [of m "entries tab"]
  by (simp_all add: set_max_size_def table_ok_def evict_to_fitting)

text \<open>The dynamic table on any insertion or resize: eviction never meets an empty table (the
  \<^verbatim>\<open>expect\<close> cannot fail), the size is the sum of the entries' costs and within the bound, the
  entries kept are the longest newest-first run that fits, and an entry larger than the whole
  table empties it and is not stored.\<close>

theorem dynamic_table_bounded:
  assumes "table_ok tab"
  shows "evict_loop target (entries tab) (table_octets tab) \<noteq> None
    \<and> table_ok (table_insert n v tab) \<and> table_ok (set_max_size m tab)
    \<and> (entry_cost (n, v) > max_size tab \<longrightarrow> entries (table_insert n v tab) = [])
    \<and> (entry_cost (n, v) \<le> max_size tab \<longrightarrow>
         (\<exists>kept. entries (table_insert n v tab) = (n, v) # kept \<and> prefix kept (entries tab)
            \<and> (\<forall>more. prefix more (entries tab) \<and> entry_cost (n, v) + table_cost more \<le> max_size tab
                 \<longrightarrow> prefix more kept)))"
proof -
  have "evict_loop target (entries tab) (table_octets tab) \<noteq> None"
    using assms by (simp add: table_ok_def evict_loop_fitting)
  moreover have "entry_cost (n, v) = length n + length v + entry_overhead" by (simp add: entry_cost_def)
  moreover have "prefix more (fitting (max_size tab - entry_cost (n, v)) (entries tab))"
    if "prefix more (entries tab)" "entry_cost (n, v) + table_cost more \<le> max_size tab" for more
    using that by (intro fitting_greatest) simp_all
  ultimately show ?thesis
    using table_insert_entries [OF assms, of n v] set_max_size_entries [OF assms, of m]
      fitting_prefix by auto
qed

theorem dynamic_table_bounded_witness:
  "table_ok (table_insert [1] [2] (table_insert [3] [] (dynamic_table_new 64)))"
proof -
  have "table_ok (dynamic_table_new 64)" by (simp add: table_ok_def dynamic_table_new_def)
  from dynamic_table_bounded [OF this, of 0 "[3]" "[]" 64]
  have "table_ok (table_insert [3] [] (dynamic_table_new 64))" by simp
  from dynamic_table_bounded [OF this, of 0 "[1]" "[2]" 64] show ?thesis by simp
qed

subsection \<open>Hostile blocks\<close>

lemma decode_step_table:
  assumes "decode_step cap upd tab first cur = Inr (h, tab', cur')" "table_ok tab" "max_size tab \<le> cap"
  shows "table_ok tab' \<and> max_size tab' \<le> cap"
  using assms
  by (auto simp: decode_step_def table_insert_entries set_max_size_entries split: sum.splits if_splits)

definition list_cost :: "header list \<Rightarrow> nat" where
  "list_cost hs = sum_list (map header_list_size hs)"

lemma list_cost_simps [simp]:
  "list_cost [] = 0" "list_cost (h # hs) = header_list_size h + list_cost hs"
  "list_cost (xs @ ys) = list_cost xs + list_cost ys"
  by (simp_all add: list_cost_def)

text \<open>
  The limit against the unlimited decoder: same table, same failures, and the list if its cost is
  within the limit, the size error otherwise.
\<close>

definition limited :: "nat \<Rightarrow> hpack_error + header list \<Rightarrow> hpack_error + header list" where
  "limited l r =
     (case r of
        Inl e \<Rightarrow> Inl e
      | Inr hs \<Rightarrow> if list_cost hs \<le> l then Inr hs else Inl (HeaderListTooLarge (list_cost hs) l))"

lemma decode_loop_limited:
  assumes "list_cost all = n" "hs = (if n \<le> l then all else [])" "ov = (if n \<le> l then None else Some l)"
  shows "decode_loop cap (Some l) tab cur hs n ov upd =
     (let (r, tab') = decode_loop cap None tab cur all n None upd in (limited l r, tab'))"
  using assms
proof (induction cur arbitrary: tab hs n ov upd all rule: measure_induct_rule [where f = length])
  case (less cur)
  show ?case
  proof (cases cur)
    case Nil
    with less.prems show ?thesis by (simp add: limited_def)
  next
    case (Cons first rest)
    show ?thesis
    proof (cases "decode_step cap upd tab first rest")
      case (Inl e)
      with Cons show ?thesis by (simp add: limited_def)
    next
      case (Inr res)
      obtain h tab1 cur1 where res: "res = (h, tab1, cur1)" by (cases res)
      with Inr have shorter: "length cur1 < length cur"
        using decode_step_length [of cap upd tab first rest h tab1 cur1] Cons by simp
      show ?thesis
      proof (cases h)
        case None
        then show ?thesis
          using less.IH [OF shorter less.prems] Cons Inr res by simp
      next
        case (Some hd)
        let ?n = "n + header_list_size hd"
        have "list_cost (all @ [hd]) = ?n" using less.prems(1) by simp
        moreover have "accumulate (Some l) ?n hd hs ov =
            (if ?n \<le> l then all @ [hd] else [], if ?n \<le> l then None else Some l)"
          using less.prems(2,3) by (auto simp: accumulate_def)
        moreover have "accumulate None ?n hd all None = (all @ [hd], None)"
          by (simp add: accumulate_def)
        ultimately show ?thesis
          using less.IH [OF shorter _ refl refl] Cons Inr res Some by simp
      qed
    qed
  qed
qed

lemma decode_loop_table:
  assumes "table_ok tab" "max_size tab \<le> cap" "decode_loop cap lim tab cur hs n ov upd = (r, tab')"
  shows "table_ok tab' \<and> max_size tab' \<le> cap"
  using assms
proof (induction cur arbitrary: tab hs n ov upd rule: measure_induct_rule [where f = length])
  case (less cur)
  show ?case
  proof (cases cur)
    case Nil
    with less.prems show ?thesis by simp
  next
    case (Cons first rest)
    show ?thesis
    proof (cases "decode_step cap upd tab first rest")
      case (Inl e)
      with Cons less.prems show ?thesis by simp
    next
      case (Inr res)
      obtain h tab1 cur1 where res: "res = (h, tab1, cur1)" by (cases res)
      with Inr have step: "decode_step cap upd tab first rest = Inr (h, tab1, cur1)" by simp
      have "length cur1 < length cur" using decode_step_length [OF step] Cons by simp
      from less.IH [OF this] decode_step_table [OF step less.prems(1,2)] less.prems(3) step
      show ?thesis by (auto simp: Cons split: option.splits prod.splits)
    qed
  qed
qed

text \<open>C40. The HPACK-bomb guard. On any octets, from any decoder whose table is consistent and within
  the advertised capacity: the table stays so; a list that is returned costs at most the
  limit; and the limit only ever replaces a successful result by the size error, with the full
  size of the list, so that the table (which must follow the peer's) and every other failure
  are those of a decoder without a limit.\<close>

theorem hpack_bomb_guard:
  assumes "table_ok (dec_table d)" "max_size (dec_table d) \<le> capacity d"
    and "max_header_list_size d = Some l"
    and "hpack_decode block d = (r, d')"
    and "hpack_decode block (d\<lparr>max_header_list_size := None\<rparr>) = (r0, d0)"
  shows "table_ok (dec_table d') \<and> max_size (dec_table d') \<le> capacity d'
    \<and> dec_table d' = dec_table d0
    \<and> r = (case r0 of
             Inl e \<Rightarrow> Inl e
           | Inr hs \<Rightarrow> if list_cost hs \<le> l then Inr hs else Inl (HeaderListTooLarge (list_cost hs) l))"
proof -
  obtain ra ta where a: "decode_loop (capacity d) None (dec_table d) block [] 0 None True = (ra, ta)"
    by fastforce
  then have "decode_loop (capacity d) (Some l) (dec_table d) block [] 0 None True = (limited l ra, ta)"
    by (subst decode_loop_limited [of "[]"]) simp_all
  with a assms(3-5) have "r = limited l ra" "d' = d\<lparr>dec_table := ta\<rparr>" "r0 = ra" "dec_table d0 = ta"
    by (auto simp: hpack_decode_def)
  with decode_loop_table [OF assms(1,2) a] show ?thesis by (simp add: limited_def)
qed

theorem hpack_bomb_guard_witness:
  "fst (hpack_decode [0x82, 0x84] (hpack_decoder_new 4096 (Some 50)))
     = Inl (HeaderListTooLarge 80 50)"
proof -
  let ?d = "hpack_decoder_new 4096 (Some 50)"
  have unlimited: "hpack_decode [0x82, 0x84] (?d\<lparr>max_header_list_size := None\<rparr>) =
      (Inr [\<lparr>hdr_name = ascii '':method'', hdr_value = ascii ''GET'', sensitive = False\<rparr>,
            \<lparr>hdr_name = ascii '':path'', hdr_value = ascii ''/'', sensitive = False\<rparr>],
       ?d\<lparr>max_header_list_size := None\<rparr>)"
    by code_simp
  obtain r d' where run: "hpack_decode [0x82, 0x84] ?d = (r, d')" by fastforce
  have "r = Inl (HeaderListTooLarge 80 50)"
    using hpack_bomb_guard [OF _ _ _ run unlimited, of 50]
    by (simp add: hpack_decoder_new_def table_ok_def dynamic_table_new_def header_list_size_def
        ascii_def entry_overhead_def)
  with run show ?thesis by simp
qed

end
