(* ===== verification/Hpack_Lockstep.thy ===== *)
theory Hpack_Lockstep
  imports Hpack_Props
begin

section \<open>HPACK: an encoder and a decoder in conversation\<close>

text \<open>
  The relation that the two tables keep is that the encoder's is consistent, has the decoder's
  bound, and is a newest-first prefix of the decoder's: every index the encoder can name means
  the same to the decoder. Without resizes the tables are equal.
\<close>

subsection \<open>Finding and looking up\<close>

lemma length_static_entries [simp]: "length static_entries = 61"
  by (simp add: static_entries_def static_strings_def)

lemma static_len [simp]: "static_len = 61"
  by (simp add: static_len_def)

lemma find_in_full:
  "find_in es index n v no = Inl i \<Longrightarrow> \<exists>k < length es. i = index + k \<and> es ! k = (n, v)"
proof (induction es index n v no rule: find_in.induct)
  case (2 n' v' es index n v no)
  then show ?case
  proof (cases "n' = n \<and> v' = v")
    case False
    with 2 obtain k where "k < length es" "i = index + 1 + k" "es ! k = (n, v)"
      by (fastforce split: if_splits)
    then show ?thesis by (intro exI [of _ "Suc k"]) simp
  qed (auto intro!: exI [of _ 0])
qed simp

lemma find_in_name:
  "find_in es index n v no = Inr (Some i) \<Longrightarrow>
     no = Some i \<or> (\<exists>k < length es. i = index + k \<and> fst (es ! k) = n)"
proof (induction es index n v no rule: find_in.induct)
  case (2 n' v' es index n v no)
  show ?case
  proof (cases "n' = n")
    case True
    with 2(3) have v: "v' \<noteq> v" by auto
    with 2(1) [OF True v] 2(3) True
    have "(case no of None \<Rightarrow> Some index | Some j \<Rightarrow> Some j) = Some i
        \<or> (\<exists>k < length es. i = index + 1 + k \<and> fst (es ! k) = n)" by simp
    then show ?thesis
    proof
      assume "\<exists>k < length es. i = index + 1 + k \<and> fst (es ! k) = n"
      then obtain k where "k < length es" "i = index + 1 + k" "fst (es ! k) = n" by blast
      then show ?thesis by (intro disjI2 exI [of _ "Suc k"]) simp
    qed (use True in \<open>auto split: option.splits intro!: exI [of _ 0]\<close>)
  next
    case False
    with 2 have "no = Some i \<or> (\<exists>k < length es. i = index + 1 + k \<and> fst (es ! k) = n)" by simp
    then show ?thesis
    proof
      assume "\<exists>k < length es. i = index + 1 + k \<and> fst (es ! k) = n"
      then obtain k where "k < length es" "i = index + 1 + k" "fst (es ! k) = n" by blast
      then show ?thesis by (intro disjI2 exI [of _ "Suc k"]) simp
    qed simp
  qed
qed simp

text \<open>Wire indices over both tables.\<close>

lemma lookup_static: "k < 61 \<Longrightarrow> lookup_index tab (1 + k) = Inr (static_entries ! k)"
  by (simp add: lookup_index_def static_get_def)

lemma lookup_dynamic: "k < length (entries tab) \<Longrightarrow> lookup_index tab (62 + k) = Inr (entries tab ! k)"
  by (simp add: lookup_index_def table_get_def)

lemma nth_prefix: "prefix xs ys \<Longrightarrow> k < length xs \<Longrightarrow> k < length ys \<and> ys ! k = xs ! k"
  by (auto simp: prefix_def nth_append)

lemma find_match_full:
  assumes "find_match tab n v = FullMatch i" "prefix (entries tab) (entries dec)"
  shows "lookup_index dec i = Inr (n, v) \<and> 0 < i \<and> i \<le> 61 + length (entries tab)"
proof -
  have "(\<exists>k < 61. i = 1 + k \<and> static_entries ! k = (n, v))
      \<or> (\<exists>k < length (entries tab). i = 62 + k \<and> entries tab ! k = (n, v))"
    using assms(1) find_in_full [of static_entries 1 n v None i]
      find_in_full [of "entries tab" 62 n v _ i]
    by (fastforce simp: find_match_def split: sum.splits option.splits)
  then show ?thesis
    using lookup_static lookup_dynamic nth_prefix [OF assms(2)] by fastforce
qed

lemma find_match_name:
  assumes "find_match tab n v = NameMatch i" "prefix (entries tab) (entries dec)"
  shows "(\<exists>v'. lookup_index dec i = Inr (n, v')) \<and> 0 < i \<and> i \<le> 61 + length (entries tab)"
proof -
  obtain no where no: "find_in static_entries 1 n v None = Inr no"
      "find_in (entries tab) 62 n v no = Inr (Some i)"
    using assms(1) by (auto simp: find_match_def split: sum.splits option.splits)
  have "(\<exists>k < 61. i = 1 + k \<and> fst (static_entries ! k) = n)
      \<or> (\<exists>k < length (entries tab). i = 62 + k \<and> fst (entries tab ! k) = n)"
    using find_in_name [OF no(2)] find_in_name [of static_entries 1 n v None i] no(1) by auto
  then show ?thesis
  proof
    assume "\<exists>k < 61. i = 1 + k \<and> fst (static_entries ! k) = n"
    then obtain k where "k < 61" "i = 1 + k" "fst (static_entries ! k) = n" by blast
    then show ?thesis using lookup_static [of k dec] by (cases "static_entries ! k") simp
  next
    assume "\<exists>k < length (entries tab). i = 62 + k \<and> fst (entries tab ! k) = n"
    then obtain k where k: "k < length (entries tab)" "i = 62 + k" "fst (entries tab ! k) = n" by blast
    with nth_prefix [OF assms(2) k(1)] lookup_dynamic [of k dec] show ?thesis
      by (cases "entries tab ! k") simp
  qed
qed

subsection \<open>One field\<close>

definition in_step :: "dynamic_table \<Rightarrow> dynamic_table \<Rightarrow> bool" where
  "in_step enc dec \<longleftrightarrow>
     table_ok enc \<and> table_ok dec \<and> max_size enc = max_size dec \<and> prefix (entries enc) (entries dec)"

lemma entries_few: "table_ok tab \<Longrightarrow> 32 * length (entries tab) \<le> max_size tab"
proof -
  have "32 * length es \<le> table_cost es" for es
    by (induction es) (simp_all add: entry_cost_def entry_overhead_def)
  then show "table_ok tab \<Longrightarrow> ?thesis" unfolding table_ok_def by (metis order_trans)
qed

lemma fitting_mono:
  "prefix xs ys \<Longrightarrow> prefix (fitting room xs) (fitting room ys)"
  using fitting_greatest [of "fitting room xs" ys room] fitting_prefix fitting_cost
  by (metis prefix_order.trans)

lemma in_step_insert: "in_step enc dec \<Longrightarrow> in_step (table_insert n v enc) (table_insert n v dec)"
  by (auto simp: in_step_def table_insert_entries fitting_mono)

lemma in_step_resize: "in_step enc dec \<Longrightarrow> in_step (set_max_size m enc) (set_max_size m dec)"
  by (auto simp: in_step_def set_max_size_entries fitting_mono)

definition sendable_header :: "header \<Rightarrow> bool" where
  "sendable_header h \<longleftrightarrow> length (hdr_name h) \<le> u32_max \<and> length (hdr_value h) \<le> u32_max"

text \<open>A literal: the name is found by index, or sent like the value.\<close>

lemma literal_by_index:
  assumes "selector high p" "0 < i" "i \<le> u32_max" "lookup_index tab i = Inr (n, v')" "length v \<le> u32_max"
  obtains first ext where "encode_int i p high @ encode_string v huff = first # ext"
    "\<And>m. take_bit p m = 0 \<Longrightarrow> first AND m = high AND m"
    "\<And>rest sens. decode_literal tab first p (ext @ rest) sens =
        Inr (\<lparr>hdr_name = n, hdr_value = v, sensitive = sens\<rparr>, rest)"
proof -
  obtain first ext where e: "encode_int i p high = first # ext"
    "\<And>m. take_bit p m = 0 \<Longrightarrow> first AND m = high AND m"
    "\<And>rest. decode_int first p (ext @ rest) = Inr (i, rest)"
    using encode_int_lead [OF assms(1,3)] by metis
  show thesis
    by (rule that [of first "ext @ encode_string v huff"])
      (use assms e in \<open>simp_all add: decode_literal_def decode_encode_string\<close>)
qed

lemma literal_by_name:
  assumes "\<And>cur. decode_int first p cur = Inr (0, cur)" "length n \<le> u32_max" "length v \<le> u32_max"
  shows "decode_literal tab first p (encode_string n huff @ encode_string v huff @ rest) sens =
     Inr (\<lparr>hdr_name = n, hdr_value = v, sensitive = sens\<rparr>, rest)"
  using assms by (simp add: decode_literal_def decode_encode_string)

lemma decode_int_0 [simp]:
  "decode_int 0x10 4 cur = Inr (0, cur)" "decode_int 0x40 6 cur = Inr (0, cur)"
  by (simp_all add: decode_int_def)

text \<open>The four kinds are told apart by the lead octet.\<close>

lemma decode_step_kinds:
  "first AND 0x80 = 0x80 \<Longrightarrow> decode_int first 7 cur = Inr (i, cur') \<Longrightarrow> lookup_index tab i = Inr (n, v) \<Longrightarrow>
     decode_step cap upd tab first cur = Inr (Some \<lparr>hdr_name = n, hdr_value = v, sensitive = False\<rparr>, tab, cur')"
  "first AND 0x80 = 0 \<Longrightarrow> first AND 0xc0 = 0x40 \<Longrightarrow> decode_literal tab first 6 cur False = Inr (h, cur') \<Longrightarrow>
     decode_step cap upd tab first cur = Inr (Some h, table_insert (hdr_name h) (hdr_value h) tab, cur')"
  "first AND 0x80 = 0 \<Longrightarrow> first AND 0xc0 = 0 \<Longrightarrow> first AND 0xe0 = 0 \<Longrightarrow> first AND 0xf0 = 0x10 \<Longrightarrow>
     decode_literal tab first 4 cur True = Inr (h, cur') \<Longrightarrow>
     decode_step cap upd tab first cur = Inr (Some h, tab, cur')"
  "first AND 0x80 = 0 \<Longrightarrow> first AND 0xc0 = 0 \<Longrightarrow> first AND 0xe0 = 0x20 \<Longrightarrow>
     decode_int first 5 cur = Inr (sz, cur') \<Longrightarrow> sz \<le> cap \<Longrightarrow>
     decode_step cap True tab first cur = Inr (None, set_max_size sz tab, cur')"
  by (simp_all add: decode_step_def)

definition decodes_to :: "octets \<Rightarrow> nat \<Rightarrow> bool \<Rightarrow> dynamic_table \<Rightarrow> header \<Rightarrow> dynamic_table \<Rightarrow> bool" where
  "decodes_to out cap upd tab h tab' \<longleftrightarrow>
     (\<exists>first ext. out = first # ext
        \<and> (\<forall>rest. decode_step cap upd tab first (ext @ rest) = Inr (Some h, tab', rest)))"

lemma never_indexed_decodes:
  assumes "0 < i" "i \<le> u32_max" "lookup_index tab i = Inr (n, v')" "length v \<le> u32_max"
  shows "decodes_to (encode_int i 4 0x10 @ encode_string v huff) cap upd tab
     \<lparr>hdr_name = n, hdr_value = v, sensitive = True\<rparr> tab"
proof (rule literal_by_index [OF selector_cases(5) assms, of huff])
  fix first ext
  assume e: "encode_int i 4 0x10 @ encode_string v huff = first # ext"
    "\<And>m. take_bit 4 m = 0 \<Longrightarrow> first AND m = 0x10 AND m"
    "\<And>rest sens. decode_literal tab first 4 (ext @ rest) sens =
        Inr (\<lparr>hdr_name = n, hdr_value = v, sensitive = sens\<rparr>, rest)"
  show ?thesis
    unfolding decodes_to_def
    by (intro exI [of _ first] exI [of _ ext] conjI allI e(1) decode_step_kinds(3)) (simp_all add: e(2,3))
qed

lemma incremental_decodes:
  assumes "0 < i" "i \<le> u32_max" "lookup_index tab i = Inr (n, v')" "length v \<le> u32_max"
  shows "decodes_to (encode_int i 6 0x40 @ encode_string v huff) cap upd tab
     \<lparr>hdr_name = n, hdr_value = v, sensitive = False\<rparr> (table_insert n v tab)"
proof (rule literal_by_index [OF selector_cases(3) assms, of huff])
  fix first ext
  assume e: "encode_int i 6 0x40 @ encode_string v huff = first # ext"
    "\<And>m. take_bit 6 m = 0 \<Longrightarrow> first AND m = 0x40 AND m"
    "\<And>rest sens. decode_literal tab first 6 (ext @ rest) sens =
        Inr (\<lparr>hdr_name = n, hdr_value = v, sensitive = sens\<rparr>, rest)"
  have "decode_step cap upd tab first (ext @ rest) =
      Inr (Some \<lparr>hdr_name = n, hdr_value = v, sensitive = False\<rparr>, table_insert n v tab, rest)" for rest
    using decode_step_kinds(2) [OF _ _ e(3)] by (simp add: e(2))
  with e(1) show ?thesis by (auto simp: decodes_to_def)
qed

lemma indexed_decodes:
  assumes "i \<le> u32_max" "lookup_index tab i = Inr (n, v)"
  shows "decodes_to (encode_int i 7 0x80) cap upd tab \<lparr>hdr_name = n, hdr_value = v, sensitive = False\<rparr> tab"
proof (rule encode_int_lead [OF selector_cases(1) assms(1)])
  fix first ext
  assume e: "encode_int i 7 0x80 = first # ext" "\<And>m. take_bit 7 m = 0 \<Longrightarrow> first AND m = 0x80 AND m"
    "\<And>rest. decode_int first 7 (ext @ rest) = Inr (i, rest)"
  have "decode_step cap upd tab first (ext @ rest) =
      Inr (Some \<lparr>hdr_name = n, hdr_value = v, sensitive = False\<rparr>, tab, rest)" for rest
    by (rule decode_step_kinds(1) [where i = i]) (simp_all add: e assms(2))
  with e(1) show ?thesis by (auto simp: decodes_to_def)
qed

lemma new_name_decodes:
  assumes "length n \<le> u32_max" "length v \<le> u32_max"
  shows "decodes_to (0x10 # encode_string n huff @ encode_string v huff) cap upd tab
      \<lparr>hdr_name = n, hdr_value = v, sensitive = True\<rparr> tab"
    and "decodes_to (0x40 # encode_string n huff @ encode_string v huff) cap upd tab
      \<lparr>hdr_name = n, hdr_value = v, sensitive = False\<rparr> (table_insert n v tab)"
  using assms
  by (simp_all add: decodes_to_def decode_step_def literal_by_name)

lemma encode_one_decodes:
  assumes sync: "in_step enc dec" and small: "max_size enc \<le> u32_max" and h: "sendable_header h"
    and enc: "encode_one huff enc h = (out, enc')"
  shows "\<exists>dec'. decodes_to out cap upd dec h dec' \<and> in_step enc' dec'
     \<and> (sensitive h \<longrightarrow> enc' = enc \<and> dec' = dec) \<and> (enc = dec \<longrightarrow> enc' = dec')"
proof -
  obtain n v s where hd: "h = \<lparr>hdr_name = n, hdr_value = v, sensitive = s\<rparr>" by (cases h)
  have nv: "length n \<le> u32_max" "length v \<le> u32_max" using h by (simp_all add: sendable_header_def hd)
  have pre: "prefix (entries enc) (entries dec)" and ok: "table_ok enc" using sync by (simp_all add: in_step_def)
  have idx: "i \<le> u32_max" if "i \<le> 61 + length (entries enc)" for i
    using that entries_few [OF ok] small by linarith
  show ?thesis
  proof (cases "find_match enc n v")
    case (FullMatch i)
    note f = find_match_full [OF this pre]
    from f have "0 < i" "i \<le> u32_max" "lookup_index dec i = Inr (n, v)" using idx by auto
    with enc FullMatch nv sync never_indexed_decodes indexed_decodes show ?thesis
      by (cases s) (auto simp: hd encode_one_def Let_def intro!: exI [of _ dec])
  next
    case (NameMatch i)
    note f = find_match_name [OF this pre]
    then obtain v' where i: "0 < i" "i \<le> u32_max" "lookup_index dec i = Inr (n, v')" using idx by auto
    show ?thesis
    proof (cases s)
      case True
      have "out = encode_int i 4 0x10 @ encode_string v huff" "enc' = enc"
        using enc NameMatch True by (simp_all add: hd encode_one_def Let_def)
      with never_indexed_decodes [OF i nv(2)] sync True show ?thesis by (auto simp: hd)
    next
      case False
      have "out = encode_int i 6 0x40 @ encode_string v huff" "enc' = table_insert n v enc"
        using enc NameMatch False by (simp_all add: hd encode_one_def Let_def)
      with incremental_decodes [OF i nv(2)] in_step_insert [OF sync] False show ?thesis
        by (intro exI [of _ "table_insert n v dec"]) (simp add: hd)
    qed
  next
    case NoMatch
    show ?thesis
    proof (cases s)
      case True
      have "out = 0x10 # encode_string n huff @ encode_string v huff" "enc' = enc"
        using enc NoMatch True by (simp_all add: hd encode_one_def Let_def)
      with new_name_decodes(1) [OF nv] sync True show ?thesis by (auto simp: hd)
    next
      case False
      have "out = 0x40 # encode_string n huff @ encode_string v huff" "enc' = table_insert n v enc"
        using enc NoMatch False by (simp_all add: hd encode_one_def Let_def)
      with new_name_decodes(2) [OF nv] in_step_insert [OF sync] False show ?thesis
        by (intro exI [of _ "table_insert n v dec"]) (simp add: hd)
    qed
  qed
qed

subsection \<open>One block\<close>

lemma encode_one_max_size:
  "table_ok enc \<Longrightarrow> encode_one huff enc h = (out, enc') \<Longrightarrow> max_size enc' = max_size enc"
  by (auto simp: encode_one_def Let_def table_insert_entries split: if_splits table_match.splits)

lemma decode_loop_decodes:
  assumes "\<And>upd. decodes_to out cap upd tab h tab'"
  shows "decode_loop cap None tab (out @ rest) hs n None upd =
     decode_loop cap None tab' rest (hs @ [h]) (n + header_list_size h) None False"
proof -
  obtain first ext where out: "out = first # ext"
      "\<And>rest. decode_step cap upd tab first (ext @ rest) = Inr (Some h, tab', rest)"
    using assms [of upd] by (auto simp: decodes_to_def)
  then show ?thesis by (simp add: accumulate_def)
qed

lemma encode_all_decodes:
  assumes "in_step enc dec" "max_size enc \<le> u32_max" "\<forall>h \<in> set hs. sendable_header h"
    and "encode_all huff enc hs = (out, enc')"
  shows "\<exists>dec'. in_step enc' dec' \<and> max_size enc' = max_size enc \<and> (enc = dec \<longrightarrow> enc' = dec')
     \<and> (\<forall>hs0 n upd. decode_loop cap None dec out hs0 n None upd = (Inr (hs0 @ hs), dec'))"
  using assms
proof (induction hs arbitrary: enc dec out)
  case Nil
  then show ?case by auto
next
  case (Cons h hs)
  obtain o1 enc1 where one: "encode_one huff enc h = (o1, enc1)" by fastforce
  obtain o2 where rest: "encode_all huff enc1 hs = (o2, enc')" "out = o1 @ o2"
    using Cons.prems(4) one by (auto split: prod.splits)
  have h: "sendable_header h" and hs: "\<forall>h \<in> set hs. sendable_header h" using Cons.prems(3) by auto
  have ok: "table_ok enc" using Cons.prems(1) by (simp add: in_step_def)
  have m: "max_size enc1 = max_size enc" by (rule encode_one_max_size [OF ok one])
  have d: "\<exists>dec1. decodes_to o1 cap upd dec h dec1 \<and> in_step enc1 dec1 \<and> (enc = dec \<longrightarrow> enc1 = dec1)" for upd
    using encode_one_decodes [OF Cons.prems(1,2) h one, of cap upd] by blast
  obtain dec1 where dec1: "\<And>upd. decodes_to o1 cap upd dec h dec1" "in_step enc1 dec1"
      "enc = dec \<longrightarrow> enc1 = dec1"
  proof -
    from d [of False] obtain dec1 where 1: "decodes_to o1 cap False dec h dec1" "in_step enc1 dec1"
      "enc = dec \<longrightarrow> enc1 = dec1" by blast
    from d [of True] obtain dec2 where 2: "decodes_to o1 cap True dec h dec2" by blast
    from 1(1) obtain first ext where f: "o1 = first # ext"
      "\<And>rest. decode_step cap False dec first (ext @ rest) = Inr (Some h, dec1, rest)"
      by (auto simp: decodes_to_def)
    with 2 have t: "\<And>rest. decode_step cap True dec first (ext @ rest) = Inr (Some h, dec2, rest)"
      by (auto simp: decodes_to_def)
    have "decode_step cap True dec first (ext @ []) = decode_step cap False dec first (ext @ [])"
      using f(2) [of "[]"] t [of "[]"]
      by (auto simp: decode_step_def split: if_splits sum.splits)
    with f(2) [of "[]"] t [of "[]"] have "dec2 = dec1" by simp
    with 1 2 that show thesis by (metis (full_types))
  qed
  obtain dec' where dec': "in_step enc' dec'" "max_size enc' = max_size enc1" "enc1 = dec1 \<longrightarrow> enc' = dec'"
      "\<And>hs0 n upd. decode_loop cap None dec1 o2 hs0 n None upd = (Inr (hs0 @ hs), dec')"
    using Cons.IH [OF dec1(2) _ hs rest(1)] m Cons.prems(2) by auto
  have "decode_loop cap None dec out hs0 n None upd = (Inr (hs0 @ h # hs), dec')" for hs0 n upd
    unfolding rest(2) decode_loop_decodes [OF dec1(1)] dec'(4) by simp
  with dec' dec1(3) m show ?case by auto
qed

subsection \<open>The conversation\<close>

datatype hpack_op = Resize nat | Block "header list"

fun converse :: "hpack_op list \<Rightarrow> hpack_encoder \<Rightarrow> hpack_decoder
    \<Rightarrow> (hpack_error + header list) list \<times> hpack_encoder \<times> hpack_decoder" where
  "converse [] e d = ([], e, d)"
| "converse (Resize m # ops) e d = converse ops (set_max_table_size m e) d"
| "converse (Block hs # ops) e d =
     (let (out, e') = hpack_encode hs e; (r, d') = hpack_decode out d;
          (rs, e'', d'') = converse ops e' d'
      in (r # rs, e'', d''))"

fun blocks :: "hpack_op list \<Rightarrow> header list list" where
  "blocks [] = []"
| "blocks (Resize m # ops) = blocks ops"
| "blocks (Block hs # ops) = hs # blocks ops"

definition under_limit :: "nat option \<Rightarrow> header list \<Rightarrow> hpack_error + header list" where
  "under_limit lim hs = (case lim of None \<Rightarrow> Inr hs | Some l \<Rightarrow> limited l (Inr hs))"

definition synced :: "hpack_encoder \<Rightarrow> hpack_decoder \<Rightarrow> bool" where
  "synced e d \<longleftrightarrow>
     table_ok (enc_table e) \<and> table_ok (dec_table d)
     \<and> prefix (entries (enc_table e)) (entries (dec_table d))
     \<and> max_size (enc_table e) \<le> capacity d \<and> capacity d \<le> u32_max
     \<and> (case pending_size_update e of
          None \<Rightarrow> max_size (enc_table e) = max_size (dec_table d)
        | Some m \<Rightarrow> m = max_size (enc_table e))"

lemma synced_resize: "synced e d \<Longrightarrow> m \<le> capacity d \<Longrightarrow> synced (set_max_table_size m e) d"
  by (auto simp: synced_def set_max_table_size_def set_max_size_entries
      intro: prefix_order.trans [OF fitting_prefix])

text \<open>The size update that opens a block brings the bounds together.\<close>

lemma decode_pending:
  assumes "synced e d"
  defines "start \<equiv> (case pending_size_update e of None \<Rightarrow> [] | Some m \<Rightarrow> encode_int m 5 0x20)"
  shows "\<exists>tab. in_step (enc_table e) tab
     \<and> (pending_size_update e = None \<longrightarrow> tab = dec_table d)
     \<and> (\<forall>rest. decode_loop (capacity d) lim (dec_table d) (start @ rest) [] 0 None True =
          decode_loop (capacity d) lim tab rest [] 0 None True)"
proof (cases "pending_size_update e")
  case None
  with assms show ?thesis by (auto simp: synced_def in_step_def)
next
  case (Some m)
  then have m: "m = max_size (enc_table e)" "m \<le> capacity d" "m \<le> u32_max"
    using assms(1) by (simp_all add: synced_def)
  let ?tab = "set_max_size m (dec_table d)"
  have ok: "table_ok (enc_table e)" "table_ok (dec_table d)"
    "prefix (entries (enc_table e)) (entries (dec_table d))"
    using assms(1) by (simp_all add: synced_def)
  moreover from this(1) have "table_cost (entries (enc_table e)) \<le> m"
    using m(1) by (simp add: table_ok_def)
  ultimately have "in_step (enc_table e) ?tab"
    using m(1) by (auto simp: in_step_def set_max_size_entries intro!: fitting_greatest)
  moreover obtain first ext where e: "encode_int m 5 0x20 = first # ext"
    "\<And>k. take_bit 5 k = 0 \<Longrightarrow> first AND k = 0x20 AND k"
    "\<And>rest. decode_int first 5 (ext @ rest) = Inr (m, rest)"
    using encode_int_lead [OF selector_cases(4) m(3)] by metis
  have "decode_step (capacity d) True (dec_table d) first (ext @ rest) = Inr (None, ?tab, rest)" for rest
    using decode_step_kinds(4) [OF _ _ _ e(3) m(2)] by (simp add: e(2))
  ultimately show ?thesis using Some e(1) by (auto simp: start_def)
qed

lemma block_decodes:
  assumes sync: "synced e d" and hs: "\<forall>h \<in> set hs. sendable_header h"
    and enc: "hpack_encode hs e = (out, e')" and dec: "hpack_decode out d = (r, d')"
  shows "r = under_limit (max_header_list_size d) hs \<and> synced e' d' \<and> capacity d' = capacity d
     \<and> max_header_list_size d' = max_header_list_size d \<and> pending_size_update e' = None
     \<and> (enc_table e = dec_table d \<and> pending_size_update e = None \<longrightarrow> enc_table e' = dec_table d')"
proof -
  define start where "start = (case pending_size_update e of None \<Rightarrow> [] | Some m \<Rightarrow> encode_int m 5 0x20)"
  obtain body tab where body: "encode_all (huffman_on e) (enc_table e) hs = (body, tab)" by fastforce
  have out: "out = start @ body" and e': "e' = e\<lparr>enc_table := tab, pending_size_update := None\<rparr>"
    using enc body by (auto simp: hpack_encode_def start_def Let_def)
  obtain dec0 where dec0: "in_step (enc_table e) dec0"
      "pending_size_update e = None \<longrightarrow> dec0 = dec_table d"
      "\<And>rest. decode_loop (capacity d) None (dec_table d) (start @ rest) [] 0 None True =
          decode_loop (capacity d) None dec0 rest [] 0 None True"
    using decode_pending [OF sync, of None, folded start_def] by auto
  have small: "max_size (enc_table e) \<le> u32_max" using sync by (simp add: synced_def)
  obtain dec1 where dec1: "in_step tab dec1" "max_size tab = max_size (enc_table e)"
      "enc_table e = dec0 \<longrightarrow> tab = dec1"
      "\<And>hs0 n upd. decode_loop (capacity d) None dec0 body hs0 n None upd = (Inr (hs0 @ hs), dec1)"
    using encode_all_decodes [OF dec0(1) small hs body] by blast
  have unlimited: "decode_loop (capacity d) None (dec_table d) out [] 0 None True = (Inr hs, dec1)"
    unfolding out dec0(3) dec1(4) by simp
  have "decode_loop (capacity d) (max_header_list_size d) (dec_table d) out [] 0 None True =
      (under_limit (max_header_list_size d) hs, dec1)"
  proof (cases "max_header_list_size d")
    case None
    with unlimited show ?thesis by (simp add: under_limit_def)
  next
    case (Some l)
    with unlimited show ?thesis
      using decode_loop_limited [of "[]" 0 "[]" l None "capacity d" "dec_table d" out True]
      by (simp add: under_limit_def)
  qed
  with dec have "r = under_limit (max_header_list_size d) hs" "d' = d\<lparr>dec_table := dec1\<rparr>"
    by (simp_all add: hpack_decode_def)
  with dec1 dec0(2) sync show ?thesis by (auto simp: e' synced_def in_step_def)
qed

lemma converse_synced:
  assumes "synced e d" "\<forall>m. Resize m \<in> set ops \<longrightarrow> m \<le> capacity d"
    and "\<forall>hs \<in> set (blocks ops). \<forall>h \<in> set hs. sendable_header h"
    and "converse ops e d = (rs, e', d')"
  shows "rs = map (under_limit (max_header_list_size d)) (blocks ops) \<and> synced e' d'
     \<and> (enc_table e = dec_table d \<and> pending_size_update e = None \<and> (\<forall>m. Resize m \<notin> set ops)
          \<longrightarrow> enc_table e' = dec_table d')"
  using assms
proof (induction ops arbitrary: e d rs)
  case Nil
  then show ?case by simp
next
  case (Cons op ops)
  show ?case
  proof (cases op)
    case (Resize m)
    then have "synced (set_max_table_size m e) d" using synced_resize Cons.prems(1,2) by simp
    with Cons Resize show ?thesis by auto
  next
    case (Block hs)
    obtain out e1 where enc: "hpack_encode hs e = (out, e1)" by fastforce
    obtain r d1 where dec: "hpack_decode out d = (r, d1)" by fastforce
    obtain rs' where rest: "converse ops e1 d1 = (rs', e', d')" "rs = r # rs'"
      using Cons.prems(4) Block enc dec by (auto split: prod.splits)
    have "\<forall>h \<in> set hs. sendable_header h" using Cons.prems(3) Block by simp
    note b = block_decodes [OF Cons.prems(1) this enc dec]
    from b have s: "synced e1 d1" and c: "capacity d1 = capacity d" by simp_all
    have "\<forall>m. Resize m \<in> set ops \<longrightarrow> m \<le> capacity d1" using Cons.prems(2) c by simp
    moreover have "\<forall>hs \<in> set (blocks ops). \<forall>h \<in> set hs. sendable_header h"
      using Cons.prems(3) Block by simp
    ultimately show ?thesis using Cons.IH [OF s _ _ rest(1)] b rest(2) Block by auto
  qed
qed

text \<open>C15. Lockstep: an encoder and a decoder that start with the same bound, with any sequence of
  header blocks and table resizes up to the decoder's capacity in between, Huffman coding on or
  off: every block decodes to exactly the header list that was encoded, sensitivity marks
  included, or to the size error when the list is over the decoder's limit (after which the later
  blocks still decode); and without resizes the two tables are equal at the end.\<close>

theorem header_lists_survive_the_conversation:
  assumes "cap \<le> u32_max" "\<forall>m. Resize m \<in> set ops \<longrightarrow> m \<le> cap"
    and "\<forall>hs \<in> set (blocks ops). \<forall>h \<in> set hs. sendable_header h"
    and "converse ops (set_huffman on (hpack_encoder_new cap)) (hpack_decoder_new cap lim) = (rs, e, d)"
  shows "rs = map (under_limit lim) (blocks ops)
     \<and> prefix (entries (enc_table e)) (entries (dec_table d))
     \<and> ((\<forall>m. Resize m \<notin> set ops) \<longrightarrow> enc_table e = dec_table d)"
proof -
  have "synced (set_huffman on (hpack_encoder_new cap)) (hpack_decoder_new cap lim)"
    using assms(1) by (simp add: synced_def set_huffman_def hpack_encoder_new_def hpack_decoder_new_def
        dynamic_table_new_def table_ok_def)
  from converse_synced [OF this _ assms(3,4)] assms(2) show ?thesis
    by (auto simp: synced_def set_huffman_def hpack_encoder_new_def hpack_decoder_new_def)
qed

definition sample_field :: header where
  "sample_field = \<lparr>hdr_name = ascii ''x'', hdr_value = ascii ''y'', sensitive = False\<rparr>"

theorem header_lists_survive_the_conversation_witness:
  "fst (converse [Block [sample_field], Resize 64, Block [sample_field, sample_field]]
        (set_huffman True (hpack_encoder_new 4096)) (hpack_decoder_new 4096 (Some 40)))
     = [Inr [sample_field], Inl (HeaderListTooLarge 68 40)]"
proof -
  let ?ops = "[Block [sample_field], Resize 64, Block [sample_field, sample_field]]"
  obtain rs e d where run: "converse ?ops (set_huffman True (hpack_encoder_new 4096))
      (hpack_decoder_new 4096 (Some 40)) = (rs, e, d)"
    by (metis prod.exhaust)
  have "rs = map (under_limit (Some 40)) (blocks ?ops)"
    by (rule header_lists_survive_the_conversation [THEN conjunct1, OF _ _ _ run])
      (auto simp: sendable_header_def sample_field_def ascii_def)
  with run show ?thesis
    by (simp add: under_limit_def limited_def list_cost_def header_list_size_def sample_field_def
        ascii_def entry_overhead_def)
qed

lemma never_indexed_lead: "i \<le> u32_max \<Longrightarrow> hd (encode_int i 4 0x10 @ xs) AND 0xf0 = 0x10"
proof (rule encode_int_lead [OF selector_cases(5), of i])
  fix first ext
  assume "encode_int i 4 0x10 = first # ext" "\<And>m. take_bit 4 m = 0 \<Longrightarrow> first AND m = 0x10 AND m"
  then show ?thesis by simp
qed

text \<open>Sensitive fields are never stored: encoding and decoding one leaves both tables as they
  were, and its lead octet is that of the never-indexed representation.\<close>

theorem sensitive_fields_never_stored:
  assumes "in_step enc dec" "max_size enc \<le> u32_max" "sendable_header h" "sensitive h"
    and "encode_one huff enc h = (out, enc')"
  shows "enc' = enc \<and> hd out AND 0xf0 = 0x10
     \<and> decode_step cap upd dec (hd out) (tl out @ rest) = Inr (Some h, dec, rest)"
proof -
  obtain dec' where d: "decodes_to out cap upd dec h dec'" "enc' = enc" "dec' = dec"
    using encode_one_decodes [OF assms(1-3,5)] assms(4) by blast
  have "hd out AND 0xf0 = 0x10"
  proof (cases "find_match enc (hdr_name h) (hdr_value h)")
    case NoMatch
    with assms(4,5) show ?thesis by (auto simp: encode_one_def Let_def)
  next
    case (FullMatch i)
    then have "i \<le> 61 + length (entries enc)"
      using find_match_full [of enc _ _ i enc] by auto
    then have "i \<le> u32_max" using entries_few assms(1,2) by (fastforce simp: in_step_def)
    with FullMatch assms(4,5) show ?thesis by (auto simp: encode_one_def Let_def never_indexed_lead)
  next
    case (NameMatch i)
    then have "i \<le> 61 + length (entries enc)"
      using find_match_name [of enc _ _ i enc] by auto
    then have "i \<le> u32_max" using entries_few assms(1,2) by (fastforce simp: in_step_def)
    with NameMatch assms(4,5) show ?thesis by (auto simp: encode_one_def Let_def never_indexed_lead)
  qed
  with d show ?thesis by (auto simp: decodes_to_def)
qed

theorem sensitive_fields_never_stored_witness:
  "hd (fst (encode_one False (dynamic_table_new 100) (sample_field\<lparr>sensitive := True\<rparr>))) AND 0xf0 = 0x10
   \<and> snd (encode_one False (dynamic_table_new 100) (sample_field\<lparr>sensitive := True\<rparr>))
       = dynamic_table_new 100"
proof -
  let ?tab = "dynamic_table_new 100" and ?h = "sample_field\<lparr>sensitive := True\<rparr>"
  obtain out enc' where run: "encode_one False ?tab ?h = (out, enc')" by fastforce
  have "in_step ?tab ?tab" by (simp add: in_step_def table_ok_def dynamic_table_new_def)
  moreover have "max_size ?tab \<le> u32_max" by (simp add: dynamic_table_new_def)
  moreover have "sendable_header ?h" by (simp add: sendable_header_def sample_field_def ascii_def)
  ultimately have "enc' = ?tab \<and> hd out AND 0xf0 = 0x10
     \<and> decode_step 100 True ?tab (hd out) (tl out @ []) = Inr (Some ?h, ?tab, [])"
    by (rule sensitive_fields_never_stored [OF _ _ _ _ run]) simp
  then show ?thesis using run by simp
qed

text \<open>Two resizes between blocks lose the smaller one: after the bound goes down to nothing and
  back up, the encoder has evicted everything, but the only size update it sends is the last one,
  at which the decoder evicts nothing; the tables differ from then on. (RFC 7541, section 4.2,
  asks for the smallest bound of the interval to be signalled first.)\<close>

theorem smaller_resize_not_signalled:
  assumes "synced e d" "pending_size_update e = None" "0 < max_size (enc_table e)"
    and "hpack_encode [] (set_max_table_size (max_size (enc_table e)) (set_max_table_size 0 e)) = (out, e')"
    and "hpack_decode out d = (r, d')"
  shows "entries (enc_table e') = [] \<and> entries (dec_table d') = entries (dec_table d)"
proof -
  let ?m = "max_size (enc_table e)"
  have ok: "table_ok (enc_table e)" "table_ok (dec_table d)" "?m = max_size (dec_table d)"
      "?m \<le> capacity d" "?m \<le> u32_max"
    using assms(1,2) by (simp_all add: synced_def)
  have z: "fitting 0 es = []" for es
    by (cases es) (simp_all add: entry_cost_def entry_overhead_def)
  have e1: "set_max_table_size ?m (set_max_table_size 0 e) =
      e\<lparr>enc_table := set_max_size ?m (set_max_size 0 (enc_table e)), pending_size_update := Some ?m\<rparr>"
    using assms(3) ok by (simp add: set_max_table_size_def set_max_size_entries)
  have out: "out = encode_int ?m 5 0x20"
    and e': "entries (enc_table e') = []"
    using assms(4) ok(1) by (auto simp: e1 hpack_encode_def set_max_size_entries z)
  obtain first ext where l: "encode_int ?m 5 0x20 = first # ext"
    "\<And>k. take_bit 5 k = 0 \<Longrightarrow> first AND k = 0x20 AND k"
    "\<And>rest. decode_int first 5 (ext @ rest) = Inr (?m, rest)"
    using encode_int_lead [OF selector_cases(4) ok(5)] by metis
  have "decode_step (capacity d) True (dec_table d) first (ext @ []) =
      Inr (None, set_max_size ?m (dec_table d), [])"
    by (rule decode_step_kinds(4) [OF _ _ _ l(3) ok(4)]) (simp_all add: l(2))
  then have "dec_table d' = set_max_size ?m (dec_table d)"
    using assms(5) by (auto simp: hpack_decode_def out l(1))
  moreover have "fitting ?m (entries (dec_table d)) = entries (dec_table d)"
    using ok(2,3) by (intro fitting_all) (simp add: table_ok_def)
  ultimately show ?thesis using e' ok(2) by (simp add: set_max_size_entries)
qed

theorem smaller_resize_not_signalled_witness:
  "let e = (hpack_encoder_new 64)\<lparr>enc_table := table_insert [1] [2] (dynamic_table_new 64)\<rparr>;
       d = (hpack_decoder_new 64 None)\<lparr>dec_table := table_insert [1] [2] (dynamic_table_new 64)\<rparr>;
       (out, e') = hpack_encode [] (set_max_table_size 64 (set_max_table_size 0 e));
       (r, d') = hpack_decode out d
   in entries (enc_table e') = [] \<and> entries (dec_table d') = [([1], [2])]"
proof -
  let ?t = "table_insert [1] [2] (dynamic_table_new 64)"
  let ?e = "(hpack_encoder_new 64)\<lparr>enc_table := ?t\<rparr>" and ?d = "(hpack_decoder_new 64 None)\<lparr>dec_table := ?t\<rparr>"
  have new: "table_ok (dynamic_table_new 64)" by (simp add: table_ok_def dynamic_table_new_def)
  have t: "table_ok ?t" "max_size ?t = 64" "entries ?t = [([1], [2])]"
    using table_insert_entries [OF new, of "[1]" "[2]"]
    by (simp_all add: dynamic_table_new_def entry_overhead_def)
  have sync: "synced ?e ?d" "pending_size_update ?e = None"
    using t by (simp_all add: synced_def hpack_encoder_new_def hpack_decoder_new_def)
  obtain out e' where enc: "hpack_encode [] (set_max_table_size 64 (set_max_table_size 0 ?e)) = (out, e')"
    by fastforce
  obtain r d' where dec: "hpack_decode out ?d = (r, d')" by fastforce
  have "entries (enc_table e') = [] \<and> entries (dec_table d') = entries (dec_table ?d)"
    by (rule smaller_resize_not_signalled [OF sync _ _ dec]) (use enc t in simp_all)
  then show ?thesis by (simp add: enc dec t(3))
qed

end
