(* ===== verification/Service_Msg.thy ===== *)
theory Service_Msg
  imports Hpack
begin

section \<open>Messages: validation of requests, trailers and responses\<close>

text \<open>
  \<^verbatim>\<open>core/src/service.rs\<close>: the judgement on decoded header lists, the events a responder answers
  with, and the built-in responder. A responder's method is a function from its state to the
  events it emits and its next state.
\<close>

subsection \<open>Field names and numbers\<close>

definition connection_specific :: "octets list" where
  "connection_specific =
     map ascii [''connection'', ''keep-alive'', ''proxy-connection'', ''transfer-encoding'', ''upgrade'']"

definition is_pseudo :: "octets \<Rightarrow> bool" where
  "is_pseudo name \<longleftrightarrow> name \<noteq> [] \<and> hd name = 0x3a"

definition is_ascii_uppercase :: "u8 \<Rightarrow> bool" where
  "is_ascii_uppercase b \<longleftrightarrow> 0x41 \<le> b \<and> b \<le> 0x5a"

definition is_ascii_digit :: "u8 \<Rightarrow> bool" where
  "is_ascii_digit b \<longleftrightarrow> 0x30 \<le> b \<and> b \<le> 0x39"

text \<open>
  \<^verbatim>\<open>str::parse\<close> of an unsigned integer: an optional plus sign and at least one decimal digit, within
  the type's maximum. (What is not UTF-8 holds an octet that is no digit.)
\<close>

definition digits_value :: "octets \<Rightarrow> nat" where
  "digits_value ds = foldl (\<lambda>n d. 10 * n + (unat d - 48)) 0 ds"

definition parse_unsigned :: "nat \<Rightarrow> octets \<Rightarrow> nat option" where
  "parse_unsigned bound s =
     (let ds = (if s \<noteq> [] \<and> hd s = 0x2b then tl s else s) in
      if ds = [] \<or> \<not> list_all is_ascii_digit ds \<or> bound < digits_value ds then None
      else Some (digits_value ds))"

text \<open>\<^verbatim>\<open>to_string\<close> of an unsigned integer.\<close>

fun show_nat :: "nat \<Rightarrow> octets" where
  "show_nat n = (if n < 10 then [of_nat (48 + n)] else show_nat (n div 10) @ [of_nat (48 + n mod 10)])"

declare show_nat.simps [simp del]

subsection \<open>Requests\<close>

record request_head =
  rq_method :: octets
  rq_scheme :: octets
  rq_authority :: "octets option"
  rq_path :: octets
  rq_fields :: "header list"

text \<open>The variables of the loop in \<^verbatim>\<open>from_headers\<close>.\<close>

record request_slots =
  slot_method :: "octets option"
  slot_scheme :: "octets option"
  slot_authority :: "octets option"
  slot_path :: "octets option"
  slot_fields :: "header list"
  seen_regular :: bool

definition request_slots_new :: request_slots where
  "request_slots_new =
     \<lparr>slot_method = None, slot_scheme = None, slot_authority = None, slot_path = None,
      slot_fields = [], seen_regular = False\<rparr>"

definition request_field :: "header \<Rightarrow> request_slots \<Rightarrow> error_code + request_slots" where
  "request_field h s =
     (let name = hdr_name h; val = hdr_value h in
      if is_pseudo name then
        if seen_regular s then Inl ProtocolError
        else if name = ascii '':method'' then
          if slot_method s \<noteq> None then Inl ProtocolError else Inr (s\<lparr>slot_method := Some val\<rparr>)
        else if name = ascii '':scheme'' then
          if slot_scheme s \<noteq> None then Inl ProtocolError else Inr (s\<lparr>slot_scheme := Some val\<rparr>)
        else if name = ascii '':authority'' then
          if slot_authority s \<noteq> None then Inl ProtocolError else Inr (s\<lparr>slot_authority := Some val\<rparr>)
        else if name = ascii '':path'' then
          if slot_path s \<noteq> None then Inl ProtocolError else Inr (s\<lparr>slot_path := Some val\<rparr>)
        else Inl ProtocolError
      else if name = [] \<or> list_ex is_ascii_uppercase name then Inl ProtocolError
      else if name \<in> set connection_specific then Inl ProtocolError
      else if name = ascii ''te'' \<and> val \<noteq> ascii ''trailers'' then Inl ProtocolError
      else Inr (s\<lparr>seen_regular := True, slot_fields := slot_fields s @ [h]\<rparr>))"

fun request_loop :: "header list \<Rightarrow> request_slots \<Rightarrow> error_code + request_slots" where
  "request_loop [] s = Inr s"
| "request_loop (h # hs) s = (case request_field h s of Inl e \<Rightarrow> Inl e | Inr s' \<Rightarrow> request_loop hs s')"

definition request_from_headers :: "header list \<Rightarrow> error_code + request_head" where
  "request_from_headers headers =
     (case request_loop headers request_slots_new of
        Inl e \<Rightarrow> Inl e
      | Inr s \<Rightarrow>
          (case (slot_method s, slot_scheme s, slot_path s) of
             (Some m, Some sc, Some p) \<Rightarrow>
               if p = [] then Inl ProtocolError
               else Inr \<lparr>rq_method = m, rq_scheme = sc, rq_authority = slot_authority s,
                         rq_path = p, rq_fields = slot_fields s\<rparr>
           | _ \<Rightarrow> Inl ProtocolError))"

definition request_to_headers :: "request_head \<Rightarrow> header list" where
  "request_to_headers r =
     [header_new (ascii '':method'') (rq_method r), header_new (ascii '':scheme'') (rq_scheme r)]
     @ (case rq_authority r of None \<Rightarrow> [] | Some a \<Rightarrow> [header_new (ascii '':authority'') a])
     @ [header_new (ascii '':path'') (rq_path r)] @ rq_fields r"

definition path_only :: "request_head \<Rightarrow> octets" where
  "path_only r = takeWhile (\<lambda>b. b \<noteq> 0x3f) (rq_path r)"

definition request_content_length :: "request_head \<Rightarrow> (error_code + nat) option" where
  "request_content_length r =
     (case List.find (\<lambda>h. hdr_name h = ascii ''content-length'') (rq_fields r) of
        None \<Rightarrow> None
      | Some h \<Rightarrow>
          Some (case parse_unsigned u64_max (hdr_value h) of
                  None \<Rightarrow> Inl ProtocolError
                | Some n \<Rightarrow> Inr n))"

fun validate_trailers :: "header list \<Rightarrow> error_code + unit" where
  "validate_trailers [] = Inr ()"
| "validate_trailers (h # hs) =
     (if is_pseudo (hdr_name h) then Inl ProtocolError
      else if hdr_name h = [] \<or> list_ex is_ascii_uppercase (hdr_name h) then Inl ProtocolError
      else if hdr_name h \<in> set connection_specific then Inl ProtocolError
      else validate_trailers hs)"

subsection \<open>Responses\<close>

record response_head =
  rs_status :: nat
  rs_fields :: "header list"

fun response_loop :: "header list \<Rightarrow> nat option \<Rightarrow> header list \<Rightarrow> bool \<Rightarrow> error_code + nat option \<times> header list" where
  "response_loop [] status acc seen = Inr (status, acc)"
| "response_loop (h # hs) status acc seen =
     (let name = hdr_name h in
      if is_pseudo name then
        if seen \<or> name \<noteq> ascii '':status'' then Inl ProtocolError
        else if status \<noteq> None then Inl ProtocolError
        else
          (case parse_unsigned 65535 (hdr_value h) of
             None \<Rightarrow> Inl ProtocolError
           | Some s \<Rightarrow>
               if 100 \<le> s \<and> s \<le> 599 then response_loop hs (Some s) acc seen
               else Inl ProtocolError)
      else if name = [] \<or> list_ex is_ascii_uppercase name then Inl ProtocolError
      else if name \<in> set connection_specific then Inl ProtocolError
      else response_loop hs status (acc @ [h]) True)"

definition response_from_headers :: "header list \<Rightarrow> error_code + response_head" where
  "response_from_headers headers =
     (case response_loop headers None [] False of
        Inl e \<Rightarrow> Inl e
      | Inr (None, acc) \<Rightarrow> Inl ProtocolError
      | Inr (Some s, acc) \<Rightarrow> Inr \<lparr>rs_status = s, rs_fields = acc\<rparr>)"

definition is_informational :: "response_head \<Rightarrow> bool" where
  "is_informational r \<longleftrightarrow> 100 \<le> rs_status r \<and> rs_status r < 200"

text \<open>A \<^verbatim>\<open>Response\<close> has the same two fields.\<close>

type_synonym response = response_head

definition response_status :: "nat \<Rightarrow> response" where
  "response_status st = \<lparr>rs_status = st, rs_fields = []\<rparr>"

definition response_to_headers :: "response \<Rightarrow> header list" where
  "response_to_headers r = header_new (ascii '':status'') (show_nat (rs_status r)) # rs_fields r"

subsection \<open>Events, and the built-in responder\<close>

datatype service_event =
    EvHead stream_id response bool
  | EvData stream_id octets bool
  | EvTrailers stream_id "header list"
  | EvBodyAccepted stream_id nat
  | EvReset stream_id error_code
  | EvGone stream_id
  | EvShed stream_id

definition max_sized_body :: nat where
  "max_sized_body = 64 * 1024 * 1024"

definition sized_body_request :: "octets \<Rightarrow> nat option" where
  "sized_body_request path =
     (let pre = ascii ''/bytes/'' in
      if List.take (length pre) path \<noteq> pre then None
      else
        let rest = List.drop (length pre) path in
        if rest = [] \<or> \<not> list_all is_ascii_digit rest then None
        else
          let n = (case parse_unsigned u64_max rest of None \<Rightarrow> max_sized_body | Some n \<Rightarrow> n)
          in Some (min n max_sized_body))"

record echo =
  default_body :: nat
  echoing :: "stream_id set"

definition echo_new :: "nat \<Rightarrow> echo" where
  "echo_new n = \<lparr>default_body = n, echoing = {}\<rparr>"

definition echo_dispatch :: "stream_id \<Rightarrow> request_head \<Rightarrow> bool \<Rightarrow> echo \<Rightarrow> service_event list \<times> echo" where
  "echo_dispatch i head end_stream e =
     (case sized_body_request (path_only head) of
        Some n \<Rightarrow>
          (EvHead i \<lparr>rs_status = 200, rs_fields = [header_new (ascii ''content-length'') (show_nat n)]\<rparr> (n = 0)
             # (if 0 < n then [EvData i (replicate n 0x78) True] else []), e)
      | None \<Rightarrow>
          if \<not> end_stream \<and> rq_method head \<noteq> ascii ''GET'' \<and> rq_method head \<noteq> ascii ''HEAD'' then
            ([EvHead i (response_status 200) False], e\<lparr>echoing := insert i (echoing e)\<rparr>)
          else
            ([EvHead i (response_status 200) False, EvData i (replicate (default_body e) 0x78) True], e))"

definition echo_body :: "stream_id \<Rightarrow> octets \<Rightarrow> bool \<Rightarrow> echo \<Rightarrow> service_event list \<times> echo" where
  "echo_body i data end_stream e =
     ((if i \<in> echoing e \<and> (data \<noteq> [] \<or> end_stream) then [EvData i data end_stream] else [])
        @ (let n = length data mod 2 ^ 32 in if 0 < n then [EvBodyAccepted i n] else []),
      if end_stream then e\<lparr>echoing := echoing e - {i}\<rparr> else e)"

definition echo_cancel :: "stream_id \<Rightarrow> echo \<Rightarrow> echo" where
  "echo_cancel i e = e\<lparr>echoing := echoing e - {i}\<rparr>"

end
