(* ===== verification/Service_Props.thy ===== *)
theory Service_Props
  imports Service_Msg
begin

section \<open>Messages: exactly what is accepted, and what is forwarded\<close>

text \<open>
  The request loop keeps four slots and a flag; the specification looks at the header list as a
  whole: pseudo-fields first, each of the four known names at most once, then regular fields. The
  two agree, every rejection is a \<^verbatim>\<open>PROTOCOL_ERROR\<close>, and a request that is forwarded is
  validated to the same request again.
\<close>

subsection \<open>Decimal numbers\<close>

lemma digits_value_snoc: "digits_value (ds @ [d]) = 10 * digits_value ds + (unat d - 48)"
  by (simp add: digits_value_def)

lemma show_nat_value: "digits_value (show_nat n) = n"
proof (induction n rule: show_nat.induct)
  case (1 n)
  show ?case
  proof (cases "n < 10")
    case True
    have "unat (of_nat (48 + n) :: u8) = 48 + n"
      using True by (simp add: unsigned_of_nat take_bit_nat_eq_self del: of_nat_add)
    with True show ?thesis
      by (simp add: show_nat.simps [of n] digits_value_def del: of_nat_add)
  next
    case False
    have "unat (of_nat (48 + n mod 10) :: u8) = 48 + n mod 10"
      by (simp add: unsigned_of_nat take_bit_nat_eq_self del: of_nat_add)
    with False 1 show ?thesis
      by (simp add: show_nat.simps [of n] digits_value_snoc del: of_nat_add)
  qed
qed

lemma show_nat_digits: "show_nat n \<noteq> [] \<and> list_all is_ascii_digit (show_nat n)"
proof (induction n rule: show_nat.induct)
  case (1 n)
  have digit: "is_ascii_digit (of_nat (48 + k))" if "k < 10" for k
    using that by (simp add: is_ascii_digit_def word_le_nat_alt unsigned_of_nat take_bit_nat_eq_self del: of_nat_add)
  show ?case
    using 1 digit [of n] digit [of "n mod 10"] by (auto simp: show_nat.simps [of n] simp del: of_nat_add)
qed

lemma parse_show_nat: "n \<le> bound \<Longrightarrow> parse_unsigned bound (show_nat n) = Some n"
proof -
  have "hd (show_nat n) \<noteq> 0x2b"
    using show_nat_digits [of n] by (cases "show_nat n") (auto simp: is_ascii_digit_def word_le_nat_alt)
  then show "n \<le> bound \<Longrightarrow> ?thesis"
    using show_nat_digits [of n] by (simp add: parse_unsigned_def Let_def show_nat_value)
qed

subsection \<open>The request as a whole\<close>

definition request_pseudos :: "octets list" where
  "request_pseudos = map ascii ['':method'', '':scheme'', '':authority'', '':path'']"

definition regular_ok :: "header \<Rightarrow> bool" where
  "regular_ok h \<longleftrightarrow>
     hdr_name h \<noteq> [] \<and> \<not> is_pseudo (hdr_name h) \<and> list_all (\<lambda>b. \<not> is_ascii_uppercase b) (hdr_name h)
     \<and> hdr_name h \<notin> set connection_specific
     \<and> (hdr_name h = ascii ''te'' \<longrightarrow> hdr_value h = ascii ''trailers'')"

definition pseudo_part :: "header list \<Rightarrow> header list" where
  "pseudo_part hs = takeWhile (\<lambda>h. is_pseudo (hdr_name h)) hs"

definition regular_part :: "header list \<Rightarrow> header list" where
  "regular_part hs = dropWhile (\<lambda>h. is_pseudo (hdr_name h)) hs"

definition pseudo_value :: "string \<Rightarrow> header list \<Rightarrow> octets option" where
  "pseudo_value n hs =
     map_option hdr_value (List.find (\<lambda>h. hdr_name h = ascii n) (pseudo_part hs))"

definition fields_legal :: "header list \<Rightarrow> bool" where
  "fields_legal hs \<longleftrightarrow>
     distinct (map hdr_name (pseudo_part hs))
     \<and> set (map hdr_name (pseudo_part hs)) \<subseteq> set request_pseudos
     \<and> list_all regular_ok (regular_part hs)"

definition slots_of :: "header list \<Rightarrow> request_slots" where
  "slots_of hs =
     \<lparr>slot_method = pseudo_value '':method'' hs, slot_scheme = pseudo_value '':scheme'' hs,
      slot_authority = pseudo_value '':authority'' hs, slot_path = pseudo_value '':path'' hs,
      slot_fields = regular_part hs, seen_regular = (regular_part hs \<noteq> [])\<rparr>"

lemma request_pseudos_are_pseudo: "n \<in> set request_pseudos \<Longrightarrow> is_pseudo n"
  by (auto simp: request_pseudos_def is_pseudo_def ascii_def)

lemma regular_ok_not_pseudo: "regular_ok h \<Longrightarrow> \<not> is_pseudo (hdr_name h)"
  by (simp add: regular_ok_def)

lemma parts_snoc:
  "regular_part hs = [] \<Longrightarrow> is_pseudo (hdr_name h) \<Longrightarrow> pseudo_part (hs @ [h]) = pseudo_part hs @ [h]"
  "regular_part hs = [] \<Longrightarrow> is_pseudo (hdr_name h) \<Longrightarrow> regular_part (hs @ [h]) = []"
  "\<not> is_pseudo (hdr_name h) \<Longrightarrow> pseudo_part (hs @ [h]) = pseudo_part hs"
  "\<not> is_pseudo (hdr_name h) \<Longrightarrow> regular_part (hs @ [h]) = regular_part hs @ [h]"
  "regular_part hs \<noteq> [] \<Longrightarrow> pseudo_part (hs @ [h]) = pseudo_part hs"
  "regular_part hs \<noteq> [] \<Longrightarrow> regular_part (hs @ [h]) = regular_part hs @ [h]"
  by (induction hs) (auto simp: pseudo_part_def regular_part_def split: if_splits)

lemma regular_part_pseudo: "list_all regular_ok (regular_part hs @ [h]) \<Longrightarrow> \<not> is_pseudo (hdr_name h)"
  by (simp add: regular_ok_def)

lemma find_snoc:
  "List.find P (xs @ [x]) = (case List.find P xs of None \<Rightarrow> if P x then Some x else None | Some y \<Rightarrow> Some y)"
  by (induction xs) auto

lemma find_name_None:
  "List.find (\<lambda>h. hdr_name h = n) xs = None \<longleftrightarrow> n \<notin> set (map hdr_name xs)"
  by (auto simp: find_None_iff)

text \<open>One field keeps the slots those of the list read so far, or makes the list illegal.\<close>

lemma request_field_slots:
  assumes "fields_legal hs"
  shows "request_field h (slots_of hs) =
     (if fields_legal (hs @ [h]) then Inr (slots_of (hs @ [h])) else Inl ProtocolError)"
proof (cases "is_pseudo (hdr_name h)")
  case False
  have up: "list_ex is_ascii_uppercase n \<longleftrightarrow> \<not> list_all (\<lambda>b. \<not> is_ascii_uppercase b) n" for n
    by (auto simp: list_ex_iff list_all_iff)
  show ?thesis
    using assms False
    by (auto simp: request_field_def Let_def fields_legal_def slots_of_def parts_snoc pseudo_value_def
        regular_ok_def up)
next
  case True
  show ?thesis
  proof (cases "regular_part hs = []")
    case False
    then have "\<not> fields_legal (hs @ [h])"
      using True by (auto simp: fields_legal_def parts_snoc regular_ok_def)
    with True False show ?thesis by (simp add: request_field_def slots_of_def)
  next
    case reg: True
    note parts = parts_snoc(1,2) [OF reg True]
    have legal: "fields_legal (hs @ [h]) \<longleftrightarrow>
        hdr_name h \<in> set request_pseudos \<and> hdr_name h \<notin> set (map hdr_name (pseudo_part hs))"
      using assms by (auto simp: fields_legal_def parts reg)
    have val: "pseudo_value n (hs @ [h]) =
        (case pseudo_value n hs of None \<Rightarrow> if hdr_name h = ascii n then Some (hdr_value h) else None
         | Some v \<Rightarrow> Some v)" for n
      by (simp add: pseudo_value_def parts find_snoc split: option.split)
    have none: "pseudo_value n hs = None \<longleftrightarrow> ascii n \<notin> set (map hdr_name (pseudo_part hs))" for n
      by (simp add: pseudo_value_def find_name_None del: set_map)
    have dist: "distinct [ascii '':method'', ascii '':scheme'', ascii '':authority'', ascii '':path'']"
      by (simp add: ascii_def)
    have val_other: "ascii n \<noteq> hdr_name h \<Longrightarrow> pseudo_value n (hs @ [h]) = pseudo_value n hs" for n
      by (simp add: val split: option.split)
    have val_same: "hdr_name h = ascii n \<Longrightarrow> pseudo_value n hs = None \<Longrightarrow>
        pseudo_value n (hs @ [h]) = Some (hdr_value h)" for n
      by (simp add: val)
    consider "hdr_name h = ascii '':method''" | "hdr_name h = ascii '':scheme''"
      | "hdr_name h = ascii '':authority''" | "hdr_name h = ascii '':path''"
      | "hdr_name h \<notin> set request_pseudos" by (auto simp: request_pseudos_def)
    then show ?thesis
    proof cases
      case 1
      have "request_field h (slots_of hs) =
          (if pseudo_value '':method'' hs \<noteq> None then Inl ProtocolError else Inr (slots_of (hs @ [h])))"
        using dist val_other val_same [OF 1] True [unfolded 1]
        by (auto simp: request_field_def slots_of_def Let_def 1 reg parts)
      then show ?thesis using none legal 1 by (simp add: request_pseudos_def)
    next
      case 2
      have "request_field h (slots_of hs) =
          (if pseudo_value '':scheme'' hs \<noteq> None then Inl ProtocolError else Inr (slots_of (hs @ [h])))"
        using dist val_other val_same [OF 2] True [unfolded 2]
        by (auto simp: request_field_def slots_of_def Let_def 2 reg parts)
      then show ?thesis using none legal 2 by (simp add: request_pseudos_def)
    next
      case 3
      have "request_field h (slots_of hs) =
          (if pseudo_value '':authority'' hs \<noteq> None then Inl ProtocolError else Inr (slots_of (hs @ [h])))"
        using dist val_other val_same [OF 3] True [unfolded 3]
        by (auto simp: request_field_def slots_of_def Let_def 3 reg parts)
      then show ?thesis using none legal 3 by (simp add: request_pseudos_def)
    next
      case 4
      have "request_field h (slots_of hs) =
          (if pseudo_value '':path'' hs \<noteq> None then Inl ProtocolError else Inr (slots_of (hs @ [h])))"
        using dist val_other val_same [OF 4] True [unfolded 4]
        by (auto simp: request_field_def slots_of_def Let_def 4 reg parts)
      then show ?thesis using none legal 4 by (simp add: request_pseudos_def)
    next
      case 5
      then have "hdr_name h \<noteq> ascii '':method''" "hdr_name h \<noteq> ascii '':scheme''"
          "hdr_name h \<noteq> ascii '':authority''" "hdr_name h \<noteq> ascii '':path''"
        by (simp_all add: request_pseudos_def)
      with 5 True reg legal show ?thesis by (simp add: request_field_def slots_of_def)
    qed
  qed
qed

lemma fields_legal_snocD: "fields_legal (hs @ [h]) \<Longrightarrow> fields_legal hs"
  by (cases "regular_part hs = []"; cases "is_pseudo (hdr_name h)") (auto simp: fields_legal_def parts_snoc)

lemma fields_legal_prefix: "fields_legal (hs @ xs) \<Longrightarrow> fields_legal hs"
proof (induction xs rule: rev_induct)
  case (snoc x xs)
  then show ?case using fields_legal_snocD [of "hs @ xs" x] by simp
qed simp

lemma request_loop_slots:
  "fields_legal hs \<Longrightarrow>
   request_loop xs (slots_of hs) =
     (if fields_legal (hs @ xs) then Inr (slots_of (hs @ xs)) else Inl ProtocolError)"
proof (induction xs arbitrary: hs)
  case (Cons x xs)
  show ?case
  proof (cases "fields_legal (hs @ [x])")
    case True
    then show ?thesis
      using Cons.IH [OF True] by (simp add: request_field_slots [OF Cons.prems])
  next
    case False
    then have "\<not> fields_legal (hs @ x # xs)"
      using fields_legal_prefix [of "hs @ [x]" xs] by auto
    with False show ?thesis by (simp add: request_field_slots [OF Cons.prems])
  qed
qed simp

lemma slots_of_Nil: "slots_of [] = request_slots_new"
  by (simp add: slots_of_def request_slots_new_def pseudo_value_def pseudo_part_def regular_part_def)

lemma fields_legal_Nil: "fields_legal []"
  by (simp add: fields_legal_def pseudo_part_def regular_part_def)

lemma request_loop_spec:
  "request_loop hs request_slots_new = (if fields_legal hs then Inr (slots_of hs) else Inl ProtocolError)"
  using request_loop_slots [OF fields_legal_Nil, of hs] by (simp add: slots_of_Nil)

definition request_legal :: "header list \<Rightarrow> bool" where
  "request_legal hs \<longleftrightarrow>
     fields_legal hs \<and> pseudo_value '':method'' hs \<noteq> None \<and> pseudo_value '':scheme'' hs \<noteq> None
     \<and> pseudo_value '':path'' hs \<notin> {None, Some []}"

definition request_of :: "header list \<Rightarrow> request_head" where
  "request_of hs =
     \<lparr>rq_method = the (pseudo_value '':method'' hs), rq_scheme = the (pseudo_value '':scheme'' hs),
      rq_authority = pseudo_value '':authority'' hs, rq_path = the (pseudo_value '':path'' hs),
      rq_fields = regular_part hs\<rparr>"

lemma request_from_headers_spec:
  "request_from_headers hs = (if request_legal hs then Inr (request_of hs) else Inl ProtocolError)"
  by (cases "fields_legal hs"; cases "pseudo_value '':method'' hs"; cases "pseudo_value '':scheme'' hs";
      cases "pseudo_value '':path'' hs")
    (auto simp: request_from_headers_def request_loop_spec request_legal_def request_of_def slots_of_def)

text \<open>C33. The request validator is its specification on the list as a whole: it accepts exactly the
lists whose pseudo-fields come first, are known, are not repeated and include a method, a scheme and
a non-empty path, and whose regular fields are lower-case and not connection-specific; the request
it returns is made of those fields, and every rejection is a stream-level \<^verbatim>\<open>PROTOCOL_ERROR\<close>.\<close>

theorem request_validation_exact:
  "request_from_headers hs = (if request_legal hs then Inr (request_of hs) else Inl ProtocolError)"
  by (rule request_from_headers_spec)

subsection \<open>Forwarding\<close>

lemma regular_part_regular: "list_all regular_ok (regular_part hs) \<Longrightarrow> list_all regular_ok (rq_fields (request_of hs))"
  by (simp add: request_of_def)

lemma parts_of_regular:
  assumes "list_all regular_ok fs"
  shows "pseudo_part fs = []" "regular_part fs = fs"
  using assms by (cases fs; simp add: pseudo_part_def regular_part_def regular_ok_def)+

lemma parts_cons:
  "is_pseudo (hdr_name h) \<Longrightarrow> pseudo_part (h # hs) = h # pseudo_part hs"
  "is_pseudo (hdr_name h) \<Longrightarrow> regular_part (h # hs) = regular_part hs"
  by (simp_all add: pseudo_part_def regular_part_def)

lemma pseudo_names:
  "is_pseudo (ascii '':method'')" "is_pseudo (ascii '':scheme'')" "is_pseudo (ascii '':authority'')"
  "is_pseudo (ascii '':path'')" "is_pseudo (ascii '':status'')"
  by (simp_all add: is_pseudo_def ascii_def)

lemma pseudo_names_distinct:
  "distinct [ascii '':method'', ascii '':scheme'', ascii '':authority'', ascii '':path'']"
  by (simp add: ascii_def)

lemma header_new_simps [simp]:
  "hdr_name (header_new n v) = n" "hdr_value (header_new n v) = v" "sensitive (header_new n v) = False"
  by (simp_all add: header_new_def)

lemma to_headers_legal:
  assumes fs: "list_all regular_ok (rq_fields r)" and p: "rq_path r \<noteq> []"
  shows "request_legal (request_to_headers r) \<and> request_of (request_to_headers r) = r"
proof -
  note ps = parts_of_regular [OF fs] parts_cons pseudo_names
  show ?thesis
  proof (cases "rq_authority r")
    case None
    then show ?thesis
      using fs p pseudo_names_distinct
      by (auto simp: request_to_headers_def request_legal_def request_of_def fields_legal_def ps
          pseudo_value_def request_pseudos_def)
  next
    case (Some a)
    then show ?thesis
      using fs p pseudo_names_distinct
      by (auto simp: request_to_headers_def request_legal_def request_of_def fields_legal_def ps
          pseudo_value_def request_pseudos_def)
  qed
qed

text \<open>C34. A request that was accepted is rebuilt, for the upstream, into a header list that validates
to the very same request, pseudo-fields first; its regular fields are fields of the client's list
in the client's order, the never-index mark included.\<close>

theorem forwarded_request_roundtrip:
  assumes "request_from_headers hs = Inr r"
  shows "request_from_headers (request_to_headers r) = Inr r
    \<and> rq_fields r = filter (\<lambda>h. \<not> is_pseudo (hdr_name h)) hs
    \<and> dropWhile (\<lambda>h. is_pseudo (hdr_name h)) (request_to_headers r) = rq_fields r"
proof (intro conjI)
  have legal: "request_legal hs" and r: "r = request_of hs"
    using assms by (auto simp: request_from_headers_spec split: if_splits)
  have fs: "list_all regular_ok (rq_fields r)" and p: "rq_path r \<noteq> []"
    using legal by (auto simp: r request_of_def request_legal_def fields_legal_def)
  show "request_from_headers (request_to_headers r) = Inr r"
    using to_headers_legal [OF fs p] by (simp add: request_from_headers_spec)
  have "filter (\<lambda>h. \<not> is_pseudo (hdr_name h)) hs =
      filter (\<lambda>h. \<not> is_pseudo (hdr_name h)) (pseudo_part hs) @ filter (\<lambda>h. \<not> is_pseudo (hdr_name h)) (regular_part hs)"
    unfolding pseudo_part_def regular_part_def filter_append [symmetric] by simp
  also have "filter (\<lambda>h. \<not> is_pseudo (hdr_name h)) (pseudo_part hs) = []"
    by (auto simp: pseudo_part_def filter_empty_conv dest: set_takeWhileD)
  also have "filter (\<lambda>h. \<not> is_pseudo (hdr_name h)) (regular_part hs) = regular_part hs"
    using fs by (auto simp: r request_of_def filter_id_conv list_all_iff regular_ok_def)
  finally show "rq_fields r = filter (\<lambda>h. \<not> is_pseudo (hdr_name h)) hs"
    by (simp add: r request_of_def)
  have "regular_part (request_to_headers r) = rq_fields r"
    using to_headers_legal [OF fs p] by (metis request_head.select_convs(5) request_of_def)
  then show "dropWhile (\<lambda>h. is_pseudo (hdr_name h)) (request_to_headers r) = rq_fields r"
    by (simp add: regular_part_def)
qed

definition sample_request :: "header list" where
  "sample_request =
     [header_new (ascii '':method'') (ascii ''GET''), header_new (ascii '':path'') (ascii ''/''),
      header_new (ascii '':scheme'') (ascii ''http''), header_sensitive (ascii ''cookie'') (ascii ''x'')]"

lemma forwarded_request_roundtrip_witness:
  "request_from_headers sample_request = Inr (request_of sample_request)
   \<and> request_from_headers (request_to_headers (request_of sample_request)) = Inr (request_of sample_request)"
proof -
  have "request_from_headers sample_request = Inr (request_of sample_request)"
    by code_simp
  with forwarded_request_roundtrip [OF this] show ?thesis by (elim conjE) (rule conjI)
qed

subsection \<open>Trailers\<close>

definition trailer_ok :: "header \<Rightarrow> bool" where
  "trailer_ok h \<longleftrightarrow>
     hdr_name h \<noteq> [] \<and> \<not> is_pseudo (hdr_name h) \<and> list_all (\<lambda>b. \<not> is_ascii_uppercase b) (hdr_name h)
     \<and> hdr_name h \<notin> set connection_specific"

lemma not_uppercase: "list_ex is_ascii_uppercase n \<longleftrightarrow> \<not> list_all (\<lambda>b. \<not> is_ascii_uppercase b) n"
  by (auto simp: list_ex_iff list_all_iff)

lemma validate_trailers_spec:
  "validate_trailers hs = (if list_all trailer_ok hs then Inr () else Inl ProtocolError)"
  by (induction hs) (auto simp: trailer_ok_def not_uppercase)

subsection \<open>Responses\<close>

lemma response_loop_ok:
  "list_all trailer_ok fs \<Longrightarrow> response_loop fs st acc seen = Inr (st, acc @ fs)"
  by (induction fs arbitrary: acc seen) (auto simp: trailer_ok_def not_uppercase Let_def)

lemma response_loop_Inr:
  assumes "response_loop hs st acc seen = Inr (st', acc')" "list_all trailer_ok acc"
    "\<forall>s. st = Some s \<longrightarrow> 100 \<le> s \<and> s \<le> 599"
  shows "list_all trailer_ok acc' \<and> (\<forall>s. st' = Some s \<longrightarrow> 100 \<le> s \<and> s \<le> 599)"
  using assms
proof (induction hs st acc seen rule: response_loop.induct)
  case (2 h hs st acc seen)
  show ?case
  proof (cases "is_pseudo (hdr_name h)")
    case True
    from "2.prems"(1) True obtain s where guards: "\<not> (seen \<or> hdr_name h \<noteq> ascii '':status'')" "st = None"
        "parse_unsigned 65535 (hdr_value h) = Some s" "100 \<le> s \<and> s \<le> 599"
      and rest: "response_loop hs (Some s) acc seen = Inr (st', acc')"
      by (auto simp: Let_def split: if_splits option.splits)
    have st: "\<not> st \<noteq> None" using guards(2) by simp
    have rng: "\<forall>s'. Some s = Some s' \<longrightarrow> 100 \<le> s' \<and> s' \<le> 599" using guards(4) by simp
    show ?thesis
      by (rule "2.IH"(1) [OF refl True guards(1) st guards(3,4) rest "2.prems"(2) rng])
  next
    case False
    from "2.prems"(1) False have rest: "response_loop hs st (acc @ [h]) True = Inr (st', acc')"
      and ok: "trailer_ok h"
      by (auto simp: Let_def trailer_ok_def not_uppercase split: if_splits)
    have g: "\<not> (hdr_name h = [] \<or> list_ex is_ascii_uppercase (hdr_name h))"
        "hdr_name h \<notin> set connection_specific"
      using ok by (auto simp: trailer_ok_def not_uppercase)
    show ?thesis
      by (rule "2.IH"(2) [OF refl False g rest]) (use ok "2.prems" in simp_all)
  qed
qed simp

lemma response_to_headers_ok:
  assumes "100 \<le> rs_status r" "rs_status r \<le> 599" "list_all trailer_ok (rs_fields r)"
  shows "response_from_headers (response_to_headers r) = Inr r"
proof -
  have parse: "parse_unsigned 65535 (show_nat (rs_status r)) = Some (rs_status r)"
    using assms(2) by (intro parse_show_nat) simp
  have "response_loop (response_to_headers r) None [] False
      = response_loop (rs_fields r) (Some (rs_status r)) [] False"
    using pseudo_names(5) parse assms(1,2)
    by (simp only: response_to_headers_def response_loop.simps header_new_simps Let_def) simp
  then show ?thesis
    by (simp add: response_from_headers_def response_loop_ok [OF assms(3)])
qed

lemma response_from_headers_Inr:
  assumes "response_from_headers hs = Inr r"
  shows "100 \<le> rs_status r \<and> rs_status r \<le> 599 \<and> list_all trailer_ok (rs_fields r)"
proof -
  from assms obtain s fs where loop: "response_loop hs None [] False = Inr (Some s, fs)"
    and r: "r = \<lparr>rs_status = s, rs_fields = fs\<rparr>"
    by (auto simp: response_from_headers_def split: sum.splits option.splits)
  show ?thesis using response_loop_Inr [OF loop] by (simp add: r)
qed

text \<open>A response accepted from a backend has a status from 100 to 599 and fields a client may be
sent; rebuilt for the client, the status in decimal and first, it validates to the same response.\<close>

theorem forwarded_response_roundtrip:
  assumes "response_from_headers hs = Inr r"
  shows "100 \<le> rs_status r \<and> rs_status r \<le> 599
    \<and> validate_trailers (rs_fields r) = Inr ()
    \<and> response_from_headers (response_to_headers r) = Inr r"
  using response_from_headers_Inr [OF assms] response_to_headers_ok [of r]
  by (simp add: validate_trailers_spec)

definition sample_response :: response_head where
  "sample_response = \<lparr>rs_status = 404, rs_fields = [header_new (ascii ''a'') []]\<rparr>"

lemma forwarded_response_roundtrip_witness:
  "response_from_headers (response_to_headers sample_response) = Inr sample_response
   \<and> 100 \<le> rs_status sample_response \<and> rs_status sample_response \<le> 599
   \<and> validate_trailers (rs_fields sample_response) = Inr ()"
proof -
  have "trailer_ok (header_new (ascii ''a'') [])" by code_simp
  then have "response_from_headers (response_to_headers sample_response) = Inr sample_response"
    by (intro response_to_headers_ok) (simp_all add: sample_response_def)
  from forwarded_response_roundtrip [OF this] show ?thesis by (elim conjE) (intro conjI)
qed

subsection \<open>The built-in responder\<close>

fun body_accepted :: "stream_id \<Rightarrow> service_event list \<Rightarrow> nat" where
  "body_accepted i [] = 0"
| "body_accepted i (EvBodyAccepted j n # es) = (if i = j then n else 0) + body_accepted i es"
| "body_accepted i (_ # es) = body_accepted i es"

fun echoed :: "stream_id \<Rightarrow> service_event list \<Rightarrow> octets" where
  "echoed i [] = []"
| "echoed i (EvData j d _ # es) = (if i = j then d else []) @ echoed i es"
| "echoed i (_ # es) = echoed i es"

text \<open>A request's body, as the connection hands it on: pieces, the last with \<^verbatim>\<open>end_stream\<close>.\<close>

fun echo_bodies :: "stream_id \<Rightarrow> octets list \<Rightarrow> echo \<Rightarrow> service_event list \<times> echo" where
  "echo_bodies i [] e = ([], e)"
| "echo_bodies i [d] e = echo_body i d True e"
| "echo_bodies i (d # ds) e =
     (let (es, e') = echo_body i d False e; (es', e'') = echo_bodies i ds e' in (es @ es', e''))"

lemma body_accepted_append [simp]: "body_accepted i (xs @ ys) = body_accepted i xs + body_accepted i ys"
  by (induction i xs rule: body_accepted.induct) auto

lemma echoed_append [simp]: "echoed i (xs @ ys) = echoed i xs @ echoed i ys"
  by (induction i xs rule: echoed.induct) auto

lemma echo_body_credit: "length d < 2 ^ 32 \<Longrightarrow> body_accepted i (fst (echo_body i d f e)) = length d"
  by (simp add: echo_body_def Let_def)

lemma echo_body_echoes:
  "i \<in> echoing e \<Longrightarrow> echoed i (fst (echo_body i d f e)) = d"
  by (auto simp: echo_body_def Let_def)

lemma echo_body_state: "echoing (snd (echo_body i d f e)) = (if f then echoing e - {i} else echoing e)"
  by (simp add: echo_body_def)

lemma echo_bodies_credit:
  "\<forall>d \<in> set ds. length d < 2 ^ 32 \<Longrightarrow>
   body_accepted i (fst (echo_bodies i ds e)) = length (concat ds)"
  by (induction i ds e rule: echo_bodies.induct)
    (auto simp: echo_body_credit Let_def split_beta echo_body_def)

lemma echo_bodies_echo:
  "i \<in> echoing e \<Longrightarrow> ds \<noteq> [] \<Longrightarrow>
   echoed i (fst (echo_bodies i ds e)) = concat ds \<and> i \<notin> echoing (snd (echo_bodies i ds e))"
proof (induction i ds e rule: echo_bodies.induct)
  case (3 i d d' ds e)
  from "3.IH" [OF refl prod.collapse] "3.prems" show ?case
    by (simp add: echo_body_state echo_body_echoes Let_def split_beta)
qed (simp_all add: echo_body_echoes echo_body_state)

text \<open>The built-in responder gives back the credit of every octet of a request body, however it
is cut up, so the client's window reopens in full; and a body it mirrors comes back whole, in order,
and the stream is forgotten when it ends.\<close>

theorem echo_returns_all_credit:
  assumes "\<forall>d \<in> set ds. length d < 2 ^ 32" "ds \<noteq> []"
  shows "body_accepted i (fst (echo_bodies i ds e)) = length (concat ds)
    \<and> (i \<in> echoing e \<longrightarrow>
        echoed i (fst (echo_bodies i ds e)) = concat ds \<and> i \<notin> echoing (snd (echo_bodies i ds e)))"
  using echo_bodies_credit [OF assms(1)] echo_bodies_echo assms(2) by blast

lemma echo_returns_all_credit_witness:
  "body_accepted 1 (fst (echo_bodies 1 [[7, 8], [], [9]] (echo_new 0))) = 3"
  using echo_returns_all_credit [of "[[7, 8], [], [9]]" 1 "echo_new 0"] by simp

end
