(* ===== verification/Settings.thy ===== *)
theory Settings
  imports Frame_Props Flow
begin

section \<open>SETTINGS and the tunable sizes\<close>

text \<open>
  The parameters of a connection, from \<^verbatim>\<open>core/src/conn.rs\<close>: \<^verbatim>\<open>Settings\<close> with its three sets of
  values, the fold of a received SETTINGS payload, the frame that advertises our own, and
  \<^verbatim>\<open>Tuning\<close>. Values are \<^verbatim>\<open>u32\<close> words; \<^verbatim>\<open>apply\<close> works in place, so the parameters before an
  illegal one have been stored when it is reported.
\<close>

subsection \<open>Constants\<close>

definition max_write_queue :: nat where "max_write_queue = 256 * 1024"
definition max_concurrent_streams_default :: u32 where "max_concurrent_streams_default = 256"
definition max_pending_default :: nat where "max_pending_default = 2048"
definition max_header_list_size_default :: u32 where "max_header_list_size_default = 64 * 1024"
definition max_header_block_bytes :: nat where
  "max_header_block_bytes = unat max_header_list_size_default"

definition preface :: octets where
  "preface = map (\<lambda>c. of_nat (of_char c)) ''PRI * HTTP/2.0'' @ [0x0d, 0x0a, 0x0d, 0x0a, 0x53, 0x4d, 0x0d, 0x0a, 0x0d, 0x0a]"

definition id_header_table_size :: u16 where "id_header_table_size = 1"
definition id_enable_push :: u16 where "id_enable_push = 2"
definition id_max_concurrent_streams :: u16 where "id_max_concurrent_streams = 3"
definition id_initial_window_size :: u16 where "id_initial_window_size = 4"
definition id_max_frame_size :: u16 where "id_max_frame_size = 5"
definition id_max_header_list_size :: u16 where "id_max_header_list_size = 6"

lemmas setting_ids = id_header_table_size_def id_enable_push_def id_max_concurrent_streams_def
  id_initial_window_size_def id_max_frame_size_def id_max_header_list_size_def

subsection \<open>The settings in effect\<close>

record settings =
  header_table_size :: u32
  enable_push :: bool
  max_concurrent_streams :: "u32 option"
  initial_window_size :: u32
  max_frame_size :: u32
  max_header_list :: "u32 option"

definition settings_default :: settings where
  "settings_default =
     \<lparr>header_table_size = 4096, enable_push = True, max_concurrent_streams = None,
      initial_window_size = 65535, max_frame_size = 16384, max_header_list = None\<rparr>"

definition settings_server :: settings where
  "settings_server = settings_default
     \<lparr>enable_push := False, max_concurrent_streams := Some max_concurrent_streams_default,
      initial_window_size := word_of_int stream_initial_window,
      max_header_list := Some max_header_list_size_default\<rparr>"

definition settings_client :: settings where
  "settings_client = settings_default
     \<lparr>enable_push := False, max_concurrent_streams := None,
      initial_window_size := word_of_int stream_initial_window,
      max_header_list := Some max_header_list_size_default\<rparr>"

text \<open>One parameter, then the fold.\<close>

definition apply_param :: "u16 \<Rightarrow> u32 \<Rightarrow> settings \<Rightarrow> (settings, connection_error, unit) outcome" where
  "apply_param i v s =
     (if i = id_header_table_size then (Inr (), s\<lparr>header_table_size := v\<rparr>)
      else if i = id_enable_push then
        if v = 0 then (Inr (), s\<lparr>enable_push := False\<rparr>)
        else if v = 1 then (Inr (), s\<lparr>enable_push := True\<rparr>)
        else (Inl (ConnectionError ProtocolError), s)
      else if i = id_max_concurrent_streams then (Inr (), s\<lparr>max_concurrent_streams := Some v\<rparr>)
      else if i = id_initial_window_size then
        if word_of_int max_window_size < v then (Inl (ConnectionError FlowControlError), s)
        else (Inr (), s\<lparr>initial_window_size := v\<rparr>)
      else if i = id_max_frame_size then
        if default_max_frame_size \<le> v \<and> v \<le> max_allowed_frame_size
        then (Inr (), s\<lparr>max_frame_size := v\<rparr>)
        else (Inl (ConnectionError ProtocolError), s)
      else if i = id_max_header_list_size then (Inr (), s\<lparr>max_header_list := Some v\<rparr>)
      else (Inr (), s))"

fun settings_apply :: "(u16 \<times> u32) list \<Rightarrow> settings \<Rightarrow> (settings, connection_error, unit) outcome" where
  "settings_apply [] s = (Inr (), s)"
| "settings_apply ((i, v) # ps) s = and_then (apply_param i v s) (\<lambda>_. settings_apply ps)"

definition settings_params :: "settings \<Rightarrow> (u16 \<times> u32) list" where
  "settings_params s =
     [(id_enable_push, if enable_push s then 1 else 0)]
     @ (if header_table_size s \<noteq> header_table_size settings_default
        then [(id_header_table_size, header_table_size s)] else [])
     @ (case max_concurrent_streams s of None \<Rightarrow> [] | Some m \<Rightarrow> [(id_max_concurrent_streams, m)])
     @ (if initial_window_size s \<noteq> initial_window_size settings_default
        then [(id_initial_window_size, initial_window_size s)] else [])
     @ (if max_frame_size s \<noteq> max_frame_size settings_default
        then [(id_max_frame_size, max_frame_size s)] else [])
     @ (case max_header_list s of None \<Rightarrow> [] | Some m \<Rightarrow> [(id_max_header_list_size, m)])"

definition settings_to_frame :: "settings \<Rightarrow> frame" where
  "settings_to_frame s = SettingsFrame False (settings_params s)"

subsection \<open>Tuning\<close>

datatype pool_growth = GrowQueue | GrowEager

record tuning =
  tu_connection_window :: int
  tu_stream_window :: int
  tu_max_concurrent_streams :: u32
  tu_max_pending :: nat
  tu_growth :: pool_growth

definition tuning_default :: tuning where
  "tuning_default =
     \<lparr>tu_connection_window = connection_window, tu_stream_window = stream_initial_window,
      tu_max_concurrent_streams = max_concurrent_streams_default, tu_max_pending = max_pending_default,
      tu_growth = GrowQueue\<rparr>"

definition server_settings :: "tuning \<Rightarrow> settings" where
  "server_settings t = settings_server
     \<lparr>max_concurrent_streams := Some (tu_max_concurrent_streams t),
      initial_window_size := word_of_int (tu_stream_window t)\<rparr>"

definition client_settings :: "tuning \<Rightarrow> settings" where
  "client_settings t = settings_client\<lparr>initial_window_size := word_of_int (tu_stream_window t)\<rparr>"

subsection \<open>What a received payload does\<close>

text \<open>
  The specification: the code that refuses a parameter, by identifier and value; the stored value
  is that of the last occurrence of its identifier before the first refusal.
\<close>

definition param_refusal :: "u16 \<times> u32 \<Rightarrow> error_code option" where
  "param_refusal p =
     (if fst p = 2 \<and> 1 < unat (snd p) then Some ProtocolError
      else if fst p = 4 \<and> 2 ^ 31 \<le> unat (snd p) then Some FlowControlError
      else if fst p = 5 \<and> (unat (snd p) < 2 ^ 14 \<or> 2 ^ 24 \<le> unat (snd p)) then Some ProtocolError
      else None)"

definition last_value :: "u16 \<Rightarrow> (u16 \<times> u32) list \<Rightarrow> u32 \<Rightarrow> u32" where
  "last_value i ps old = fold (\<lambda>(j, v) old. if j = i then v else old) ps old"

definition last_option :: "u16 \<Rightarrow> (u16 \<times> u32) list \<Rightarrow> u32 option \<Rightarrow> u32 option" where
  "last_option i ps old = fold (\<lambda>(j, v) old. if j = i then Some v else old) ps old"

definition store_params :: "(u16 \<times> u32) list \<Rightarrow> settings \<Rightarrow> settings" where
  "store_params ps s =
     \<lparr>header_table_size = last_value 1 ps (header_table_size s),
      enable_push = (last_value 2 ps (if enable_push s then 1 else 0) \<noteq> 0),
      max_concurrent_streams = last_option 3 ps (max_concurrent_streams s),
      initial_window_size = last_value 4 ps (initial_window_size s),
      max_frame_size = last_value 5 ps (max_frame_size s),
      max_header_list = last_option 6 ps (max_header_list s)\<rparr>"

lemma apply_param_spec:
  "apply_param i v s =
     (case param_refusal (i, v) of
        Some c \<Rightarrow> (Inl (ConnectionError c), s)
      | None \<Rightarrow> (Inr (), store_params [(i, v)] s))"
proof -
  have push: "1 < unat v \<longleftrightarrow> v \<noteq> 0 \<and> v \<noteq> 1"
    by (auto simp: word_unat_eq_iff)
  have win: "(word_of_int max_window_size :: u32) < v \<longleftrightarrow> 2 ^ 31 \<le> unat v"
    by (simp add: max_window_size_def word_less_nat_alt Suc_le_eq [symmetric] del: Suc_le_eq)
  have frame: "default_max_frame_size \<le> v \<and> v \<le> max_allowed_frame_size \<longleftrightarrow> 2 ^ 14 \<le> unat v \<and> unat v < 2 ^ 24"
    by (simp add: default_max_frame_size_def max_allowed_frame_size_def word_le_nat_alt) linarith
  show ?thesis
    unfolding apply_param_def param_refusal_def setting_ids win frame
    using push by (auto simp: store_params_def last_value_def last_option_def)
qed

lemma store_params_Nil: "store_params [] s = s"
  by (simp add: store_params_def last_value_def last_option_def)

lemma store_params_append: "store_params (ps @ qs) s = store_params qs (store_params ps s)"
proof -
  have push: "last_value 2 qs (if last_value 2 ps b \<noteq> 0 then 1 else 0) \<noteq> 0 \<longleftrightarrow> last_value 2 (ps @ qs) b \<noteq> 0" for b
    by (induction qs rule: rev_induct) (auto simp: last_value_def split: if_splits)
  show ?thesis
    using push [of "if enable_push s then 1 else 0"]
    by (simp add: store_params_def last_value_def last_option_def)
qed

definition first_refusal :: "(u16 \<times> u32) list \<Rightarrow> error_code option" where
  "first_refusal ps = Option.bind (List.find (\<lambda>p. param_refusal p \<noteq> None) ps) param_refusal"

definition accepted_params :: "(u16 \<times> u32) list \<Rightarrow> (u16 \<times> u32) list" where
  "accepted_params ps = takeWhile (\<lambda>p. param_refusal p = None) ps"

lemma refusal_Cons:
  "first_refusal (p # ps) = (case param_refusal p of None \<Rightarrow> first_refusal ps | Some c \<Rightarrow> Some c)"
  "accepted_params (p # ps) = (if param_refusal p = None then p # accepted_params ps else [])"
  by (auto simp: first_refusal_def accepted_params_def split: option.split)

lemma settings_apply_spec:
  "settings_apply ps s =
     (case first_refusal ps of None \<Rightarrow> Inr () | Some c \<Rightarrow> Inl (ConnectionError c),
      store_params (accepted_params ps) s)"
proof (induction ps arbitrary: s)
  case Nil
  show ?case by (simp add: first_refusal_def accepted_params_def store_params_Nil)
next
  case (Cons p ps)
  obtain i v where p: "p = (i, v)" by (cases p)
  show ?case
  proof (cases "param_refusal (i, v)")
    case None
    have "store_params ((i, v) # accepted_params ps) s = store_params (accepted_params ps) (store_params [(i, v)] s)"
      using store_params_append [of "[(i, v)]" "accepted_params ps" s] by simp
    moreover have "settings_apply (p # ps) s = settings_apply ps (store_params [(i, v)] s)"
      using None by (simp add: p apply_param_spec)
    ultimately show ?thesis
      using None by (simp only: Cons.IH refusal_Cons p) simp
  next
    case (Some c)
    then have "settings_apply (p # ps) s = (Inl (ConnectionError c), s)"
      by (simp add: p apply_param_spec)
    with Some show ?thesis by (simp only: refusal_Cons p) (simp add: store_params_Nil)
  qed
qed

text \<open>What a received SETTINGS payload does, parameter by parameter: it is refused, with the code
the RFC names, exactly at its first illegal parameter; every parameter before that is stored, the
last occurrence of an identifier winning; unknown identifiers change nothing.\<close>

theorem settings_apply_exact:
  "settings_apply ps s =
     (case first_refusal ps of None \<Rightarrow> Inr () | Some c \<Rightarrow> Inl (ConnectionError c),
      store_params (accepted_params ps) s)"
  by (rule settings_apply_spec)

definition settings_legal :: "settings \<Rightarrow> bool" where
  "settings_legal s \<longleftrightarrow> unat (initial_window_size s) < 2 ^ 31
     \<and> 2 ^ 14 \<le> unat (max_frame_size s) \<and> unat (max_frame_size s) < 2 ^ 24"

lemma settings_legal_values [simp]:
  "settings_legal settings_default" "settings_legal settings_server" "settings_legal settings_client"
  by (simp_all add: settings_legal_def settings_default_def settings_server_def settings_client_def
      stream_initial_window_def)

lemma apply_param_legal: "settings_legal s \<Longrightarrow> settings_legal (snd (apply_param i v s))"
  by (auto simp: apply_param_spec param_refusal_def store_params_def settings_legal_def
      last_value_def split: option.splits)

lemma settings_apply_legal: "settings_legal s \<Longrightarrow> settings_legal (snd (settings_apply ps s))"
proof (induction ps arbitrary: s)
  case (Cons p ps)
  obtain i v where p: "p = (i, v)" by (cases p)
  obtain r s' where r: "apply_param i v s = (r, s')" by (cases "apply_param i v s")
  have "settings_legal s'" using apply_param_legal [OF Cons.prems, of i v] r by simp
  with Cons.IH [of s'] show ?case by (cases r) (auto simp: p r)
qed simp

lemma settings_params_accepted:
  "settings_legal s \<Longrightarrow> \<forall>p \<in> set (settings_params s). param_refusal p = None"
  by (auto simp: settings_params_def setting_ids param_refusal_def settings_legal_def settings_default_def
      split: option.splits if_splits)

lemma settings_params_stored: "store_params (settings_params s) settings_default = s"
  by (cases s) (auto simp: settings_params_def store_params_def setting_ids last_value_def last_option_def
      settings_default_def split: option.split)

lemma all_accepted:
  "\<forall>p \<in> set ps. param_refusal p = None \<Longrightarrow> first_refusal ps = None \<and> accepted_params ps = ps"
  by (induction ps) (simp_all add: refusal_Cons, simp_all add: first_refusal_def accepted_params_def)

text \<open>The SETTINGS frame that advertises legal settings, applied by a peer to the protocol's
defaults, is accepted and gives exactly those settings, although only what differs is sent; and no
payload, accepted or not, takes legal settings out of their bounds.\<close>

theorem settings_advertised_and_applied:
  assumes "settings_legal s"
  shows "(\<exists>ps. settings_to_frame s = SettingsFrame False ps
             \<and> settings_apply ps settings_default = (Inr (), s))
    \<and> settings_legal (snd (settings_apply qs s))"
proof -
  have "settings_apply (settings_params s) settings_default = (Inr (), s)"
    using all_accepted [OF settings_params_accepted [OF assms]] settings_params_stored
    by (simp add: settings_apply_spec)
  then show ?thesis using settings_apply_legal [OF assms] by (simp add: settings_to_frame_def)
qed

lemma settings_advertised_and_applied_witness:
  "\<exists>ps. settings_to_frame settings_server = SettingsFrame False ps
      \<and> settings_apply ps settings_default = (Inr (), settings_server)"
  using settings_advertised_and_applied [OF settings_legal_values(2), of "[]"] by (rule conjunct1)

end
