(* ===== verification/Conn_State.thy ===== *)
theory Conn_State
  imports Stream_Table_Props Guard Hpack_Lockstep Service_Props Settings
begin

section \<open>The state of a client connection\<close>

text \<open>
  \<^verbatim>\<open>Connection\<close> of \<^verbatim>\<open>core/src/conn.rs\<close>, with what it carries: the drain, the summary, and the
  responder behind the \<^verbatim>\<open>Service\<close> trait. The trait is a pair of functions on the responder's own
  state: one for its notifications, one for \<^verbatim>\<open>intercept\<close>; each returns the events the responder
  puts on its channel meanwhile. The socket halves, the shutdown receiver and the scratch buffer
  \<^verbatim>\<open>encode_buf\<close> are not part of the state; what \<^verbatim>\<open>Instant::now()\<close> returns is a parameter of the
  operations that read it.

  Three fields are history, written and never read: \<open>c_frames\<close>, the frames encoded into \<^verbatim>\<open>out\<close>,
  \<open>c_received\<close>, the frames handled, and \<open>c_calls\<close>, the notifications given to the responder.
\<close>

subsection \<open>Draining\<close>

record drain_policy =
  dp_grace :: duration
  dp_deadline :: duration

definition drain_policy_default :: drain_policy where
  "drain_policy_default = \<lparr>dp_grace = from_secs 2, dp_deadline = from_secs 30\<rparr>"

definition drain_policy_immediate :: drain_policy where
  "drain_policy_immediate = \<lparr>dp_grace = 0, dp_deadline = 0\<rparr>"

record drain =
  commit_at :: instant
  deadline_at :: instant
  committed :: "stream_id option"

definition drain_begin :: "drain_policy \<Rightarrow> instant \<Rightarrow> duration \<Rightarrow> drain" where
  "drain_begin policy now quiet_for =
     (let grace = (if quiet_for \<ge> dp_grace policy then 0 else dp_grace policy - quiet_for)
      in \<lparr>commit_at = now + grace, deadline_at = now + grace + dp_deadline policy, committed = None\<rparr>)"

definition next_wake :: "drain \<Rightarrow> instant" where
  "next_wake d = (case committed d of None \<Rightarrow> commit_at d | Some _ \<Rightarrow> deadline_at d)"

subsection \<open>The responder\<close>

datatype service_call =
    SvDispatch stream_id request_head bool
  | SvBody stream_id octets bool
  | SvTrailers stream_id "header list"
  | SvCancel stream_id error_code
  | SvFinish stream_id
  | SvReleased stream_id nat

record 'v service =
  sv_call :: "service_call \<Rightarrow> 'v \<Rightarrow> service_event list \<times> 'v"
  sv_intercept :: "service_event \<Rightarrow> 'v \<Rightarrow> service_event option \<times> service_event list \<times> 'v"

text \<open>The built-in responder, with the trait's defaults for the rest.\<close>

fun echo_call :: "service_call \<Rightarrow> echo \<Rightarrow> service_event list \<times> echo" where
  "echo_call (SvDispatch i head es) e = echo_dispatch i head es e"
| "echo_call (SvBody i data es) e = echo_body i data es e"
| "echo_call (SvCancel i code) e = ([], echo_cancel i e)"
| "echo_call _ e = ([], e)"

definition echo_service :: "echo service" where
  "echo_service = \<lparr>sv_call = echo_call, sv_intercept = (\<lambda>ev e. (Some ev, [], e))\<rparr>"

subsection \<open>The summary, and why the loop stops\<close>

record connection_summary =
  cs_handshake_completed :: bool
  cs_frames_received :: nat
  cs_header_blocks_decoded :: nat
  cs_streams_opened :: nat
  cs_requests_dispatched :: nat
  cs_streams_reset :: nat
  cs_peak_concurrent_streams :: nat
  cs_data_bytes_sent :: nat
  cs_flow_control_stalls :: nat
  cs_drained :: bool
  cs_guard_peaks :: "peaks option"
  cs_guard_tripped :: "signal option"

definition summary_default :: connection_summary where
  "summary_default =
     \<lparr>cs_handshake_completed = False, cs_frames_received = 0, cs_header_blocks_decoded = 0,
      cs_streams_opened = 0, cs_requests_dispatched = 0, cs_streams_reset = 0,
      cs_peak_concurrent_streams = 0, cs_data_bytes_sent = 0, cs_flow_control_stalls = 0,
      cs_drained = False, cs_guard_peaks = None, cs_guard_tripped = None\<rparr>"

datatype stop = Quiet | Failed connection_error

datatype next_step = Continue | Close

datatype visit = Stalled | Wrote bool | VisitFinished

subsection \<open>The connection\<close>

record 'v conn =
  c_out :: octets
  c_frames :: "frame list"
  c_received :: "frame list"
  c_read_buf :: octets
  c_codec :: frame_codec
  c_local_settings :: settings
  c_admission :: bool
  c_advertised_streams :: u32
  c_peer_acked_settings :: bool
  c_outstanding_settings :: nat
  c_enforced_streams :: u32
  c_stream_ceiling :: u32
  c_peer_settings :: settings
  c_open_header_block :: "stream_id option"
  c_open_header_end_stream :: bool
  c_header_block :: octets
  c_hpack_dec :: hpack_decoder
  c_hpack_enc :: hpack_encoder
  c_streams :: stream_table
  c_conn_send_window :: window
  c_conn_recv_window :: recv_window
  c_conn_window :: int
  c_ready :: "stream_id list"
  c_pending_reset :: "stream_error list"
  c_guard :: guard
  c_last_stream_at :: instant
  c_drain_policy :: drain_policy
  c_draining :: "drain option"
  c_service :: 'v
  c_calls :: "service_call list"
  c_events :: "service_event list"
  c_summary :: connection_summary

type_synonym ('v, 'a) handler = "'v conn \<Rightarrow> ('v conn, connection_error, 'a) outcome"

definition as_int :: "u32 \<Rightarrow> int" where
  "as_int v = as_i32 (int (unat v))"

definition conn_new :: "instant \<Rightarrow> settings \<Rightarrow> 'v \<Rightarrow> 'v conn" where
  "conn_new now local v =
     (let streams = (case max_concurrent_streams local of None \<Rightarrow> - 1 | Some m \<Rightarrow> m) in
      \<lparr>c_out = [], c_frames = [], c_received = [], c_read_buf = [], c_codec = codec_new (max_frame_size local),
       c_local_settings = local, c_admission = False, c_advertised_streams = streams,
       c_peer_acked_settings = False, c_outstanding_settings = 0, c_enforced_streams = streams,
       c_stream_ceiling = streams, c_peer_settings = settings_default,
       c_open_header_block = None, c_open_header_end_stream = False, c_header_block = [],
       c_hpack_dec = hpack_decoder_new (unat (header_table_size local))
         (map_option unat (max_header_list local)),
       c_hpack_enc = hpack_encoder_new (unat (header_table_size settings_default)),
       c_streams = stream_table_new
         (unat (case max_concurrent_streams local of None \<Rightarrow> max_concurrent_streams_default | Some m \<Rightarrow> m))
         (as_int (initial_window_size settings_default)) (as_int (initial_window_size local)),
       c_conn_send_window = Window (as_int (initial_window_size settings_default)),
       c_conn_recv_window = recv_window_new connection_window, c_conn_window = connection_window,
       c_ready = [], c_pending_reset = [], c_guard = guard_new limits_default now,
       c_last_stream_at = now, c_drain_policy = drain_policy_default, c_draining = None,
       c_service = v, c_calls = [], c_events = [], c_summary = summary_default\<rparr>)"

definition with_drain_policy :: "drain_policy \<Rightarrow> 'v conn \<Rightarrow> 'v conn" where
  "with_drain_policy p c = c\<lparr>c_drain_policy := p\<rparr>"

definition with_limits :: "limits \<Rightarrow> instant \<Rightarrow> 'v conn \<Rightarrow> 'v conn" where
  "with_limits l now c = c\<lparr>c_guard := guard_new l now\<rparr>"

definition with_connection_window :: "int \<Rightarrow> 'v conn \<Rightarrow> 'v conn" where
  "with_connection_window w c = c\<lparr>c_conn_window := w, c_conn_recv_window := recv_window_new w\<rparr>"

definition with_admission :: "u32 \<Rightarrow> 'v conn \<Rightarrow> 'v conn" where
  "with_admission budget c =
     c\<lparr>c_advertised_streams := budget,
       c_local_settings := (c_local_settings c)\<lparr>max_concurrent_streams := Some budget\<rparr>,
       c_streams := set_max_concurrent (unat (c_stream_ceiling c)) (c_streams c),
       c_enforced_streams := c_stream_ceiling c,
       c_outstanding_settings := 1,
       c_admission := True\<rparr>"

subsection \<open>What every handler uses\<close>

definition c_put :: "stream_id \<Rightarrow> stream \<Rightarrow> 'v conn \<Rightarrow> 'v conn" where
  "c_put i s c = c\<lparr>c_streams := put_stream i s (c_streams c)\<rparr>"

definition c_get :: "stream_id \<Rightarrow> 'v conn \<Rightarrow> stream option" where
  "c_get i c = get_stream i (c_streams c)"

definition notify :: "'v service \<Rightarrow> service_call \<Rightarrow> 'v conn \<Rightarrow> 'v conn" where
  "notify S call c =
     (case sv_call S call (c_service c) of (es, v) \<Rightarrow>
        c\<lparr>c_service := v, c_calls := c_calls c @ [call], c_events := c_events c @ es\<rparr>)"

definition queue_frame :: "frame \<Rightarrow> ('v, unit) handler" where
  "queue_frame f c =
     (case encode (c_codec c) f [] of
        (Inl e, bs) \<Rightarrow> (Inl (ConnectionError InternalError), c)
      | (Inr u, bs) \<Rightarrow> (Inr (), c\<lparr>c_out := c_out c @ bs, c_frames := c_frames c @ [f]\<rparr>))"

definition check_verdict :: "verdict \<Rightarrow> ('v, unit) handler" where
  "check_verdict v c =
     (case tripped v of None \<Rightarrow> (Inr (), c) | Some signal \<Rightarrow> (Inl (ConnectionError EnhanceYourCalm), c))"

definition map_code :: "error_code + 'a \<Rightarrow> connection_error + 'a" where
  "map_code r = map_sum ConnectionError id r"

end
