(* ===== verification/Conn_Handlers.thy ===== *)
theory Conn_Handlers
  imports Conn_State
begin

section \<open>The frame handlers of a client connection\<close>

text \<open>
  One definition per method of \<^verbatim>\<open>Connection\<close> in \<^verbatim>\<open>core/src/conn.rs\<close>, bottom up: writing, closing a
  stream, flow-control credit, responses, requests, and the dispatch on a decoded frame. \<open>S\<close> is
  the responder and \<open>now\<close> what \<^verbatim>\<open>Instant::now()\<close> reads (one call at most on every path).
\<close>

subsection \<open>Writing, and giving credit back\<close>

definition drain_reclaimed :: "('v, unit) handler" where
  "drain_reclaimed c =
     (case take_reclaimed (c_streams c) of (n, t) \<Rightarrow>
        let c1 = c\<lparr>c_streams := t\<rparr> in
        if n = 0 then (Inr (), c1)
        else
          (case recv_release n (c_conn_recv_window c1) of (inc, w) \<Rightarrow>
             let c2 = c1\<lparr>c_conn_recv_window := w\<rparr> in
             (case inc of
                None \<Rightarrow> (Inr (), c2)
              | Some k \<Rightarrow> queue_frame (WindowUpdate stream_id_connection (word_of_nat k)) c2)))"

definition retire_and_unqueue :: "stream_id \<Rightarrow> 'v conn \<Rightarrow> 'v conn" where
  "retire_and_unqueue i c =
     c\<lparr>c_streams := retire i (c_streams c), c_ready := filter (\<lambda>j. j \<noteq> i) (c_ready c)\<rparr>"

definition count_reset :: "'v conn \<Rightarrow> 'v conn" where
  "count_reset c = c\<lparr>c_summary := (c_summary c)\<lparr>cs_streams_reset := cs_streams_reset (c_summary c) + 1\<rparr>\<rparr>"

definition write_rst_stream :: "'v service \<Rightarrow> stream_id \<Rightarrow> error_code \<Rightarrow> ('v, unit) handler" where
  "write_rst_stream S i code c =
     and_then (drain_reclaimed (notify S (SvCancel i code) (retire_and_unqueue i (count_reset c))))
       (\<lambda>_. queue_frame (RstStream i code))"

definition write_settings_ack :: "('v, unit) handler" where
  "write_settings_ack = queue_frame (SettingsFrame True [])"

fun flush_resets :: "'v service \<Rightarrow> stream_error list \<Rightarrow> ('v, unit) handler" where
  "flush_resets S [] c = (Inr (), c)"
| "flush_resets S (e # es) c =
     and_then (write_rst_stream S (serr_stream e) (serr_code e) (c\<lparr>c_pending_reset := rev es\<rparr>))
       (\<lambda>_. flush_resets S es)"

text \<open>\<^verbatim>\<open>while let Some(err) = self.pending_reset.pop()\<close>: from the last one back.\<close>

definition flush_pending_resets :: "'v service \<Rightarrow> ('v, unit) handler" where
  "flush_pending_resets S c = flush_resets S (rev (c_pending_reset c)) c"

definition apply_stream_event :: "'v service \<Rightarrow> stream_id \<Rightarrow> stream_event \<Rightarrow> ('v, unit) handler" where
  "apply_stream_event S i e c =
     (case apply_event i e (c_streams c) of
        (Inr st, t) \<Rightarrow>
          let c1 = c\<lparr>c_streams := t\<rparr> in
          if is_closed st
          then drain_reclaimed (notify S (SvFinish i) (c1\<lparr>c_ready := filter (\<lambda>j. j \<noteq> i) (c_ready c1)\<rparr>))
          else (Inr (), c1)
      | (Inl err, t) \<Rightarrow>
          let c1 = c\<lparr>c_streams := t\<rparr> in
          if serr_code err = ProtocolError then (Inl (ConnectionError ProtocolError), c1)
          else
            let c2 = retire_and_unqueue i c1
            in (Inr (), c2\<lparr>c_pending_reset := c_pending_reset c2 @ [err]\<rparr>))"

definition enqueue_ready :: "stream_id \<Rightarrow> 'v conn \<Rightarrow> 'v conn" where
  "enqueue_ready i c =
     (case c_get i c of
        None \<Rightarrow> c
      | Some s \<Rightarrow>
          if st_queued s \<or> \<not> has_pending_send s then c
          else (c_put i (s\<lparr>st_queued := True\<rparr>) c)\<lparr>c_ready := c_ready c @ [i]\<rparr>)"

definition release_conn_window :: "nat \<Rightarrow> ('v, unit) handler" where
  "release_conn_window len c =
     (case recv_release len (c_conn_recv_window c) of (inc, w) \<Rightarrow>
        let c1 = c\<lparr>c_conn_recv_window := w\<rparr> in
        (case inc of
           None \<Rightarrow> (Inr (), c1)
         | Some k \<Rightarrow> queue_frame (WindowUpdate stream_id_connection (word_of_nat k)) c1))"

definition release_recv_window :: "stream_id \<Rightarrow> nat \<Rightarrow> ('v, unit) handler" where
  "release_recv_window i n c =
     (if n = 0 then (Inr (), c)
      else
        let (stream_increment, c1) =
          (case c_get i c of
             None \<Rightarrow> (None, c)
           | Some s \<Rightarrow>
               (case recv_release n (st_recv_window s) of (inc, w) \<Rightarrow>
                  (inc, c_put i (s\<lparr>st_pending_conn_release := st_pending_conn_release s - n,
                                   st_recv_window := w\<rparr>) c)))
        in and_then
             (case stream_increment of
                None \<Rightarrow> (Inr (), c1)
              | Some k \<Rightarrow> queue_frame (WindowUpdate i (word_of_nat k)) c1)
             (\<lambda>_ c2. and_then
                (if c_get i c2 \<noteq> None then release_conn_window n c2 else (Inr (), c2))
                (\<lambda>_. drain_reclaimed)))"

subsection \<open>Responses\<close>

definition encode_block :: "header list \<Rightarrow> 'v conn \<Rightarrow> octets \<times> 'v conn" where
  "encode_block headers c =
     (case hpack_encode headers (c_hpack_enc c) of (block, e) \<Rightarrow> (block, c\<lparr>c_hpack_enc := e\<rparr>))"

definition mark_started :: "stream_id \<Rightarrow> 'v conn \<Rightarrow> 'v conn" where
  "mark_started i c =
     (case c_get i c of None \<Rightarrow> c | Some s \<Rightarrow> c_put i (s\<lparr>st_response_started := True\<rparr>) c)"

definition send_response :: "'v service \<Rightarrow> stream_id \<Rightarrow> response \<Rightarrow> bool \<Rightarrow> ('v, unit) handler" where
  "send_response S i resp end_stream c =
     (case encode_block (response_to_headers resp) c of (block, c1) \<Rightarrow>
        and_then (queue_frame (Headers i block end_stream True) c1)
          (\<lambda>_ c2. apply_stream_event S i (SendHeaders end_stream) (mark_started i c2)))"

definition send_trailers :: "'v service \<Rightarrow> stream_id \<Rightarrow> header list \<Rightarrow> ('v, unit) handler" where
  "send_trailers S i flds c =
     (if \<not> is_ok (validate_trailers flds) then
        (Inr (), enqueue_ready i
          (case c_get i c of None \<Rightarrow> c | Some s \<Rightarrow> c_put i (s\<lparr>st_send_end_stream := True\<rparr>) c))
      else
        (case (case c_get i c of None \<Rightarrow> None | Some s \<Rightarrow> if has_pending_send s then Some s else None) of
           Some s \<Rightarrow>
             (Inr (), enqueue_ready i
               (c_put i (s\<lparr>st_pending_trailers := Some flds, st_send_end_stream := True\<rparr>) c))
         | None \<Rightarrow>
             (case encode_block flds c of (block, c1) \<Rightarrow>
                and_then (queue_frame (Headers i block True True) c1)
                  (\<lambda>_. apply_stream_event S i (SendHeaders True)))))"

text \<open>The two outcomes of \<^verbatim>\<open>open_peer\<close> that its callers distinguish.\<close>

definition reject_stream :: "'v service \<Rightarrow> stream_id \<Rightarrow> nat \<Rightarrow> ('v, unit) handler" where
  "reject_stream S i st c =
     (if c_get i c \<noteq> None then send_response S i (response_status st) True c
      else
        (case open_peer i (c_streams c) of
           (Inl (RejectProtocol why), t) \<Rightarrow> (Inl (ConnectionError ProtocolError), c\<lparr>c_streams := t\<rparr>)
         | (Inl Refused, t) \<Rightarrow> write_rst_stream S i RefusedStream (c\<lparr>c_streams := t\<rparr>)
         | (Inr s, t) \<Rightarrow>
             and_then (apply_stream_event S i (RecvHeaders True) (c\<lparr>c_streams := t\<rparr>))
               (\<lambda>_. send_response S i (response_status st) True)))"

subsection \<open>Requests\<close>

definition request_body_error :: "stream_id \<Rightarrow> 'v conn \<Rightarrow> error_code option" where
  "request_body_error i c =
     (case c_get i c of
        None \<Rightarrow> None
      | Some s \<Rightarrow> if content_length_matches s then None else Some ProtocolError)"

definition drain_committed :: "'v conn \<Rightarrow> bool" where
  "drain_committed c = (case c_draining c of None \<Rightarrow> False | Some d \<Rightarrow> committed d \<noteq> None)"

definition recv_trailers :: "'v service \<Rightarrow> stream_id \<Rightarrow> stream \<Rightarrow> header list \<Rightarrow> bool \<Rightarrow> ('v, unit) handler" where
  "recv_trailers S i s headers end_stream c =
     (if \<not> peer_can_send (st_state s) then write_rst_stream S i StreamClosed c
      else if \<not> end_stream then write_rst_stream S i ProtocolError c
      else
        (case validate_trailers headers of
           Inl code \<Rightarrow> write_rst_stream S i code c
         | Inr u \<Rightarrow>
             (case request_body_error i c of
                Some code \<Rightarrow> write_rst_stream S i code c
              | None \<Rightarrow> apply_stream_event S i (RecvHeaders end_stream) (notify S (SvTrailers i headers) c))))"

text \<open>A new stream whose HEADERS has been accepted by the table and the state machine.\<close>

definition dispatch_request :: "'v service \<Rightarrow> instant \<Rightarrow> stream_id \<Rightarrow> header list \<Rightarrow> bool \<Rightarrow> ('v, unit) handler" where
  "dispatch_request S now i headers end_stream c =
     (case request_from_headers headers of
        Inl code \<Rightarrow> write_rst_stream S i code c
      | Inr request \<Rightarrow>
          (case request_content_length request of
             Some (Inl code) \<Rightarrow> write_rst_stream S i code c
           | declared \<Rightarrow>
               let c1 = (case (declared, c_get i c) of
                           (Some (Inr n), Some s) \<Rightarrow> c_put i (s\<lparr>st_content_length := Some n\<rparr>) c
                         | _ \<Rightarrow> c)
               in (case (if end_stream then request_body_error i c1 else None) of
                     Some code \<Rightarrow> write_rst_stream S i code c1
                   | None \<Rightarrow>
                       (Inr (), notify S (SvDispatch i request end_stream)
                          (c1\<lparr>c_summary := (c_summary c1)
                                \<lparr>cs_requests_dispatched := cs_requests_dispatched (c_summary c1) + 1\<rparr>,
                              c_last_stream_at := now\<rparr>)))))"

definition recv_request :: "'v service \<Rightarrow> instant \<Rightarrow> stream_id \<Rightarrow> header list \<Rightarrow> bool \<Rightarrow> ('v, unit) handler" where
  "recv_request S now i headers end_stream c =
     (case c_get i c of
        Some s \<Rightarrow> recv_trailers S i s headers end_stream c
      | None \<Rightarrow>
          if lookup_stream i (c_streams c) = LookupClosed then (Inl (ConnectionError StreamClosed), c)
          else if drain_committed c then write_rst_stream S i RefusedStream c
          else
            (case open_peer i (c_streams c) of
               (Inl (RejectProtocol why), t) \<Rightarrow> (Inl (ConnectionError ProtocolError), c\<lparr>c_streams := t\<rparr>)
             | (Inl Refused, t) \<Rightarrow> write_rst_stream S i RefusedStream (c\<lparr>c_streams := t\<rparr>)
             | (Inr s, t) \<Rightarrow>
                 and_then (apply_stream_event S i (RecvHeaders end_stream) (c\<lparr>c_streams := t\<rparr>))
                   (\<lambda>_. dispatch_request S now i headers end_stream)))"

definition count_block :: "'v conn \<Rightarrow> 'v conn" where
  "count_block c =
     c\<lparr>c_summary := (c_summary c)\<lparr>cs_header_blocks_decoded := cs_header_blocks_decoded (c_summary c) + 1\<rparr>\<rparr>"

text \<open>A complete header block, as one HPACK unit.\<close>

definition decode_block :: "'v service \<Rightarrow> instant \<Rightarrow> stream_id \<Rightarrow> octets \<Rightarrow> ('v, unit) handler" where
  "decode_block S now i block c =
     (case hpack_decode block (c_hpack_dec c) of
        (Inr headers, d) \<Rightarrow>
          recv_request S now i headers (c_open_header_end_stream c) (count_block (c\<lparr>c_hpack_dec := d\<rparr>))
      | (Inl (HeaderListTooLarge sz lmt), d) \<Rightarrow>
          reject_stream S i 431 (count_block (c\<lparr>c_hpack_dec := d\<rparr>))
      | (Inl Compression, d) \<Rightarrow> (Inl (ConnectionError CompressionError), c\<lparr>c_hpack_dec := d\<rparr>))"

definition read_header_block :: "'v service \<Rightarrow> instant \<Rightarrow> stream_id \<Rightarrow> octets \<Rightarrow> bool \<Rightarrow> ('v, unit) handler" where
  "read_header_block S now i fragment end_headers c =
     (let pending = length (c_header_block c) in
      if pending + length fragment > max_header_block_bytes
        then (Inl (ConnectionError EnhanceYourCalm), c\<lparr>c_header_block := []\<rparr>)
      else if end_headers \<and> pending = 0 then
        decode_block S now i fragment (c\<lparr>c_guard := on_header_block_end (c_guard c)\<rparr>)
      else
        let c1 = c\<lparr>c_header_block := c_header_block c @ fragment\<rparr> in
        if \<not> end_headers then
          (case on_continuation (c_guard c1) of (v, g) \<Rightarrow> check_verdict v (c1\<lparr>c_guard := g\<rparr>))
        else
          decode_block S now i (c_header_block c1)
            (c1\<lparr>c_guard := on_header_block_end (c_guard c1), c_header_block := []\<rparr>))"

subsection \<open>DATA, RST_STREAM and WINDOW_UPDATE\<close>

definition sat_add_u64 :: "nat \<Rightarrow> nat \<Rightarrow> nat" where
  "sat_add_u64 a b = min (a + b) u64_max"

text \<open>\<^verbatim>\<open>data.len() as u32\<close>.\<close>

definition as_u32 :: "nat \<Rightarrow> nat" where
  "as_u32 n = n mod 2 ^ 32"

text \<open>The octets of a live stream: account for them, judge the end of the body, move the stream,
  tell the responder.\<close>

definition recv_live_data :: "'v service \<Rightarrow> stream_id \<Rightarrow> stream \<Rightarrow> octets \<Rightarrow> bool \<Rightarrow> ('v, unit) handler" where
  "recv_live_data S i s data end_stream c =
     (let len = as_u32 (length data) in
      case recv_record len (st_recv_window s) of (overspent, sw) \<Rightarrow>
        let c1 = c_put i (s\<lparr>st_data_received := sat_add_u64 (st_data_received s) len,
                            st_pending_conn_release := sat_add_u32 (st_pending_conn_release s) len,
                            st_recv_window := sw\<rparr>) c in
        (case overspent of
           Inl code \<Rightarrow> write_rst_stream S i code c1
         | Inr u \<Rightarrow>
             (case (if end_stream then request_body_error i c1 else None) of
                Some code \<Rightarrow> write_rst_stream S i code c1
              | None \<Rightarrow>
                  and_then (apply_stream_event S i (RecvData end_stream) c1) (\<lambda>_ c2.
                    drain_reclaimed
                      (if data \<noteq> [] \<or> end_stream then notify S (SvBody i data end_stream) c2
                       else c2)))))"

definition recv_data :: "'v service \<Rightarrow> stream_id \<Rightarrow> octets \<Rightarrow> bool \<Rightarrow> ('v, unit) handler" where
  "recv_data S i data end_stream c =
     (case on_data (length data) end_stream (c_guard c) of (v, g) \<Rightarrow>
      and_then (check_verdict v (c\<lparr>c_guard := g\<rparr>)) (\<lambda>_ c1.
      case recv_record (as_u32 (length data)) (c_conn_recv_window c1) of (r, w) \<Rightarrow>
      and_then (map_code r, c1\<lparr>c_conn_recv_window := w\<rparr>) (\<lambda>_ c2.
      case lookup_stream i (c_streams c2) of
        LookupIdle \<Rightarrow> (Inl (ConnectionError ProtocolError), c2)
      | LookupClosed \<Rightarrow>
          and_then (release_conn_window (as_u32 (length data)) c2) (\<lambda>_. write_rst_stream S i StreamClosed)
      | LookupLive s \<Rightarrow> recv_live_data S i s data end_stream c2)))"

definition recv_rst_stream :: "'v service \<Rightarrow> instant \<Rightarrow> stream_id \<Rightarrow> error_code \<Rightarrow> ('v, unit) handler" where
  "recv_rst_stream S now i code c =
     (case lookup_stream i (c_streams c) of
        LookupIdle \<Rightarrow> (Inl (ConnectionError ProtocolError), c)
      | LookupClosed \<Rightarrow> (Inr (), c)
      | LookupLive s \<Rightarrow>
          (case on_reset (st_response_started s) now (c_guard c) of (v, g) \<Rightarrow>
             and_then (check_verdict v (c\<lparr>c_guard := g\<rparr>)) (\<lambda>_ c1.
               drain_reclaimed (notify S (SvCancel i code) (retire_and_unqueue i (count_reset c1))))))"

definition recv_window_update :: "'v service \<Rightarrow> stream_id \<Rightarrow> u32 \<Rightarrow> ('v, unit) handler" where
  "recv_window_update S i increment c =
     (if increment = 0 then
        if is_connection i then (Inl (ConnectionError ProtocolError), c)
        else write_rst_stream S i ProtocolError c
      else if is_connection i then
        (case increase (unat increment) (c_conn_send_window c) of (r, w) \<Rightarrow>
           (map_code r, c\<lparr>c_conn_send_window := w\<rparr>))
      else
        (case lookup_stream i (c_streams c) of
           LookupIdle \<Rightarrow> (Inl (ConnectionError ProtocolError), c)
         | LookupClosed \<Rightarrow> (Inr (), c)
         | LookupLive s \<Rightarrow>
             (case increase (unat increment) (st_send_window s) of (r, w) \<Rightarrow>
                let c1 = c_put i (s\<lparr>st_send_window := w\<rparr>) c in
                if \<not> is_ok r then write_rst_stream S i FlowControlError c1
                else (Inr (), enqueue_ready i c1))))"

subsection \<open>SETTINGS\<close>

definition recv_settings :: "(u16 \<times> u32) list \<Rightarrow> ('v, unit) handler" where
  "recv_settings params c =
     (let previous = initial_window_size (c_peer_settings c) in
      case settings_apply params (c_peer_settings c) of (r, s) \<Rightarrow>
      and_then (r, c\<lparr>c_peer_settings := s\<rparr>) (\<lambda>_ c1.
      let c2 = c1\<lparr>c_hpack_enc :=
                   set_max_table_size (unat (header_table_size (c_peer_settings c1))) (c_hpack_enc c1)\<rparr>;
          delta = int (unat (initial_window_size (c_peer_settings c2))) - int (unat previous)
      in and_then
           (if delta \<noteq> 0 then
              (case apply_initial_window_delta (as_i32 delta) (c_streams c2) of
                 (r, t) \<Rightarrow> (map_code r, c2\<lparr>c_streams := t\<rparr>))
            else (Inr (), c2))
           (\<lambda>_ c3. and_then (write_settings_ack c3)
              (\<lambda>_ c4. (Inr (), c4\<lparr>c_summary := (c_summary c4)\<lparr>cs_handshake_completed := True\<rparr>\<rparr>)))))"

definition recv_settings_ack :: "'v conn \<Rightarrow> 'v conn" where
  "recv_settings_ack c =
     (let c1 = c\<lparr>c_peer_acked_settings := True, c_outstanding_settings := c_outstanding_settings c - 1\<rparr> in
      if c_outstanding_settings c1 = 0 \<and> c_admission c1
         \<and> c_advertised_streams c1 \<noteq> c_enforced_streams c1
      then c1\<lparr>c_enforced_streams := c_advertised_streams c1,
              c_streams := set_max_concurrent (unat (c_advertised_streams c1)) (c_streams c1)\<rparr>
      else c1)"

subsection \<open>One frame\<close>

definition continues_block :: "frame \<Rightarrow> stream_id \<Rightarrow> bool" where
  "continues_block f opn = (case f of Continuation i _ _ \<Rightarrow> i = opn | _ \<Rightarrow> False)"

definition is_continuation :: "frame \<Rightarrow> bool" where
  "is_continuation f = (case f of Continuation _ _ _ \<Rightarrow> True | _ \<Rightarrow> False)"

definition is_control :: "frame \<Rightarrow> bool" where
  "is_control f = (case f of Ping _ _ \<Rightarrow> True | SettingsFrame _ _ \<Rightarrow> True | _ \<Rightarrow> False)"

definition block_order_ok :: "frame \<Rightarrow> 'v conn \<Rightarrow> bool" where
  "block_order_ok f c =
     (case c_open_header_block c of
        Some opn \<Rightarrow> continues_block f opn
      | None \<Rightarrow> \<not> is_continuation f)"

fun frame_action :: "'v service \<Rightarrow> instant \<Rightarrow> frame \<Rightarrow> ('v, next_step) handler" where
  "frame_action S now (SettingsFrame ack params) c =
     (if \<not> ack then and_then (recv_settings params c) (\<lambda>_ c. (Inr Continue, c))
      else (Inr Continue, recv_settings_ack c))"
| "frame_action S now (Ping data ack) c =
     (if \<not> ack then and_then (queue_frame (Ping data True) c) (\<lambda>_ c. (Inr Continue, c))
      else (Inr Continue, c))"
| "frame_action S now (GoAway i code debug) c = (Inr Close, c)"
| "frame_action S now (WindowUpdate i inc) c =
     and_then (recv_window_update S i inc c) (\<lambda>_ c. (Inr Continue, c))"
| "frame_action S now (Headers i block end_stream end_headers) c =
     and_then (read_header_block S now i block end_headers
         (if c_open_header_block c = None then c\<lparr>c_open_header_end_stream := end_stream\<rparr> else c))
       (\<lambda>_ c. (Inr Continue, c))"
| "frame_action S now (Continuation i block end_headers) c =
     and_then (read_header_block S now i block end_headers c) (\<lambda>_ c. (Inr Continue, c))"
| "frame_action S now (Data i data end_stream) c =
     and_then (recv_data S i data end_stream c) (\<lambda>_ c. (Inr Continue, c))"
| "frame_action S now (RstStream i code) c =
     and_then (recv_rst_stream S now i code c) (\<lambda>_ c. (Inr Continue, c))"

fun block_after :: "frame \<Rightarrow> stream_id option \<Rightarrow> stream_id option" where
  "block_after (Headers i _ _ end_headers) opn = (if end_headers then None else Some i)"
| "block_after (Continuation i _ end_headers) opn = (if end_headers then None else Some i)"
| "block_after _ opn = opn"

definition handle_frame :: "'v service \<Rightarrow> instant \<Rightarrow> frame \<Rightarrow> ('v, next_step) handler" where
  "handle_frame S now f c =
     (if \<not> block_order_ok f c then (Inl (ConnectionError ProtocolError), c)
      else
        and_then
          (if is_control f
           then (case on_control_frame now (c_guard c) of (v, g) \<Rightarrow> check_verdict v (c\<lparr>c_guard := g\<rparr>))
           else (Inr (), c))
          (\<lambda>_ c0. let c1 = c0\<lparr>c_received := c_received c0 @ [f]\<rparr> in and_then (frame_action S now f c1)
             (\<lambda>next c2. (Inr next,
                if next = Close then c2
                else c2\<lparr>c_open_header_block := block_after f (c_open_header_block c2)\<rparr>))))"

definition reject_if_mid_header_block :: "frame_type \<Rightarrow> stream_id \<Rightarrow> ('v, unit) handler" where
  "reject_if_mid_header_block kind i c =
     (case c_open_header_block c of
        Some opn \<Rightarrow> (Inl (ConnectionError ProtocolError), c)
      | None \<Rightarrow> (Inr (), c))"

subsection \<open>What the writing primitives leave alone\<close>

text \<open>
  Frame facts: the fields the small operations do not touch, as simplification rules. They carry
  the invariant proofs about the handlers.
\<close>

lemma queue_frame_cases:
  obtains (queued) bs where "queue_frame f c = (Inr (), c\<lparr>c_out := c_out c @ bs, c_frames := c_frames c @ [f]\<rparr>)"
  | (refused) "queue_frame f c = (Inl (ConnectionError InternalError), c)"
  by (cases "encode (c_codec c) f []"; cases "fst (encode (c_codec c) f [])") (auto simp: queue_frame_def)

lemma queue_frame_fields [simp]:
  "c_received (snd (queue_frame f c)) = c_received c"
  "c_read_buf (snd (queue_frame f c)) = c_read_buf c"
  "c_local_settings (snd (queue_frame f c)) = c_local_settings c"
  "c_admission (snd (queue_frame f c)) = c_admission c"
  "c_advertised_streams (snd (queue_frame f c)) = c_advertised_streams c"
  "c_outstanding_settings (snd (queue_frame f c)) = c_outstanding_settings c"
  "c_enforced_streams (snd (queue_frame f c)) = c_enforced_streams c"
  "c_stream_ceiling (snd (queue_frame f c)) = c_stream_ceiling c"
  "c_peer_settings (snd (queue_frame f c)) = c_peer_settings c"
  "c_open_header_block (snd (queue_frame f c)) = c_open_header_block c"
  "c_open_header_end_stream (snd (queue_frame f c)) = c_open_header_end_stream c"
  "c_header_block (snd (queue_frame f c)) = c_header_block c"
  "c_hpack_dec (snd (queue_frame f c)) = c_hpack_dec c"
  "c_hpack_enc (snd (queue_frame f c)) = c_hpack_enc c"
  "c_streams (snd (queue_frame f c)) = c_streams c"
  "c_conn_send_window (snd (queue_frame f c)) = c_conn_send_window c"
  "c_conn_recv_window (snd (queue_frame f c)) = c_conn_recv_window c"
  "c_conn_window (snd (queue_frame f c)) = c_conn_window c"
  "c_ready (snd (queue_frame f c)) = c_ready c"
  "c_pending_reset (snd (queue_frame f c)) = c_pending_reset c"
  "c_guard (snd (queue_frame f c)) = c_guard c"
  "c_draining (snd (queue_frame f c)) = c_draining c"
  "c_calls (snd (queue_frame f c)) = c_calls c"
  "c_events (snd (queue_frame f c)) = c_events c"
  "c_summary (snd (queue_frame f c)) = c_summary c"
  by (cases rule: queue_frame_cases [of f c]; simp)+

lemma notify_fields [simp]:
  "c_out (notify S call c) = c_out c"
  "c_frames (notify S call c) = c_frames c"
  "c_received (notify S call c) = c_received c"
  "c_read_buf (notify S call c) = c_read_buf c"
  "c_local_settings (notify S call c) = c_local_settings c"
  "c_admission (notify S call c) = c_admission c"
  "c_advertised_streams (notify S call c) = c_advertised_streams c"
  "c_outstanding_settings (notify S call c) = c_outstanding_settings c"
  "c_enforced_streams (notify S call c) = c_enforced_streams c"
  "c_stream_ceiling (notify S call c) = c_stream_ceiling c"
  "c_peer_settings (notify S call c) = c_peer_settings c"
  "c_open_header_block (notify S call c) = c_open_header_block c"
  "c_open_header_end_stream (notify S call c) = c_open_header_end_stream c"
  "c_header_block (notify S call c) = c_header_block c"
  "c_hpack_dec (notify S call c) = c_hpack_dec c"
  "c_hpack_enc (notify S call c) = c_hpack_enc c"
  "c_streams (notify S call c) = c_streams c"
  "c_conn_send_window (notify S call c) = c_conn_send_window c"
  "c_conn_recv_window (notify S call c) = c_conn_recv_window c"
  "c_conn_window (notify S call c) = c_conn_window c"
  "c_ready (notify S call c) = c_ready c"
  "c_pending_reset (notify S call c) = c_pending_reset c"
  "c_guard (notify S call c) = c_guard c"
  "c_draining (notify S call c) = c_draining c"
  "c_calls (notify S call c) = c_calls c @ [call]"
  "c_summary (notify S call c) = c_summary c"
  by (simp_all add: notify_def split: prod.split)

lemma take_reclaimed_eq: "take_reclaimed t = (reclaimed t, t\<lparr>reclaimed := 0\<rparr>)"
  by (simp add: take_reclaimed_def)

lemma drain_reclaimed_fields [simp]:
  "c_streams (snd (drain_reclaimed c)) = (c_streams c)\<lparr>reclaimed := 0\<rparr>"
  "c_received (snd (drain_reclaimed c)) = c_received c"
  "c_read_buf (snd (drain_reclaimed c)) = c_read_buf c"
  "c_local_settings (snd (drain_reclaimed c)) = c_local_settings c"
  "c_admission (snd (drain_reclaimed c)) = c_admission c"
  "c_advertised_streams (snd (drain_reclaimed c)) = c_advertised_streams c"
  "c_outstanding_settings (snd (drain_reclaimed c)) = c_outstanding_settings c"
  "c_enforced_streams (snd (drain_reclaimed c)) = c_enforced_streams c"
  "c_stream_ceiling (snd (drain_reclaimed c)) = c_stream_ceiling c"
  "c_peer_settings (snd (drain_reclaimed c)) = c_peer_settings c"
  "c_open_header_block (snd (drain_reclaimed c)) = c_open_header_block c"
  "c_open_header_end_stream (snd (drain_reclaimed c)) = c_open_header_end_stream c"
  "c_header_block (snd (drain_reclaimed c)) = c_header_block c"
  "c_hpack_dec (snd (drain_reclaimed c)) = c_hpack_dec c"
  "c_hpack_enc (snd (drain_reclaimed c)) = c_hpack_enc c"
  "c_conn_send_window (snd (drain_reclaimed c)) = c_conn_send_window c"
  "c_conn_window (snd (drain_reclaimed c)) = c_conn_window c"
  "c_ready (snd (drain_reclaimed c)) = c_ready c"
  "c_pending_reset (snd (drain_reclaimed c)) = c_pending_reset c"
  "c_guard (snd (drain_reclaimed c)) = c_guard c"
  "c_draining (snd (drain_reclaimed c)) = c_draining c"
  "c_calls (snd (drain_reclaimed c)) = c_calls c"
  "c_events (snd (drain_reclaimed c)) = c_events c"
  "c_summary (snd (drain_reclaimed c)) = c_summary c"
  by (simp_all add: drain_reclaimed_def take_reclaimed_eq Let_def split: prod.splits option.splits)

lemma release_conn_window_fields [simp]:
  "c_received (snd (release_conn_window n c)) = c_received c"
  "c_read_buf (snd (release_conn_window n c)) = c_read_buf c"
  "c_local_settings (snd (release_conn_window n c)) = c_local_settings c"
  "c_admission (snd (release_conn_window n c)) = c_admission c"
  "c_advertised_streams (snd (release_conn_window n c)) = c_advertised_streams c"
  "c_outstanding_settings (snd (release_conn_window n c)) = c_outstanding_settings c"
  "c_enforced_streams (snd (release_conn_window n c)) = c_enforced_streams c"
  "c_stream_ceiling (snd (release_conn_window n c)) = c_stream_ceiling c"
  "c_peer_settings (snd (release_conn_window n c)) = c_peer_settings c"
  "c_open_header_block (snd (release_conn_window n c)) = c_open_header_block c"
  "c_open_header_end_stream (snd (release_conn_window n c)) = c_open_header_end_stream c"
  "c_header_block (snd (release_conn_window n c)) = c_header_block c"
  "c_hpack_dec (snd (release_conn_window n c)) = c_hpack_dec c"
  "c_hpack_enc (snd (release_conn_window n c)) = c_hpack_enc c"
  "c_streams (snd (release_conn_window n c)) = c_streams c"
  "c_conn_send_window (snd (release_conn_window n c)) = c_conn_send_window c"
  "c_conn_window (snd (release_conn_window n c)) = c_conn_window c"
  "c_ready (snd (release_conn_window n c)) = c_ready c"
  "c_pending_reset (snd (release_conn_window n c)) = c_pending_reset c"
  "c_guard (snd (release_conn_window n c)) = c_guard c"
  "c_draining (snd (release_conn_window n c)) = c_draining c"
  "c_calls (snd (release_conn_window n c)) = c_calls c"
  "c_events (snd (release_conn_window n c)) = c_events c"
  "c_summary (snd (release_conn_window n c)) = c_summary c"
  by (simp_all add: release_conn_window_def Let_def split: prod.splits option.splits)

end
