(* ===== verification/Conn_Pump.thy ===== *)
theory Conn_Pump
  imports Conn_Handlers
begin

section \<open>The round-robin sender of a client connection\<close>

text \<open>
  \<^verbatim>\<open>take_from_queue\<close>, \<^verbatim>\<open>visit_ready_stream\<close> and \<^verbatim>\<open>pump_outbound\<close> of \<^verbatim>\<open>core/src/conn.rs\<close>. The loop of
  \<^verbatim>\<open>pump_outbound\<close> runs until a lap writes nothing; that it ends is proved, with the queued work
  as the measure, before the loop can be defined.
\<close>

subsection \<open>One visit\<close>

fun take_from_queue :: "octets list \<Rightarrow> nat \<Rightarrow> octets \<times> octets list" where
  "take_from_queue [] budget = ([], [])"
| "take_from_queue (front # rest) budget =
     (if length front \<le> budget then (front, rest)
      else (take budget front, drop budget front # rest))"

definition visit_budget :: "stream \<Rightarrow> 'v conn \<Rightarrow> nat" where
  "visit_budget s c =
     min (min (min send_budget (sendable (st_send_window s))) (sendable (c_conn_send_window c)))
         (unat (max_frame_size (c_peer_settings c)))"

definition spend_windows :: "nat \<Rightarrow> stream_id \<Rightarrow> stream \<Rightarrow> ('v, unit) handler" where
  "spend_windows len i s c =
     (if len > 0 then
        (case consume len (st_send_window s) of (r, w) \<Rightarrow>
           and_then (map_code r, c_put i (s\<lparr>st_send_window := w\<rparr>) c)
             (\<lambda>_ c1. case consume len (c_conn_send_window c1) of (r, w) \<Rightarrow>
                (map_code r, c1\<lparr>c_conn_send_window := w\<rparr>)))
      else (Inr (), c_put i s c))"

definition count_sent :: "nat \<Rightarrow> 'v conn \<Rightarrow> 'v conn" where
  "count_sent n c =
     c\<lparr>c_summary := (c_summary c)\<lparr>cs_data_bytes_sent := cs_data_bytes_sent (c_summary c) + n\<rparr>\<rparr>"

definition write_data :: "'v service \<Rightarrow> stream_id \<Rightarrow> octets \<Rightarrow> bool \<Rightarrow> ('v, unit) handler" where
  "write_data S i chunk end_stream c =
     (if length chunk > 0 \<or> end_stream then
        and_then (queue_frame (Data i chunk end_stream) c)
          (\<lambda>_ c1. apply_stream_event S i (SendData end_stream) (count_sent (length chunk) c1))
      else (Inr (), c))"

text \<open>The stream after a visit has taken what it may, what it took, and whether the stream ends.\<close>

definition visit_take :: "stream \<Rightarrow> nat \<Rightarrow> octets \<times> bool \<times> header list option \<times> stream" where
  "visit_take s budget =
     (let (chunk, q) = take_from_queue (st_send_queue s) budget;
          drained = (q = []);
          trailers = (if drained then st_pending_trailers s else None);
          end_stream = (drained \<and> st_send_end_stream s \<and> trailers = None)
      in (chunk, end_stream, trailers,
          s\<lparr>st_send_queue := q,
            st_pending_trailers := (if drained then None else st_pending_trailers s),
            st_send_end_stream := (if end_stream \<or> trailers \<noteq> None then False else st_send_end_stream s)\<rparr>))"

text \<open>A visit that has something to write.\<close>

definition visit_emit :: "'v service \<Rightarrow> stream_id \<Rightarrow> octets \<Rightarrow> bool \<Rightarrow> header list option \<Rightarrow> stream
    \<Rightarrow> ('v, visit) handler" where
  "visit_emit S i chunk end_stream trailers s c =
     and_then (spend_windows (length chunk) i s c) (\<lambda>_ c1.
     and_then (write_data S i chunk end_stream c1) (\<lambda>_ c2.
     let c3 = (if length chunk > 0 then notify S (SvReleased i (length chunk)) c2 else c2) in
     and_then (case trailers of None \<Rightarrow> (Inr (), c3) | Some flds \<Rightarrow> send_trailers S i flds c3)
       (\<lambda>_ c4. (Inr (Wrote (case c_get i c4 of None \<Rightarrow> False | Some s' \<Rightarrow> has_pending_send s')), c4))))"

definition visit_ready_stream :: "'v service \<Rightarrow> stream_id \<Rightarrow> ('v, visit) handler" where
  "visit_ready_stream S i c =
     (case c_get i c of
        None \<Rightarrow> (Inr VisitFinished, c)
      | Some s0 \<Rightarrow>
          let s = s0\<lparr>st_queued := False\<rparr>; budget = visit_budget s c in
          if pending_send s > 0 \<and> budget = 0 then (Inr Stalled, c_put i s c)
          else
            (case visit_take s budget of (chunk, end_stream, trailers, s1) \<Rightarrow>
               if chunk = [] \<and> \<not> end_stream \<and> trailers = None then (Inr VisitFinished, c_put i s1 c)
               else visit_emit S i chunk end_stream trailers s1 c))"

subsection \<open>One lap\<close>

fun visit_lap :: "'v service \<Rightarrow> stream_id list \<Rightarrow> stream_id list \<Rightarrow> stream_id list \<Rightarrow> bool
    \<Rightarrow> ('v, stream_id list \<times> stream_id list \<times> bool) handler" where
  "visit_lap S [] stalled served wrote c = (Inr (stalled, served, wrote), c)"
| "visit_lap S (i # lap) stalled served wrote c =
     and_then (visit_ready_stream S i c) (\<lambda>v. case v of
         Stalled \<Rightarrow> visit_lap S lap (stalled @ [i]) served wrote
       | Wrote again \<Rightarrow> visit_lap S lap stalled (if again then served @ [i] else served) True
       | VisitFinished \<Rightarrow> visit_lap S lap stalled served wrote)"

definition mark_queued :: "stream_id \<Rightarrow> 'v conn \<Rightarrow> 'v conn" where
  "mark_queued i c = (case c_get i c of None \<Rightarrow> c | Some s \<Rightarrow> c_put i (s\<lparr>st_queued := True\<rparr>) c)"

definition rebuild_ring :: "stream_id list \<Rightarrow> 'v conn \<Rightarrow> 'v conn" where
  "rebuild_ring ring c =
     (let c1 = fold mark_queued ring (c\<lparr>c_ready := ring\<rparr>)
      in c1\<lparr>c_ready := filter (\<lambda>i. c_get i c1 \<noteq> None) (c_ready c1)\<rparr>)"

definition count_stall :: "'v conn \<Rightarrow> 'v conn" where
  "count_stall c =
     c\<lparr>c_summary := (c_summary c)\<lparr>cs_flow_control_stalls := cs_flow_control_stalls (c_summary c) + 1\<rparr>\<rparr>"

definition pump_lap :: "'v service \<Rightarrow> ('v, bool) handler" where
  "pump_lap S c =
     and_then (visit_lap S (c_ready c) [] [] False (c\<lparr>c_ready := []\<rparr>))
       (\<lambda>(stalled, served, wrote) c1.
          let c2 = rebuild_ring (stalled @ served) c1 in
          (Inr wrote, if \<not> wrote \<and> c_ready c2 \<noteq> [] then count_stall c2 else c2))"

subsection \<open>Every lap that writes leaves less to write\<close>

definition stream_work :: "stream \<Rightarrow> nat" where
  "stream_work s = pending_send s + of_bool (st_send_end_stream s)
     + (if st_pending_trailers s = None then 0 else 2)"

definition table_work :: "stream_table \<Rightarrow> nat" where
  "table_work t = sum_list (map (stream_work \<circ> snd) (live t))"

definition conn_work :: "'v conn \<Rightarrow> nat" where
  "conn_work c = table_work (c_streams c)"

lemma sum_update_map_of:
  "map_of al i = Some s \<Longrightarrow>
   sum_list (map (f \<circ> snd) (AList.update i s' al)) + f s = sum_list (map (f \<circ> snd) al) + (f s' :: nat)"
  by (induction al) (auto split: if_splits)

lemma sum_delete_le: "sum_list (map f (AList.delete i al)) \<le> sum_list (map (f :: _ \<Rightarrow> nat) al)"
  unfolding AList.delete_eq by (induction al) auto

lemma work_put:
  "c_get i c = Some s \<Longrightarrow> conn_work (c_put i s' c) + stream_work s = conn_work c + stream_work s'"
  using sum_update_map_of [of "live (c_streams c)" i s stream_work s']
  by (simp add: conn_work_def table_work_def c_put_def c_get_def get_stream_def)

lemma table_work_retire: "table_work (retire i t) \<le> table_work t"
  using sum_delete_le [of "stream_work \<circ> snd" i "live t"]
  by (auto simp: table_work_def retire_def split: option.split)

lemma table_work_apply: "table_work (snd (apply_event i e t)) \<le> table_work t"
proof (cases "map_of (live t) i")
  case (Some s)
  have put: "table_work (put_stream i (s\<lparr>st_state := n\<rparr>) t) = table_work t" for n
    using sum_update_map_of [OF Some, of stream_work "s\<lparr>st_state := n\<rparr>"]
    by (simp add: table_work_def put_stream_def stream_work_def pending_send_def)
  show ?thesis
    using Some put table_work_retire [of i]
    by (auto simp: apply_event_def Let_def split: sum.split) (metis put table_work_retire)
qed (simp add: apply_event_absent)

lemma work_apply_event: "conn_work (snd (apply_stream_event S i e c)) \<le> conn_work c"
proof -
  obtain r t where a: "apply_event i e (c_streams c) = (r, t)" by (cases "apply_event i e (c_streams c)")
  have t: "table_work t \<le> conn_work c" using table_work_apply [of i e "c_streams c"] a by (simp add: conn_work_def)
  show ?thesis
    using t table_work_retire [of i t]
    by (cases r) (auto simp: apply_stream_event_def a conn_work_def Let_def retire_and_unqueue_def
        table_work_def split: if_splits)
qed

lemma c_get_put [simp]: "c_get j (c_put i s c) = (if j = i then Some s else c_get j c)"
  by (simp add: c_get_def c_put_def get_stream_def)

lemma c_get_streams: "c_streams c' = c_streams c \<Longrightarrow> c_get i c' = c_get i c"
  by (simp add: c_get_def)

lemma get_retire: "get_stream j (retire i t) = (if j = i then None else get_stream j t)"
  by (auto simp: get_stream_def retire_def split: option.split)

lemma get_apply_event:
  "get_stream j (snd (apply_event i e t)) = Some s' \<Longrightarrow>
   \<exists>s n. get_stream j t = Some s \<and> s' = s\<lparr>st_state := n\<rparr>"
proof (cases "map_of (live t) i")
  case None
  assume "get_stream j (snd (apply_event i e t)) = Some s'"
  with None have "get_stream j t = Some s' \<and> s' = s'\<lparr>st_state := st_state s'\<rparr>"
    by (simp add: apply_event_absent)
  then show ?thesis by blast
next
  case (Some s)
  assume a: "get_stream j (snd (apply_event i e t)) = Some s'"
  show ?thesis
  proof (cases "transition (st_state s) e")
    case (Inl c)
    with a Some have "get_stream j t = Some s' \<and> s' = s'\<lparr>st_state := st_state s'\<rparr>"
      by (simp add: apply_event_def)
    then show ?thesis by blast
  next
    case (Inr n)
    with a Some have "get_stream j (put_stream i (s\<lparr>st_state := n\<rparr>) t) = Some s'"
      by (auto simp: apply_event_def get_retire Let_def split: if_splits)
    then have "j = i \<and> s' = s\<lparr>st_state := n\<rparr> \<or> j \<noteq> i \<and> get_stream j t = Some s'"
      by (auto simp: get_stream_def split: if_splits)
    then show ?thesis
    proof
      assume "j = i \<and> s' = s\<lparr>st_state := n\<rparr>"
      then show ?thesis using Some by (auto simp: get_stream_def)
    next
      assume "j \<noteq> i \<and> get_stream j t = Some s'"
      then have "get_stream j t = Some s' \<and> s' = s'\<lparr>st_state := st_state s'\<rparr>" by simp
      then show ?thesis by blast
    qed
  qed
qed

lemma get_reclaimed [simp]: "get_stream j (t\<lparr>reclaimed := n\<rparr>) = get_stream j t"
  by (simp add: get_stream_def)

lemma get_apply_stream_event:
  assumes "c_get j (snd (apply_stream_event S i e c)) = Some s'"
  shows "\<exists>s n. c_get j c = Some s \<and> s' = s\<lparr>st_state := n\<rparr>"
proof -
  obtain r t where a: "apply_event i e (c_streams c) = (r, t)" by (cases "apply_event i e (c_streams c)")
  have "get_stream j t = Some s'"
    using assms by (cases r) (auto simp: apply_stream_event_def a Let_def c_get_def retire_and_unqueue_def
        get_retire split: if_splits)
  then show ?thesis using get_apply_event [of j i e "c_streams c" s'] a by (simp add: c_get_def)
qed

lemma take_from_queue_lengths:
  "take_from_queue q b = (chunk, q') \<Longrightarrow>
   sum_list (map length q) = length chunk + sum_list (map length q') \<and> length chunk \<le> b"
  by (induction q b rule: take_from_queue.induct) (auto split: if_splits)

lemma visit_take_work:
  assumes "visit_take s b = (chunk, end_stream, trailers, s1)"
  shows "stream_work s1 \<le> stream_work s"
    and "chunk \<noteq> [] \<or> end_stream \<Longrightarrow> stream_work s1 < stream_work s"
    and "trailers \<noteq> None \<Longrightarrow> stream_work s1 + 2 \<le> stream_work s \<and> \<not> has_pending_send s1"
proof -
  obtain q where q: "take_from_queue (st_send_queue s) b = (chunk, q)"
    by (cases "take_from_queue (st_send_queue s) b") (use assms in \<open>auto simp: visit_take_def Let_def\<close>)
  note len = take_from_queue_lengths [OF q]
  have d: "trailers = (if q = [] then st_pending_trailers s else None)"
      "end_stream \<longleftrightarrow> q = [] \<and> st_send_end_stream s \<and> trailers = None"
      "st_send_queue s1 = q" "st_pending_trailers s1 = (if q = [] then None else st_pending_trailers s)"
      "st_send_end_stream s1 = (if end_stream \<or> trailers \<noteq> None then False else st_send_end_stream s)"
    using assms unfolding visit_take_def q Let_def prod.case by auto
  have work: "stream_work s1 = sum_list (map length q) + of_bool (st_send_end_stream s1)
        + (if st_pending_trailers s1 = None then 0 else 2)"
      "stream_work s = length chunk + sum_list (map length q) + of_bool (st_send_end_stream s)
        + (if st_pending_trailers s = None then 0 else 2)"
    using len by (simp_all add: stream_work_def pending_send_def d(3))
  show "stream_work s1 \<le> stream_work s"
    unfolding work using d(4,5) by simp
  show "stream_work s1 < stream_work s" if "chunk \<noteq> [] \<or> end_stream"
    unfolding work using d(2,4,5) that by (cases "chunk = []") auto
  show "stream_work s1 + 2 \<le> stream_work s \<and> \<not> has_pending_send s1" if "trailers \<noteq> None"
  proof -
    have "q = []" "st_pending_trailers s \<noteq> None" using d(1) that by (auto split: if_splits)
    then show ?thesis
      unfolding work has_pending_send_def using d(3,4,5) that by auto
  qed
qed

lemma spend_windows_work:
  assumes "c_get i c = Some s"
  shows "conn_work (snd (spend_windows n i s1 c)) + stream_work s = conn_work c + stream_work s1"
    and "\<exists>w. c_get i (snd (spend_windows n i s1 c)) = Some (s1\<lparr>st_send_window := w\<rparr>)"
proof -
  have w: "stream_work (s1\<lparr>st_send_window := w\<rparr>) = stream_work s1" for w
    by (simp add: stream_work_def pending_send_def)
  have put: "conn_work (c_put i (s1\<lparr>st_send_window := w\<rparr>) c) + stream_work s = conn_work c + stream_work s1" for w
    using work_put [OF assms, of "s1\<lparr>st_send_window := w\<rparr>"] by (simp add: w)
  have wid: "s1 = s1\<lparr>st_send_window := st_send_window s1\<rparr>" by simp
  have keep: "conn_work (d\<lparr>c_conn_send_window := v\<rparr>) = conn_work d"
      "c_get i (d\<lparr>c_conn_send_window := v\<rparr>) = c_get i d" for d v
    by (simp_all add: conn_work_def c_get_def)
  show "conn_work (snd (spend_windows n i s1 c)) + stream_work s = conn_work c + stream_work s1"
    using put put [of "st_send_window s1"]
    by (auto simp: spend_windows_def and_then_def keep split: prod.split sum.split)
  show "\<exists>w. c_get i (snd (spend_windows n i s1 c)) = Some (s1\<lparr>st_send_window := w\<rparr>)"
  proof (cases "n = 0")
    case True
    then show ?thesis by (simp add: spend_windows_def) (rule exI, rule wid)
  next
    case False
    then show ?thesis by (auto simp: spend_windows_def and_then_def keep split: prod.split sum.split)
  qed
qed

lemma conn_work_streams: "live (c_streams c') = live (c_streams c) \<Longrightarrow> conn_work c' = conn_work c"
  by (simp add: conn_work_def table_work_def)

lemma write_data_work:
  "conn_work (snd (write_data S i chunk e c)) \<le> conn_work c"
  "c_get i (snd (write_data S i chunk e c)) = Some s' \<Longrightarrow> \<exists>s n. c_get i c = Some s \<and> s' = s\<lparr>st_state := n\<rparr>"
proof -
  have a: "conn_work (count_sent k d) = conn_work d" "c_get i (count_sent k d) = c_get i d" for k d
    by (simp_all add: conn_work_def count_sent_def c_get_def)
  have q: "conn_work (snd (queue_frame f c)) = conn_work c" "c_get i (snd (queue_frame f c)) = c_get i c" for f
    by (simp_all add: conn_work_def c_get_def)
  have sid: "\<exists>s n. Some s' = Some s \<and> s' = s\<lparr>st_state := n\<rparr>" for s' :: stream
    by (rule exI [of _ s'], rule exI [of _ "st_state s'"]) simp
  let ?f = "Data i chunk e"
  obtain r c1 where qf: "queue_frame ?f c = (r, c1)" by (cases "queue_frame ?f c")
  have c1: "conn_work c1 = conn_work c" "c_get i c1 = c_get i c" using q [of ?f] by (simp_all add: qf)
  show "conn_work (snd (write_data S i chunk e c)) \<le> conn_work c"
    using work_apply_event [of S i "SendData e" "count_sent (length chunk) c1"]
    by (cases r) (simp_all add: write_data_def qf a c1)
  show "\<exists>s n. c_get i c = Some s \<and> s' = s\<lparr>st_state := n\<rparr>"
    if "c_get i (snd (write_data S i chunk e c)) = Some s'"
    using that get_apply_stream_event [of i S i "SendData e" "count_sent (length chunk) c1" s'] sid
    by (cases r) (auto simp: write_data_def qf a c1 split: if_splits)
qed

lemma enqueue_ready_work [simp]: "conn_work (enqueue_ready i c) = conn_work c"
proof (cases "c_get i c")
  case (Some s)
  have "conn_work (c_put i (s\<lparr>st_queued := True\<rparr>) c) = conn_work c"
    using work_put [OF Some, of "s\<lparr>st_queued := True\<rparr>"] by (simp add: stream_work_def pending_send_def)
  then show ?thesis using Some by (simp add: enqueue_ready_def conn_work_def)
qed (simp add: enqueue_ready_def)

lemma send_trailers_work:
  assumes "\<And>s. c_get i c = Some s \<Longrightarrow> \<not> has_pending_send s"
  shows "conn_work (snd (send_trailers S i flds c)) \<le> conn_work c + 1"
proof (cases "is_ok (validate_trailers flds)")
  case False
  show ?thesis
  proof (cases "c_get i c")
    case (Some s)
    show ?thesis
      using False Some work_put [OF Some, of "s\<lparr>st_send_end_stream := True\<rparr>"]
      by (simp add: send_trailers_def stream_work_def pending_send_def)
  qed (use False in \<open>simp add: send_trailers_def\<close>)
next
  case True
  obtain block c1 where b: "encode_block flds c = (block, c1)" by (cases "encode_block flds c")
  have c1: "c_streams c1 = c_streams c"
    using b by (auto simp: encode_block_def split: prod.splits)
  obtain r c2 where q: "queue_frame (Headers i block True True) c1 = (r, c2)"
    by (cases "queue_frame (Headers i block True True) c1")
  have "c_streams c2 = c_streams c" using queue_frame_fields(15) [of "Headers i block True True" c1] by (simp add: q c1)
  then have c2: "conn_work c2 = conn_work c" by (simp add: conn_work_def)
  have none: "(case c_get i c of None \<Rightarrow> None | Some s \<Rightarrow> if has_pending_send s then Some s else None) = None"
    using assms by (auto split: option.split)
  show ?thesis
    using work_apply_event [of S i "SendHeaders True" c2] True none c2
    by (cases r) (simp_all add: send_trailers_def b q)
qed

lemma visit_cases:
  obtains (gone) "c_get i c = None" "visit_ready_stream S i c = (Inr VisitFinished, c)"
  | (stalled) s where "c_get i c = Some s" "pending_send s > 0"
      "visit_budget s c = 0" "visit_ready_stream S i c = (Inr Stalled, c_put i (s\<lparr>st_queued := False\<rparr>) c)"
  | (idle) s s1 where "c_get i c = Some s"
      "visit_take (s\<lparr>st_queued := False\<rparr>) (visit_budget s c) = ([], False, None, s1)"
      "pending_send s = 0 \<or> visit_budget s c > 0"
      "visit_ready_stream S i c = (Inr VisitFinished, c_put i s1 c)"
  | (emits) s chunk end_stream trailers s1 where "c_get i c = Some s"
      "visit_take (s\<lparr>st_queued := False\<rparr>) (visit_budget s c) = (chunk, end_stream, trailers, s1)"
      "chunk \<noteq> [] \<or> end_stream \<or> trailers \<noteq> None" "pending_send s = 0 \<or> visit_budget s c > 0"
      "visit_ready_stream S i c = visit_emit S i chunk end_stream trailers s1 c"
proof (cases "c_get i c")
  case None
  then show ?thesis by (intro gone) (simp_all add: visit_ready_stream_def)
next
  case (Some s)
  have q: "pending_send (s\<lparr>st_queued := False\<rparr>) = pending_send s"
      "visit_budget (s\<lparr>st_queued := False\<rparr>) c = visit_budget s c"
    by (simp_all add: pending_send_def visit_budget_def)
  obtain chunk end_stream trailers s1 where
    tk: "visit_take (s\<lparr>st_queued := False\<rparr>) (visit_budget s c) = (chunk, end_stream, trailers, s1)"
    by (cases "visit_take (s\<lparr>st_queued := False\<rparr>) (visit_budget s c)") auto
  show ?thesis
  proof (cases "pending_send s > 0 \<and> visit_budget s c = 0")
    case True
    then show ?thesis using Some q by (intro stalled) (simp_all add: visit_ready_stream_def)
  next
    case False
    then have b: "pending_send s = 0 \<or> visit_budget s c > 0" by auto
    have v: "visit_ready_stream S i c =
        (if chunk = [] \<and> \<not> end_stream \<and> trailers = None then (Inr VisitFinished, c_put i s1 c)
         else visit_emit S i chunk end_stream trailers s1 c)"
      using Some False q tk by (auto simp: visit_ready_stream_def Let_def)
    show ?thesis
    proof (cases "chunk = [] \<and> \<not> end_stream \<and> trailers = None")
      case True
      then show ?thesis using Some b tk v by (intro idle) simp_all
    next
      case False
      then show ?thesis using Some b tk v by (intro emits) auto
    qed
  qed
qed

lemma visit_emit_work:
  assumes get: "c_get i c = Some s0"
    and lt: "stream_work s1 < stream_work s0"
    and tr: "trailers \<noteq> None \<Longrightarrow> stream_work s1 + 2 \<le> stream_work s0 \<and> \<not> has_pending_send s1"
  shows "conn_work (snd (visit_emit S i chunk end_stream trailers s1 c)) < conn_work c"
proof -
  obtain r1 c1 where sp: "spend_windows (length chunk) i s1 c = (r1, c1)"
    by (cases "spend_windows (length chunk) i s1 c")
  obtain r2 c2 where wd: "write_data S i chunk end_stream c1 = (r2, c2)"
    by (cases "write_data S i chunk end_stream c1")
  define c3 where "c3 = (if length chunk > 0 then notify S (SvReleased i (length chunk)) c2 else c2)"
  have c3: "conn_work c3 = conn_work c2" "c_get i c3 = c_get i c2"
    by (simp_all add: c3_def conn_work_def c_get_def)
  have w1: "conn_work c1 + stream_work s0 = conn_work c + stream_work s1"
    using spend_windows_work(1) [OF get, of "length chunk" s1] by (simp add: sp)
  have w2: "conn_work c2 \<le> conn_work c1"
    using write_data_work(1) [of S i chunk end_stream c1] by (simp add: wd)
  have eq: "visit_emit S i chunk end_stream trailers s1 c =
      and_then (r1, c1) (\<lambda>_ _. and_then (r2, c2) (\<lambda>_ _.
        and_then (case trailers of None \<Rightarrow> (Inr (), c3) | Some flds \<Rightarrow> send_trailers S i flds c3)
          (\<lambda>_ c4. (Inr (Wrote (case c_get i c4 of None \<Rightarrow> False | Some s' \<Rightarrow> has_pending_send s')), c4))))"
    unfolding visit_emit_def sp c3_def by (cases r1; cases r2; cases trailers) (simp_all add: wd Let_def split del: if_split)
  show ?thesis
  proof (cases trailers)
    case None
    then show ?thesis unfolding eq using w1 w2 lt c3 by (cases r1; cases r2) simp_all
  next
    case (Some flds)
    have idle: "\<not> has_pending_send s'" if "c_get i c3 = Some s'" for s'
    proof -
      obtain w where g1: "c_get i c1 = Some (s1\<lparr>st_send_window := w\<rparr>)"
        using spend_windows_work(2) [OF get, of "length chunk" s1] by (auto simp: sp)
      have "c_get i (snd (write_data S i chunk end_stream c1)) = Some s'" using that c3 by (simp add: wd)
      from write_data_work(2) [OF this] g1 obtain n where "s' = s1\<lparr>st_send_window := w, st_state := n\<rparr>"
        by auto
      then show ?thesis using tr Some by (simp add: has_pending_send_def)
    qed
    obtain r4 c4 where st: "send_trailers S i flds c3 = (r4, c4)" by (cases "send_trailers S i flds c3")
    have w4: "conn_work c4 \<le> conn_work c3 + 1"
      using send_trailers_work [of i c3 S flds] idle by (simp add: st)
    then show ?thesis
      unfolding eq using w1 w2 c3 Some tr by (cases r1; cases r2; cases r4) (simp_all add: st)
  qed
qed

lemma visit_work:
  "conn_work (snd (visit_ready_stream S i c)) \<le> conn_work c
   \<and> (\<forall>m. fst (visit_ready_stream S i c) = Inr (Wrote m) \<longrightarrow>
         conn_work (snd (visit_ready_stream S i c)) < conn_work c)"
proof (cases rule: visit_cases [of i c S])
  case (stalled s)
  then show ?thesis using work_put [OF stalled(1), of "s\<lparr>st_queued := False\<rparr>"]
    by (simp add: stream_work_def pending_send_def)
next
  case (idle s s1)
  then show ?thesis
    using work_put [OF idle(1), of s1] visit_take_work(1) [OF idle(2)]
    by (simp add: stream_work_def pending_send_def)
next
  case (emits s chunk end_stream trailers s1)
  have q: "stream_work (s\<lparr>st_queued := False\<rparr>) = stream_work s" by (simp add: stream_work_def pending_send_def)
  note tw = visit_take_work [OF emits(2), unfolded q]
  have "conn_work (snd (visit_ready_stream S i c)) < conn_work c"
    unfolding emits(5) using tw emits(3)
    by (intro visit_emit_work [OF emits(1)]) (cases "trailers = None"; auto)+
  then show ?thesis by simp
qed simp

lemma visit_lap_work:
  "conn_work (snd (visit_lap S lap st sv w c)) \<le> conn_work c
   \<and> (\<forall>st' sv' w'. fst (visit_lap S lap st sv w c) = Inr (st', sv', w') \<longrightarrow>
         w' = w \<or> conn_work (snd (visit_lap S lap st sv w c)) < conn_work c)"
proof (induction lap arbitrary: st sv w c)
  case (Cons i lap)
  obtain v c1 where vi: "visit_ready_stream S i c = (v, c1)" by (cases "visit_ready_stream S i c")
  note vw = visit_work [of S i c, unfolded vi]
  show ?case
  proof (cases v)
    case (Inr b)
    note IH = Cons.IH [of _ _ _ c1]
    show ?thesis
    proof (cases b)
      case Stalled
      then show ?thesis using vw Inr IH [of "st @ [i]" sv w] by (auto simp: vi intro: order_trans)
    next
      case (Wrote m)
      then show ?thesis
        using vw Inr IH [of st "if m then sv @ [i] else sv" True] by (auto simp: vi)
    next
      case VisitFinished
      then show ?thesis using vw Inr IH [of st sv w] by (auto simp: vi intro: order_trans)
    qed
  qed (use vw in \<open>simp add: vi\<close>)
qed simp

lemma mark_queued_work: "conn_work (mark_queued i c) = conn_work c"
proof (cases "c_get i c")
  case (Some s)
  then show ?thesis
    using work_put [OF Some, of "s\<lparr>st_queued := True\<rparr>"]
    by (simp add: mark_queued_def stream_work_def pending_send_def)
qed (simp add: mark_queued_def)

lemma rebuild_ring_work: "conn_work (rebuild_ring ring c) = conn_work c"
proof -
  have f: "conn_work (fold mark_queued is d) = conn_work d" for "is" and d :: "'b conn"
    by (induction "is" arbitrary: d) (simp_all add: mark_queued_work)
  have r: "conn_work (d\<lparr>c_ready := x\<rparr>) = conn_work d" for d :: "'b conn" and x
    by (simp add: conn_work_def)
  show ?thesis by (simp add: rebuild_ring_def Let_def r f)
qed

lemma pump_lap_work:
  assumes "pump_lap S c = (Inr True, c')"
  shows "conn_work c' < conn_work c"
proof -
  let ?c0 = "c\<lparr>c_ready := []\<rparr>"
  obtain r c1 where vl: "visit_lap S (c_ready c) [] [] False ?c0 = (r, c1)"
    by (cases "visit_lap S (c_ready c) [] [] False ?c0")
  obtain st sv where r: "r = Inr (st, sv, True)" and c': "c' = rebuild_ring (st @ sv) c1"
    using assms by (cases r) (auto simp: pump_lap_def vl Let_def)
  have "conn_work c1 < conn_work ?c0"
    using visit_lap_work [of S "c_ready c" "[]" "[]" False ?c0] by (simp add: vl r ex_bool_eq)
  then show ?thesis by (simp add: c' rebuild_ring_work) (simp add: conn_work_def)
qed

subsection \<open>The loop\<close>

function pump_loop :: "'v service \<Rightarrow> ('v, unit) handler" where
  "pump_loop S c =
     (if c_ready c = [] \<or> length (c_out c) \<ge> max_write_queue then (Inr (), c)
      else
        (case pump_lap S c of
           (Inl e, c1) \<Rightarrow> (Inl e, c1)
         | (Inr wrote, c1) \<Rightarrow> if wrote then pump_loop S c1 else (Inr (), c1)))"
  by pat_completeness auto
termination
  by (relation "measure (\<lambda>(S, c). conn_work c)") (auto dest: pump_lap_work [OF sym])

declare pump_loop.simps [simp del]

definition pump_outbound :: "'v service \<Rightarrow> ('v, unit) handler" where
  "pump_outbound S c = and_then (pump_loop S c) (\<lambda>_. flush_pending_resets S)"

end
