(* ===== verification/Conn_Loop.thy ===== *)
theory Conn_Loop
  imports Conn_Pump
begin

section \<open>Responder events, the drain, and the life of a connection\<close>

text \<open>
  The rest of \<^verbatim>\<open>Connection\<close> in \<^verbatim>\<open>core/src/conn.rs\<close>: what a responder's event does, the drain,
  re-advertising the admission budget, and \<^verbatim>\<open>drive\<close> and \<^verbatim>\<open>tick\<close>. The two loops are given as
  their steps, one per thing that can happen next: a decoded frame, an event taken off the channel,
  an event put on it by the responder's own tasks, octets read or written, a look at the budget, a
  pass of the sender, the drain's signal and its clock. The program takes them in an order of its
  own (every buffered frame, each followed by its events, then budget, sender, and one arm of the
  \<^verbatim>\<open>select!\<close>); what is proved of every order holds of that one.
\<close>

subsection \<open>The responder's events\<close>

definition abandon :: "'v service \<Rightarrow> stream_id \<Rightarrow> nat \<Rightarrow> ('v, unit) handler" where
  "abandon S i st c =
     (if (case c_get i c of None \<Rightarrow> False | Some s \<Rightarrow> st_response_started s)
      then write_rst_stream S i InternalError c
      else reject_stream S i st c)"

fun deliver_event :: "'v service \<Rightarrow> service_event \<Rightarrow> ('v, unit) handler" where
  "deliver_event S (EvHead i resp end_stream) c =
     (if c_get i c = None then (Inr (), c) else send_response S i resp end_stream c)"
| "deliver_event S (EvData i data end_stream) c =
     (case c_get i c of
        None \<Rightarrow> (Inr (), c)
      | Some s \<Rightarrow>
          (Inr (), enqueue_ready i
             (c_put i (s\<lparr>st_send_queue := (if data = [] then st_send_queue s else st_send_queue s @ [data]),
                         st_send_end_stream := (if end_stream then True else st_send_end_stream s)\<rparr>) c)))"
| "deliver_event S (EvTrailers i flds) c =
     (if c_get i c = None then (Inr (), c) else send_trailers S i flds c)"
| "deliver_event S (EvBodyAccepted i n) c = release_recv_window i n c"
| "deliver_event S (EvGone i) c = abandon S i 502 c"
| "deliver_event S (EvShed i) c = abandon S i 503 c"
| "deliver_event S (EvReset i code) c =
     (if c_get i c \<noteq> None then write_rst_stream S i code c else (Inr (), c))"

definition handle_service_event :: "'v service \<Rightarrow> service_event \<Rightarrow> ('v, unit) handler" where
  "handle_service_event S ev c =
     (case sv_intercept S ev (c_service c) of (r, es, v) \<Rightarrow>
        let c1 = c\<lparr>c_service := v, c_events := c_events c @ es\<rparr> in
        (case r of None \<Rightarrow> (Inr (), c1) | Some ev' \<Rightarrow> deliver_event S ev' c1))"

subsection \<open>Admission and the drain\<close>

definition sync_admission :: "u32 \<Rightarrow> ('v, unit) handler" where
  "sync_admission want c =
     (if \<not> c_admission c then (Inr (), c)
      else if want = c_advertised_streams c then (Inr (), c)
      else
        let c1 = c\<lparr>c_advertised_streams := want,
                   c_local_settings := (c_local_settings c)\<lparr>max_concurrent_streams := Some want\<rparr>,
                   c_outstanding_settings := sat_add_u32 (c_outstanding_settings c) 1\<rparr>;
            c2 = (if want > c_enforced_streams c1
                  then c1\<lparr>c_enforced_streams := want,
                          c_streams := set_max_concurrent (unat want) (c_streams c1)\<rparr>
                  else c1)
        in queue_frame (SettingsFrame False [(id_max_concurrent_streams, want)]) c2)"

definition begin_drain :: "instant \<Rightarrow> ('v, unit) handler" where
  "begin_drain now c =
     (let quiet_for = (if live_count (c_streams c) > 0 then 0 else now - c_last_stream_at c)
      in queue_frame (GoAway (stream_id_new max_local_stream_id) NoError [])
           (c\<lparr>c_draining := Some (drain_begin (c_drain_policy c) now quiet_for)\<rparr>))"

definition advance_drain :: "instant \<Rightarrow> bool \<Rightarrow> ('v, bool) handler" where
  "advance_drain now timer_fired c =
     (case c_draining c of
        None \<Rightarrow> (Inr True, c)
      | Some d \<Rightarrow>
          and_then
            (if committed d = None \<and> (timer_fired \<or> now \<ge> commit_at d) then
               (let final = highest_peer_id (c_streams c) in
                and_then (queue_frame (GoAway final NoError []) c)
                  (\<lambda>_ c1. (Inr (), c1\<lparr>c_draining := Some (d\<lparr>committed := Some final\<rparr>),
                                     c_summary := (c_summary c1)\<lparr>cs_drained := True\<rparr>\<rparr>)))
             else (Inr (), c))
            (\<lambda>_ c1.
               (case c_draining c1 of
                  None \<Rightarrow> (Inr True, c1)
                | Some d1 \<Rightarrow>
                    (Inr (\<not> (committed d1 \<noteq> None
                             \<and> (live_count (c_streams c1) = 0 \<or> now \<ge> deadline_at d1))), c1))))"

subsection \<open>The steps of \<^verbatim>\<open>drive\<close> and \<^verbatim>\<open>tick\<close>\<close>

definition handshake :: "('v, unit) handler" where
  "handshake c =
     and_then (queue_frame (settings_to_frame (c_local_settings c)) c)
       (\<lambda>_ c1. queue_frame (WindowUpdate stream_id_connection
                  (word_of_nat (connection_window_bootstrap (c_conn_window c1)))) c1)"

text \<open>\<open>None\<close> while the 24 octets are not there; \<open>Some False\<close> for a peer that does not speak HTTP/2.\<close>

definition accept_preface :: "'v conn \<Rightarrow> bool option \<times> 'v conn" where
  "accept_preface c =
     (if length (c_read_buf c) < length preface then (None, c)
      else if take (length preface) (c_read_buf c) \<noteq> preface then (Some False, c)
      else (Some True, c\<lparr>c_read_buf := drop (length preface) (c_read_buf c)\<rparr>))"

definition failed :: "('v conn, connection_error, 'a) outcome \<Rightarrow> ('v conn, stop, 'a) outcome" where
  "failed r = (map_sum Failed id (fst r), snd r)"

text \<open>One turn of the inner loop: \<open>Inr False\<close> when only a partial frame is left.\<close>

definition read_frame :: "'v service \<Rightarrow> instant \<Rightarrow> 'v conn \<Rightarrow> ('v conn, stop, bool) outcome" where
  "read_frame S now c =
     (case decode_any (c_codec c) (c_read_buf c) of
        (Inr (Some (Ignored kind i)), rest) \<Rightarrow>
          and_then (failed (reject_if_mid_header_block kind i (c\<lparr>c_read_buf := rest\<rparr>)))
            (\<lambda>_ c1. (Inr True, c1))
      | (Inr (Some (DFrame f)), rest) \<Rightarrow>
          and_then (failed (handle_frame S now f
              (c\<lparr>c_read_buf := rest,
                 c_summary := (c_summary c)\<lparr>cs_frames_received := cs_frames_received (c_summary c) + 1\<rparr>\<rparr>)))
            (\<lambda>next c1. case next of Continue \<Rightarrow> (Inr True, c1) | Close \<Rightarrow> (Inl Quiet, c1))
      | (Inr None, rest) \<Rightarrow> (Inr False, c\<lparr>c_read_buf := rest\<rparr>)
      | (Inl e, rest) \<Rightarrow> (Inl (Failed (ConnectionError (frame_error_code e))), c\<lparr>c_read_buf := rest\<rparr>))"

definition take_event :: "'v service \<Rightarrow> ('v, unit) handler" where
  "take_event S c =
     (case c_events c of [] \<Rightarrow> (Inr (), c) | ev # evs \<Rightarrow> handle_service_event S ev (c\<lparr>c_events := evs\<rparr>))"

datatype conn_input =
    InFrame instant
  | InEvent
  | InPush service_event
  | InRead octets
  | InWritten nat
  | InBudget u32
  | InPump
  | InDrain instant
  | InClock instant bool

fun conn_step :: "'v service \<Rightarrow> conn_input \<Rightarrow> 'v conn \<Rightarrow> ('v conn, stop, unit) outcome" where
  "conn_step S (InFrame now) c = and_then (read_frame S now c) (\<lambda>_ c1. (Inr (), c1))"
| "conn_step S InEvent c = failed (take_event S c)"
| "conn_step S (InPush ev) c = (Inr (), c\<lparr>c_events := c_events c @ [ev]\<rparr>)"
| "conn_step S (InRead bs) c =
     (if bs = [] then (Inl Quiet, c) else (Inr (), c\<lparr>c_read_buf := c_read_buf c @ bs\<rparr>))"
| "conn_step S (InWritten n) c =
     (if n = 0 then (Inl Quiet, c) else (Inr (), c\<lparr>c_out := drop n (c_out c)\<rparr>))"
| "conn_step S (InBudget want) c = failed (sync_admission want c)"
| "conn_step S InPump c = failed (pump_outbound S c)"
| "conn_step S (InDrain now) c =
     (if c_draining c = None then failed (begin_drain now c) else (Inr (), c))"
| "conn_step S (InClock now fired) c =
     and_then (failed (advance_drain now fired c))
       (\<lambda>go c1. if go then (Inr (), c1) else (Inl Quiet, c1))"

fun conn_run :: "'v service \<Rightarrow> conn_input list \<Rightarrow> 'v conn \<Rightarrow> ('v conn, stop, unit) outcome" where
  "conn_run S [] c = (Inr (), c)"
| "conn_run S (x # xs) c = and_then (conn_step S x c) (\<lambda>_. conn_run S xs)"

text \<open>The tail of \<^verbatim>\<open>run\<close>; \<open>debug\<close> is the diagnostic text that becomes the GOAWAY's debug data.\<close>

definition conn_finish :: "instant \<Rightarrow> octets \<Rightarrow> stop \<Rightarrow> 'v conn \<Rightarrow> 'v conn" where
  "conn_finish now debug stp c =
     (let c1 = c\<lparr>c_summary := (c_summary c)
                  \<lparr>cs_peak_concurrent_streams := peak_concurrent (c_streams c),
                   cs_streams_opened := opened (c_streams c),
                   cs_guard_peaks := Some (guard_peaks now (c_guard c))\<rparr>\<rparr>
      in case stp of
           Quiet \<Rightarrow> c1
         | Failed err \<Rightarrow>
             let c2 = (if conn_err_code err = EnhanceYourCalm
                       then c1\<lparr>c_summary := (c_summary c1)\<lparr>cs_guard_tripped := last_trip (c_guard c1)\<rparr>\<rparr>
                       else c1)
             in snd (queue_frame (GoAway (highest_peer_id (c_streams c2)) (conn_err_code err) debug) c2))"

end
