(* ===== verification/Conn_Core.thy ===== *)
theory Conn_Core
  imports Conn_Loop
begin

section \<open>What a connection does to its streams, windows and responder\<close>

text \<open>
  The specification of a connection's bookkeeping, and the proof that the handlers implement it.
  The core of a connection is its stream table, its two connection windows, the notifications given
  to the responder, the resets still owed, and two totals: DATA octets sent and connection credit
  received. A core step is one of the things that may happen to them; the refinement lemma says that
  whatever a handler, the sender or a responder's event does, when it succeeds, is a sequence of
  core steps. Invariants are then proved by induction over the steps, once for all handlers.
\<close>

subsection \<open>The core and its steps\<close>

record core =
  k_streams :: stream_table
  k_recv :: recv_window
  k_send :: window
  k_calls :: "service_call list"
  k_resets :: "stream_error list"
  k_sent :: nat
  k_credited :: nat

fun data_len :: "frame \<Rightarrow> nat" where
  "data_len (Data i d e) = length d"
| "data_len _ = 0"

fun conn_increment :: "frame \<Rightarrow> nat" where
  "conn_increment (WindowUpdate i inc) = (if is_connection i then unat inc else 0)"
| "conn_increment _ = 0"

definition octets_sent :: "frame list \<Rightarrow> nat" where
  "octets_sent fs = sum_list (map data_len fs)"

definition credit_received :: "frame list \<Rightarrow> nat" where
  "credit_received fs = sum_list (map conn_increment fs)"

definition core_of :: "'v conn \<Rightarrow> core" where
  "core_of c =
     \<lparr>k_streams = c_streams c, k_recv = c_conn_recv_window c, k_send = c_conn_send_window c,
      k_calls = c_calls c, k_resets = c_pending_reset c, k_sent = octets_sent (c_frames c),
      k_credited = credit_received (c_received c)\<rparr>"

text \<open>A change of a stream that leaves its state, its windows and its credit alone.\<close>

definition inert :: "stream \<Rightarrow> stream \<Rightarrow> bool" where
  "inert s s' \<longleftrightarrow> st_state s' = st_state s \<and> st_send_window s' = st_send_window s
     \<and> st_recv_window s' = st_recv_window s \<and> st_pending_conn_release s' = st_pending_conn_release s
     \<and> st_data_received s' = st_data_received s"

fun quiet_call :: "stream_table \<Rightarrow> service_call \<Rightarrow> bool" where
  "quiet_call t (SvDispatch i head es) = (get_stream i t \<noteq> None)"
| "quiet_call t _ = True"

text \<open>
  With \<open>h\<close> set, the responder keeps its side of the credit contract: it accepts no more octets of a
  request body than it was handed.
\<close>

inductive core_step :: "bool \<Rightarrow> core \<Rightarrow> core \<Rightarrow> bool" for h where
  notified: "quiet_call (k_streams k) call \<Longrightarrow> core_step h k (k\<lparr>k_calls := k_calls k @ [call]\<rparr>)"
| tweaked: "get_stream i (k_streams k) = Some s \<Longrightarrow> inert s s' \<Longrightarrow>
    core_step h k (k\<lparr>k_streams := put_stream i s' (k_streams k)\<rparr>)"
| moved: "get_stream i (k_streams k) = Some s \<Longrightarrow> transition (st_state s) e = Inr n \<Longrightarrow> n \<noteq> Closed \<Longrightarrow>
    core_step h k (k\<lparr>k_streams := put_stream i (s\<lparr>st_state := n\<rparr>) (k_streams k)\<rparr>)"
| ended: "get_stream i (k_streams k) = Some s \<Longrightarrow> transition (st_state s) e = Inr Closed \<Longrightarrow>
    core_step h k (k\<lparr>k_streams := retire i (put_stream i (s\<lparr>st_state := Closed\<rparr>) (k_streams k)),
                   k_calls := k_calls k @ [SvFinish i]\<rparr>)"
| cancelled: "core_step h k (k\<lparr>k_streams := retire i (k_streams k), k_calls := k_calls k @ [SvCancel i code]\<rparr>)"
| doomed: "core_step h k (k\<lparr>k_streams := retire (serr_stream err) (k_streams k), k_resets := k_resets k @ [err]\<rparr>)"
| flushed: "k_resets k = errs @ [err] \<Longrightarrow>
    core_step h k (k\<lparr>k_resets := errs, k_streams := retire (serr_stream err) (k_streams k),
                   k_calls := k_calls k @ [SvCancel (serr_stream err) (serr_code err)]\<rparr>)"
| reclaims: "0 < reclaimed (k_streams k) \<Longrightarrow>
    core_step h k (k\<lparr>k_streams := (k_streams k)\<lparr>reclaimed := 0\<rparr>,
                   k_recv := snd (recv_release (reclaimed (k_streams k)) (k_recv k))\<rparr>)"
| releases: "get_stream i (k_streams k) = Some s \<Longrightarrow> 0 < n \<Longrightarrow>
    (h \<longrightarrow> n \<le> st_pending_conn_release s) \<Longrightarrow>
    core_step h k (k\<lparr>k_streams := put_stream i
                     (s\<lparr>st_pending_conn_release := st_pending_conn_release s - n,
                        st_recv_window := snd (recv_release n (st_recv_window s))\<rparr>) (k_streams k),
                   k_recv := snd (recv_release n (k_recv k))\<rparr>)"
| receives: "get_stream i (k_streams k) = Some s \<Longrightarrow> recv_record n (k_recv k) = (Inr (), w) \<Longrightarrow>
    core_step h k (k\<lparr>k_recv := w,
                   k_streams := put_stream i
                     (s\<lparr>st_data_received := sat_add_u64 (st_data_received s) n,
                        st_pending_conn_release := sat_add_u32 (st_pending_conn_release s) n,
                        st_recv_window := snd (recv_record n (st_recv_window s))\<rparr>) (k_streams k)\<rparr>)"
| discards: "recv_record n (k_recv k) = (Inr (), w) \<Longrightarrow>
    core_step h k (k\<lparr>k_recv := snd (recv_release n w)\<rparr>)"
| opens: "open_peer i (k_streams k) = (Inr s, t) \<Longrightarrow> core_step h k (k\<lparr>k_streams := t\<rparr>)"
| turns_away: "open_peer i (k_streams k) = (Inl Refused, t) \<Longrightarrow> core_step h k (k\<lparr>k_streams := t\<rparr>)"
| sends: "get_stream i (k_streams k) = Some s \<Longrightarrow> consume n (st_send_window s) = (Inr (), w) \<Longrightarrow>
    consume n (k_send k) = (Inr (), v) \<Longrightarrow>
    core_step h k (k\<lparr>k_streams := put_stream i (s\<lparr>st_send_window := w\<rparr>) (k_streams k),
                   k_send := v, k_sent := k_sent k + n\<rparr>)"
| credits_stream: "get_stream i (k_streams k) = Some s \<Longrightarrow>
    core_step h k (k\<lparr>k_streams := put_stream i (s\<lparr>st_send_window := snd (increase n (st_send_window s))\<rparr>) (k_streams k)\<rparr>)"
| credits_conn: "increase n (k_send k) = (Inr (), v) \<Longrightarrow>
    core_step h k (k\<lparr>k_credited := k_credited k + n, k_send := v\<rparr>)"
| resizes: "apply_initial_window_delta d (k_streams k) = (Inr (), t) \<Longrightarrow> core_step h k (k\<lparr>k_streams := t\<rparr>)"
| limits: "core_step h k (k\<lparr>k_streams := set_max_concurrent m (k_streams k)\<rparr>)"

abbreviation core_steps :: "bool \<Rightarrow> core \<Rightarrow> core \<Rightarrow> bool" where
  "core_steps h \<equiv> (core_step h)\<^sup>*\<^sup>*"

text \<open>A handler refines the core when every success of it is a sequence of core steps.\<close>

definition core_ok :: "bool \<Rightarrow> core \<Rightarrow> ('v conn, 'e, 'a) outcome \<Rightarrow> bool" where
  "core_ok h k r \<longleftrightarrow> (\<forall>a c'. r = (Inr a, c') \<longrightarrow> core_steps h k (core_of c'))"

lemma core_ok_error [simp]: "core_ok h k (Inl e, c)"
  by (simp add: core_ok_def)

lemma core_ok_return: "core_steps h k (core_of c) \<Longrightarrow> core_ok h k (Inr a, c)"
  by (simp add: core_ok_def)

lemma core_ok_then:
  assumes "core_ok h k r" "\<And>a c1. r = (Inr a, c1) \<Longrightarrow> core_steps h k (core_of c1) \<Longrightarrow> core_ok h k (f a c1)"
  shows "core_ok h k (and_then r f)"
  using assms by (cases r; cases "fst r") (auto simp: core_ok_def and_then_def)

lemma core_ok_from: "core_steps h k k' \<Longrightarrow> core_ok h k' r \<Longrightarrow> core_ok h k r"
  by (auto simp: core_ok_def intro: rtranclp_trans)

lemma core_one: "core_step h k k' \<Longrightarrow> core_steps h k k'"
  by (rule r_into_rtranclp)

text \<open>Changes outside the core.\<close>

lemma core_of_same [simp]:
  "core_of (c\<lparr>c_out := x1\<rparr>) = core_of c"
  "core_of (c\<lparr>c_read_buf := x2\<rparr>) = core_of c"
  "core_of (c\<lparr>c_local_settings := x3\<rparr>) = core_of c"
  "core_of (c\<lparr>c_advertised_streams := x4\<rparr>) = core_of c"
  "core_of (c\<lparr>c_peer_acked_settings := x5\<rparr>) = core_of c"
  "core_of (c\<lparr>c_outstanding_settings := x6\<rparr>) = core_of c"
  "core_of (c\<lparr>c_enforced_streams := x7\<rparr>) = core_of c"
  "core_of (c\<lparr>c_peer_settings := x8\<rparr>) = core_of c"
  "core_of (c\<lparr>c_open_header_block := x9\<rparr>) = core_of c"
  "core_of (c\<lparr>c_open_header_end_stream := x10\<rparr>) = core_of c"
  "core_of (c\<lparr>c_header_block := x11\<rparr>) = core_of c"
  "core_of (c\<lparr>c_hpack_dec := x12\<rparr>) = core_of c"
  "core_of (c\<lparr>c_hpack_enc := x13\<rparr>) = core_of c"
  "core_of (c\<lparr>c_ready := x14\<rparr>) = core_of c"
  "core_of (c\<lparr>c_guard := x15\<rparr>) = core_of c"
  "core_of (c\<lparr>c_last_stream_at := x16\<rparr>) = core_of c"
  "core_of (c\<lparr>c_draining := x17\<rparr>) = core_of c"
  "core_of (c\<lparr>c_service := x18\<rparr>) = core_of c"
  "core_of (c\<lparr>c_events := x19\<rparr>) = core_of c"
  "core_of (c\<lparr>c_summary := x20\<rparr>) = core_of c"
  by (simp_all add: core_of_def)

lemma core_of_moved [simp]:
  "core_of (c\<lparr>c_streams := t\<rparr>) = (core_of c)\<lparr>k_streams := t\<rparr>"
  "core_of (c\<lparr>c_conn_recv_window := r\<rparr>) = (core_of c)\<lparr>k_recv := r\<rparr>"
  "core_of (c\<lparr>c_conn_send_window := w\<rparr>) = (core_of c)\<lparr>k_send := w\<rparr>"
  "core_of (c\<lparr>c_pending_reset := es\<rparr>) = (core_of c)\<lparr>k_resets := es\<rparr>"
  "core_of (c_put i s c) = (core_of c)\<lparr>k_streams := put_stream i s (c_streams c)\<rparr>"
  "core_of (notify S call c) = (core_of c)\<lparr>k_calls := c_calls c @ [call]\<rparr>"
  "core_of (count_reset c) = core_of c"
  "core_of (count_block c) = core_of c"
  "core_of (count_sent n c) = core_of c"
  "core_of (count_stall c) = core_of c"
  by (simp_all add: core_of_def c_put_def notify_def count_reset_def count_block_def count_sent_def
      count_stall_def split: prod.split)

lemma core_of_fields [simp]:
  "k_streams (core_of c) = c_streams c" "k_recv (core_of c) = c_conn_recv_window c"
  "k_send (core_of c) = c_conn_send_window c" "k_calls (core_of c) = c_calls c"
  "k_resets (core_of c) = c_pending_reset c" "k_sent (core_of c) = octets_sent (c_frames c)"
  "k_credited (core_of c) = credit_received (c_received c)"
  by (simp_all add: core_of_def)

lemma core_queue_frame:
  assumes "queue_frame f c = (Inr a, c')"
  shows "core_of c' = (core_of c)\<lparr>k_sent := octets_sent (c_frames c) + data_len f\<rparr>"
  using assms by (cases rule: queue_frame_cases [of f c]) (auto simp: core_of_def octets_sent_def)

lemma core_queue_control:
  "data_len f = 0 \<Longrightarrow> core_ok h (core_of c) (queue_frame f c)"
  using core_queue_frame [of f c] by (auto simp: core_ok_def) (simp add: core_of_def)

end
