(* ===== verification/Conn_Refine.thy ===== *)
theory Conn_Refine
  imports Conn_Core
begin

section \<open>The handlers implement the core steps\<close>

text \<open>
  One lemma per handler, in the order of their definitions: from any state, a success is a sequence
  of core steps.
\<close>

subsection \<open>Closing streams and giving credit back\<close>

lemma core_of_retire [simp]:
  "core_of (retire_and_unqueue i c) = (core_of c)\<lparr>k_streams := retire i (c_streams c)\<rparr>"
  by (simp add: retire_and_unqueue_def core_of_def)

lemma core_same_streams: "(core_of c)\<lparr>k_streams := c_streams c\<rparr> = core_of c"
  by (simp add: core_of_def)

lemma core_same_sent [simp]: "(core_of c)\<lparr>k_sent := octets_sent (c_frames c)\<rparr> = core_of c"
  by (simp add: core_of_def)

lemma core_ok_queue:
  "data_len f = 0 \<Longrightarrow> core_of c1 = k \<Longrightarrow> core_ok h k (queue_frame f c1)"
  using core_queue_control [of f _ c1] by simp

lemma reclaimed_none: "reclaimed t = 0 \<Longrightarrow> t\<lparr>reclaimed := 0\<rparr> = t"
  by (cases t) simp

lemma snd_and_then:
  "(\<And>a s. F (snd (k a s)) = F s) \<Longrightarrow> F (snd (and_then r k)) = F (snd r)"
  by (auto simp: and_then_def split: prod.split sum.split)

lemma refine_drain_reclaimed: "core_ok h (core_of c) (drain_reclaimed c)"
proof (cases "reclaimed (c_streams c) = 0")
  case True
  have "drain_reclaimed c = (Inr (), c\<lparr>c_streams := c_streams c\<rparr>)"
    unfolding drain_reclaimed_def take_reclaimed_eq reclaimed_none [OF True] using True by simp
  then show ?thesis by (simp add: core_ok_def core_same_streams)
next
  case False
  let ?t = "(c_streams c)\<lparr>reclaimed := 0\<rparr>"
  obtain inc w where rel: "recv_release (reclaimed (c_streams c)) (c_conn_recv_window c) = (inc, w)"
    by (cases "recv_release (reclaimed (c_streams c)) (c_conn_recv_window c)")
  have step: "core_step h (core_of c) ((core_of c)\<lparr>k_streams := ?t, k_recv := w\<rparr>)"
    using reclaims [of "core_of c"] False by (simp add: rel)
  show ?thesis
  proof (cases inc)
    case None
    then show ?thesis
      using False core_one [OF step] by (simp add: drain_reclaimed_def take_reclaimed_eq rel core_ok_def Let_def)
  next
    case (Some n)
    let ?c = "c\<lparr>c_streams := ?t, c_conn_recv_window := w\<rparr>"
    have "core_ok h (core_of ?c) (queue_frame (WindowUpdate stream_id_connection (word_of_nat n)) ?c)"
      by (rule core_queue_control) simp
    from core_ok_from [OF core_one [OF step] this [simplified]]
    show ?thesis using False Some by (simp add: drain_reclaimed_def take_reclaimed_eq rel Let_def)
  qed
qed

lemma refine_cancel_and_drain:
  "core_ok h (core_of c) (drain_reclaimed (notify S (SvCancel i code) (retire_and_unqueue i (count_reset c))))"
proof -
  have "core_step h (core_of c) (core_of (notify S (SvCancel i code) (retire_and_unqueue i (count_reset c))))"
    using cancelled [of _ "core_of c" i code] by (simp add: retire_and_unqueue_def count_reset_def)
  from core_ok_from [OF core_one [OF this] refine_drain_reclaimed] show ?thesis .
qed

lemma refine_write_rst_stream [simp]: "core_ok h (core_of c) (write_rst_stream S i code c)"
  unfolding write_rst_stream_def
proof (rule core_ok_then [OF refine_cancel_and_drain])
  fix a c1 assume "core_steps h (core_of c) (core_of c1)"
  then show "core_ok h (core_of c) (queue_frame (RstStream i code) c1)"
    by (rule core_ok_from) (simp add: core_queue_control)
qed

text \<open>Emptying the queue of resets: the cancel it sends belongs to the stream it was owed to.\<close>

lemma flush_step:
  assumes "c_pending_reset c = rev es @ [e]"
  shows "core_step h (core_of c) (core_of (notify S (SvCancel (serr_stream e) (serr_code e))
      (retire_and_unqueue (serr_stream e) (count_reset (c\<lparr>c_pending_reset := rev es\<rparr>)))))"
  using flushed [of "core_of c" "rev es" e] assms by (simp add: retire_and_unqueue_def count_reset_def)

lemma write_rst_stream_resets [simp]:
  "c_pending_reset (snd (write_rst_stream S i code c)) = c_pending_reset c"
  unfolding write_rst_stream_def
  by (subst snd_and_then [where F=c_pending_reset]) (simp_all add: retire_and_unqueue_def count_reset_def)

lemma refine_flush_resets:
  "c_pending_reset c = rev es \<Longrightarrow> core_ok h (core_of c) (flush_resets S es c)"
proof (induction es arbitrary: c)
  case Nil
  then show ?case by (simp add: core_ok_def)
next
  case (Cons e es)
  let ?c = "c\<lparr>c_pending_reset := rev es\<rparr>"
  let ?n = "notify S (SvCancel (serr_stream e) (serr_code e)) (retire_and_unqueue (serr_stream e) (count_reset ?c))"
  have step: "core_steps h (core_of c) (core_of ?n)"
    using core_one [OF flush_step [of c es e _ S]] Cons.prems by simp
  have one: "core_ok h (core_of c) (write_rst_stream S (serr_stream e) (serr_code e) ?c)"
    unfolding write_rst_stream_def
  proof (rule core_ok_then)
    show "core_ok h (core_of c) (drain_reclaimed ?n)"
      by (rule core_ok_from [OF step refine_drain_reclaimed])
  next
    fix a c1 assume "core_steps h (core_of c) (core_of c1)"
    then show "core_ok h (core_of c) (queue_frame (RstStream (serr_stream e) (serr_code e)) c1)"
      by (rule core_ok_from) (simp add: core_queue_control)
  qed
  show ?case
    unfolding flush_resets.simps
  proof (rule core_ok_then [OF one])
    fix a c1
    assume w: "write_rst_stream S (serr_stream e) (serr_code e) ?c = (Inr a, c1)"
      and steps: "core_steps h (core_of c) (core_of c1)"
    have "c_pending_reset c1 = rev es"
      using write_rst_stream_resets [of S "serr_stream e" "serr_code e" ?c] w by simp
    from core_ok_from [OF steps Cons.IH [OF this]] show "core_ok h (core_of c) (flush_resets S es c1)" .
  qed
qed

lemma refine_flush_pending_resets: "core_ok h (core_of c) (flush_pending_resets S c)"
  unfolding flush_pending_resets_def by (rule refine_flush_resets) simp

lemma refine_apply_stream_event: "core_ok h (core_of c) (apply_stream_event S i e c)"
proof (cases "c_get i c")
  case None
  obtain code where a: "apply_event i e (c_streams c) = (Inl \<lparr>serr_stream = i, serr_code = code\<rparr>, c_streams c)"
    using None by (auto simp: apply_event_def c_get_def get_stream_def)
  have "core_step h (core_of c) ((core_of c)\<lparr>k_streams := retire i (c_streams c),
      k_resets := c_pending_reset c @ [\<lparr>serr_stream = i, serr_code = code\<rparr>]\<rparr>)"
    using doomed [of _ "core_of c" "\<lparr>serr_stream = i, serr_code = code\<rparr>"] by simp
  from core_one [OF this] show ?thesis
    by (simp add: apply_stream_event_def a core_ok_def Let_def core_same_streams)
      (simp add: retire_and_unqueue_def)
next
  case (Some s)
  then have g: "get_stream i (k_streams (core_of c)) = Some s" and m: "map_of (live (c_streams c)) i = Some s"
    by (simp_all add: c_get_def get_stream_def)
  show ?thesis
  proof (cases "transition (st_state s) e")
    case (Inl code)
    have a: "apply_event i e (c_streams c) = (Inl \<lparr>serr_stream = i, serr_code = code\<rparr>, c_streams c)"
      using m Inl by (simp add: apply_event_def)
    have "core_step h (core_of c) ((core_of c)\<lparr>k_streams := retire i (c_streams c),
        k_resets := c_pending_reset c @ [\<lparr>serr_stream = i, serr_code = code\<rparr>]\<rparr>)"
      using doomed [of _ "core_of c" "\<lparr>serr_stream = i, serr_code = code\<rparr>"] by simp
    from core_one [OF this] show ?thesis
      by (simp add: apply_stream_event_def a core_ok_def Let_def core_same_streams)
        (simp add: retire_and_unqueue_def)
  next
    case (Inr n)
    show ?thesis
    proof (cases "n = Closed")
      case True
      let ?t = "retire i (put_stream i (s\<lparr>st_state := Closed\<rparr>) (c_streams c))"
      have a: "apply_event i e (c_streams c) = (Inr Closed, ?t)"
        using m Inr True by (simp add: apply_event_def is_closed_def)
      let ?c = "notify S (SvFinish i) (c\<lparr>c_streams := ?t, c_ready := filter (\<lambda>j. j \<noteq> i) (c_ready c)\<rparr>)"
      have "core_step h (core_of c) (core_of ?c)"
        using ended [OF g, of e] Inr True by simp
      from core_ok_from [OF core_one [OF this] refine_drain_reclaimed] show ?thesis
        by (simp add: apply_stream_event_def a is_closed_def Let_def)
    next
      case False
      have a: "apply_event i e (c_streams c) = (Inr n, put_stream i (s\<lparr>st_state := n\<rparr>) (c_streams c))"
        using m Inr False by (simp add: apply_event_def is_closed_def)
      from core_one [OF moved [OF g Inr False]] show ?thesis
        using False by (simp add: apply_stream_event_def a is_closed_def core_ok_def)
    qed
  qed
qed

lemma core_tweak:
  assumes "c_get i c = Some s" "inert s s'"
  shows "core_steps h (core_of c) (core_of (c_put i s' c))"
  using core_one [OF tweaked [of i "core_of c" s s']] assms by (simp add: c_get_def)

lemma inert_simps [simp]:
  "inert s s"
  "inert s (s\<lparr>st_queued := q\<rparr>)"
  "inert s (s\<lparr>st_response_started := q\<rparr>)"
  "inert s (s\<lparr>st_content_length := n\<rparr>)"
  "inert s (s\<lparr>st_send_end_stream := q\<rparr>)"
  "inert s (s\<lparr>st_pending_trailers := tr, st_send_end_stream := q\<rparr>)"
  "inert s (s\<lparr>st_send_queue := sq, st_send_end_stream := q\<rparr>)"
  by (simp_all add: inert_def)

lemma core_enqueue_ready: "core_steps h (core_of c) (core_of (enqueue_ready i c))"
proof (cases "c_get i c")
  case (Some s)
  then show ?thesis
    using core_tweak [OF Some, of "s\<lparr>st_queued := True\<rparr>"] by (simp add: enqueue_ready_def)
qed (simp add: enqueue_ready_def)

lemma core_mark_started: "core_steps h (core_of c) (core_of (mark_started i c))"
  using core_tweak [of i c _ "_\<lparr>st_response_started := True\<rparr>"]
  by (simp add: mark_started_def split: option.split)

lemma core_release_conn_window:
  assumes "release_conn_window n c = (Inr a, c')"
  shows "core_of c' = (core_of c)\<lparr>k_recv := snd (recv_release n (c_conn_recv_window c))\<rparr>"
proof -
  obtain inc w where rel: "recv_release n (c_conn_recv_window c) = (inc, w)"
    by (cases "recv_release n (c_conn_recv_window c)")
  show ?thesis
  proof (cases inc)
    case None
    then show ?thesis using assms by (auto simp: release_conn_window_def rel)
  next
    case (Some k)
    then have "queue_frame (WindowUpdate stream_id_connection (word_of_nat k)) (c\<lparr>c_conn_recv_window := w\<rparr>) = (Inr a, c')"
      using assms by (simp add: release_conn_window_def rel)
    from core_queue_frame [OF this] show ?thesis by (simp add: rel)
  qed
qed

lemma core_optional_frame:
  assumes "(case inc of None \<Rightarrow> (Inr (), c) | Some k \<Rightarrow> queue_frame (WindowUpdate i (word_of_nat k)) c) = (Inr a, c')"
  shows "core_of c' = core_of c \<and> c_streams c' = c_streams c"
proof (cases inc)
  case (Some k)
  then have "queue_frame (WindowUpdate i (word_of_nat k)) c = (Inr a, c')" using assms by simp
  from core_queue_frame [OF this] have "core_of c' = core_of c"
    by simp
  then show ?thesis by (metis core_of_fields(1))
qed (use assms in simp)

lemma refine_release_recv_window:
  assumes honest: "\<And>s. h \<Longrightarrow> c_get i c = Some s \<Longrightarrow> n \<le> st_pending_conn_release s"
  shows "core_ok h (core_of c) (release_recv_window i n c)"
proof (cases "n = 0")
  case True
  then show ?thesis by (simp add: release_recv_window_def core_ok_def)
next
  case False
  show ?thesis
  proof (cases "c_get i c")
    case None
    then show ?thesis
      using False refine_drain_reclaimed [of _ c] by (simp add: release_recv_window_def)
  next
    case (Some s)
    obtain inc w where rel: "recv_release n (st_recv_window s) = (inc, w)"
      by (cases "recv_release n (st_recv_window s)")
    let ?s = "s\<lparr>st_pending_conn_release := st_pending_conn_release s - n, st_recv_window := w\<rparr>"
    let ?c1 = "c_put i ?s c"
    have step: "core_step h (core_of c) ((core_of ?c1)\<lparr>k_recv := snd (recv_release n (c_conn_recv_window c))\<rparr>)"
      using releases [of i "core_of c" s n h] Some False honest by (simp add: c_get_def rel)
    have eq: "release_recv_window i n c =
        and_then (case inc of None \<Rightarrow> (Inr (), ?c1) | Some k \<Rightarrow> queue_frame (WindowUpdate i (word_of_nat k)) ?c1)
          (\<lambda>_ c2. and_then (if c_get i c2 \<noteq> None then release_conn_window n c2 else (Inr (), c2))
             (\<lambda>_. drain_reclaimed))"
      using False Some by (simp add: release_recv_window_def rel Let_def)
    show ?thesis
      unfolding core_ok_def eq
    proof (intro allI impI)
      fix a c'
      assume "and_then (case inc of None \<Rightarrow> (Inr (), ?c1) | Some k \<Rightarrow> queue_frame (WindowUpdate i (word_of_nat k)) ?c1)
          (\<lambda>_ c2. and_then (if c_get i c2 \<noteq> None then release_conn_window n c2 else (Inr (), c2))
             (\<lambda>_. drain_reclaimed)) = (Inr a, c')"
      then obtain c2 c3 where
        a1: "(case inc of None \<Rightarrow> (Inr (), ?c1) | Some k \<Rightarrow> queue_frame (WindowUpdate i (word_of_nat k)) ?c1) = (Inr (), c2)"
        and a2: "(if c_get i c2 \<noteq> None then release_conn_window n c2 else (Inr (), c2)) = (Inr (), c3)"
        and a3: "drain_reclaimed c3 = (Inr a, c')"
        by (auto elim!: and_then_Inr)
      have c2: "core_of c2 = core_of ?c1" "c_streams c2 = c_streams ?c1"
        using core_optional_frame [OF a1] by simp_all
      have "c_get i c2 = Some ?s" using c2(2) by (simp add: c_get_def c_put_def get_stream_def)
      with a2 have "release_conn_window n c2 = (Inr (), c3)" by simp
      from core_release_conn_window [OF this] c2(1)
      have "core_of c3 = (core_of ?c1)\<lparr>k_recv := snd (recv_release n (c_conn_recv_window c))\<rparr>"
        by (metis core_of_fields(2) c2(1) core_of_moved(5) core.select_convs(2) core.update_convs(1) core.surjective)
      then have "core_steps h (core_of c) (core_of c3)" using core_one [OF step] by simp
      moreover have "core_steps h (core_of c3) (core_of c')"
        using refine_drain_reclaimed [of _ c3] a3 by (simp add: core_ok_def)
      ultimately show "core_steps h (core_of c) (core_of c')" by (rule rtranclp_trans)
    qed
  qed
qed

subsection \<open>Responses\<close>

lemma encode_block_core:
  "encode_block hs c = (block, c1) \<Longrightarrow> core_of c1 = core_of c \<and> c_streams c1 = c_streams c"
  by (auto simp: encode_block_def split: prod.splits)

lemma refine_send_response:
  fixes c :: "'v conn"
  shows "core_ok h (core_of c) (send_response S i resp es c)"
proof -
  obtain block c1 where b: "encode_block (response_to_headers resp) c = (block, c1)"
    by (cases "encode_block (response_to_headers resp) c")
  note c1 = encode_block_core [OF b]
  have "core_ok h (core_of c) (and_then (queue_frame (Headers i block es True) c1)
      (\<lambda>_ c2. apply_stream_event S i (SendHeaders es) (mark_started i c2)))"
  proof (rule core_ok_then)
    show "core_ok h (core_of c) (queue_frame (Headers i block es True) c1)"
      by (rule core_ok_queue) (simp_all add: c1)
  next
    fix a and c2 :: "'v conn" assume s: "core_steps h (core_of c) (core_of c2)"
    show "core_ok h (core_of c) (apply_stream_event S i (SendHeaders es) (mark_started i c2))"
      by (rule core_ok_from [OF rtranclp_trans [OF s core_mark_started] refine_apply_stream_event])
  qed
  then show ?thesis by (simp add: send_response_def b)
qed

lemma refine_send_trailers:
  fixes c :: "'v conn"
  shows "core_ok h (core_of c) (send_trailers S i flds c)"
proof (cases "is_ok (validate_trailers flds)")
  case False
  have "core_steps h (core_of c) (core_of (case c_get i c of None \<Rightarrow> c | Some s \<Rightarrow> c_put i (s\<lparr>st_send_end_stream := True\<rparr>) c))"
    using core_tweak [of i c _ "_\<lparr>st_send_end_stream := True\<rparr>"] by (simp split: option.split)
  then show ?thesis
    using False core_enqueue_ready rtranclp_trans by (fastforce simp: send_trailers_def core_ok_def)
next
  case True
  show ?thesis
  proof (cases "case c_get i c of None \<Rightarrow> None | Some s \<Rightarrow> if has_pending_send s then Some s else None")
    case (Some s)
    then have g: "c_get i c = Some s" by (auto split: option.splits if_splits)
    from rtranclp_trans [OF core_tweak [OF g, of "s\<lparr>st_pending_trailers := Some flds, st_send_end_stream := True\<rparr>"] core_enqueue_ready]
    show ?thesis using True Some by (simp add: send_trailers_def core_ok_def)
  next
    case None
    obtain block c1 where b: "encode_block flds c = (block, c1)" by (cases "encode_block flds c")
    note c1 = encode_block_core [OF b]
    have "core_ok h (core_of c) (and_then (queue_frame (Headers i block True True) c1)
        (\<lambda>_. apply_stream_event S i (SendHeaders True)))"
    proof (rule core_ok_then)
      show "core_ok h (core_of c) (queue_frame (Headers i block True True) c1)"
        by (rule core_ok_queue) (simp_all add: c1)
    next
      fix a and c2 :: "'v conn" assume s: "core_steps h (core_of c) (core_of c2)"
      show "core_ok h (core_of c) (apply_stream_event S i (SendHeaders True) c2)"
        by (rule core_ok_from [OF s refine_apply_stream_event])
    qed
    then show ?thesis using True None by (simp add: send_trailers_def b)
  qed
qed

lemma core_open_peer:
  assumes "open_peer i (c_streams c) = (r, t)" "\<forall>why. r \<noteq> Inl (RejectProtocol why)"
  shows "core_steps h (core_of c) (core_of (c\<lparr>c_streams := t\<rparr>))"
proof (cases r)
  case (Inl e)
  then have "e = Refused" using assms(2) by (cases e) auto
  then show ?thesis using core_one [OF turns_away [of i "core_of c" t]] assms(1) Inl by simp
next
  case (Inr s)
  then show ?thesis using core_one [OF opens [of i "core_of c" s t]] assms(1) by simp
qed

lemma refine_reject_stream: "core_ok h (core_of c) (reject_stream S i st c)"
proof (cases "c_get i c")
  case None
  obtain r t where o: "open_peer i (c_streams c) = (r, t)" by (cases "open_peer i (c_streams c)")
  show ?thesis
  proof (cases r)
    case (Inl e)
    show ?thesis
    proof (cases e)
      case (RejectProtocol why)
      then show ?thesis using None o Inl by (simp add: reject_stream_def)
    next
      case Refused
      then have "core_steps h (core_of c) (core_of (c\<lparr>c_streams := t\<rparr>))" using core_open_peer [OF o] Inl by simp
      from core_ok_from [OF this refine_write_rst_stream]
      show ?thesis using None o Inl Refused by (simp add: reject_stream_def)
    qed
  next
    case (Inr s)
    then have op: "core_steps h (core_of c) (core_of (c\<lparr>c_streams := t\<rparr>))" using core_open_peer [OF o] by simp
    have "core_ok h (core_of c) (and_then (apply_stream_event S i (RecvHeaders True) (c\<lparr>c_streams := t\<rparr>))
        (\<lambda>_. send_response S i (response_status st) True))"
      by (rule core_ok_then [OF core_ok_from [OF op refine_apply_stream_event]])
        (erule core_ok_from, rule refine_send_response)
    then show ?thesis using None o Inr by (simp add: reject_stream_def)
  qed
qed (simp add: reject_stream_def refine_send_response)

subsection \<open>Requests\<close>

lemma core_call:
  "quiet_call (c_streams c) call \<Longrightarrow> core_steps h (core_of c) (core_of (notify S call c))"
  using core_one [OF notified [of "core_of c" call]] by simp

lemma refine_recv_trailers: "core_ok h (core_of c) (recv_trailers S i s headers es c)"
proof (cases "validate_trailers headers")
  case (Inr u)
  have "core_ok h (core_of c) (apply_stream_event S i (RecvHeaders es) (notify S (SvTrailers i headers) c))"
    by (rule core_ok_from [OF core_call refine_apply_stream_event]) simp
  then show ?thesis
    using Inr by (auto simp: recv_trailers_def split: option.split)
qed (simp add: recv_trailers_def refine_write_rst_stream)

lemma refine_dispatch_request:
  assumes live: "c_get i c \<noteq> None"
  shows "core_ok h (core_of c) (dispatch_request S now i headers es c)"
proof (cases "request_from_headers headers")
  case (Inl code)
  then show ?thesis by (simp add: dispatch_request_def refine_write_rst_stream)
next
  case (Inr request)
  obtain s where g: "c_get i c = Some s" using live by auto
  define c1 where "c1 = (case (request_content_length request, c_get i c) of
      (Some (Inr n), Some s) \<Rightarrow> c_put i (s\<lparr>st_content_length := Some n\<rparr>) c | _ \<Rightarrow> c)"
  have c1: "core_steps h (core_of c) (core_of c1)" "c_get i c1 \<noteq> None"
    using core_tweak [OF g, of "s\<lparr>st_content_length := _\<rparr>"] g
    by (auto simp: c1_def split: option.splits sum.splits)
  show ?thesis
  proof (cases "\<exists>code. request_content_length request = Some (Inl code)")
    case True
    then show ?thesis using Inr by (auto simp: dispatch_request_def refine_write_rst_stream)
  next
    case False
    then have eq: "dispatch_request S now i headers es c =
        (case (if es then request_body_error i c1 else None) of
           Some code \<Rightarrow> write_rst_stream S i code c1
         | None \<Rightarrow> (Inr (), notify S (SvDispatch i request es)
             (c1\<lparr>c_summary := (c_summary c1)\<lparr>cs_requests_dispatched := cs_requests_dispatched (c_summary c1) + 1\<rparr>,
                 c_last_stream_at := now\<rparr>)))"
      using Inr by (auto simp: dispatch_request_def c1_def Let_def split: option.splits sum.splits)
    show ?thesis
    proof (cases "if es then request_body_error i c1 else None")
      case None
      let ?c = "c1\<lparr>c_summary := (c_summary c1)\<lparr>cs_requests_dispatched := cs_requests_dispatched (c_summary c1) + 1\<rparr>,
                 c_last_stream_at := now\<rparr>"
      have "quiet_call (c_streams ?c) (SvDispatch i request es)"
        using c1(2) by (simp add: c_get_def)
      then have "core_steps h (core_of c1) (core_of (notify S (SvDispatch i request es) ?c))"
        using core_call [of ?c "SvDispatch i request es" _ S] by simp
      with c1(1) show ?thesis using None by (simp add: eq core_ok_def)
    next
      case (Some code)
      then show ?thesis using core_ok_from [OF c1(1) refine_write_rst_stream] by (simp add: eq)
    qed
  qed
qed

lemma open_peer_live:
  assumes "open_peer i t = (Inr s, u)"
  shows "map_of (live u) i = Some s" "st_state s = Idle"
  using assms by (auto simp: open_peer_def insert_new_def Let_def stream_new_def split: if_splits)

text \<open>The HEADERS that opened a stream never closes it.\<close>

lemma opened_stays_live:
  assumes "open_peer i (c_streams c) = (Inr s, t)"
    "apply_stream_event S i (RecvHeaders es) (c\<lparr>c_streams := t\<rparr>) = (Inr a, c')"
  shows "c_get i c' \<noteq> None"
proof -
  note lv = open_peer_live [OF assms(1)]
  have "apply_event i (RecvHeaders es) t =
      (Inr (if es then HalfClosedRemote else Open), put_stream i (s\<lparr>st_state := (if es then HalfClosedRemote else Open)\<rparr>) t)"
    using lv by (simp add: apply_event_def is_closed_def)
  then show ?thesis
    using assms(2) by (auto simp: apply_stream_event_def is_closed_def c_get_def get_stream_def Let_def split: if_splits)
qed

lemma refine_recv_request:
  fixes c :: "'v conn"
  shows "core_ok h (core_of c) (recv_request S now i headers es c)"
proof (cases "c_get i c")
  case (Some s)
  then show ?thesis by (simp add: recv_request_def refine_recv_trailers)
next
  case None
  show ?thesis
  proof (cases "lookup_stream i (c_streams c) = LookupClosed \<or> drain_committed c")
    case True
    then show ?thesis using None by (auto simp: recv_request_def refine_write_rst_stream)
  next
    case False
    obtain r t where o: "open_peer i (c_streams c) = (r, t)" by (cases "open_peer i (c_streams c)")
    show ?thesis
    proof (cases r)
      case (Inl e)
      show ?thesis
      proof (cases e)
        case (RejectProtocol why)
        then show ?thesis using None False o Inl by (simp add: recv_request_def)
      next
        case Refused
        then have "core_steps h (core_of c) (core_of (c\<lparr>c_streams := t\<rparr>))" using core_open_peer [OF o] Inl by simp
        from core_ok_from [OF this refine_write_rst_stream]
        show ?thesis using None False o Inl Refused by (simp add: recv_request_def)
      qed
    next
      case (Inr s)
      then have op: "core_steps h (core_of c) (core_of (c\<lparr>c_streams := t\<rparr>))" using core_open_peer [OF o] by simp
      have "core_ok h (core_of c) (and_then (apply_stream_event S i (RecvHeaders es) (c\<lparr>c_streams := t\<rparr>))
          (\<lambda>_. dispatch_request S now i headers es))"
      proof (rule core_ok_then [OF core_ok_from [OF op refine_apply_stream_event]])
        fix a and c1 :: "'v conn"
        assume ev: "apply_stream_event S i (RecvHeaders es) (c\<lparr>c_streams := t\<rparr>) = (Inr a, c1)"
          and st: "core_steps h (core_of c) (core_of c1)"
        from opened_stays_live [OF _ ev, of s] o Inr have "c_get i c1 \<noteq> None" by simp
        from core_ok_from [OF st refine_dispatch_request [OF this]]
        show "core_ok h (core_of c) (dispatch_request S now i headers es c1)" .
      qed
      then show ?thesis using None False o Inr by (simp add: recv_request_def)
    qed
  qed
qed

lemma refine_decode_block: "core_ok h (core_of c) (decode_block S now i block c)"
proof -
  obtain r d where h: "hpack_decode block (c_hpack_dec c) = (r, d)" by (cases "hpack_decode block (c_hpack_dec c)")
  let ?c = "count_block (c\<lparr>c_hpack_dec := d\<rparr>)"
  have same: "core_of ?c = core_of c" by simp
  have "core_ok h (core_of c) (recv_request S now i hs es ?c)" for hs es
    using refine_recv_request [of _ ?c S now i hs es] unfolding same .
  moreover have "core_ok h (core_of c) (reject_stream S i 431 ?c)"
    using refine_reject_stream [of _ ?c S i 431] unfolding same .
  ultimately show ?thesis
    by (simp add: decode_block_def h split: sum.split hpack_error.split)
qed

lemma refine_check_verdict: "core_of c = k \<Longrightarrow> core_ok h k (check_verdict v c)"
  by (auto simp: check_verdict_def core_ok_def split: option.splits)

lemma refine_read_header_block: "core_ok h (core_of c) (read_header_block S now i fragment eh c)"
proof -
  have d: "core_of c1 = core_of c \<Longrightarrow> core_ok h (core_of c) (decode_block S now i b c1)" for b c1
    using refine_decode_block [of _ c1 S now i b] by simp
  show ?thesis
    by (auto simp: read_header_block_def Let_def intro!: d refine_check_verdict split: prod.split)
qed

subsection \<open>DATA, RST_STREAM, WINDOW_UPDATE and SETTINGS\<close>

lemma core_map_code: "core_ok h k (map_code r, c) \<longleftrightarrow> (\<forall>u. r = Inr u \<longrightarrow> core_steps h k (core_of c))"
  by (cases r) (auto simp: core_ok_def map_code_def)

lemma lookup_live: "lookup_stream i t = LookupLive s \<longleftrightarrow> get_stream i t = Some s"
  by (auto simp: lookup_stream_def get_stream_def split: option.split)

text \<open>Octets for a stream that is gone are debited and credited back at once.\<close>

lemma refine_recv_live_data:
  fixes c :: "'v conn"
  assumes st: "core_steps h k (core_of (c_put i (s\<lparr>st_data_received := sat_add_u64 (st_data_received s) (as_u32 (length data)),
      st_pending_conn_release := sat_add_u32 (st_pending_conn_release s) (as_u32 (length data)),
      st_recv_window := snd (recv_record (as_u32 (length data)) (st_recv_window s))\<rparr>) c))"
  shows "core_ok h k (recv_live_data S i s data es c)"
proof -
  let ?n = "as_u32 (length data)"
  obtain ov sw where sr: "recv_record ?n (st_recv_window s) = (ov, sw)"
    by (cases "recv_record ?n (st_recv_window s)")
  let ?c = "c_put i (s\<lparr>st_data_received := sat_add_u64 (st_data_received s) ?n,
      st_pending_conn_release := sat_add_u32 (st_pending_conn_release s) ?n, st_recv_window := sw\<rparr>) c"
  have st: "core_steps h k (core_of ?c)" using st by (simp only: sr snd_conv)
  note rst = core_ok_from [OF st refine_write_rst_stream]
  have "core_ok h k (and_then (apply_stream_event S i (RecvData es) ?c) (\<lambda>_ c2.
      drain_reclaimed (if data \<noteq> [] \<or> es then notify S (SvBody i data es) c2 else c2)))"
  proof (rule core_ok_then [OF core_ok_from [OF st refine_apply_stream_event]])
    fix a and c2 :: "'v conn" assume s2: "core_steps h k (core_of c2)"
    have "core_steps h (core_of c2) (core_of (if data \<noteq> [] \<or> es then notify S (SvBody i data es) c2 else c2))"
      using core_call [of c2 "SvBody i data es" _ S] by simp
    from core_ok_from [OF rtranclp_trans [OF s2 this] refine_drain_reclaimed]
    show "core_ok h k (drain_reclaimed (if data \<noteq> [] \<or> es then notify S (SvBody i data es) c2 else c2))" .
  qed
  then show ?thesis
    unfolding recv_live_data_def Let_def sr prod.case
    using rst by (cases ov; cases "if es then request_body_error i ?c else None") simp_all
qed

lemma refine_recv_data:
  fixes c :: "'v conn"
  shows "core_ok h (core_of c) (recv_data S i data es c)"
proof -
  let ?n = "as_u32 (length data)"
  obtain v g where og: "on_data (length data) es (c_guard c) = (v, g)"
    by (cases "on_data (length data) es (c_guard c)")
  show ?thesis
    unfolding recv_data_def og prod.case
  proof (rule core_ok_then [OF refine_check_verdict])
    fix a and c1 :: "'v conn"
    assume cv: "check_verdict v (c\<lparr>c_guard := g\<rparr>) = (Inr a, c1)"
    then have c1: "core_of c1 = core_of c"
      by (auto simp: check_verdict_def split: option.splits)
    obtain r w where rr: "recv_record ?n (c_conn_recv_window c1) = (r, w)"
      by (cases "recv_record ?n (c_conn_recv_window c1)")
    let ?c2 = "c1\<lparr>c_conn_recv_window := w\<rparr>"
    have fin: "core_ok h (core_of c) (case lookup_stream i (c_streams ?c2) of
        LookupIdle \<Rightarrow> (Inl (ConnectionError ProtocolError), ?c2)
      | LookupClosed \<Rightarrow> and_then (release_conn_window ?n ?c2) (\<lambda>_. write_rst_stream S i StreamClosed)
      | LookupLive s \<Rightarrow> recv_live_data S i s data es ?c2)" if "r = Inr ()"
    proof -
      have rec: "recv_record ?n (k_recv (core_of c)) = (Inr (), w)"
        using rr that c1 by (metis core_of_fields(2))
      have "core_ok h (core_of c) (and_then (release_conn_window ?n ?c2) (\<lambda>_. write_rst_stream S i StreamClosed))"
      proof (rule core_ok_then)
        show "core_ok h (core_of c) (release_conn_window ?n ?c2)"
          unfolding core_ok_def
        proof (intro allI impI)
          fix a c' assume "release_conn_window ?n ?c2 = (Inr a, c')"
          from core_release_conn_window [OF this] c1
          have "core_of c' = (core_of c)\<lparr>k_recv := snd (recv_release ?n w)\<rparr>" by simp
          with core_one [OF discards [OF rec]] show "core_steps h (core_of c) (core_of c')" by simp
        qed
      next
        fix a and c3 :: "'v conn" assume "core_steps h (core_of c) (core_of c3)"
        from core_ok_from [OF this refine_write_rst_stream]
        show "core_ok h (core_of c) (write_rst_stream S i StreamClosed c3)" .
      qed
      moreover have "core_ok h (core_of c) (recv_live_data S i s data es ?c2)"
        if "lookup_stream i (c_streams c1) = LookupLive s" for s
      proof (rule refine_recv_live_data)
        have "get_stream i (k_streams (core_of c)) = Some s"
          using that c1 by (metis core_of_fields(1) lookup_live)
        from core_one [OF receives [OF this rec]]
        show "core_steps h (core_of c) (core_of (c_put i
            (s\<lparr>st_data_received := sat_add_u64 (st_data_received s) ?n,
               st_pending_conn_release := sat_add_u32 (st_pending_conn_release s) ?n,
               st_recv_window := snd (recv_record ?n (st_recv_window s))\<rparr>) ?c2))"
          using c1 by simp (metis core_of_fields(1))
      qed
      ultimately show ?thesis by (simp split: lookup_result.split)
    qed
    show "core_ok h (core_of c) (case recv_record ?n (c_conn_recv_window c1) of (r, w) \<Rightarrow>
        and_then (map_code r, c1\<lparr>c_conn_recv_window := w\<rparr>) (\<lambda>_ c2.
        case lookup_stream i (c_streams c2) of
          LookupIdle \<Rightarrow> (Inl (ConnectionError ProtocolError), c2)
        | LookupClosed \<Rightarrow> and_then (release_conn_window ?n c2) (\<lambda>_. write_rst_stream S i StreamClosed)
        | LookupLive s \<Rightarrow> recv_live_data S i s data es c2))"
      unfolding rr prod.case using fin by (cases r) (simp_all add: map_code_def)
  qed simp
qed

lemma refine_recv_rst_stream: "core_ok h (core_of c) (recv_rst_stream S now i code c)"
proof -
  have "core_ok h (core_of c) (and_then (check_verdict v (c\<lparr>c_guard := g\<rparr>)) (\<lambda>_ c1.
      drain_reclaimed (notify S (SvCancel i code) (retire_and_unqueue i (count_reset c1)))))" for v g
    by (rule core_ok_then [OF refine_check_verdict]) (simp, erule core_ok_from, rule refine_cancel_and_drain)
  then show ?thesis
    by (auto simp: recv_rst_stream_def core_ok_def split: lookup_result.split prod.split)
qed

text \<open>The connection window is credited by the frame just received, whose increment the core's
  total already holds.\<close>

lemma refine_conn_credit:
  assumes "is_connection i" "recv_window_update S i inc c = (Inr a, c')"
    "core_of c = k\<lparr>k_credited := k_credited k + unat inc\<rparr>"
  shows "core_steps h k (core_of c')"
proof -
  obtain r w where up: "increase (unat inc) (c_conn_send_window c) = (r, w)"
    by (cases "increase (unat inc) (c_conn_send_window c)")
  have r: "r = Inr ()" and c': "c' = c\<lparr>c_conn_send_window := w\<rparr>"
    using assms(1,2) by (cases r; auto simp: recv_window_update_def up map_code_def split: if_splits)+
  have "k_send k = c_conn_send_window c" using arg_cong [OF assms(3), where f=k_send] by simp
  from credits_conn [where n="unat inc" and k=k and v=w] up r this have "core_step h k (k\<lparr>k_credited := k_credited k + unat inc, k_send := w\<rparr>)"
    by simp
  from core_one [OF this] show ?thesis by (simp add: c' assms(3))
qed

lemma refine_stream_credit:
  assumes "\<not> is_connection i"
  shows "core_ok h (core_of c) (recv_window_update S i inc c)"
proof (cases "inc = 0 \<or> (\<forall>s. lookup_stream i (c_streams c) \<noteq> LookupLive s)")
  case True
  then show ?thesis
    using assms by (auto simp: recv_window_update_def core_ok_return split: lookup_result.split)
next
  case False
  then obtain s where l: "lookup_stream i (c_streams c) = LookupLive s" by auto
  then have g: "c_get i c = Some s" by (simp add: lookup_live c_get_def)
  obtain r w where up: "increase (unat inc) (st_send_window s) = (r, w)"
    by (cases "increase (unat inc) (st_send_window s)")
  let ?c = "c_put i (s\<lparr>st_send_window := w\<rparr>) c"
  have st: "core_steps h (core_of c) (core_of ?c)"
    using core_one [OF credits_stream [where i=i and k="core_of c" and s=s and n="unat inc"]] g by (simp add: c_get_def up)
  show ?thesis
    using assms False l
    by (simp add: recv_window_update_def up Let_def core_ok_from [OF st refine_write_rst_stream]
        core_ok_return [OF rtranclp_trans [OF st core_enqueue_ready]])
qed

lemma refine_write_settings_ack: "core_ok h (core_of c) (write_settings_ack c)"
  by (simp add: write_settings_ack_def core_queue_control)

lemma refine_recv_settings:
  fixes c :: "'v conn"
  shows "core_ok h (core_of c) (recv_settings params c)"
proof -
  obtain r s where ap: "settings_apply params (c_peer_settings c) = (r, s)"
    by (cases "settings_apply params (c_peer_settings c)")
  have fin: "core_ok h k (and_then (write_settings_ack c3)
      (\<lambda>_ c4. (Inr (), c4\<lparr>c_summary := (c_summary c4)\<lparr>cs_handshake_completed := True\<rparr>\<rparr>)))"
    if "core_steps h k (core_of c3)" for k and c3 :: "'v conn"
    by (rule core_ok_then [OF core_ok_from [OF that refine_write_settings_ack]]) (simp add: core_ok_return)
  have delta: "core_ok h k (if d \<noteq> 0 then
        (case apply_initial_window_delta (as_i32 d) (c_streams c2) of (r, t) \<Rightarrow> (map_code r, c2\<lparr>c_streams := t\<rparr>))
      else (Inr (), c2))" if "core_of c2 = k" for k d and c2 :: "'v conn"
  proof (cases "d = 0")
    case False
    obtain r t where dl: "apply_initial_window_delta (as_i32 d) (c_streams c2) = (r, t)"
      by (cases "apply_initial_window_delta (as_i32 d) (c_streams c2)")
    have "core_steps h k (core_of (c2\<lparr>c_streams := t\<rparr>))" if "r = Inr ()"
      using core_one [OF resizes [of "as_i32 d" k t]] dl that \<open>core_of c2 = k\<close> by auto
    then show ?thesis using False by (simp add: dl core_map_code)
  qed (use that in \<open>simp add: core_ok_return\<close>)
  have stage: "core_ok h (core_of c) (and_then (r, c\<lparr>c_peer_settings := s\<rparr>) k)"
    if "r = Inr () \<Longrightarrow> core_ok h (core_of c) (k () (c\<lparr>c_peer_settings := s\<rparr>))" for k :: "unit \<Rightarrow> ('v, unit) handler"
    using that by (cases r) simp_all
  show ?thesis
    unfolding recv_settings_def ap prod.case Let_def
    by (rule stage, rule core_ok_then [OF delta], simp, rule fin)
qed

lemma refine_recv_settings_ack: "core_steps h (core_of c) (core_of (recv_settings_ack c))"
  using core_one [OF limits [of _ "core_of c" "unat (c_advertised_streams c)"]]
  by (simp add: recv_settings_ack_def Let_def)

subsection \<open>A frame\<close>

lemma core_ok_then_return:
  "core_ok h k r \<Longrightarrow> core_ok h k (and_then r (\<lambda>_ c. (Inr x, c)))"
  by (erule core_ok_then) (simp add: core_ok_return)

lemma refine_frame_action:
  assumes "conn_increment f = 0"
  shows "core_ok h (core_of c) (frame_action S now f c)"
proof (cases f)
  case (SettingsFrame ack params)
  then show ?thesis
    by (simp add: core_ok_return refine_recv_settings_ack core_ok_then_return [OF refine_recv_settings])
next
  case (Ping data ack)
  then show ?thesis
    by (simp add: core_ok_return core_ok_then_return [OF core_queue_control])
next
  case (WindowUpdate i inc)
  show ?thesis
  proof (cases "is_connection i")
    case True
    then have "inc = 0" using assms WindowUpdate by (simp add: unat_eq_0)
    then show ?thesis using True WindowUpdate by (simp add: recv_window_update_def)
  next
    case False
    then show ?thesis using WindowUpdate by (simp add: core_ok_then_return [OF refine_stream_credit])
  qed
next
  case (Headers i block es eh)
  let ?c = "if c_open_header_block c = None then c\<lparr>c_open_header_end_stream := es\<rparr> else c"
  have "core_ok h (core_of ?c) (read_header_block S now i block eh ?c)" by (rule refine_read_header_block)
  moreover have "core_of ?c = core_of c" by simp
  ultimately show ?thesis using Headers by (simp add: core_ok_then_return)
qed (simp_all add: core_ok_return core_ok_then_return refine_read_header_block refine_recv_data refine_recv_rst_stream)

lemma core_received:
  "core_of (c\<lparr>c_received := c_received c @ [f]\<rparr>) = (core_of c)\<lparr>k_credited := credit_received (c_received c) + conn_increment f\<rparr>"
  by (simp add: core_of_def credit_received_def)

lemma core_block_order [simp]:
  "core_of (if p then c else c\<lparr>c_open_header_block := x\<rparr>) = core_of c"
  by simp

lemma refine_handle_frame:
  fixes c :: "'v conn"
  shows "core_ok h (core_of c) (handle_frame S now f c)"
proof (cases "block_order_ok f c")
  case True
  let ?g = "if is_control f
      then (case on_control_frame now (c_guard c) of (v, g) \<Rightarrow> check_verdict v (c\<lparr>c_guard := g\<rparr>))
      else (Inr (), c)"
  have g: "core_of c0 = core_of c" if "?g = (Inr a, c0)" for a c0
    using that by (auto simp: check_verdict_def split: if_splits prod.splits option.splits)
  have act: "core_ok h (core_of c) (frame_action S now f (c0\<lparr>c_received := c_received c0 @ [f]\<rparr>))"
    if c0: "core_of c0 = core_of c" for c0 :: "'v conn"
  proof (cases "conn_increment f = 0")
    case True
    let ?c = "c0\<lparr>c_received := c_received c0 @ [f]\<rparr>"
    have "core_of ?c = core_of c"
      using True c0 by (simp add: core_received) (simp add: core_of_def)
    with refine_frame_action [OF True, of _ ?c S now] show ?thesis by simp
  next
    case False
    then obtain i inc where f: "f = WindowUpdate i inc" and conn: "is_connection i"
      by (cases f) (auto split: if_splits)
    let ?c = "c0\<lparr>c_received := c_received c0 @ [f]\<rparr>"
    have k: "core_of ?c = (core_of c)\<lparr>k_credited := k_credited (core_of c) + unat inc\<rparr>"
      using c0 f conn by (simp add: core_received) (metis core_of_fields(7))
    have "core_ok h (core_of c) (recv_window_update S i inc ?c)"
      using refine_conn_credit [OF conn _ k] by (simp add: core_ok_def)
    from core_ok_then_return [OF this] show ?thesis by (simp add: f)
  qed
  have fin: "core_ok h k (Inr x, if x = Close then c2 else c2\<lparr>c_open_header_block := y\<rparr>)"
    if "core_steps h k (core_of c2)" for k x y and c2 :: "'v conn"
    using that by (simp add: core_ok_return)
  have "core_ok h (core_of c) (and_then ?g (\<lambda>_ c0. let c1 = c0\<lparr>c_received := c_received c0 @ [f]\<rparr> in
      and_then (frame_action S now f c1) (\<lambda>next c2. (Inr next,
        if next = Close then c2 else c2\<lparr>c_open_header_block := block_after f (c_open_header_block c2)\<rparr>))))"
  proof (rule core_ok_then)
    show "core_ok h (core_of c) ?g" using g by (auto simp: core_ok_def)
  next
    fix a and c0 :: "'v conn" assume "?g = (Inr a, c0)"
    from act [OF g [OF this]] show "core_ok h (core_of c) (let c1 = c0\<lparr>c_received := c_received c0 @ [f]\<rparr> in
      and_then (frame_action S now f c1) (\<lambda>next c2. (Inr next,
        if next = Close then c2 else c2\<lparr>c_open_header_block := block_after f (c_open_header_block c2)\<rparr>)))"
      unfolding Let_def by (rule core_ok_then) (rule fin)
  qed
  then show ?thesis using True by (simp add: handle_frame_def)
qed (simp add: handle_frame_def)

subsection \<open>The sender\<close>

lemma visit_take_inert:
  assumes "visit_take s b = (chunk, es, tr, s1)"
  shows "inert s s1"
proof -
  obtain q where q: "take_from_queue (st_send_queue s) b = (chunk, q)"
    by (cases "take_from_queue (st_send_queue s) b") (use assms in \<open>auto simp: visit_take_def Let_def\<close>)
  show ?thesis using assms unfolding visit_take_def q Let_def prod.case by (auto simp: inert_def)
qed

lemma inert_trans: "inert a b \<Longrightarrow> inert b c \<Longrightarrow> inert a c"
  by (simp add: inert_def)

text \<open>Debiting both windows and putting the DATA frame on the queue is one step of the core.\<close>

lemma refine_spend_and_write:
  fixes c :: "'v conn"
  assumes g: "c_get i c = Some s" and i1: "inert s s1"
  shows "core_ok h (core_of c) (and_then (spend_windows (length chunk) i s1 c) (\<lambda>_. write_data S i chunk es))"
proof -
  have t1: "core_steps h (core_of c) (core_of (c_put i s1 c))" by (rule core_tweak [OF g i1])
  have wr: "core_ok h k (write_data S i chunk es c2)"
    if st: "core_steps h k ((core_of c2)\<lparr>k_sent := k_sent (core_of c2) + length chunk\<rparr>)"
    for k and c2 :: "'v conn"
  proof (cases "length chunk > 0 \<or> es")
    case True
    have "core_ok h k (and_then (queue_frame (Data i chunk es) c2)
        (\<lambda>_ c1. apply_stream_event S i (SendData es) (count_sent (length chunk) c1)))"
    proof (rule core_ok_then)
      show "core_ok h k (queue_frame (Data i chunk es) c2)"
        using core_queue_frame [of "Data i chunk es" c2] st by (auto simp: core_ok_def)
    next
      fix a and c3 :: "'v conn" assume s3: "core_steps h k (core_of c3)"
      have "core_ok h (core_of c3) (apply_stream_event S i (SendData es) (count_sent (length chunk) c3))"
        using refine_apply_stream_event [of _ "count_sent (length chunk) c3" S i "SendData es"] by simp
      from core_ok_from [OF s3 this]
      show "core_ok h k (apply_stream_event S i (SendData es) (count_sent (length chunk) c3))" .
    qed
    then show ?thesis using True by (simp add: write_data_def)
  next
    case False
    show ?thesis using False st by (simp add: write_data_def core_ok_def)
  qed
  show ?thesis
    unfolding core_ok_def
  proof (intro allI impI)
    fix a c'
    assume "and_then (spend_windows (length chunk) i s1 c) (\<lambda>_. write_data S i chunk es) = (Inr a, c')"
    then obtain c2 where sp: "spend_windows (length chunk) i s1 c = (Inr (), c2)"
      and wd: "write_data S i chunk es c2 = (Inr a, c')" by (auto elim!: and_then_Inr)
    have "core_steps h (core_of c) ((core_of c2)\<lparr>k_sent := k_sent (core_of c2) + length chunk\<rparr>)"
    proof (cases "length chunk > 0")
      case False
      then have c2: "c2 = c_put i s1 c" using sp by (simp add: spend_windows_def)
      have "(core_of c2)\<lparr>k_sent := k_sent (core_of c2) + length chunk\<rparr> = core_of c2"
        using False by (simp add: core_of_def)
      then show ?thesis using t1 c2 by simp
    next
      case True
      obtain r w where r: "consume (length chunk) (st_send_window s1) = (r, w)"
        by (cases "consume (length chunk) (st_send_window s1)")
      let ?c1 = "c_put i (s1\<lparr>st_send_window := w\<rparr>) c"
      obtain r2 v where r2: "consume (length chunk) (c_conn_send_window ?c1) = (r2, v)"
        by (cases "consume (length chunk) (c_conn_send_window ?c1)")
      have ok: "r = Inr ()" "r2 = Inr ()" and c2: "c2 = ?c1\<lparr>c_conn_send_window := v\<rparr>"
        using sp True by (cases r; cases r2; simp add: spend_windows_def r r2 map_code_def)+
      have "get_stream i (k_streams (core_of (c_put i s1 c))) = Some s1"
        by (simp add: get_stream_def)
      from sends [OF this, of "length chunk" w v] r r2 ok
      have "core_step h (core_of (c_put i s1 c)) ((core_of c2)\<lparr>k_sent := k_sent (core_of c2) + length chunk\<rparr>)"
        by (simp add: c2 put_stream_def update_last c_put_def)
      with t1 show ?thesis by (rule rtranclp.rtrancl_into_rtrancl)
    qed
    from wr [OF this, of] wd show "core_steps h (core_of c) (core_of c')" by (simp add: core_ok_def)
  qed
qed

lemma and_then_assoc: "and_then (and_then r f) g = and_then r (\<lambda>a s. and_then (f a s) g)"
  by (auto simp: and_then_def split: prod.split sum.split)

lemma refine_visit_emit:
  fixes c :: "'v conn"
  assumes "c_get i c = Some s" "inert s s1"
  shows "core_ok h (core_of c) (visit_emit S i chunk es tr s1 c)"
proof -
  have "core_ok h (core_of c) (and_then (and_then (spend_windows (length chunk) i s1 c) (\<lambda>_. write_data S i chunk es))
      (\<lambda>_ c2. let c3 = (if length chunk > 0 then notify S (SvReleased i (length chunk)) c2 else c2) in
       and_then (case tr of None \<Rightarrow> (Inr (), c3) | Some flds \<Rightarrow> send_trailers S i flds c3)
       (\<lambda>_ c4. (Inr (Wrote (case c_get i c4 of None \<Rightarrow> False | Some s' \<Rightarrow> has_pending_send s')), c4))))"
  proof (rule core_ok_then [OF refine_spend_and_write [OF assms]])
    fix a and c2 :: "'v conn" assume s2: "core_steps h (core_of c) (core_of c2)"
    define c3 where "c3 = (if length chunk > 0 then notify S (SvReleased i (length chunk)) c2 else c2)"
    have "core_steps h (core_of c2) (core_of c3)"
      using core_call [of c2 "SvReleased i (length chunk)" _ S] by (simp add: c3_def)
    with s2 have s3: "core_steps h (core_of c) (core_of c3)" by (rule rtranclp_trans)
    show "core_ok h (core_of c) (let c3 = (if length chunk > 0 then notify S (SvReleased i (length chunk)) c2 else c2) in
       and_then (case tr of None \<Rightarrow> (Inr (), c3) | Some flds \<Rightarrow> send_trailers S i flds c3)
       (\<lambda>_ c4. (Inr (Wrote (case c_get i c4 of None \<Rightarrow> False | Some s' \<Rightarrow> has_pending_send s')), c4)))"
      unfolding Let_def c3_def [symmetric]
      by (rule core_ok_then)
        (use s3 core_ok_from [OF s3 refine_send_trailers] in \<open>auto simp: core_ok_return split: option.split\<close>)
  qed
  then show ?thesis by (simp add: visit_emit_def and_then_assoc)
qed

lemma refine_visit: "core_ok h (core_of c) (visit_ready_stream S i c)"
proof (cases rule: visit_cases [of i c S])
  case (stalled s)
  then show ?thesis using core_tweak [OF stalled(1), of "s\<lparr>st_queued := False\<rparr>"] by (simp add: core_ok_def)
next
  case (idle s s1)
  have "inert s s1" using visit_take_inert [OF idle(2)] by (simp add: inert_def)
  from core_tweak [OF idle(1) this] show ?thesis by (simp add: idle(4) core_ok_def)
next
  case (emits s chunk es tr s1)
  have "inert s s1" using visit_take_inert [OF emits(2)] by (simp add: inert_def)
  from refine_visit_emit [OF emits(1) this] show ?thesis by (simp add: emits(5))
qed (simp add: core_ok_return)

lemma refine_visit_lap:
  fixes c :: "'v conn"
  shows "core_ok h (core_of c) (visit_lap S lap st sv w c)"
proof (induction lap arbitrary: st sv w c)
  case (Cons i lap)
  show ?case
    unfolding visit_lap.simps
  proof (rule core_ok_then [OF refine_visit])
    fix v and c1 :: "'v conn" assume "core_steps h (core_of c) (core_of c1)"
    then show "core_ok h (core_of c) ((case v of Stalled \<Rightarrow> visit_lap S lap (st @ [i]) sv w
       | Wrote again \<Rightarrow> visit_lap S lap st (if again then sv @ [i] else sv) True
       | VisitFinished \<Rightarrow> visit_lap S lap st sv w) c1)"
      by (rule core_ok_from) (auto simp: Cons.IH split: visit.split)
  qed
qed (simp add: core_ok_return)

lemma core_mark_queued: "core_steps h (core_of c) (core_of (mark_queued i c))"
  using core_tweak [of i c _ "_\<lparr>st_queued := True\<rparr>"]
  by (simp add: mark_queued_def split: option.split)

lemma core_rebuild_ring:
  fixes c :: "'v conn"
  shows "core_steps h (core_of c) (core_of (rebuild_ring ring c))"
proof -
  have "core_steps h (core_of d) (core_of (fold mark_queued is d))" for "is" and d :: "'v conn"
  proof (induction "is" arbitrary: d)
    case (Cons i "is")
    from rtranclp_trans [OF core_mark_queued Cons.IH] show ?case by simp
  qed simp
  from this [of "c\<lparr>c_ready := ring\<rparr>" ring] show ?thesis by (simp add: rebuild_ring_def Let_def)
qed

lemma refine_pump_lap:
  fixes c :: "'v conn"
  shows "core_ok h (core_of c) (pump_lap S c)"
  unfolding pump_lap_def
proof (rule core_ok_then)
  show "core_ok h (core_of c) (visit_lap S (c_ready c) [] [] False (c\<lparr>c_ready := []\<rparr>))"
    using refine_visit_lap [of _ "c\<lparr>c_ready := []\<rparr>" S] by simp
next
  fix a and c1 :: "'v conn" assume st: "core_steps h (core_of c) (core_of c1)"
  from rtranclp_trans [OF st core_rebuild_ring]
  show "core_ok h (core_of c) ((case a of (stalled, served, wrote) \<Rightarrow> \<lambda>c1.
      let c2 = rebuild_ring (stalled @ served) c1 in
      (Inr wrote, if \<not> wrote \<and> c_ready c2 \<noteq> [] then count_stall c2 else c2)) c1)"
    by (auto simp: Let_def core_ok_return split: prod.split)
qed

lemma refine_pump_loop:
  fixes c :: "'v conn"
  shows "core_ok h (core_of c) (pump_loop S c)"
proof (induction S c rule: pump_loop.induct)
  case (1 S c)
  show ?case
  proof (cases "c_ready c = [] \<or> length (c_out c) \<ge> max_write_queue")
    case True
    then show ?thesis by (subst pump_loop.simps) (simp add: core_ok_return)
  next
    case False
    obtain r c1 where p: "pump_lap S c = (r, c1)" by (cases "pump_lap S c")
    show ?thesis
    proof (cases r)
      case (Inl e)
      then show ?thesis using False p by (subst pump_loop.simps) simp
    next
      case (Inr wrote)
      have st: "core_steps h (core_of c) (core_of c1)"
        using refine_pump_lap [of _ c S] p Inr by (simp add: core_ok_def)
      have "core_ok h (core_of c1) (pump_loop S c1)" if wrote
        by (rule "1.IH" [OF False p [symmetric] Inr that])
      then show ?thesis using False p Inr
        by (subst pump_loop.simps) (cases wrote; simp add: core_ok_return [OF st] core_ok_from [OF st])
    qed
  qed
qed

lemma refine_pump_outbound: "core_ok h (core_of c) (pump_outbound S c)"
  unfolding pump_outbound_def
  by (rule core_ok_then [OF refine_pump_loop]) (erule core_ok_from, rule refine_flush_pending_resets)

subsection \<open>Events and steps\<close>

lemma refine_abandon: "core_ok h (core_of c) (abandon S i st c)"
  by (simp add: abandon_def refine_reject_stream)

text \<open>
  The credit contract, as a condition on a run: whenever the event taken off the channel says that
  octets of a live stream's body were accepted, at least that many were outstanding.
\<close>

definition event_honest :: "'v conn \<Rightarrow> service_event \<Rightarrow> bool" where
  "event_honest c ev =
     (case ev of
        EvBodyAccepted i n \<Rightarrow> (case c_get i c of None \<Rightarrow> True | Some s \<Rightarrow> n \<le> st_pending_conn_release s)
      | _ \<Rightarrow> True)"

definition step_honest :: "'v service \<Rightarrow> conn_input \<Rightarrow> 'v conn \<Rightarrow> bool" where
  "step_honest S x c =
     (case (x, c_events c) of
        (InEvent, ev # evs) \<Rightarrow>
          (case fst (sv_intercept S ev (c_service c)) of None \<Rightarrow> True | Some ev' \<Rightarrow> event_honest c ev')
      | _ \<Rightarrow> True)"

fun run_honest :: "'v service \<Rightarrow> conn_input list \<Rightarrow> 'v conn \<Rightarrow> bool" where
  "run_honest S [] c = True"
| "run_honest S (x # xs) c =
     (step_honest S x c \<and>
      (case conn_step S x c of (Inl e, c') \<Rightarrow> True | (Inr u, c') \<Rightarrow> run_honest S xs c'))"

lemma refine_deliver_event:
  assumes "h \<Longrightarrow> event_honest c ev"
  shows "core_ok h (core_of c) (deliver_event S ev c)"
proof (cases ev)
  case (EvBodyAccepted i n)
  have "core_ok h (core_of c) (release_recv_window i n c)"
    by (rule refine_release_recv_window) (use assms EvBodyAccepted in \<open>simp add: event_honest_def\<close>)
  then show ?thesis by (simp add: EvBodyAccepted)
next
  case (EvData i data es)
  show ?thesis
  proof (cases "c_get i c")
    case (Some s)
    from rtranclp_trans [OF core_tweak [OF Some inert_simps(7)] core_enqueue_ready]
    show ?thesis using EvData Some by (simp add: core_ok_def)
  qed (simp add: EvData core_ok_return)
qed (simp_all add: core_ok_return refine_send_response refine_send_trailers refine_abandon)

lemma refine_handle_service_event:
  assumes "h \<Longrightarrow> (case fst (sv_intercept S ev (c_service c)) of None \<Rightarrow> True | Some ev' \<Rightarrow> event_honest c ev')"
  shows "core_ok h (core_of c) (handle_service_event S ev c)"
proof -
  obtain r es v where ic: "sv_intercept S ev (c_service c) = (r, es, v)"
    by (cases "sv_intercept S ev (c_service c)") auto
  let ?c = "c\<lparr>c_service := v, c_events := c_events c @ es\<rparr>"
  have "core_ok h (core_of c) (deliver_event S ev' ?c)" if "r = Some ev'" for ev'
  proof -
    have "event_honest ?c ev'" if h using assms [OF that] ic \<open>r = Some ev'\<close>
      by (simp add: event_honest_def c_get_def split: service_event.splits)
    from refine_deliver_event [where h=h and c="?c" and ev=ev' and S=S, OF this] show ?thesis by simp
  qed
  then show ?thesis by (simp add: handle_service_event_def ic Let_def core_ok_return split: option.split)
qed

lemma refine_take_event:
  assumes "h \<Longrightarrow> step_honest S InEvent c"
  shows "core_ok h (core_of c) (take_event S c)"
proof (cases "c_events c")
  case (Cons ev evs)
  have "core_ok h (core_of (c\<lparr>c_events := evs\<rparr>)) (handle_service_event S ev (c\<lparr>c_events := evs\<rparr>))"
    by (rule refine_handle_service_event)
      (use assms Cons in \<open>simp add: step_honest_def event_honest_def c_get_def split: option.splits service_event.splits\<close>)
  then show ?thesis by (simp add: take_event_def Cons)
qed (simp add: take_event_def core_ok_return)

lemma refine_sync_admission: "core_ok h (core_of c) (sync_admission want c)"
proof -
  let ?c1 = "c\<lparr>c_advertised_streams := want,
                   c_local_settings := (c_local_settings c)\<lparr>max_concurrent_streams := Some want\<rparr>,
                   c_outstanding_settings := sat_add_u32 (c_outstanding_settings c) 1\<rparr>"
  let ?c2 = "if want > c_enforced_streams ?c1
      then ?c1\<lparr>c_enforced_streams := want, c_streams := set_max_concurrent (unat want) (c_streams ?c1)\<rparr> else ?c1"
  have "core_steps h (core_of c) (core_of ?c2)"
    using core_one [OF limits [of _ "core_of c" "unat want"]] by simp
  from core_ok_from [OF this core_queue_control [of "SettingsFrame False [(id_max_concurrent_streams, want)]"]]
  have "core_ok h (core_of c) (queue_frame (SettingsFrame False [(id_max_concurrent_streams, want)]) ?c2)"
    by simp
  then show ?thesis unfolding sync_admission_def Let_def by (simp only: core_ok_return rtranclp.rtrancl_refl split: if_split) simp
qed

lemma refine_begin_drain: "core_ok h (core_of c) (begin_drain now c)"
  by (simp add: begin_drain_def Let_def core_ok_queue)

lemma refine_advance_drain: "core_ok h (core_of c) (advance_drain now fired c)"
proof (cases "c_draining c")
  case (Some d)
  show ?thesis
    unfolding advance_drain_def Some option.case Let_def
  proof (rule core_ok_then)
    show "core_ok h (core_of c) (if committed d = None \<and> (fired \<or> commit_at d \<le> now)
        then and_then (queue_frame (GoAway (highest_peer_id (c_streams c)) NoError []) c)
          (\<lambda>_ c1. (Inr (), c1\<lparr>c_draining := Some (d\<lparr>committed := Some (highest_peer_id (c_streams c))\<rparr>),
                             c_summary := (c_summary c1)\<lparr>cs_drained := True\<rparr>\<rparr>))
        else (Inr (), c))"
      using core_ok_then [OF core_queue_control, of "GoAway (highest_peer_id (c_streams c)) NoError []" c h
          "\<lambda>_ c1. (Inr (), c1\<lparr>c_draining := Some (d\<lparr>committed := Some (highest_peer_id (c_streams c))\<rparr>),
                             c_summary := (c_summary c1)\<lparr>cs_drained := True\<rparr>\<rparr>)"]
      by (auto simp: core_ok_return)
  qed (auto simp: core_ok_return split: option.split)
qed (simp add: advance_drain_def core_ok_return)

lemma core_ok_failed: "core_ok h k (failed r) \<longleftrightarrow> core_ok h k r"
  by (cases r; cases "fst r") (auto simp: failed_def core_ok_def)

lemma refine_read_frame: "core_ok h (core_of c) (read_frame S now c)"
proof -
  obtain r rest where d: "decode_any (c_codec c) (c_read_buf c) = (r, rest)"
    by (cases "decode_any (c_codec c) (c_read_buf c)")
  have ign: "core_ok h (core_of c) (and_then (failed (reject_if_mid_header_block kind i (c\<lparr>c_read_buf := rest\<rparr>)))
            (\<lambda>_ c1. (Inr True, c1)))" for kind i
    by (rule core_ok_then_return)
      (auto simp: core_ok_failed reject_if_mid_header_block_def core_ok_return split: option.split)
  have fr: "core_ok h (core_of c) (and_then (failed (handle_frame S now f d))
      (\<lambda>next c1. case next of Continue \<Rightarrow> (Inr True, c1) | Close \<Rightarrow> (Inl Quiet, c1)))"
    if "core_of d = core_of c" for f d
  proof (rule core_ok_then)
    show "core_ok h (core_of c) (failed (handle_frame S now f d))"
      using refine_handle_frame [of _ d S now f] that by (simp add: core_ok_failed)
  qed (auto simp: core_ok_return split: next_step.split)
  show ?thesis
    by (auto simp: read_frame_def d core_ok_return intro!: ign fr split: sum.split option.split decoded.split)
qed

text \<open>The refinement: whatever a connection does next, when it goes on, its core takes core steps.\<close>

lemma refine_step:
  assumes "h \<Longrightarrow> step_honest S x c"
  shows "core_ok h (core_of c) (conn_step S x c)"
proof (cases x)
  case InEvent
  have "core_ok h (core_of c) (take_event S c)"
    by (rule refine_take_event) (use assms InEvent in simp)
  then show ?thesis by (simp add: InEvent core_ok_failed)
next
  case (InFrame now)
  have "core_ok h (core_of c) (and_then (read_frame S now c) (\<lambda>_ c1. (Inr (), c1)))"
    by (rule core_ok_then_return [OF refine_read_frame])
  then show ?thesis by (simp add: InFrame)
next
  case (InClock now fired)
  have "core_ok h (core_of c) (and_then (failed (advance_drain now fired c))
      (\<lambda>go c1. if go then (Inr (), c1) else (Inl Quiet, c1)))"
    by (rule core_ok_then) (auto simp: core_ok_failed refine_advance_drain core_ok_return)
  then show ?thesis by (simp add: InClock)
qed (simp_all add: core_ok_return core_ok_failed refine_sync_admission
    refine_pump_outbound refine_begin_drain)

lemma refine_run:
  fixes c :: "'v conn"
  assumes "h \<Longrightarrow> run_honest S xs c"
  shows "core_ok h (core_of c) (conn_run S xs c)"
  using assms
proof (induction xs arbitrary: c)
  case (Cons x xs)
  show ?case
    unfolding conn_run.simps
  proof (rule core_ok_then [OF refine_step])
    fix a and c1 :: "'v conn"
    assume st: "conn_step S x c = (Inr a, c1)" and k: "core_steps h (core_of c) (core_of c1)"
    have "core_ok h (core_of c1) (conn_run S xs c1)"
      by (rule Cons.IH) (use Cons.prems st in simp)
    with k show "core_ok h (core_of c) (conn_run S xs c1)" by (rule core_ok_from)
  qed (use Cons.prems in simp)
qed (simp add: core_ok_return)

text \<open>An invariant of the core's steps that holds at the start holds after every run that goes
  on.\<close>

lemma core_invariant:
  assumes "conn_run S xs c = (Inr (), c')" "P (core_of c)" "h \<Longrightarrow> run_honest S xs c"
    "\<And>k k'. core_step h k k' \<Longrightarrow> P k \<Longrightarrow> P k'"
  shows "P (core_of c')"
proof -
  have "core_steps h (core_of c) (core_of c')"
    using refine_run [of h S xs c, OF assms(3)] assms(1) by (simp add: core_ok_def)
  then show ?thesis using assms(2) by (induction rule: rtranclp_induct) (auto intro: assms(4))
qed

end
