(* ===== verification/Conn_Inv.thy ===== *)
theory Conn_Inv
  imports Conn_Refine
begin

section \<open>Invariants of a connection\<close>

text \<open>
  Proved of the core's steps, and so of every run of a connection that goes on: the stream table is
  well formed, the responder hears of the end of every stream it was given, what is sent stays
  within what the peer credited, and receive credit is conserved.
\<close>

subsection \<open>The stream table\<close>

lemma get_live: "get_stream i t = Some s \<longleftrightarrow> map_of (live t) i = Some s"
  by (simp add: get_stream_def)

lemma peer_role_put:
  assumes "peer_role t" "get_stream i t = Some s" "st_state s' \<noteq> Closed"
  shows "peer_role (put_stream i s' t)"
  using assms table_inv_put [of t i s s'] by (simp add: peer_role_def get_live)

lemma peer_role_not_closed: "peer_role t \<Longrightarrow> get_stream i t = Some s \<Longrightarrow> st_state s \<noteq> Closed"
  using table_inv_live [of t i s] by (simp add: peer_role_def get_live entry_ok_def)

lemma peer_role_retire: "peer_role t \<Longrightarrow> peer_role (retire i t)"
  by (simp add: peer_role_def table_inv_retire)

lemma entry_ok_update [simp]:
  "entry_ok (t\<lparr>reclaimed := n\<rparr>) = entry_ok t"
  "entry_ok (set_max_concurrent m t) = entry_ok t"
  by (intro ext; simp add: entry_ok_def set_max_concurrent_def)+

lemma peer_role_update:
  "peer_role t \<Longrightarrow> peer_role (t\<lparr>reclaimed := n\<rparr>)"
  "peer_role t \<Longrightarrow> peer_role (set_max_concurrent m t)"
  unfolding peer_role_def table_inv_iff entry_ok_update
  by (simp_all add: set_max_concurrent_def live_count_def)

lemma retire_ended:
  assumes "peer_role t" "get_stream i t = Some s"
  shows "retire i (put_stream i (s\<lparr>st_state := Closed\<rparr>) t) = retire i t"
  using assms retire_put [of t i s "s\<lparr>st_state := Closed\<rparr>"] by (simp add: peer_role_def table_inv_distinct get_live)

lemma peer_role_step: "core_step h k k' \<Longrightarrow> peer_role (k_streams k) \<Longrightarrow> peer_role (k_streams k')"
proof (induction rule: core_step.induct)
  case (tweaked i k s s')
  then show ?case using peer_role_put [of "k_streams k" i s s'] peer_role_not_closed [of "k_streams k" i s]
    by (simp add: inert_def)
next
  case (ended i k s e)
  then show ?case by (simp add: retire_ended peer_role_retire)
next
  case (opens i k s t)
  then show ?case using open_peer_inv [of "k_streams k" i] by simp
next
  case (turns_away i k t)
  then show ?case using open_peer_inv [of "k_streams k" i] by simp
next
  case (resizes d k t)
  then show ?case
    using table_inv_delta [of "k_streams k" d] apply_initial_window_delta_fields(2) [of d "k_streams k"]
    by (simp add: peer_role_def)
qed (auto simp: peer_role_retire peer_role_update intro!: peer_role_put dest: peer_role_not_closed)

subsection \<open>The connections considered\<close>

text \<open>A connection as the daemon sets it up: \<^verbatim>\<open>with_service\<close>, then the builders in its order.\<close>

definition conn_start ::
    "instant \<Rightarrow> settings \<Rightarrow> drain_policy \<Rightarrow> limits \<Rightarrow> int \<Rightarrow> u32 option \<Rightarrow> 'v \<Rightarrow> 'v conn" where
  "conn_start now local policy limits window budget v =
     (let c = with_connection_window window (with_limits limits now (with_drain_policy policy (conn_new now local v)))
      in case budget of None \<Rightarrow> c | Some b \<Rightarrow> with_admission b c)"

lemma core_of_start:
  "k_recv (core_of (conn_start now local policy limits W budget v)) = recv_window_new W"
  "k_send (core_of (conn_start now local policy limits W budget v)) = Window 65535"
  "k_calls (core_of (conn_start now local policy limits W budget v)) = []"
  "k_resets (core_of (conn_start now local policy limits W budget v)) = []"
  "k_sent (core_of (conn_start now local policy limits W budget v)) = 0"
  "k_credited (core_of (conn_start now local policy limits W budget v)) = 0"
  "\<exists>m s r. k_streams (core_of (conn_start now local policy limits W budget v)) = stream_table_new m s r"
  by (auto simp: conn_start_def conn_new_def with_drain_policy_def with_limits_def with_connection_window_def
      with_admission_def octets_sent_def credit_received_def as_int_def settings_default_def Let_def
      set_max_concurrent_def stream_table_new_def default_initial_window_size_def as_i32_def split: option.split)

lemma start_table:
  "peer_role (k_streams (core_of (conn_start now local policy limits W budget v)))"
  "owed (k_streams (core_of (conn_start now local policy limits W budget v))) = 0"
proof -
  obtain m s r where "k_streams (core_of (conn_start now local policy limits W budget v)) = stream_table_new m s r"
    using core_of_start(7) [of now local policy limits W budget v] by blast
  then show "peer_role (k_streams (core_of (conn_start now local policy limits W budget v)))"
    "owed (k_streams (core_of (conn_start now local policy limits W budget v))) = 0"
    unfolding peer_role_def by (simp_all add: owed_def) (simp_all add: stream_table_new_def stream_id_connection_def)
qed

subsection \<open>What is sent fits in what was credited\<close>

definition send_ledger :: "core \<Rightarrow> bool" where
  "send_ledger k \<longleftrightarrow> window_ok (k_send k) \<and> 0 \<le> available (k_send k)
     \<and> available (k_send k) + int (k_sent k) = 65535 + int (k_credited k)"

lemma send_ledger_step: "core_step h k k' \<Longrightarrow> send_ledger k \<Longrightarrow> send_ledger k'"
proof (induction rule: core_step.induct)
  case (sends i k s n w v)
  then have le: "int n \<le> available (k_send k)" by (simp add: consume_def split: if_splits)
  have ok: "window_ok (k_send k)" using sends by (simp add: send_ledger_def)
  have v: "v = Window (available (k_send k) - int n)" using sends(3) consume_ok [OF ok le] by simp
  have "window_ok v" using window_ok_consume [OF ok, of n] sends(3) by simp
  then show ?case using sends.prems v le by (simp add: send_ledger_def)
next
  case (credits_conn n k v)
  then have le: "available (k_send k) + int n \<le> max_window_size" by (simp add: increase_def Let_def split: if_splits)
  have ok: "window_ok (k_send k)" using credits_conn by (simp add: send_ledger_def)
  have v: "v = Window (available (k_send k) + int n)" using credits_conn(1) increase_ok [OF ok le] by simp
  have "window_ok v" using window_ok_increase [OF ok, of n] credits_conn(1) by simp
  then show ?case using credits_conn.prems v by (simp add: send_ledger_def)
qed (simp_all add: send_ledger_def)

subsection \<open>Receive credit is conserved\<close>

text \<open>\<open>credit_ok W r n\<close>: of a window of \<open>W\<close> octets, \<open>n\<close> are still owed by those who hold data.\<close>

definition credit_ok :: "int \<Rightarrow> recv_window \<Rightarrow> nat \<Rightarrow> bool" where
  "credit_ok W r n \<longleftrightarrow> rw_initial r = W \<and> 0 \<le> recv_available r \<and> int (rw_unreleased r) * 2 < W
     \<and> recv_available r + int (rw_unreleased r) + int n = W"

lemma credit_ledger:
  "credit_ok W r n \<longleftrightarrow> recv_inv W \<lparr>rl_window = r, rl_recorded = n + rw_unreleased r,
     rl_released = rw_unreleased r, rl_announced = 0\<rparr>"
  by (auto simp: credit_ok_def recv_inv_def Let_def)

lemma credit_record:
  assumes "credit_ok W r n" "W \<le> max_window_size" "recv_record m r = (Inr (), r')"
  shows "credit_ok W r' (n + m)"
  using recv_record_inv [OF assms(1) [unfolded credit_ledger] assms(2), of m r'] assms(3)
  by (simp add: recv_inv_def credit_ok_def Let_def)

lemma credit_release:
  assumes "credit_ok W r n" "0 < W" "W \<le> max_window_size" "m \<le> n"
  shows "credit_ok W (snd (recv_release m r)) (n - m)"
proof -
  obtain inc r' where rel: "recv_release m r = (inc, r')" by (cases "recv_release m r")
  note inv = recv_release_inv [OF assms(1) [unfolded credit_ledger] assms(2,3), of m]
  show ?thesis
    using inv(1) [of r'] inv(2) [of _ r'] rel assms(4)
    by (cases inc) (auto simp: recv_inv_def credit_ok_def Let_def of_nat_diff)
qed

lemma credit_le: "credit_ok W r n \<Longrightarrow> int n \<le> W"
  by (auto simp: credit_ok_def)

lemma owed_write:
  assumes "get_stream i t = Some s"
  shows "owed (put_stream i s' t) + st_pending_conn_release s = owed t + st_pending_conn_release s'"
  using sum_update_map_of [of "live t" i s st_pending_conn_release s'] assms
  by (simp add: owed_def put_stream_def get_live)

lemma owed_bound: "get_stream i t = Some s \<Longrightarrow> st_pending_conn_release s \<le> owed t"
  using owed_write [of i t s "s\<lparr>st_pending_conn_release := 0\<rparr>"] by simp

lemma owed_same:
  "owed (set_max_concurrent m t) = owed t" "owed (t\<lparr>reclaimed := 0\<rparr>) = owed t - reclaimed t"
  "reclaimed t \<le> owed t"
  by (simp_all add: owed_def set_max_concurrent_def)

lemma owed_delta: "apply_initial_window_delta d t = (r, u) \<Longrightarrow> owed u = owed t"
  using delta_streams_shape(3) [of d "live t"]
  by (auto simp: owed_def apply_initial_window_delta_def split: prod.splits)

definition credit_inv :: "int \<Rightarrow> core \<Rightarrow> bool" where
  "credit_inv W k \<longleftrightarrow> peer_role (k_streams k) \<and> credit_ok W (k_recv k) (owed (k_streams k))"

lemma credit_inv_step:
  assumes "core_step True k k'" "credit_inv W k" "0 < W" "W \<le> max_window_size"
  shows "credit_inv W k'"
proof -
  have role: "peer_role (k_streams k)" and ok: "credit_ok W (k_recv k) (owed (k_streams k))"
    using assms(2) by (simp_all add: credit_inv_def)
  have ti: "table_inv (k_streams k)" using role by (simp add: peer_role_def)
  have small: "owed (k_streams k) \<le> u32_max"
    using credit_le [OF ok] assms(4) by (simp add: max_window_size_def)
  have "credit_ok W (k_recv k') (owed (k_streams k'))"
    using assms(1)
  proof cases
    case (tweaked i s s')
    then show ?thesis using owed_write [of i "k_streams k" s s'] ok by (simp add: inert_def)
  next
    case (moved i s e n)
    then show ?thesis using owed_write [of i "k_streams k" s "s\<lparr>st_state := n\<rparr>"] ok by simp
  next
    case (ended i s e)
    then show ?thesis using ok by (simp add: retire_ended [OF role] owed_retire [OF ti small])
  next
    case reclaims
    have "credit_ok W (snd (recv_release (reclaimed (k_streams k)) (k_recv k)))
        (owed (k_streams k) - reclaimed (k_streams k))"
      by (rule credit_release [OF ok assms(3,4) owed_same(3)])
    then show ?thesis using reclaims by (simp add: owed_same)
  next
    case (releases i s n)
    have n: "n \<le> st_pending_conn_release s" using releases by simp
    from credit_release [OF ok assms(3,4) order_trans [OF n owed_bound [OF releases(2)]]]
    have "credit_ok W (snd (recv_release n (k_recv k))) (owed (k_streams k) - n)" .
    moreover have "owed (put_stream i (s\<lparr>st_pending_conn_release := st_pending_conn_release s - n,
        st_recv_window := snd (recv_release n (st_recv_window s))\<rparr>) (k_streams k)) = owed (k_streams k) - n"
      using owed_write [OF releases(2), of "s\<lparr>st_pending_conn_release := st_pending_conn_release s - n,
        st_recv_window := snd (recv_release n (st_recv_window s))\<rparr>"] n by simp
    ultimately show ?thesis using releases(1) by simp
  next
    case (receives i s n w)
    have c: "credit_ok W w (owed (k_streams k) + n)" by (rule credit_record [OF ok assms(4) receives(3)])
    then have "st_pending_conn_release s + n \<le> u32_max"
      using credit_le [OF c] owed_bound [OF receives(2)] assms(4) by (simp add: max_window_size_def)
    then show ?thesis
      using c receives(1) owed_write [OF receives(2), of "s\<lparr>st_data_received := sat_add_u64 (st_data_received s) n,
          st_pending_conn_release := sat_add_u32 (st_pending_conn_release s) n,
          st_recv_window := snd (recv_record n (st_recv_window s))\<rparr>"]
      by (simp add: sat_add_u32_exact)
  next
    case (discards n w)
    have c: "credit_ok W w (owed (k_streams k) + n)" by (rule credit_record [OF ok assms(4) discards(2)])
    from credit_release [OF c assms(3,4), of n] show ?thesis using discards(1) by simp
  next
    case (opens i s t)
    have "\<not> has_key (live (k_streams k)) i"
      using beyond_high_not_live [OF ti, of i] open_peer_accepted(2) [OF opens(2)] role
        le_less_trans [OF word_zero_le open_peer_accepted(2) [OF opens(2)]]
      by (simp add: peer_role_def max.absorb1)
    then show ?thesis
      using owed_insert [of "(k_streams k)\<lparr>highest_peer_id := i\<rparr>" i] open_peer_accepted(4) [OF opens(2)] opens(1) ok
      by (simp add: owed_def)
  next
    case (turns_away i t)
    then show ?thesis using open_peer_rejected(1,3) [OF turns_away(2)] ok by (auto simp: owed_def)
  next
    case (sends i s n w v)
    then show ?thesis using owed_write [of i "k_streams k" s "s\<lparr>st_send_window := w\<rparr>"] ok by simp
  next
    case (credits_stream i s n)
    then show ?thesis
      using owed_write [of i "k_streams k" s "s\<lparr>st_send_window := snd (increase n (st_send_window s))\<rparr>"] ok by simp
  qed (use ok in \<open>auto simp: owed_retire [OF ti small] owed_delta owed_same\<close>)
  then show ?thesis using peer_role_step [OF assms(1) role] by (simp add: credit_inv_def)
qed

subsection \<open>No request is forgotten\<close>

definition given :: "core \<Rightarrow> stream_id set" where
  "given k = {i. \<exists>head es. SvDispatch i head es \<in> set (k_calls k)}"

definition ended_for :: "core \<Rightarrow> stream_id set" where
  "ended_for k = {i. SvFinish i \<in> set (k_calls k) \<or> (\<exists>code. SvCancel i code \<in> set (k_calls k))}"

definition lease_inv :: "core \<Rightarrow> bool" where
  "lease_inv k \<longleftrightarrow> (\<forall>i \<in> given k. get_stream i (k_streams k) \<noteq> None
     \<or> i \<in> serr_stream ` set (k_resets k) \<or> i \<in> ended_for k)"

lemma get_put_stream [simp]: "get_stream j (put_stream i s t) = (if j = i then Some s else get_stream j t)"
  by (simp add: get_stream_def put_stream_def)

lemma get_stream_update [simp]: "get_stream j (set_max_concurrent m t) = get_stream j t"
  by (simp add: get_stream_def set_max_concurrent_def)

lemma get_open_peer: "open_peer i t = (r, u) \<Longrightarrow> get_stream j t \<noteq> None \<Longrightarrow> get_stream j u \<noteq> None"
  by (auto simp: open_peer_def insert_new_def Let_def get_stream_def split: if_splits)

lemma get_delta:
  assumes "apply_initial_window_delta d t = (r, u)"
  shows "get_stream j u = None \<longleftrightarrow> get_stream j t = None"
proof -
  have "map fst (live u) = map fst (live t)"
    using delta_streams_shape(1) [of d "live t"] apply_initial_window_delta_fields(4) [of d t] assms by simp
  then have "fst ` set (live u) = fst ` set (live t)" by (metis set_map)
  then show ?thesis by (simp add: get_stream_def map_of_eq_None_iff)
qed

lemma lease_inv_step: "core_step h k k' \<Longrightarrow> lease_inv k \<Longrightarrow> lease_inv k'"
proof (induction rule: core_step.induct)
  case (notified k call)
  then show ?case
    by (cases call) (auto simp: lease_inv_def given_def ended_for_def)
next
  case (opens i k s t)
  then show ?case using get_open_peer [OF opens(1)] by (auto simp: lease_inv_def given_def ended_for_def)
next
  case (turns_away i k t)
  then show ?case using get_open_peer [OF turns_away(1)] by (auto simp: lease_inv_def given_def ended_for_def)
next
  case (resizes d k t)
  then show ?case using get_delta [OF resizes(1)] by (auto simp: lease_inv_def given_def ended_for_def)
qed (auto simp: lease_inv_def given_def ended_for_def get_retire)

end
