(* ===== verification/Conn_Example.thy ===== *)
theory Conn_Example
  imports Conn_Inv "HOL-Library.Code_Target_Numeral"
begin

section \<open>A connection from the preface's end to the last frame\<close>

text \<open>
  One request with a body, answered by the echo responder, evaluated by the kernel: the peer's
  octets are read, the HEADERS and the DATA frame are decoded and handled, the responder's events
  are delivered and the sender runs. The properties of connections are shown here to apply.
  Natural numbers are evaluated in binary, and words assembled by arithmetic.
\<close>

lemma descend_binary [code]:
  "descend fuel ar state_of stack de =
     (case stack of [] \<Rightarrow> Some de
      | (node, d, ones) # stack' \<Rightarrow>
          if fuel = 0 then None
          else if symbol ar ! node \<noteq> None then descend (fuel - 1) ar state_of stack' de
          else descend (fuel - 1) ar state_of (push_kids ar node d ones stack')
                 ((fst de)[state_of ! node := d], (snd de)[state_of ! node := ones]))"
  by (cases fuel; cases stack; cases de) (auto simp: Let_def)

text \<open>Octets are assembled, and the reserved bit dropped, by arithmetic.\<close>

lemma disjoint_or:
  fixes a b :: "'a :: len word"
  assumes "a AND b = 0"
  shows "a OR b = a + b"
  using assms disjunctive_add [of a b] by (metis bit_0_eq bit_and_iff bot_apply bot_bool_def)

lemma u32_of_be_arith [code]:
  "u32_of_be a b c d = word_of_int (((uint a * 256 + uint b) * 256 + uint c) * 256 + uint d)"
proof -
  have u: "word_of_int (uint x) = (ucast x :: u32)" for x :: u8 by (simp add: word_of_int_uint)
  have "push_bit 24 (ucast a :: u32) OR push_bit 16 (ucast b) OR push_bit 8 (ucast c) OR ucast d
      = push_bit 24 (ucast a) + (push_bit 16 (ucast b) + (push_bit 8 (ucast c) + ucast d))"
  proof -
    have 1: "push_bit 8 (ucast c :: u32) AND ucast d = 0"
      by (rule bit_word_eqI) (auto simp: bit_simps dest: bit_imp_le_length)
    have 2: "push_bit 16 (ucast b :: u32) AND (push_bit 8 (ucast c) OR ucast d) = 0"
      by (rule bit_word_eqI) (auto simp: bit_simps dest: bit_imp_le_length)
    have 3: "push_bit 24 (ucast a :: u32) AND (push_bit 16 (ucast b) OR (push_bit 8 (ucast c) OR ucast d)) = 0"
      by (rule bit_word_eqI) (auto simp: bit_simps dest: bit_imp_le_length)
    show ?thesis
      using disjoint_or [OF 1] disjoint_or [OF 2] disjoint_or [OF 3] by (simp add: or.assoc)
  qed
  also have "\<dots> = ((ucast a * 256 + ucast b) * 256 + ucast c) * 256 + ucast d"
    by (simp add: push_bit_eq_mult distrib_right mult.assoc add.assoc)
  also have "\<dots> = word_of_int (((uint a * 256 + uint b) * 256 + uint c) * 256 + uint d)"
    by (simp only: of_int_add of_int_mult of_int_numeral u)
  finally show ?thesis by (simp only: u32_of_be_def)
qed

lemma drop_reserved_bit [code_unfold]: "(w :: u32) AND 0x7fffffff = stream_id_new w"
  by (simp add: stream_id_new_def)

lemma stream_id_new_arith [code]: "stream_id_new raw = word_of_int (uint raw mod 2147483648)"
  unfolding stream_id_new_mask by transfer (simp add: take_bit_eq_mod mod_mod_cancel)

text \<open>A POST over HEADERS and DATA, and a WINDOW\_UPDATE for the connection.\<close>

definition post_octets :: octets where
  "post_octets =
     [0,0,3, 1, 4, 0,0,0,1, 0x83,0x87,0x84,
      0,0,2, 0, 1, 0,0,0,1, 104,105,
      0,0,4, 8, 0, 0,0,0,0, 0,0,0,7]"

definition post_inputs :: "conn_input list" where
  "post_inputs = [InRead post_octets, InFrame 0, InEvent, InFrame 0, InEvent, InEvent, InPump, InFrame 0]"

definition post_start :: "echo conn" where
  "post_start = conn_start 0 (server_settings tuning_default) drain_policy_default limits_default
     1048576 (Some 16) (echo_new 4)"

definition post_end :: "echo conn" where
  "post_end = snd (conn_run echo_service post_inputs post_start)"

lemma post_evaluated:
  "(case conn_run echo_service post_inputs post_start of (r, c) \<Rightarrow>
     (r, c_calls c, c_frames c, c_received c, available (c_conn_send_window c), c_conn_recv_window c,
      owed (c_streams c), live_count (c_streams c), c_pending_reset c))
   = (Inr (),
      [SvDispatch 1 \<lparr>rq_method = [80, 79, 83, 84], rq_scheme = [104, 116, 116, 112, 115],
         rq_authority = None, rq_path = [47], rq_fields = []\<rparr> False,
       SvBody 1 [104, 105] True, SvFinish 1, SvReleased 1 2],
      [Headers 1 [136] False True, Data 1 [104, 105] True],
      [Headers 1 [0x83, 0x87, 0x84] False True, Data 1 [104, 105] True, WindowUpdate 0 7],
      65540, \<lparr>rw_window = Window 1048574, rw_unreleased = 2, rw_initial = 1048576\<rparr>, 0, 0, [])"
  by code_simp

lemma post_honest: "run_honest echo_service post_inputs post_start"
  by code_simp

lemma post_run: "conn_run echo_service post_inputs post_start = (Inr (), post_end)"
  using post_evaluated by (simp add: post_end_def prod_eq_iff split: prod.splits)

lemmas post_from_start = post_run [unfolded post_start_def]

lemma post_facts:
  "c_frames post_end = [Headers 1 [136] False True, Data 1 [104, 105] True]"
  "c_received post_end = [Headers 1 [0x83, 0x87, 0x84] False True, Data 1 [104, 105] True, WindowUpdate 0 7]"
  "available (c_conn_send_window post_end) = 65540"
  "c_conn_recv_window post_end = \<lparr>rw_window = Window 1048574, rw_unreleased = 2, rw_initial = 1048576\<rparr>"
  "owed (c_streams post_end) = 0"
  "c_pending_reset post_end = []"
  "c_calls post_end =
     [SvDispatch 1 \<lparr>rq_method = [80, 79, 83, 84], rq_scheme = [104, 116, 116, 112, 115],
        rq_authority = None, rq_path = [47], rq_fields = []\<rparr> False,
      SvBody 1 [104, 105] True, SvFinish 1, SvReleased 1 2]"
  using post_evaluated by (simp_all add: post_run)

text \<open>
  A second connection, left in the middle of things: the budget falls from 16 to 8 and the peer
  acknowledges both SETTINGS, a request arrives over HEADERS and CONTINUATION, the connection drains
  and commits, and a second header block is left open.
\<close>

definition held_octets :: octets where
  "held_octets =
     [0,0,0, 4, 1, 0,0,0,0,
      0,0,0, 4, 1, 0,0,0,0,
      0,0,1, 1, 0, 0,0,0,1, 0x83,
      0,0,2, 9, 4, 0,0,0,1, 0x87,0x84,
      0,0,1, 1, 0, 0,0,0,3, 0x83]"

definition held_inputs :: "conn_input list" where
  "held_inputs = [InBudget 8, InRead held_octets, InFrame 0, InFrame 0, InFrame 0, InFrame 0,
     InDrain 0, InClock 0 True, InFrame 0]"

definition held_end :: "echo conn" where
  "held_end = snd (conn_run echo_service held_inputs post_start)"

lemma held_evaluated:
  "(case conn_run echo_service held_inputs post_start of (r, c) \<Rightarrow>
     (r, map_option committed (c_draining c), c_calls c, c_frames c, c_received c,
      c_open_header_block c, c_header_block c, max_concurrent (c_streams c), c_read_buf c,
      codec_max_frame_size (c_codec c)))
   = (Inr (), Some (Some 1),
      [SvDispatch 1 \<lparr>rq_method = [80, 79, 83, 84], rq_scheme = [104, 116, 116, 112, 115],
         rq_authority = None, rq_path = [47], rq_fields = []\<rparr> False],
      [SettingsFrame False [(3, 8)], GoAway 0x7fffffff NoError [], GoAway 1 NoError []],
      [SettingsFrame True [], SettingsFrame True [], Headers 1 [0x83] False False,
       Continuation 1 [0x87, 0x84] True, Headers 3 [0x83] False False],
      Some 3, [0x83], 8, [], 16384)"
  by code_simp

lemma held_run: "conn_run echo_service held_inputs post_start = (Inr (), held_end)"
  using held_evaluated by (simp add: held_end_def prod_eq_iff split: prod.splits)

lemmas held_from_start = held_run [unfolded post_start_def]

lemma held_facts:
  "map_option committed (c_draining held_end) = Some (Some 1)"
  "c_calls held_end = [SvDispatch 1 \<lparr>rq_method = [80, 79, 83, 84], rq_scheme = [104, 116, 116, 112, 115],
     rq_authority = None, rq_path = [47], rq_fields = []\<rparr> False]"
  "c_frames held_end = [SettingsFrame False [(3, 8)], GoAway 0x7fffffff NoError [], GoAway 1 NoError []]"
  "c_received held_end = [SettingsFrame True [], SettingsFrame True [], Headers 1 [0x83] False False,
       Continuation 1 [0x87, 0x84] True, Headers 3 [0x83] False False]"
  "c_open_header_block held_end = Some 3" "c_header_block held_end = [0x83]"
  "max_concurrent (c_streams held_end) = 8"
  "c_read_buf held_end = []" "codec_max_frame_size (c_codec held_end) = 16384"
  using held_evaluated by (simp_all add: held_run)

text \<open>A third one, whose peer grants each stream a window of three octets and posts five.\<close>

definition stalled_octets :: octets where
  "stalled_octets =
     [0,0,6, 4, 0, 0,0,0,0, 0,4, 0,0,0,3,
      0,0,3, 1, 4, 0,0,0,1, 0x83,0x87,0x84,
      0,0,5, 0, 1, 0,0,0,1, 104,101,108,108,111]"

definition stalled_inputs :: "conn_input list" where
  "stalled_inputs = [InRead stalled_octets, InFrame 0, InFrame 0, InEvent, InFrame 0, InEvent, InEvent]"

definition stalled_end :: "echo conn" where
  "stalled_end = snd (conn_run echo_service (stalled_inputs @ [InPump]) post_start)"

lemma stalled_evaluated:
  "(case conn_run echo_service (stalled_inputs @ [InPump]) post_start of (r, c) \<Rightarrow>
     (r, c_frames c, map_option st_send_queue (c_get 1 c), map_option (\<lambda>s. available (st_send_window s)) (c_get 1 c),
      c_ready c, length (c_out c)))
   = (Inr (), [SettingsFrame True [], Headers 1 [136] False True, Data 1 [104, 101, 108] False],
      Some [[108, 111]], Some 0, [1], 31)"
  by code_simp

lemma stalled_run: "conn_run echo_service (stalled_inputs @ [InPump]) post_start = (Inr (), stalled_end)"
  using stalled_evaluated by (simp add: stalled_end_def prod_eq_iff split: prod.splits)

lemmas stalled_from_start = stalled_run [unfolded post_start_def]

lemma stalled_facts:
  "map_option st_send_queue (c_get 1 stalled_end) = Some [[108, 111]]"
  "map_option (\<lambda>s. available (st_send_window s)) (c_get 1 stalled_end) = Some 0"
  "c_ready stalled_end = [1]" "length (c_out stalled_end) = 31"
  using stalled_evaluated by (simp_all add: stalled_run)

end
