(* ===== verification/Conn_Aside.thy ===== *)
theory Conn_Aside
  imports Conn_Inv
begin

section \<open>What most handlers leave alone\<close>

text \<open>
  The drain, the admission state, the header block being reassembled and the requests dispatched
  are each changed in one or two places. Here it is proved, handler by handler and for every outcome
  (errors included), that the rest of the connection leaves them alone.
\<close>

subsection \<open>The fields\<close>

fun is_dispatch :: "service_call \<Rightarrow> bool" where
  "is_dispatch (SvDispatch i head es) = True"
| "is_dispatch _ = False"

text \<open>The values of \<^verbatim>\<open>MAX_CONCURRENT_STREAMS\<close> a sequence of sent frames announces.\<close>

fun promised_in :: "frame \<Rightarrow> u32 list" where
  "promised_in (SettingsFrame ack ps) =
     (if ack then [] else map snd (filter (\<lambda>p. fst p = id_max_concurrent_streams) ps))"
| "promised_in _ = []"

definition promises :: "frame list \<Rightarrow> u32 list" where
  "promises fs = concat (map promised_in fs)"

text \<open>The GOAWAY frames among them: last stream id and code.\<close>

fun goaway_in :: "frame \<Rightarrow> (stream_id \<times> error_code) list" where
  "goaway_in (GoAway final code debug) = [(final, code)]"
| "goaway_in _ = []"

definition goaways :: "frame list \<Rightarrow> (stream_id \<times> error_code) list" where
  "goaways fs = concat (map goaway_in fs)"

definition dispatches :: "'v conn \<Rightarrow> service_call list" where
  "dispatches c = filter is_dispatch (c_calls c)"

definition admission_state :: "'v conn \<Rightarrow> bool \<times> u32 \<times> nat \<times> u32 \<times> u32 \<times> nat \<times> u32 list \<times> _" where
  "admission_state c =
     (c_admission c, c_advertised_streams c, c_outstanding_settings c, c_enforced_streams c,
      c_stream_ceiling c, max_concurrent (c_streams c), promises (c_frames c),
      goaways (c_frames c))"

definition block_state :: "'v conn \<Rightarrow> frame list \<times> stream_id option \<times> bool \<times> octets" where
  "block_state c =
     (c_received c, c_open_header_block c, c_open_header_end_stream c, c_header_block c)"

definition aside0 :: "'v conn \<Rightarrow> drain option \<times> _ \<times> _" where
  "aside0 c = (c_draining c, admission_state c, block_state c)"

definition aside :: "'v conn \<Rightarrow> service_call list \<times> _" where
  "aside c = (dispatches c, aside0 c)"

lemmas aside_defs = aside_def aside0_def admission_state_def block_state_def dispatches_def

lemma aside_updates [simp]:
  "aside (c\<lparr>c_out := x1\<rparr>) = aside c"
  "aside (c\<lparr>c_read_buf := x2\<rparr>) = aside c"
  "aside (c\<lparr>c_peer_settings := x3\<rparr>) = aside c"
  "aside (c\<lparr>c_hpack_dec := x4\<rparr>) = aside c"
  "aside (c\<lparr>c_hpack_enc := x5\<rparr>) = aside c"
  "aside (c\<lparr>c_conn_send_window := x6\<rparr>) = aside c"
  "aside (c\<lparr>c_conn_recv_window := x7\<rparr>) = aside c"
  "aside (c\<lparr>c_ready := x8\<rparr>) = aside c"
  "aside (c\<lparr>c_pending_reset := x9\<rparr>) = aside c"
  "aside (c\<lparr>c_guard := x10\<rparr>) = aside c"
  "aside (c\<lparr>c_last_stream_at := x11\<rparr>) = aside c"
  "aside (c\<lparr>c_service := x12\<rparr>) = aside c"
  "aside (c\<lparr>c_events := x13\<rparr>) = aside c"
  "aside (c\<lparr>c_summary := x14\<rparr>) = aside c"
  by (simp_all add: aside_defs)

lemma aside_streams: "max_concurrent t = max_concurrent (c_streams c) \<Longrightarrow> aside (c\<lparr>c_streams := t\<rparr>) = aside c"
  by (simp add: aside_defs)

lemma aside_put [simp]: "aside (c_put i s c) = aside c"
  by (simp add: c_put_def aside_streams)

lemma aside_retire [simp]: "aside (retire_and_unqueue i c) = aside c"
  by (simp add: retire_and_unqueue_def) (simp add: aside_defs)

lemma aside_counts [simp]:
  "aside (count_reset c) = aside c" "aside (count_block c) = aside c"
  "aside (count_sent n c) = aside c" "aside (count_stall c) = aside c"
  by (simp_all add: count_reset_def count_block_def count_sent_def count_stall_def)

lemma aside_notify [simp]: "\<not> is_dispatch call \<Longrightarrow> aside (notify S call c) = aside c"
  by (simp add: notify_def aside_defs split: prod.split)

lemma aside0_notify [simp]: "aside0 (notify S call c) = aside0 c"
  by (simp add: notify_def aside_defs split: prod.split)

lemma aside_queued:
  assumes "queue_frame f c = (Inr u, c')"
  shows "aside c' = aside (c\<lparr>c_frames := c_frames c @ [f]\<rparr>)"
  using assms by (cases rule: queue_frame_cases [of f c]) (auto simp: aside_defs)

lemma aside_queue_frame [simp]:
  "promised_in f = [] \<Longrightarrow> goaway_in f = [] \<Longrightarrow> aside (snd (queue_frame f c)) = aside c"
  by (cases rule: queue_frame_cases [of f c]) (simp_all add: aside_defs promises_def goaways_def)

lemma aside_then:
  assumes "F (snd r) = x" "\<And>a c1. F c1 = x \<Longrightarrow> F (snd (f a c1)) = x"
  shows "F (snd (and_then r f)) = x"
  using assms by (cases r; cases "fst r") (auto simp: and_then_def)

lemma max_concurrent_open [simp]: "max_concurrent (snd (open_peer i t)) = max_concurrent t"
  by (auto simp: open_peer_def insert_new_def Let_def)

subsection \<open>The handlers\<close>

lemma aside_drain_reclaimed [simp]: "aside (snd (drain_reclaimed c)) = aside c"
proof -
  have "aside (c\<lparr>c_streams := (c_streams c)\<lparr>reclaimed := 0\<rparr>\<rparr>) = aside c" by (rule aside_streams) simp
  then show ?thesis
    by (simp add: drain_reclaimed_def take_reclaimed_eq Let_def split: prod.split option.split)
qed

lemma aside_write_rst_stream [simp]: "aside (snd (write_rst_stream S i code c)) = aside c"
  unfolding write_rst_stream_def by (rule aside_then) simp_all

lemma aside_flush_resets [simp]: "aside (snd (flush_resets S es c)) = aside c"
proof (induction es arbitrary: c)
  case (Cons e es)
  show ?case unfolding flush_resets.simps by (rule aside_then) (simp_all add: Cons)
qed simp

lemma aside_flush_pending_resets [simp]: "aside (snd (flush_pending_resets S c)) = aside c"
  by (simp add: flush_pending_resets_def)

lemma aside_apply_stream_event [simp]: "aside (snd (apply_stream_event S i e c)) = aside c"
proof -
  obtain r t where a: "apply_event i e (c_streams c) = (r, t)" by (cases "apply_event i e (c_streams c)")
  have "max_concurrent t = max_concurrent (c_streams c)"
    using apply_event_fields(3) [of i e "c_streams c"] a by simp
  note t = aside_streams [OF this]
  show ?thesis by (cases r) (simp_all add: apply_stream_event_def a Let_def t)
qed

lemma aside_enqueue_ready [simp]: "aside (enqueue_ready i c) = aside c"
  by (simp add: enqueue_ready_def split: option.split)

lemma aside_release_conn_window [simp]: "aside (snd (release_conn_window n c)) = aside c"
  by (simp add: release_conn_window_def Let_def split: prod.split option.split)

lemma aside_release_recv_window [simp]: "aside (snd (release_recv_window i n c)) = aside c"
proof (cases "n = 0")
  case False
  have aux: "aside (snd (and_then (case inc of None \<Rightarrow> (Inr (), c1)
        | Some k \<Rightarrow> queue_frame (WindowUpdate i (word_of_nat k)) c1)
       (\<lambda>_ c2. and_then (if c_get i c2 \<noteq> None then release_conn_window n c2 else (Inr (), c2))
          (\<lambda>_. drain_reclaimed)))) = aside c"
    if "aside c1 = aside c" for inc and c1 :: "'a conn"
  proof (rule aside_then)
    show "aside (snd (case inc of None \<Rightarrow> (Inr (), c1)
        | Some k \<Rightarrow> queue_frame (WindowUpdate i (word_of_nat k)) c1)) = aside c"
      using that by (simp split: option.split)
  next
    fix a and c2 :: "'a conn" assume c2: "aside c2 = aside c"
    show "aside (snd (and_then (if c_get i c2 \<noteq> None then release_conn_window n c2 else (Inr (), c2))
          (\<lambda>_. drain_reclaimed))) = aside c"
      by (rule aside_then) (simp_all add: c2)
  qed
  show ?thesis
  proof (cases "c_get i c")
    case None
    then show ?thesis using False aux [of c None] by (simp add: release_recv_window_def)
  next
    case (Some s)
    obtain inc w where rel: "recv_release n (st_recv_window s) = (inc, w)"
      by (cases "recv_release n (st_recv_window s)")
    show ?thesis
      using False aux [of "c_put i (s\<lparr>st_pending_conn_release := st_pending_conn_release s - n,
          st_recv_window := w\<rparr>) c" inc]
      by (simp add: release_recv_window_def Some rel)
  qed
qed (simp add: release_recv_window_def)

lemma aside_encode_block [simp]: "aside (snd (encode_block hs c)) = aside c"
  by (simp add: encode_block_def split: prod.split)

lemma aside_mark_started [simp]: "aside (mark_started i c) = aside c"
  by (simp add: mark_started_def split: option.split)

lemma aside_send_response [simp]: "aside (snd (send_response S i resp es c)) = aside c"
proof -
  obtain block c1 where e: "encode_block (response_to_headers resp) c = (block, c1)"
    by (cases "encode_block (response_to_headers resp) c")
  have "aside c1 = aside c" using aside_encode_block [of "response_to_headers resp" c] e by simp
  then show ?thesis
    unfolding send_response_def e prod.case by - (rule aside_then, simp_all)
qed

lemma aside_send_trailers [simp]: "aside (snd (send_trailers S i flds c)) = aside c"
proof -
  obtain block c1 where e: "encode_block flds c = (block, c1)" by (cases "encode_block flds c")
  have c1: "aside c1 = aside c" using aside_encode_block [of flds c] e by simp
  have "aside (snd (and_then (queue_frame (Headers i block True True) c1)
      (\<lambda>_. apply_stream_event S i (SendHeaders True)))) = aside c"
    by (rule aside_then) (simp_all add: c1)
  then show ?thesis by (cases "c_get i c") (simp_all add: send_trailers_def e)
qed

lemma aside_reject_stream [simp]: "aside (snd (reject_stream S i st c)) = aside c"
proof -
  obtain r t where o: "open_peer i (c_streams c) = (r, t)" by (cases "open_peer i (c_streams c)")
  have "max_concurrent t = max_concurrent (c_streams c)"
    using max_concurrent_open [of i "c_streams c"] o by simp
  note t = aside_streams [OF this]
  have "aside (snd (and_then (apply_stream_event S i (RecvHeaders True) (c\<lparr>c_streams := t\<rparr>))
          (\<lambda>_. send_response S i (response_status st) True))) = aside c"
    by (rule aside_then) (simp_all add: t)
  then show ?thesis
    by (simp add: reject_stream_def o t split: sum.split open_rejection.split)
qed

lemma aside_recv_trailers [simp]: "aside (snd (recv_trailers S i s hs es c)) = aside c"
  by (simp add: recv_trailers_def split: sum.split option.split)

lemma aside0_of: "aside c' = aside c \<Longrightarrow> aside0 c' = aside0 c"
  by (simp add: aside_def)

lemmas aside0_simps [simp] =
  aside_updates [THEN aside0_of] aside_put [THEN aside0_of] aside_counts [THEN aside0_of]
  aside_write_rst_stream [THEN aside0_of] aside_recv_trailers [THEN aside0_of]
  aside_apply_stream_event [THEN aside0_of] aside_reject_stream [THEN aside0_of]

subsection \<open>Requests and header blocks\<close>

lemma aside0_dispatch_request [simp]: "aside0 (snd (dispatch_request S now i hs es c)) = aside0 c"
proof (cases "request_from_headers hs")
  case (Inr request)
  define c1 where "c1 = (case (request_content_length request, c_get i c) of
      (Some (Inr n), Some s) \<Rightarrow> c_put i (s\<lparr>st_content_length := Some n\<rparr>) c | _ \<Rightarrow> c)"
  have c1: "aside0 c1 = aside0 c" by (simp add: c1_def split: option.split sum.split)
  show ?thesis
  proof (cases "\<exists>code. request_content_length request = Some (Inl code)")
    case True
    then show ?thesis using Inr by (auto simp: dispatch_request_def)
  next
    case False
    then have "dispatch_request S now i hs es c =
        (case (if es then request_body_error i c1 else None) of
           Some code \<Rightarrow> write_rst_stream S i code c1
         | None \<Rightarrow> (Inr (), notify S (SvDispatch i request es)
             (c1\<lparr>c_summary := (c_summary c1)\<lparr>cs_requests_dispatched := cs_requests_dispatched (c_summary c1) + 1\<rparr>,
                 c_last_stream_at := now\<rparr>)))"
      using Inr by (auto simp: dispatch_request_def c1_def Let_def split: option.splits sum.splits)
    then show ?thesis by (simp add: c1 split: option.split)
  qed
qed (simp add: dispatch_request_def)

lemma opened_aside:
  assumes "open_peer i (c_streams c) = (r, t)"
  shows "aside (c\<lparr>c_streams := t\<rparr>) = aside c"
  using max_concurrent_open [of i "c_streams c"] assms by (intro aside_streams) simp

lemma aside0_recv_request [simp]: "aside0 (snd (recv_request S now i hs es c)) = aside0 c"
proof -
  obtain r t where o: "open_peer i (c_streams c) = (r, t)" by (cases "open_peer i (c_streams c)")
  note t = opened_aside [OF o, THEN aside0_of]
  have "aside0 (snd (and_then (apply_stream_event S i (RecvHeaders es) (c\<lparr>c_streams := t\<rparr>))
          (\<lambda>_. dispatch_request S now i hs es))) = aside0 c"
    by (rule aside_then) (simp_all add: t)
  note opened = this
  have "recv_request S now i hs es c = recv_trailers S i s hs es c" if "c_get i c = Some s" for s
    using that by (simp add: recv_request_def)
  moreover have "aside0 (snd (recv_request S now i hs es c)) = aside0 c" if "c_get i c = None"
  proof (cases "lookup_stream i (c_streams c) = LookupClosed \<or> drain_committed c")
    case True
    then show ?thesis using that by (auto simp: recv_request_def)
  next
    case False
    then have eq: "recv_request S now i hs es c = (case (r, t) of
               (Inl (RejectProtocol why), t) \<Rightarrow> (Inl (ConnectionError ProtocolError), c\<lparr>c_streams := t\<rparr>)
             | (Inl Refused, t) \<Rightarrow> write_rst_stream S i RefusedStream (c\<lparr>c_streams := t\<rparr>)
             | (Inr s, t) \<Rightarrow> and_then (apply_stream_event S i (RecvHeaders es) (c\<lparr>c_streams := t\<rparr>))
                 (\<lambda>_. dispatch_request S now i hs es))"
      using that by (simp add: recv_request_def o)
    show ?thesis
    proof (cases r)
      case (Inl x)
      then show ?thesis by (cases x) (simp_all add: eq t)
    next
      case (Inr s)
      then show ?thesis using opened by (simp add: eq)
    qed
  qed
  ultimately show ?thesis by (cases "c_get i c") simp_all
qed

text \<open>After the drain has committed, nothing is dispatched.\<close>

lemma aside_recv_request_draining:
  assumes "drain_committed c"
  shows "aside (snd (recv_request S now i hs es c)) = aside c"
  using assms by (simp add: recv_request_def split: option.split)

lemma decode_block_step:
  obtains (request) hs d where "decode_block S now i block c =
      recv_request S now i hs (c_open_header_end_stream c) (count_block (c\<lparr>c_hpack_dec := d\<rparr>))"
  | (reject) d where "decode_block S now i block c = reject_stream S i 431 (count_block (c\<lparr>c_hpack_dec := d\<rparr>))"
  | (broken) d where "decode_block S now i block c = (Inl (ConnectionError CompressionError), c\<lparr>c_hpack_dec := d\<rparr>)"
proof -
  obtain r d where h: "hpack_decode block (c_hpack_dec c) = (r, d)" by (cases "hpack_decode block (c_hpack_dec c)")
  show thesis
  proof (cases r)
    case (Inr hs)
    show ?thesis by (rule request [of hs d]) (simp add: decode_block_def h Inr)
  next
    case (Inl e)
    show ?thesis
    proof (cases e)
      case Compression
      show ?thesis by (rule broken [of d]) (simp add: decode_block_def h Inl Compression)
    next
      case HeaderListTooLarge
      show ?thesis by (rule reject [of d]) (simp add: decode_block_def h Inl HeaderListTooLarge)
    qed
  qed
qed

lemma drain_committed_aside: "aside0 c' = aside0 c \<Longrightarrow> drain_committed c' = drain_committed c"
  by (simp add: drain_committed_def aside0_def)

lemma aside0_decode_block [simp]: "aside0 (snd (decode_block S now i block c)) = aside0 c"
  by (cases rule: decode_block_step [of S now i block c]) simp_all

lemma aside_decode_block_draining:
  assumes "drain_committed c"
  shows "aside (snd (decode_block S now i block c)) = aside c"
proof (cases rule: decode_block_step [of S now i block c])
  case (request hs d)
  have "drain_committed (count_block (c\<lparr>c_hpack_dec := d\<rparr>))"
    using assms drain_committed_aside [of "count_block (c\<lparr>c_hpack_dec := d\<rparr>)" c] by simp
  then show ?thesis by (simp add: request aside_recv_request_draining)
qed simp_all

text \<open>What \<^verbatim>\<open>read_header_block\<close> leaves in the reassembly buffer.\<close>

definition buffer_after :: "octets \<Rightarrow> bool \<Rightarrow> octets \<Rightarrow> octets" where
  "buffer_after fragment end_headers buf =
     (if length buf + length fragment > max_header_block_bytes then []
      else if end_headers then [] else buf @ fragment)"

lemma aside_check_verdict [simp]: "aside (snd (check_verdict v c)) = aside c"
  by (simp add: check_verdict_def split: option.split)

lemma aside0_check_verdict [simp]: "aside0 (snd (check_verdict v c)) = aside0 c"
  by (simp add: check_verdict_def split: option.split)

lemma buffered_aside:
  assumes "aside c' = aside c"
  shows "aside (c'\<lparr>c_header_block := b\<rparr>) = aside (c\<lparr>c_header_block := b\<rparr>)"
  using assms by (simp add: aside_defs)

lemma aside_same_buffer: "c_header_block c = b \<Longrightarrow> aside (c\<lparr>c_header_block := b\<rparr>) = aside c"
  by (simp add: aside_defs)

lemma read_header_block_cases:
  obtains (huge) "read_header_block S now i fragment e c = (Inl (ConnectionError EnhanceYourCalm), c\<lparr>c_header_block := []\<rparr>)"
      "max_header_block_bytes < length (c_header_block c) + length fragment"
  | (continues) v g where "\<not> e" "length (c_header_block c) + length fragment \<le> max_header_block_bytes"
      "read_header_block S now i fragment e c =
         check_verdict v (c\<lparr>c_header_block := c_header_block c @ fragment, c_guard := g\<rparr>)"
  | (complete) g where "e" "length (c_header_block c) + length fragment \<le> max_header_block_bytes"
      "read_header_block S now i fragment e c =
         decode_block S now i (c_header_block c @ fragment) (c\<lparr>c_guard := g, c_header_block := []\<rparr>)"
proof -
  consider (a) "max_header_block_bytes < length (c_header_block c) + length fragment"
    | (b) "\<not> e" "\<not> max_header_block_bytes < length (c_header_block c) + length fragment"
    | (c) "e" "c_header_block c = []" "\<not> max_header_block_bytes < length (c_header_block c) + length fragment"
    | (d) "e" "c_header_block c \<noteq> []" "\<not> max_header_block_bytes < length (c_header_block c) + length fragment"
    by blast
  then show thesis
  proof cases
    case a
    then show ?thesis using huge by (simp add: read_header_block_def Let_def)
  next
    case b
    obtain v g where "on_continuation (c_guard c) = (v, g)" by (cases "on_continuation (c_guard c)")
    then show ?thesis using b continues [of v g] by (simp add: read_header_block_def Let_def)
  next
    case c
    let ?g = "on_header_block_end (c_guard c)"
    have eq: "c\<lparr>c_guard := ?g, c_header_block := []\<rparr> = c\<lparr>c_guard := ?g\<rparr>"
      using c(2) by (cases c) simp
    have "read_header_block S now i fragment e c =
        decode_block S now i (c_header_block c @ fragment) (c\<lparr>c_guard := ?g, c_header_block := []\<rparr>)"
      unfolding eq using c by (simp add: read_header_block_def)
    from complete [OF c(1) _ this] c(3) show ?thesis by simp
  next
    case d
    then show ?thesis
      using complete [of "on_header_block_end (c_guard c)"] by (simp add: read_header_block_def Let_def)
  qed
qed

lemma aside0_buffer:
  "aside0 (snd (read_header_block S now i fragment e c))
     = aside0 (c\<lparr>c_header_block := buffer_after fragment e (c_header_block c)\<rparr>)"
proof (cases rule: read_header_block_cases [of S now i fragment e c])
  case (complete g)
  then show ?thesis by (simp add: buffer_after_def) (simp add: aside_defs)
qed (simp_all add: buffer_after_def)

lemma aside_buffer_draining:
  assumes "drain_committed c"
  shows "aside (snd (read_header_block S now i fragment e c))
     = aside (c\<lparr>c_header_block := buffer_after fragment e (c_header_block c)\<rparr>)"
proof (cases rule: read_header_block_cases [of S now i fragment e c])
  case (complete g)
  have "drain_committed (c\<lparr>c_guard := g, c_header_block := []\<rparr>)" using assms by (simp add: drain_committed_def)
  from aside_decode_block_draining [OF this] complete show ?thesis
    by (simp add: buffer_after_def) (simp add: aside_defs)
qed (simp_all add: buffer_after_def)

subsection \<open>DATA, RST_STREAM, WINDOW_UPDATE and SETTINGS\<close>

lemma aside_recv_live_data [simp]: "aside (snd (recv_live_data S i s data es c)) = aside c"
proof -
  let ?len = "as_u32 (length data)"
  obtain r sw where rec: "recv_record ?len (st_recv_window s) = (r, sw)"
    by (cases "recv_record ?len (st_recv_window s)")
  let ?c1 = "c_put i (s\<lparr>st_data_received := sat_add_u64 (st_data_received s) ?len,
                     st_pending_conn_release := sat_add_u32 (st_pending_conn_release s) ?len,
                     st_recv_window := sw\<rparr>) c"
  have b: "aside (snd (and_then (apply_stream_event S i (RecvData es) ?c1) (\<lambda>_ c2.
      drain_reclaimed (if data \<noteq> [] \<or> es then notify S (SvBody i data es) c2 else c2)))) = aside c"
    by (rule aside_then) simp_all
  show ?thesis
  proof (cases r)
    case (Inl code)
    then show ?thesis by (simp add: recv_live_data_def rec Let_def)
  next
    case (Inr u)
    show ?thesis
      using b by (cases "if es then request_body_error i ?c1 else None") (simp_all add: recv_live_data_def rec Let_def Inr)
  qed
qed

lemma aside_map_code [simp]: "aside (snd (map_code r, c)) = aside c"
  by simp

lemma aside_recv_data [simp]: "aside (snd (recv_data S i data es c)) = aside c"
proof -
  obtain v g where g: "on_data (length data) es (c_guard c) = (v, g)" by (cases "on_data (length data) es (c_guard c)")
  show ?thesis
    unfolding recv_data_def g prod.case
  proof (rule aside_then)
    fix a and c1 :: "'a conn" assume c1: "aside c1 = aside c"
    obtain r w where r: "recv_record (as_u32 (length data)) (c_conn_recv_window c1) = (r, w)"
      by (cases "recv_record (as_u32 (length data)) (c_conn_recv_window c1)")
    show "aside (snd (case recv_record (as_u32 (length data)) (c_conn_recv_window c1) of (r, w) \<Rightarrow>
      and_then (map_code r, c1\<lparr>c_conn_recv_window := w\<rparr>) (\<lambda>_ c2.
      case lookup_stream i (c_streams c2) of
        LookupLive s \<Rightarrow> recv_live_data S i s data es c2
      | LookupClosed \<Rightarrow>
          and_then (release_conn_window (as_u32 (length data)) c2) (\<lambda>_. write_rst_stream S i StreamClosed)
      | LookupIdle \<Rightarrow> (Inl (ConnectionError ProtocolError), c2)))) = aside c"
      unfolding r prod.case
    proof (rule aside_then)
      fix a and c2 :: "'a conn" assume c2: "aside c2 = aside c"
      have "aside (snd (and_then (release_conn_window (as_u32 (length data)) c2)
          (\<lambda>_. write_rst_stream S i StreamClosed))) = aside c"
        by (rule aside_then) (simp_all add: c2)
      then show "aside (snd (case lookup_stream i (c_streams c2) of
        LookupLive s \<Rightarrow> recv_live_data S i s data es c2
      | LookupClosed \<Rightarrow>
          and_then (release_conn_window (as_u32 (length data)) c2) (\<lambda>_. write_rst_stream S i StreamClosed)
      | LookupIdle \<Rightarrow> (Inl (ConnectionError ProtocolError), c2))) = aside c"
        by (simp add: c2 split: lookup_result.split)
    qed (simp add: c1)
  qed simp
qed

lemma aside_recv_rst_stream [simp]: "aside (snd (recv_rst_stream S now i code c)) = aside c"
proof (cases "lookup_stream i (c_streams c)")
  case (LookupLive s)
  obtain v g where g: "on_reset (st_response_started s) now (c_guard c) = (v, g)"
    by (cases "on_reset (st_response_started s) now (c_guard c)")
  have "aside (snd (and_then (check_verdict v (c\<lparr>c_guard := g\<rparr>)) (\<lambda>_ c1.
      drain_reclaimed (notify S (SvCancel i code) (retire_and_unqueue i (count_reset c1)))))) = aside c"
    by (rule aside_then) simp_all
  then show ?thesis by (simp add: recv_rst_stream_def LookupLive g)
qed (simp_all add: recv_rst_stream_def)

lemma aside_recv_window_update [simp]: "aside (snd (recv_window_update S i n c)) = aside c"
  by (simp add: recv_window_update_def Let_def split: prod.split lookup_result.split)

lemma aside_recv_settings [simp]: "aside (snd (recv_settings params c)) = aside c"
proof -
  obtain r s where a: "settings_apply params (c_peer_settings c) = (r, s)"
    by (cases "settings_apply params (c_peer_settings c)")
  have resized: "aside (c1\<lparr>c_hpack_enc := x, c_streams := snd (apply_initial_window_delta d (c_streams c1))\<rparr>) = aside c1"
    for d x and c1 :: "'a conn"
    using aside_streams [of "snd (apply_initial_window_delta d (c_streams c1))" "c1\<lparr>c_hpack_enc := x\<rparr>"] by simp
  show ?thesis
    unfolding recv_settings_def a prod.case Let_def
  proof (rule aside_then)
    fix u and c1 :: "'a conn" assume c1: "aside c1 = aside c"
    show "aside (snd (and_then
           (if int (unat (initial_window_size (c_peer_settings (c1\<lparr>c_hpack_enc :=
                   set_max_table_size (unat (header_table_size (c_peer_settings c1))) (c_hpack_enc c1)\<rparr>))))
                - int (unat (initial_window_size (c_peer_settings c))) \<noteq> 0
            then (case apply_initial_window_delta (as_i32 (int (unat (initial_window_size (c_peer_settings (c1\<lparr>c_hpack_enc :=
                   set_max_table_size (unat (header_table_size (c_peer_settings c1))) (c_hpack_enc c1)\<rparr>))))
                - int (unat (initial_window_size (c_peer_settings c))))) (c_streams (c1\<lparr>c_hpack_enc :=
                   set_max_table_size (unat (header_table_size (c_peer_settings c1))) (c_hpack_enc c1)\<rparr>)) of
                 (r, t) \<Rightarrow> (map_code r, c1\<lparr>c_hpack_enc :=
                   set_max_table_size (unat (header_table_size (c_peer_settings c1))) (c_hpack_enc c1), c_streams := t\<rparr>))
            else (Inr (), c1\<lparr>c_hpack_enc :=
                   set_max_table_size (unat (header_table_size (c_peer_settings c1))) (c_hpack_enc c1)\<rparr>))
           (\<lambda>_ c3. and_then (write_settings_ack c3)
              (\<lambda>_ c4. (Inr (), c4\<lparr>c_summary := (c_summary c4)\<lparr>cs_handshake_completed := True\<rparr>\<rparr>))))) = aside c"
    proof (rule aside_then)
      fix u and c3 :: "'a conn" assume c3: "aside c3 = aside c"
      show "aside (snd (and_then (write_settings_ack c3)
          (\<lambda>_ c4. (Inr (), c4\<lparr>c_summary := (c_summary c4)\<lparr>cs_handshake_completed := True\<rparr>\<rparr>)))) = aside c"
        by (rule aside_then) (simp_all add: write_settings_ack_def c3)
    qed (auto simp: c1 resized split: prod.split dest!: arg_cong [of _ _ snd])
  qed simp
qed

subsection \<open>The sender and the responder's events\<close>

lemma aside_spend_windows [simp]: "aside (snd (spend_windows n i s c)) = aside c"
proof -
  obtain r w where w: "consume n (st_send_window s) = (r, w)" by (cases "consume n (st_send_window s)")
  have "aside (snd (and_then (map_code r, c_put i (s\<lparr>st_send_window := w\<rparr>) c)
      (\<lambda>_ c1. case consume n (c_conn_send_window c1) of (r, w) \<Rightarrow>
         (map_code r, c1\<lparr>c_conn_send_window := w\<rparr>)))) = aside c"
    by (rule aside_then) (simp_all split: prod.split)
  then show ?thesis by (simp add: spend_windows_def w)
qed

lemma aside_write_data [simp]: "aside (snd (write_data S i chunk es c)) = aside c"
proof -
  have "aside (snd (and_then (queue_frame (Data i chunk es) c)
      (\<lambda>_ c1. apply_stream_event S i (SendData es) (count_sent (length chunk) c1)))) = aside c"
    by (rule aside_then) simp_all
  then show ?thesis by (simp add: write_data_def)
qed

lemma aside_visit_emit [simp]: "aside (snd (visit_emit S i chunk es trailers s c)) = aside c"
  unfolding visit_emit_def
proof (rule aside_then)
  fix a and c1 :: "'a conn" assume c1: "aside c1 = aside c"
  show "aside (snd (and_then (write_data S i chunk es c1) (\<lambda>_ c2.
     let c3 = (if length chunk > 0 then notify S (SvReleased i (length chunk)) c2 else c2) in
     and_then (case trailers of None \<Rightarrow> (Inr (), c3) | Some flds \<Rightarrow> send_trailers S i flds c3)
       (\<lambda>_ c4. (Inr (Wrote (case c_get i c4 of None \<Rightarrow> False | Some s' \<Rightarrow> has_pending_send s')), c4))))) = aside c"
  proof (rule aside_then)
    fix a and c2 :: "'a conn" assume c2: "aside c2 = aside c"
    show "aside (snd (let c3 = (if length chunk > 0 then notify S (SvReleased i (length chunk)) c2 else c2) in
       and_then (case trailers of None \<Rightarrow> (Inr (), c3) | Some flds \<Rightarrow> send_trailers S i flds c3)
         (\<lambda>_ c4. (Inr (Wrote (case c_get i c4 of None \<Rightarrow> False | Some s' \<Rightarrow> has_pending_send s')), c4)))) = aside c"
      unfolding Let_def by (rule aside_then) (simp_all add: c2 split: option.split)
  qed (simp add: c1)
qed simp

lemma aside_visit [simp]: "aside (snd (visit_ready_stream S i c)) = aside c"
  by (cases rule: visit_cases [of i c S]) simp_all

lemma aside_visit_lap [simp]: "aside (snd (visit_lap S lap st sv w c)) = aside c"
proof (induction lap arbitrary: st sv w c)
  case (Cons i lap)
  show ?case
    unfolding visit_lap.simps
  proof (rule aside_then)
    fix v and c1 :: "'a conn" assume "aside c1 = aside c"
    then show "aside (snd ((case v of Stalled \<Rightarrow> visit_lap S lap (st @ [i]) sv w
       | Wrote again \<Rightarrow> visit_lap S lap st (if again then sv @ [i] else sv) True
       | VisitFinished \<Rightarrow> visit_lap S lap st sv w) c1)) = aside c"
      using Cons.IH by (cases v) simp_all
  qed simp
qed simp

lemma aside_mark_queued [simp]: "aside (mark_queued i c) = aside c"
  by (simp add: mark_queued_def split: option.split)

lemma aside_rebuild_ring [simp]: "aside (rebuild_ring ring c) = aside c"
proof -
  have "aside (fold mark_queued is d) = aside d" for "is" and d :: "'a conn"
    by (induction "is" arbitrary: d) simp_all
  then show ?thesis by (simp add: rebuild_ring_def Let_def)
qed

lemma aside_pump_lap [simp]: "aside (snd (pump_lap S c)) = aside c"
  unfolding pump_lap_def
proof (rule aside_then)
  fix a :: "stream_id list \<times> stream_id list \<times> bool" and c1 :: "'a conn" assume "aside c1 = aside c"
  then show "aside (snd ((case a of (stalled, served, wrote) \<Rightarrow> \<lambda>c1.
      let c2 = rebuild_ring (stalled @ served) c1 in
          (Inr wrote, if \<not> wrote \<and> c_ready c2 \<noteq> [] then count_stall c2 else c2)) c1)) = aside c"
    by (cases a) (simp add: Let_def)
qed simp

lemma aside_pump_loop [simp]: "aside (snd (pump_loop S c)) = aside c"
proof (induction S c rule: pump_loop.induct)
  case (1 S c)
  obtain r c1 where l: "pump_lap S c = (r, c1)" by (cases "pump_lap S c")
  have c1: "aside c1 = aside c" using aside_pump_lap [of S c] l by simp
  show ?case
  proof (cases "c_ready c = [] \<or> length (c_out c) \<ge> max_write_queue")
    case False
    note IH = 1 [OF False l [symmetric]]
    show ?thesis
    proof (cases r)
      case (Inr wrote)
      then show ?thesis
        using c1 IH by (subst pump_loop.simps) (simp add: l False)
    qed (use c1 False in \<open>subst pump_loop.simps, simp add: l\<close>)
  qed (subst pump_loop.simps, simp)
qed

lemma aside_pump_outbound [simp]: "aside (snd (pump_outbound S c)) = aside c"
  unfolding pump_outbound_def by (rule aside_then) simp_all

lemma aside_deliver_event [simp]: "aside (snd (deliver_event S ev c)) = aside c"
  by (cases ev) (simp_all add: abandon_def split: option.split)

lemma aside_handle_service_event [simp]: "aside (snd (handle_service_event S ev c)) = aside c"
  by (simp add: handle_service_event_def Let_def split: prod.split option.split)

lemma aside_take_event [simp]: "aside (snd (take_event S c)) = aside c"
  by (simp add: take_event_def split: list.split)

subsection \<open>Frames\<close>

text \<open>What a handled frame does to the fields set aside.\<close>

fun touched :: "frame \<Rightarrow> 'v conn \<Rightarrow> 'v conn" where
  "touched (SettingsFrame ack params) c = (if ack then recv_settings_ack c else c)"
| "touched (Headers i block es eh) c =
     (if c_open_header_block c = None then c\<lparr>c_open_header_end_stream := es\<rparr> else c)
       \<lparr>c_header_block := buffer_after block eh (c_header_block c)\<rparr>"
| "touched (Continuation i block eh) c =
     c\<lparr>c_header_block := buffer_after block eh (c_header_block c)\<rparr>"
| "touched f c = c"

lemma then_continue [simp]: "snd (and_then r (\<lambda>u c. (Inr Continue, c))) = snd r"
  by (cases r; cases "fst r") (simp_all add: and_then_def)

lemma aside_frame_action:
  "aside0 (snd (frame_action S now f c)) = aside0 (touched f c)"
  "drain_committed c \<Longrightarrow> aside (snd (frame_action S now f c)) = aside (touched f c)"
proof -
  have d: "drain_committed (c\<lparr>c_open_header_end_stream := es\<rparr>) = drain_committed c" for es
    by (simp add: drain_committed_def)
  show "aside0 (snd (frame_action S now f c)) = aside0 (touched f c)"
    by (cases f) (simp_all add: aside0_buffer aside_recv_settings [THEN aside0_of]
        aside_queue_frame [THEN aside0_of] aside_recv_window_update [THEN aside0_of]
        aside_recv_data [THEN aside0_of] aside_recv_rst_stream [THEN aside0_of])
  show "aside (snd (frame_action S now f c)) = aside (touched f c)" if "drain_committed c"
    using that by (cases f) (simp_all add: aside_buffer_draining d)
qed

definition framed :: "frame \<Rightarrow> 'v conn \<Rightarrow> 'v conn" where
  "framed f c =
     (let c1 = touched f (c\<lparr>c_received := c_received c @ [f]\<rparr>)
      in c1\<lparr>c_open_header_block := block_after f (c_open_header_block c)\<rparr>)"

lemma touched_open [simp]: "c_open_header_block (touched f c) = c_open_header_block c"
  by (cases f) (simp_all add: recv_settings_ack_def Let_def)

lemma framed_aside:
  "aside0 c2 = aside0 (touched f (c\<lparr>c_received := c_received c @ [f]\<rparr>)) \<Longrightarrow>
   aside0 (c2\<lparr>c_open_header_block := block_after f (c_open_header_block c2)\<rparr>) = aside0 (framed f c)"
  "aside c2 = aside (touched f (c\<lparr>c_received := c_received c @ [f]\<rparr>)) \<Longrightarrow>
   aside (c2\<lparr>c_open_header_block := block_after f (c_open_header_block c2)\<rparr>) = aside (framed f c)"
  by (simp_all add: framed_def Let_def aside_defs)

lemma touched_same:
  assumes "aside0 c' = aside0 c"
  shows "aside0 (touched f (c'\<lparr>c_received := c_received c' @ [f]\<rparr>)) = aside0 (touched f (c\<lparr>c_received := c_received c @ [f]\<rparr>))"
    and "dispatches c' = dispatches c \<Longrightarrow>
      aside (touched f (c'\<lparr>c_received := c_received c' @ [f]\<rparr>)) = aside (touched f (c\<lparr>c_received := c_received c @ [f]\<rparr>))"
  using assms by (cases f; simp add: aside_defs recv_settings_ack_def Let_def set_max_concurrent_def)+

lemma handle_frame_aside:
  assumes "handle_frame S now f c = (Inr Continue, c')"
  shows "block_order_ok f c" "aside0 c' = aside0 (framed f c)"
    "drain_committed c \<Longrightarrow> aside c' = aside (framed f c)"
proof -
  show "block_order_ok f c" using assms by (auto simp: handle_frame_def split: if_splits)
  then have "and_then
          (if is_control f
           then (case on_control_frame now (c_guard c) of (v, g) \<Rightarrow> check_verdict v (c\<lparr>c_guard := g\<rparr>))
           else (Inr (), c))
          (\<lambda>_ c0. let c1 = c0\<lparr>c_received := c_received c0 @ [f]\<rparr> in and_then (frame_action S now f c1)
             (\<lambda>next c2. (Inr next,
                if next = Close then c2
                else c2\<lparr>c_open_header_block := block_after f (c_open_header_block c2)\<rparr>))) = (Inr Continue, c')"
    using assms by (simp add: handle_frame_def)
  then obtain u c0 where pre: "(if is_control f
           then (case on_control_frame now (c_guard c) of (v, g) \<Rightarrow> check_verdict v (c\<lparr>c_guard := g\<rparr>))
           else (Inr (), c)) = (Inr u, c0)"
    and "and_then (frame_action S now f (c0\<lparr>c_received := c_received c0 @ [f]\<rparr>))
             (\<lambda>next c2. (Inr next, if next = Close then c2
                else c2\<lparr>c_open_header_block := block_after f (c_open_header_block c2)\<rparr>)) = (Inr Continue, c')"
    by (auto simp: Let_def elim!: and_then_Inr)
  then obtain c2 where act: "frame_action S now f (c0\<lparr>c_received := c_received c0 @ [f]\<rparr>) = (Inr Continue, c2)"
    and c': "c' = c2\<lparr>c_open_header_block := block_after f (c_open_header_block c2)\<rparr>"
    by (auto elim!: and_then_Inr)
  have "aside (snd (if is_control f
           then (case on_control_frame now (c_guard c) of (v, g) \<Rightarrow> check_verdict v (c\<lparr>c_guard := g\<rparr>))
           else (Inr (), c))) = aside c" by (simp split: prod.split)
  then have c0: "aside c0 = aside c" by (simp add: pre)
  then have c00: "aside0 c0 = aside0 c" "dispatches c0 = dispatches c" by (simp_all add: aside_def)
  let ?r = "\<lambda>c. c\<lparr>c_received := c_received c @ [f]\<rparr>"
  have "aside0 c2 = aside0 (touched f (?r c))"
    using aside_frame_action(1) [of S now f "?r c0"] act touched_same(1) [OF c00(1)] by simp
  then show "aside0 c' = aside0 (framed f c)" using framed_aside(1) by (simp add: c')
  assume d: "drain_committed c"
  have "drain_committed (?r c0)" using d c00(1) drain_committed_aside [OF c00(1)] by (simp add: drain_committed_def)
  then have "aside c2 = aside (touched f (?r c))"
    using aside_frame_action(2) [of "?r c0" S now f] act touched_same(2) [OF c00] by simp
  then show "aside c' = aside (framed f c)" using framed_aside(2) by (simp add: c')
qed

subsection \<open>The steps of a connection\<close>

definition rebudgeted :: "u32 \<Rightarrow> 'v conn \<Rightarrow> 'v conn" where
  "rebudgeted want c =
     c\<lparr>c_frames := c_frames c @ [SettingsFrame False [(id_max_concurrent_streams, want)]],
       c_advertised_streams := want,
       c_outstanding_settings := sat_add_u32 (c_outstanding_settings c) 1,
       c_enforced_streams := max want (c_enforced_streams c),
       c_streams := (if c_enforced_streams c < want then set_max_concurrent (unat want) (c_streams c)
                     else c_streams c)\<rparr>"

lemma failed_Inr [simp]: "failed r = (Inr a, c) \<longleftrightarrow> r = (Inr a, c)"
  by (cases r; cases "fst r") (auto simp: failed_def)

lemma sync_admission_aside:
  assumes "sync_admission want c = (Inr (), c')"
  shows "aside c' = aside c \<or>
    c_admission c \<and> want \<noteq> c_advertised_streams c \<and> aside c' = aside (rebudgeted want c)"
proof (cases "\<not> c_admission c \<or> want = c_advertised_streams c")
  case True
  then have "sync_admission want c = (Inr (), c)" unfolding sync_admission_def by argo
  then show ?thesis using assms by simp
next
  case False
  let ?c1 = "c\<lparr>c_advertised_streams := want,
                   c_local_settings := (c_local_settings c)\<lparr>max_concurrent_streams := Some want\<rparr>,
                   c_outstanding_settings := sat_add_u32 (c_outstanding_settings c) 1\<rparr>"
  let ?c2 = "if want > c_enforced_streams ?c1
                  then ?c1\<lparr>c_enforced_streams := want,
                          c_streams := set_max_concurrent (unat want) (c_streams ?c1)\<rparr>
                  else ?c1"
  have q: "queue_frame (SettingsFrame False [(id_max_concurrent_streams, want)]) ?c2 = (Inr (), c')"
    using assms False by (cases "c_enforced_streams c < want") (simp_all add: sync_admission_def Let_def)
  have "aside c' = aside (rebudgeted want c)"
    using q by (cases rule: queue_frame_cases [of "SettingsFrame False [(id_max_concurrent_streams, want)]" ?c2])
      (auto simp: rebudgeted_def aside_defs promises_def goaways_def set_max_concurrent_def max_def split: if_splits)
  then show ?thesis using False by simp
qed

text \<open>The octets a frame adds to a header block; a frame that goes on keeps the block within bounds.\<close>

fun fragment_of :: "frame \<Rightarrow> octets option" where
  "fragment_of (Headers i block es eh) = Some block"
| "fragment_of (Continuation i block eh) = Some block"
| "fragment_of f = None"

definition block_fits :: "frame \<Rightarrow> 'v conn \<Rightarrow> bool" where
  "block_fits f c \<longleftrightarrow> (case fragment_of f of None \<Rightarrow> True
     | Some b \<Rightarrow> length (c_header_block c) + length b \<le> max_header_block_bytes)"

lemma read_header_block_fits:
  assumes "read_header_block S now i fragment e c = (Inr a, c')"
  shows "length (c_header_block c) + length fragment \<le> max_header_block_bytes"
  using assms by (cases rule: read_header_block_cases [of S now i fragment e c]) simp_all

lemma frame_action_fits:
  assumes "frame_action S now f c = (Inr a, c')"
  shows "block_fits f c"
  using assms by (cases f) (auto simp: block_fits_def dest!: read_header_block_fits elim!: and_then_Inr split: if_splits)

lemma handle_frame_fits:
  assumes "handle_frame S now f c = (Inr n, c')"
  shows "block_fits f c"
proof -
  obtain u c0 c2 where pre: "(if is_control f
           then (case on_control_frame now (c_guard c) of (v, g) \<Rightarrow> check_verdict v (c\<lparr>c_guard := g\<rparr>))
           else (Inr (), c)) = (Inr u, c0)"
    and act: "frame_action S now f (c0\<lparr>c_received := c_received c0 @ [f]\<rparr>) = (Inr n, c2)"
    using assms by (auto simp: handle_frame_def Let_def split: if_splits elim!: and_then_Inr)
  have "aside (snd (if is_control f
           then (case on_control_frame now (c_guard c) of (v, g) \<Rightarrow> check_verdict v (c\<lparr>c_guard := g\<rparr>))
           else (Inr (), c))) = aside c" by (simp split: prod.split)
  then have "c_header_block c0 = c_header_block c" by (simp add: pre aside_defs)
  then show ?thesis using frame_action_fits [OF act] by (simp add: block_fits_def split: option.splits)
qed

lemma framed_same:
  assumes "aside0 c' = aside0 c"
  shows "aside0 (framed f c') = aside0 (framed f c)"
    and "dispatches c' = dispatches c \<Longrightarrow> aside (framed f c') = aside (framed f c)"
proof -
  have o: "c_open_header_block c' = c_open_header_block c" using assms by (simp add: aside_defs)
  show "aside0 (framed f c') = aside0 (framed f c)"
    using touched_same(1) [OF assms, of f] by (simp add: framed_def Let_def o aside_defs)
  show "aside (framed f c') = aside (framed f c)" if "dispatches c' = dispatches c"
    using touched_same(2) [OF assms that, of f] by (simp add: framed_def Let_def o aside_defs)
qed

lemma read_frame_aside:
  assumes "read_frame S now c = (Inr b, c')"
  shows "aside c' = aside c \<or> (\<exists>f. block_order_ok f c \<and> block_fits f c \<and> aside0 c' = aside0 (framed f c) \<and>
    (drain_committed c \<longrightarrow> aside c' = aside (framed f c)))"
proof -
  obtain r rest where d: "decode_any (c_codec c) (c_read_buf c) = (r, rest)"
    by (cases "decode_any (c_codec c) (c_read_buf c)")
  obtain got where r: "r = Inr got" using assms by (cases r) (auto simp: read_frame_def d)
  show ?thesis
  proof (cases "\<exists>f. got = Some (DFrame f)")
    case False
    then show ?thesis
      using assms
      by (cases got; cases "the got")
        (auto simp: read_frame_def d r reject_if_mid_header_block_def split: option.splits elim!: and_then_Inr)
  next
    case True
    then obtain f where got: "got = Some (DFrame f)" by blast
    let ?c = "c\<lparr>c_read_buf := rest, c_summary := (c_summary c)\<lparr>cs_frames_received := cs_frames_received (c_summary c) + 1\<rparr>\<rparr>"
    obtain c2 n where h: "handle_frame S now f ?c = (Inr n, c2)"
      and n: "(case n of Continue \<Rightarrow> (Inr True, c2) | Close \<Rightarrow> (Inl Quiet, c2)) = (Inr b, c')"
      using assms by (auto simp: read_frame_def d r got elim!: and_then_Inr)
    have [simp]: "n = Continue" "c2 = c'" using n by (cases n; simp)+
    have same: "aside0 ?c = aside0 c" "dispatches ?c = dispatches c" by (simp_all add: aside_defs)
    note fr = framed_same [OF same(1), of f]
    have "drain_committed ?c = drain_committed c" by (rule drain_committed_aside [OF same(1)])
    moreover have "block_order_ok f ?c = block_order_ok f c" by (simp add: block_order_ok_def)
    moreover have "block_fits f c" using handle_frame_fits [OF h] by (simp add: block_fits_def split: option.splits)
    ultimately show ?thesis
      using handle_frame_aside [of S now f ?c c'] h fr(1) fr(2) [OF same(2)] by auto
  qed
qed

lemma advance_drain_aside:
  assumes "advance_drain now fired c = (Inr b, c')"
  shows "aside c' = aside c \<or> (\<exists>d. c_draining c = Some d \<and> committed d = None \<and>
    aside c' = aside (c\<lparr>c_draining := Some (d\<lparr>committed := Some (highest_peer_id (c_streams c))\<rparr>),
      c_frames := c_frames c @ [GoAway (highest_peer_id (c_streams c)) NoError []]\<rparr>))"
proof (cases "c_draining c")
  case (Some d)
  let ?final = "highest_peer_id (c_streams c)"
  show ?thesis
  proof (cases "committed d = None \<and> (fired \<or> now \<ge> commit_at d)")
    case False
    then have "snd (advance_drain now fired c) = c"
      using Some by (cases "committed d"; cases "fired") (simp_all add: advance_drain_def)
    then show ?thesis using assms by simp
  next
    case True
    then have "and_then (and_then (queue_frame (GoAway ?final NoError []) c)
          (\<lambda>_ c1. (Inr (), c1\<lparr>c_draining := Some (d\<lparr>committed := Some ?final\<rparr>),
                             c_summary := (c_summary c1)\<lparr>cs_drained := True\<rparr>\<rparr>)))
         (\<lambda>_ c1. (case c_draining c1 of
                  None \<Rightarrow> (Inr True, c1)
                | Some d1 \<Rightarrow>
                    (Inr (\<not> (committed d1 \<noteq> None
                             \<and> (live_count (c_streams c1) = 0 \<or> now \<ge> deadline_at d1))), c1))) = (Inr b, c')"
      using assms Some by (simp add: advance_drain_def Let_def)
    then obtain u c1 where q: "queue_frame (GoAway ?final NoError []) c = (Inr u, c1)"
      and c': "c' = c1\<lparr>c_draining := Some (d\<lparr>committed := Some ?final\<rparr>),
                       c_summary := (c_summary c1)\<lparr>cs_drained := True\<rparr>\<rparr>"
      by (auto elim!: and_then_Inr)
    have "aside c1 = aside (c\<lparr>c_frames := c_frames c @ [GoAway ?final NoError []]\<rparr>)" by (rule aside_queued [OF q])
    then have "aside c' = aside (c\<lparr>c_draining := Some (d\<lparr>committed := Some ?final\<rparr>),
        c_frames := c_frames c @ [GoAway ?final NoError []]\<rparr>)"
      by (simp add: c') (simp add: aside_defs)
    then show ?thesis using Some True by blast
  qed
qed (use assms in \<open>simp add: advance_drain_def\<close>)

text \<open>One step of a connection that goes on, seen from the fields set aside.\<close>

lemma conn_step_aside:
  assumes "conn_step S x c = (Inr (), c')"
  obtains (quiet) "aside c' = aside c"
  | (frame) f where "block_order_ok f c" "block_fits f c" "aside0 c' = aside0 (framed f c)"
      "drain_committed c \<Longrightarrow> aside c' = aside (framed f c)"
  | (budget) want where "c_admission c" "want \<noteq> c_advertised_streams c" "aside c' = aside (rebudgeted want c)"
  | (drain) d where "c_draining c = None" "committed d = None"
      "aside c' = aside (c\<lparr>c_draining := Some d,
        c_frames := c_frames c @ [GoAway (stream_id_new max_local_stream_id) NoError []]\<rparr>)"
  | (commit) d where "c_draining c = Some d" "committed d = None"
      "aside c' = aside (c\<lparr>c_draining := Some (d\<lparr>committed := Some (highest_peer_id (c_streams c))\<rparr>),
        c_frames := c_frames c @ [GoAway (highest_peer_id (c_streams c)) NoError []]\<rparr>)"
proof (cases x)
  case (InFrame now)
  then obtain b where "read_frame S now c = (Inr b, c')" using assms by (auto elim!: and_then_Inr)
  from read_frame_aside [OF this] quiet frame show ?thesis by blast
next
  case InEvent
  then show ?thesis using assms quiet aside_take_event [of S c] by simp
next
  case (InPush ev)
  then show ?thesis using assms quiet by auto
next
  case (InRead bs)
  then show ?thesis using assms quiet by (auto split: if_splits)
next
  case (InWritten n)
  then show ?thesis using assms quiet by (auto split: if_splits)
next
  case (InBudget want)
  then show ?thesis using assms sync_admission_aside [of want c c'] quiet budget by auto
next
  case InPump
  then show ?thesis using assms quiet aside_pump_outbound [of S c] by simp
next
  case (InDrain now)
  show ?thesis
  proof (cases "c_draining c")
    case None
    define d where "d = drain_begin (c_drain_policy c) now
        (if live_count (c_streams c) > 0 then 0 else now - c_last_stream_at c)"
    have q: "queue_frame (GoAway (stream_id_new max_local_stream_id) NoError []) (c\<lparr>c_draining := Some d\<rparr>) = (Inr (), c')"
      using assms None InDrain by (simp add: begin_drain_def d_def)
    have "aside c' = aside (c\<lparr>c_draining := Some d,
        c_frames := c_frames c @ [GoAway (stream_id_new max_local_stream_id) NoError []]\<rparr>)"
      using aside_queued [OF q] by simp
    moreover have "committed d = None" by (simp add: d_def drain_begin_def Let_def)
    ultimately show ?thesis using drain None by blast
  qed (use assms quiet InDrain in auto)
next
  case (InClock now fired)
  then obtain b where "advance_drain now fired c = (Inr b, c')"
    using assms by (auto elim!: and_then_Inr split: if_splits)
  from advance_drain_aside [OF this] quiet commit show ?thesis by blast
qed

end
