(* ===== verification/Conn_Promises.thy ===== *)
theory Conn_Promises
  imports Conn_Aside
begin

section \<open>What a connection promises its peer\<close>

text \<open>
  Invariants of a run over the fields few handlers touch: the GOAWAY of a committed drain, the
  concurrency limits announced and not yet taken back, and the header block being reassembled.
\<close>

lemma conn_run_invariant:
  assumes "conn_run S xs c = (Inr (), c')" "I c"
    "\<And>x c c'. conn_step S x c = (Inr (), c') \<Longrightarrow> I c \<Longrightarrow> I c'"
  shows "I c'"
  using assms(1,2)
proof (induction xs arbitrary: c)
  case (Cons x xs)
  then obtain c1 where "conn_step S x c = (Inr (), c1)" "conn_run S xs c1 = (Inr (), c')"
    by (auto elim!: and_then_Inr)
  then show ?case using Cons assms(3) by blast
qed simp

subsection \<open>The GOAWAY of a committed drain\<close>

definition dispatched_seen :: "core \<Rightarrow> bool" where
  "dispatched_seen k \<longleftrightarrow> peer_role (k_streams k) \<and> (\<forall>i \<in> given k. i \<le> highest_peer_id (k_streams k))"

lemma live_seen: "peer_role t \<Longrightarrow> get_stream i t \<noteq> None \<Longrightarrow> i \<le> highest_peer_id t"
  using table_inv_live [of t i] by (auto simp: peer_role_def get_stream_def entry_ok_def max.absorb1)

lemma set_max_concurrent_fields [simp]: "highest_peer_id (set_max_concurrent m t) = highest_peer_id t"
  by (simp add: set_max_concurrent_def)

lemma dispatched_seen_step:
  assumes "core_step h k k'" "dispatched_seen k"
  shows "dispatched_seen k'"
proof -
  have role: "peer_role (k_streams k)" and seen: "\<forall>i \<in> given k. i \<le> highest_peer_id (k_streams k)"
    using assms(2) by (simp_all add: dispatched_seen_def)
  have "\<forall>i \<in> given k'. i \<le> highest_peer_id (k_streams k')"
    using assms(1)
  proof cases
    case (notified call)
    then show ?thesis using seen live_seen [OF role] by (cases call) (auto simp: given_def)
  next
    case (opens i s t)
    then have "highest_peer_id (k_streams k) \<le> highest_peer_id t"
      using open_peer_accepted(2,4) [OF opens(2)] by simp
    then show ?thesis using opens(1) seen by (auto simp: given_def intro: order_trans)
  next
    case (turns_away i t)
    then show ?thesis using open_peer_rejected(2) [OF turns_away(2)] seen by (auto simp: given_def intro: order_trans)
  next
    case (resizes d t)
    then show ?thesis using apply_initial_window_delta_fields(1) [of d "k_streams k"] seen by (auto simp: given_def)
  qed (use seen in \<open>auto simp: given_def\<close>)
  then show ?thesis using peer_role_step [OF assms(1) role] by (simp add: dispatched_seen_def)
qed

lemma core_step_invariant:
  assumes "conn_step S x c = (Inr (), c')" "P (core_of c)" "\<And>k k'. core_step False k k' \<Longrightarrow> P k \<Longrightarrow> P k'"
  shows "P (core_of c')"
proof -
  have "core_steps False (core_of c) (core_of c')"
    using refine_step [of False S x c] assms(1) by (simp add: core_ok_def)
  then show ?thesis using assms(2) by (induction rule: rtranclp_induct) (auto intro: assms(3))
qed

text \<open>The GOAWAY frames written, and what the last of them promises.\<close>

definition goaway_kept :: "'v conn \<Rightarrow> bool" where
  "goaway_kept c \<longleftrightarrow> (case c_draining c of
     None \<Rightarrow> goaways (c_frames c) = []
   | Some d \<Rightarrow> (case committed d of
       None \<Rightarrow> goaways (c_frames c) = [(stream_id_new max_local_stream_id, NoError)]
     | Some final \<Rightarrow>
         goaways (c_frames c) = [(stream_id_new max_local_stream_id, NoError), (final, NoError)] \<and>
         (\<forall>i \<in> given (core_of c). i \<le> final)))"

lemma given_dispatches: "given (core_of c) = {i. \<exists>head es. SvDispatch i head es \<in> set (dispatches c)}"
  by (simp add: given_def dispatches_def)

lemma aside_draining:
  "aside0 c' = aside0 c \<Longrightarrow> c_draining c' = c_draining c \<and> goaways (c_frames c') = goaways (c_frames c)"
  "aside c' = aside c \<Longrightarrow> given (core_of c') = given (core_of c)"
  by (simp_all add: aside_def aside0_def admission_state_def given_dispatches)

lemma goaway_same: "aside c' = aside c \<Longrightarrow> goaway_kept c' = goaway_kept c"
  using aside_draining(1) [OF aside0_of, of c' c] aside_draining(2) [of c' c]
  by (simp add: goaway_kept_def cong: option.case_cong)

lemma framed_draining [simp]: "c_draining (framed f c) = c_draining c" "c_calls (framed f c) = c_calls c"
  "c_frames (framed f c) = c_frames c"
  by (cases f; simp add: framed_def Let_def recv_settings_ack_def)+

lemma goaway_kept_step:
  assumes "conn_step S x c = (Inr (), c')" "goaway_kept c" "dispatched_seen (core_of c)"
  shows "goaway_kept c'"
  using assms(1)
proof (cases rule: conn_step_aside)
  case quiet
  then show ?thesis using assms(2) goaway_same by blast
next
  case (frame f)
  show ?thesis
  proof (cases "drain_committed c")
    case True
    have "goaway_kept (framed f c)" using assms(2) by (simp add: goaway_kept_def given_def cong: option.case_cong)
    then show ?thesis using goaway_same [OF frame(4) [OF True]] by simp
  next
    case False
    from aside_draining(1) [OF frame(3)] show ?thesis
      using False assms(2) by (auto simp: goaway_kept_def drain_committed_def split: option.splits)
  qed
next
  case (budget want)
  have "goaway_kept (rebudgeted want c)"
    using assms(2) by (simp add: goaway_kept_def rebudgeted_def given_def goaways_def cong: option.case_cong)
  then show ?thesis using goaway_same [OF budget(3)] by simp
next
  case (drain d)
  then show ?thesis using goaway_same [OF drain(3)] assms(2) by (simp add: goaway_kept_def goaways_def)
next
  case (commit d)
  then show ?thesis using goaway_same [OF commit(3)] assms(2,3)
    by (simp add: goaway_kept_def goaways_def dispatched_seen_def given_def)
qed

subsection \<open>The limits announced\<close>

fun is_settings_ack :: "frame \<Rightarrow> bool" where
  "is_settings_ack (SettingsFrame ack params) = ack"
| "is_settings_ack f = False"

definition settings_acks :: "frame list \<Rightarrow> nat" where
  "settings_acks fs = length (filter is_settings_ack fs)"

text \<open>The limit of the first SETTINGS frame, then those announced since.\<close>

definition announced :: "u32 \<Rightarrow> 'v conn \<Rightarrow> u32 list" where
  "announced b c = b # promises (c_frames c)"

definition admission_inv :: "u32 \<Rightarrow> 'v conn \<Rightarrow> bool" where
  "admission_inv b c \<longleftrightarrow> c_admission c \<and> (length (announced b c) \<le> u32_max \<longrightarrow>
     max_concurrent (c_streams c) = unat (c_enforced_streams c) \<and>
     c_advertised_streams c = last (announced b c) \<and>
     c_outstanding_settings c \<le> length (announced b c) \<and>
     length (announced b c) \<le> c_outstanding_settings c + settings_acks (c_received c) \<and>
     (c_outstanding_settings c = 0 \<longrightarrow> c_enforced_streams c = c_advertised_streams c) \<and>
     (settings_acks (c_received c) = 0 \<longrightarrow> c_stream_ceiling c \<le> c_enforced_streams c) \<and>
     (\<forall>w \<in> set (drop (length (announced b c) - (c_outstanding_settings c + 1)) (announced b c)).
        w \<le> c_enforced_streams c))"

lemma admission_aside:
  assumes "aside0 c' = aside0 c"
  shows "admission_inv b c' = admission_inv b c"
  using assms by (simp add: admission_inv_def announced_def aside0_def admission_state_def block_state_def)

lemma admission_ack:
  assumes "admission_inv b c"
  shows "admission_inv b (framed (SettingsFrame True params) c)"
proof -
  let ?a = "announced b c" and ?c = "framed (SettingsFrame True params) c"
  have same: "announced b ?c = ?a" "c_admission ?c" "c_advertised_streams ?c = c_advertised_streams c"
    "c_outstanding_settings ?c = c_outstanding_settings c - 1"
    "settings_acks (c_received ?c) = settings_acks (c_received c) + 1"
    using assms by (simp_all add: framed_def recv_settings_ack_def Let_def announced_def admission_inv_def settings_acks_def)
  have enf: "c_enforced_streams ?c =
      (if c_outstanding_settings c - 1 = 0 then c_advertised_streams c else c_enforced_streams c)"
    "max_concurrent (c_streams c) = unat (c_enforced_streams c) \<Longrightarrow>
     max_concurrent (c_streams ?c) = unat (c_enforced_streams ?c)"
    using assms by (auto simp: framed_def recv_settings_ack_def Let_def admission_inv_def set_max_concurrent_def)
  have last: "set (drop (length ?a - 1) ?a) = {last ?a}"
  proof -
    have "?a = butlast ?a @ [last ?a]" by (simp add: announced_def)
    then show ?thesis by (metis append_eq_conv_conj length_butlast list.simps(15) set_empty)
  qed
  have "set (drop (length ?a - (c_outstanding_settings c - 1 + 1)) ?a)
      \<subseteq> set (drop (length ?a - (c_outstanding_settings c + 1)) ?a)"
    by (rule set_drop_subset_set_drop) simp
  then show ?thesis
    using assms enf last unfolding admission_inv_def same by (auto simp: enf(1) same(2))
qed

lemma admission_budget:
  assumes "admission_inv b c"
  shows "admission_inv b (rebudgeted want c)"
proof -
  let ?a = "announced b c" and ?c = "rebudgeted want c" and ?o = "c_outstanding_settings c"
  have an: "announced b ?c = ?a @ [want]"
    by (simp add: rebudgeted_def announced_def promises_def)
  have o: "c_outstanding_settings ?c = ?o + 1" if "length ?a + 1 \<le> u32_max"
    using assms that by (simp add: rebudgeted_def admission_inv_def sat_add_u32_def)
  have "set (drop (length ?a + 1 - (?o + 1 + 1)) (?a @ [want])) \<subseteq>
      insert want (set (drop (length ?a - (?o + 1)) ?a))"
    by auto
  then show ?thesis
    using assms o unfolding admission_inv_def an
    by (auto simp: rebudgeted_def set_max_concurrent_def max_def)
qed

lemma admission_step:
  assumes "conn_step S x c = (Inr (), c')" "admission_inv b c"
  shows "admission_inv b c'"
  using assms(1)
proof (cases rule: conn_step_aside)
  case quiet
  then show ?thesis using admission_aside [OF aside0_of [OF quiet]] assms(2) by simp
next
  case (frame f)
  have "admission_inv b (framed f c)"
  proof (cases "is_settings_ack f")
    case True
    then obtain params where "f = SettingsFrame True params" by (cases f) auto
    then show ?thesis using admission_ack [OF assms(2)] by simp
  next
    case False
    then show ?thesis using assms(2)
      by (cases f) (simp_all add: admission_inv_def framed_def announced_def settings_acks_def Let_def)
  qed
  then show ?thesis using admission_aside [OF frame(3)] by simp
next
  case (budget want)
  then show ?thesis using admission_aside [OF aside0_of [OF budget(3)]] admission_budget [OF assms(2)] by simp
next
  case (drain d)
  then show ?thesis using admission_aside [OF aside0_of [OF drain(3)]] assms(2)
    by (simp add: admission_inv_def announced_def promises_def)
next
  case (commit d)
  then show ?thesis using admission_aside [OF aside0_of [OF commit(3)]] assms(2)
    by (simp add: admission_inv_def announced_def promises_def)
qed

lemma ceiling_step:
  assumes "conn_step S x c = (Inr (), c')"
  shows "c_stream_ceiling c' = c_stream_ceiling c"
proof -
  have f: "c_stream_ceiling (framed f c) = c_stream_ceiling c" for f
    by (cases f) (simp_all add: framed_def Let_def recv_settings_ack_def)
  have a: "c_stream_ceiling c1 = c_stream_ceiling c2" if "aside0 c1 = aside0 c2" for c1 c2 :: "'a conn"
    using that by (simp add: aside0_def admission_state_def)
  show ?thesis
    using assms
    by (cases rule: conn_step_aside) (auto simp: f rebudgeted_def dest!: aside0_of a)
qed

subsection \<open>Header blocks\<close>

text \<open>RFC 9113, section 4.3, as a grammar: between a HEADERS that does not end its block and the frame
  that does, only CONTINUATION frames of the same stream.\<close>

fun blocks_ordered :: "stream_id option \<Rightarrow> frame list \<Rightarrow> bool" where
  "blocks_ordered opn [] = True"
| "blocks_ordered opn (f # fs) =
     ((case opn of Some i \<Rightarrow> continues_block f i | None \<Rightarrow> \<not> is_continuation f)
      \<and> blocks_ordered (block_after f opn) fs)"

fun open_block :: "stream_id option \<Rightarrow> frame list \<Rightarrow> stream_id option" where
  "open_block opn [] = opn"
| "open_block opn (f # fs) = open_block (block_after f opn) fs"

text \<open>The fragments received of a block that has not ended.\<close>

fun unfinished :: "octets \<Rightarrow> frame list \<Rightarrow> octets" where
  "unfinished buf [] = buf"
| "unfinished buf (Headers i block es eh # fs) = unfinished (if eh then [] else buf @ block) fs"
| "unfinished buf (Continuation i block eh # fs) = unfinished (if eh then [] else buf @ block) fs"
| "unfinished buf (f # fs) = unfinished buf fs"

lemma block_history_snoc:
  "blocks_ordered opn (fs @ [f]) \<longleftrightarrow> blocks_ordered opn fs \<and>
     (case open_block opn fs of Some i \<Rightarrow> continues_block f i | None \<Rightarrow> \<not> is_continuation f)"
  "open_block opn (fs @ [f]) = block_after f (open_block opn fs)"
  "unfinished buf (fs @ [f]) = unfinished (unfinished buf fs) [f]"
proof -
  show "blocks_ordered opn (fs @ [f]) \<longleftrightarrow> blocks_ordered opn fs \<and>
     (case open_block opn fs of Some i \<Rightarrow> continues_block f i | None \<Rightarrow> \<not> is_continuation f)"
    by (induction fs arbitrary: opn) auto
  show "open_block opn (fs @ [f]) = block_after f (open_block opn fs)"
    by (induction fs arbitrary: opn) auto
  show "unfinished buf (fs @ [f]) = unfinished (unfinished buf fs) [f]"
    by (induction buf fs rule: unfinished.induct) auto
qed

definition block_inv :: "'v conn \<Rightarrow> bool" where
  "block_inv c \<longleftrightarrow>
     blocks_ordered None (c_received c) \<and>
     c_open_header_block c = open_block None (c_received c) \<and>
     c_header_block c = unfinished [] (c_received c) \<and>
     length (c_header_block c) \<le> max_header_block_bytes \<and>
     (c_open_header_block c = None \<longrightarrow> c_header_block c = [])"

lemma block_same: "block_state c' = block_state c \<Longrightarrow> block_inv c' = block_inv c"
  by (simp add: block_inv_def block_state_def)

lemma block_aside: "aside0 c' = aside0 c \<Longrightarrow> block_inv c' = block_inv c"
  by (rule block_same) (simp add: aside0_def)

lemma block_framed:
  assumes "block_inv c" "block_order_ok f c" "block_fits f c"
  shows "block_inv (framed f c)"
proof -
  have o: "open_block None (c_received c) = c_open_header_block c"
    and u: "unfinished [] (c_received c) = c_header_block c"
    and ord: "blocks_ordered None (c_received c)"
    and len: "length (c_header_block c) \<le> max_header_block_bytes"
    and none: "c_open_header_block c = None \<longrightarrow> c_header_block c = []"
    using assms(1) unfolding block_inv_def by auto
  have fits: "\<not> length (c_header_block c) + length b > max_header_block_bytes" if "fragment_of f = Some b" for b
    using assms(3) that by (simp add: block_fits_def)
  have order: "case c_open_header_block c of Some i \<Rightarrow> continues_block f i | None \<Rightarrow> \<not> is_continuation f"
    using assms(2) by (simp add: block_order_ok_def split: option.splits)
  have c: "c_received (framed f c) = c_received c @ [f]"
    "c_open_header_block (framed f c) = block_after f (c_open_header_block c)"
    by (cases f; simp add: framed_def Let_def recv_settings_ack_def)+
  have b: "c_header_block (framed f c) = unfinished (c_header_block c) [f]"
    using fits by (cases f) (simp_all add: framed_def Let_def recv_settings_ack_def buffer_after_def)
  have l: "length (unfinished (c_header_block c) [f]) \<le> max_header_block_bytes"
    using fits len by (cases f) auto
  have n: "block_after f (c_open_header_block c) = None \<longrightarrow> unfinished (c_header_block c) [f] = []"
    using none by (cases f) auto
  show ?thesis
    unfolding block_inv_def c b block_history_snoc o u using ord order l n by simp
qed

lemma block_step:
  assumes "conn_step S x c = (Inr (), c')" "block_inv c"
  shows "block_inv c'"
  using assms(1)
proof (cases rule: conn_step_aside)
  case quiet
  then show ?thesis using block_aside [OF aside0_of [OF quiet]] assms(2) by simp
next
  case (frame f)
  then show ?thesis using block_aside [OF frame(3)] block_framed [OF assms(2)] by simp
next
  case (budget want)
  have "block_inv (rebudgeted want c) = block_inv c" by (rule block_same) (simp add: rebudgeted_def block_state_def)
  then show ?thesis using block_aside [OF aside0_of [OF budget(3)]] assms(2) by simp
next
  case (drain d)
  let ?f = "GoAway (stream_id_new max_local_stream_id) NoError []"
  have "block_inv (c\<lparr>c_draining := Some d, c_frames := c_frames c @ [?f]\<rparr>) = block_inv c"
    by (rule block_same) (simp add: block_state_def)
  then show ?thesis using block_aside [OF aside0_of [OF drain(3)]] assms(2) by simp
next
  case (commit d)
  let ?final = "highest_peer_id (c_streams c)"
  have "block_inv (c\<lparr>c_draining := Some (d\<lparr>committed := Some ?final\<rparr>),
      c_frames := c_frames c @ [GoAway ?final NoError []]\<rparr>) = block_inv c"
    by (rule block_same) (simp add: block_state_def)
  then show ?thesis using block_aside [OF aside0_of [OF commit(3)]] assms(2) by simp
qed

text \<open>What may follow while a block is open, frames of unknown type included.\<close>

fun may_follow :: "decoded \<Rightarrow> stream_id \<Rightarrow> bool" where
  "may_follow (DFrame f) i = continues_block f i"
| "may_follow (Ignored kind j) i = False"

lemma open_block_stops:
  assumes "c_open_header_block c = Some i" "fst (decode_any (c_codec c) (c_read_buf c)) = Inr (Some d)"
    "\<not> may_follow d i"
  shows "fst (read_frame S now c) = Inl (Failed (ConnectionError ProtocolError))"
proof -
  obtain rest where dec: "decode_any (c_codec c) (c_read_buf c) = (Inr (Some d), rest)"
    using assms(2) by (metis prod.collapse)
  show ?thesis
  proof (cases d)
    case (DFrame f)
    then show ?thesis using assms(1,3)
      by (simp add: read_frame_def dec handle_frame_def block_order_ok_def failed_def and_then_def)
  next
    case (Ignored kind j)
    then show ?thesis using assms(1)
      by (simp add: read_frame_def dec reject_if_mid_header_block_def failed_def and_then_def)
  qed
qed

end
