(* ===== verification/Conn_Ring.thy ===== *)
theory Conn_Ring
  imports Conn_Promises
begin

section \<open>The ready ring\<close>

text \<open>
  A stream with something to send is in the ready ring, and marked so. That this holds between any
  two steps of a connection, and what it gives: when the sender returns, every stream with queued
  octets is held by flow control, or the socket's buffer is full.
\<close>

subsection \<open>The invariant\<close>

definition stream_ring_ok :: "stream \<Rightarrow> bool" where
  "stream_ring_ok s \<longleftrightarrow> [] \<notin> set (st_send_queue s) \<and> (has_pending_send s \<longrightarrow> st_queued s)"

definition ring_ok :: "'v conn \<Rightarrow> bool" where
  "ring_ok c \<longleftrightarrow> settings_legal (c_peer_settings c) \<and>
     (\<forall>i s. c_get i c = Some s \<longrightarrow> stream_ring_ok s \<and> (st_queued s \<longrightarrow> i \<in> set (c_ready c)))"

definition same_ring :: "stream \<Rightarrow> stream \<Rightarrow> bool" where
  "same_ring s s' \<longleftrightarrow> st_send_queue s' = st_send_queue s \<and> st_send_end_stream s' = st_send_end_stream s
     \<and> st_pending_trailers s' = st_pending_trailers s \<and> st_queued s' = st_queued s"

lemma same_ring_simps [simp]:
  "same_ring s s"
  "same_ring s (s\<lparr>st_state := x1\<rparr>)" "same_ring s (s\<lparr>st_send_window := x2\<rparr>)"
  "same_ring s (s\<lparr>st_response_started := x3\<rparr>)" "same_ring s (s\<lparr>st_content_length := x4\<rparr>)"
  "same_ring s (s\<lparr>st_pending_conn_release := x5, st_recv_window := x6\<rparr>)"
  "same_ring s (s\<lparr>st_data_received := x7, st_pending_conn_release := x8, st_recv_window := x9\<rparr>)"
  by (simp_all add: same_ring_def)

lemma same_ring_ok: "same_ring s s' \<Longrightarrow> stream_ring_ok s' = stream_ring_ok s"
  by (simp add: same_ring_def stream_ring_ok_def has_pending_send_def)

lemma ring_updates [simp]:
  "ring_ok (c\<lparr>c_out := x1\<rparr>) = ring_ok c"
  "ring_ok (c\<lparr>c_read_buf := x2\<rparr>) = ring_ok c"
  "ring_ok (c\<lparr>c_local_settings := x3\<rparr>) = ring_ok c"
  "ring_ok (c\<lparr>c_hpack_dec := x4\<rparr>) = ring_ok c"
  "ring_ok (c\<lparr>c_hpack_enc := x5\<rparr>) = ring_ok c"
  "ring_ok (c\<lparr>c_conn_send_window := x6\<rparr>) = ring_ok c"
  "ring_ok (c\<lparr>c_conn_recv_window := x7\<rparr>) = ring_ok c"
  "ring_ok (c\<lparr>c_pending_reset := x8\<rparr>) = ring_ok c"
  "ring_ok (c\<lparr>c_guard := x9\<rparr>) = ring_ok c"
  "ring_ok (c\<lparr>c_last_stream_at := x10\<rparr>) = ring_ok c"
  "ring_ok (c\<lparr>c_service := x11\<rparr>) = ring_ok c"
  "ring_ok (c\<lparr>c_events := x12\<rparr>) = ring_ok c"
  "ring_ok (c\<lparr>c_summary := x13\<rparr>) = ring_ok c"
  "ring_ok (c\<lparr>c_frames := x14\<rparr>) = ring_ok c"
  "ring_ok (c\<lparr>c_received := x15\<rparr>) = ring_ok c"
  "ring_ok (c\<lparr>c_open_header_block := x16\<rparr>) = ring_ok c"
  "ring_ok (c\<lparr>c_open_header_end_stream := x17\<rparr>) = ring_ok c"
  "ring_ok (c\<lparr>c_header_block := x18\<rparr>) = ring_ok c"
  "ring_ok (c\<lparr>c_draining := x19\<rparr>) = ring_ok c"
  "ring_ok (c\<lparr>c_advertised_streams := x20\<rparr>) = ring_ok c"
  "ring_ok (c\<lparr>c_outstanding_settings := x21\<rparr>) = ring_ok c"
  "ring_ok (c\<lparr>c_enforced_streams := x22\<rparr>) = ring_ok c"
  "ring_ok (c\<lparr>c_peer_acked_settings := x23\<rparr>) = ring_ok c"
  "ring_ok (c\<lparr>c_calls := x24\<rparr>) = ring_ok c"
  by (simp_all add: ring_ok_def c_get_def)

lemma ring_streams:
  assumes "ring_ok c"
    "\<And>i s'. get_stream i t = Some s' \<Longrightarrow> \<exists>s. c_get i c = Some s \<and> same_ring s s'"
  shows "ring_ok (c\<lparr>c_streams := t\<rparr>)"
  unfolding ring_ok_def
proof (intro conjI allI impI)
  show "settings_legal (c_peer_settings (c\<lparr>c_streams := t\<rparr>))" using assms(1) by (simp add: ring_ok_def)
next
  fix i s' assume "c_get i (c\<lparr>c_streams := t\<rparr>) = Some s'"
  then obtain s where "c_get i c = Some s" "same_ring s s'" using assms(2) [of i s'] by (auto simp: c_get_def)
  then show "stream_ring_ok s'" using assms(1) by (simp add: same_ring_ok ring_ok_def)
next
  fix i s' assume "c_get i (c\<lparr>c_streams := t\<rparr>) = Some s'" "st_queued s'"
  then obtain s where "c_get i c = Some s" "st_queued s"
    using assms(2) [of i s'] by (auto simp: c_get_def same_ring_def)
  then show "i \<in> set (c_ready (c\<lparr>c_streams := t\<rparr>))" using assms(1) by (simp add: ring_ok_def)
qed

lemma ring_put: "ring_ok c \<Longrightarrow> c_get i c = Some s \<Longrightarrow> same_ring s s' \<Longrightarrow> ring_ok (c_put i s' c)"
  unfolding c_put_def by (rule ring_streams) (auto simp: c_get_def split: if_splits)

lemma ring_retire: "ring_ok c \<Longrightarrow> ring_ok (c\<lparr>c_streams := retire i (c_streams c)\<rparr>)"
  by (rule ring_streams) (auto simp: get_retire c_get_def split: if_splits)

lemma ring_unqueue: "ring_ok c \<Longrightarrow> c_get i c = None \<Longrightarrow> ring_ok (c\<lparr>c_ready := filter (\<lambda>j. j \<noteq> i) (c_ready c)\<rparr>)"
  by (auto simp: ring_ok_def c_get_def)

lemma ring_retire_and_unqueue [simp]: "ring_ok c \<Longrightarrow> ring_ok (retire_and_unqueue i c)"
  using ring_unqueue [OF ring_retire, of c i i] by (simp add: retire_and_unqueue_def c_get_def get_retire)

lemma ring_reclaimed: "ring_ok c \<Longrightarrow> ring_ok (c\<lparr>c_streams := (c_streams c)\<lparr>reclaimed := n\<rparr>\<rparr>)"
  by (rule ring_streams) (auto simp: c_get_def)

lemma ring_counts [simp]:
  "ring_ok (count_reset c) = ring_ok c" "ring_ok (count_block c) = ring_ok c"
  "ring_ok (count_sent n c) = ring_ok c" "ring_ok (count_stall c) = ring_ok c"
  by (simp_all add: count_reset_def count_block_def count_sent_def count_stall_def)

lemma ring_notify [simp]: "ring_ok (notify S call c) = ring_ok c"
  by (simp add: notify_def split: prod.split)

lemma ring_queue_frame [simp]: "ring_ok (snd (queue_frame f c)) = ring_ok c"
  by (cases rule: queue_frame_cases [of f c]) simp_all

lemma ring_then:
  assumes "ring_ok (snd r)" "\<And>a c1. r = (Inr a, c1) \<Longrightarrow> ring_ok c1 \<Longrightarrow> ring_ok (snd (f a c1))"
  shows "ring_ok (snd (and_then r f))"
  using assms by (cases r; cases "fst r") (auto simp: and_then_def)

subsection \<open>The handlers keep it\<close>

lemma ring_drain_reclaimed [simp]: "ring_ok c \<Longrightarrow> ring_ok (snd (drain_reclaimed c))"
  using ring_reclaimed [of c 0]
  by (simp add: drain_reclaimed_def take_reclaimed_eq Let_def split: prod.split option.split)

lemma ring_write_rst_stream [simp]: "ring_ok c \<Longrightarrow> ring_ok (snd (write_rst_stream S i code c))"
  unfolding write_rst_stream_def by (rule ring_then) simp_all

lemma ring_flush_resets: "ring_ok c \<Longrightarrow> ring_ok (snd (flush_resets S es c))"
proof (induction es arbitrary: c)
  case (Cons e es)
  show ?case unfolding flush_resets.simps by (rule ring_then) (simp_all add: Cons)
qed simp

lemma ring_flush_pending_resets [simp]: "ring_ok c \<Longrightarrow> ring_ok (snd (flush_pending_resets S c))"
  by (simp add: flush_pending_resets_def ring_flush_resets)

lemma ring_apply_stream_event [simp]:
  assumes "ring_ok c"
  shows "ring_ok (snd (apply_stream_event S i e c))"
proof -
  obtain r t where a: "apply_event i e (c_streams c) = (r, t)" by (cases "apply_event i e (c_streams c)")
  have t: "ring_ok (c\<lparr>c_streams := t\<rparr>)"
  proof (rule ring_streams [OF assms])
    fix j s' assume "get_stream j t = Some s'"
    then show "\<exists>s. c_get j c = Some s \<and> same_ring s s'"
      using get_apply_event [of j i e "c_streams c" s'] a by (auto simp: c_get_def)
  qed
  have gone: "c_get i (c\<lparr>c_streams := t\<rparr>) = None" if "r = Inr Closed"
    using a that by (auto simp: apply_event_def Let_def c_get_def get_retire is_closed_def
        split: option.splits sum.splits if_splits)
  show ?thesis
  proof (cases r)
    case (Inl err)
    then show ?thesis using t by (simp add: apply_stream_event_def a Let_def)
  next
    case (Inr st)
    show ?thesis
    proof (cases "st = Closed")
      case True
      then show ?thesis using ring_unqueue [OF t gone] Inr by (simp add: apply_stream_event_def a Let_def is_closed_def)
    next
      case False
      then show ?thesis using t Inr by (simp add: apply_stream_event_def a Let_def is_closed_def)
    qed
  qed
qed

text \<open>Before \<^verbatim>\<open>enqueue_ready\<close> the stream itself may have work and not be marked.\<close>

definition ring_but :: "stream_id \<Rightarrow> 'v conn \<Rightarrow> bool" where
  "ring_but i c \<longleftrightarrow> settings_legal (c_peer_settings c) \<and>
     (\<forall>j s. c_get j c = Some s \<longrightarrow> (st_queued s \<longrightarrow> j \<in> set (c_ready c)) \<and>
        [] \<notin> set (st_send_queue s) \<and> (j \<noteq> i \<longrightarrow> stream_ring_ok s))"

lemma ring_butD:
  assumes "ring_but i c" "\<And>s. c_get i c = Some s \<Longrightarrow> stream_ring_ok s"
  shows "ring_ok c"
  unfolding ring_ok_def
proof (intro conjI allI impI)
  show "settings_legal (c_peer_settings c)" using assms(1) by (simp add: ring_but_def)
next
  fix j s assume g: "c_get j c = Some s"
  show "stream_ring_ok s" using assms g by (cases "j = i") (auto simp: ring_but_def)
  show "j \<in> set (c_ready c)" if "st_queued s" using assms(1) g that by (auto simp: ring_but_def)
qed

lemma ring_enqueue:
  assumes "ring_but i c"
  shows "ring_ok (enqueue_ready i c)"
proof (cases "\<exists>s. c_get i c = Some s \<and> \<not> st_queued s \<and> has_pending_send s")
  case False
  then have "enqueue_ready i c = c" by (auto simp: enqueue_ready_def split: option.split)
  moreover have "stream_ring_ok s" if "c_get i c = Some s" for s
    using False that assms unfolding ring_but_def stream_ring_ok_def by blast
  ultimately show ?thesis using ring_butD [OF assms] by simp
next
  case True
  then obtain s where g: "c_get i c = Some s" "\<not> st_queued s" "has_pending_send s" by blast
  let ?c = "(c_put i (s\<lparr>st_queued := True\<rparr>) c)\<lparr>c_ready := c_ready c @ [i]\<rparr>"
  have get: "c_get j ?c = (if j = i then Some (s\<lparr>st_queued := True\<rparr>) else c_get j c)" for j
    using c_get_put [of j i "s\<lparr>st_queued := True\<rparr>" c] by (simp add: c_get_def)
  have q: "[] \<notin> set (st_send_queue s)" using assms g(1) unfolding ring_but_def by blast
  have "ring_but i ?c"
    using assms q unfolding ring_but_def get by (auto simp: c_put_def)
  then have "ring_ok ?c" by (rule ring_butD) (use q in \<open>auto simp: get stream_ring_ok_def\<close>)
  then show ?thesis using g by (simp add: enqueue_ready_def)
qed

lemma ring_but_ok: "ring_ok c \<Longrightarrow> ring_but i c"
  by (auto simp: ring_but_def ring_ok_def stream_ring_ok_def)

lemma ring_but_put:
  assumes "ring_ok c" "c_get i c = Some s" "[] \<notin> set (st_send_queue s')" "st_queued s' = st_queued s"
  shows "ring_but i (c_put i s' c)"
  using assms by (auto simp: ring_but_def ring_ok_def stream_ring_ok_def) (simp_all add: c_put_def)

lemma ring_enqueue_ready [simp]: "ring_ok c \<Longrightarrow> ring_ok (enqueue_ready i c)"
  by (rule ring_enqueue) (rule ring_but_ok)

lemma ring_queue_ok: "ring_ok c \<Longrightarrow> c_get i c = Some s \<Longrightarrow> [] \<notin> set (st_send_queue s)"
  by (simp add: ring_ok_def stream_ring_ok_def)

lemma ring_release_conn_window [simp]: "ring_ok c \<Longrightarrow> ring_ok (snd (release_conn_window n c))"
  by (simp add: release_conn_window_def Let_def split: prod.split option.split)

lemma ring_release_recv_window [simp]:
  assumes "ring_ok c"
  shows "ring_ok (snd (release_recv_window i n c))"
proof (cases "n = 0")
  case False
  have aux: "ring_ok (snd (and_then (case inc of None \<Rightarrow> (Inr (), c1)
        | Some k \<Rightarrow> queue_frame (WindowUpdate i (word_of_nat k)) c1)
       (\<lambda>_ c2. and_then (if c_get i c2 \<noteq> None then release_conn_window n c2 else (Inr (), c2))
          (\<lambda>_. drain_reclaimed))))"
    if "ring_ok c1" for inc and c1 :: "'a conn"
  proof (rule ring_then)
    show "ring_ok (snd (case inc of None \<Rightarrow> (Inr (), c1)
        | Some k \<Rightarrow> queue_frame (WindowUpdate i (word_of_nat k)) c1))"
      using that by (simp split: option.split)
  next
    fix a and c2 :: "'a conn" assume c2: "ring_ok c2"
    show "ring_ok (snd (and_then (if c_get i c2 \<noteq> None then release_conn_window n c2 else (Inr (), c2))
          (\<lambda>_. drain_reclaimed)))"
      by (rule ring_then) (simp_all add: c2)
  qed
  show ?thesis
  proof (cases "c_get i c")
    case None
    then show ?thesis using False aux [OF assms, of None] by (simp add: release_recv_window_def)
  next
    case (Some s)
    obtain inc w where rel: "recv_release n (st_recv_window s) = (inc, w)"
      by (cases "recv_release n (st_recv_window s)")
    have "ring_ok (c_put i (s\<lparr>st_pending_conn_release := st_pending_conn_release s - n, st_recv_window := w\<rparr>) c)"
      by (rule ring_put [OF assms Some]) simp
    from aux [OF this, of inc] False show ?thesis by (simp add: release_recv_window_def Some rel)
  qed
qed (simp add: release_recv_window_def assms)

lemma ring_encode_block [simp]: "ring_ok (snd (encode_block hs c)) = ring_ok c"
  by (simp add: encode_block_def split: prod.split)

lemma ring_mark_started [simp]: "ring_ok c \<Longrightarrow> ring_ok (mark_started i c)"
  by (auto simp: mark_started_def intro: ring_put split: option.split)

lemma ring_send_response [simp]:
  assumes "ring_ok c"
  shows "ring_ok (snd (send_response S i resp es c))"
proof -
  obtain block c1 where e: "encode_block (response_to_headers resp) c = (block, c1)"
    by (cases "encode_block (response_to_headers resp) c")
  have "ring_ok c1" using ring_encode_block [of "response_to_headers resp" c] e assms by simp
  then show ?thesis unfolding send_response_def e prod.case by - (rule ring_then, simp_all)
qed

lemma ring_send_trailers [simp]:
  assumes "ring_ok c"
  shows "ring_ok (snd (send_trailers S i flds c))"
proof -
  obtain block c1 where e: "encode_block flds c = (block, c1)" by (cases "encode_block flds c")
  have c1: "ring_ok c1" using ring_encode_block [of flds c] e assms by simp
  have sent: "ring_ok (snd (and_then (queue_frame (Headers i block True True) c1)
      (\<lambda>_. apply_stream_event S i (SendHeaders True))))"
    by (rule ring_then) (simp_all add: c1)
  show ?thesis
  proof (cases "c_get i c")
    case None
    then show ?thesis using sent assms by (simp add: send_trailers_def e)
  next
    case (Some s)
    have "ring_ok (enqueue_ready i (c_put i (s\<lparr>st_send_end_stream := True\<rparr>) c))"
      "ring_ok (enqueue_ready i (c_put i (s\<lparr>st_pending_trailers := Some flds, st_send_end_stream := True\<rparr>) c))"
      using ring_queue_ok [OF assms Some] by (auto intro!: ring_enqueue ring_but_put [OF assms Some])
    then show ?thesis using sent Some by (simp add: send_trailers_def e)
  qed
qed

text \<open>A stream just opened has nothing to send.\<close>

lemma ring_open:
  assumes "ring_ok c" "open_peer i (c_streams c) = (r, t)"
  shows "ring_ok (c\<lparr>c_streams := t\<rparr>)"
proof -
  have g: "c_get j (c\<lparr>c_streams := t\<rparr>) = Some s' \<Longrightarrow> c_get j c = Some s' \<or>
      st_send_queue s' = [] \<and> \<not> has_pending_send s' \<and> \<not> st_queued s'" for j s'
    using assms(2)
    by (auto simp: open_peer_def insert_new_def Let_def c_get_def get_stream_def stream_new_def
        has_pending_send_def split: if_splits)
  show ?thesis
    using assms(1) unfolding ring_ok_def by (auto dest!: g simp: stream_ring_ok_def)
qed

lemma ring_reject_stream [simp]:
  assumes "ring_ok c"
  shows "ring_ok (snd (reject_stream S i st c))"
proof -
  obtain r t where o: "open_peer i (c_streams c) = (r, t)" by (cases "open_peer i (c_streams c)")
  note t = ring_open [OF assms o]
  have "ring_ok (snd (and_then (apply_stream_event S i (RecvHeaders True) (c\<lparr>c_streams := t\<rparr>))
          (\<lambda>_. send_response S i (response_status st) True)))"
    by (rule ring_then) (simp_all add: t)
  then show ?thesis
    using assms t by (simp add: reject_stream_def o split: sum.split open_rejection.split)
qed

lemma ring_recv_trailers [simp]: "ring_ok c \<Longrightarrow> ring_ok (snd (recv_trailers S i s hs es c))"
  by (simp add: recv_trailers_def split: sum.split option.split)

lemma ring_dispatch_request [simp]:
  assumes "ring_ok c"
  shows "ring_ok (snd (dispatch_request S now i hs es c))"
proof (cases "request_from_headers hs")
  case (Inr request)
  define c1 where "c1 = (case (request_content_length request, c_get i c) of
      (Some (Inr n), Some s) \<Rightarrow> c_put i (s\<lparr>st_content_length := Some n\<rparr>) c | _ \<Rightarrow> c)"
  have c1: "ring_ok c1" using assms by (auto simp: c1_def intro: ring_put split: option.split sum.split)
  show ?thesis
  proof (cases "\<exists>code. request_content_length request = Some (Inl code)")
    case True
    then show ?thesis using Inr assms by (auto simp: dispatch_request_def)
  next
    case False
    then have "dispatch_request S now i hs es c =
        (case (if es then request_body_error i c1 else None) of
           Some code \<Rightarrow> write_rst_stream S i code c1
         | None \<Rightarrow> (Inr (), notify S (SvDispatch i request es)
             (c1\<lparr>c_summary := (c_summary c1)\<lparr>cs_requests_dispatched := cs_requests_dispatched (c_summary c1) + 1\<rparr>,
                 c_last_stream_at := now\<rparr>)))"
      using Inr by (auto simp: dispatch_request_def c1_def Let_def split: option.splits sum.splits)
    then show ?thesis using c1 by (simp split: option.split)
  qed
qed (use assms in \<open>simp add: dispatch_request_def\<close>)

lemma ring_recv_request [simp]:
  assumes "ring_ok c"
  shows "ring_ok (snd (recv_request S now i hs es c))"
proof -
  obtain r t where o: "open_peer i (c_streams c) = (r, t)" by (cases "open_peer i (c_streams c)")
  note t = ring_open [OF assms o]
  have opened: "ring_ok (snd (and_then (apply_stream_event S i (RecvHeaders es) (c\<lparr>c_streams := t\<rparr>))
          (\<lambda>_. dispatch_request S now i hs es)))"
    by (rule ring_then) (simp_all add: t)
  show ?thesis
  proof (cases "c_get i c")
    case (Some s)
    then show ?thesis using assms by (simp add: recv_request_def)
  next
    case None
    show ?thesis
    proof (cases "lookup_stream i (c_streams c) = LookupClosed \<or> drain_committed c")
      case True
      then show ?thesis using None assms by (auto simp: recv_request_def)
    next
      case False
      then have eq: "recv_request S now i hs es c = (case (r, t) of
               (Inl (RejectProtocol why), t) \<Rightarrow> (Inl (ConnectionError ProtocolError), c\<lparr>c_streams := t\<rparr>)
             | (Inl Refused, t) \<Rightarrow> write_rst_stream S i RefusedStream (c\<lparr>c_streams := t\<rparr>)
             | (Inr s, t) \<Rightarrow> and_then (apply_stream_event S i (RecvHeaders es) (c\<lparr>c_streams := t\<rparr>))
                 (\<lambda>_. dispatch_request S now i hs es))"
        using None by (simp add: recv_request_def o)
      show ?thesis
      proof (cases r)
        case (Inl x)
        then show ?thesis by (cases x) (simp_all add: eq t)
      next
        case (Inr s)
        then show ?thesis using opened by (simp add: eq)
      qed
    qed
  qed
qed

lemma ring_decode_block [simp]:
  assumes "ring_ok c"
  shows "ring_ok (snd (decode_block S now i block c))"
proof -
  obtain r d where h: "hpack_decode block (c_hpack_dec c) = (r, d)" by (cases "hpack_decode block (c_hpack_dec c)")
  show ?thesis using assms by (simp add: decode_block_def h split: sum.split hpack_error.split)
qed

lemma ring_check_verdict [simp]: "ring_ok (snd (check_verdict v c)) = ring_ok c"
  by (simp add: check_verdict_def split: option.split)

lemma ring_read_header_block [simp]: "ring_ok c \<Longrightarrow> ring_ok (snd (read_header_block S now i fragment e c))"
  by (simp add: read_header_block_def Let_def split: prod.split)

lemma ring_recv_live_data [simp]:
  assumes "ring_ok c" "c_get i c = Some s"
  shows "ring_ok (snd (recv_live_data S i s data es c))"
proof -
  let ?len = "as_u32 (length data)"
  obtain r sw where rec: "recv_record ?len (st_recv_window s) = (r, sw)"
    by (cases "recv_record ?len (st_recv_window s)")
  let ?c1 = "c_put i (s\<lparr>st_data_received := sat_add_u64 (st_data_received s) ?len,
                     st_pending_conn_release := sat_add_u32 (st_pending_conn_release s) ?len,
                     st_recv_window := sw\<rparr>) c"
  have c1: "ring_ok ?c1" by (rule ring_put [OF assms]) simp
  have b: "ring_ok (snd (and_then (apply_stream_event S i (RecvData es) ?c1) (\<lambda>_ c2.
      drain_reclaimed (if data \<noteq> [] \<or> es then notify S (SvBody i data es) c2 else c2))))"
    by (rule ring_then) (simp_all add: c1)
  show ?thesis
  proof (cases r)
    case (Inl code)
    then show ?thesis using c1 by (simp add: recv_live_data_def rec Let_def)
  next
    case (Inr u)
    show ?thesis
      using b c1 by (cases "if es then request_body_error i ?c1 else None")
        (simp_all add: recv_live_data_def rec Let_def Inr)
  qed
qed

lemma ring_recv_data [simp]:
  assumes "ring_ok c"
  shows "ring_ok (snd (recv_data S i data es c))"
proof -
  obtain v g where g: "on_data (length data) es (c_guard c) = (v, g)" by (cases "on_data (length data) es (c_guard c)")
  show ?thesis
    unfolding recv_data_def g prod.case
  proof (rule ring_then)
    fix a and c1 :: "'a conn" assume c1: "ring_ok c1"
    obtain r w where r: "recv_record (as_u32 (length data)) (c_conn_recv_window c1) = (r, w)"
      by (cases "recv_record (as_u32 (length data)) (c_conn_recv_window c1)")
    show "ring_ok (snd (case recv_record (as_u32 (length data)) (c_conn_recv_window c1) of (r, w) \<Rightarrow>
      and_then (map_code r, c1\<lparr>c_conn_recv_window := w\<rparr>) (\<lambda>_ c2.
      case lookup_stream i (c_streams c2) of
        LookupLive s \<Rightarrow> recv_live_data S i s data es c2
      | LookupClosed \<Rightarrow>
          and_then (release_conn_window (as_u32 (length data)) c2) (\<lambda>_. write_rst_stream S i StreamClosed)
      | LookupIdle \<Rightarrow> (Inl (ConnectionError ProtocolError), c2))))"
      unfolding r prod.case
    proof (rule ring_then)
      fix a and c2 :: "'a conn" assume c2: "ring_ok c2"
      have "ring_ok (snd (and_then (release_conn_window (as_u32 (length data)) c2)
          (\<lambda>_. write_rst_stream S i StreamClosed)))"
        by (rule ring_then) (simp_all add: c2)
      then show "ring_ok (snd (case lookup_stream i (c_streams c2) of
        LookupLive s \<Rightarrow> recv_live_data S i s data es c2
      | LookupClosed \<Rightarrow>
          and_then (release_conn_window (as_u32 (length data)) c2) (\<lambda>_. write_rst_stream S i StreamClosed)
      | LookupIdle \<Rightarrow> (Inl (ConnectionError ProtocolError), c2)))"
        using lookup_live [of i "c_streams c2"]
        by (auto simp: c2 c_get_def split: lookup_result.split intro!: ring_recv_live_data)
    qed (simp add: c1)
  qed (simp add: assms)
qed

lemma ring_recv_rst_stream [simp]:
  assumes "ring_ok c"
  shows "ring_ok (snd (recv_rst_stream S now i code c))"
proof (cases "lookup_stream i (c_streams c)")
  case (LookupLive s)
  obtain v g where g: "on_reset (st_response_started s) now (c_guard c) = (v, g)"
    by (cases "on_reset (st_response_started s) now (c_guard c)")
  have "ring_ok (snd (and_then (check_verdict v (c\<lparr>c_guard := g\<rparr>)) (\<lambda>_ c1.
      drain_reclaimed (notify S (SvCancel i code) (retire_and_unqueue i (count_reset c1))))))"
    by (rule ring_then) (simp_all add: assms)
  then show ?thesis by (simp add: recv_rst_stream_def LookupLive g)
qed (simp_all add: recv_rst_stream_def assms)

lemma ring_recv_window_update [simp]:
  assumes "ring_ok c"
  shows "ring_ok (snd (recv_window_update S i n c))"
proof -
  have live: "ring_ok (c_put i (s\<lparr>st_send_window := w\<rparr>) c)" if "lookup_stream i (c_streams c) = LookupLive s" for s w
    using that by (intro ring_put [OF assms, of i s]) (simp_all add: c_get_def lookup_live)
  show ?thesis
    using assms live by (auto simp: recv_window_update_def Let_def split: prod.split lookup_result.split)
qed

lemma ring_resized:
  assumes "ring_ok c" "apply_initial_window_delta d (c_streams c) = (r, t)"
  shows "ring_ok (c\<lparr>c_streams := t\<rparr>)"
proof (rule ring_streams [OF assms(1)])
  have "map_of (snd (delta_streams d al)) i = Some s' \<Longrightarrow> \<exists>s. map_of al i = Some s \<and> same_ring s s'" for al i s'
    by (induction d al rule: delta_streams.induct) (auto split: prod.splits sum.splits if_splits)
  then show "\<exists>s. c_get i c = Some s \<and> same_ring s s'" if "get_stream i t = Some s'" for i s'
    using that assms(2) by (auto simp: get_stream_def c_get_def apply_initial_window_delta_def split: prod.splits)
qed

lemma ring_peer_settings: "ring_ok c \<Longrightarrow> settings_legal s \<Longrightarrow> ring_ok (c\<lparr>c_peer_settings := s\<rparr>)"
  by (simp add: ring_ok_def c_get_def)

lemma ring_settings_legal: "ring_ok c \<Longrightarrow> settings_legal (c_peer_settings c)"
  by (simp add: ring_ok_def)

lemma ring_recv_settings [simp]:
  assumes "ring_ok c"
  shows "ring_ok (snd (recv_settings params c))"
proof -
  obtain r s where a: "settings_apply params (c_peer_settings c) = (r, s)"
    by (cases "settings_apply params (c_peer_settings c)")
  have s: "settings_legal s" using settings_apply_legal [OF ring_settings_legal [OF assms], of params] a by simp
  show ?thesis
    unfolding recv_settings_def a prod.case Let_def
  proof (rule ring_then)
    show "ring_ok (snd (r, c\<lparr>c_peer_settings := s\<rparr>))" using ring_peer_settings [OF assms s] by simp
  next
    fix u and c1 :: "'a conn" assume c1: "ring_ok c1"
    let ?c2 = "c1\<lparr>c_hpack_enc := set_max_table_size (unat (header_table_size (c_peer_settings c1))) (c_hpack_enc c1)\<rparr>"
    let ?d = "int (unat (initial_window_size (c_peer_settings ?c2))) - int (unat (initial_window_size (c_peer_settings c)))"
    obtain r t where d: "apply_initial_window_delta (as_i32 ?d) (c_streams ?c2) = (r, t)"
      by (cases "apply_initial_window_delta (as_i32 ?d) (c_streams ?c2)")
    have c2: "ring_ok ?c2" using c1 by simp
    have t: "ring_ok (?c2\<lparr>c_streams := t\<rparr>)" by (rule ring_resized [OF c2 d])
    show "ring_ok (snd (and_then
           (if ?d \<noteq> 0 then
              (case apply_initial_window_delta (as_i32 ?d) (c_streams ?c2) of
                 (r, t) \<Rightarrow> (map_code r, ?c2\<lparr>c_streams := t\<rparr>))
            else (Inr (), ?c2))
           (\<lambda>_ c3. and_then (write_settings_ack c3)
              (\<lambda>_ c4. (Inr (), c4\<lparr>c_summary := (c_summary c4)\<lparr>cs_handshake_completed := True\<rparr>\<rparr>)))))"
      unfolding d prod.case
    proof (rule ring_then)
      fix u and c3 :: "'a conn" assume c3: "ring_ok c3"
      show "ring_ok (snd (and_then (write_settings_ack c3)
          (\<lambda>_ c4. (Inr (), c4\<lparr>c_summary := (c_summary c4)\<lparr>cs_handshake_completed := True\<rparr>\<rparr>))))"
        by (rule ring_then) (simp_all add: write_settings_ack_def c3)
    qed (use t c2 in simp)
  qed
qed

lemma ring_recv_settings_ack [simp]: "ring_ok c \<Longrightarrow> ring_ok (recv_settings_ack c)"
  unfolding recv_settings_ack_def Let_def
  by (auto intro!: ring_streams)  (auto simp: c_get_def)

lemma ring_frame_action [simp]: "ring_ok c \<Longrightarrow> ring_ok (snd (frame_action S now f c))"
proof -
  have k: "snd (and_then r (\<lambda>u c. (Inr Continue, c))) = snd r" for r :: "('a conn, connection_error, unit) outcome"
    by (cases r; cases "fst r") (simp_all add: and_then_def)
  assume "ring_ok c"
  then show ?thesis by (cases f) (simp_all add: k)
qed

lemma ring_handle_frame [simp]:
  assumes "ring_ok c"
  shows "ring_ok (snd (handle_frame S now f c))"
proof (cases "block_order_ok f c")
  case True
  have "handle_frame S now f c = and_then
          (if is_control f
           then (case on_control_frame now (c_guard c) of (v, g) \<Rightarrow> check_verdict v (c\<lparr>c_guard := g\<rparr>))
           else (Inr (), c))
          (\<lambda>_ c0. let c1 = c0\<lparr>c_received := c_received c0 @ [f]\<rparr> in and_then (frame_action S now f c1)
             (\<lambda>next c2. (Inr next,
                if next = Close then c2
                else c2\<lparr>c_open_header_block := block_after f (c_open_header_block c2)\<rparr>)))"
    using True by (simp add: handle_frame_def)
  then show ?thesis
  proof (elim ssubst, intro ring_then)
    show "ring_ok (snd (if is_control f
           then (case on_control_frame now (c_guard c) of (v, g) \<Rightarrow> check_verdict v (c\<lparr>c_guard := g\<rparr>))
           else (Inr (), c)))"
      using assms by (simp split: prod.split)
  next
    fix u and c0 :: "'a conn" assume c0: "ring_ok c0"
    show "ring_ok (snd (let c1 = c0\<lparr>c_received := c_received c0 @ [f]\<rparr> in and_then (frame_action S now f c1)
             (\<lambda>next c2. (Inr next,
                if next = Close then c2
                else c2\<lparr>c_open_header_block := block_after f (c_open_header_block c2)\<rparr>))))"
      unfolding Let_def by (rule ring_then) (simp_all add: c0)
  qed
qed (simp add: handle_frame_def assms)

lemma ring_deliver_event [simp]:
  assumes "ring_ok c"
  shows "ring_ok (snd (deliver_event S ev c))"
proof (cases ev)
  case (EvData i data es)
  show ?thesis
  proof (cases "c_get i c")
    case (Some s)
    have "ring_ok (enqueue_ready i (c_put i
        (s\<lparr>st_send_queue := (if data = [] then st_send_queue s else st_send_queue s @ [data]),
           st_send_end_stream := (if es then True else st_send_end_stream s)\<rparr>) c))"
      using ring_queue_ok [OF assms Some] by (intro ring_enqueue ring_but_put [OF assms Some]) auto
    then show ?thesis by (simp add: EvData Some)
  qed (simp add: EvData assms)
qed (simp_all add: abandon_def assms split: option.split)

lemma ring_handle_service_event [simp]: "ring_ok c \<Longrightarrow> ring_ok (snd (handle_service_event S ev c))"
  by (simp add: handle_service_event_def Let_def split: prod.split option.split)

lemma ring_take_event [simp]: "ring_ok c \<Longrightarrow> ring_ok (snd (take_event S c))"
  by (simp add: take_event_def split: list.split)

lemma ring_sync_admission [simp]:
  assumes "ring_ok c"
  shows "ring_ok (snd (sync_admission want c))"
proof -
  let ?c1 = "c\<lparr>c_advertised_streams := want,
                   c_local_settings := (c_local_settings c)\<lparr>max_concurrent_streams := Some want\<rparr>,
                   c_outstanding_settings := sat_add_u32 (c_outstanding_settings c) 1\<rparr>"
  have "ring_ok (?c1\<lparr>c_enforced_streams := want,
                          c_streams := set_max_concurrent (unat want) (c_streams ?c1)\<rparr>)"
    by (rule ring_streams) (use assms in \<open>auto simp: c_get_def\<close>)
  then show ?thesis using assms by (simp add: sync_admission_def Let_def)
qed

lemma ring_begin_drain [simp]: "ring_ok c \<Longrightarrow> ring_ok (snd (begin_drain now c))"
  by (simp add: begin_drain_def)

lemma ring_advance_drain [simp]:
  assumes "ring_ok c"
  shows "ring_ok (snd (advance_drain now fired c))"
proof (cases "c_draining c")
  case (Some d)
  have eq: "advance_drain now fired c = and_then
      (if committed d = None \<and> (fired \<or> now \<ge> commit_at d) then
         and_then (queue_frame (GoAway (highest_peer_id (c_streams c)) NoError []) c)
           (\<lambda>_ c1. (Inr (), c1\<lparr>c_draining := Some (d\<lparr>committed := Some (highest_peer_id (c_streams c))\<rparr>),
                             c_summary := (c_summary c1)\<lparr>cs_drained := True\<rparr>\<rparr>))
       else (Inr (), c))
      (\<lambda>_ c1. (case c_draining c1 of
                  None \<Rightarrow> (Inr True, c1)
                | Some d1 \<Rightarrow>
                    (Inr (\<not> (committed d1 \<noteq> None
                             \<and> (live_count (c_streams c1) = 0 \<or> now \<ge> deadline_at d1))), c1)))"
    by (simp only: advance_drain_def Some option.case Let_def)
  have "ring_ok (snd (and_then (queue_frame (GoAway (highest_peer_id (c_streams c)) NoError []) c)
           (\<lambda>_ c1. (Inr (), c1\<lparr>c_draining := Some (d\<lparr>committed := Some (highest_peer_id (c_streams c))\<rparr>),
                             c_summary := (c_summary c1)\<lparr>cs_drained := True\<rparr>\<rparr>))))"
    by (rule ring_then) (simp_all add: assms)
  then show ?thesis
    unfolding eq by - (rule ring_then, use assms in \<open>simp_all split: option.split\<close>)
qed (simp add: advance_drain_def assms)

subsection \<open>One visit of the sender\<close>

text \<open>During a lap only the streams of \<open>R\<close> (still to visit, found stalled, or to come back) may have
  something to send.\<close>

definition lap_ok :: "stream_id set \<Rightarrow> 'v conn \<Rightarrow> bool" where
  "lap_ok R c \<longleftrightarrow> settings_legal (c_peer_settings c) \<and>
     (\<forall>i s. c_get i c = Some s \<longrightarrow> [] \<notin> set (st_send_queue s)
        \<and> (has_pending_send s \<or> st_queued s \<longrightarrow> i \<in> R))"

definition blocked :: "stream_id \<Rightarrow> 'v conn \<Rightarrow> bool" where
  "blocked i c \<longleftrightarrow> (\<exists>s. c_get i c = Some s \<and> pending_send s > 0 \<and> visit_budget s c = 0)"

text \<open>While a stream is visited it is marked only when it has something to send.\<close>

definition visit_ok :: "stream_id \<Rightarrow> stream_id set \<Rightarrow> 'v conn \<Rightarrow> bool" where
  "visit_ok i R c \<longleftrightarrow> lap_ok R c \<and> i \<in> R \<and> (\<forall>s. c_get i c = Some s \<longrightarrow> st_queued s \<longrightarrow> has_pending_send s)"

lemma visit_updates [simp]:
  "visit_ok i R (c\<lparr>c_out := x1\<rparr>) = visit_ok i R c"
  "visit_ok i R (c\<lparr>c_frames := x2\<rparr>) = visit_ok i R c"
  "visit_ok i R (c\<lparr>c_hpack_enc := x3\<rparr>) = visit_ok i R c"
  "visit_ok i R (c\<lparr>c_conn_send_window := x4\<rparr>) = visit_ok i R c"
  "visit_ok i R (c\<lparr>c_conn_recv_window := x5\<rparr>) = visit_ok i R c"
  "visit_ok i R (c\<lparr>c_ready := x6\<rparr>) = visit_ok i R c"
  "visit_ok i R (c\<lparr>c_pending_reset := x7\<rparr>) = visit_ok i R c"
  "visit_ok i R (c\<lparr>c_service := x8\<rparr>) = visit_ok i R c"
  "visit_ok i R (c\<lparr>c_events := x9\<rparr>) = visit_ok i R c"
  "visit_ok i R (c\<lparr>c_summary := x10\<rparr>) = visit_ok i R c"
  "visit_ok i R (c\<lparr>c_calls := x11\<rparr>) = visit_ok i R c"
  by (simp_all add: visit_ok_def lap_ok_def c_get_def)

lemma same_ring_pending: "same_ring s s' \<Longrightarrow> has_pending_send s' = has_pending_send s"
  by (simp add: same_ring_def has_pending_send_def)

lemma visit_streams:
  assumes "visit_ok i R c"
    "\<And>j s'. get_stream j t = Some s' \<Longrightarrow> \<exists>s. c_get j c = Some s \<and> same_ring s s'"
  shows "visit_ok i R (c\<lparr>c_streams := t\<rparr>)"
proof -
  have g: "\<exists>s. c_get j c = Some s \<and> st_send_queue s' = st_send_queue s
      \<and> has_pending_send s' = has_pending_send s \<and> st_queued s' = st_queued s"
    if "c_get j (c\<lparr>c_streams := t\<rparr>) = Some s'" for j s'
  proof -
    from that have "get_stream j t = Some s'" by (simp add: c_get_def)
    then obtain s where s: "c_get j c = Some s" "same_ring s s'" using assms(2) by blast
    have "st_send_queue s' = st_send_queue s" "st_queued s' = st_queued s"
      using s(2) by (simp_all add: same_ring_def)
    then show ?thesis using s(1) same_ring_pending [OF s(2)] by simp
  qed
  show ?thesis
    unfolding visit_ok_def lap_ok_def
  proof (intro conjI allI impI)
    show "settings_legal (c_peer_settings (c\<lparr>c_streams := t\<rparr>))" "i \<in> R"
      using assms(1) by (simp_all add: visit_ok_def lap_ok_def)
  next
    fix j s' assume s': "c_get j (c\<lparr>c_streams := t\<rparr>) = Some s'"
    then obtain s where s: "c_get j c = Some s" "st_send_queue s' = st_send_queue s"
        "has_pending_send s' = has_pending_send s" "st_queued s' = st_queued s"
      using g by blast
    show "[] \<notin> set (st_send_queue s')" using assms(1) s by (auto simp: visit_ok_def lap_ok_def)
    show "j \<in> R" if "has_pending_send s' \<or> st_queued s'"
      using assms(1) s that by (auto simp: visit_ok_def lap_ok_def)
  next
    fix s' assume "c_get i (c\<lparr>c_streams := t\<rparr>) = Some s'" "st_queued s'"
    then show "has_pending_send s'" using g [of i s'] assms(1) by (auto simp: visit_ok_def)
  qed
qed

lemma visit_put:
  assumes "visit_ok i R c" "[] \<notin> set (st_send_queue s)" "st_queued s \<longrightarrow> has_pending_send s"
  shows "visit_ok i R (c_put i s c)"
  using assms unfolding visit_ok_def lap_ok_def c_get_put by (auto simp: c_put_def)

lemma visit_then:
  assumes "visit_ok i R (snd r)" "\<And>a c1. r = (Inr a, c1) \<Longrightarrow> visit_ok i R c1 \<Longrightarrow> visit_ok i R (snd (f a c1))"
  shows "visit_ok i R (snd (and_then r f))"
  using assms by (cases r; cases "fst r") (auto simp: and_then_def)

lemma visit_queue_frame [simp]: "visit_ok i R (snd (queue_frame f c)) = visit_ok i R c"
  by (cases rule: queue_frame_cases [of f c]) simp_all

lemma visit_notify [simp]: "visit_ok i R (notify S call c) = visit_ok i R c"
  by (simp add: notify_def split: prod.split)

lemma visit_retire [simp]: "visit_ok i R c \<Longrightarrow> visit_ok i R (retire_and_unqueue j c)"
proof -
  assume "visit_ok i R c"
  then have "visit_ok i R (c\<lparr>c_streams := retire j (c_streams c)\<rparr>)"
    by (rule visit_streams) (auto simp: get_retire c_get_def split: if_splits)
  then show ?thesis by (simp add: retire_and_unqueue_def)
qed

lemma visit_drain_reclaimed [simp]:
  assumes "visit_ok i R c"
  shows "visit_ok i R (snd (drain_reclaimed c))"
proof -
  have "visit_ok i R (c\<lparr>c_streams := (c_streams c)\<lparr>reclaimed := 0\<rparr>\<rparr>)"
    by (rule visit_streams [OF assms]) (auto simp: c_get_def)
  then show ?thesis by (simp add: drain_reclaimed_def take_reclaimed_eq Let_def split: prod.split option.split)
qed

lemma visit_apply_stream_event [simp]:
  assumes "visit_ok i R c"
  shows "visit_ok i R (snd (apply_stream_event S j e c))"
proof -
  obtain r t where a: "apply_event j e (c_streams c) = (r, t)" by (cases "apply_event j e (c_streams c)")
  have t: "visit_ok i R (c\<lparr>c_streams := t\<rparr>)"
  proof (rule visit_streams [OF assms])
    fix k s' assume "get_stream k t = Some s'"
    then show "\<exists>s. c_get k c = Some s \<and> same_ring s s'"
      using get_apply_event [of k j e "c_streams c" s'] a by (auto simp: c_get_def)
  qed
  then show ?thesis by (cases r) (simp_all add: apply_stream_event_def a Let_def)
qed

lemma visit_start:
  assumes "lap_ok R c" "i \<in> R" "[] \<notin> set (st_send_queue s)" "st_queued s \<longrightarrow> has_pending_send s"
  shows "visit_ok i R (c_put i s c)"
  using assms unfolding visit_ok_def lap_ok_def c_get_put by (auto simp: c_put_def)

lemma visit_spend_windows:
  assumes "lap_ok R c" "i \<in> R" "[] \<notin> set (st_send_queue s)" "st_queued s \<longrightarrow> has_pending_send s"
  shows "visit_ok i R (snd (spend_windows n i s c))"
proof -
  obtain r w where w: "consume n (st_send_window s) = (r, w)" by (cases "consume n (st_send_window s)")
  have p: "visit_ok i R (c_put i (s\<lparr>st_send_window := w\<rparr>) c)"
    using assms by (intro visit_start) (simp_all add: has_pending_send_def)
  have "visit_ok i R (snd (and_then (map_code r, c_put i (s\<lparr>st_send_window := w\<rparr>) c)
      (\<lambda>_ c1. case consume n (c_conn_send_window c1) of (r, w) \<Rightarrow>
         (map_code r, c1\<lparr>c_conn_send_window := w\<rparr>))))"
    by (rule visit_then) (simp_all add: p split: prod.split)
  then show ?thesis using visit_start [OF assms] by (simp add: spend_windows_def w)
qed

lemma visit_write_data:
  assumes "visit_ok i R c"
  shows "visit_ok i R (snd (write_data S i chunk es c))"
proof -
  have "visit_ok i R (snd (and_then (queue_frame (Data i chunk es) c)
      (\<lambda>_ c1. apply_stream_event S i (SendData es) (count_sent (length chunk) c1))))"
    by (rule visit_then) (simp_all add: assms count_sent_def)
  then show ?thesis using assms by (simp add: write_data_def)
qed

lemma visit_enqueue:
  assumes "visit_ok i R c"
  shows "visit_ok i R (enqueue_ready i c)"
proof (cases "\<exists>s. c_get i c = Some s \<and> \<not> st_queued s \<and> has_pending_send s")
  case True
  then obtain s where g: "c_get i c = Some s" "\<not> st_queued s" "has_pending_send s" by blast
  have "visit_ok i R (c_put i (s\<lparr>st_queued := True\<rparr>) c)"
    using assms g by (intro visit_put) (auto simp: visit_ok_def lap_ok_def has_pending_send_def)
  then show ?thesis using g by (simp add: enqueue_ready_def)
next
  case False
  then have "enqueue_ready i c = c" by (auto simp: enqueue_ready_def split: option.split)
  then show ?thesis using assms by simp
qed

lemma visit_encode_block [simp]: "visit_ok i R (snd (encode_block hs c)) = visit_ok i R c"
  by (simp add: encode_block_def split: prod.split)

lemma visit_send_trailers:
  assumes "visit_ok i R c"
  shows "visit_ok i R (snd (send_trailers S i flds c))"
proof -
  obtain block c1 where e: "encode_block flds c = (block, c1)" by (cases "encode_block flds c")
  have c1: "visit_ok i R c1" using visit_encode_block [of i R flds c] e assms by simp
  have sent: "visit_ok i R (snd (and_then (queue_frame (Headers i block True True) c1)
      (\<lambda>_. apply_stream_event S i (SendHeaders True))))"
    by (rule visit_then) (simp_all add: c1)
  show ?thesis
  proof (cases "c_get i c")
    case None
    then show ?thesis using sent assms visit_enqueue [OF assms] by (simp add: send_trailers_def e)
  next
    case (Some s)
    have q: "[] \<notin> set (st_send_queue s)" using assms Some by (auto simp: visit_ok_def lap_ok_def)
    have "visit_ok i R (enqueue_ready i (c_put i (s\<lparr>st_send_end_stream := True\<rparr>) c))"
      "visit_ok i R (enqueue_ready i (c_put i (s\<lparr>st_pending_trailers := Some flds, st_send_end_stream := True\<rparr>) c))"
      using q by (auto intro!: visit_enqueue visit_put assms simp: has_pending_send_def)
    then show ?thesis using sent Some by (simp add: send_trailers_def e)
  qed
qed

lemma visit_emit_ok:
  assumes "lap_ok R c" "i \<in> R" "[] \<notin> set (st_send_queue s)" "st_queued s \<longrightarrow> has_pending_send s"
  shows "visit_ok i R (snd (visit_emit S i chunk es trailers s c))"
  unfolding visit_emit_def
proof (rule visit_then)
  show "visit_ok i R (snd (spend_windows (length chunk) i s c))" by (rule visit_spend_windows [OF assms])
next
  fix a and c1 :: "'a conn" assume c1: "visit_ok i R c1"
  show "visit_ok i R (snd (and_then (write_data S i chunk es c1) (\<lambda>_ c2.
     let c3 = (if length chunk > 0 then notify S (SvReleased i (length chunk)) c2 else c2) in
     and_then (case trailers of None \<Rightarrow> (Inr (), c3) | Some flds \<Rightarrow> send_trailers S i flds c3)
       (\<lambda>_ c4. (Inr (Wrote (case c_get i c4 of None \<Rightarrow> False | Some s' \<Rightarrow> has_pending_send s')), c4)))))"
  proof (rule visit_then)
    show "visit_ok i R (snd (write_data S i chunk es c1))" by (rule visit_write_data [OF c1])
  next
    fix a and c2 :: "'a conn" assume c2: "visit_ok i R c2"
    show "visit_ok i R (snd (let c3 = (if length chunk > 0 then notify S (SvReleased i (length chunk)) c2 else c2) in
       and_then (case trailers of None \<Rightarrow> (Inr (), c3) | Some flds \<Rightarrow> send_trailers S i flds c3)
         (\<lambda>_ c4. (Inr (Wrote (case c_get i c4 of None \<Rightarrow> False | Some s' \<Rightarrow> has_pending_send s')), c4))))"
      unfolding Let_def
      by (rule visit_then) (use c2 in \<open>auto split: option.split intro!: visit_send_trailers\<close>)
  qed
qed

lemma visit_emit_reports:
  assumes "visit_emit S i chunk es trailers s c = (Inr v, c')"
  shows "v = Wrote (case c_get i c' of None \<Rightarrow> False | Some s' \<Rightarrow> has_pending_send s')"
  using assms by (auto simp: visit_emit_def Let_def elim!: and_then_Inr)

text \<open>What a visit takes leaves no empty chunk behind.\<close>

lemma take_from_queue_nonempty:
  "take_from_queue q b = (chunk, q') \<Longrightarrow> [] \<notin> set q \<Longrightarrow> [] \<notin> set q'"
  by (induction q b rule: take_from_queue.induct) (auto split: if_splits)

lemma visit_take_shape:
  assumes "visit_take s b = (chunk, es, trailers, s1)" "[] \<notin> set (st_send_queue s)"
  shows "[] \<notin> set (st_send_queue s1)" "st_queued s1 = st_queued s"
    "chunk = [] \<Longrightarrow> \<not> es \<Longrightarrow> trailers = None \<Longrightarrow> pending_send s = 0 \<or> b > 0 \<Longrightarrow> \<not> has_pending_send s1"
proof -
  obtain q where q: "take_from_queue (st_send_queue s) b = (chunk, q)"
    by (cases "take_from_queue (st_send_queue s) b") (use assms in \<open>auto simp: visit_take_def Let_def\<close>)
  show "[] \<notin> set (st_send_queue s1)" "st_queued s1 = st_queued s"
    using assms(1) take_from_queue_nonempty [OF q assms(2)] by (auto simp: visit_take_def q Let_def)
  assume c: "chunk = []" "\<not> es" "trailers = None" "pending_send s = 0 \<or> b > 0"
  have "st_send_queue s = []"
  proof (cases "st_send_queue s")
    case (Cons x xs)
    then have "x \<noteq> []" "pending_send s > 0" using assms(2) by (auto simp: pending_send_def)
    with c(4) have "b > 0" by simp
    then show ?thesis using q c(1) Cons \<open>x \<noteq> []\<close> by (auto split: if_splits)
  qed
  then have "q = []" using q by simp
  then show "\<not> has_pending_send s1"
    using assms(1) c by (auto simp: visit_take_def q Let_def has_pending_send_def split: if_splits)
qed

lemma lap_ok_shrink:
  assumes "lap_ok R c" "\<And>s. c_get i c = Some s \<Longrightarrow> \<not> has_pending_send s \<and> \<not> st_queued s"
  shows "lap_ok (R - {i}) c"
  using assms unfolding lap_ok_def by blast

lemma lap_ok_put:
  assumes "lap_ok R c" "i \<in> R" "[] \<notin> set (st_send_queue s)"
  shows "lap_ok R (c_put i s c)"
  using assms unfolding lap_ok_def c_get_put by (auto simp: c_put_def)

lemma visit_budget_put [simp]: "visit_budget s (c_put i s' c) = visit_budget s c"
  by (simp add: visit_budget_def c_put_def)

lemma blocked_other: "i \<noteq> j \<Longrightarrow> blocked j (c_put i s c) = blocked j c"
  by (simp add: blocked_def c_get_put)

lemma blocked_put:
  assumes "blocked j c" "c_get i c = Some s0" "pending_send s = pending_send s0"
    "st_send_window s = st_send_window s0"
  shows "blocked j (c_put i s c)"
proof (cases "j = i")
  case True
  then show ?thesis using assms by (simp add: blocked_def visit_budget_def) (simp add: c_put_def)
next
  case False
  then show ?thesis using assms(1) by (simp add: blocked_other)
qed

lemma visit_outcome:
  assumes "visit_ready_stream S i c = (Inr v, c')" "lap_ok R c" "i \<in> R"
  shows "(v = Stalled \<longrightarrow> lap_ok R c' \<and> blocked i c')
    \<and> (\<forall>again. v = Wrote again \<longrightarrow> lap_ok (if again then R else R - {i}) c')
    \<and> (v = VisitFinished \<longrightarrow> lap_ok (R - {i}) c')
    \<and> (v = Stalled \<or> v = VisitFinished \<longrightarrow> (\<forall>j. blocked j c \<longrightarrow> blocked j c'))"
proof -
  have queue: "[] \<notin> set (st_send_queue s)" if "c_get i c = Some s" for s
    using assms(2) that by (auto simp: lap_ok_def)
  show ?thesis
  proof (cases rule: visit_cases [of i c S])
    case gone
    then have "v = VisitFinished" "c' = c" using assms(1) by simp_all
    then show ?thesis using lap_ok_shrink [OF assms(2), of i] gone(1) by simp
  next
    case (stalled s)
    then have v: "v = Stalled" and c': "c' = c_put i (s\<lparr>st_queued := False\<rparr>) c" using assms(1) by simp_all
    have "lap_ok R c'" unfolding c' using queue [OF stalled(1)] by (intro lap_ok_put assms) simp
    moreover have "blocked j c'" if "blocked j c" for j
      unfolding c' using that stalled by (intro blocked_put) (simp_all add: pending_send_def)
    moreover have "blocked i c" using stalled by (simp add: blocked_def pending_send_def visit_budget_def)
    ultimately show ?thesis using v by simp
  next
    case (idle s s1)
    then have v: "v = VisitFinished" and c': "c' = c_put i s1 c" using assms(1) by simp_all
    note shape = visit_take_shape [OF idle(2)]
    have q: "[] \<notin> set (st_send_queue (s\<lparr>st_queued := False\<rparr>))" using queue [OF idle(1)] by simp
    have s1: "\<not> has_pending_send s1" "\<not> st_queued s1" "[] \<notin> set (st_send_queue s1)"
      using shape [OF q] idle(3) by (simp_all add: pending_send_def)
    have "lap_ok (R - {i}) c'"
      unfolding c' by (rule lap_ok_shrink [OF lap_ok_put]) (use assms s1 in \<open>simp_all\<close>)
    moreover have "blocked j c'" if "blocked j c" for j
    proof -
      have "i \<noteq> j" using that idle(1,3) by (auto simp: blocked_def)
      then show ?thesis using that unfolding c' by (simp add: blocked_other)
    qed
    ultimately show ?thesis using v by simp
  next
    case (emits s chunk es trailers s1)
    have q: "[] \<notin> set (st_send_queue (s\<lparr>st_queued := False\<rparr>))" using queue [OF emits(1)] by simp
    note s1 = visit_take_shape [OF emits(2) q]
    have em: "visit_emit S i chunk es trailers s1 c = (Inr v, c')" using emits(5) assms(1) by simp
    have v: "v = Wrote (case c_get i c' of None \<Rightarrow> False | Some s' \<Rightarrow> has_pending_send s')"
      by (rule visit_emit_reports [OF em])
    have c': "visit_ok i R c'"
      using visit_emit_ok [OF assms(2,3) s1(1), of S chunk es trailers] s1(2) em by simp
    then have "lap_ok R c'" by (simp add: visit_ok_def)
    moreover have "lap_ok (R - {i}) c'" if "v = Wrote False"
      using c' that v by (intro lap_ok_shrink) (auto simp: visit_ok_def split: option.splits)
    ultimately show ?thesis using v by auto
  qed
qed

subsection \<open>One lap\<close>

lemma lap_ok_mono: "lap_ok R c \<Longrightarrow> R \<subseteq> R' \<Longrightarrow> lap_ok R' c"
  unfolding lap_ok_def by blast

lemma lap_outcome:
  assumes "visit_lap S lap stalled served wrote c = (Inr (st, sv, w), c')"
    "lap_ok (set lap \<union> set stalled \<union> set served) c"
    "\<not> wrote \<Longrightarrow> \<forall>j \<in> set stalled. blocked j c"
    "\<not> wrote \<Longrightarrow> served = []"
  shows "lap_ok (set st \<union> set sv) c' \<and> (\<not> w \<longrightarrow> sv = [] \<and> (\<forall>j \<in> set st. blocked j c'))"
  using assms
proof (induction lap arbitrary: stalled served wrote c)
  case Nil
  then show ?case by simp
next
  case (Cons i lap)
  obtain v c1 where v: "visit_ready_stream S i c = (Inr v, c1)"
    and rest: "(case v of Stalled \<Rightarrow> visit_lap S lap (stalled @ [i]) served wrote
       | Wrote again \<Rightarrow> visit_lap S lap stalled (if again then served @ [i] else served) True
       | VisitFinished \<Rightarrow> visit_lap S lap stalled served wrote) c1 = (Inr (st, sv, w), c')"
    using Cons.prems(1) by (auto elim!: and_then_Inr)
  have out: "(v = Stalled \<longrightarrow> lap_ok (set (i # lap) \<union> set stalled \<union> set served) c1 \<and> blocked i c1)
      \<and> (\<forall>again. v = Wrote again \<longrightarrow> lap_ok (if again then set (i # lap) \<union> set stalled \<union> set served
            else set (i # lap) \<union> set stalled \<union> set served - {i}) c1)
      \<and> (v = VisitFinished \<longrightarrow> lap_ok (set (i # lap) \<union> set stalled \<union> set served - {i}) c1)
      \<and> (v = Stalled \<or> v = VisitFinished \<longrightarrow> (\<forall>j. blocked j c \<longrightarrow> blocked j c1))"
    by (rule visit_outcome [OF v Cons.prems(2)]) simp
  show ?case
  proof (cases v)
    case Stalled
    show ?thesis
    proof (rule Cons.IH)
      show "visit_lap S lap (stalled @ [i]) served wrote c1 = (Inr (st, sv, w), c')" using rest Stalled by simp
      show "lap_ok (set lap \<union> set (stalled @ [i]) \<union> set served) c1"
        using out Stalled by (auto elim!: lap_ok_mono)
      show "\<forall>j \<in> set (stalled @ [i]). blocked j c1" if "\<not> wrote"
        using out Stalled Cons.prems(3) [OF that] by simp
    qed (rule Cons.prems(4))
  next
    case (Wrote again)
    show ?thesis
    proof (rule Cons.IH)
      show "visit_lap S lap stalled (if again then served @ [i] else served) True c1 = (Inr (st, sv, w), c')"
        using rest Wrote by simp
      show "lap_ok (set lap \<union> set stalled \<union> set (if again then served @ [i] else served)) c1"
        using out Wrote by (cases again) (auto elim!: lap_ok_mono)
    qed simp_all
  next
    case VisitFinished
    show ?thesis
    proof (rule Cons.IH)
      show "visit_lap S lap stalled served wrote c1 = (Inr (st, sv, w), c')" using rest VisitFinished by simp
      show "lap_ok (set lap \<union> set stalled \<union> set served) c1"
        using out VisitFinished by (auto elim!: lap_ok_mono)
      show "\<forall>j \<in> set stalled. blocked j c1" if "\<not> wrote"
        using out VisitFinished Cons.prems(3) [OF that] by simp
    qed (rule Cons.prems(4))
  qed
qed

subsection \<open>The ring is rebuilt\<close>

lemma fold_marked_get:
  "c_get i (fold mark_queued ring c)
     = (case c_get i c of None \<Rightarrow> None | Some s \<Rightarrow> Some (if i \<in> set ring then s\<lparr>st_queued := True\<rparr> else s))"
proof (induction ring arbitrary: c)
  case (Cons j ring)
  have "c_get i (mark_queued j c)
      = (case c_get i c of None \<Rightarrow> None | Some s \<Rightarrow> Some (if i = j then s\<lparr>st_queued := True\<rparr> else s))"
    by (auto simp: mark_queued_def split: option.split)
  then show ?case by (simp add: Cons.IH split: option.split)
qed (simp split: option.split)

lemma mark_queued_others [simp]:
  "c_ready (mark_queued i c) = c_ready c" "c_out (mark_queued i c) = c_out c"
  "c_peer_settings (mark_queued i c) = c_peer_settings c"
  "c_conn_send_window (mark_queued i c) = c_conn_send_window c"
  by (simp_all add: mark_queued_def c_put_def split: option.split)

lemma fold_marked_others [simp]:
  "c_ready (fold mark_queued ring c) = c_ready c" "c_out (fold mark_queued ring c) = c_out c"
  "c_peer_settings (fold mark_queued ring c) = c_peer_settings c"
  "c_conn_send_window (fold mark_queued ring c) = c_conn_send_window c"
  by (induction ring arbitrary: c) simp_all

lemma c_get_ready [simp]: "c_get i (c\<lparr>c_ready := x\<rparr>) = c_get i c"
  by (simp add: c_get_def)

lemma rebuilt_get:
  "c_get i (rebuild_ring ring c)
     = (case c_get i c of None \<Rightarrow> None | Some s \<Rightarrow> Some (if i \<in> set ring then s\<lparr>st_queued := True\<rparr> else s))"
  by (simp add: rebuild_ring_def Let_def fold_marked_get)

lemma rebuilt_others [simp]:
  "c_out (rebuild_ring ring c) = c_out c"
  "c_peer_settings (rebuild_ring ring c) = c_peer_settings c"
  "c_conn_send_window (rebuild_ring ring c) = c_conn_send_window c"
  by (simp_all add: rebuild_ring_def Let_def)

lemma rebuilt_ready: "c_ready (rebuild_ring ring c) = filter (\<lambda>i. c_get i c \<noteq> None) ring"
  by (simp add: rebuild_ring_def Let_def fold_marked_get split: option.split)

lemma rebuilt_ring_ok:
  assumes "lap_ok (set ring) c"
  shows "ring_ok (rebuild_ring ring c)"
  unfolding ring_ok_def
proof (intro conjI allI impI)
  show "settings_legal (c_peer_settings (rebuild_ring ring c))" using assms by (simp add: lap_ok_def)
next
  fix i s' assume s': "c_get i (rebuild_ring ring c) = Some s'"
  then obtain s where s: "c_get i c = Some s" "s' = (if i \<in> set ring then s\<lparr>st_queued := True\<rparr> else s)"
    by (auto simp: rebuilt_get split: option.splits)
  have q: "[] \<notin> set (st_send_queue s)" "has_pending_send s \<or> st_queued s \<Longrightarrow> i \<in> set ring"
    using assms s(1) by (auto simp: lap_ok_def)
  show "stream_ring_ok s'" using q s(2) by (auto simp: stream_ring_ok_def has_pending_send_def)
  show "i \<in> set (c_ready (rebuild_ring ring c))" if "st_queued s'"
    using q(2) s that by (auto simp: rebuilt_ready split: if_splits)
qed

lemma rebuilt_blocked: "blocked j c \<Longrightarrow> blocked j (rebuild_ring ring c)"
  unfolding blocked_def rebuilt_get
  by (auto simp: visit_budget_def pending_send_def)

lemma lap_ok_start: "ring_ok c \<Longrightarrow> lap_ok (set (c_ready c)) (c\<lparr>c_ready := []\<rparr>)"
  by (auto simp: ring_ok_def lap_ok_def stream_ring_ok_def)

lemma blocked_count_stall [simp]: "blocked j (count_stall c) = blocked j c"
  by (simp add: blocked_def count_stall_def c_get_def visit_budget_def)

lemma pump_lap_ring:
  assumes "pump_lap S c = (Inr w, c')" "ring_ok c"
  shows "ring_ok c' \<and> (\<not> w \<longrightarrow> (\<forall>i \<in> set (c_ready c'). blocked i c'))"
proof -
  obtain st sv c1 where l: "visit_lap S (c_ready c) [] [] False (c\<lparr>c_ready := []\<rparr>) = (Inr (st, sv, w), c1)"
    and c': "c' = (if \<not> w \<and> c_ready (rebuild_ring (st @ sv) c1) \<noteq> []
        then count_stall (rebuild_ring (st @ sv) c1) else rebuild_ring (st @ sv) c1)"
    using assms(1) by (auto simp: pump_lap_def Let_def elim!: and_then_Inr)
  have "lap_ok (set st \<union> set sv) c1 \<and> (\<not> w \<longrightarrow> sv = [] \<and> (\<forall>j \<in> set st. blocked j c1))"
    by (rule lap_outcome [OF l]) (simp_all add: lap_ok_start assms(2))
  then have o: "lap_ok (set (st @ sv)) c1" "\<not> w \<Longrightarrow> \<forall>j \<in> set (st @ sv). blocked j c1" by simp_all
  have "blocked i c'" if "\<not> w" "i \<in> set (c_ready c')" for i
  proof -
    have "c_ready c' = c_ready (rebuild_ring (st @ sv) c1)" by (simp add: c' count_stall_def)
    then have "i \<in> set (st @ sv)" using that(2) by (auto simp: rebuilt_ready)
    then have "blocked i (rebuild_ring (st @ sv) c1)" using o(2) [OF that(1)] rebuilt_blocked by blast
    then show ?thesis by (simp add: c')
  qed
  then show ?thesis using rebuilt_ring_ok [OF o(1)] by (simp add: c')
qed

subsection \<open>The loop\<close>

definition sender_done :: "'v conn \<Rightarrow> bool" where
  "sender_done c \<longleftrightarrow> max_write_queue \<le> length (c_out c)
     \<or> (\<forall>i s. c_get i c = Some s \<longrightarrow> has_pending_send s \<longrightarrow> pending_send s > 0 \<and> visit_budget s c = 0)"

lemma all_blocked_done:
  assumes "ring_ok c" "\<forall>i \<in> set (c_ready c). blocked i c"
  shows "sender_done c"
proof -
  have "pending_send s > 0 \<and> visit_budget s c = 0" if "c_get i c = Some s" "has_pending_send s" for i s
  proof -
    have "i \<in> set (c_ready c)" using assms(1) that by (auto simp: ring_ok_def stream_ring_ok_def)
    then show ?thesis using assms(2) that(1) by (auto simp: blocked_def)
  qed
  then show ?thesis by (simp add: sender_done_def)
qed

lemma pump_loop_done:
  assumes "pump_loop S c = (Inr u, c')" "ring_ok c"
  shows "ring_ok c' \<and> sender_done c'"
  using assms
proof (induction S c rule: pump_loop.induct)
  case (1 S c)
  show ?case
  proof (cases "c_ready c = [] \<or> max_write_queue \<le> length (c_out c)")
    case True
    then have "c' = c" using 1(2) by (simp add: pump_loop.simps)
    then show ?thesis using True 1(3) all_blocked_done [of c] by (auto simp: sender_done_def)
  next
    case False
    obtain r c1 where l: "pump_lap S c = (r, c1)" by (cases "pump_lap S c")
    obtain w where r: "r = Inr w"
      using 1(2) False by (cases r) (simp_all add: pump_loop.simps [of S c] l)
    note lap = pump_lap_ring [OF l [unfolded r] 1(3)]
    show ?thesis
    proof (cases w)
      case True
      then have "pump_loop S c1 = (Inr u, c')" using 1(2) False by (simp add: pump_loop.simps [of S c] l r)
      then show ?thesis using 1(1) [OF False l [symmetric] r True] lap by simp
    next
      case w: False
      then have "c' = c1" using 1(2) False by (simp add: pump_loop.simps [of S c] l r)
      then show ?thesis using lap w all_blocked_done [of c1] by simp
    qed
  qed
qed

subsection \<open>The resets written after the lap\<close>

text \<open>What only appends to the buffer, and at most removes streams.\<close>

definition calmer :: "'v conn \<Rightarrow> 'v conn \<Rightarrow> bool" where
  "calmer c c' \<longleftrightarrow> length (c_out c) \<le> length (c_out c')
     \<and> c_conn_send_window c' = c_conn_send_window c \<and> c_peer_settings c' = c_peer_settings c
     \<and> (\<forall>i s. c_get i c' = Some s \<longrightarrow> c_get i c = Some s)"

lemma calmer_refl [simp]: "calmer c c"
  by (simp add: calmer_def)

lemma calmer_trans: "calmer c c1 \<Longrightarrow> calmer c1 c2 \<Longrightarrow> calmer c c2"
  by (auto simp: calmer_def)

lemma calmer_done: "calmer c c' \<Longrightarrow> sender_done c \<Longrightarrow> sender_done c'"
  unfolding sender_done_def calmer_def visit_budget_def by (metis le_trans)

lemma calmer_updates [simp]:
  "calmer d (c\<lparr>c_summary := x1\<rparr>) = calmer d c"
  "calmer d (c\<lparr>c_pending_reset := x2\<rparr>) = calmer d c"
  "calmer d (c\<lparr>c_service := x3\<rparr>) = calmer d c"
  "calmer d (c\<lparr>c_events := x4\<rparr>) = calmer d c"
  "calmer d (c\<lparr>c_calls := x5\<rparr>) = calmer d c"
  "calmer d (c\<lparr>c_frames := x6\<rparr>) = calmer d c"
  "calmer d (c\<lparr>c_ready := x7\<rparr>) = calmer d c"
  "calmer d (c\<lparr>c_conn_recv_window := x8\<rparr>) = calmer d c"
  by (simp_all add: calmer_def c_get_def)

lemma calmer_notify [simp]: "calmer d (notify S call c) = calmer d c"
  by (simp add: notify_def split: prod.split)

lemma calmer_then:
  assumes "calmer d (snd r)" "\<And>a c1. r = (Inr a, c1) \<Longrightarrow> calmer d c1 \<Longrightarrow> calmer d (snd (f a c1))"
  shows "calmer d (snd (and_then r f))"
  using assms by (cases r; cases "fst r") (auto simp: and_then_def)

lemma calmer_queue_frame [simp]: "calmer d c \<Longrightarrow> calmer d (snd (queue_frame f c))"
  by (cases rule: queue_frame_cases [of f c]) (auto simp: calmer_def c_get_def)

lemma calmer_retire [simp]: "calmer d c \<Longrightarrow> calmer d (retire_and_unqueue i c)"
  by (auto simp: calmer_def retire_and_unqueue_def c_get_def get_retire split: if_splits)

lemma calmer_drain_reclaimed [simp]:
  assumes "calmer d c"
  shows "calmer d (snd (drain_reclaimed c))"
proof -
  have "calmer d (c\<lparr>c_streams := (c_streams c)\<lparr>reclaimed := 0\<rparr>\<rparr>)" using assms by (simp add: calmer_def c_get_def)
  then show ?thesis by (simp add: drain_reclaimed_def take_reclaimed_eq Let_def split: prod.split option.split)
qed

lemma calmer_write_rst_stream [simp]:
  assumes "calmer d c"
  shows "calmer d (snd (write_rst_stream S i code c))"
  unfolding write_rst_stream_def by (rule calmer_then) (use assms in \<open>simp_all add: count_reset_def\<close>)

lemma calmer_flush_resets: "calmer d c \<Longrightarrow> calmer d (snd (flush_resets S es c))"
proof (induction es arbitrary: c)
  case (Cons e es)
  show ?case
    unfolding flush_resets.simps by (rule calmer_then) (use Cons in simp_all)
qed simp

lemma pump_outbound_done:
  assumes "pump_outbound S c = (Inr u, c')" "ring_ok c"
  shows "ring_ok c' \<and> sender_done c'"
proof -
  obtain u1 c1 where l: "pump_loop S c = (Inr u1, c1)" and f: "flush_pending_resets S c1 = (Inr u, c')"
    using assms(1) by (auto simp: pump_outbound_def elim!: and_then_Inr)
  have c1: "ring_ok c1" "sender_done c1" using pump_loop_done [OF l assms(2)] by simp_all
  have "calmer c1 c'"
    using calmer_flush_resets [of c1 c1 S "rev (c_pending_reset c1)"] f by (simp add: flush_pending_resets_def)
  then show ?thesis using c1 calmer_done ring_flush_pending_resets [OF c1(1), of S] f by auto
qed

subsection \<open>Every run\<close>

lemma ring_failed: "ring_ok (snd (failed r)) = ring_ok (snd r)"
  by (simp add: failed_def)

lemma ring_read_frame:
  assumes "ring_ok c"
  shows "ring_ok (snd (read_frame S now c))"
proof -
  have mid: "ring_ok (snd (reject_if_mid_header_block kind i c'))" if "ring_ok c'" for kind i and c' :: "'a conn"
    using that by (simp add: reject_if_mid_header_block_def split: option.split)
  obtain r rest where d: "decode_any (c_codec c) (c_read_buf c) = (r, rest)"
    by (cases "decode_any (c_codec c) (c_read_buf c)")
  show ?thesis
  proof (cases r)
    case (Inl e)
    then show ?thesis using assms by (simp add: read_frame_def d)
  next
    case r: (Inr got)
    show ?thesis
    proof (cases got)
      case None
      then show ?thesis using assms r by (simp add: read_frame_def d)
    next
      case (Some dec)
      show ?thesis
      proof (cases dec)
        case (DFrame f)
        let ?c = "c\<lparr>c_read_buf := rest,
           c_summary := (c_summary c)\<lparr>cs_frames_received := cs_frames_received (c_summary c) + 1\<rparr>\<rparr>"
        have "ring_ok ?c" using assms by simp
        then have "ring_ok (snd (handle_frame S now f ?c))" by (rule ring_handle_frame)
        then have "ring_ok (snd (and_then (failed (handle_frame S now f ?c))
            (\<lambda>next c1. case next of Continue \<Rightarrow> (Inr True, c1) | Close \<Rightarrow> (Inl Quiet, c1))))"
          by (intro ring_then) (simp_all add: ring_failed split: next_step.split)
        then show ?thesis by (simp add: read_frame_def d r Some DFrame)
      next
        case (Ignored kind i)
        have "ring_ok (snd (and_then (failed (reject_if_mid_header_block kind i (c\<lparr>c_read_buf := rest\<rparr>)))
            (\<lambda>_ c1. (Inr True, c1))))"
          by (rule ring_then) (simp_all add: ring_failed mid assms)
        then show ?thesis by (simp add: read_frame_def d r Some Ignored)
      qed
    qed
  qed
qed

lemma step_ring_ok:
  assumes "conn_step S x c = (Inr (), c')" "ring_ok c"
  shows "ring_ok c'"
proof (cases "x = InPump")
  case True
  then show ?thesis using assms pump_outbound_done [of S c "()" c'] by simp
next
  case False
  have "ring_ok (snd (conn_step S x c))"
  proof (cases x)
    case (InFrame now)
    have "ring_ok (snd (and_then (read_frame S now c) (\<lambda>_ c1. (Inr (), c1))))"
      by (rule ring_then) (simp_all add: ring_read_frame assms(2))
    then show ?thesis using InFrame by simp
  next
    case (InClock now fired)
    have "ring_ok (snd (and_then (failed (advance_drain now fired c))
        (\<lambda>go c1. if go then (Inr (), c1) else (Inl Quiet, c1))))"
      by (rule ring_then) (simp_all add: ring_failed assms(2))
    then show ?thesis using InClock by simp
  qed (use False in \<open>simp_all add: assms(2) ring_failed\<close>)
  then show ?thesis using assms(1) by simp
qed

lemma start_ring_ok: "ring_ok (conn_start now local policy limits W budget v)"
proof -
  obtain m s r where "c_streams (conn_start now local policy limits W budget v) = stream_table_new m s r"
    using core_of_start(7) [of now local policy limits W budget v] by auto
  then have "c_get i (conn_start now local policy limits W budget v) = None" for i
    by (simp add: c_get_def stream_table_new_def get_stream_def)
  moreover have "settings_legal (c_peer_settings (conn_start now local policy limits W budget v))"
    by (auto simp: conn_start_def conn_new_def with_drain_policy_def with_limits_def with_connection_window_def
        with_admission_def Let_def split: option.split)
  ultimately show ?thesis by (simp add: ring_ok_def)
qed

lemma run_ring_ok:
  assumes "conn_run S xs c = (Inr (), c')" "ring_ok c"
  shows "ring_ok c'"
  by (rule conn_run_invariant [where I = ring_ok, OF assms step_ring_ok])

lemma conn_run_append:
  "conn_run S (xs @ ys) c = and_then (conn_run S xs c) (\<lambda>_. conn_run S ys)"
proof (induction xs arbitrary: c)
  case (Cons x xs)
  have "conn_run S (xs @ ys) = (\<lambda>c. and_then (conn_run S xs c) (\<lambda>_. conn_run S ys))"
    by (rule ext) (rule Cons)
  then show ?case by (simp add: and_then_assoc)
qed simp

text \<open>A visit budget of nothing is an empty window: the other two bounds are never zero.\<close>

lemma budget_window:
  assumes "visit_budget s c = 0" "settings_legal (c_peer_settings c)"
  shows "sendable (st_send_window s) = 0 \<or> sendable (c_conn_send_window c) = 0"
  using assms by (auto simp: visit_budget_def settings_legal_def send_budget_def min_def split: if_splits)

subsection \<open>The loop with its laps counted\<close>

fun pump_laps :: "nat \<Rightarrow> 'v service \<Rightarrow> 'v conn \<Rightarrow> ('v conn, connection_error, unit) outcome option" where
  "pump_laps laps S c =
     (if c_ready c = [] \<or> length (c_out c) \<ge> max_write_queue then Some (Inr (), c)
      else case laps of 0 \<Rightarrow> None
        | Suc left \<Rightarrow>
            (case pump_lap S c of
               (Inl e, c1) \<Rightarrow> Some (Inl e, c1)
             | (Inr wrote, c1) \<Rightarrow> if wrote then pump_laps left S c1 else Some (Inr (), c1)))"

declare pump_laps.simps [simp del]

lemma pump_laps_enough: "conn_work c < n \<Longrightarrow> pump_laps n S c = Some (pump_loop S c)"
proof (induction n arbitrary: c)
  case (Suc n)
  obtain r c1 where l: "pump_lap S c = (r, c1)" by (cases "pump_lap S c")
  have "conn_work c1 < conn_work c" if "r = Inr True" using pump_lap_work [of S c c1] l that by simp
  then show ?case
    using Suc by (cases r) (auto simp: pump_laps.simps [of "Suc n"] pump_loop.simps [of S c] l)
qed simp

end
