(* ===== verification/Conn_Props.thy ===== *)
theory Conn_Props
  imports Conn_Example Conn_Ring
begin

section \<open>What holds of every connection\<close>

text \<open>
  The properties of a connection's runs: any responder, any peer, any order of inputs. Each is an
  invariant of the core's steps, read at the end of a run that has met no error.
\<close>

text \<open>C3. A connection never sends more than the peer allows: after any run, the connection window
  is exactly the initial 65535 plus every increment received on stream 0 minus every DATA octet
  sent on any stream, and it is never negative.\<close>

theorem data_sent_within_credit:
  assumes "conn_run S xs (conn_start now local policy limits W budget v) = (Inr (), c)"
  shows "available (c_conn_send_window c) + int (octets_sent (c_frames c))
      = 65535 + int (credit_received (c_received c))
    \<and> int (octets_sent (c_frames c)) \<le> 65535 + int (credit_received (c_received c))"
proof -
  have "send_ledger (core_of c)"
  proof (rule core_invariant [where h=False, OF assms])
    show "send_ledger (core_of (conn_start now local policy limits W budget v))"
      by (simp add: send_ledger_def core_of_start window_ok_def in_i32_def del: core_of_fields)
  qed (use send_ledger_step in auto)
  then show ?thesis by (simp add: send_ledger_def)
qed

theorem data_sent_within_credit_witness:
  "octets_sent (c_frames post_end) = 2 \<and> credit_received (c_received post_end) = 7
   \<and> available (c_conn_send_window post_end) = 65535 + 7 - 2"
  using data_sent_within_credit [OF post_from_start]
  by (simp add: post_facts octets_sent_def credit_received_def is_connection_def stream_id_connection_def)

text \<open>C4. Receive credit is conserved over a whole connection, through opens, closes, resets,
  refusals and discarded frames: as long as the responder accepts no more of a body than it was
  given (\<^verbatim>\<open>run_honest\<close>, a contract on the responder, checked in the witness for a run of the echo responder), and the configured connection window \<open>W\<close> is positive and at most \<open>2 ^ 31 - 1\<close>, the credit the
  peer still has, the credit not yet announced and the octets still owed for (by live streams, or
  reclaimed from dead ones) add up to the connection window; and once nothing is owed more than half
  of it is open again.\<close>

theorem receive_credit_conserved:
  assumes "conn_run S xs (conn_start now local policy limits W budget v) = (Inr (), c)"
    "run_honest S xs (conn_start now local policy limits W budget v)" "0 < W" "W \<le> max_window_size"
  shows "recv_available (c_conn_recv_window c) + int (rw_unreleased (c_conn_recv_window c))
      + int (owed (c_streams c)) = W
    \<and> (owed (c_streams c) = 0 \<longrightarrow> W < 2 * recv_available (c_conn_recv_window c))"
proof -
  have "credit_inv W (core_of c)"
  proof (rule core_invariant [where h=True, OF assms(1)])
    show "credit_inv W (core_of (conn_start now local policy limits W budget v))"
      using assms(3)
      by (simp add: credit_inv_def credit_ok_def core_of_start(1) recv_window_new_def recv_available_def
          start_table del: core_of_fields)
  qed (use assms credit_inv_step in auto)
  then show ?thesis by (auto simp: credit_inv_def credit_ok_def)
qed

theorem receive_credit_conserved_witness:
  "recv_available (c_conn_recv_window post_end) = 1048574
   \<and> rw_unreleased (c_conn_recv_window post_end) = 2
   \<and> recv_available (c_conn_recv_window post_end) + 2 + int (owed (c_streams post_end)) = 1048576"
  using receive_credit_conserved [OF post_from_start post_honest [unfolded post_start_def]]
  by (simp add: post_facts max_window_size_def recv_available_def)

text \<open>C5. No request is forgotten: the responder hears of the end of every stream it was given.
  After any run a dispatched stream is still live, or its reset is waiting to be written, or the
  responder has been told that it finished or was cancelled. (What a responder holds for a stream,
  a lease on an upstream connection for one, it gives back at that call.)\<close>

theorem every_request_accounted_for:
  assumes "conn_run S xs (conn_start now local policy limits W budget v) = (Inr (), c)"
    "SvDispatch i head es \<in> set (c_calls c)"
  shows "c_get i c \<noteq> None \<or> i \<in> serr_stream ` set (c_pending_reset c)
    \<or> SvFinish i \<in> set (c_calls c) \<or> (\<exists>code. SvCancel i code \<in> set (c_calls c))"
proof -
  have "lease_inv (core_of c)"
  proof (rule core_invariant [where h=False, OF assms(1)])
    show "lease_inv (core_of (conn_start now local policy limits W budget v))"
      by (simp add: lease_inv_def given_def core_of_start del: core_of_fields)
  qed (use lease_inv_step in auto)
  then show ?thesis using assms(2) by (auto simp: lease_inv_def given_def ended_for_def c_get_def)
qed

theorem every_request_accounted_for_witness:
  "SvDispatch 1 \<lparr>rq_method = [80, 79, 83, 84], rq_scheme = [104, 116, 116, 112, 115],
     rq_authority = None, rq_path = [47], rq_fields = []\<rparr> False \<in> set (c_calls post_end)
   \<and> SvFinish 1 \<in> set (c_calls post_end)"
  using every_request_accounted_for [where i=1, OF post_from_start] by (auto simp: post_facts)

subsection \<open>What the peer is promised\<close>

lemma start_undrained:
  "c_draining (conn_start now local policy limits W budget v) = None"
  "goaways (c_frames (conn_start now local policy limits W budget v)) = []"
  by (simp_all add: goaways_def conn_start_def conn_new_def Let_def with_admission_def
      with_drain_policy_def with_limits_def with_connection_window_def split: option.split)

text \<open>C17. The promise of a graceful GOAWAY is kept. A connection that has met no error has written
  no GOAWAY before it drains; one when the drain begins, with the highest stream id there is; and,
  once the drain has committed, exactly one more: no request above the last stream id that frame
  carries has been or will ever be given to the responder, whatever arrives.\<close>

theorem goaway_promise_kept:
  assumes "conn_run S xs (conn_start now local policy limits W budget v) = (Inr (), c)"
  shows "case c_draining c of
      None \<Rightarrow> goaways (c_frames c) = []
    | Some d \<Rightarrow> (case committed d of
        None \<Rightarrow> goaways (c_frames c) = [(0x7fffffff, NoError)]
      | Some committed_id \<Rightarrow> (\<exists>final.
          goaways (c_frames c) = [(0x7fffffff, NoError), (final, NoError)] \<and> final = committed_id \<and>
          (\<forall>i head es. SvDispatch i head es \<in> set (c_calls c) \<longrightarrow> i \<le> final)))"
proof -
  have "goaway_kept c \<and> dispatched_seen (core_of c)"
  proof (rule conn_run_invariant [OF assms(1)])
    show "goaway_kept (conn_start now local policy limits W budget v) \<and>
        dispatched_seen (core_of (conn_start now local policy limits W budget v))"
      using core_of_start(3) [of now local policy limits W budget v]
      by (simp add: goaway_kept_def start_undrained dispatched_seen_def start_table given_def del: core_of_fields)
  qed (use goaway_kept_step core_step_invariant [where P=dispatched_seen] dispatched_seen_step in blast)
  moreover have "stream_id_new max_local_stream_id = 0x7fffffff"
    by (simp add: stream_id_new_def max_local_stream_id_def)
  ultimately show ?thesis by (auto simp: goaway_kept_def given_def split: option.splits; blast)
qed

theorem goaway_promise_kept_witness:
  "map_option committed (c_draining held_end) = Some (Some 1)
   \<and> goaways (c_frames held_end) = [(0x7fffffff, NoError), (1, NoError)]"
proof -
  obtain d where "c_draining held_end = Some d" "committed d = Some 1"
    using held_facts(1) by auto
  then show ?thesis using goaway_promise_kept [OF held_from_start] by simp
qed

text \<open>C18. A stream is refused for the limit only when at least as many streams are live as the limit
  in force, and that limit is at least every limit announced that the peer may still be acting on:
  all of them while at most one SETTINGS has been acknowledged, and after that the last one
  acknowledged and those that follow it. Before any acknowledgement the limit in force is not below
  the configured ceiling either, so no early stream is refused for an announcement the peer may not
  have seen; once nothing is outstanding it is exactly the last limit announced. (The first limit
  is the one in the SETTINGS of the handshake. The connection has an admission budget \<open>b\<close>, at most the
  configured ceiling, and has announced fewer than \<open>2 ^ 32\<close> limits.)\<close>

theorem announced_limit_honoured:
  assumes "conn_run S xs (conn_start now local policy limits W (Some b) v) = (Inr (), c)"
    "b \<le> (case max_concurrent_streams local of None \<Rightarrow> - 1 | Some m \<Rightarrow> m)"
    "length (announced b c) \<le> u32_max"
    "w \<in> set (drop (settings_acks (c_received c) - 1) (announced b c))"
  shows "unat w \<le> max_concurrent (c_streams c)
    \<and> (fst (open_peer i (c_streams c)) = Inl Refused \<longrightarrow>
        max_concurrent (c_streams c) \<le> live_count (c_streams c) \<and> unat w \<le> live_count (c_streams c))
    \<and> (settings_acks (c_received c) = 0 \<longrightarrow>
        unat (case max_concurrent_streams local of None \<Rightarrow> - 1 | Some m \<Rightarrow> m) \<le> max_concurrent (c_streams c))
    \<and> (c_outstanding_settings c = 0 \<longrightarrow> max_concurrent (c_streams c) = unat (last (announced b c)))"
proof -
  define ceiling_of where "ceiling_of = (case max_concurrent_streams local of None \<Rightarrow> - 1 | Some m \<Rightarrow> m)"
  have "admission_inv b c \<and> c_stream_ceiling c = ceiling_of"
  proof (rule conn_run_invariant [OF assms(1)])
    show "admission_inv b (conn_start now local policy limits W (Some b) v) \<and>
        c_stream_ceiling (conn_start now local policy limits W (Some b) v) = ceiling_of"
      using assms(2)
      by (simp add: admission_inv_def announced_def promises_def conn_start_def conn_new_def Let_def
          with_admission_def with_drain_policy_def with_limits_def with_connection_window_def
          set_max_concurrent_def ceiling_of_def)
  qed (use admission_step ceiling_step in blast)
  then have inv: "max_concurrent (c_streams c) = unat (c_enforced_streams c)"
    "length (announced b c) \<le> c_outstanding_settings c + settings_acks (c_received c)"
    "c_outstanding_settings c = 0 \<longrightarrow> c_enforced_streams c = last (announced b c)"
    "settings_acks (c_received c) = 0 \<longrightarrow> ceiling_of \<le> c_enforced_streams c"
    "\<forall>w \<in> set (drop (length (announced b c) - (c_outstanding_settings c + 1)) (announced b c)). w \<le> c_enforced_streams c"
    using assms(3) by (auto simp: admission_inv_def)
  have "w \<in> set (drop (length (announced b c) - (c_outstanding_settings c + 1)) (announced b c))"
  proof (rule subsetD [OF set_drop_subset_set_drop assms(4)])
    show "length (announced b c) - (c_outstanding_settings c + 1) \<le> settings_acks (c_received c) - 1"
      using inv(2) by simp
  qed
  then have "unat w \<le> max_concurrent (c_streams c)" using inv(1,5) by (simp add: word_le_nat_alt)
  moreover have "max_concurrent (c_streams c) \<le> live_count (c_streams c)"
    if "fst (open_peer i (c_streams c)) = Inl Refused"
    using that by (auto simp: open_peer_def insert_new_def Let_def split: if_splits)
  ultimately show ?thesis
    using inv(1,3,4) by (auto simp: word_le_nat_alt ceiling_of_def)
qed

theorem announced_limit_honoured_witness:
  "announced 16 held_end = [16, 8] \<and> settings_acks (c_received held_end) = 2
   \<and> unat (8 :: u32) \<le> max_concurrent (c_streams held_end)"
proof -
  have a: "announced 16 held_end = [16, 8]" "settings_acks (c_received held_end) = 2"
    by (simp_all add: announced_def promises_def settings_acks_def held_facts id_max_concurrent_streams_def)
  have "(16 :: u32) \<le> (case max_concurrent_streams (server_settings tuning_default) of None \<Rightarrow> - 1 | Some m \<Rightarrow> m)"
    by (simp add: server_settings_def tuning_default_def settings_server_def max_concurrent_streams_default_def
        word_le_nat_alt)
  from announced_limit_honoured [OF held_from_start this, of 8] a show ?thesis by simp
qed

text \<open>C19. Header blocks are atomic. Along any run the frames handled obey the grammar of section 4.3
  (nothing but CONTINUATIONs of the same stream inside a block); and while a block is open, whatever
  else the octets received decode to, a frame of a type the engine models no state for included
  (those never reach the list of frames handled), ends the connection with PROTOCOL\_ERROR. The octets
  buffered are exactly the fragments received of the block left open, at most 64 KiB of them and
  none between blocks; and the frame that completes a block hands HPACK the concatenation of all its
  fragments, whatever they were cut into.\<close>

theorem header_blocks_atomic:
  assumes "conn_run S xs (conn_start now local policy limits W budget v) = (Inr (), c)"
  shows "blocks_ordered None (c_received c)
    \<and> c_open_header_block c = open_block None (c_received c)
    \<and> c_header_block c = unfinished [] (c_received c) \<and> length (c_header_block c) \<le> 65536
    \<and> (c_open_header_block c = None \<longrightarrow> c_header_block c = [])
    \<and> (\<forall>j d. c_open_header_block c = Some j \<longrightarrow>
        fst (decode_any (c_codec c) (c_read_buf c)) = Inr (Some d) \<longrightarrow> \<not> may_follow d j \<longrightarrow>
        fst (read_frame S' now' c) = Inl (Failed (ConnectionError ProtocolError)))
    \<and> (length (c_header_block c) + length fragment \<le> 65536 \<longrightarrow>
        (\<exists>g. read_header_block S' now' i fragment True c =
          decode_block S' now' i (unfinished [] (c_received c) @ fragment)
            (c\<lparr>c_guard := g, c_header_block := []\<rparr>)))"
proof -
  have "block_inv c"
  proof (rule conn_run_invariant [OF assms])
    show "block_inv (conn_start now local policy limits W budget v)"
      by (simp add: block_inv_def conn_start_def conn_new_def Let_def with_admission_def
          with_drain_policy_def with_limits_def with_connection_window_def split: option.split)
  qed (rule block_step)
  moreover have "max_header_block_bytes = 65536"
    by (simp add: max_header_block_bytes_def max_header_list_size_default_def)
  moreover have "\<exists>g. read_header_block S' now' i fragment True c =
      decode_block S' now' i (c_header_block c @ fragment) (c\<lparr>c_guard := g, c_header_block := []\<rparr>)"
    if "length (c_header_block c) + length fragment \<le> max_header_block_bytes"
    using that by (cases rule: read_header_block_cases [of S' now' i fragment True c]) auto
  ultimately have "blocks_ordered None (c_received c)
    \<and> c_open_header_block c = open_block None (c_received c)
    \<and> c_header_block c = unfinished [] (c_received c) \<and> length (c_header_block c) \<le> 65536
    \<and> (c_open_header_block c = None \<longrightarrow> c_header_block c = [])
    \<and> (length (c_header_block c) + length fragment \<le> 65536 \<longrightarrow>
        (\<exists>g. read_header_block S' now' i fragment True c =
          decode_block S' now' i (unfinished [] (c_received c) @ fragment)
            (c\<lparr>c_guard := g, c_header_block := []\<rparr>)))"
    unfolding block_inv_def by auto
  then show ?thesis using open_block_stops [of c _ _ S' now'] by blast
qed

text \<open>A PRIORITY frame arrives inside the block that \<^verbatim>\<open>held_end\<close> has open.\<close>

definition priority_octets :: octets where
  "priority_octets = [0,0,5, 2, 0, 0,0,0,3, 0,0,0,0,16]"

theorem header_blocks_atomic_witness:
  "c_open_header_block held_end = Some 3 \<and> c_header_block held_end = [0x83]
   \<and> unfinished [] (c_received held_end) = [0x83]
   \<and> fst (read_frame echo_service 0 (held_end\<lparr>c_read_buf := priority_octets\<rparr>))
       = Inl (Failed (ConnectionError ProtocolError))"
proof -
  let ?c = "held_end\<lparr>c_read_buf := priority_octets\<rparr>"
  have run: "conn_run echo_service (held_inputs @ [InRead priority_octets])
      (conn_start 0 (server_settings tuning_default) drain_policy_default limits_default 1048576 (Some 16) (echo_new 4))
      = (Inr (), ?c)"
    by (simp add: conn_run_append held_from_start and_then_def held_facts priority_octets_def)
  have dec: "fst (decode_any (codec_new 16384) priority_octets) = Inr (Some (Ignored (TUnknown 2) 3))" by code_simp
  have "c_codec ?c = codec_new 16384" by (simp add: codec_new_def held_facts)
  with dec have d: "\<exists>p. fst (decode_any (c_codec ?c) (c_read_buf ?c)) = Inr (Some p) \<and> \<not> may_follow p 3"
    by simp
  show ?thesis
    using header_blocks_atomic [OF run, where S'=echo_service and now'=0] d held_facts by auto
qed

text \<open>An upstream that dies after its stream has ended is not a silent drop: the event is answered as
  if the stream were new, and the ordering rule makes that a connection error.\<close>

lemma late_gone_is_fatal:
  assumes "c_get i c = None" "is_client_initiated i" "i \<le> highest_peer_id (c_streams c)"
  shows "deliver_event S (EvGone i) c = (Inl (ConnectionError ProtocolError), c)"
  using assms by (simp add: abandon_def reject_stream_def open_peer_def)

text \<open>C14. The sender never sits on work it could do. After any run that ends in a pass of the sender
  (every wait of the loop comes after one), a live stream with a body, an end or trailers still to
  send is in the ready ring, and unless the socket's buffer has reached its bound it has octets
  queued and a window that is used up: its own or the connection's. So the WINDOW\_UPDATE that opens
  the window, or room in the buffer, is all that it waits for.\<close>

theorem sender_never_idle:
  assumes "conn_run S (xs @ [InPump]) (conn_start now local policy limits W budget v) = (Inr (), c)"
    "c_get i c = Some s" "has_pending_send s"
  shows "i \<in> set (c_ready c) \<and> st_queued s \<and>
    (length (c_out c) < max_write_queue \<longrightarrow> pending_send s > 0
       \<and> (sendable (st_send_window s) = 0 \<or> sendable (c_conn_send_window c) = 0))"
proof -
  obtain c1 where run: "conn_run S xs (conn_start now local policy limits W budget v) = (Inr (), c1)"
    and pump: "pump_outbound S c1 = (Inr (), c)"
    using assms(1) by (auto simp: conn_run_append elim!: and_then_Inr)
  have c: "ring_ok c" "sender_done c"
    using pump_outbound_done [OF pump run_ring_ok [OF run start_ring_ok]] by simp_all
  have "i \<in> set (c_ready c) \<and> st_queued s"
    using c(1) assms(2,3) by (auto simp: ring_ok_def stream_ring_ok_def)
  moreover have "pending_send s > 0 \<and> (sendable (st_send_window s) = 0 \<or> sendable (c_conn_send_window c) = 0)"
    if "length (c_out c) < max_write_queue"
  proof -
    have b: "pending_send s > 0" "visit_budget s c = 0"
      using c(2) assms(2,3) that by (auto simp: sender_done_def)
    then show ?thesis using budget_window [OF b(2) ring_settings_legal [OF c(1)]] by simp
  qed
  ultimately show ?thesis by simp
qed

theorem sender_never_idle_witness:
  "1 \<in> set (c_ready stalled_end)
   \<and> (\<exists>s. c_get 1 stalled_end = Some s \<and> pending_send s = 2 \<and> sendable (st_send_window s) = 0)"
proof -
  obtain s where s: "c_get 1 stalled_end = Some s" "st_send_queue s = [[108, 111]]"
      "available (st_send_window s) = 0"
    using stalled_facts(1,2) by auto
  have p: "has_pending_send s" "pending_send s = 2" using s(2) by (simp_all add: has_pending_send_def pending_send_def)
  have "length (c_out stalled_end) < max_write_queue" using stalled_facts(4) by (simp add: max_write_queue_def)
  with sender_never_idle [OF stalled_from_start s(1) p(1)]
  show ?thesis using s p by (auto simp: sendable_def)
qed

text \<open>C20. The sender's loop ends. A lap that writes anything leaves strictly less to write (octets
  queued, ends of stream and trailers), so the loop as written, with no bound, is the loop allowed
  one lap more than the work at its start, and with that bound it never runs out, for any responder
  and in any state.\<close>

theorem sender_loop_ends:
  "pump_laps (Suc (conn_work c)) S c = Some (pump_loop S c)
   \<and> (\<forall>c'. pump_lap S c = (Inr True, c') \<longrightarrow> conn_work c' < conn_work c)"
  using pump_laps_enough [of c "Suc (conn_work c)" S] pump_lap_work [of S c] by blast

theorem sender_loop_ends_witness:
  "pump_laps 1 echo_service post_start = Some (pump_loop echo_service post_start)"
proof -
  have "conn_work post_start = 0" by code_simp
  then show ?thesis using sender_loop_ends [of post_start echo_service] by simp
qed

end
