(* ===== verification/Proxy_Stats.thy ===== *)
theory Proxy_Stats
  imports Prelude
begin

section \<open>The proxy's live counters\<close>

text \<open>
  \<^verbatim>\<open>ProxyStats\<close> of \<^verbatim>\<open>core/src/proxy.rs\<close>: one atomic per counter, each operation one atomic update.
  The counters are natural numbers (an event a nanosecond takes centuries to fill 64 bits); where
  the code goes down it says how, and so does the model: the gauges saturate at zero, the count of
  client connections wraps. Latencies are in nanoseconds; the bounds of the histogram are \<open>f64\<close>
  seconds in the code, and a nanosecond is far coarser than an \<open>f64\<close> at these sizes, so comparing
  numbers of nanoseconds decides the same way.
\<close>

record proxy_stats =
  ps_upstream_connections :: nat
  ps_upstream_streams :: nat
  ps_peak_upstream_streams :: nat
  ps_connects :: nat
  ps_connect_failures :: nat
  ps_requests :: nat
  ps_buffered :: nat
  ps_peak_buffered :: nat
  ps_client_streams :: nat
  ps_peak_client_streams :: nat
  ps_client_conns :: nat
  ps_retries :: nat
  ps_shed :: nat
  ps_probes :: nat
  ps_probe_failures :: nat
  ps_responses :: "nat list"
  ps_latency :: "nat list"
  ps_latency_count :: nat
  ps_latency_sum_micros :: nat

definition latency_bounds :: "nat option list" where
  "latency_bounds =
     [Some 100000, Some 250000, Some 500000, Some 1000000, Some 2000000, Some 3000000, Some 5000000,
      Some 10000000, Some 25000000, Some 50000000, Some 100000000, Some 250000000, Some 1000000000,
      None]"

definition stats_default :: proxy_stats where
  "stats_default =
     \<lparr>ps_upstream_connections = 0, ps_upstream_streams = 0, ps_peak_upstream_streams = 0, ps_connects = 0,
      ps_connect_failures = 0, ps_requests = 0, ps_buffered = 0, ps_peak_buffered = 0,
      ps_client_streams = 0, ps_peak_client_streams = 0, ps_client_conns = 0, ps_retries = 0,
      ps_shed = 0, ps_probes = 0, ps_probe_failures = 0, ps_responses = replicate 5 0,
      ps_latency = replicate (length latency_bounds) 0, ps_latency_count = 0, ps_latency_sum_micros = 0\<rparr>"

subsection \<open>The operations\<close>

definition connect_attempt :: "proxy_stats \<Rightarrow> proxy_stats" where
  "connect_attempt p = p\<lparr>ps_connects := ps_connects p + 1\<rparr>"

definition connect_failure :: "proxy_stats \<Rightarrow> proxy_stats" where
  "connect_failure p = p\<lparr>ps_connect_failures := ps_connect_failures p + 1\<rparr>"

definition open_connection :: "proxy_stats \<Rightarrow> proxy_stats" where
  "open_connection p = p\<lparr>ps_upstream_connections := ps_upstream_connections p + 1\<rparr>"

definition close_connection :: "proxy_stats \<Rightarrow> proxy_stats" where
  "close_connection p = p\<lparr>ps_upstream_connections := ps_upstream_connections p - 1\<rparr>"

definition open_stream :: "proxy_stats \<Rightarrow> proxy_stats" where
  "open_stream p =
     (let now = ps_upstream_streams p + 1 in
      p\<lparr>ps_upstream_streams := now,
        ps_peak_upstream_streams := (if now > ps_peak_upstream_streams p then now else ps_peak_upstream_streams p)\<rparr>)"

definition close_stream :: "proxy_stats \<Rightarrow> proxy_stats" where
  "close_stream p = p\<lparr>ps_upstream_streams := ps_upstream_streams p - 1\<rparr>"

definition count_request :: "proxy_stats \<Rightarrow> proxy_stats" where
  "count_request p = p\<lparr>ps_requests := ps_requests p + 1\<rparr>"

definition buffer_octets :: "nat \<Rightarrow> proxy_stats \<Rightarrow> proxy_stats" where
  "buffer_octets n p =
     (let now = ps_buffered p + n in
      p\<lparr>ps_buffered := now,
        ps_peak_buffered := (if now > ps_peak_buffered p then now else ps_peak_buffered p)\<rparr>)"

definition unbuffer :: "nat \<Rightarrow> proxy_stats \<Rightarrow> proxy_stats" where
  "unbuffer n p = p\<lparr>ps_buffered := ps_buffered p - n\<rparr>"

definition open_client_stream :: "proxy_stats \<Rightarrow> proxy_stats" where
  "open_client_stream p =
     (let now = ps_client_streams p + 1 in
      p\<lparr>ps_client_streams := now,
        ps_peak_client_streams := (if now > ps_peak_client_streams p then now else ps_peak_client_streams p)\<rparr>)"

definition close_client_stream :: "proxy_stats \<Rightarrow> proxy_stats" where
  "close_client_stream p = p\<lparr>ps_client_streams := ps_client_streams p - 1\<rparr>"

definition client_connected :: "proxy_stats \<Rightarrow> proxy_stats" where
  "client_connected p = p\<lparr>ps_client_conns := ps_client_conns p + 1\<rparr>"

definition client_disconnected :: "proxy_stats \<Rightarrow> proxy_stats" where
  "client_disconnected p =
     p\<lparr>ps_client_conns := (if ps_client_conns p = 0 then u64_max else ps_client_conns p - 1)\<rparr>"

definition count_retry :: "proxy_stats \<Rightarrow> proxy_stats" where
  "count_retry p = p\<lparr>ps_retries := ps_retries p + 1\<rparr>"

definition count_shed :: "proxy_stats \<Rightarrow> proxy_stats" where
  "count_shed p = p\<lparr>ps_shed := ps_shed p + 1\<rparr>"

definition probe_sent :: "proxy_stats \<Rightarrow> proxy_stats" where
  "probe_sent p = p\<lparr>ps_probes := ps_probes p + 1\<rparr>"

definition probe_failure :: "proxy_stats \<Rightarrow> proxy_stats" where
  "probe_failure p = p\<lparr>ps_probe_failures := ps_probe_failures p + 1\<rparr>"

definition status_class :: "nat \<Rightarrow> nat" where
  "status_class status = max 1 (min 5 (status div 100))"

definition count_response :: "nat \<Rightarrow> proxy_stats \<Rightarrow> proxy_stats" where
  "count_response status p =
     (let class = status_class status - 1 in
      p\<lparr>ps_responses := (ps_responses p)[class := ps_responses p ! class + 1]\<rparr>)"

text \<open>\<^verbatim>\<open>responses(class)\<close>, with the slice's \<^verbatim>\<open>get\<close> out of range.\<close>

definition responses_in :: "nat \<Rightarrow> proxy_stats \<Rightarrow> nat" where
  "responses_in class p =
     (let k = class - 1 in if k < length (ps_responses p) then ps_responses p ! k else 0)"

definition within :: "duration \<Rightarrow> nat option \<Rightarrow> bool" where
  "within elapsed bound = (case bound of None \<Rightarrow> True | Some b \<Rightarrow> elapsed \<le> b)"

definition observe_latency :: "duration \<Rightarrow> proxy_stats \<Rightarrow> proxy_stats" where
  "observe_latency elapsed p =
     p\<lparr>ps_latency := map (\<lambda>(n, bound). if within elapsed bound then n + 1 else n)
                        (zip (ps_latency p) latency_bounds),
       ps_latency_count := ps_latency_count p + 1,
       ps_latency_sum_micros := ps_latency_sum_micros p + elapsed div 1000\<rparr>"

subsection \<open>What the counters say\<close>

lemmas stats_defs = connect_attempt_def connect_failure_def open_connection_def close_connection_def
  open_stream_def close_stream_def count_request_def buffer_octets_def unbuffer_def open_client_stream_def
  close_client_stream_def client_connected_def client_disconnected_def count_retry_def count_shed_def
  probe_sent_def probe_failure_def count_response_def observe_latency_def Let_def

text \<open>The histogram is cumulative: a bucket counts the requests at or below its bound.\<close>

lemma observed_buckets:
  assumes "length (ps_latency p) = length latency_bounds"
  shows "ps_latency (fold observe_latency ds p)
     = map (\<lambda>(n, bound). n + length (filter (\<lambda>d. within d bound) ds)) (zip (ps_latency p) latency_bounds)
    \<and> ps_latency_count (fold observe_latency ds p) = ps_latency_count p + length ds"
  using assms
proof (induction ds arbitrary: p)
  case Nil
  then show ?case by (simp add: list_eq_iff_nth_eq)
next
  case (Cons d ds)
  have l: "length (ps_latency (observe_latency d p)) = length latency_bounds"
    using Cons.prems by (simp add: observe_latency_def)
  have n: "ps_latency (observe_latency d p) ! k
      = (if within d (latency_bounds ! k) then ps_latency p ! k + 1 else ps_latency p ! k)"
    if "k < length latency_bounds" for k
    using that Cons.prems by (simp add: observe_latency_def)
  show ?case
    using Cons.IH [OF l] l Cons.prems
    by (simp add: list_eq_iff_nth_eq n) (simp add: observe_latency_def)
qed

definition bound_le :: "nat option \<Rightarrow> nat option \<Rightarrow> bool" where
  "bound_le a b = (case b of None \<Rightarrow> True | Some n \<Rightarrow> (case a of None \<Rightarrow> False | Some m \<Rightarrow> m \<le> n))"

lemma bounds_ascend: "sorted_wrt bound_le latency_bounds"
  by (simp add: latency_bounds_def bound_le_def)

lemma buckets_cumulative:
  assumes "k \<le> j" "j < length latency_bounds" "within d (latency_bounds ! k)"
  shows "within d (latency_bounds ! j)"
proof (cases "k = j")
  case False
  then have "bound_le (latency_bounds ! k) (latency_bounds ! j)"
    using assms sorted_wrt_nth_less [OF bounds_ascend, of k j] by simp
  then show ?thesis using assms(3) by (auto simp: within_def bound_le_def split: option.splits)
qed (use assms in simp)

text \<open>A peak is the largest value its gauge has had.\<close>

definition peaks_ok :: "proxy_stats \<Rightarrow> bool" where
  "peaks_ok p \<longleftrightarrow> ps_upstream_streams p \<le> ps_peak_upstream_streams p
     \<and> ps_buffered p \<le> ps_peak_buffered p \<and> ps_client_streams p \<le> ps_peak_client_streams p"

lemma peaks_ok_ops:
  assumes "peaks_ok p"
  shows "peaks_ok (open_stream p)" "peaks_ok (close_stream p)" "peaks_ok (buffer_octets n p)"
    "peaks_ok (unbuffer n p)" "peaks_ok (open_client_stream p)" "peaks_ok (close_client_stream p)"
  using assms
  by (simp_all add: peaks_ok_def open_stream_def close_stream_def buffer_octets_def unbuffer_def
      open_client_stream_def close_client_stream_def Let_def) (linarith | simp)+

end
