(* ===== verification/Pool.thy ===== *)
theory Pool
  imports Proxy_Stats Lb Settings Service_Msg "HOL-Library.AList" "HOL-Library.Product_Lexorder"
begin

section \<open>The upstream connection pool\<close>

text \<open>
  \<^verbatim>\<open>core/src/pool.rs\<close>. A connection record is shared (an \<^verbatim>\<open>Arc\<close>) by the pool's list, by the leases
  on it and by its own task, so the model keeps every record in one store and refers to it by its
  place there; a record that leaves the list lives on for its leases. The store is append-only.
  The channel to the connection's task is the list of messages not yet received, and whether the
  receiver is gone. Times are milliseconds since the pool was built.
\<close>

subsection \<open>Messages and records\<close>

type_synonym request_id = u32
type_synonym client = nat  \<comment> \<open>whose event channel: one per client connection\<close>

datatype to_upstream =
    TuRequest request_id stream_id request_head bool client
  | TuBody request_id octets bool
  | TuTrailers request_id "header list"
  | TuReleased request_id nat
  | TuCancel request_id error_code

record upstream_record =
  r_inbox :: "to_upstream list"
  r_receiver_gone :: bool
  r_live :: nat
  r_issued :: u32
  r_max_concurrent :: nat
  r_closed :: bool
  r_last_used_ms :: nat
  r_queued :: nat
  r_loop_passes :: nat
  r_loop_reads :: nat
  r_queued_peak :: nat
  r_out_peak :: nat

definition assumed_max_concurrent :: nat where "assumed_max_concurrent = 100"
definition id_exhaustion_margin :: u32 where "id_exhaustion_margin = 64"

definition record_new :: "nat \<Rightarrow> upstream_record" where
  "record_new now_ms =
     \<lparr>r_inbox = [], r_receiver_gone = False, r_live = 0, r_issued = 0,
      r_max_concurrent = assumed_max_concurrent, r_closed = False, r_last_used_ms = now_ms,
      r_queued = 0, r_loop_passes = 0, r_loop_reads = 0, r_queued_peak = 0, r_out_peak = 0\<rparr>"

definition record_usable :: "nat \<Rightarrow> nat \<Rightarrow> upstream_record \<Rightarrow> bool" where
  "record_usable now_ms idle_timeout_ms r =
     (let idle_ms = now_ms - r_last_used_ms r;
          idle_and_empty = (idle_ms \<ge> idle_timeout_ms \<and> r_live r = 0)
      in \<not> idle_and_empty \<and> \<not> r_closed r \<and> \<not> r_receiver_gone r
         \<and> r_issued r < max_local_stream_id div 2 - id_exhaustion_margin)"

definition has_room :: "upstream_record \<Rightarrow> bool" where
  "has_room r \<longleftrightarrow> r_live r < r_max_concurrent r"

definition set_queued :: "nat \<Rightarrow> upstream_record \<Rightarrow> upstream_record" where
  "set_queued waiting r = r\<lparr>r_queued := waiting, r_queued_peak := max (r_queued_peak r) waiting\<rparr>"

record conn_snapshot =
  sn_live :: nat
  sn_queued :: nat
  sn_queued_peak :: nat
  sn_out_peak :: nat
  sn_loop_passes :: nat
  sn_loop_reads :: nat

definition record_snapshot :: "upstream_record \<Rightarrow> conn_snapshot \<times> upstream_record" where
  "record_snapshot r =
     (\<lparr>sn_live = r_live r, sn_queued = r_queued r, sn_queued_peak = r_queued_peak r,
       sn_out_peak = r_out_peak r, sn_loop_passes = r_loop_passes r, sn_loop_reads = r_loop_reads r\<rparr>,
      r\<lparr>r_queued_peak := 0, r_out_peak := 0, r_loop_passes := 0, r_loop_reads := 0\<rparr>)"

text \<open>\<^verbatim>\<open>ConnSnapshot::read_ratio\<close>, an \<open>f64\<close> in the code, as the pair it is the quotient of.\<close>

definition read_ratio :: "conn_snapshot \<Rightarrow> (nat \<times> nat) option" where
  "read_ratio sn = (if sn_loop_passes sn > 0 then Some (sn_loop_reads sn, sn_loop_passes sn) else None)"

definition note_pass :: "bool \<Rightarrow> nat \<Rightarrow> upstream_record \<Rightarrow> upstream_record" where
  "note_pass was_read out_len r =
     r\<lparr>r_loop_passes := r_loop_passes r + 1,
       r_loop_reads := (if was_read then r_loop_reads r + 1 else r_loop_reads r),
       r_out_peak := max (r_out_peak r) out_len\<rparr>"

definition backed_up :: "upstream_record \<Rightarrow> bool" where
  "backed_up r \<longleftrightarrow> r_queued r \<ge> max (r_max_concurrent r) 1"

definition saturated :: "nat \<Rightarrow> upstream_record \<Rightarrow> bool" where
  "saturated max_pending r \<longleftrightarrow> r_queued r \<ge> max_pending"

definition set_record_max_concurrent :: "nat \<Rightarrow> upstream_record \<Rightarrow> upstream_record" where
  "set_record_max_concurrent m r = r\<lparr>r_max_concurrent := m\<rparr>"

definition retire_record :: "upstream_record \<Rightarrow> upstream_record" where
  "retire_record r = r\<lparr>r_closed := True\<rparr>"

subsection \<open>The pool and its leases\<close>

record lease =
  l_conn :: nat
  l_id :: request_id

datatype pool_error = Unreachable backend | NoBackend | AtCapacity backend

record pool =
  p_backends :: "(backend \<times> nat list) list"
  p_records :: "upstream_record list"
  p_stats :: proxy_stats
  p_max_conns :: nat
  p_idle_timeout_ms :: nat
  p_tuning :: tuning

definition pool_new :: "nat \<Rightarrow> nat \<Rightarrow> tuning \<Rightarrow> pool" where
  "pool_new max_conns idle_ms t =
     \<lparr>p_backends = [], p_records = [], p_stats = stats_default, p_max_conns = max max_conns 1,
      p_idle_timeout_ms = idle_ms, p_tuning = t\<rparr>"

definition conns_of :: "backend \<Rightarrow> pool \<Rightarrow> nat list" where
  "conns_of b p = (case map_of (p_backends p) b of None \<Rightarrow> [] | Some ks \<Rightarrow> ks)"

definition with_record :: "nat \<Rightarrow> (upstream_record \<Rightarrow> upstream_record) \<Rightarrow> pool \<Rightarrow> pool" where
  "with_record k f p = p\<lparr>p_records := (p_records p)[k := f (p_records p ! k)]\<rparr>"

definition with_stats :: "(proxy_stats \<Rightarrow> proxy_stats) \<Rightarrow> pool \<Rightarrow> pool" where
  "with_stats f p = p\<lparr>p_stats := f (p_stats p)\<rparr>"

definition record_lease :: "nat \<Rightarrow> upstream_record \<Rightarrow> request_id \<times> upstream_record" where
  "record_lease now_ms r =
     (r_issued r, r\<lparr>r_last_used_ms := now_ms, r_issued := r_issued r + 1, r_live := r_live r + 1\<rparr>)"

definition take_lease :: "nat \<Rightarrow> nat \<Rightarrow> pool \<Rightarrow> lease \<times> pool" where
  "take_lease k now_ms p =
     (\<lparr>l_conn = k, l_id = fst (record_lease now_ms (p_records p ! k))\<rparr>,
      with_record k (snd \<circ> record_lease now_ms) p)"

text \<open>Dropping a lease: \<^verbatim>\<open>fetch_sub\<close>, which wraps.\<close>

definition drop_lease :: "lease \<Rightarrow> pool \<Rightarrow> pool" where
  "drop_lease l =
     with_record (l_conn l) (\<lambda>r. r\<lparr>r_live := (if r_live r = 0 then u64_max else r_live r - 1)\<rparr>)"

definition lease_send :: "lease \<Rightarrow> to_upstream \<Rightarrow> pool \<Rightarrow> bool \<times> pool" where
  "lease_send l msg p =
     (if r_receiver_gone (p_records p ! l_conn l) then (False, p)
      else (True, with_record (l_conn l) (\<lambda>r. r\<lparr>r_inbox := r_inbox r @ [msg]\<rparr>) p))"

subsection \<open>Checkout\<close>

text \<open>\<^verbatim>\<open>Iterator::max_by_key\<close> takes the last of equals, \<^verbatim>\<open>min_by_key\<close> the first.\<close>

fun max_by_key :: "('a \<Rightarrow> 'k :: linorder) \<Rightarrow> 'a list \<Rightarrow> 'a option" where
  "max_by_key key [] = None"
| "max_by_key key (x # xs) = Some (fold (\<lambda>y best. if key best \<le> key y then y else best) xs x)"

fun min_by_key :: "('a \<Rightarrow> 'k :: linorder) \<Rightarrow> 'a list \<Rightarrow> 'a option" where
  "min_by_key key [] = None"
| "min_by_key key (x # xs) = Some (fold (\<lambda>y best. if key best \<le> key y then best else y) xs x)"

definition open_conn :: "backend \<Rightarrow> nat \<Rightarrow> pool \<Rightarrow> nat \<times> pool" where
  "open_conn b now_ms p =
     (length (p_records p),
      with_stats connect_attempt
        (p\<lparr>p_records := p_records p @ [record_new now_ms],
           p_backends := AList.update b (conns_of b p @ [length (p_records p)]) (p_backends p)\<rparr>))"

definition checkout :: "backend \<Rightarrow> nat \<Rightarrow> pool \<Rightarrow> (pool, pool_error, lease) outcome" where
  "checkout b now_ms p0 =
     (let conns = filter (\<lambda>k. record_usable now_ms (p_idle_timeout_ms p0) (p_records p0 ! k)) (conns_of b p0);
          p = p0\<lparr>p_backends := AList.update b conns (p_backends p0)\<rparr>;
          rec = (\<lambda>k. p_records p ! k)
      in case max_by_key (\<lambda>k. r_live (rec k)) (filter (\<lambda>k. has_room (rec k)) conns) of
           Some k \<Rightarrow> (case take_lease k now_ms p of (l, p1) \<Rightarrow> (Inr l, p1))
         | None \<Rightarrow>
             let grow = (conns = [] \<or>
                   (case tu_growth (p_tuning p) of
                      GrowEager \<Rightarrow> True
                    | GrowQueue \<Rightarrow> \<not> list_ex (\<lambda>k. \<not> backed_up (rec k)) conns))
             in if length conns < p_max_conns p \<and> grow then
                  (case open_conn b now_ms p of (k, p1) \<Rightarrow>
                     (case take_lease k now_ms p1 of (l, p2) \<Rightarrow> (Inr l, p2)))
                else
                  (case min_by_key (\<lambda>k. (r_queued (rec k), r_live (rec k))) conns of
                     None \<Rightarrow> (Inl (Unreachable b), p)
                   | Some k \<Rightarrow>
                       if saturated (tu_max_pending (p_tuning p)) (rec k)
                       then (Inl (AtCapacity b), with_stats count_shed p)
                       else (case take_lease k now_ms p of (l, p1) \<Rightarrow> (Inr l, p1))))"

subsection \<open>What the pool reports\<close>

definition pool_load :: "backend list \<Rightarrow> pool \<Rightarrow> backend_load list" where
  "pool_load bs p =
     map (\<lambda>b. \<lparr>load_backend = b, outstanding = sum_list (map (\<lambda>k. r_live (p_records p ! k)) (conns_of b p))\<rparr>) bs"

definition pool_conns :: "pool \<Rightarrow> nat list" where
  "pool_conns p = concat (map snd (p_backends p))"

definition pool_backed_up :: "pool \<Rightarrow> bool" where
  "pool_backed_up p = list_ex (\<lambda>k. backed_up (p_records p ! k)) (pool_conns p)"

definition near_shed_limit :: "pool \<Rightarrow> bool" where
  "near_shed_limit p =
     (let warn = tu_max_pending (p_tuning p) div 3 in
      list_ex (\<lambda>k. r_queued (p_records p ! k) \<ge> max warn 1) (pool_conns p))"

definition connection_count :: "nat \<Rightarrow> pool \<Rightarrow> nat" where
  "connection_count now_ms p =
     length (filter (\<lambda>k. record_usable now_ms (p_idle_timeout_ms p) (p_records p ! k)) (pool_conns p))"

fun snapshot_all :: "nat list \<Rightarrow> pool \<Rightarrow> conn_snapshot list \<times> pool" where
  "snapshot_all [] p = ([], p)"
| "snapshot_all (k # ks) p =
     (case record_snapshot (p_records p ! k) of (sn, r) \<Rightarrow>
        case snapshot_all ks (with_record k (\<lambda>_. r) p) of (sns, p') \<Rightarrow> (sn # sns, p'))"

definition conn_snapshots :: "nat \<Rightarrow> pool \<Rightarrow> conn_snapshot list \<times> pool" where
  "conn_snapshots now_ms p =
     snapshot_all
       (filter (\<lambda>k. record_usable now_ms (p_idle_timeout_ms p) (p_records p ! k)) (pool_conns p)) p"

subsection \<open>A connection's task, as the pool sees it\<close>

text \<open>\<^verbatim>\<open>fail_pending\<close>: the receiver closes, and the requests in the inbox are answered.\<close>

definition gone_events :: "to_upstream list \<Rightarrow> (client \<times> service_event) list" where
  "gone_events msgs =
     concat (map (\<lambda>m. case m of TuRequest r i head es cl \<Rightarrow> [(cl, EvGone i)] | _ \<Rightarrow> []) msgs)"

definition fail_pending :: "nat \<Rightarrow> pool \<Rightarrow> (client \<times> service_event) list \<times> pool" where
  "fail_pending k p =
     (gone_events (r_inbox (p_records p ! k)),
      with_record k (\<lambda>r. r\<lparr>r_inbox := [], r_receiver_gone := True\<rparr>) p)"

text \<open>
  The task \<^verbatim>\<open>Pool::open\<close> spawns: the connect that failed, or succeeded, and the connection that ended.
  The end of \<^verbatim>\<open>UpstreamConnection::run\<close> treats the inbox as \<^verbatim>\<open>fail_pending\<close> does and closes the gauge.
\<close>

definition connect_failed :: "nat \<Rightarrow> pool \<Rightarrow> (client \<times> service_event) list \<times> pool" where
  "connect_failed k p =
     (case fail_pending k (with_stats connect_failure p) of (es, p1) \<Rightarrow> (es, with_record k retire_record p1))"

definition connect_succeeded :: "pool \<Rightarrow> pool" where
  "connect_succeeded = with_stats open_connection"

definition connection_ended :: "bool \<Rightarrow> nat \<Rightarrow> pool \<Rightarrow> (client \<times> service_event) list \<times> pool" where
  "connection_ended probe_timed_out k p =
     (case fail_pending k p of (es, p1) \<Rightarrow>
        let p2 = with_stats close_connection p1 in
        (es, with_record k retire_record (if probe_timed_out then with_stats probe_failure p2 else p2)))"

end
