(* ===== verification/Admission.thy ===== *)
theory Admission
  imports Pool Health
begin

section \<open>What the client connections share, and the admission loop\<close>

text \<open>
  \<^verbatim>\<open>Shared\<close> of \<^verbatim>\<open>core/src/proxy.rs\<close>: the pool, the balancer, health, and the control loop that decides
  how many streams each client connection may open. The three atomics of the loop hold \<^verbatim>\<open>u64\<close>
  values, written as natural numbers with their saturation. \<^verbatim>\<open>clamp\<close> panics when its bounds
  are crossed, so the loop can fail: that is \<open>None\<close>. The clock is a field, set from outside.
\<close>

record shared =
  sh_pool :: pool
  sh_backends :: "backend list"
  sh_balancer :: power_of_two
  sh_health :: health
  sh_admission :: u32
  sh_admit_total :: nat
  sh_ssthresh :: nat
  sh_last_shed :: nat
  sh_tuning :: tuning
  sh_now :: instant

definition min_admit :: nat where "min_admit = 2"
definition min_total :: nat where "min_total = 64"
definition min_step :: nat where "min_step = 32"

definition shared_with_tuning :: "backend list \<Rightarrow> nat \<Rightarrow> policy \<Rightarrow> tuning \<Rightarrow> shared" where
  "shared_with_tuning bs max_conns pol t =
     \<lparr>sh_pool = pool_new max_conns (Health.policy.idle_timeout pol div 1000000) t, sh_backends = bs,
      sh_balancer = power_of_two_new, sh_health = health_new pol,
      sh_admission = tu_max_concurrent_streams t, sh_admit_total = u64_max, sh_ssthresh = u64_max,
      sh_last_shed = 0, sh_tuning = t, sh_now = 0\<rparr>"

definition sh_stats :: "shared \<Rightarrow> proxy_stats" where
  "sh_stats sh = p_stats (sh_pool sh)"

definition sat_mul_u64 :: "nat \<Rightarrow> nat \<Rightarrow> nat" where
  "sat_mul_u64 a b = min (a * b) u64_max"

definition claimants :: "shared \<Rightarrow> nat" where
  "claimants sh = max (ps_client_conns (sh_stats sh)) 1"

definition ceiling_total :: "shared \<Rightarrow> nat" where
  "ceiling_total sh = sat_mul_u64 (unat (tu_max_concurrent_streams (sh_tuning sh))) (claimants sh)"

definition distressed :: "shared \<Rightarrow> bool" where
  "distressed sh \<longleftrightarrow> ps_shed (sh_stats sh) > sh_last_shed sh \<or> near_shed_limit (sh_pool sh)"

text \<open>The step of the loop, on the clamped value of the current sum: the next value and the next threshold.\<close>

definition next_total :: "bool \<Rightarrow> nat \<Rightarrow> nat \<Rightarrow> nat \<Rightarrow> nat \<times> nat" where
  "next_total distress top_total current threshold =
     (if distress then (let half = max (current div 2) min_total in (half, half))
      else if current < threshold then (min (sat_mul_u64 current 2) top_total, threshold)
      else
        let increment = max (current div 16) min_step
        in (min (min (current + increment) u64_max) top_total, threshold))"

definition recompute_admission :: "shared \<Rightarrow> u32 option \<times> shared" where
  "recompute_admission sh =
     (let conns = claimants sh;
          top_count = unat (tu_max_concurrent_streams (sh_tuning sh));
          top_total = ceiling_total sh;
          distress = distressed sh;
          sh1 = sh\<lparr>sh_last_shed := ps_shed (sh_stats sh)\<rparr>
      in if top_total < min_total then (None, sh1)
         else
           let current = max (max min_total (min (sh_admit_total sh1) top_total)) 1;
               (tot, threshold) = next_total distress top_total current (sh_ssthresh sh1);
               sh2 = sh1\<lparr>sh_admit_total := tot, sh_ssthresh := threshold\<rparr>
           in if top_count < min_admit then (None, sh2)
              else
                let advertised = (word_of_nat (max min_admit (min (tot div conns) top_count)) :: u32)
                in (Some advertised, sh2\<lparr>sh_admission := advertised\<rparr>))"

subsection \<open>Choosing a backend\<close>

definition shared_pick :: "backend option \<Rightarrow> instant \<Rightarrow> shared \<Rightarrow> backend option \<times> shared" where
  "shared_pick exclude now sh =
     (let load = pool_load (sh_backends sh) (sh_pool sh);
          el = eligible (sh_health sh) load now;
          el' = (case exclude of
                   None \<Rightarrow> el
                 | Some failed \<Rightarrow>
                     let elsewhere = filter (\<lambda>c. load_backend c \<noteq> failed) el
                     in if elsewhere \<noteq> [] then elsewhere else el)
      in case lb_pick (sh_balancer sh) el' of
           (None, lb) \<Rightarrow> (None, sh\<lparr>sh_balancer := lb\<rparr>)
         | (Some b, lb) \<Rightarrow>
             (Some b, sh\<lparr>sh_balancer := lb, sh_health := claim_trial (sh_health sh) b now\<rparr>))"

text \<open>The end of a pooled connection, with the report its unanswered probe is to health checking.\<close>

definition upstream_ended :: "bool \<Rightarrow> nat \<Rightarrow> backend \<Rightarrow> shared \<Rightarrow> (client \<times> service_event) list \<times> shared" where
  "upstream_ended probe_timed_out k b sh =
     (case connection_ended probe_timed_out k (sh_pool sh) of (es, p) \<Rightarrow>
        (es, sh\<lparr>sh_pool := p,
                sh_health := (if probe_timed_out then health_failure (sh_health sh) b (sh_now sh) else sh_health sh)\<rparr>))"

subsection \<open>The loop's step\<close>

definition servable :: "shared \<Rightarrow> bool" where
  "servable sh \<longleftrightarrow> min_total \<le> ceiling_total sh \<and> min_admit \<le> unat (tu_max_concurrent_streams (sh_tuning sh))"

definition clamped_total :: "shared \<Rightarrow> nat" where
  "clamped_total sh = max min_total (min (sh_admit_total sh) (ceiling_total sh))"

lemma claimants_pos [simp]: "0 < claimants sh"
  by (simp add: claimants_def)

lemma ceiling_le [simp]: "ceiling_total sh \<le> u64_max"
  by (simp add: ceiling_total_def sat_mul_u64_def)

lemma recompute_result:
  assumes "servable sh" "next_total (distressed sh) (ceiling_total sh) (clamped_total sh) (sh_ssthresh sh) = (tot, threshold)"
  shows "recompute_admission sh =
    (let a = (word_of_nat (max min_admit (min (tot div claimants sh)
               (unat (tu_max_concurrent_streams (sh_tuning sh))))) :: u32)
     in (Some a, sh\<lparr>sh_last_shed := ps_shed (sh_stats sh), sh_admit_total := tot, sh_ssthresh := threshold,
                    sh_admission := a\<rparr>))"
proof -
  have "max (max min_total (min (sh_admit_total sh) (ceiling_total sh))) 1 = clamped_total sh"
    by (simp add: clamped_total_def min_total_def)
  then show ?thesis using assms by (simp add: recompute_admission_def servable_def Let_def)
qed

lemma next_total_bounds:
  assumes "next_total d top_total current threshold = (tot, threshold')"
    "min_total \<le> current" "current \<le> top_total" "top_total \<le> u64_max"
  shows "min_total \<le> tot \<and> tot \<le> top_total"
    "\<not> d \<Longrightarrow> min top_total (current + min_step) \<le> tot \<and> threshold' = threshold"
    "\<not> d \<Longrightarrow> current < threshold \<Longrightarrow> tot = min (2 * current) top_total"
    "\<not> d \<Longrightarrow> threshold \<le> current \<Longrightarrow> tot = min (current + max (current div 16) min_step) top_total"
    "d \<Longrightarrow> tot = max (current div 2) min_total \<and> threshold' = tot"
  using assms
  by (auto simp: next_total_def sat_mul_u64_def min_total_def min_step_def Let_def min_def max_def split: if_splits)

lemma clamped_bounds: "servable sh \<Longrightarrow> min_total \<le> clamped_total sh \<and> clamped_total sh \<le> ceiling_total sh"
  by (simp add: clamped_total_def servable_def)

text \<open>What later samples depend on is not touched by a sample.\<close>

lemma recompute_frame:
  assumes "servable sh"
  shows "sh_pool (snd (recompute_admission sh)) = sh_pool sh"
    "sh_tuning (snd (recompute_admission sh)) = sh_tuning sh"
    "sh_last_shed (snd (recompute_admission sh)) = ps_shed (sh_stats sh)"
  using assms recompute_result [of sh]
  by (cases "next_total (distressed sh) (ceiling_total sh) (clamped_total sh) (sh_ssthresh sh)";
      simp add: Let_def)+

text \<open>No sample finds anything wrong as long as no queue is near its bound and nothing was shed.\<close>

definition calm :: "shared \<Rightarrow> bool" where
  "calm sh \<longleftrightarrow> servable sh \<and> \<not> near_shed_limit (sh_pool sh) \<and> ps_shed (sh_stats sh) \<le> sh_last_shed sh"

lemma calm_step:
  assumes "calm sh"
  shows "calm (snd (recompute_admission sh))"
    "ceiling_total (snd (recompute_admission sh)) = ceiling_total sh"
    "min (ceiling_total sh) (clamped_total sh + min_step) \<le> clamped_total (snd (recompute_admission sh))"
proof -
  let ?sh = "snd (recompute_admission sh)"
  have s: "servable sh" and d: "\<not> distressed sh" using assms by (simp_all add: calm_def distressed_def)
  note f = recompute_frame [OF s]
  have st: "sh_stats ?sh = sh_stats sh" by (simp add: sh_stats_def f)
  show c: "ceiling_total ?sh = ceiling_total sh" by (simp add: ceiling_total_def claimants_def st f)
  show "calm ?sh" using assms by (simp add: calm_def servable_def c f st)
  obtain tot threshold where
    n: "next_total (distressed sh) (ceiling_total sh) (clamped_total sh) (sh_ssthresh sh) = (tot, threshold)"
    by (cases "next_total (distressed sh) (ceiling_total sh) (clamped_total sh) (sh_ssthresh sh)")
  have t: "sh_admit_total ?sh = tot" using recompute_result [OF s n] by (simp add: Let_def)
  note b = next_total_bounds [OF n conjunct1 [OF clamped_bounds [OF s]] conjunct2 [OF clamped_bounds [OF s]] ceiling_le]
  show "min (ceiling_total sh) (clamped_total sh + min_step) \<le> clamped_total ?sh"
    using b(1,2) d by (simp add: clamped_total_def t c)
qed

definition samples :: "nat \<Rightarrow> shared \<Rightarrow> shared" where
  "samples n sh = ((\<lambda>s. snd (recompute_admission s)) ^^ n) sh"

lemma calm_samples:
  assumes "calm sh"
  shows "calm (samples n sh) \<and> ceiling_total (samples n sh) = ceiling_total sh
    \<and> min (ceiling_total sh) (clamped_total sh + n * min_step) \<le> clamped_total (samples n sh)"
proof (induction n)
  case 0
  then show ?case by (simp add: samples_def assms)
next
  case (Suc n)
  have s: "samples (Suc n) sh = snd (recompute_admission (samples n sh))" by (simp add: samples_def)
  then show ?case using Suc calm_step [of "samples n sh"] by (auto simp: min_def split: if_splits)
qed

subsection \<open>The properties\<close>

lemma advertised_value:
  assumes "n \<le> unat (c :: u32)"
  shows "unat (word_of_nat n :: u32) = n"
proof -
  have "unat c < 2 ^ LENGTH(32)" by (rule unsigned_less)
  then have "n < 2 ^ 32" using assms by simp
  then show ?thesis by (simp add: unsigned_of_nat take_bit_nat_eq_self)
qed

text \<open>C27. What every sample of the admission loop leaves, when the configured ceiling is at least 64
  streams over all claimants and 2 per connection (\<^verbatim>\<open>servable\<close>; with less the sample panics): each client
  connection is told a number between 2 and the configured ceiling, the sum the loop steers is
  between 64 and the ceiling times the claimants, and what is advertised to all of them is within that
  sum unless the floor of 2 each is more. On distress (anything shed since the last sample, or a
  queue near its bound) the sum is half of what it was, and that becomes the last level known to be
  servable; with none it doubles below that level, and from it on grows by a sixteenth, by 32 at
  least, up to the ceiling.\<close>

theorem admission_steers:
  assumes "servable sh" "sh' = snd (recompute_admission sh)"
  shows "fst (recompute_admission sh) = Some (sh_admission sh')
    \<and> min_admit \<le> unat (sh_admission sh') \<and> unat (sh_admission sh') \<le> unat (tu_max_concurrent_streams (sh_tuning sh))
    \<and> min_total \<le> sh_admit_total sh' \<and> sh_admit_total sh' \<le> ceiling_total sh
    \<and> unat (sh_admission sh') * claimants sh \<le> max (sh_admit_total sh') (min_admit * claimants sh)
    \<and> (distressed sh \<longrightarrow> sh_admit_total sh' = max (clamped_total sh div 2) min_total)
    \<and> (\<not> distressed sh \<longrightarrow> clamped_total sh \<le> sh_admit_total sh')
    \<and> (\<not> distressed sh \<and> clamped_total sh < sh_ssthresh sh \<longrightarrow>
         sh_admit_total sh' = min (2 * clamped_total sh) (ceiling_total sh))
    \<and> (\<not> distressed sh \<and> sh_ssthresh sh \<le> clamped_total sh \<longrightarrow>
         sh_admit_total sh' = min (clamped_total sh + max (clamped_total sh div 16) 32) (ceiling_total sh))
    \<and> sh_ssthresh sh' = (if distressed sh then sh_admit_total sh' else sh_ssthresh sh)"
proof -
  obtain tot threshold where
    n: "next_total (distressed sh) (ceiling_total sh) (clamped_total sh) (sh_ssthresh sh) = (tot, threshold)"
    by (cases "next_total (distressed sh) (ceiling_total sh) (clamped_total sh) (sh_ssthresh sh)")
  note b = next_total_bounds [OF n conjunct1 [OF clamped_bounds [OF assms(1)]]
      conjunct2 [OF clamped_bounds [OF assms(1)]] ceiling_le]
  define top where "top = unat (tu_max_concurrent_streams (sh_tuning sh))"
  define a where "a = max min_admit (min (tot div claimants sh) top)"
  have top: "min_admit \<le> top" using assms(1) by (simp add: servable_def top_def)
  then have a: "min_admit \<le> a" "a \<le> top" by (simp_all add: a_def)
  have ua: "unat (word_of_nat a :: u32) = a" using a(2) unfolding top_def by (rule advertised_value)
  have r: "recompute_admission sh = (Some (word_of_nat a), sh')" "sh_admission sh' = word_of_nat a"
      "sh_admit_total sh' = tot" "sh_ssthresh sh' = threshold"
    using recompute_result [OF assms(1) n] by (simp_all add: Let_def a_def top_def assms(2))
  have "a * claimants sh \<le> max tot (min_admit * claimants sh)"
  proof (cases "a = min_admit")
    case False
    then have "a \<le> tot div claimants sh" by (simp add: a_def split: if_splits)
    then show ?thesis by (meson div_times_less_eq_dividend le_max_iff_disj le_trans mult_le_mono1)
  qed simp
  moreover have "\<not> distressed sh \<longrightarrow> clamped_total sh \<le> tot"
    using b(2) clamped_bounds [OF assms(1)] by auto
  moreover have "\<not> distressed sh \<and> sh_ssthresh sh \<le> clamped_total sh \<longrightarrow>
      tot = min (clamped_total sh + max (clamped_total sh div 16) 32) (ceiling_total sh)"
    using b(4) by (simp add: min_step_def)
  ultimately show ?thesis using a b(1,2,3,5) r ua by (simp add: top_def)
qed

definition sample_shared :: shared where
  "sample_shared = shared_with_tuning [Backend (SocketAddr [127, 0, 0, 1] 80)] 8 policy_default tuning_default"

lemma sample_servable: "servable sample_shared" "claimants sample_shared = 1"
  by (simp_all add: servable_def ceiling_total_def claimants_def sample_shared_def shared_with_tuning_def
      sh_stats_def pool_new_def stats_default_def tuning_default_def max_concurrent_streams_default_def
      sat_mul_u64_def min_total_def min_admit_def)

theorem admission_steers_witness:
  "2 \<le> unat (sh_admission (snd (recompute_admission sample_shared)))
   \<and> unat (sh_admission (snd (recompute_admission sample_shared))) \<le> 256"
  using admission_steers [OF sample_servable(1) refl]
  by (simp add: min_admit_def sample_shared_def shared_with_tuning_def tuning_default_def
      max_concurrent_streams_default_def)

text \<open>When the loop panics. The two \<^verbatim>\<open>clamp\<close>s have a fixed lower bound and a configured upper one, and
  a sample dies exactly when they cross: with a ceiling of fewer than 64 streams in all (16 streams
  and three clients, say), or of one stream per connection. The daemon accepts any ceiling from 1.\<close>

theorem admission_panics_exactly:
  "fst (recompute_admission sh) = None \<longleftrightarrow>
     unat (tu_max_concurrent_streams (sh_tuning sh)) * claimants sh < 64
     \<or> unat (tu_max_concurrent_streams (sh_tuning sh)) < 2"
proof -
  have "ceiling_total sh < 64 \<longleftrightarrow> unat (tu_max_concurrent_streams (sh_tuning sh)) * claimants sh < 64"
    by (auto simp: ceiling_total_def sat_mul_u64_def min_def)
  then show ?thesis
    by (auto simp: recompute_admission_def Let_def min_total_def min_admit_def split: prod.split)
qed

text \<open>C28. Recovery depends on the load, not on the past: however far the loop has retreated, as long as
  nothing is shed and no queue is near its bound (\<^verbatim>\<open>calm\<close>, which includes a ceiling that can be served)
  every sample adds at least 32 streams to the sum, so after \<open>n\<close> samples, if the ceiling over all
  claimants is at most \<open>64 + 32 * n\<close> and fits 64 bits, the sum is back at the ceiling and every client
  is told the whole configured limit again.\<close>

theorem admission_recovers:
  assumes "calm sh" "ceiling_total sh \<le> 64 + n * 32"
    "unat (tu_max_concurrent_streams (sh_tuning sh)) * claimants sh \<le> u64_max"
  shows "clamped_total (samples n sh) = ceiling_total sh
    \<and> fst (recompute_admission (samples n sh)) = Some (tu_max_concurrent_streams (sh_tuning sh))"
proof -
  let ?s = "samples n sh"
  note c = calm_samples [OF assms(1), of n]
  have s: "servable ?s" using c by (simp add: calm_def)
  have "min_total \<le> clamped_total sh" using clamped_bounds [of sh] assms(1) by (simp add: calm_def)
  then have full: "clamped_total ?s = ceiling_total sh"
    using c assms(2) clamped_bounds [OF s] by (auto simp: min_total_def min_step_def min_def split: if_splits)
  have t: "sh_tuning (samples m sh) = sh_tuning sh \<and> sh_pool (samples m sh) = sh_pool sh" for m
  proof (induction m)
    case (Suc m)
    have "servable (samples m sh)" using calm_samples [OF assms(1), of m] by (simp add: calm_def)
    then show ?case using Suc recompute_frame [of "samples m sh"] by (simp add: samples_def)
  qed (simp add: samples_def)
  have cl: "claimants ?s = claimants sh" using t [of n] by (simp add: claimants_def sh_stats_def)
  have d: "\<not> distressed ?s" using c by (simp add: calm_def distressed_def)
  obtain tot threshold where
    n: "next_total (distressed ?s) (ceiling_total ?s) (clamped_total ?s) (sh_ssthresh ?s) = (tot, threshold)"
    by (cases "next_total (distressed ?s) (ceiling_total ?s) (clamped_total ?s) (sh_ssthresh ?s)")
  note b = next_total_bounds [OF n conjunct1 [OF clamped_bounds [OF s]] conjunct2 [OF clamped_bounds [OF s]] ceiling_le]
  have tot: "tot = ceiling_total sh" using b(1,2) d full c by auto
  have ceil: "ceiling_total sh = unat (tu_max_concurrent_streams (sh_tuning sh)) * claimants sh"
    using assms(3) by (simp add: ceiling_total_def sat_mul_u64_def)
  have two: "min_admit \<le> unat (tu_max_concurrent_streams (sh_tuning sh))"
    using s t [of n] by (simp add: servable_def)
  have "tot div claimants ?s = unat (tu_max_concurrent_streams (sh_tuning sh))"
    unfolding tot ceil cl by simp
  then show ?thesis
    using full recompute_result [OF s n] two t [of n] by (simp add: Let_def max.absorb2)
qed

theorem admission_recovers_witness:
  "clamped_total (samples 6 sample_shared) = ceiling_total sample_shared"
proof -
  have "calm sample_shared"
    using sample_servable(1)
    by (simp add: calm_def near_shed_limit_def pool_conns_def sample_shared_def shared_with_tuning_def
        pool_new_def sh_stats_def stats_default_def Let_def)
  moreover have "ceiling_total sample_shared \<le> 64 + 6 * 32"
    "unat (tu_max_concurrent_streams (sh_tuning sample_shared)) * claimants sample_shared \<le> u64_max"
    using sample_servable(2)
    by (simp_all add: ceiling_total_def sat_mul_u64_def sample_shared_def shared_with_tuning_def tuning_default_def
        max_concurrent_streams_default_def)
  ultimately show ?thesis using admission_recovers [of sample_shared 6] by simp
qed

end
