(* ===== verification/Proxy.thy ===== *)
theory Proxy
  imports Admission Conn_State
begin

section \<open>The request path of one client connection\<close>

text \<open>
  \<^verbatim>\<open>Proxy\<close> of \<^verbatim>\<open>core/src/proxy.rs\<close>: the responder a client connection is given, mapping its streams to
  leases on upstream connections. What it shares with the other client connections (\<^verbatim>\<open>Arc<Shared>\<close>)
  is a field, threaded through every operation. Each operation returns the events it puts on the
  connection's channel. The client's address is the text \<^verbatim>\<open>IpAddr\<close> displays as; tracing is left out.
\<close>

subsection \<open>Requests on their way to a backend\<close>

definition idempotent_methods :: "octets list" where
  "idempotent_methods =
     [ascii ''GET'', ascii ''HEAD'', ascii ''OPTIONS'', ascii ''TRACE'', ascii ''DELETE'', ascii ''PUT'']"

definition max_attempts :: nat where "max_attempts = 2"

definition sanitize :: "request_head \<Rightarrow> request_head" where
  "sanitize head = head\<lparr>rq_fields := filter (\<lambda>f. hdr_name f \<noteq> ascii ''te'') (rq_fields head)\<rparr>"

text \<open>
  \<^verbatim>\<open>String::from_utf8_lossy\<close>, as octets: every maximal part that begins a character but does not complete
  one, and every other stray octet, becomes U+FFFD. The length of the longest legal beginning, and
  whether it is a whole character:
\<close>

definition continuation :: "u8 \<Rightarrow> bool" where
  "continuation b \<longleftrightarrow> 0x80 \<le> b \<and> b \<le> 0xbf"

definition second_ok :: "u8 \<Rightarrow> u8 \<Rightarrow> bool" where
  "second_ok lead b =
     (if lead = 0xe0 then 0xa0 \<le> b \<and> b \<le> 0xbf
      else if lead = 0xed then 0x80 \<le> b \<and> b \<le> 0x9f
      else if lead = 0xf0 then 0x90 \<le> b \<and> b \<le> 0xbf
      else if lead = 0xf4 then 0x80 \<le> b \<and> b \<le> 0x8f
      else continuation b)"

definition char_width :: "u8 \<Rightarrow> nat" where
  "char_width b =
     (if b < 0x80 then 1 else if 0xc2 \<le> b \<and> b \<le> 0xdf then 2
      else if 0xe0 \<le> b \<and> b \<le> 0xef then 3 else if 0xf0 \<le> b \<and> b \<le> 0xf4 then 4 else 0)"

fun legal_tail :: "nat \<Rightarrow> octets \<Rightarrow> nat" where
  "legal_tail n [] = 0"
| "legal_tail n (b # bs) = (if n = 0 \<or> \<not> continuation b then 0 else Suc (legal_tail (n - 1) bs))"

definition char_prefix :: "u8 \<Rightarrow> octets \<Rightarrow> nat \<times> bool" where
  "char_prefix lead bs =
     (let w = char_width lead in
      if w \<le> 1 then (1, w = 1)
      else case bs of
        [] \<Rightarrow> (1, False)
      | b # bs' \<Rightarrow>
          if \<not> second_ok lead b then (1, False)
          else let n = 2 + legal_tail (w - 2) bs' in (n, n = w))"

lemma char_prefix_pos: "0 < fst (char_prefix b bs)"
  by (simp add: char_prefix_def Let_def split: list.split)

function utf8_lossy :: "octets \<Rightarrow> octets" where
  "utf8_lossy [] = []"
| "utf8_lossy (b # bs) =
     (case char_prefix b bs of (n, whole) \<Rightarrow>
        (if whole then List.take n (b # bs) else [0xef, 0xbf, 0xbd]) @ utf8_lossy (List.drop n (b # bs)))"
  by pat_completeness auto
termination
proof (relation "measure length", goal_cases)
  case (2 b bs n whole)
  then have "0 < n" using char_prefix_pos [of b bs] by (metis fst_conv)
  then show ?case by simp
qed simp

definition x_forwarded_for :: octets where "x_forwarded_for = ascii ''x-forwarded-for''"
definition x_forwarded_proto :: octets where "x_forwarded_proto = ascii ''x-forwarded-proto''"

definition add_forwarded :: "octets option \<Rightarrow> bool \<Rightarrow> request_head \<Rightarrow> request_head" where
  "add_forwarded peer trust head =
     (case peer of
        None \<Rightarrow> head
      | Some addr \<Rightarrow>
          let existing = (if trust then List.find (\<lambda>f. hdr_name f = x_forwarded_for) (rq_fields head) else None);
              kept = filter (\<lambda>f. hdr_name f \<noteq> x_forwarded_for \<and> hdr_name f \<noteq> x_forwarded_proto) (rq_fields head);
              val = (case existing of
                       Some f \<Rightarrow> utf8_lossy (hdr_value f) @ ascii '', '' @ addr
                     | None \<Rightarrow> addr)
          in head\<lparr>rq_fields := kept @ [header_new x_forwarded_for val, header_new x_forwarded_proto (ascii ''https'')]\<rparr>)"

subsection \<open>The state\<close>

record attempt_spec =
  at_head :: request_head
  at_end_stream :: bool
  at_spare :: "request_head option"
  at_exclude :: "backend option"
  at_attempts :: nat
  at_carry :: "instant option"

record route =
  rt_lease :: lease
  rt_request_done :: bool
  rt_backend :: backend
  rt_head :: "request_head option"
  rt_attempts :: nat
  rt_response_started :: bool
  rt_started :: instant

record proxy =
  px_shared :: shared
  px_events :: "client option"
  px_routes :: "(stream_id \<times> route) list"
  px_peer :: "octets option"
  px_trust_forwarded :: bool

definition px_pool :: "(pool \<Rightarrow> pool) \<Rightarrow> proxy \<Rightarrow> proxy" where
  "px_pool f px = px\<lparr>px_shared := (px_shared px)\<lparr>sh_pool := f (sh_pool (px_shared px))\<rparr>\<rparr>"

definition px_stats :: "(proxy_stats \<Rightarrow> proxy_stats) \<Rightarrow> proxy \<Rightarrow> proxy" where
  "px_stats f = px_pool (with_stats f)"

definition px_health :: "(health \<Rightarrow> health) \<Rightarrow> proxy \<Rightarrow> proxy" where
  "px_health f px = px\<lparr>px_shared := (px_shared px)\<lparr>sh_health := f (sh_health (px_shared px))\<rparr>\<rparr>"

definition px_now :: "proxy \<Rightarrow> instant" where "px_now px = sh_now (px_shared px)"
definition px_now_ms :: "proxy \<Rightarrow> nat" where "px_now_ms px = px_now px div 1000000"

definition px_route :: "stream_id \<Rightarrow> proxy \<Rightarrow> route option" where
  "px_route i px = map_of (px_routes px) i"

definition px_put :: "stream_id \<Rightarrow> route \<Rightarrow> proxy \<Rightarrow> proxy" where
  "px_put i r px = px\<lparr>px_routes := AList.update i r (px_routes px)\<rparr>"

definition px_delete :: "stream_id \<Rightarrow> proxy \<Rightarrow> proxy" where
  "px_delete i px = px\<lparr>px_routes := AList.delete i (px_routes px)\<rparr>"

definition proxy_new :: "shared \<Rightarrow> proxy" where
  "proxy_new sh =
     px_stats client_connected
       \<lparr>px_shared = sh, px_events = None, px_routes = [], px_peer = None, px_trust_forwarded = False\<rparr>"

definition with_peer :: "octets \<Rightarrow> proxy \<Rightarrow> proxy" where
  "with_peer addr px = px\<lparr>px_peer := Some addr\<rparr>"

definition trusting_forwarded_headers :: "bool \<Rightarrow> proxy \<Rightarrow> proxy" where
  "trusting_forwarded_headers trust px = px\<lparr>px_trust_forwarded := trust\<rparr>"

definition attach :: "client \<Rightarrow> proxy \<Rightarrow> proxy" where
  "attach cl px = px\<lparr>px_events := Some cl\<rparr>"

definition emit :: "service_event \<Rightarrow> proxy \<Rightarrow> service_event list" where
  "emit ev px = (if px_events px = None then [] else [ev])"

definition answer_locally :: "stream_id \<Rightarrow> nat \<Rightarrow> proxy \<Rightarrow> service_event list" where
  "answer_locally i status = emit (EvHead i (response_status status) True)"

definition lease_dropped :: "lease \<Rightarrow> proxy \<Rightarrow> proxy" where
  "lease_dropped l = px_pool (drop_lease l)"

definition route_send :: "lease \<Rightarrow> to_upstream \<Rightarrow> proxy \<Rightarrow> bool \<times> proxy" where
  "route_send l msg px =
     (case lease_send l msg (sh_pool (px_shared px)) of (ok, p) \<Rightarrow> (ok, px_pool (\<lambda>_. p) px))"

subsection \<open>One attempt\<close>

text \<open>\<^verbatim>\<open>routes.insert\<close>: a route it replaces is dropped, and its lease with it.\<close>

definition insert_route :: "stream_id \<Rightarrow> route \<Rightarrow> proxy \<Rightarrow> proxy" where
  "insert_route i r px =
     (let px1 = px_put i r px in
      case px_route i px of None \<Rightarrow> px1 | Some old \<Rightarrow> lease_dropped (rt_lease old) px1)"

definition attempt :: "stream_id \<Rightarrow> attempt_spec \<Rightarrow> proxy \<Rightarrow> service_event list \<times> proxy" where
  "attempt i a px =
     (let now = px_now px in
      case shared_pick (at_exclude a) now (px_shared px) of
        (None, sh) \<Rightarrow> (answer_locally i 503 px, px\<lparr>px_shared := sh\<rparr>)
      | (Some b, sh) \<Rightarrow>
          let px1 = px\<lparr>px_shared := sh\<rparr> in
          case checkout b (px_now_ms px) (sh_pool sh) of
            (Inl e, p) \<Rightarrow> (answer_locally i 503 px1, px_pool (\<lambda>_. p) px1)
          | (Inr l, p) \<Rightarrow>
              let px2 = px_pool (\<lambda>_. p) px1 in
              case px_events px2 of
                None \<Rightarrow> ([], lease_dropped l px2)
              | Some cl \<Rightarrow>
                  case route_send l (TuRequest (l_id l) i (at_head a) (at_end_stream a) cl) px2 of
                    (False, px3) \<Rightarrow>
                      (answer_locally i 503 px3,
                       lease_dropped l (px_health (\<lambda>h. health_failure h b now) px3))
                  | (True, px3) \<Rightarrow>
                      let px4 = px_stats count_request px3;
                          px5 = (if at_carry a = None then px_stats open_client_stream px4 else px4);
                          started = (case at_carry a of None \<Rightarrow> now | Some t \<Rightarrow> t)
                      in ([], insert_route i
                            \<lparr>rt_lease = l, rt_request_done = at_end_stream a, rt_backend = b, rt_head = at_spare a,
                             rt_attempts = at_attempts a, rt_response_started = False, rt_started = started\<rparr> px5))"

definition finished :: "route \<Rightarrow> proxy \<Rightarrow> proxy" where
  "finished r px =
     px_stats (observe_latency (px_now px - rt_started r)) (px_stats close_client_stream px)"

text \<open>
  \<^verbatim>\<open>retry\<close> moves the head, the clock and the span out of the route it removed; the lease stays in that
  local until the function returns, so it is dropped after the second attempt.
\<close>

definition retry :: "stream_id \<Rightarrow> proxy \<Rightarrow> (bool \<times> service_event list) \<times> proxy" where
  "retry i px =
     (case px_route i px of
        None \<Rightarrow> ((False, []), px)
      | Some r \<Rightarrow>
          (case rt_head r of
             None \<Rightarrow> ((False, []), px)
           | Some head \<Rightarrow>
               if rt_response_started r \<or> rt_attempts r \<ge> max_attempts then ((False, []), px)
               else
                 (case attempt i
                        \<lparr>at_head = head, at_end_stream = True, at_spare = Some head,
                         at_exclude = Some (rt_backend r), at_attempts = rt_attempts r + 1,
                         at_carry = Some (rt_started r)\<rparr>
                        (px_stats count_retry (px_delete i px))
                  of (es, px1) \<Rightarrow> ((True, es), lease_dropped (rt_lease r) px1))))"

definition synthesized :: "stream_id \<Rightarrow> nat \<Rightarrow> proxy \<Rightarrow> proxy" where
  "synthesized i status px =
     (if (case px_route i px of None \<Rightarrow> False | Some r \<Rightarrow> rt_response_started r) then px
      else px_stats (count_response status) px)"

subsection \<open>The responder's calls\<close>

definition proxy_dispatch :: "stream_id \<Rightarrow> request_head \<Rightarrow> bool \<Rightarrow> proxy \<Rightarrow> service_event list \<times> proxy" where
  "proxy_dispatch i head0 end_stream px =
     (let head = add_forwarded (px_peer px) (px_trust_forwarded px) (sanitize head0);
          retryable = (end_stream \<and> rq_method head \<in> set idempotent_methods)
      in attempt i
           \<lparr>at_head = head, at_end_stream = end_stream, at_spare = (if retryable then Some head else None),
            at_exclude = None, at_attempts = 1, at_carry = None\<rparr> px)"

definition proxy_body :: "stream_id \<Rightarrow> octets \<Rightarrow> bool \<Rightarrow> proxy \<Rightarrow> service_event list \<times> proxy" where
  "proxy_body i data end_stream px =
     (let n = length data mod 2 ^ 32 in
      case px_route i px of
        None \<Rightarrow> ((if n > 0 then emit (EvBodyAccepted i n) px else []), px)
      | Some r \<Rightarrow>
          if rt_request_done r then ([], px)
          else
            (case route_send (rt_lease r) (TuBody (l_id (rt_lease r)) data end_stream)
                    (px_put i (r\<lparr>rt_request_done := end_stream\<rparr>) px)
             of (ok, px1) \<Rightarrow> ((if \<not> ok \<and> n > 0 then emit (EvBodyAccepted i n) px1 else []), px1)))"

definition proxy_trailers :: "stream_id \<Rightarrow> header list \<Rightarrow> proxy \<Rightarrow> proxy" where
  "proxy_trailers i flds px =
     (case px_route i px of
        None \<Rightarrow> px
      | Some r \<Rightarrow>
          snd (route_send (rt_lease r) (TuTrailers (l_id (rt_lease r)) flds)
                 (px_put i (r\<lparr>rt_request_done := True\<rparr>) px)))"

definition proxy_cancel :: "stream_id \<Rightarrow> error_code \<Rightarrow> proxy \<Rightarrow> proxy" where
  "proxy_cancel i code px =
     (case px_route i px of
        None \<Rightarrow> px
      | Some r \<Rightarrow>
          lease_dropped (rt_lease r)
            (finished r (snd (route_send (rt_lease r) (TuCancel (l_id (rt_lease r)) code) (px_delete i px)))))"

definition proxy_finish :: "stream_id \<Rightarrow> proxy \<Rightarrow> proxy" where
  "proxy_finish i px =
     (case px_route i px of
        None \<Rightarrow> px
      | Some r \<Rightarrow> lease_dropped (rt_lease r) (finished r (px_delete i px)))"

definition proxy_released :: "stream_id \<Rightarrow> nat \<Rightarrow> proxy \<Rightarrow> proxy" where
  "proxy_released i n px =
     (case px_route i px of
        None \<Rightarrow> px
      | Some r \<Rightarrow> snd (route_send (rt_lease r) (TuReleased (l_id (rt_lease r)) n) px))"

fun proxy_call :: "service_call \<Rightarrow> proxy \<Rightarrow> service_event list \<times> proxy" where
  "proxy_call (SvDispatch i head es) px = proxy_dispatch i head es px"
| "proxy_call (SvBody i data es) px = proxy_body i data es px"
| "proxy_call (SvTrailers i flds) px = ([], proxy_trailers i flds px)"
| "proxy_call (SvCancel i code) px = ([], proxy_cancel i code px)"
| "proxy_call (SvFinish i) px = ([], proxy_finish i px)"
| "proxy_call (SvReleased i n) px = ([], proxy_released i n px)"

subsection \<open>What comes back\<close>

fun proxy_intercept :: "service_event \<Rightarrow> proxy \<Rightarrow> service_event option \<times> service_event list \<times> proxy" where
  "proxy_intercept (EvHead i resp es) px =
     (let px1 = (case px_route i px of
                   None \<Rightarrow> px
                 | Some r \<Rightarrow>
                     px_health (\<lambda>h. health_success h (rt_backend r))
                       (px_put i (r\<lparr>rt_response_started := True\<rparr>) px))
      in (Some (EvHead i resp es), [], px_stats (count_response (rs_status resp)) px1))"
| "proxy_intercept (EvGone i) px =
     (case px_route i px of
        None \<Rightarrow> (Some (EvGone i), [], px)
      | Some r \<Rightarrow>
          (case retry i (px_health (\<lambda>h. health_failure h (rt_backend r) (px_now px)) px) of
             ((True, es), px1) \<Rightarrow> (None, es, px1)
           | ((False, es), px1) \<Rightarrow> (Some (EvGone i), es, synthesized i 502 px1)))"
| "proxy_intercept (EvShed i) px =
     (let px1 = synthesized i 503 px in
      case px_route i px1 of
        None \<Rightarrow> (Some (EvShed i), [], px1)
      | Some r \<Rightarrow>
          (Some (EvShed i), [],
           px_stats close_client_stream (lease_dropped (rt_lease r) (px_delete i px1))))"
| "proxy_intercept (EvReset i code) px =
     (case px_route i px of
        None \<Rightarrow> (Some (EvReset i code), [], px)
      | Some r \<Rightarrow>
          if code = RefusedStream then
            (case retry i px of
               ((True, es), px1) \<Rightarrow> (None, es, px1)
             | ((False, es), px1) \<Rightarrow> (Some (EvReset i code), es, px1))
          else (Some (EvReset i code), [], px_health (\<lambda>h. health_failure h (rt_backend r) (px_now px)) px))"
| "proxy_intercept ev px = (Some ev, [], px)"

definition proxy_service :: "proxy service" where
  "proxy_service = \<lparr>sv_call = proxy_call, sv_intercept = proxy_intercept\<rparr>"

text \<open>\<^verbatim>\<open>Drop for Proxy\<close>: every route left is finished, then the routes go, and their leases.\<close>

definition proxy_drop :: "proxy \<Rightarrow> proxy" where
  "proxy_drop px =
     (let px1 = fold (\<lambda>(i, r). finished r) (px_routes px) px;
          px2 = px_stats client_disconnected px1
      in (fold (\<lambda>(i, r). lease_dropped (rt_lease r)) (px_routes px) px2)\<lparr>px_routes := []\<rparr>)"

end
