(* ===== verification/Pool_Props.thy ===== *)
theory Pool_Props
  imports Pool Health "HOL-Library.Code_Target_Numeral" "HOL-Library.Multiset"
begin

section \<open>What the pool promises\<close>

text \<open>
  What a checkout decides, and the pool's accounts: over any history of everything that touches a pool,
  each connection counts exactly the leases out on it, and grants every request id once.
\<close>

subsection \<open>The two selections\<close>

lemma fold_best:
  assumes "\<And>y b. pick y b = y \<or> pick y b = b"
    "\<And>y b. (key :: 'a \<Rightarrow> 'k :: linorder) y \<le> key (pick y b) \<and> key b \<le> key (pick y b)"
  shows "fold pick xs x \<in> insert x (set xs) \<and> (\<forall>y \<in> insert x (set xs). key y \<le> key (fold pick xs x))"
proof (induction xs arbitrary: x)
  case (Cons a xs)
  have "key x \<le> key (fold pick xs (pick a x))" "key a \<le> key (fold pick xs (pick a x))"
    using Cons [of "pick a x"] assms(2) [of a x] by (auto intro: order_trans)
  then show ?case using Cons [of "pick a x"] assms(1) [of a x] by auto
qed simp

lemma fold_least:
  assumes "\<And>y b. pick y b = y \<or> pick y b = b"
    "\<And>y b. key (pick y b) \<le> (key :: 'a \<Rightarrow> 'k :: linorder) y \<and> key (pick y b) \<le> key b"
  shows "fold pick xs x \<in> insert x (set xs) \<and> (\<forall>y \<in> insert x (set xs). key (fold pick xs x) \<le> key y)"
proof (induction xs arbitrary: x)
  case (Cons a xs)
  have "key (fold pick xs (pick a x)) \<le> key x" "key (fold pick xs (pick a x)) \<le> key a"
    using Cons [of "pick a x"] assms(2) [of a x] by (auto intro: order_trans)
  then show ?case using Cons [of "pick a x"] assms(1) [of a x] by auto
qed simp

lemma max_by_key_None [simp]: "max_by_key key xs = None \<longleftrightarrow> xs = []"
  by (cases xs) simp_all

lemma min_by_key_None [simp]: "min_by_key key xs = None \<longleftrightarrow> xs = []"
  by (cases xs) simp_all

lemma max_by_key_Some:
  assumes "max_by_key key xs = Some m"
  shows "m \<in> set xs" "\<And>y. y \<in> set xs \<Longrightarrow> key y \<le> key m"
proof -
  obtain x xs' where xs: "xs = x # xs'" using assms by (cases xs) simp_all
  have m: "m = fold (\<lambda>y best. if key best \<le> key y then y else best) xs' x" using assms xs by simp
  have "m \<in> insert x (set xs') \<and> (\<forall>y \<in> insert x (set xs'). key y \<le> key m)"
    unfolding m by (rule fold_best) auto
  then show "m \<in> set xs" "\<And>y. y \<in> set xs \<Longrightarrow> key y \<le> key m" using xs by auto
qed

lemma min_by_key_Some:
  assumes "min_by_key key xs = Some m"
  shows "m \<in> set xs" "\<And>y. y \<in> set xs \<Longrightarrow> key m \<le> key y"
proof -
  obtain x xs' where xs: "xs = x # xs'" using assms by (cases xs) simp_all
  have m: "m = fold (\<lambda>y best. if key best \<le> key y then best else y) xs' x" using assms xs by simp
  have "m \<in> insert x (set xs') \<and> (\<forall>y \<in> insert x (set xs'). key m \<le> key y)"
    unfolding m by (rule fold_least) auto
  then show "m \<in> set xs" "\<And>y. y \<in> set xs \<Longrightarrow> key m \<le> key y" using xs by auto
qed

subsection \<open>A checkout, case by case\<close>

definition usable_conns :: "backend \<Rightarrow> nat \<Rightarrow> pool \<Rightarrow> nat list" where
  "usable_conns b now p =
     filter (\<lambda>k. record_usable now (p_idle_timeout_ms p) (p_records p ! k)) (conns_of b p)"

definition pruned :: "backend \<Rightarrow> nat \<Rightarrow> pool \<Rightarrow> pool" where
  "pruned b now p = p\<lparr>p_backends := AList.update b (usable_conns b now p) (p_backends p)\<rparr>"

definition wants_growth :: "nat list \<Rightarrow> pool \<Rightarrow> bool" where
  "wants_growth ks p \<longleftrightarrow> ks = [] \<or> tu_growth (p_tuning p) = GrowEager \<or> (\<forall>k \<in> set ks. backed_up (p_records p ! k))"

lemma pruned_fields [simp]:
  "p_records (pruned b now p) = p_records p" "p_stats (pruned b now p) = p_stats p"
  "p_max_conns (pruned b now p) = p_max_conns p" "p_tuning (pruned b now p) = p_tuning p"
  "p_idle_timeout_ms (pruned b now p) = p_idle_timeout_ms p"
  by (simp_all add: pruned_def)

lemma conns_of_update:
  "p_backends p' = AList.update b ks (p_backends p) \<Longrightarrow> conns_of b' p' = (if b' = b then ks else conns_of b' p)"
  by (simp add: conns_of_def update_conv')

lemma conns_of_pruned [simp]:
  "conns_of b' (pruned b now p) = (if b' = b then usable_conns b now p else conns_of b' p)"
  by (rule conns_of_update) (simp add: pruned_def)

lemma checkout_cases:
  obtains (reuses) k where "k \<in> set (usable_conns b now p)" "has_room (p_records p ! k)"
      "\<And>j. j \<in> set (usable_conns b now p) \<Longrightarrow> has_room (p_records p ! j) \<Longrightarrow> r_live (p_records p ! j) \<le> r_live (p_records p ! k)"
      "checkout b now p = (Inr (fst (take_lease k now (pruned b now p))), snd (take_lease k now (pruned b now p)))"
  | (opens) k p1 where "\<forall>k \<in> set (usable_conns b now p). \<not> has_room (p_records p ! k)"
      "length (usable_conns b now p) < p_max_conns p" "wants_growth (usable_conns b now p) p"
      "open_conn b now (pruned b now p) = (k, p1)"
      "checkout b now p = (Inr (fst (take_lease k now p1)), snd (take_lease k now p1))"
  | (queues) k where "k \<in> set (usable_conns b now p)"
      "\<forall>k \<in> set (usable_conns b now p). \<not> has_room (p_records p ! k)"
      "\<not> (length (usable_conns b now p) < p_max_conns p \<and> wants_growth (usable_conns b now p) p)"
      "\<And>j. j \<in> set (usable_conns b now p) \<Longrightarrow> r_queued (p_records p ! k) \<le> r_queued (p_records p ! j)"
      "\<not> saturated (tu_max_pending (p_tuning p)) (p_records p ! k)"
      "checkout b now p = (Inr (fst (take_lease k now (pruned b now p))), snd (take_lease k now (pruned b now p)))"
  | (sheds) "usable_conns b now p \<noteq> []"
      "\<forall>k \<in> set (usable_conns b now p). \<not> has_room (p_records p ! k)"
      "\<not> (length (usable_conns b now p) < p_max_conns p \<and> wants_growth (usable_conns b now p) p)"
      "\<forall>k \<in> set (usable_conns b now p). saturated (tu_max_pending (p_tuning p)) (p_records p ! k)"
      "checkout b now p = (Inl (AtCapacity b), with_stats count_shed (pruned b now p))"
  | (unreachable) "p_max_conns p = 0" "checkout b now p = (Inl (Unreachable b), pruned b now p)"
proof -
  let ?u = "usable_conns b now p"
  let ?q = "pruned b now p"
  let ?room = "filter (\<lambda>k. has_room (p_records p ! k)) ?u"
  have grow: "(?u = [] \<or> (case tu_growth (p_tuning p) of GrowEager \<Rightarrow> True
       | GrowQueue \<Rightarrow> \<not> list_ex (\<lambda>k. \<not> backed_up (p_records p ! k)) ?u)) = wants_growth ?u p"
    by (cases "tu_growth (p_tuning p)") (auto simp: wants_growth_def list_ex_iff)
  have lease: "(case take_lease k now q of (l, q') \<Rightarrow> (Inr l, q'))
      = ((Inr (fst (take_lease k now q)) :: pool_error + lease), snd (take_lease k now q))" for k q
    by (simp add: case_prod_beta)
  have co: "checkout b now p =
      (case max_by_key (\<lambda>k. r_live (p_records p ! k)) ?room of
         Some k \<Rightarrow> (Inr (fst (take_lease k now ?q)), snd (take_lease k now ?q))
       | None \<Rightarrow>
           if length ?u < p_max_conns p \<and> wants_growth ?u p then
             (case open_conn b now ?q of (k, p1) \<Rightarrow> (Inr (fst (take_lease k now p1)), snd (take_lease k now p1)))
           else
             (case min_by_key (\<lambda>k. (r_queued (p_records p ! k), r_live (p_records p ! k))) ?u of
                None \<Rightarrow> (Inl (Unreachable b), ?q)
              | Some k \<Rightarrow>
                  if saturated (tu_max_pending (p_tuning p)) (p_records p ! k)
                  then (Inl (AtCapacity b), with_stats count_shed ?q)
                  else (Inr (fst (take_lease k now ?q)), snd (take_lease k now ?q))))"
    unfolding checkout_def Let_def usable_conns_def [symmetric] pruned_def [symmetric] pruned_fields grow lease
    by (rule refl)
  show ?thesis
  proof (cases "max_by_key (\<lambda>k. r_live (p_records p ! k)) ?room")
    case (Some k)
    show ?thesis
      by (rule reuses [of k]) (use max_by_key_Some [OF Some] co Some in \<open>auto\<close>)
  next
    case None
    then have full: "\<forall>k \<in> set ?u. \<not> has_room (p_records p ! k)" by (simp add: filter_empty_conv)
    show ?thesis
    proof (cases "length ?u < p_max_conns p \<and> wants_growth ?u p")
      case True
      obtain k p1 where o: "open_conn b now ?q = (k, p1)" by (cases "open_conn b now ?q")
      show ?thesis by (rule opens [of k p1]) (use co None True o full in simp_all)
    next
      case grown: False
      show ?thesis
      proof (cases "min_by_key (\<lambda>k. (r_queued (p_records p ! k), r_live (p_records p ! k))) ?u")
        case None': None
        then have "p_max_conns p = 0" using grown by (simp add: wants_growth_def)
        then show ?thesis using co None None' grown by (intro unreachable) simp_all
      next
        case (Some k)
        note m = min_by_key_Some [OF Some]
        have least: "r_queued (p_records p ! k) \<le> r_queued (p_records p ! j)" if "j \<in> set ?u" for j
          using m(2) [OF that] by auto
        show ?thesis
        proof (cases "saturated (tu_max_pending (p_tuning p)) (p_records p ! k)")
          case True
          have "\<forall>k \<in> set ?u. saturated (tu_max_pending (p_tuning p)) (p_records p ! k)"
            using True least by (auto simp: saturated_def intro: order_trans)
          then show ?thesis using co None Some grown full True m(1) by (intro sheds) auto
        next
          case False
          then show ?thesis using co None Some grown full m(1) least by (intro queues [of k]) auto
        qed
      qed
    qed
  qed
qed

subsection \<open>The pool at work\<close>

text \<open>
  Everything that touches a pool: the requests' checkouts, sends and drops, and each connection's
  task, which receives messages, publishes its queue and its peer's limit, retires itself and ends.
  Beside the pool, the leases granted so far and those not yet dropped.
\<close>

record pool_world =
  w_pool :: pool
  w_held :: "lease list"
  w_granted :: "lease list"

datatype pool_input =
    PCheckout backend nat
  | PSend lease to_upstream
  | PDrop lease
  | PReceive nat
  | PQueued nat nat
  | PMaxConcurrent nat nat
  | PPass nat bool nat
  | PRetire nat
  | PConnected
  | PConnectFailed nat
  | PEnded nat bool
  | PSnapshots nat

fun pool_step :: "pool_input \<Rightarrow> pool_world \<Rightarrow> pool_world" where
  "pool_step (PCheckout b now) w =
     (case checkout b now (w_pool w) of
        (Inl e, p) \<Rightarrow> w\<lparr>w_pool := p\<rparr>
      | (Inr l, p) \<Rightarrow> w\<lparr>w_pool := p, w_held := l # w_held w, w_granted := w_granted w @ [l]\<rparr>)"
| "pool_step (PSend l msg) w = w\<lparr>w_pool := snd (lease_send l msg (w_pool w))\<rparr>"
| "pool_step (PDrop l) w =
     (if l \<in> set (w_held w) then w\<lparr>w_pool := drop_lease l (w_pool w), w_held := remove1 l (w_held w)\<rparr> else w)"
| "pool_step (PReceive k) w = w\<lparr>w_pool := with_record k (\<lambda>r. r\<lparr>r_inbox := drop 1 (r_inbox r)\<rparr>) (w_pool w)\<rparr>"
| "pool_step (PQueued k n) w = w\<lparr>w_pool := with_record k (set_queued n) (w_pool w)\<rparr>"
| "pool_step (PMaxConcurrent k n) w = w\<lparr>w_pool := with_record k (set_record_max_concurrent n) (w_pool w)\<rparr>"
| "pool_step (PPass k was_read n) w = w\<lparr>w_pool := with_record k (note_pass was_read n) (w_pool w)\<rparr>"
| "pool_step (PRetire k) w = w\<lparr>w_pool := with_record k retire_record (w_pool w)\<rparr>"
| "pool_step PConnected w = w\<lparr>w_pool := connect_succeeded (w_pool w)\<rparr>"
| "pool_step (PConnectFailed k) w = w\<lparr>w_pool := snd (connect_failed k (w_pool w))\<rparr>"
| "pool_step (PEnded k timed_out) w = w\<lparr>w_pool := snd (connection_ended timed_out k (w_pool w))\<rparr>"
| "pool_step (PSnapshots now) w = w\<lparr>w_pool := snd (conn_snapshots now (w_pool w))\<rparr>"

definition pool_run :: "pool_input list \<Rightarrow> pool_world \<Rightarrow> pool_world" where
  "pool_run xs w = fold pool_step xs w"

definition world_new :: "nat \<Rightarrow> nat \<Rightarrow> tuning \<Rightarrow> pool_world" where
  "world_new max_conns idle_ms t = \<lparr>w_pool = pool_new max_conns idle_ms t, w_held = [], w_granted = []\<rparr>"

definition id_limit :: nat where
  "id_limit = unat (max_local_stream_id div 2 - id_exhaustion_margin)"

lemma id_limit_value: "id_limit = 1073741759"
  by (simp add: id_limit_def max_local_stream_id_def id_exhaustion_margin_def)

definition leases_on :: "nat \<Rightarrow> lease list \<Rightarrow> lease list" where
  "leases_on k ls = filter (\<lambda>l. l_conn l = k) ls"

definition lists_ok :: "pool \<Rightarrow> bool" where
  "lists_ok p \<longleftrightarrow> 0 < p_max_conns p
     \<and> (\<forall>b. distinct (conns_of b p) \<and> length (conns_of b p) \<le> p_max_conns p
           \<and> set (conns_of b p) \<subseteq> {..<length (p_records p)})
     \<and> (\<forall>b b'. b \<noteq> b' \<longrightarrow> set (conns_of b p) \<inter> set (conns_of b' p) = {})"

definition leases_ok :: "pool_world \<Rightarrow> bool" where
  "leases_ok w \<longleftrightarrow>
     (\<forall>k < length (p_records (w_pool w)).
        r_live (p_records (w_pool w) ! k) = length (leases_on k (w_held w))
        \<and> map l_id (leases_on k (w_granted w)) = map word_of_nat [0..<unat (r_issued (p_records (w_pool w) ! k))]
        \<and> unat (r_issued (p_records (w_pool w) ! k)) \<le> id_limit)
     \<and> (\<forall>l \<in> set (w_granted w) \<union> set (w_held w). l_conn l < length (p_records (w_pool w)))
     \<and> mset (w_held w) \<subseteq># mset (w_granted w)"

definition pool_ok :: "pool_world \<Rightarrow> bool" where
  "pool_ok w \<longleftrightarrow> lists_ok (w_pool w) \<and> leases_ok w"

text \<open>Steps that leave alone what the accounts are made of.\<close>

definition same_books :: "pool \<Rightarrow> pool \<Rightarrow> bool" where
  "same_books p p' \<longleftrightarrow> p_backends p' = p_backends p \<and> p_max_conns p' = p_max_conns p
     \<and> map r_live (p_records p') = map r_live (p_records p)
     \<and> map r_issued (p_records p') = map r_issued (p_records p)"

lemma same_booksD:
  assumes "same_books p p'"
  shows "length (p_records p') = length (p_records p)" "conns_of b p' = conns_of b p"
    "k < length (p_records p) \<Longrightarrow> r_live (p_records p' ! k) = r_live (p_records p ! k)"
    "k < length (p_records p) \<Longrightarrow> r_issued (p_records p' ! k) = r_issued (p_records p ! k)"
    "p_max_conns p' = p_max_conns p"
proof -
  have l: "map r_live (p_records p') = map r_live (p_records p)"
    and i: "map r_issued (p_records p') = map r_issued (p_records p)"
    using assms by (simp_all add: same_books_def)
  show len: "length (p_records p') = length (p_records p)" using arg_cong [OF l, of length] by simp
  show "r_live (p_records p' ! k) = r_live (p_records p ! k)" if "k < length (p_records p)"
    using arg_cong [OF l, of "\<lambda>xs. xs ! k"] len that by simp
  show "r_issued (p_records p' ! k) = r_issued (p_records p ! k)" if "k < length (p_records p)"
    using arg_cong [OF i, of "\<lambda>xs. xs ! k"] len that by simp
qed (use assms in \<open>simp_all add: same_books_def conns_of_def\<close>)

lemma same_books_ok: "same_books (w_pool w) p' \<Longrightarrow> pool_ok w \<Longrightarrow> pool_ok (w\<lparr>w_pool := p'\<rparr>)"
  by (simp add: pool_ok_def lists_ok_def leases_ok_def same_booksD)

lemma same_books_refl [simp]: "same_books p p"
  by (simp add: same_books_def)

lemma same_books_trans: "same_books p q \<Longrightarrow> same_books q r \<Longrightarrow> same_books p r"
  by (simp add: same_books_def)

lemma map_update_same: "g y = g (xs ! k) \<Longrightarrow> map g (xs[k := y]) = map g xs"
  by (cases "k < length xs") (simp_all add: map_update list_update_same_conv list_update_beyond)

lemma same_books_with_record:
  assumes "\<And>r. r_live (f r) = r_live r" "\<And>r. r_issued (f r) = r_issued r"
  shows "same_books p (with_record k f p)"
  unfolding same_books_def with_record_def
  by (simp add: map_update_same assms)

lemma same_books_with_stats [simp]: "same_books p (with_stats f p)"
  by (simp add: same_books_def with_stats_def)

lemma same_books_snapshots: "same_books p (snd (snapshot_all ks p))"
proof (induction ks arbitrary: p)
  case (Cons k ks)
  obtain sn r where r: "record_snapshot (p_records p ! k) = (sn, r)" by (cases "record_snapshot (p_records p ! k)")
  have "same_books p (with_record k (\<lambda>_. r) p)"
    using r by (auto simp: same_books_def with_record_def record_snapshot_def intro!: map_update_same)
  from same_books_trans [OF this Cons.IH] show ?case
    by (cases "snapshot_all ks (with_record k (\<lambda>_. r) p)") (simp add: r)
qed simp

subsection \<open>What a checkout, a drop and an end do to the accounts\<close>

lemma lists_ok_shrink:
  assumes "lists_ok p" "\<And>b. set (conns_of b p') \<subseteq> set (conns_of b p)" "\<And>b. distinct (conns_of b p')"
    "\<And>b. length (conns_of b p') \<le> length (conns_of b p)"
    "p_max_conns p' = p_max_conns p" "length (p_records p') = length (p_records p)"
  shows "lists_ok p'"
  unfolding lists_ok_def assms(5,6)
proof (intro conjI allI impI)
  show "0 < p_max_conns p" using assms(1) by (simp add: lists_ok_def)
  fix b
  show "distinct (conns_of b p')" by (rule assms(3))
  show "length (conns_of b p') \<le> p_max_conns p"
    using assms(1) assms(4) [of b] unfolding lists_ok_def by (meson order_trans)
  show "set (conns_of b p') \<subseteq> {..<length (p_records p)}"
    using assms(1) assms(2) [of b] unfolding lists_ok_def by blast
next
  fix b b' :: backend assume "b \<noteq> b'"
  then show "set (conns_of b p') \<inter> set (conns_of b' p') = {}"
    using assms(1) assms(2) [of b] assms(2) [of b'] unfolding lists_ok_def by blast
qed

lemma pruned_lists_ok: "lists_ok p \<Longrightarrow> lists_ok (pruned b now p)"
  by (rule lists_ok_shrink) (auto simp: usable_conns_def lists_ok_def)

lemma pruned_ok:
  assumes "pool_ok w"
  shows "pool_ok (w\<lparr>w_pool := pruned b now (w_pool w)\<rparr>)"
  using assms pruned_lists_ok [of "w_pool w" b now] by (simp add: pool_ok_def leases_ok_def)

lemma opened_fields:
  assumes "open_conn b now p = (k, p1)"
  shows "k = length (p_records p)" "p_records p1 = p_records p @ [record_new now]"
    "conns_of b' p1 = (if b' = b then conns_of b p @ [k] else conns_of b' p)"
    "p_max_conns p1 = p_max_conns p" "p_tuning p1 = p_tuning p"
    "p_stats p1 = connect_attempt (p_stats p)"
  using assms by (auto simp: open_conn_def with_stats_def conns_of_def update_conv')

lemma leases_on_beyond: "\<forall>l \<in> set ls. l_conn l < n \<Longrightarrow> leases_on n ls = []"
  by (auto simp: leases_on_def filter_empty_conv)

lemma opened_ok:
  assumes "pool_ok w" "open_conn b now (w_pool w) = (k, p1)" "length (conns_of b (w_pool w)) < p_max_conns (w_pool w)"
  shows "pool_ok (w\<lparr>w_pool := p1\<rparr>)"
proof -
  note f = opened_fields [OF assms(2)]
  have l: "lists_ok (w_pool w)" using assms(1) by (simp add: pool_ok_def)
  have inside: "j < k" if "j \<in> set (conns_of b' (w_pool w))" for j b'
    using l that by (auto simp: lists_ok_def f(1))
  have "lists_ok p1"
    unfolding lists_ok_def f(2-4)
  proof (intro conjI allI impI)
    show "0 < p_max_conns (w_pool w)" using l by (simp add: lists_ok_def)
  next
    fix b'
    show "distinct (if b' = b then conns_of b (w_pool w) @ [k] else conns_of b' (w_pool w))"
      using l inside by (auto simp: lists_ok_def)
    show "length (if b' = b then conns_of b (w_pool w) @ [k] else conns_of b' (w_pool w)) \<le> p_max_conns (w_pool w)"
      using l assms(3) by (auto simp: lists_ok_def)
    show "set (if b' = b then conns_of b (w_pool w) @ [k] else conns_of b' (w_pool w))
        \<subseteq> {..<length (p_records (w_pool w) @ [record_new now])}"
      using inside f(1) by (auto simp: less_Suc_eq)
  next
    fix b1 b2 :: backend assume "b1 \<noteq> b2"
    then show "set (if b1 = b then conns_of b (w_pool w) @ [k] else conns_of b1 (w_pool w))
        \<inter> set (if b2 = b then conns_of b (w_pool w) @ [k] else conns_of b2 (w_pool w)) = {}"
      using l inside unfolding lists_ok_def by (auto split: if_splits)
  qed
  moreover have "leases_ok (w\<lparr>w_pool := p1\<rparr>)"
    using assms(1) leases_on_beyond [of "w_held w" k] leases_on_beyond [of "w_granted w" k]
    by (auto simp: pool_ok_def leases_ok_def f(1,2) nth_append record_new_def less_Suc_eq id_limit_value)
  ultimately show ?thesis by (simp add: pool_ok_def)
qed

lemma leases_on_Cons: "leases_on k (l # ls) = (if l_conn l = k then l # leases_on k ls else leases_on k ls)"
  by (simp add: leases_on_def)

lemma leases_on_append: "leases_on k (ls @ [l]) = leases_on k ls @ (if l_conn l = k then [l] else [])"
  by (simp add: leases_on_def)

lemma granted_ok:
  assumes "pool_ok w" "k < length (p_records (w_pool w))" "unat (r_issued (p_records (w_pool w) ! k)) < id_limit"
    "take_lease k now (w_pool w) = (l, p1)"
  shows "pool_ok (w\<lparr>w_pool := p1, w_held := l # w_held w, w_granted := w_granted w @ [l]\<rparr>)"
proof -
  let ?r = "p_records (w_pool w) ! k"
  have l: "l_conn l = k" "l_id l = r_issued ?r"
    and recs: "p_records p1 = (p_records (w_pool w))[k := snd (record_lease now ?r)]"
    and rest: "p_backends p1 = p_backends (w_pool w)" "p_max_conns p1 = p_max_conns (w_pool w)"
    using assms(4) by (auto simp: take_lease_def record_lease_def with_record_def)
  have next_id: "unat (r_issued ?r + 1) = Suc (unat (r_issued ?r))"
    using assms(3) by (simp add: id_limit_value unat_word_ariths)
  have "lists_ok p1" using assms(1) by (simp add: pool_ok_def lists_ok_def conns_of_def rest recs)
  moreover have "leases_ok (w\<lparr>w_pool := p1, w_held := l # w_held w, w_granted := w_granted w @ [l]\<rparr>)"
    unfolding leases_ok_def
  proof (intro conjI allI impI)
    fix j assume "j < length (p_records (w_pool (w\<lparr>w_pool := p1, w_held := l # w_held w, w_granted := w_granted w @ [l]\<rparr>)))"
    then have j: "j < length (p_records (w_pool w))" by (simp add: recs)
    note old = assms(1) [unfolded pool_ok_def leases_ok_def, THEN conjunct2, THEN conjunct1, rule_format, OF j]
    show "r_live (p_records (w_pool (w\<lparr>w_pool := p1, w_held := l # w_held w, w_granted := w_granted w @ [l]\<rparr>)) ! j)
        = length (leases_on j (w_held (w\<lparr>w_pool := p1, w_held := l # w_held w, w_granted := w_granted w @ [l]\<rparr>)))"
      using old j by (auto simp: recs nth_list_update record_lease_def leases_on_Cons l)
    show "map l_id (leases_on j (w_granted (w\<lparr>w_pool := p1, w_held := l # w_held w, w_granted := w_granted w @ [l]\<rparr>)))
        = map word_of_nat [0..<unat (r_issued (p_records (w_pool (w\<lparr>w_pool := p1, w_held := l # w_held w, w_granted := w_granted w @ [l]\<rparr>)) ! j))]"
      using old j next_id
      by (cases "j = k") (simp_all add: recs nth_list_update record_lease_def leases_on_append l)
    show "unat (r_issued (p_records (w_pool (w\<lparr>w_pool := p1, w_held := l # w_held w, w_granted := w_granted w @ [l]\<rparr>)) ! j)) \<le> id_limit"
      using old j assms(3) next_id by (cases "j = k") (simp_all add: recs nth_list_update record_lease_def)
  qed (use assms(1,2) in \<open>auto simp: pool_ok_def leases_ok_def recs l\<close>)
  ultimately show ?thesis by (simp add: pool_ok_def)
qed

lemma leases_on_remove1:
  "leases_on j (remove1 l ls) = (if j = l_conn l then remove1 l (leases_on j ls) else leases_on j ls)"
  by (simp add: leases_on_def filter_remove1 remove1_idem)

lemma dropped_ok:
  assumes "pool_ok w" "l \<in> set (w_held w)"
  shows "pool_ok (w\<lparr>w_pool := drop_lease l (w_pool w), w_held := remove1 l (w_held w)\<rparr>)"
proof -
  let ?k = "l_conn l"
  have k: "?k < length (p_records (w_pool w))" using assms by (auto simp: pool_ok_def leases_ok_def)
  note on = leases_on_remove1 [of _ l]
  have mem: "l \<in> set (leases_on ?k (w_held w))" using assms(2) by (simp add: leases_on_def)
  then have "0 < length (leases_on ?k (w_held w))" by (cases "leases_on ?k (w_held w)") simp_all
  then have live: "r_live (p_records (w_pool w) ! ?k) \<noteq> 0"
    using assms(1) k by (simp add: pool_ok_def leases_ok_def)
  have recs: "length (p_records (drop_lease l (w_pool w))) = length (p_records (w_pool w))"
    "r_issued (p_records (drop_lease l (w_pool w)) ! j) = r_issued (p_records (w_pool w) ! j)"
    "r_live (p_records (drop_lease l (w_pool w)) ! j)
      = (if j = ?k then r_live (p_records (w_pool w) ! j) - 1 else r_live (p_records (w_pool w) ! j))" for j
    using k live by (auto simp: drop_lease_def with_record_def nth_list_update)
  have "lists_ok (drop_lease l (w_pool w))"
    using assms(1) by (simp add: pool_ok_def lists_ok_def drop_lease_def with_record_def conns_of_def)
  moreover have "leases_ok (w\<lparr>w_pool := drop_lease l (w_pool w), w_held := remove1 l (w_held w)\<rparr>)"
    unfolding leases_ok_def
  proof (intro conjI allI impI)
    fix j assume "j < length (p_records (w_pool (w\<lparr>w_pool := drop_lease l (w_pool w), w_held := remove1 l (w_held w)\<rparr>)))"
    then have j: "j < length (p_records (w_pool w))" by (simp add: recs)
    note old = assms(1) [unfolded pool_ok_def leases_ok_def, THEN conjunct2, THEN conjunct1, rule_format, OF j]
    show "r_live (p_records (w_pool (w\<lparr>w_pool := drop_lease l (w_pool w), w_held := remove1 l (w_held w)\<rparr>)) ! j)
        = length (leases_on j (w_held (w\<lparr>w_pool := drop_lease l (w_pool w), w_held := remove1 l (w_held w)\<rparr>)))"
      using old mem by (cases "j = ?k") (simp_all add: recs on length_remove1)
    show "map l_id (leases_on j (w_granted (w\<lparr>w_pool := drop_lease l (w_pool w), w_held := remove1 l (w_held w)\<rparr>)))
        = map word_of_nat [0..<unat (r_issued (p_records (w_pool (w\<lparr>w_pool := drop_lease l (w_pool w), w_held := remove1 l (w_held w)\<rparr>)) ! j))]"
      "unat (r_issued (p_records (w_pool (w\<lparr>w_pool := drop_lease l (w_pool w), w_held := remove1 l (w_held w)\<rparr>)) ! j)) \<le> id_limit"
      using old by (simp_all add: recs)
  next
    have "set (remove1 l (w_held w)) \<subseteq> set (w_held w)" by (rule set_remove1_subset)
    then show "\<forall>l' \<in> set (w_granted (w\<lparr>w_pool := drop_lease l (w_pool w), w_held := remove1 l (w_held w)\<rparr>))
        \<union> set (w_held (w\<lparr>w_pool := drop_lease l (w_pool w), w_held := remove1 l (w_held w)\<rparr>)).
        l_conn l' < length (p_records (w_pool (w\<lparr>w_pool := drop_lease l (w_pool w), w_held := remove1 l (w_held w)\<rparr>)))"
      using assms(1) by (auto simp: pool_ok_def leases_ok_def recs)
    show "mset (w_held (w\<lparr>w_pool := drop_lease l (w_pool w), w_held := remove1 l (w_held w)\<rparr>))
        \<subseteq># mset (w_granted (w\<lparr>w_pool := drop_lease l (w_pool w), w_held := remove1 l (w_held w)\<rparr>))"
      using assms(1) by (auto simp: pool_ok_def leases_ok_def intro: subset_mset.order_trans [OF diff_subset_eq_self])
  qed
  ultimately show ?thesis by (simp add: pool_ok_def)
qed

lemma usable_below_limit:
  "k \<in> set (usable_conns b now p) \<Longrightarrow> unat (r_issued (p_records p ! k)) < id_limit"
  by (simp add: usable_conns_def record_usable_def Let_def id_limit_def word_less_nat_alt)

lemma checkout_ok:
  assumes "pool_ok w"
  shows "pool_ok (pool_step (PCheckout b now) w)"
proof -
  let ?p = "pruned b now (w_pool w)"
  have pr: "pool_ok (w\<lparr>w_pool := ?p\<rparr>)" by (rule pruned_ok [OF assms])
  have inside: "k < length (p_records (w_pool w))" if "k \<in> set (usable_conns b now (w_pool w))" for k
    using assms that by (auto simp: pool_ok_def lists_ok_def usable_conns_def)
  have lease: "pool_ok (w\<lparr>w_pool := p1, w_held := l # w_held w, w_granted := w_granted w @ [l]\<rparr>)"
    if "k \<in> set (usable_conns b now (w_pool w))" "take_lease k now ?p = (l, p1)" for k l p1
    using granted_ok [OF pr, of k now l p1] that inside [OF that(1)] usable_below_limit [OF that(1)] by simp
  show ?thesis
  proof (cases rule: checkout_cases [of b now "w_pool w"])
    case (reuses k)
    then show ?thesis using lease [OF reuses(1)] by (cases "take_lease k now ?p") simp
  next
    case (opens k p1)
    note f = opened_fields [OF opens(4)]
    have o: "pool_ok (w\<lparr>w_pool := p1\<rparr>)"
      using opened_ok [OF pr, of b now k p1] opens(2,4) by simp
    show ?thesis
      using granted_ok [OF o, of k now] opens(5) f(1,2)
      by (cases "take_lease k now p1") (simp add: record_new_def id_limit_value)
  next
    case (queues k)
    then show ?thesis using lease [OF queues(1)] by (cases "take_lease k now ?p") simp
  next
    case sheds
    then show ?thesis using same_books_ok [OF _ pr, of "with_stats count_shed ?p"] by simp
  next
    case unreachable
    then show ?thesis using pr by simp
  qed
qed

lemma same_books_retired: "same_books p q \<Longrightarrow> same_books p (with_record k retire_record q)"
  by (rule same_books_trans [OF _ same_books_with_record]) (simp_all add: retire_record_def)

lemma same_books_inbox: "same_books q (with_record k (\<lambda>r. r\<lparr>r_inbox := [], r_receiver_gone := True\<rparr>) q)"
  by (rule same_books_with_record) simp_all

lemma same_books_connect_failed: "same_books p (snd (connect_failed k p))"
  using same_books_retired [OF same_books_trans [OF same_books_with_stats same_books_inbox]]
  by (simp add: connect_failed_def fail_pending_def)

lemma same_books_ended: "same_books p (snd (connection_ended timed_out k p))"
proof -
  have s: "same_books p (with_stats close_connection (snd (fail_pending k p)))"
    unfolding fail_pending_def snd_conv by (rule same_books_trans [OF same_books_inbox same_books_with_stats])
  show ?thesis
    using same_books_retired [OF s] same_books_retired [OF same_books_trans [OF s same_books_with_stats]]
    by (simp add: connection_ended_def Let_def case_prod_beta)
qed

lemma pool_step_ok:
  assumes "pool_ok w"
  shows "pool_ok (pool_step x w)"
proof (cases x)
  case (PCheckout b now)
  then show ?thesis using checkout_ok [OF assms] by simp
next
  case (PDrop l)
  then show ?thesis using assms dropped_ok by simp
next
  case (PSend l msg)
  have "same_books (w_pool w) (snd (lease_send l msg (w_pool w)))"
    by (simp add: lease_send_def same_books_with_record)
  then show ?thesis using same_books_ok [OF _ assms] PSend by simp
next
  case (PConnectFailed k)
  have "same_books (w_pool w) (snd (connect_failed k (w_pool w)))" by (rule same_books_connect_failed)
  then show ?thesis using same_books_ok [OF _ assms] PConnectFailed by simp
next
  case (PEnded k timed_out)
  have "same_books (w_pool w) (snd (connection_ended timed_out k (w_pool w)))" by (rule same_books_ended)
  then show ?thesis using same_books_ok [OF _ assms] PEnded by simp
next
  case PConnected
  then show ?thesis using same_books_ok [OF same_books_with_stats assms] by (simp add: connect_succeeded_def)
next
  case (PSnapshots now)
  then show ?thesis using same_books_ok [OF _ assms] same_books_snapshots by (simp add: conn_snapshots_def)
qed (use same_books_ok [OF same_books_with_record assms] in
    \<open>simp_all add: set_queued_def set_record_max_concurrent_def note_pass_def retire_record_def\<close>)

lemma pool_run_ok: "pool_ok w \<Longrightarrow> pool_ok (pool_run xs w)"
  unfolding pool_run_def by (induction xs arbitrary: w) (simp_all add: pool_step_ok)

lemma world_new_ok: "pool_ok (world_new m idle t)"
  by (simp add: pool_ok_def lists_ok_def leases_ok_def world_new_def pool_new_def conns_of_def)

subsection \<open>The properties\<close>

lemma take_lease_fields [simp]:
  "fst (take_lease k now p) = \<lparr>l_conn = k, l_id = r_issued (p_records p ! k)\<rparr>"
  "length (p_records (snd (take_lease k now p))) = length (p_records p)"
  "p_stats (snd (take_lease k now p)) = p_stats p"
  by (simp_all add: take_lease_def record_lease_def with_record_def)

text \<open>C13. What a checkout decides, in every case. A usable connection with room is shared, and it is
  the fullest such (coalescing); with none, another is opened only below the ceiling and when the
  growth policy asks for it; past that the request waits on the connection with the shortest queue,
  and is refused exactly when every usable connection already holds all it may queue. A refusal
  touches no connection.\<close>

theorem checkout_exact:
  assumes "0 < p_max_conns p" "usable_conns b now p = ks"
  shows "if \<exists>k \<in> set ks. has_room (p_records p ! k) then
      (\<exists>k \<in> set ks. has_room (p_records p ! k)
         \<and> (\<forall>j \<in> set ks. has_room (p_records p ! j) \<longrightarrow> r_live (p_records p ! j) \<le> r_live (p_records p ! k))
         \<and> fst (checkout b now p) = Inr \<lparr>l_conn = k, l_id = r_issued (p_records p ! k)\<rparr>)
      \<and> length (p_records (snd (checkout b now p))) = length (p_records p)
    else if length ks < p_max_conns p \<and> wants_growth ks p then
      fst (checkout b now p) = Inr \<lparr>l_conn = length (p_records p), l_id = 0\<rparr>
      \<and> length (p_records (snd (checkout b now p))) = Suc (length (p_records p))
      \<and> ps_connects (p_stats (snd (checkout b now p))) = Suc (ps_connects (p_stats p))
    else if \<forall>k \<in> set ks. tu_max_pending (p_tuning p) \<le> r_queued (p_records p ! k) then
      fst (checkout b now p) = Inl (AtCapacity b) \<and> p_records (snd (checkout b now p)) = p_records p
      \<and> ps_shed (p_stats (snd (checkout b now p))) = Suc (ps_shed (p_stats p))
    else
      (\<exists>k \<in> set ks. r_queued (p_records p ! k) < tu_max_pending (p_tuning p)
         \<and> (\<forall>j \<in> set ks. r_queued (p_records p ! k) \<le> r_queued (p_records p ! j))
         \<and> fst (checkout b now p) = Inr \<lparr>l_conn = k, l_id = r_issued (p_records p ! k)\<rparr>)
      \<and> length (p_records (snd (checkout b now p))) = length (p_records p)"
proof (cases rule: checkout_cases [of b now p])
  case (reuses k)
  then show ?thesis using assms(2) by auto
next
  case (opens k p1)
  note f = opened_fields [OF opens(4)]
  show ?thesis
    using opens(1-3,5) f assms(2) by (simp add: record_new_def connect_attempt_def)
next
  case (queues k)
  then have "\<not> (\<forall>k \<in> set ks. tu_max_pending (p_tuning p) \<le> r_queued (p_records p ! k))"
    "\<not> (\<exists>k \<in> set ks. has_room (p_records p ! k))"
    using assms(2) by (auto simp: saturated_def)
  then show ?thesis using queues assms(2) by (auto simp: saturated_def not_le)
next
  case sheds
  then show ?thesis using assms(2) by (simp add: saturated_def with_stats_def count_shed_def)
next
  case unreachable
  then show ?thesis using assms(1) by simp
qed

definition sample_pool :: pool where
  "sample_pool = pool_new 2 60000 tuning_default"

theorem checkout_exact_witness:
  "fst (checkout (sample_backend 80) 0 sample_pool) = Inr \<lparr>l_conn = 0, l_id = 0\<rparr>"
proof -
  have u: "usable_conns (sample_backend 80) 0 sample_pool = []" and m: "0 < p_max_conns sample_pool"
    by (simp_all add: usable_conns_def conns_of_def sample_pool_def pool_new_def)
  from checkout_exact [OF m u] m show ?thesis
    by (simp add: wants_growth_def) (simp add: sample_pool_def pool_new_def)
qed

lemma unat_small: "j < 2 ^ 32 \<Longrightarrow> unat (word_of_nat j :: u32) = j"
  by (simp add: unsigned_of_nat take_bit_nat_eq_self)

lemma granted_ids:
  assumes "pool_ok w" "k < length (p_records (w_pool w))"
  shows "distinct (leases_on k (w_granted w))"
    "l \<in> set (leases_on k (w_granted w)) \<Longrightarrow> unat (l_id l) < id_limit"
proof -
  let ?n = "unat (r_issued (p_records (w_pool w) ! k))"
  have ids: "map l_id (leases_on k (w_granted w)) = map word_of_nat [0..<?n]" and n: "?n \<le> id_limit"
    using assms by (simp_all add: pool_ok_def leases_ok_def)
  have small: "unat (word_of_nat j :: u32) = j" if "j < ?n" for j
    using that n by (intro unat_small) (simp add: id_limit_value)
  have inj: "inj_on (word_of_nat :: nat \<Rightarrow> u32) {0..<?n}"
    by (rule inj_on_inverseI [where g = unat]) (simp add: small)
  have "distinct (map l_id (leases_on k (w_granted w)))" unfolding ids by (simp add: distinct_map inj)
  then show "distinct (leases_on k (w_granted w))" by (simp add: distinct_map)
  assume "l \<in> set (leases_on k (w_granted w))"
  then have i: "l_id l \<in> set (map l_id (leases_on k (w_granted w)))" by simp
  obtain j where "j < ?n" "l_id l = word_of_nat j" using i unfolding ids by auto
  then show "unat (l_id l) < id_limit" using small n by simp
qed

lemma at_most_once: "distinct xs \<longleftrightarrow> (\<forall>a. count (mset xs) a \<le> 1)"
proof
  assume "distinct xs"
  then show "\<forall>a. count (mset xs) a \<le> 1" by (simp add: distinct_count_atmost_1)
next
  assume most: "\<forall>a. count (mset xs) a \<le> 1"
  have "count (mset xs) a = (if a \<in> set xs then 1 else 0)" for a
  proof (cases "a \<in> set xs")
    case True
    then have "count (mset xs) a \<noteq> 0" by (simp add: count_eq_zero_iff)
    then have "count (mset xs) a = 1" using most [rule_format, of a] by linarith
    then show ?thesis using True by simp
  next
    case False
    then show ?thesis by (simp add: count_eq_zero_iff)
  qed
  then show "distinct xs" by (simp add: distinct_count_atmost_1)
qed

lemma held_distinct:
  assumes "pool_ok w"
  shows "distinct (w_held w)"
proof -
  have "count (mset (w_granted w)) l \<le> 1" for l
  proof (cases "l \<in> set (w_granted w)")
    case True
    then have "l_conn l < length (p_records (w_pool w))" using assms by (simp add: pool_ok_def leases_ok_def)
    from granted_ids(1) [OF assms this]
    have "count (mset (leases_on (l_conn l) (w_granted w))) l \<le> 1" by (simp only: at_most_once)
    then show ?thesis by (simp add: leases_on_def)
  next
    case False
    then have "count (mset (w_granted w)) l = 0" by (simp add: count_eq_zero_iff)
    then show ?thesis by linarith
  qed
  moreover have "count (mset (w_held w)) l \<le> count (mset (w_granted w)) l" for l
    using assms by (simp add: pool_ok_def leases_ok_def mset_subset_eq_count)
  ultimately show ?thesis unfolding at_most_once by (meson le_trans)
qed

text \<open>C11. The pool's books are exact, whatever the clients and the connections do and in whatever
  order. A connection's count of live streams, which the balancer and the room check read, is the
  number of leases on it not yet dropped (so the wrapping subtraction never wraps); the requests it
  has been given are numbered 0, 1, 2, ... with no repetition, and stop early enough that the odd
  stream id each will get is below 2^31; and no backend ever has more connections in rotation than
  the ceiling.\<close>

theorem pool_accounts:
  assumes "w = pool_run xs (world_new m idle t)" "k < length (p_records (w_pool w))"
  shows "r_live (p_records (w_pool w) ! k) = length (leases_on k (w_held w))
    \<and> map l_id (leases_on k (w_granted w)) = map word_of_nat [0..<unat (r_issued (p_records (w_pool w) ! k))]
    \<and> distinct (leases_on k (w_granted w))
    \<and> list_all (\<lambda>l. 2 * unat (l_id l) + 1 < unat max_local_stream_id) (leases_on k (w_granted w))
    \<and> length (conns_of b (w_pool w)) \<le> p_max_conns (w_pool w)"
proof -
  have ok: "pool_ok w" unfolding assms(1) by (rule pool_run_ok [OF world_new_ok])
  note ids = granted_ids [OF ok assms(2)]
  have "2 * unat (l_id l) + 1 < unat max_local_stream_id" if "l \<in> set (leases_on k (w_granted w))" for l
    using ids(2) [OF that] by (simp add: id_limit_value max_local_stream_id_def)
  then have "list_all (\<lambda>l. 2 * unat (l_id l) + 1 < unat max_local_stream_id) (leases_on k (w_granted w))"
    by (simp add: list_all_iff)
  then show ?thesis using ok assms(2) ids(1) by (simp add: pool_ok_def lists_ok_def leases_ok_def)
qed

definition sample_leases :: "pool_input list" where
  "sample_leases = [PCheckout (sample_backend 80) 0, PCheckout (sample_backend 80) 5,
     PDrop \<lparr>l_conn = 0, l_id = 0\<rparr>, PCheckout (sample_backend 80) 9]"

theorem pool_accounts_witness:
  "length (leases_on 0 (w_held (pool_run sample_leases (world_new 2 60000 tuning_default)))) = 2
   \<and> r_live (p_records (w_pool (pool_run sample_leases (world_new 2 60000 tuning_default))) ! 0) = 2"
proof -
  have "length (p_records (w_pool (pool_run sample_leases (world_new 2 60000 tuning_default)))) = 1"
    and h: "length (leases_on 0 (w_held (pool_run sample_leases (world_new 2 60000 tuning_default)))) = 2"
    by code_simp+
  then show ?thesis
    using pool_accounts [of "pool_run sample_leases (world_new 2 60000 tuning_default)" sample_leases 2 60000
        tuning_default 0] by simp
qed

text \<open>A connection at its peer's stream limit whose queue has reached the bound but not yet the
  peer's limit is not reported backed up, so the pool refuses the request though it could open
  another connection.\<close>

lemma refused_below_the_ceiling:
  assumes "usable_conns b now p = [k]" "1 < p_max_conns p" "tu_growth (p_tuning p) = GrowQueue"
    "r_live (p_records p ! k) = r_max_concurrent (p_records p ! k)"
    "tu_max_pending (p_tuning p) \<le> r_queued (p_records p ! k)"
    "r_queued (p_records p ! k) < r_max_concurrent (p_records p ! k)"
  shows "fst (checkout b now p) = Inl (AtCapacity b)"
  using assms
  by (cases rule: checkout_cases [of b now p])
    (auto simp: has_room_def wants_growth_def backed_up_def saturated_def)

end
