(* ===== verification/Proxy_Books.thy ===== *)
theory Proxy_Books
  imports Proxy Pool_Props
begin

section \<open>The proxy's leases\<close>

text \<open>
  A route holds exactly one lease and is the only one to hold it. The pool's accounts are carried
  along every operation of a proxy, with the leases its routes hold as part of those outstanding;
  the rest are held by other client connections, or in the middle of changing hands.
\<close>

subsection \<open>The books of a proxy\<close>

abbreviation px_p :: "proxy \<Rightarrow> pool" where "px_p px \<equiv> sh_pool (px_shared px)"

definition route_leases :: "proxy \<Rightarrow> lease list" where
  "route_leases px = map (rt_lease \<circ> snd) (px_routes px)"

definition books :: "lease multiset \<Rightarrow> proxy \<Rightarrow> bool" where
  "books rest px \<longleftrightarrow> distinct (map fst (px_routes px)) \<and>
     (\<exists>w. pool_ok w \<and> w_pool w = px_p px \<and> mset (w_held w) = rest + mset (route_leases px))"

lemma booksE:
  assumes "books rest px"
  obtains w where "pool_ok w" "w_pool w = px_p px" "mset (w_held w) = rest + mset (route_leases px)"
    "distinct (map fst (px_routes px))"
  using assms by (auto simp: books_def)

lemma px_simps [simp]:
  "px_routes (px_pool f px) = px_routes px" "px_events (px_pool f px) = px_events px"
  "px_p (px_pool f px) = f (px_p px)" "px_routes (px_stats g px) = px_routes px"
  "px_events (px_stats g px) = px_events px" "px_p (px_stats g px) = with_stats g (px_p px)"
  "px_routes (px_health h px) = px_routes px" "px_events (px_health h px) = px_events px"
  "px_p (px_health h px) = px_p px"
  "px_routes (px_put i r px) = AList.update i r (px_routes px)" "px_shared (px_put i r px) = px_shared px"
  "px_events (px_put i r px) = px_events px" "px_events (px_delete i px) = px_events px"
  "px_routes (px_delete i px) = AList.delete i (px_routes px)" "px_shared (px_delete i px) = px_shared px"
  "px_routes (lease_dropped l px) = px_routes px" "px_events (lease_dropped l px) = px_events px"
  "px_p (lease_dropped l px) = drop_lease l (px_p px)"
  by (simp_all add: px_pool_def px_stats_def px_health_def px_put_def px_delete_def lease_dropped_def)

lemma books_pool:
  assumes "books rest px" "px_routes px' = px_routes px"
    "\<And>w. pool_ok w \<Longrightarrow> w_pool w = px_p px \<Longrightarrow> mset (w_held w) = rest + mset (route_leases px) \<Longrightarrow>
       \<exists>w'. pool_ok w' \<and> w_pool w' = px_p px' \<and> mset (w_held w') = rest' + mset (route_leases px)"
  shows "books rest' px'"
proof -
  have "route_leases px' = route_leases px" by (simp add: route_leases_def assms(2))
  with assms show ?thesis unfolding books_def by metis
qed

lemma books_same:
  assumes "books rest px" "px_routes px' = px_routes px" "same_books (px_p px) (px_p px')"
  shows "books rest px'"
proof (rule books_pool [OF assms(1,2)])
  fix w assume "pool_ok w" "w_pool w = px_p px" "mset (w_held w) = rest + mset (route_leases px)"
  then show "\<exists>w'. pool_ok w' \<and> w_pool w' = px_p px' \<and> mset (w_held w') = rest + mset (route_leases px)"
    using same_books_ok [of w "px_p px'"] assms(3) by (intro exI [of _ "w\<lparr>w_pool := px_p px'\<rparr>"]) simp
qed

lemma books_stats [simp]: "books rest px \<Longrightarrow> books rest (px_stats f px)"
  by (erule books_same) simp_all

lemma books_health [simp]: "books rest px \<Longrightarrow> books rest (px_health f px)"
  by (erule books_same) simp_all

lemma books_shared:
  "books rest px \<Longrightarrow> sh_pool sh = px_p px \<Longrightarrow> books rest (px\<lparr>px_shared := sh\<rparr>)"
  by (erule books_same) simp_all

lemma route_send_fields [simp]:
  "px_routes (snd (route_send l msg px)) = px_routes px" "px_events (snd (route_send l msg px)) = px_events px"
  "px_p (snd (route_send l msg px)) = snd (lease_send l msg (px_p px))"
  by (simp_all add: route_send_def split: prod.split)

lemma books_send [simp]: "books rest px \<Longrightarrow> books rest (snd (route_send l msg px))"
  by (erule books_same) (simp_all add: lease_send_def same_books_with_record)

lemma books_checkout:
  assumes "books rest px" "checkout b now (px_p px) = (r, p)"
  shows "books (case r of Inl _ \<Rightarrow> rest | Inr l \<Rightarrow> add_mset l rest) (px_pool (\<lambda>_. p) px)"
proof (rule books_pool [OF assms(1)])
  fix w assume w: "pool_ok w" "w_pool w = px_p px" "mset (w_held w) = rest + mset (route_leases px)"
  have "pool_ok (pool_step (PCheckout b now) w)" by (rule checkout_ok [OF w(1)])
  then show "\<exists>w'. pool_ok w' \<and> w_pool w' = px_p (px_pool (\<lambda>_. p) px)
      \<and> mset (w_held w') = (case r of Inl _ \<Rightarrow> rest | Inr l \<Rightarrow> add_mset l rest) + mset (route_leases px)"
    using w(2,3) assms(2) by (intro exI [of _ "pool_step (PCheckout b now) w"]) (cases r; simp)
qed simp

lemma books_drop:
  assumes "books (add_mset l rest) px"
  shows "books rest (lease_dropped l px)"
proof (rule books_pool [OF assms])
  fix w assume w: "pool_ok w" "w_pool w = px_p px" "mset (w_held w) = add_mset l rest + mset (route_leases px)"
  have l: "l \<in> set (w_held w)" using w(3) by (metis add_mset_add_single union_iff set_mset_mset union_single_eq_member)
  then show "\<exists>w'. pool_ok w' \<and> w_pool w' = px_p (lease_dropped l px) \<and> mset (w_held w') = rest + mset (route_leases px)"
    using dropped_ok [OF w(1) l] w(2,3)
    by (intro exI [of _ "w\<lparr>w_pool := drop_lease l (w_pool w), w_held := remove1 l (w_held w)\<rparr>"]) simp
qed simp

subsection \<open>Routes\<close>

lemma mset_delete:
  assumes "distinct (map fst al)" "map_of al i = Some r"
  shows "mset (map (g \<circ> snd) al) = add_mset (g r) (mset (map (g \<circ> snd) (AList.delete i al)))"
  using assms
proof (induction al)
  case (Cons a al)
  show ?case
  proof (cases "fst a = i")
    case True
    then have "i \<notin> set (map fst al)" and r: "r = snd a" using Cons.prems by auto
    then have "AList.delete i al = al" by (simp add: delete_id)
    moreover have "AList.delete i (a # al) = AList.delete i al" using True by (cases a) simp
    ultimately show ?thesis using r by simp
  next
    case False
    then show ?thesis using Cons by (cases a) (auto simp: AList.delete_eq)
  qed
qed simp

lemma mset_update_new:
  "map_of al i = None \<Longrightarrow> mset (map (g \<circ> snd) (AList.update i r al)) = add_mset (g r) (mset (map (g \<circ> snd) al))"
  by (induction al) (auto split: if_splits)

lemma map_update_same_value:
  "distinct (map fst al) \<Longrightarrow> map_of al i = Some r0 \<Longrightarrow> g r = g r0 \<Longrightarrow>
     map (g \<circ> snd) (AList.update i r al) = map (g \<circ> snd) al"
  by (induction al) (auto split: if_splits)

lemma books_keys: "books rest px \<Longrightarrow> distinct (map fst (px_routes px))"
  by (simp add: books_def)

lemma books_delete:
  assumes "books rest px" "px_route i px = Some r"
  shows "books (add_mset (rt_lease r) rest) (px_delete i px)"
proof -
  have "mset (route_leases px) = add_mset (rt_lease r) (mset (route_leases (px_delete i px)))"
    using mset_delete [of "px_routes px" i r rt_lease] books_keys [OF assms(1)] assms(2)
    by (simp add: route_leases_def px_route_def)
  then show ?thesis using assms(1) by (auto simp: books_def distinct_delete)
qed

lemma books_put_new:
  assumes "books (add_mset (rt_lease r) rest) px" "px_route i px = None"
  shows "books rest (px_put i r px)"
proof -
  have "mset (route_leases (px_put i r px)) = add_mset (rt_lease r) (mset (route_leases px))"
    using mset_update_new [of "px_routes px" i rt_lease r] assms(2) by (simp add: route_leases_def px_route_def)
  then show ?thesis using assms(1) by (auto simp: books_def distinct_update)
qed

lemma books_put_same:
  assumes "books rest px" "px_route i px = Some r0" "rt_lease r = rt_lease r0"
  shows "books rest (px_put i r px)"
proof -
  have "route_leases (px_put i r px) = route_leases px"
    using map_update_same_value [of "px_routes px" i r0 rt_lease r] books_keys [OF assms(1)] assms(2,3)
    by (simp add: route_leases_def px_route_def)
  then show ?thesis using assms(1) by (auto simp: books_def distinct_update)
qed

lemma books_put_over:
  assumes "books (add_mset (rt_lease r) rest) px" "px_route i px = Some old"
  shows "books (add_mset (rt_lease old) rest) (px_put i r px)"
proof -
  have k: "distinct (map fst (px_routes px))" by (rule books_keys [OF assms(1)])
  have old: "map_of (px_routes px) i = Some old" using assms(2) by (simp add: px_route_def)
  have new: "map_of (AList.update i r (px_routes px)) i = Some r" by (simp add: update_conv')
  have "mset (route_leases px) = add_mset (rt_lease old) (mset (route_leases (px_delete i px)))"
    using mset_delete [OF k old, of rt_lease] by (simp add: route_leases_def)
  moreover have "mset (route_leases (px_put i r px)) = add_mset (rt_lease r) (mset (route_leases (px_delete i px)))"
    using mset_delete [OF distinct_update [OF k] new, of rt_lease] by (simp add: route_leases_def delete_update_same)
  ultimately show ?thesis using assms(1) k by (auto simp: books_def distinct_update)
qed

lemma books_insert_route:
  assumes "books (add_mset (rt_lease r) rest) px"
  shows "books rest (insert_route i r px)"
proof (cases "px_route i px")
  case None
  then show ?thesis using books_put_new [OF assms None] by (simp add: insert_route_def)
next
  case (Some old)
  then show ?thesis using books_drop [OF books_put_over [OF assms Some]] by (simp add: insert_route_def)
qed

subsection \<open>An attempt, case by case\<close>

lemma pick_pool [simp]: "sh_pool (snd (shared_pick ex now sh)) = sh_pool sh"
  by (simp add: shared_pick_def Let_def split: prod.split option.split)

definition picked :: "attempt_spec \<Rightarrow> proxy \<Rightarrow> proxy" where
  "picked a px = px\<lparr>px_shared := snd (shared_pick (at_exclude a) (px_now px) (px_shared px))\<rparr>"

lemma picked_simps [simp]:
  "px_routes (picked a px) = px_routes px" "px_events (picked a px) = px_events px" "px_p (picked a px) = px_p px"
  by (simp_all add: picked_def)

definition placed_route :: "attempt_spec \<Rightarrow> lease \<Rightarrow> backend \<Rightarrow> instant \<Rightarrow> route" where
  "placed_route a l b now =
     \<lparr>rt_lease = l, rt_request_done = at_end_stream a, rt_backend = b, rt_head = at_spare a,
      rt_attempts = at_attempts a, rt_response_started = False,
      rt_started = (case at_carry a of None \<Rightarrow> now | Some t \<Rightarrow> t)\<rparr>"

definition asked :: "stream_id \<Rightarrow> attempt_spec \<Rightarrow> lease \<Rightarrow> client \<Rightarrow> to_upstream" where
  "asked i a l cl = TuRequest (l_id l) i (at_head a) (at_end_stream a) cl"

lemma attempt_cases:
  obtains (no_backend) "fst (shared_pick (at_exclude a) (px_now px) (px_shared px)) = None"
      "attempt i a px = (answer_locally i 503 px, picked a px)"
  | (no_slot) b e p where "fst (shared_pick (at_exclude a) (px_now px) (px_shared px)) = Some b"
      "checkout b (px_now_ms px) (px_p px) = (Inl e, p)"
      "attempt i a px = (answer_locally i 503 px, px_pool (\<lambda>_. p) (picked a px))"
  | (detached) b l p where "fst (shared_pick (at_exclude a) (px_now px) (px_shared px)) = Some b"
      "checkout b (px_now_ms px) (px_p px) = (Inr l, p)" "px_events px = None"
      "attempt i a px = ([], lease_dropped l (px_pool (\<lambda>_. p) (picked a px)))"
  | (dead) b l p cl where "fst (shared_pick (at_exclude a) (px_now px) (px_shared px)) = Some b"
      "checkout b (px_now_ms px) (px_p px) = (Inr l, p)" "px_events px = Some cl"
      "\<not> fst (route_send l (asked i a l cl) (px_pool (\<lambda>_. p) (picked a px)))"
      "attempt i a px = (answer_locally i 503 px,
         lease_dropped l (px_health (\<lambda>h. health_failure h b (px_now px))
           (snd (route_send l (asked i a l cl) (px_pool (\<lambda>_. p) (picked a px))))))"
  | (placed) b l p cl where "fst (shared_pick (at_exclude a) (px_now px) (px_shared px)) = Some b"
      "checkout b (px_now_ms px) (px_p px) = (Inr l, p)" "px_events px = Some cl"
      "fst (route_send l (asked i a l cl) (px_pool (\<lambda>_. p) (picked a px)))"
      "attempt i a px = ([], insert_route i (placed_route a l b (px_now px))
         (let px4 = px_stats count_request (snd (route_send l (asked i a l cl) (px_pool (\<lambda>_. p) (picked a px))))
          in if at_carry a = None then px_stats open_client_stream px4 else px4))"
proof -
  obtain ob sh where pk: "shared_pick (at_exclude a) (px_now px) (px_shared px) = (ob, sh)"
    by (cases "shared_pick (at_exclude a) (px_now px) (px_shared px)")
  have sh: "px\<lparr>px_shared := sh\<rparr> = picked a px" "sh_pool sh = px_p px"
    using pk pick_pool [of "at_exclude a" "px_now px" "px_shared px"] by (simp_all add: picked_def)
  show ?thesis
  proof (cases ob)
    case None
    then show ?thesis using pk sh by (intro no_backend) (simp_all add: attempt_def)
  next
    case (Some b)
    obtain r p where co: "checkout b (px_now_ms px) (px_p px) = (r, p)"
      by (cases "checkout b (px_now_ms px) (px_p px)")
    show ?thesis
    proof (cases r)
      case (Inl e)
      then show ?thesis
        using pk sh Some co by (intro no_slot [of b e p]) (simp_all add: attempt_def answer_locally_def emit_def)
    next
      case (Inr l)
      show ?thesis
      proof (cases "px_events px")
        case None
        then show ?thesis
          using pk sh Some co Inr by (intro detached [of b l p]) (simp_all add: attempt_def)
      next
        case cl: (Some cl)
        obtain ok px3 where s: "route_send l (asked i a l cl) (px_pool (\<lambda>_. p) (picked a px)) = (ok, px3)"
          by (cases "route_send l (asked i a l cl) (px_pool (\<lambda>_. p) (picked a px))")
        have ev: "px_events px3 = px_events px"
          using route_send_fields(2) [of l "asked i a l cl" "px_pool (\<lambda>_. p) (picked a px)"] s by simp
        have at: "attempt i a px =
          (case route_send l (asked i a l cl) (px_pool (\<lambda>_. p) (picked a px)) of
             (False, px3) \<Rightarrow> (answer_locally i 503 px3,
                lease_dropped l (px_health (\<lambda>h. health_failure h b (px_now px)) px3))
           | (True, px3) \<Rightarrow> ([], insert_route i (placed_route a l b (px_now px))
               (let px4 = px_stats count_request px3
                in if at_carry a = None then px_stats open_client_stream px4 else px4)))"
          using pk sh Some co Inr cl
          by (simp add: attempt_def asked_def placed_route_def Let_def cong: bool.case_cong)
        show ?thesis
        proof (cases ok)
          case True
          then show ?thesis
            using pk Some co Inr cl s at by (intro placed [of b l p cl]) simp_all
        next
          case False
          then show ?thesis
            using pk Some co Inr cl s at ev
            by (intro dead [of b l p cl]) (simp_all add: answer_locally_def emit_def)
        qed
      qed
    qed
  qed
qed

lemma books_picked: "books rest px \<Longrightarrow> books rest (picked a px)"
  by (erule books_same) simp_all

lemma books_taken:
  assumes "books rest px" "checkout b now (px_p px) = (Inr l, p)"
  shows "books (add_mset l rest) (px_pool (\<lambda>_. p) (picked a px))"
  using books_checkout [OF books_picked [OF assms(1), of a], of b now "Inr l" p] assms(2) by simp

lemma books_attempt:
  assumes "books rest px"
  shows "books rest (snd (attempt i a px))"
proof (cases rule: attempt_cases [of a px i])
  case no_backend
  then show ?thesis using books_picked [OF assms] by simp
next
  case (no_slot b e p)
  then show ?thesis
    using books_checkout [OF books_picked [OF assms, of a], of b "px_now_ms px" "Inl e" p] by simp
next
  case (detached b l p)
  then show ?thesis using books_drop [OF books_taken [OF assms detached(2)]] by simp
next
  case (dead b l p cl)
  then show ?thesis using books_taken [OF assms dead(2)] by (simp add: books_drop)
next
  case (placed b l p cl)
  show ?thesis
    unfolding placed(5) using books_taken [OF assms placed(2), of a]
    by (auto simp: Let_def placed_route_def intro!: books_insert_route)
qed

subsection \<open>Every operation\<close>

lemma books_finished [simp]: "books rest px \<Longrightarrow> books rest (finished r px)"
  by (simp add: finished_def)

lemma books_retry:
  assumes "books rest px"
  shows "books rest (snd (retry i px))"
proof -
  have "books rest (lease_dropped (rt_lease r) (snd (attempt i a (px_stats count_retry (px_delete i px)))))"
    if "px_route i px = Some r" for r a
    using that assms by (intro books_drop books_attempt books_stats books_delete)
  then show ?thesis using assms by (simp add: retry_def case_prod_beta split: option.split)
qed

lemma books_synthesized [simp]: "books rest px \<Longrightarrow> books rest (synthesized i status px)"
  by (simp add: synthesized_def)

lemma books_call:
  assumes "books rest px"
  shows "books rest (snd (proxy_call c px))"
proof (cases c)
  case (SvDispatch i head es)
  then show ?thesis using books_attempt [OF assms] by (simp add: proxy_dispatch_def Let_def)
next
  case (SvBody i data es)
  have "books rest (snd (route_send l m (px_put i (r\<lparr>rt_request_done := d\<rparr>) px)))"
    if "px_route i px = Some r" for r l m d
    using books_put_same [OF assms that, of "r\<lparr>rt_request_done := d\<rparr>"] by simp
  then show ?thesis using assms SvBody
    by (simp add: proxy_body_def Let_def case_prod_beta split: option.split)
next
  case (SvTrailers i flds)
  have "books rest (snd (route_send l m (px_put i (r\<lparr>rt_request_done := d\<rparr>) px)))"
    if "px_route i px = Some r" for r l m d
    using books_put_same [OF assms that, of "r\<lparr>rt_request_done := d\<rparr>"] by simp
  then show ?thesis using assms SvTrailers by (simp add: proxy_trailers_def split: option.split)
next
  case (SvCancel i code)
  then show ?thesis using assms books_delete [OF assms, of i]
    by (auto simp: proxy_cancel_def intro!: books_drop split: option.split)
next
  case (SvFinish i)
  then show ?thesis using assms books_delete [OF assms, of i]
    by (auto simp: proxy_finish_def intro!: books_drop split: option.split)
next
  case (SvReleased i n)
  then show ?thesis using assms by (simp add: proxy_released_def split: option.split)
qed

lemma books_intercept:
  assumes "books rest px"
  shows "books rest (snd (snd (proxy_intercept ev px)))"
proof (cases ev)
  case (EvHead i resp es)
  have "books rest (px_put i (r\<lparr>rt_response_started := True\<rparr>) px)" if "px_route i px = Some r" for r
    by (rule books_put_same [OF assms that]) simp
  then show ?thesis using assms EvHead by (auto simp: Let_def split: option.split)
next
  case (EvGone i)
  have "books rest (snd (retry i (px_health f px)))" for f using assms by (intro books_retry books_health)
  then show ?thesis using assms EvGone
    by (auto split: option.split prod.split bool.split) (metis books_synthesized snd_conv)+
next
  case (EvShed i)
  have "books rest (px_stats close_client_stream (lease_dropped (rt_lease r) (px_delete i (synthesized i 503 px))))"
    if "px_route i (synthesized i 503 px) = Some r" for r
    using that assms by (intro books_stats books_drop books_delete) simp_all
  then show ?thesis using assms EvShed by (auto simp: Let_def split: option.split)
next
  case (EvReset i code)
  have "books rest (snd (retry i px))" using assms by (rule books_retry)
  then show ?thesis using assms EvReset
    by (auto split: option.split prod.split bool.split)
qed (use assms in simp_all)

end
