(* ===== verification/Proxy_Props.thy ===== *)
theory Proxy_Props
  imports Proxy_Books
begin

section \<open>What holds of a proxy\<close>

subsection \<open>Runs\<close>

text \<open>
  A proxy's life: the engine's calls and the events it passes back, and in between anything the rest
  of the process does to what is shared: other clients and connection tasks at the pool, time,
  health reports, the balancer's generator, admission samples. \<open>pw_others\<close> are the leases that
  other client connections hold, and \<open>pw_elsewhere\<close> the client streams they have counted into the
  process-wide gauge and not yet out of it; their other counts may be anything.
\<close>

record proxy_world =
  pw_px :: proxy
  pw_others :: "lease list"
  pw_elsewhere :: nat

datatype proxy_input =
    PxCall service_call
  | PxEvent service_event
  | PxOthers pool_input
  | PxClock instant
  | PxHealth health
  | PxBalance power_of_two
  | PxSample
  | PxOtherOpens
  | PxOtherCloses
  | PxOtherCounts proxy_stats

definition with_shared :: "(shared \<Rightarrow> shared) \<Rightarrow> proxy \<Rightarrow> proxy" where
  "with_shared f px = px\<lparr>px_shared := f (px_shared px)\<rparr>"

fun proxy_step :: "proxy_input \<Rightarrow> proxy_world \<Rightarrow> proxy_world" where
  "proxy_step (PxCall c) w = w\<lparr>pw_px := snd (proxy_call c (pw_px w))\<rparr>"
| "proxy_step (PxEvent ev) w = w\<lparr>pw_px := snd (snd (proxy_intercept ev (pw_px w)))\<rparr>"
| "proxy_step (PxOthers x) w =
     (let w' = pool_step x \<lparr>w_pool = px_p (pw_px w), w_held = pw_others w, w_granted = []\<rparr>
      in w\<lparr>pw_px := px_pool (\<lambda>_. w_pool w') (pw_px w), pw_others := w_held w'\<rparr>)"
| "proxy_step (PxClock t) w = w\<lparr>pw_px := with_shared (\<lambda>s. s\<lparr>sh_now := t\<rparr>) (pw_px w)\<rparr>"
| "proxy_step (PxHealth h) w = w\<lparr>pw_px := with_shared (\<lambda>s. s\<lparr>sh_health := h\<rparr>) (pw_px w)\<rparr>"
| "proxy_step (PxBalance lb) w = w\<lparr>pw_px := with_shared (\<lambda>s. s\<lparr>sh_balancer := lb\<rparr>) (pw_px w)\<rparr>"
| "proxy_step PxSample w = w\<lparr>pw_px := with_shared (\<lambda>s. snd (recompute_admission s)) (pw_px w)\<rparr>"
| "proxy_step PxOtherOpens w =
     w\<lparr>pw_px := px_stats open_client_stream (pw_px w), pw_elsewhere := pw_elsewhere w + 1\<rparr>"
| "proxy_step PxOtherCloses w =
     (if pw_elsewhere w = 0 then w
      else w\<lparr>pw_px := px_stats close_client_stream (pw_px w), pw_elsewhere := pw_elsewhere w - 1\<rparr>)"
| "proxy_step (PxOtherCounts s) w =
     w\<lparr>pw_px := px_stats (\<lambda>s0. s\<lparr>ps_client_streams := ps_client_streams s0\<rparr>) (pw_px w)\<rparr>"

definition proxy_run :: "proxy_input list \<Rightarrow> proxy_world \<Rightarrow> proxy_world" where
  "proxy_run xs w = fold proxy_step xs w"

text \<open>A proxy as the daemon sets it up, over a process just started.\<close>

definition proxy_ready :: "client \<Rightarrow> octets \<Rightarrow> bool \<Rightarrow> shared \<Rightarrow> proxy" where
  "proxy_ready cl addr trust sh =
     attach cl (trusting_forwarded_headers trust (with_peer addr (proxy_new sh)))"

definition proxy_world_start :: "client \<Rightarrow> octets \<Rightarrow> bool \<Rightarrow> backend list \<Rightarrow> nat \<Rightarrow> policy \<Rightarrow> tuning \<Rightarrow> proxy_world" where
  "proxy_world_start cl addr trust bs m pol t =
     \<lparr>pw_px = proxy_ready cl addr trust (shared_with_tuning bs m pol t), pw_others = [],
      pw_elsewhere = 0\<rparr>"

lemma proxy_run_invariant:
  assumes "I w" "\<And>x w. I w \<Longrightarrow> I (proxy_step x w)"
  shows "I (proxy_run xs w)"
  unfolding proxy_run_def using assms(1) by (induction xs arbitrary: w) (simp_all add: assms(2))

lemma with_shared_simps [simp]:
  "px_routes (with_shared f px) = px_routes px" "px_events (with_shared f px) = px_events px"
  "px_p (with_shared f px) = sh_pool (f (px_shared px))"
  by (simp_all add: with_shared_def)

lemma recompute_pool [simp]: "sh_pool (snd (recompute_admission sh)) = sh_pool sh"
  by (simp add: recompute_admission_def Let_def split: prod.split)

subsection \<open>Leases\<close>

definition world_books :: "proxy_world \<Rightarrow> bool" where
  "world_books w \<longleftrightarrow> books (mset (pw_others w)) (pw_px w)"

lemma books_others:
  assumes "books (mset ls) px"
  shows "books (mset (w_held (pool_step x \<lparr>w_pool = px_p px, w_held = ls, w_granted = []\<rparr>)))
    (px_pool (\<lambda>_. w_pool (pool_step x \<lparr>w_pool = px_p px, w_held = ls, w_granted = []\<rparr>)) px)"
proof (rule books_pool [OF assms])
  fix w assume w: "pool_ok w" "w_pool w = px_p px" "mset (w_held w) = mset ls + mset (route_leases px)"
  let ?v = "pool_step x \<lparr>w_pool = px_p px, w_held = ls, w_granted = []\<rparr>"
  show "\<exists>w'. pool_ok w' \<and> w_pool w' = px_p (px_pool (\<lambda>_. w_pool ?v) px)
      \<and> mset (w_held w') = mset (w_held ?v) + mset (route_leases px)"
  proof (cases "\<exists>l. x = PDrop l \<and> l \<notin> set ls")
    case True
    then show ?thesis using w by (intro exI [of _ w]) auto
  next
    case False
    have held: "l \<in> set (w_held w)" if "l \<in> set ls" for l
      using w(3) that by (metis Un_iff set_mset_mset set_mset_union)
    have "w_pool (pool_step x w) = w_pool ?v \<and> mset (w_held (pool_step x w)) = mset (w_held ?v) + mset (route_leases px)"
    proof (cases x)
      case (PCheckout b now)
      then show ?thesis using w by (cases "checkout b now (px_p px)"; cases "fst (checkout b now (px_p px))") auto
    next
      case (PDrop l)
      then have l: "l \<in> set ls" using False by blast
      have "mset (w_held w) - {#l#} = mset ls - {#l#} + mset (route_leases px)"
        unfolding w(3) using diff_union_single_conv [of l "mset ls" "mset (route_leases px)"] l
        by (simp only: add.commute set_mset_mset)
      moreover have "pool_step x w = w\<lparr>w_pool := drop_lease l (w_pool w), w_held := remove1 l (w_held w)\<rparr>"
        using PDrop held [OF l] by simp
      moreover have "?v = \<lparr>w_pool = drop_lease l (px_p px), w_held = remove1 l ls, w_granted = []\<rparr>"
        using PDrop l by simp
      ultimately show ?thesis using w(2) by simp
    qed (use w in simp_all)
    then show ?thesis using pool_step_ok [OF w(1), of x] by (intro exI [of _ "pool_step x w"]) simp
  qed
qed simp

lemma world_books_step: "world_books w \<Longrightarrow> world_books (proxy_step x w)"
proof (cases x)
  case (PxOthers y)
  assume "world_books w"
  then show ?thesis using PxOthers books_others [of "pw_others w" "pw_px w" y] by (simp add: world_books_def Let_def)
next
  assume w: "world_books w"
  have same: "books (mset (pw_others w)) (with_shared f (pw_px w))"
    if "\<And>s. sh_pool (f s) = sh_pool s" for f
    using w that by (auto simp: world_books_def intro: books_same)
  { case (PxCall c) then show ?thesis using w books_call by (simp add: world_books_def) }
  { case (PxEvent ev) then show ?thesis using w books_intercept by (simp add: world_books_def) }
  { case (PxClock t) then show ?thesis using same by (simp add: world_books_def) }
  { case (PxHealth h) then show ?thesis using same by (simp add: world_books_def) }
  { case (PxBalance lb) then show ?thesis using same by (simp add: world_books_def) }
  { case PxSample then show ?thesis using same by (simp add: world_books_def) }
  { case PxOtherOpens then show ?thesis using w by (simp add: world_books_def) }
  { case PxOtherCloses then show ?thesis using w by (simp add: world_books_def) }
  { case (PxOtherCounts s) then show ?thesis using w by (simp add: world_books_def) }
qed

lemma world_books_start: "world_books (proxy_world_start cl addr trust bs m pol t)"
proof -
  let ?px = "proxy_ready cl addr trust (shared_with_tuning bs m pol t)"
  have p: "px_p ?px = with_stats client_connected (pool_new m (Health.policy.idle_timeout pol div 1000000) t)"
    and r: "px_routes ?px = []"
    by (simp_all add: proxy_ready_def attach_def trusting_forwarded_headers_def with_peer_def
        proxy_new_def px_stats_def px_pool_def shared_with_tuning_def)
  have "pool_ok ((world_new m (Health.policy.idle_timeout pol div 1000000) t)\<lparr>w_pool := px_p ?px\<rparr>)"
    unfolding p by (rule same_books_ok [OF _ world_new_ok]) (simp add: world_new_def)
  then show ?thesis
    unfolding world_books_def books_def
    by (auto simp: r route_leases_def proxy_world_start_def world_new_def
        intro!: exI [of _ "(world_new m (Health.policy.idle_timeout pol div 1000000) t)\<lparr>w_pool := px_p ?px\<rparr>"])
qed

lemma books_live:
  assumes "books rest px" "k < length (p_records (px_p px))"
  shows "r_live (p_records (px_p px) ! k) = size {#l \<in># rest. l_conn l = k#} + length (leases_on k (route_leases px))"
proof -
  obtain w where w: "pool_ok w" "w_pool w = px_p px" "mset (w_held w) = rest + mset (route_leases px)"
    using assms(1) by (auto elim: booksE)
  have "length (leases_on k (w_held w)) = size {#l \<in># mset (w_held w). l_conn l = k#}"
    unfolding leases_on_def by (metis mset_filter size_mset)
  also have "\<dots> = size {#l \<in># rest. l_conn l = k#} + length (leases_on k (route_leases px))"
    unfolding w(3) leases_on_def by (simp flip: mset_filter)
  finally show ?thesis using w(1,2) assms(2) by (simp add: pool_ok_def leases_ok_def)
qed

lemma books_distinct:
  assumes "books (mset ls) px"
  shows "distinct (route_leases px @ ls)"
proof -
  obtain w where w: "pool_ok w" "mset (w_held w) = mset ls + mset (route_leases px)"
    using assms by (auto elim: booksE)
  then have "mset (w_held w) = mset (route_leases px @ ls)" by (simp add: add.commute)
  then show ?thesis using held_distinct [OF w(1)] using mset_eq_imp_distinct_iff by blast
qed

lemma books_drop_all:
  "books (mset (map (rt_lease \<circ> snd) al) + rest) px \<Longrightarrow> books rest (fold (\<lambda>(i, r). lease_dropped (rt_lease r)) al px)"
proof (induction al arbitrary: px)
  case (Cons a al)
  then have "books (mset (map (rt_lease \<circ> snd) al) + rest) (lease_dropped (rt_lease (snd a)) px)"
    by (intro books_drop) (simp add: comp_def)
  then show ?case using Cons.IH by (cases a) (simp add: comp_def)
qed simp

lemma drop_all_routes:
  "(fold (\<lambda>(i, r). lease_dropped (rt_lease r)) al px)\<lparr>px_routes := rs\<rparr>
     = fold (\<lambda>(i, r). lease_dropped (rt_lease r)) al (px\<lparr>px_routes := rs\<rparr>)"
proof (induction al arbitrary: px)
  case (Cons a al)
  have "(lease_dropped l px)\<lparr>px_routes := rs\<rparr> = lease_dropped l (px\<lparr>px_routes := rs\<rparr>)" for l
    by (simp add: lease_dropped_def px_pool_def)
  then show ?case by (cases a) (simp add: Cons.IH)
qed simp

lemma finish_all:
  "px_routes (fold (\<lambda>(i, r). finished r) al px) = px_routes px
   \<and> (books rest px \<longrightarrow> books rest (fold (\<lambda>(i, r). finished r) al px))"
proof (induction al arbitrary: px)
  case (Cons a al)
  have "px_routes (finished (snd a) px) = px_routes px" by (simp add: finished_def)
  then show ?case using Cons.IH [of "finished (snd a) px"] by (simp add: case_prod_beta)
qed simp

lemma books_proxy_drop:
  assumes "books rest px"
  shows "books rest (proxy_drop px)" "px_routes (proxy_drop px) = []"
proof -
  let ?px = "px_stats client_disconnected (fold (\<lambda>(i, r). finished r) (px_routes px) px)"
  have r: "px_routes ?px = px_routes px" and b: "books rest ?px"
    using finish_all [of "px_routes px" px rest] assms by simp_all
  have "books (mset (map (rt_lease \<circ> snd) (px_routes px)) + rest) (?px\<lparr>px_routes := []\<rparr>)"
    using b r by (auto simp: books_def route_leases_def add.commute)
  then show "books rest (proxy_drop px)"
    by (simp add: proxy_drop_def Let_def drop_all_routes books_drop_all)
  show "px_routes (proxy_drop px) = []" by (simp add: proxy_drop_def Let_def)
qed

lemma with_record_length [simp]: "length (p_records (with_record k f p)) = length (p_records p)"
  by (simp add: with_record_def)

lemma proxy_drop_length: "length (p_records (px_p (proxy_drop px))) = length (p_records (px_p px))"
proof -
  have f: "length (p_records (px_p (fold (\<lambda>(i, r). finished r) al px))) = length (p_records (px_p px))" for al px
    by (induction al arbitrary: px) (simp_all add: case_prod_beta finished_def with_stats_def)
  have d: "length (p_records (px_p (fold (\<lambda>(i, r). lease_dropped (rt_lease r)) al px))) = length (p_records (px_p px))" for al px
    by (induction al arbitrary: px) (simp_all add: case_prod_beta drop_lease_def)
  have r: "px_p (px\<lparr>px_routes := rs\<rparr>) = px_p px" for px rs by simp
  show ?thesis by (simp add: proxy_drop_def Let_def d f with_stats_def)
qed

text \<open>C12. No slot leaks. Whatever a client connection asks for and whatever its backends and the other
  clients do, a pooled connection's count of live streams is the number of leases held by the others
  plus one for each of this proxy's routes on it; no two routes, here or elsewhere, share a lease;
  and when the client connection ends, every slot it held is free again.\<close>

theorem proxy_leases_exact:
  assumes "w = proxy_run xs (proxy_world_start cl addr trust bs m pol t)"
    "k < length (p_records (px_p (pw_px w)))"
  shows "r_live (p_records (px_p (pw_px w)) ! k)
      = length (leases_on k (pw_others w)) + length (leases_on k (route_leases (pw_px w)))
    \<and> distinct (route_leases (pw_px w) @ pw_others w)
    \<and> px_routes (proxy_drop (pw_px w)) = []
    \<and> r_live (p_records (px_p (proxy_drop (pw_px w))) ! k) = length (leases_on k (pw_others w))"
proof -
  have "world_books w"
    unfolding assms(1) by (rule proxy_run_invariant [where I = world_books, OF world_books_start world_books_step])
  then have b: "books (mset (pw_others w)) (pw_px w)" by (simp add: world_books_def)
  have others: "size {#l \<in># mset (pw_others w). l_conn l = k#} = length (leases_on k (pw_others w))"
    unfolding leases_on_def by (simp flip: mset_filter)
  note d = books_proxy_drop [OF b]
  have "k < length (p_records (px_p (proxy_drop (pw_px w))))"
    using assms(2) by (simp add: proxy_drop_length)
  then show ?thesis
    using books_live [OF b assms(2)] books_live [OF d(1)] books_distinct [OF b] d(2) others
    by (simp add: route_leases_def leases_on_def)
qed

definition sample_get :: request_head where
  "sample_get = \<lparr>rq_method = ascii ''GET'', rq_scheme = ascii ''https'', rq_authority = None,
     rq_path = ascii ''/'', rq_fields = []\<rparr>"

definition one_get :: proxy_world where
  "one_get = proxy_run [PxCall (SvDispatch 1 sample_get True)]
     (proxy_world_start 7 (ascii ''10.0.0.9'') False [sample_backend 80] 2 policy_default tuning_default)"

lemma one_get_facts:
  "map fst (px_routes (pw_px one_get)) = [1]" "route_leases (pw_px one_get) = [\<lparr>l_conn = 0, l_id = 0\<rparr>]"
  "length (p_records (px_p (pw_px one_get))) = 1" "pw_others one_get = []"
  "map (length \<circ> r_inbox) (p_records (px_p (pw_px one_get))) = [1]"
  by code_simp+

theorem proxy_leases_exact_witness:
  "r_live (p_records (px_p (pw_px one_get)) ! 0) = 1
   \<and> r_live (p_records (px_p (proxy_drop (pw_px one_get))) ! 0) = 0"
proof -
  have k: "0 < length (p_records (px_p (pw_px one_get)))" by (simp add: one_get_facts)
  from proxy_leases_exact [OF one_get_def k] show ?thesis by (simp add: one_get_facts leases_on_def)
qed

subsection \<open>What an attempt does to the routes\<close>

lemma route_put [simp]: "px_route j (px_put i r px) = (if j = i then Some r else px_route j px)"
  by (simp add: px_route_def update_conv')

lemma route_delete [simp]: "px_route j (px_delete i px) = (if j = i then None else px_route j px)"
  by (simp add: px_route_def delete_conv')

lemma route_same [simp]:
  "px_route j (px_stats f px) = px_route j px" "px_route j (px_pool g px) = px_route j px"
  "px_route j (px_health h px) = px_route j px" "px_route j (lease_dropped l px) = px_route j px"
  "px_route j (snd (route_send l m px)) = px_route j px" "px_route j (with_shared f' px) = px_route j px"
  "px_route j (finished r px) = px_route j px" "px_route j (picked a px) = px_route j px"
  "px_route j (synthesized i st px) = px_route j px"
  by (simp_all add: px_route_def finished_def synthesized_def)

lemma route_insert [simp]: "px_route j (insert_route i r px) = (if j = i then Some r else px_route j px)"
  by (simp add: insert_route_def Let_def split: option.split)

text \<open>An attempt either places the request, on the backend chosen, or leaves no route behind.\<close>

lemma attempt_routes:
  assumes "px_route i px = None"
  obtains (placed) l b where "fst (shared_pick (at_exclude a) (px_now px) (px_shared px)) = Some b"
      "fst (attempt i a px) = []"
      "\<And>j. px_route j (snd (attempt i a px)) = (if j = i then Some (placed_route a l b (px_now px)) else px_route j px)"
      "px_events px \<noteq> None"
  | (answered) "fst (attempt i a px) = (if px_events px = None then [] else [EvHead i (response_status 503) True])"
      "\<And>j. px_route j (snd (attempt i a px)) = px_route j px"
proof (cases rule: attempt_cases [of a px i])
  case no_backend
  then show ?thesis by (intro answered) (simp_all add: answer_locally_def emit_def)
next
  case (no_slot b e p)
  then show ?thesis by (intro answered) (simp_all add: answer_locally_def emit_def)
next
  case (detached b l p)
  then show ?thesis by (intro answered) simp_all
next
  case (dead b l p cl)
  then show ?thesis by (intro answered) (simp_all add: answer_locally_def emit_def)
next
  case (placed b l p cl)
  then show ?thesis by (intro that(1) [of b l]) (simp_all add: Let_def)
qed

subsection \<open>Retries\<close>

definition route_ok :: "route \<Rightarrow> bool" where
  "route_ok r \<longleftrightarrow> 1 \<le> rt_attempts r \<and> rt_attempts r \<le> max_attempts \<and>
     (case rt_head r of None \<Rightarrow> True
      | Some h \<Rightarrow> rq_method h \<in> set idempotent_methods \<and> rt_request_done r)"

definition routes_ok :: "proxy \<Rightarrow> bool" where
  "routes_ok px \<longleftrightarrow> (\<forall>i r. px_route i px = Some r \<longrightarrow> route_ok r)"

definition attempt_ok :: "attempt_spec \<Rightarrow> bool" where
  "attempt_ok a \<longleftrightarrow> 1 \<le> at_attempts a \<and> at_attempts a \<le> max_attempts \<and>
     (case at_spare a of None \<Rightarrow> True
      | Some h \<Rightarrow> rq_method h \<in> set idempotent_methods \<and> at_end_stream a)"

lemma placed_route_ok: "attempt_ok a \<Longrightarrow> route_ok (placed_route a l b now)"
  by (simp add: attempt_ok_def route_ok_def placed_route_def split: option.splits)

lemma routes_ok_attempt:
  assumes "routes_ok px" "attempt_ok a"
  shows "routes_ok (snd (attempt i a px))"
proof (cases rule: attempt_cases [of a px i])
  case (placed b l p cl)
  then show ?thesis using assms placed_route_ok [OF assms(2)] by (simp add: routes_ok_def Let_def)
qed (use assms in \<open>simp_all add: routes_ok_def\<close>)

lemma retry_cases:
  obtains (declined) "retry i px = ((False, []), px)"
  | (again) r h a where "px_route i px = Some r" "rt_head r = Some h" "\<not> rt_response_started r"
      "rt_attempts r < max_attempts"
      "a = \<lparr>at_head = h, at_end_stream = True, at_spare = Some h, at_exclude = Some (rt_backend r),
            at_attempts = rt_attempts r + 1, at_carry = Some (rt_started r)\<rparr>"
      "retry i px = ((True, fst (attempt i a (px_stats count_retry (px_delete i px)))),
         lease_dropped (rt_lease r) (snd (attempt i a (px_stats count_retry (px_delete i px)))))"
proof (cases "\<exists>r h. px_route i px = Some r \<and> rt_head r = Some h \<and> \<not> rt_response_started r \<and> rt_attempts r < max_attempts")
  case True
  then obtain r h where "px_route i px = Some r" "rt_head r = Some h" "\<not> rt_response_started r"
      "rt_attempts r < max_attempts"
    by blast
  then show ?thesis by (intro again [of r h]) (simp_all add: retry_def case_prod_beta)
next
  case False
  then have "retry i px = ((False, []), px)" by (auto simp: retry_def not_le split: option.split)
  then show ?thesis by (rule declined)
qed

lemma routes_ok_retry:
  assumes "routes_ok px"
  shows "routes_ok (snd (retry i px))"
proof (cases rule: retry_cases [of i px])
  case (again r h a)
  have "route_ok r" using assms again(1) by (simp add: routes_ok_def)
  then have "attempt_ok a" using again(2,4,5) by (simp add: attempt_ok_def route_ok_def)
  moreover have "routes_ok (px_stats count_retry (px_delete i px))" using assms by (simp add: routes_ok_def)
  ultimately have "routes_ok (snd (attempt i a (px_stats count_retry (px_delete i px))))"
    by (rule routes_ok_attempt [rotated])
  then show ?thesis using again(6) by (simp add: routes_ok_def)
qed (use assms in simp)

lemma routes_ok_put: "routes_ok px \<Longrightarrow> route_ok r \<Longrightarrow> routes_ok (px_put i r px)"
  by (simp add: routes_ok_def)

lemma routes_ok_delete: "routes_ok px \<Longrightarrow> routes_ok (px_delete i px)"
  by (simp add: routes_ok_def)

lemma routes_ok_same [simp]:
  "routes_ok (px_stats f px) = routes_ok px" "routes_ok (px_pool g px) = routes_ok px"
  "routes_ok (px_health h px) = routes_ok px" "routes_ok (lease_dropped l px) = routes_ok px"
  "routes_ok (snd (route_send l m px)) = routes_ok px" "routes_ok (with_shared f' px) = routes_ok px"
  "routes_ok (finished r px) = routes_ok px" "routes_ok (synthesized i st px) = routes_ok px"
  by (simp_all add: routes_ok_def)

lemma route_ok_parts: "routes_ok px \<Longrightarrow> px_route i px = Some r \<Longrightarrow> route_ok r"
  by (simp add: routes_ok_def)

lemma routes_ok_call:
  assumes "routes_ok px"
  shows "routes_ok (snd (proxy_call c px))"
proof (cases c)
  case (SvDispatch i head es)
  then show ?thesis
    using assms by (auto simp: proxy_dispatch_def Let_def attempt_ok_def max_attempts_def intro!: routes_ok_attempt)
next
  case (SvBody i data es)
  have "route_ok (r\<lparr>rt_request_done := es\<rparr>)" if "px_route i px = Some r" "\<not> rt_request_done r" for r
    using route_ok_parts [OF assms that(1)] that(2) by (auto simp: route_ok_def split: option.splits)
  then show ?thesis using assms SvBody routes_ok_put [OF assms]
    by (simp add: proxy_body_def Let_def case_prod_beta split: option.split)
next
  case (SvTrailers i flds)
  have "route_ok (r\<lparr>rt_request_done := True\<rparr>)" if "px_route i px = Some r" for r
    using route_ok_parts [OF assms that(1)] by (auto simp: route_ok_def split: option.splits)
  then show ?thesis using assms SvTrailers routes_ok_put [OF assms] by (simp add: proxy_trailers_def split: option.split)
qed (use assms routes_ok_delete [OF assms] in
    \<open>auto simp: proxy_cancel_def proxy_finish_def proxy_released_def split: option.split\<close>)

lemma routes_ok_intercept:
  assumes "routes_ok px"
  shows "routes_ok (snd (snd (proxy_intercept ev px)))"
proof (cases ev)
  case (EvHead i resp es)
  have "route_ok (r\<lparr>rt_response_started := True\<rparr>)" if "px_route i px = Some r" for r
    using route_ok_parts [OF assms that(1)] by (auto simp: route_ok_def split: option.splits)
  then show ?thesis using assms EvHead routes_ok_put [OF assms] by (simp add: Let_def split: option.split)
next
  case (EvGone i)
  have "routes_ok (snd (retry i (px_health f px)))" for f using assms by (intro routes_ok_retry) simp
  then show ?thesis using assms EvGone
    by (auto split: option.split prod.split bool.split) (metis snd_conv)+
next
  case (EvShed i)
  then show ?thesis using assms routes_ok_delete [of "synthesized i 503 px" i]
    by (simp add: Let_def split: option.split)
next
  case (EvReset i code)
  have "routes_ok (snd (retry i px))" using assms by (rule routes_ok_retry)
  then show ?thesis using assms EvReset by (auto split: option.split prod.split bool.split)
qed (use assms in simp_all)

lemma routes_ok_step: "routes_ok (pw_px w) \<Longrightarrow> routes_ok (pw_px (proxy_step x w))"
  by (cases x) (simp_all add: routes_ok_call routes_ok_intercept Let_def)

lemma routes_ok_start: "routes_ok (pw_px (proxy_world_start cl addr trust bs m pol t))"
  by (simp add: routes_ok_def px_route_def proxy_world_start_def proxy_ready_def attach_def
      trusting_forwarded_headers_def with_peer_def proxy_new_def)

text \<open>A retry lands elsewhere when there is an elsewhere.\<close>

lemma pick_elsewhere:
  assumes "fst (shared_pick (Some failed) now sh) = Some b"
    "c \<in> set (eligible (sh_health sh) (pool_load (sh_backends sh) (sh_pool sh)) now)" "load_backend c \<noteq> failed"
  shows "b \<noteq> failed"
proof -
  define el where "el = eligible (sh_health sh) (pool_load (sh_backends sh) (sh_pool sh)) now"
  have ne: "filter (\<lambda>c. load_backend c \<noteq> failed) el \<noteq> []" using assms(2,3) by (auto simp: el_def filter_empty_conv)
  then have "fst (shared_pick (Some failed) now sh) = fst (lb_pick (sh_balancer sh) (filter (\<lambda>c. load_backend c \<noteq> failed) el))"
    by (simp add: shared_pick_def Let_def el_def [symmetric] split: prod.split option.split)
  then have "fst (lb_pick (sh_balancer sh) (filter (\<lambda>c. load_backend c \<noteq> failed) el)) = Some b"
    using assms(1) by simp
  from lb_pick_member [OF this] show ?thesis by auto
qed

text \<open>C10. A failure is hidden from the client only where that is safe. In every run, an event is
  swallowed only if it says that the connection died or that the backend refused the stream; only
  for a request with an idempotent method and no body, no response begun, and on its first attempt.
  The request, unchanged, is then either on its second attempt, with the clock it started with,
  or the client is answered 503 on the spot: it always hears something, and no request is ever sent a
  third time.\<close>

theorem retry_is_safe:
  assumes "w = proxy_run xs (proxy_world_start cl addr trust bs m pol t)"
    "proxy_intercept ev (pw_px w) = (None, es, px')"
  shows "\<exists>i r h. (ev = EvGone i \<or> ev = EvReset i RefusedStream) \<and> px_route i (pw_px w) = Some r
    \<and> rt_head r = Some h \<and> rq_method h \<in> set idempotent_methods \<and> rt_request_done r
    \<and> \<not> rt_response_started r \<and> rt_attempts r = 1
    \<and> (case px_route i px' of
         Some r' \<Rightarrow> es = [] \<and> rt_attempts r' = 2 \<and> rt_head r' = Some h \<and> rt_started r' = rt_started r
       | None \<Rightarrow> es = (if px_events (pw_px w) = None then [] else [EvHead i (response_status 503) True]))"
proof -
  have ok: "routes_ok (pw_px w)"
    unfolding assms(1)
    by (rule proxy_run_invariant [where I = "\<lambda>w. routes_ok (pw_px w)", OF routes_ok_start routes_ok_step])
  obtain i f where ev: "ev = EvGone i \<or> ev = EvReset i RefusedStream"
    and r: "retry i (px_health f (pw_px w)) = ((True, es), px')"
      and same: "routes_ok (px_health f (pw_px w)) \<and> px_events (px_health f (pw_px w)) = px_events (pw_px w)
        \<and> (\<forall>j. px_route j (px_health f (pw_px w)) = px_route j (pw_px w))"
  proof (cases ev)
    case (EvGone i)
    obtain r where "px_route i (pw_px w) = Some r" using assms(2) EvGone by (cases "px_route i (pw_px w)") auto
    then show ?thesis
      using assms(2) EvGone ok
      by (intro that [of i "\<lambda>h. health_failure h (rt_backend r) (px_now (pw_px w))"])
        (auto split: prod.splits bool.splits)
  next
    case (EvReset i code)
    obtain r where "px_route i (pw_px w) = Some r" using assms(2) EvReset by (cases "px_route i (pw_px w)") auto
    moreover have "px_health (\<lambda>h. h) (pw_px w) = pw_px w" by (simp add: px_health_def)
    ultimately show ?thesis
      using assms(2) EvReset ok
      by (intro that [of i "\<lambda>h. h"]) (auto split: prod.splits bool.splits if_splits)
  qed (use assms(2) in \<open>auto simp: Let_def split: option.splits\<close>)
  let ?px = "px_health f (pw_px w)"
  show ?thesis
  proof (cases rule: retry_cases [of i ?px])
    case declined
    then show ?thesis using r by simp
  next
    case (again rt h a)
    have rt: "px_route i (pw_px w) = Some rt" using again(1) same by simp
    have rok: "route_ok rt" by (rule route_ok_parts [OF ok rt])
    then have one: "rt_attempts rt = 1" and idem: "rq_method h \<in> set idempotent_methods" "rt_request_done rt"
      using again(2,4) by (auto simp: route_ok_def max_attempts_def)
    let ?q = "px_stats count_retry (px_delete i ?px)"
    have q: "px_route i ?q = None" "px_events ?q = px_events (pw_px w)" using same by simp_all
    have res: "es = fst (attempt i a ?q)" "px' = lease_dropped (rt_lease rt) (snd (attempt i a ?q))"
      using r again(6) by simp_all
    show ?thesis
    proof (cases rule: attempt_routes [OF q(1), of a])
      case (1 l b)
      have "px_route i px' = Some (placed_route a l b (px_now ?q))" using 1(3) [of i] by (simp add: res(2))
      then show ?thesis
        using ev rt again(2,3,5) idem one 1(2) res(1) by (auto simp: placed_route_def)
    next
      case 2
      have "px_route i px' = None" using 2(2) [of i] q(1) by (simp add: res(2))
      then show ?thesis using ev rt again(2,3) idem one 2(1) res(1) q(2) by auto
    qed
  qed
qed

theorem retry_is_safe_witness:
  "fst (proxy_intercept (EvGone 1) (pw_px one_get)) = None
   \<and> (\<exists>r. px_route 1 (pw_px one_get) = Some r \<and> rt_attempts r = 1
        \<and> (\<exists>h. rt_head r = Some h \<and> rq_method h \<in> set idempotent_methods))"
proof -
  have n: "fst (proxy_intercept (EvGone 1) (pw_px one_get)) = None" by code_simp
  obtain x es px' where i: "proxy_intercept (EvGone 1) (pw_px one_get) = (x, es, px')"
    by (cases "proxy_intercept (EvGone 1) (pw_px one_get)") auto
  have "x = None" using n i by simp
  from retry_is_safe [OF one_get_def i [unfolded this]] n show ?thesis by auto
qed

subsection \<open>Every dispatch is heard of\<close>

lemma taken_inside:
  assumes "books rest px" "checkout b now (px_p px) = (Inr l, p)"
  shows "l_conn l < length (p_records p)"
proof -
  obtain w where w: "pool_ok w" "w_pool w = px_p px" using assms(1) by (auto elim: booksE)
  have "pool_ok (pool_step (PCheckout b now) w)" by (rule checkout_ok [OF w(1)])
  then show ?thesis using w(2) assms(2) by (simp add: pool_ok_def leases_ok_def)
qed

lemma record_kept [simp]:
  "r_inbox (p_records (with_stats f p) ! k) = r_inbox (p_records p ! k)"
  "p_records (with_stats f p) = p_records p"
  by (simp_all add: with_stats_def)

text \<open>What a hop may do to a request on its way, stated of the two heads: the request line is the same;
  the fields the hop does not own are the same, in the same order; no \<^verbatim>\<open>te\<close> is left; and the forwarding
  fields are the client's own when the peer is unknown, and otherwise exactly one of each, the peer's
  address after the first chain the client sent if such chains are trusted.\<close>

definition hop_owned :: "header \<Rightarrow> bool" where
  "hop_owned f \<longleftrightarrow> hdr_name f \<in> {ascii ''te'', ascii ''x-forwarded-for'', ascii ''x-forwarded-proto''}"

definition forwarded_chain :: "bool \<Rightarrow> request_head \<Rightarrow> octets \<Rightarrow> octets" where
  "forwarded_chain trust head addr =
     (case map hdr_value (filter (\<lambda>f. hdr_name f = ascii ''x-forwarded-for'') (rq_fields head)) of
        v # vs \<Rightarrow> (if trust then utf8_lossy v @ ascii '', '' else []) @ addr
      | [] \<Rightarrow> addr)"

definition hop_rewrites :: "octets option \<Rightarrow> bool \<Rightarrow> request_head \<Rightarrow> request_head \<Rightarrow> bool" where
  "hop_rewrites peer trust head out \<longleftrightarrow>
     rq_method out = rq_method head \<and> rq_scheme out = rq_scheme head \<and>
     rq_authority out = rq_authority head \<and> rq_path out = rq_path head \<and>
     filter (\<lambda>f. \<not> hop_owned f) (rq_fields out) = filter (\<lambda>f. \<not> hop_owned f) (rq_fields head) \<and>
     (case peer of
        None \<Rightarrow> filter hop_owned (rq_fields out)
          = filter (\<lambda>f. hop_owned f \<and> hdr_name f \<noteq> ascii ''te'') (rq_fields head)
      | Some addr \<Rightarrow> map (\<lambda>f. (hdr_name f, hdr_value f)) (filter hop_owned (rq_fields out))
          = [(ascii ''x-forwarded-for'', forwarded_chain trust head addr),
             (ascii ''x-forwarded-proto'', ascii ''https'')])"

lemma find_filter: "List.find P xs = (case filter P xs of [] \<Rightarrow> None | x # _ \<Rightarrow> Some x)"
  by (induction xs) auto

lemma hop_fields_distinct [simp]:
  "ascii ''x-forwarded-for'' \<noteq> ascii ''te''" "ascii ''x-forwarded-proto'' \<noteq> ascii ''te''"
  "ascii ''te'' \<noteq> ascii ''x-forwarded-for''" "ascii ''te'' \<noteq> ascii ''x-forwarded-proto''"
  "ascii ''x-forwarded-for'' \<noteq> ascii ''x-forwarded-proto''"
  "ascii ''x-forwarded-proto'' \<noteq> ascii ''x-forwarded-for''"
  by code_simp+

lemma hop_rewrites_dispatch: "hop_rewrites peer trust head (add_forwarded peer trust (sanitize head))"
proof (cases peer)
  case None
  then show ?thesis
    by (auto simp: hop_rewrites_def add_forwarded_def sanitize_def hop_owned_def intro!: filter_cong)
next
  case (Some addr)
  define fs where "fs = filter (\<lambda>f. hdr_name f = ascii ''x-forwarded-for'') (rq_fields head)"
  have fs': "filter (\<lambda>f. hdr_name f = x_forwarded_for) (rq_fields (sanitize head)) = fs"
    unfolding fs_def by (auto simp: sanitize_def x_forwarded_for_def intro!: filter_cong)
  have chain: "forwarded_chain trust head addr = (case if trust then List.find (\<lambda>f. hdr_name f = x_forwarded_for) (rq_fields (sanitize head)) else None of
      Some f \<Rightarrow> utf8_lossy (hdr_value f) @ ascii '', '' @ addr | None \<Rightarrow> addr)"
    unfolding find_filter fs' forwarded_chain_def fs_def [symmetric] by (cases fs) auto
  have kept: "filter (\<lambda>f. hop_owned f) (filter (\<lambda>f. hdr_name f \<noteq> x_forwarded_for \<and> hdr_name f \<noteq> x_forwarded_proto)
      (rq_fields (sanitize head))) = []"
    by (auto simp: filter_empty_conv hop_owned_def sanitize_def x_forwarded_for_def x_forwarded_proto_def)
  have others: "filter (\<lambda>f. \<not> hop_owned f) (filter (\<lambda>f. hdr_name f \<noteq> x_forwarded_for \<and> hdr_name f \<noteq> x_forwarded_proto)
      (rq_fields (sanitize head))) = filter (\<lambda>f. \<not> hop_owned f) (rq_fields head)"
    by (auto simp: hop_owned_def sanitize_def x_forwarded_for_def x_forwarded_proto_def intro!: filter_cong)
  show ?thesis
    unfolding hop_rewrites_def Some option.case add_forwarded_def Let_def chain
    using kept others
    by (simp add: header_new_def hop_owned_def x_forwarded_for_def x_forwarded_proto_def sanitize_def del: filter_filter)
qed

text \<open>C9. A request given to the proxy is never lost. Either it is sent, changed only in the fields the
  hop owns, to the connection whose slot its route then holds, and the head sent is kept for a retry
  exactly when it may be sent twice; or no route is left and the client is answered 503 at once. (The
  stream is not proxied already, and the events' channel is attached.)\<close>

theorem dispatch_never_lost:
  assumes "w = proxy_run xs (proxy_world_start cl addr trust bs m pol t)"
    "px_route i (pw_px w) = None" "px_events (pw_px w) = Some c"
    "proxy_dispatch i head end_stream (pw_px w) = (es, px')"
  shows "case px_route i px' of
      Some r \<Rightarrow> es = [] \<and> r_inbox (p_records (px_p px') ! l_conn (rt_lease r)) \<noteq> []
        \<and> (\<exists>out. hop_rewrites (px_peer (pw_px w)) (px_trust_forwarded (pw_px w)) head out
          \<and> last (r_inbox (p_records (px_p px') ! l_conn (rt_lease r)))
              = TuRequest (l_id (rt_lease r)) i out end_stream c
          \<and> rt_head r = (if end_stream \<and> rq_method head \<in> set idempotent_methods then Some out else None))
        \<and> rt_attempts r = 1 \<and> rt_started r = px_now (pw_px w)
    | None \<Rightarrow> es = [EvHead i (response_status 503) True]"
proof -
  let ?px = "pw_px w"
  define out where "out = add_forwarded (px_peer ?px) (px_trust_forwarded ?px) (sanitize head)"
  have rewritten: "hop_rewrites (px_peer ?px) (px_trust_forwarded ?px) head out"
    unfolding out_def by (rule hop_rewrites_dispatch)
  have "world_books w"
    unfolding assms(1) by (rule proxy_run_invariant [where I = world_books, OF world_books_start world_books_step])
  then have b: "books (mset (pw_others w)) ?px" by (simp add: world_books_def)
  have same_method: "rq_method out = rq_method head" using rewritten by (simp add: hop_rewrites_def)
  define a where "a = \<lparr>at_head = out, at_end_stream = end_stream,
     at_spare = (if end_stream \<and> rq_method out \<in> set idempotent_methods then Some out else None),
     at_exclude = None, at_attempts = 1, at_carry = None\<rparr>"
  have at: "attempt i a ?px = (es, px')"
    using assms(4) unfolding a_def out_def by (simp add: proxy_dispatch_def Let_def)
  show ?thesis
  proof (cases rule: attempt_cases [of a ?px i])
    case (placed be l p cl')
    have inside: "l_conn l < length (p_records p)" by (rule taken_inside [OF b placed(2)])
    have alive: "\<not> r_receiver_gone (p_records p ! l_conn l)"
      using placed(4) by (auto simp: route_send_def lease_send_def split: if_splits)
    have px': "px_route i px' = Some (placed_route a l be (px_now ?px))"
      using at placed(5) by (simp add: Let_def) (metis route_insert)
    have "p_records (px_p px') = p_records (snd (lease_send l (asked i a l cl') p))"
      using at placed(5) assms(2) by (auto simp: insert_route_def Let_def a_def)
    then have "r_inbox (p_records (px_p px') ! l_conn l) = r_inbox (p_records p ! l_conn l) @ [asked i a l cl']"
      using inside alive by (simp add: lease_send_def with_record_def)
    then show ?thesis
      using px' at placed(3,5) assms(3) same_method rewritten by (auto simp: placed_route_def asked_def a_def)
  qed (use at assms(2,3) in \<open>auto simp: answer_locally_def emit_def\<close>)
qed

theorem dispatch_never_lost_witness:
  "px_route 3 (snd (proxy_dispatch 3 sample_get True (pw_px one_get))) \<noteq> None
   \<and> fst (proxy_dispatch 3 sample_get True (pw_px one_get)) = []"
proof -
  have r: "px_route 3 (snd (proxy_dispatch 3 sample_get True (pw_px one_get))) \<noteq> None" by code_simp
  have n: "px_route 3 (pw_px one_get) = None" "px_events (pw_px one_get) = Some 7" by code_simp+
  obtain es px' where d: "proxy_dispatch 3 sample_get True (pw_px one_get) = (es, px')"
    by (cases "proxy_dispatch 3 sample_get True (pw_px one_get)")
  from dispatch_never_lost [OF one_get_def n d] r d show ?thesis by (auto split: option.splits)
qed

subsection \<open>The gauge of active client streams\<close>

abbreviation gauge :: "proxy \<Rightarrow> nat" where "gauge px \<equiv> ps_client_streams (p_stats (px_p px))"

lemma gauge_lease [simp]:
  "p_stats (with_record k f p) = p_stats p" "p_stats (drop_lease l p) = p_stats p"
  "p_stats (snd (lease_send l m p)) = p_stats p"
  by (simp_all add: with_record_def drop_lease_def lease_send_def)

lemma gauge_checkout: "ps_client_streams (p_stats (snd (checkout b now p))) = ps_client_streams (p_stats p)"
proof (cases rule: checkout_cases [of b now p])
  case (opens k p1)
  then show ?thesis using opened_fields(6) [OF opens(4)] by (simp add: connect_attempt_def)
qed (simp_all add: with_stats_def count_shed_def)

lemma gauge_stats:
  "gauge (px_stats f px) = ps_client_streams (f (p_stats (px_p px)))"
  by (simp add: with_stats_def)

lemma gauge_other [simp]:
  "gauge (px_stats count_request px) = gauge px" "gauge (px_stats count_retry px) = gauge px"
  "gauge (px_stats (count_response s) px) = gauge px" "gauge (synthesized i s px) = gauge px"
  "gauge (px_stats open_client_stream px) = Suc (gauge px)"
  "gauge (px_stats close_client_stream px) = gauge px - 1" "gauge (finished r px) = gauge px - 1"
  by (simp_all add: gauge_stats count_request_def count_retry_def count_response_def synthesized_def
      open_client_stream_def close_client_stream_def finished_def observe_latency_def Let_def
      del: px_simps(6))

lemma routes_kept [simp]:
  "px_routes (finished r px) = px_routes px" "px_routes (synthesized i s px) = px_routes px"
  by (simp_all add: finished_def synthesized_def)

lemma gauge_count_response [simp]:
  "ps_client_streams (p_stats (with_stats (count_response s) p)) = ps_client_streams (p_stats p)"
  by (simp add: with_stats_def count_response_def Let_def)

lemma delete_length:
  assumes "distinct (map fst al)" "map_of al i = Some r"
  shows "Suc (length (AList.delete i al)) = length al"
proof -
  have "mset (map (id \<circ> snd) al) = add_mset (id r) (mset (map (id \<circ> snd) (AList.delete i al)))"
    by (rule mset_delete [OF assms])
  then have "size (mset (map snd al)) = Suc (size (mset (map snd (AList.delete i al))))" by simp
  then show ?thesis by simp
qed

lemma update_length:
  "length (AList.update i r al) = (if map_of al i = None then Suc (length al) else length al)"
  by (induction al) auto

abbreviation nroutes :: "proxy \<Rightarrow> nat" where "nroutes px \<equiv> length (px_routes px)"

lemma attempt_gauge:
  assumes "px_route i px = None" "attempt i a px = (es, px')"
  shows "nroutes px' = nroutes px + of_bool (px_route i px' \<noteq> None)
    \<and> gauge px' = gauge px + of_bool (px_route i px' \<noteq> None \<and> at_carry a = None)"
proof (cases rule: attempt_cases [of a px i])
  case (placed b l p cl)
  have g: "ps_client_streams (p_stats p) = gauge px"
    using gauge_checkout [of b "px_now_ms px" "px_p px"] placed(2) by simp
  let ?px3 = "snd (route_send l (asked i a l cl) (px_pool (\<lambda>_. p) (picked a px)))"
  let ?px4 = "px_stats count_request ?px3"
  let ?px5 = "if at_carry a = None then px_stats open_client_stream ?px4 else ?px4"
  have px': "px' = insert_route i (placed_route a l b (px_now px)) ?px5" using assms(2) placed(5) by (simp add: Let_def)
  have n: "map_of (px_routes px) i = None" using assms(1) by (simp add: px_route_def)
  have ins: "px_route i ?px5 = None" using assms(1) by simp
  have "px_routes px' = AList.update i (placed_route a l b (px_now px)) (px_routes px)"
    "px_p px' = px_p ?px5"
    using ins unfolding px' by (simp_all add: insert_route_def split: if_splits)
  moreover have "gauge ?px4 = gauge px" using g by (simp add: with_stats_def count_request_def)
  then have "gauge ?px5 = gauge px + of_bool (at_carry a = None)" using gauge_other(5) [of ?px4] by simp
  moreover have "px_route i px' \<noteq> None" unfolding px' by simp
  ultimately show ?thesis using n by (simp add: update_length)
next
  case (no_slot b e p)
  then show ?thesis
    using assms gauge_checkout [of b "px_now_ms px" "px_p px"] by auto
next
  case (detached b l p)
  then show ?thesis
    using assms gauge_checkout [of b "px_now_ms px" "px_p px"] by auto
next
  case (dead b l p cl)
  then show ?thesis
    using assms gauge_checkout [of b "px_now_ms px" "px_p px"] by auto
qed (use assms in auto)

text \<open>The stream an event is about, and whether an event's retry could not be placed.\<close>

fun event_stream :: "service_event \<Rightarrow> stream_id" where
  "event_stream (EvHead i resp es) = i"
| "event_stream (EvData i data es) = i"
| "event_stream (EvTrailers i flds) = i"
| "event_stream (EvBodyAccepted i n) = i"
| "event_stream (EvReset i code) = i"
| "event_stream (EvGone i) = i"
| "event_stream (EvShed i) = i"

definition stranded :: "service_event \<Rightarrow> proxy \<Rightarrow> bool" where
  "stranded ev px \<longleftrightarrow> fst (proxy_intercept ev px) = None
     \<and> px_route (event_stream ev) (snd (snd (proxy_intercept ev px))) = None"

lemma retry_gauge:
  assumes "distinct (map fst (px_routes px))" "retry i px = ((again, es), px')"
  shows "gauge px' + nroutes px = gauge px + nroutes px' + of_bool (again \<and> px_route i px' = None)"
proof (cases rule: retry_cases [of i px])
  case (again r h a)
  let ?q = "px_stats count_retry (px_delete i px)"
  have q: "px_route i ?q = None" by simp
  obtain es' px1 where at: "attempt i a ?q = (es', px1)" by (cases "attempt i a ?q")
  note g = attempt_gauge [OF q at]
  have "Suc (nroutes ?q) = nroutes px"
    using delete_length [OF assms(1)] again(1) by (simp add: px_route_def)
  moreover have "gauge ?q = gauge px" by (simp add: with_stats_def count_retry_def)
  moreover have "at_carry a \<noteq> None" using again(5) by simp
  ultimately show ?thesis using g again(6) assms(2) at by auto
qed (use assms in simp)

lemma put_nroutes:
  "px_route i px \<noteq> None \<Longrightarrow> nroutes (px_put i r px) = nroutes px"
  by (simp add: px_route_def update_length)

lemma delete_nroutes:
  assumes "distinct (map fst (px_routes px))" "px_route i px \<noteq> None"
  shows "Suc (nroutes (px_delete i px)) = nroutes px"
  using assms delete_length [of "px_routes px" i] by (auto simp: px_route_def)

lemma call_gauge:
  assumes "distinct (map fst (px_routes px))" "nroutes px \<le> gauge px"
    "\<And>i head es. c = SvDispatch i head es \<Longrightarrow> px_route i px = None \<and> px_events px \<noteq> None"
  shows "gauge (snd (proxy_call c px)) + nroutes px = gauge px + nroutes (snd (proxy_call c px))"
proof (cases c)
  case (SvDispatch i head es)
  have n: "px_route i px = None" using assms(3) SvDispatch by blast
  have "gauge (snd (attempt i a px)) + nroutes px = gauge px + nroutes (snd (attempt i a px))"
    if "at_carry a = None" for a
    using attempt_gauge [OF n, of a "fst (attempt i a px)" "snd (attempt i a px)"] that by simp
  then show ?thesis
    using SvDispatch by (simp add: proxy_dispatch_def Let_def)
next
  case (SvBody i data es)
  then show ?thesis
    using put_nroutes [of i px] by (simp add: proxy_body_def Let_def case_prod_beta split: option.split)
next
  case (SvTrailers i flds)
  then show ?thesis using put_nroutes [of i px] by (simp add: proxy_trailers_def split: option.split)
next
  case (SvCancel i code)
  show ?thesis
  proof (cases "px_route i px")
    case (Some r)
    then have "Suc (nroutes (px_delete i px)) = nroutes px" using delete_nroutes [OF assms(1), of i] by simp
    then show ?thesis using SvCancel Some assms(2) by (simp add: proxy_cancel_def)
  qed (use SvCancel in \<open>simp add: proxy_cancel_def\<close>)
next
  case (SvFinish i)
  show ?thesis
  proof (cases "px_route i px")
    case (Some r)
    then have "Suc (nroutes (px_delete i px)) = nroutes px" using delete_nroutes [OF assms(1), of i] by simp
    then show ?thesis using SvFinish Some assms(2) by (simp add: proxy_finish_def)
  qed (use SvFinish in \<open>simp add: proxy_finish_def\<close>)
next
  case (SvReleased i n)
  then show ?thesis by (simp add: proxy_released_def split: option.split)
qed

lemma intercept_gauge:
  assumes "distinct (map fst (px_routes px))" "nroutes px \<le> gauge px"
  shows "gauge (snd (snd (proxy_intercept ev px))) + nroutes px
    = gauge px + nroutes (snd (snd (proxy_intercept ev px))) + of_bool (stranded ev px)"
proof (cases ev)
  case (EvHead i resp es)
  then show ?thesis
    using put_nroutes [of i px] by (simp add: stranded_def Let_def split: option.split)
next
  case (EvGone i)
  show ?thesis
  proof (cases "px_route i px")
    case (Some r)
    let ?q = "px_health (\<lambda>h. health_failure h (rt_backend r) (px_now px)) px"
    obtain again es px' where r: "retry i ?q = ((again, es), px')" by (cases "retry i ?q") auto
    have "gauge px' + nroutes px = gauge px + nroutes px' + of_bool (again \<and> px_route i px' = None)"
      using retry_gauge [of ?q i again es px'] assms(1) r by simp
    then show ?thesis using EvGone Some r by (cases again) (simp_all add: stranded_def)
  qed (use EvGone in \<open>simp add: stranded_def\<close>)
next
  case (EvShed i)
  show ?thesis
  proof (cases "px_route i px")
    case (Some r)
    let ?s = "synthesized i 503 px"
    let ?q = "px_stats close_client_stream (lease_dropped (rt_lease r) (px_delete i ?s))"
    have eq: "proxy_intercept ev px = (Some ev, [], ?q)" using EvShed Some by (simp add: Let_def)
    have "Suc (nroutes (px_delete i ?s)) = nroutes px" using delete_nroutes [of ?s i] assms(1) Some by simp
    then have n: "Suc (nroutes ?q) = nroutes px" by simp
    have "gauge ?q = gauge ?s - 1" by (simp add: with_stats_def close_client_stream_def)
    then have "gauge ?q = gauge px - 1" by simp
    then show ?thesis unfolding eq stranded_def using n assms(2) by simp
  next
    case None
    then show ?thesis using EvShed by (simp add: stranded_def Let_def)
  qed
next
  case (EvReset i code)
  show ?thesis
  proof (cases "px_route i px")
    case (Some r)
    obtain again es px' where r: "retry i px = ((again, es), px')" by (cases "retry i px") auto
    have "gauge px' + nroutes px = gauge px + nroutes px' + of_bool (again \<and> px_route i px' = None)"
      using retry_gauge [OF assms(1) r] .
    then show ?thesis using EvReset Some r by (cases again) (simp_all add: stranded_def)
  qed (use EvReset in \<open>simp add: stranded_def\<close>)
qed (simp_all add: stranded_def)

lemma others_gauge:
  "ps_client_streams (p_stats (w_pool (pool_step x w))) = ps_client_streams (p_stats (w_pool w))"
proof (cases x)
  case (PCheckout b now)
  then show ?thesis
    using gauge_checkout [of b now "w_pool w"]
    by (cases "checkout b now (w_pool w)"; cases "fst (checkout b now (w_pool w))") auto
next
  case (PSnapshots now)
  have "p_stats (snd (snapshot_all ks p)) = p_stats p" for ks p
    by (induction ks arbitrary: p) (simp_all split: prod.split, metis gauge_lease(1) snd_conv)
  then show ?thesis using PSnapshots by (simp add: conn_snapshots_def)
qed (simp_all add: connect_failed_def fail_pending_def connection_ended_def with_stats_def connect_failure_def
    probe_failure_def close_connection_def connect_succeeded_def open_connection_def Let_def)

text \<open>The engine never dispatches a stream that is being proxied, nor before the channel is attached.\<close>

fun fresh_dispatches :: "proxy_input list \<Rightarrow> proxy_world \<Rightarrow> bool" where
  "fresh_dispatches [] w = True"
| "fresh_dispatches (x # xs) w =
     ((case x of PxCall (SvDispatch i head es) \<Rightarrow> px_route i (pw_px w) = None \<and> px_events (pw_px w) \<noteq> None | _ \<Rightarrow> True)
      \<and> fresh_dispatches xs (proxy_step x w))"

fun stranded_in :: "proxy_input list \<Rightarrow> proxy_world \<Rightarrow> nat" where
  "stranded_in [] w = 0"
| "stranded_in (x # xs) w =
     (case x of PxEvent ev \<Rightarrow> of_bool (stranded ev (pw_px w)) | _ \<Rightarrow> 0) + stranded_in xs (proxy_step x w)"

lemma gauge_step:
  assumes "world_books w" "nroutes (pw_px w) + pw_elsewhere w \<le> gauge (pw_px w)" "fresh_dispatches [x] w"
  shows "gauge (pw_px (proxy_step x w)) + nroutes (pw_px w) + pw_elsewhere w
    = gauge (pw_px w) + nroutes (pw_px (proxy_step x w)) + pw_elsewhere (proxy_step x w) + stranded_in [x] w"
proof -
  have k: "distinct (map fst (px_routes (pw_px w)))" using assms(1) by (simp add: world_books_def books_def)
  have le: "nroutes (pw_px w) \<le> gauge (pw_px w)" using assms(2) by simp
  show ?thesis
  proof (cases x)
    case (PxCall c)
    have "gauge (snd (proxy_call c (pw_px w))) + nroutes (pw_px w) = gauge (pw_px w) + nroutes (snd (proxy_call c (pw_px w)))"
      by (rule call_gauge [OF k le]) (use assms(3) PxCall in auto)
    then show ?thesis using PxCall by simp
  next
    case (PxEvent ev)
    then show ?thesis using intercept_gauge [OF k le, of ev] by simp
  next
    case (PxOthers y)
    then show ?thesis
      using others_gauge [of y "\<lparr>w_pool = px_p (pw_px w), w_held = pw_others w, w_granted = []\<rparr>"]
      by (simp add: Let_def)
  next
    case PxOtherOpens
    have "gauge (px_stats open_client_stream (pw_px w)) = Suc (gauge (pw_px w))" by (rule gauge_other(5))
    then show ?thesis using PxOtherOpens by simp
  next
    case PxOtherCloses
    have "gauge (px_stats close_client_stream (pw_px w)) = gauge (pw_px w) - 1" by (rule gauge_other(6))
    then show ?thesis using PxOtherCloses assms(2) by simp
  next
    case (PxOtherCounts s)
    then show ?thesis by (simp add: with_stats_def)
  qed simp_all
qed

lemma gauge_run:
  "world_books w \<Longrightarrow> gauge (pw_px w) = nroutes (pw_px w) + pw_elsewhere w + g \<Longrightarrow> fresh_dispatches xs w \<Longrightarrow>
     gauge (pw_px (proxy_run xs w))
       = nroutes (pw_px (proxy_run xs w)) + pw_elsewhere (proxy_run xs w) + g + stranded_in xs w"
proof (induction xs arbitrary: w g)
  case (Cons x xs)
  have "gauge (pw_px (proxy_step x w))
      = nroutes (pw_px (proxy_step x w)) + pw_elsewhere (proxy_step x w) + (g + stranded_in [x] w)"
    using gauge_step [of w x] Cons.prems by simp
  then show ?case
    using Cons.IH [OF world_books_step [OF Cons.prems(1)], of x "g + stranded_in [x] w"] Cons.prems(3)
    by (simp add: proxy_run_def)
qed (simp add: proxy_run_def)

text \<open>C26. The process-wide gauge of active client streams counts this client's routes, the streams
  other clients have counted in and not yet out (\<open>pw_elsewhere\<close>), and one more for every retry of this
  client's that could not be placed: \<^verbatim>\<open>retry\<close> takes the route out and, carrying its clock, has \<^verbatim>\<open>attempt\<close>
  count no new stream; when that attempt is answered locally nobody closes the old one. Such a stream
  stays in the gauge for the life of the process. (The engine dispatches no stream that is being
  proxied already, and none before the events' channel is attached.)\<close>

theorem client_gauge_exact:
  assumes "w = proxy_run xs (proxy_world_start cl addr trust bs m pol t)"
    "fresh_dispatches xs (proxy_world_start cl addr trust bs m pol t)"
  shows "ps_client_streams (p_stats (px_p (pw_px w)))
    = length (px_routes (pw_px w)) + pw_elsewhere w
      + stranded_in xs (proxy_world_start cl addr trust bs m pol t)"
proof -
  let ?w = "proxy_world_start cl addr trust bs m pol t"
  have "gauge (pw_px ?w) = nroutes (pw_px ?w) + pw_elsewhere ?w + 0"
    by (simp add: proxy_world_start_def proxy_ready_def attach_def trusting_forwarded_headers_def with_peer_def
        proxy_new_def px_stats_def px_pool_def with_stats_def shared_with_tuning_def pool_new_def
        client_connected_def stats_default_def)
  from gauge_run [OF world_books_start this assms(2)] show ?thesis by (simp add: assms(1))
qed

text \<open>One stream on a backend that allows one: the backend refuses it, and the second attempt finds no
  slot, because the first one's is given back only when \<^verbatim>\<open>retry\<close> returns.\<close>

definition one_slot :: tuning where
  "one_slot = tuning_default\<lparr>tu_max_pending := 1\<rparr>"

definition refused_inputs :: "proxy_input list" where
  "refused_inputs = [PxOtherOpens, PxCall (SvDispatch 1 sample_get True), PxOthers (PMaxConcurrent 0 1), PxOthers (PQueued 0 1),
     PxEvent (EvReset 1 RefusedStream)]"

definition refused_start :: proxy_world where
  "refused_start = proxy_world_start 7 (ascii ''10.0.0.9'') False [sample_backend 80] 1 policy_default one_slot"

theorem client_gauge_exact_witness:
  "px_routes (pw_px (proxy_run refused_inputs refused_start)) = []
   \<and> ps_client_streams (p_stats (px_p (pw_px (proxy_run refused_inputs refused_start)))) = 2"
proof -
  have f: "fresh_dispatches refused_inputs refused_start" "stranded_in refused_inputs refused_start = 1"
      "px_routes (pw_px (proxy_run refused_inputs refused_start)) = []"
      "pw_elsewhere (proxy_run refused_inputs refused_start) = 1"
    by code_simp+
  show ?thesis
    using client_gauge_exact [OF refl, of refused_inputs 7 "ascii ''10.0.0.9''" False "[sample_backend 80]" 1
        policy_default one_slot] f
    by (simp add: refused_start_def)
qed

text \<open>With that slot given back first, the same checkout succeeds.\<close>

lemma retry_refused_by_its_own_slot:
  "fst (proxy_intercept (EvReset 1 RefusedStream) (pw_px (proxy_run (take 4 refused_inputs) refused_start))) = None"
  "fst (snd (proxy_intercept (EvReset 1 RefusedStream) (pw_px (proxy_run (take 4 refused_inputs) refused_start))))
     = [EvHead 1 (response_status 503) True]"
  "fst (checkout (sample_backend 80) 0
     (drop_lease \<lparr>l_conn = 0, l_id = 0\<rparr> (px_p (pw_px (proxy_run (take 4 refused_inputs) refused_start)))))
     = Inr \<lparr>l_conn = 0, l_id = 1\<rparr>"
  by code_simp+

end
