(* ===== verification/Conn_Responder.thy ===== *)
theory Conn_Responder
  imports Conn_Aside
begin

section \<open>What a connection asks of its responder\<close>

text \<open>
  The interface between a connection and the responder behind it, the \<^verbatim>\<open>Service\<close> trait, as locales. A
  responder keeps a relation between its state and the calls made to it; an upstream leg holds
  something for a stream from its dispatch until it hears that the stream finished or was cancelled.
  What a connection then guarantees is proved once, for every responder that obeys the laws.
\<close>

locale responder =
  fixes S :: "'v service"
    and kept :: "'v \<Rightarrow> service_call list \<Rightarrow> bool"
  assumes call: "kept v cs \<Longrightarrow> kept (snd (sv_call S c v)) (cs @ [c])"
    and intercept: "kept v cs \<Longrightarrow> kept (snd (snd (sv_intercept S ev v))) cs"
begin

definition serves :: "'v conn \<Rightarrow> bool" where
  "serves c \<longleftrightarrow> kept (c_service c) (c_calls c)"

lemma serves_updates [simp]:
  "serves (c\<lparr>c_out := x1\<rparr>) = serves c" "serves (c\<lparr>c_read_buf := x2\<rparr>) = serves c"
  "serves (c\<lparr>c_local_settings := x3\<rparr>) = serves c" "serves (c\<lparr>c_hpack_dec := x4\<rparr>) = serves c"
  "serves (c\<lparr>c_hpack_enc := x5\<rparr>) = serves c" "serves (c\<lparr>c_conn_send_window := x6\<rparr>) = serves c"
  "serves (c\<lparr>c_conn_recv_window := x7\<rparr>) = serves c" "serves (c\<lparr>c_pending_reset := x8\<rparr>) = serves c"
  "serves (c\<lparr>c_guard := x9\<rparr>) = serves c" "serves (c\<lparr>c_last_stream_at := x10\<rparr>) = serves c"
  "serves (c\<lparr>c_events := x12\<rparr>) = serves c" "serves (c\<lparr>c_summary := x13\<rparr>) = serves c"
  "serves (c\<lparr>c_frames := x14\<rparr>) = serves c" "serves (c\<lparr>c_received := x15\<rparr>) = serves c"
  "serves (c\<lparr>c_open_header_block := x16\<rparr>) = serves c" "serves (c\<lparr>c_open_header_end_stream := x17\<rparr>) = serves c"
  "serves (c\<lparr>c_header_block := x18\<rparr>) = serves c" "serves (c\<lparr>c_draining := x19\<rparr>) = serves c"
  "serves (c\<lparr>c_advertised_streams := x20\<rparr>) = serves c" "serves (c\<lparr>c_outstanding_settings := x21\<rparr>) = serves c"
  "serves (c\<lparr>c_enforced_streams := x22\<rparr>) = serves c" "serves (c\<lparr>c_peer_acked_settings := x23\<rparr>) = serves c"
  "serves (c\<lparr>c_streams := x24\<rparr>) = serves c" "serves (c\<lparr>c_ready := x25\<rparr>) = serves c"
  "serves (c\<lparr>c_peer_settings := x26\<rparr>) = serves c"
  by (simp_all add: serves_def)

lemma serves_small [simp]:
  "serves (c_put i s c) = serves c" "serves (count_reset c) = serves c" "serves (count_block c) = serves c"
  "serves (count_sent n c) = serves c" "serves (count_stall c) = serves c"
  "serves (retire_and_unqueue i c) = serves c"
  by (simp_all add: c_put_def count_reset_def count_block_def count_sent_def count_stall_def retire_and_unqueue_def)

lemma serves_more [simp]:
  "serves (enqueue_ready i c) = serves c" "serves (mark_started i c) = serves c"
  "serves (mark_queued i c) = serves c" "serves (recv_settings_ack c) = serves c"
  "serves (snd (encode_block hs c)) = serves c" "serves (snd (queue_frame f c)) = serves c"
  "serves (snd (check_verdict v c)) = serves c" "serves (snd (drain_reclaimed c)) = serves c"
  "serves (snd (release_conn_window n c)) = serves c"
  by (simp_all add: enqueue_ready_def mark_started_def mark_queued_def recv_settings_ack_def encode_block_def
      queue_frame_def check_verdict_def drain_reclaimed_def release_conn_window_def Let_def
      split: option.split prod.split sum.split)

lemma serves_notify [simp]: "serves c \<Longrightarrow> serves (notify S cl c)"
  using call [of "c_service c" "c_calls c" cl] by (simp add: serves_def notify_def case_prod_beta)

lemma serves_then:
  assumes "serves (snd r)" "\<And>a c1. serves c1 \<Longrightarrow> serves (snd (f a c1))"
  shows "serves (snd (and_then r f))"
  using assms by (cases r; cases "fst r") (auto simp: and_then_def)

lemma serves_write_rst_stream [simp]: "serves c \<Longrightarrow> serves (snd (write_rst_stream S i code c))"
  unfolding write_rst_stream_def by (rule serves_then) simp_all

lemma serves_flush_resets [simp]: "serves c \<Longrightarrow> serves (snd (flush_resets S es c))"
proof (induction es arbitrary: c)
  case (Cons e es)
  show ?case unfolding flush_resets.simps by (rule serves_then) (simp_all add: Cons)
qed simp

lemma serves_apply_stream_event [simp]: "serves c \<Longrightarrow> serves (snd (apply_stream_event S i e c))"
  by (auto simp: apply_stream_event_def Let_def split: prod.split sum.split)

lemma serves_release_recv_window [simp]: "serves c \<Longrightarrow> serves (snd (release_recv_window i n c))"
  unfolding release_recv_window_def Let_def
  by (auto intro!: serves_then split: option.split prod.split)

lemma serves_send_response [simp]: "serves c \<Longrightarrow> serves (snd (send_response S i resp es c))"
proof -
  assume c: "serves c"
  obtain block c1 where e: "encode_block (response_to_headers resp) c = (block, c1)"
    by (cases "encode_block (response_to_headers resp) c")
  have "serves c1" using serves_more(5) [of "response_to_headers resp" c] e c by simp
  then show ?thesis unfolding send_response_def e prod.case by (intro serves_then) simp_all
qed

lemma serves_send_trailers [simp]: "serves c \<Longrightarrow> serves (snd (send_trailers S i flds c))"
proof -
  assume c: "serves c"
  obtain block c1 where e: "encode_block flds c = (block, c1)" by (cases "encode_block flds c")
  have "serves c1" using serves_more(5) [of flds c] e c by simp
  then have "serves (snd (and_then (queue_frame (Headers i block True True) c1)
      (\<lambda>_. apply_stream_event S i (SendHeaders True))))"
    by (intro serves_then) simp_all
  then show ?thesis using c by (auto simp: send_trailers_def e split: option.split)
qed

lemma serves_reject_stream [simp]: "serves c \<Longrightarrow> serves (snd (reject_stream S i st c))"
  unfolding reject_stream_def
  by (auto intro!: serves_then split: prod.split sum.split open_rejection.split)

lemma serves_recv_trailers [simp]: "serves c \<Longrightarrow> serves (snd (recv_trailers S i s hs es c))"
  by (auto simp: recv_trailers_def split: sum.split option.split)

lemma serves_dispatch_request [simp]: "serves c \<Longrightarrow> serves (snd (dispatch_request S now i hs es c))"
  by (auto simp: dispatch_request_def Let_def split: sum.split option.split)

lemma serves_recv_request [simp]: "serves c \<Longrightarrow> serves (snd (recv_request S now i hs es c))"
  unfolding recv_request_def
  by (auto intro!: serves_then split: prod.split sum.split option.split open_rejection.split)

lemma serves_decode_block [simp]: "serves c \<Longrightarrow> serves (snd (decode_block S now i block c))"
  by (auto simp: decode_block_def split: prod.split sum.split hpack_error.split)

lemma serves_read_header_block [simp]: "serves c \<Longrightarrow> serves (snd (read_header_block S now i frag eh c))"
  by (auto simp: read_header_block_def Let_def split: prod.split)

lemma serves_recv_live_data [simp]: "serves c \<Longrightarrow> serves (snd (recv_live_data S i s data es c))"
  unfolding recv_live_data_def Let_def
  by (auto intro!: serves_then split: prod.split sum.split option.split)

lemma serves_recv_data [simp]:
  assumes "serves c"
  shows "serves (snd (recv_data S i data es c))"
proof -
  have late: "serves (snd (and_then (release_conn_window n c2) (\<lambda>_. write_rst_stream S i StreamClosed)))"
    if "serves c2" for n c2
    by (rule serves_then) (simp_all add: that)
  show ?thesis
    unfolding recv_data_def
    by (auto intro!: serves_then simp: assms late split: prod.split lookup_result.split)
qed

lemma serves_recv_rst_stream [simp]: "serves c \<Longrightarrow> serves (snd (recv_rst_stream S now i code c))"
  unfolding recv_rst_stream_def by (auto intro!: serves_then split: prod.split lookup_result.split)

lemma serves_recv_window_update [simp]: "serves c \<Longrightarrow> serves (snd (recv_window_update S i inc c))"
  by (auto simp: recv_window_update_def Let_def split: prod.split lookup_result.split)

lemma serves_recv_settings [simp]: "serves c \<Longrightarrow> serves (snd (recv_settings params c))"
  unfolding recv_settings_def Let_def write_settings_ack_def
  by (auto intro!: serves_then split: prod.split)

lemma serves_frame_action [simp]: "serves c \<Longrightarrow> serves (snd (frame_action S now f c))"
  by (cases f) (auto intro!: serves_then)

lemma serves_handle_frame [simp]: "serves c \<Longrightarrow> serves (snd (handle_frame S now f c))"
  unfolding handle_frame_def Let_def by (auto intro!: serves_then split: prod.split)

lemma serves_spend_windows [simp]: "serves c \<Longrightarrow> serves (snd (spend_windows n i s c))"
  unfolding spend_windows_def by (auto intro!: serves_then split: prod.split)

lemma serves_write_data [simp]: "serves c \<Longrightarrow> serves (snd (write_data S i chunk es c))"
  unfolding write_data_def by (auto intro!: serves_then)

lemma serves_visit_emit [simp]: "serves c \<Longrightarrow> serves (snd (visit_emit S i chunk es trailers s c))"
  unfolding visit_emit_def Let_def by (intro serves_then) (auto split: option.split)

lemma serves_visit [simp]: "serves c \<Longrightarrow> serves (snd (visit_ready_stream S i c))"
  by (cases rule: visit_cases [of i c S]) simp_all

lemma serves_visit_lap: "serves c \<Longrightarrow> serves (snd (visit_lap S lap stalled served wrote c))"
proof (induction lap arbitrary: stalled served wrote c)
  case (Cons i lap)
  show ?case
    unfolding visit_lap.simps by (rule serves_then) (use Cons in \<open>simp_all split: visit.split\<close>)
qed simp

lemma serves_rebuild_ring [simp]: "serves c \<Longrightarrow> serves (rebuild_ring ring c)"
proof -
  have "serves d \<Longrightarrow> serves (fold mark_queued js d)" for js d
    by (induction js arbitrary: d) simp_all
  then show "serves c \<Longrightarrow> serves (rebuild_ring ring c)" by (simp add: rebuild_ring_def Let_def)
qed

lemma serves_pump_lap [simp]: "serves c \<Longrightarrow> serves (snd (pump_lap S c))"
  unfolding pump_lap_def by (rule serves_then) (auto simp: serves_visit_lap Let_def)

lemma serves_pump_loop: "serves c \<Longrightarrow> serves (snd (pump_loop S c))"
proof (induction "conn_work c" arbitrary: c rule: less_induct)
  case less
  obtain r c1 where l: "pump_lap S c = (r, c1)" by (cases "pump_lap S c")
  have "serves c1" using serves_pump_lap [OF less(2)] l by simp
  moreover have "conn_work c1 < conn_work c" if "r = Inr True" using pump_lap_work [of S c c1] l that by simp
  ultimately show ?case using less by (cases r) (auto simp: pump_loop.simps [of S c] l)
qed

lemma serves_pump_outbound [simp]: "serves c \<Longrightarrow> serves (snd (pump_outbound S c))"
  unfolding pump_outbound_def flush_pending_resets_def by (rule serves_then) (simp_all add: serves_pump_loop)

lemma serves_deliver_event [simp]: "serves c \<Longrightarrow> serves (snd (deliver_event S ev c))"
  by (cases ev) (auto simp: abandon_def split: option.split)

lemma serves_take_event [simp]:
  assumes "serves c"
  shows "serves (snd (take_event S c))"
proof (cases "c_events c")
  case (Cons ev evs)
  let ?c = "c\<lparr>c_events := evs\<rparr>"
  obtain r es v where i: "sv_intercept S ev (c_service ?c) = (r, es, v)"
    by (cases "sv_intercept S ev (c_service ?c)") auto
  have "kept v (c_calls c)"
    using intercept [of "c_service c" "c_calls c" ev] assms i by (simp add: serves_def)
  then have "serves (?c\<lparr>c_service := v, c_events := c_events ?c @ es\<rparr>)" by (simp add: serves_def)
  then show ?thesis using Cons i by (simp add: take_event_def handle_service_event_def Let_def split: option.split)
qed (use assms in \<open>simp add: take_event_def\<close>)

lemma serves_sync_admission [simp]: "serves c \<Longrightarrow> serves (snd (sync_admission want c))"
  by (simp add: sync_admission_def Let_def)

lemma serves_begin_drain [simp]: "serves c \<Longrightarrow> serves (snd (begin_drain now c))"
  by (simp add: begin_drain_def Let_def)

lemma serves_advance_drain [simp]: "serves c \<Longrightarrow> serves (snd (advance_drain now fired c))"
  unfolding advance_drain_def Let_def
  by (auto intro!: serves_then split: option.split)

lemma serves_failed [simp]: "serves (snd (failed r)) = serves (snd r)"
  by (simp add: failed_def)

lemma serves_mid_block [simp]: "serves c \<Longrightarrow> serves (snd (reject_if_mid_header_block kind i c))"
  by (simp add: reject_if_mid_header_block_def split: option.split)

lemma serves_read_frame [simp]: "serves c \<Longrightarrow> serves (snd (read_frame S now c))"
  unfolding read_frame_def
  by (auto intro!: serves_then split: prod.split sum.split option.split decoded.split next_step.split)

lemma serves_conn_step: "serves c \<Longrightarrow> serves (snd (conn_step S x c))"
  by (cases x) (auto intro!: serves_then)

theorem run_kept:
  assumes "conn_run S xs c = (Inr (), c')" "kept (c_service c) (c_calls c)"
  shows "kept (c_service c') (c_calls c')"
proof -
  have "serves (snd (conn_run S xs c))"
    using assms(2) [folded serves_def]
    by (induction xs arbitrary: c) (auto intro!: serves_then simp: serves_conn_step)
  then show ?thesis using assms(1) by (simp add: serves_def)
qed

end

subsection \<open>Holding something for a stream\<close>

text \<open>The streams dispatched of which no end has been told since.\<close>

fun note_call :: "service_call \<Rightarrow> stream_id set \<Rightarrow> stream_id set" where
  "note_call (SvDispatch i head es) X = insert i X"
| "note_call (SvFinish i) X = X - {i}"
| "note_call (SvCancel i code) X = X - {i}"
| "note_call _ X = X"

definition open_calls :: "service_call list \<Rightarrow> stream_id set" where
  "open_calls cs = fold note_call cs {}"

lemma open_calls_simps [simp]:
  "open_calls [] = {}" "open_calls (cs @ [c]) = note_call c (open_calls cs)"
  by (simp_all add: open_calls_def)

lemma note_call_mono: "X \<subseteq> Y \<Longrightarrow> note_call c X \<subseteq> note_call c Y"
  by (cases c) auto

definition open_inv :: "core \<Rightarrow> bool" where
  "open_inv k \<longleftrightarrow> (\<forall>i \<in> open_calls (k_calls k). get_stream i (k_streams k) \<noteq> None
     \<or> i \<in> serr_stream ` set (k_resets k))"

lemma open_inv_step: "core_step h k k' \<Longrightarrow> open_inv k \<Longrightarrow> open_inv k'"
proof (induction rule: core_step.induct)
  case (notified k call)
  then show ?case by (cases call) (auto simp: open_inv_def)
next
  case (opens i k s t)
  then show ?case using get_open_peer [OF opens(1)] by (auto simp: open_inv_def)
next
  case (turns_away i k t)
  then show ?case using get_open_peer [OF turns_away(1)] by (auto simp: open_inv_def)
next
  case (resizes d k t)
  then show ?case using get_delta [OF resizes(1)] by (auto simp: open_inv_def)
qed (auto simp: open_inv_def get_retire)

lemma service_start:
  "c_service (conn_start now local policy limits W budget v) = v"
  "c_calls (conn_start now local policy limits W budget v) = []"
  by (auto simp: conn_start_def conn_new_def with_drain_policy_def with_limits_def with_connection_window_def
      with_admission_def Let_def split: option.split)

locale lease_holder =
  fixes S :: "'v service"
    and holds :: "stream_id \<Rightarrow> 'v \<Rightarrow> bool"
  assumes call: "{i. holds i (snd (sv_call S c v))} \<subseteq> note_call c {i. holds i v}"
    and intercept: "{i. holds i (snd (snd (sv_intercept S ev v)))} \<subseteq> {i. holds i v}"

sublocale lease_holder \<subseteq> open_only: responder S "\<lambda>v cs. {i. holds i v} \<subseteq> open_calls cs"
proof
  fix v cs c assume "{i. holds i v} \<subseteq> open_calls cs"
  then show "{i. holds i (snd (sv_call S c v))} \<subseteq> open_calls (cs @ [c])"
    using order_trans [OF call note_call_mono] by simp
next
  fix v cs ev assume "{i. holds i v} \<subseteq> open_calls cs"
  then show "{i. holds i (snd (snd (sv_intercept S ev v)))} \<subseteq> open_calls cs"
    using intercept by (rule order_trans [rotated])
qed

context lease_holder
begin

text \<open>What a responder still holds after a run is for a stream that is live or about to be reset.\<close>

theorem holds_for_live:
  assumes "conn_run S xs (conn_start now local policy limits W budget v) = (Inr (), c)"
    "\<And>j. \<not> holds j v" "holds i (c_service c)"
  shows "c_get i c \<noteq> None \<or> i \<in> serr_stream ` set (c_pending_reset c)"
proof -
  let ?c = "conn_start now local policy limits W budget v"
  have "{i. holds i (c_service c)} \<subseteq> open_calls (c_calls c)"
    by (rule open_only.run_kept [OF assms(1)]) (simp add: service_start assms(2))
  then have "i \<in> open_calls (c_calls c)" using assms(3) by blast
  moreover have "open_inv (core_of c)"
  proof (rule core_invariant [where h = False, OF assms(1)])
    show "open_inv (core_of ?c)" by (simp add: open_inv_def core_of_start del: core_of_fields)
  qed (use open_inv_step in auto)
  ultimately show ?thesis by (auto simp: open_inv_def c_get_def)
qed

end

end
