(* ===== verification/Proxy_Conn.thy ===== *)
theory Proxy_Conn
  imports Proxy_Props Conn_Responder Conn_Example
begin

section \<open>A client connection with the proxy behind it\<close>

text \<open>
  The proxy obeys the laws of a responder, so what is proved of connections and what is proved of
  proxies holds of the two together: the slots a client connection takes upstream are those of its
  live streams.
\<close>

lemma attempt_adds_one: "px_route j (snd (attempt i a px)) \<noteq> None \<Longrightarrow> j = i \<or> px_route j px \<noteq> None"
  by (cases rule: attempt_cases [of a px i]) (auto simp: Let_def split: if_splits)

lemma retry_adds_none:
  assumes "px_route j (snd (retry i px)) \<noteq> None"
  shows "px_route j px \<noteq> None"
proof (cases rule: retry_cases [of i px])
  case (again r h a)
  then have "px_route j (snd (attempt i a (px_stats count_retry (px_delete i px)))) \<noteq> None" using assms by simp
  from attempt_adds_one [OF this] show ?thesis using again(1) by (auto split: if_splits)
qed (use assms in simp)

lemma proxy_call_routes:
  "{i. px_route i (snd (proxy_call c px)) \<noteq> None} \<subseteq> note_call c {i. px_route i px \<noteq> None}"
proof (cases c)
  case (SvDispatch i head es)
  obtain a where "proxy_call c px = attempt i a px" by (simp add: SvDispatch proxy_dispatch_def Let_def)
  then have "px_route j (snd (proxy_call c px)) \<noteq> None \<Longrightarrow> j = i \<or> px_route j px \<noteq> None" for j
    by (simp add: attempt_adds_one del: not_None_eq)
  then show ?thesis unfolding SvDispatch by auto
qed (auto simp: proxy_body_def proxy_trailers_def proxy_cancel_def proxy_finish_def proxy_released_def Let_def
    case_prod_beta split: option.splits if_splits)

lemma proxy_intercept_routes:
  "{i. px_route i (snd (snd (proxy_intercept ev px))) \<noteq> None} \<subseteq> {i. px_route i px \<noteq> None}"
proof (cases ev)
  case (EvGone i)
  show ?thesis
  proof (cases "px_route i px")
    case (Some r)
    let ?px = "px_health (\<lambda>h. health_failure h (rt_backend r) (px_now px)) px"
    obtain ok es px1 where rt: "retry i ?px = ((ok, es), px1)" by (metis surj_pair)
    have "px_route j px1 \<noteq> None \<Longrightarrow> px_route j px \<noteq> None" for j
      using retry_adds_none [of j i ?px] rt by simp
    then show ?thesis using EvGone Some rt by (cases ok) auto
  qed (use EvGone in simp)
next
  case (EvReset i code)
  show ?thesis
  proof (cases "px_route i px")
    case (Some r)
    obtain ok es px1 where rt: "retry i px = ((ok, es), px1)" by (metis surj_pair)
    have "px_route j px1 \<noteq> None \<Longrightarrow> px_route j px \<noteq> None" for j
      using retry_adds_none [of j i px] rt by simp
    then show ?thesis using EvReset Some rt by (cases ok) auto
  qed (use EvReset in simp)
qed (auto simp: Let_def split: option.splits if_splits)

interpretation proxied: lease_holder proxy_service "\<lambda>i px. px_route i px \<noteq> None"
  by unfold_locales (simp_all only: proxy_service_def service.simps proxy_call_routes proxy_intercept_routes)

interpretation proxy_books: responder proxy_service "\<lambda>px cs. books rest px"
  by unfold_locales (simp_all add: proxy_service_def books_call books_intercept)

text \<open>The slots of a connection are no more than its streams.\<close>

lemma routes_counted:
  assumes "distinct (map fst (px_routes px))"
    "\<And>i. px_route i px \<noteq> None \<Longrightarrow> get_stream i t \<noteq> None \<or> i \<in> serr_stream ` set rs"
  shows "length (px_routes px) \<le> live_count t + length rs"
proof -
  have "length (px_routes px) = card (set (map fst (px_routes px)))"
    using distinct_card [OF assms(1)] by simp
  also have "\<dots> \<le> card (fst ` set (live t) \<union> serr_stream ` set rs)"
  proof (rule card_mono)
    show "set (map fst (px_routes px)) \<subseteq> fst ` set (live t) \<union> serr_stream ` set rs"
    proof
      fix i assume "i \<in> set (map fst (px_routes px))"
      then have "px_route i px \<noteq> None" by (auto simp: px_route_def map_of_eq_None_iff)
      from assms(2) [OF this] show "i \<in> fst ` set (live t) \<union> serr_stream ` set rs"
        by (auto simp: get_stream_def map_of_eq_None_iff)
    qed
  qed simp
  also have "\<dots> \<le> card (fst ` set (live t)) + card (serr_stream ` set rs)" by (rule card_Un_le)
  also have "\<dots> \<le> live_count t + length rs"
    unfolding live_count_def by (intro add_mono order_trans [OF card_image_le card_length]) simp_all
  finally show ?thesis .
qed

text \<open>C8. A client connection with the proxy as its responder: whatever the client sends, whatever comes
  back on the connection's channel and however far the sender gets, every slot the proxy holds on an
  upstream connection is for a stream that is live or whose reset is queued, there are no more of them
  than of those streams, and each upstream connection counts exactly these slots as in use, with
  those that the other client connections hold.\<close>

theorem proxied_slots_are_live:
  assumes "conn_run proxy_service xs (conn_start now local policy limits W budget px) = (Inr (), c)"
    "books (mset others) px" "px_routes px = []"
  shows "(\<forall>i \<in> set (map fst (px_routes (c_service c))).
            c_get i c \<noteq> None \<or> i \<in> serr_stream ` set (c_pending_reset c))
    \<and> length (px_routes (c_service c)) \<le> live_count (c_streams c) + length (c_pending_reset c)
    \<and> distinct (route_leases (c_service c) @ others)
    \<and> (\<forall>k < length (p_records (px_p (c_service c))). r_live (p_records (px_p (c_service c)) ! k)
        = length (leases_on k others) + length (leases_on k (route_leases (c_service c))))"
proof -
  let ?px = "c_service c"
  have live: "c_get i c \<noteq> None \<or> i \<in> serr_stream ` set (c_pending_reset c)" if "px_route i ?px \<noteq> None" for i
    by (rule proxied.holds_for_live [OF assms(1) _ that]) (simp add: px_route_def assms(3))
  have b: "books (mset others) ?px"
    by (rule proxy_books.run_kept [OF assms(1)]) (simp add: service_start assms(2))
  have "length (px_routes ?px) \<le> live_count (c_streams c) + length (c_pending_reset c)"
    by (rule routes_counted [OF books_keys [OF b]]) (use live in \<open>simp add: c_get_def\<close>)
  moreover have "\<forall>i \<in> set (map fst (px_routes ?px)). c_get i c \<noteq> None \<or> i \<in> serr_stream ` set (c_pending_reset c)"
  proof
    fix i assume "i \<in> set (map fst (px_routes ?px))"
    then have "px_route i ?px \<noteq> None" by (auto simp: px_route_def map_of_eq_None_iff)
    then show "c_get i c \<noteq> None \<or> i \<in> serr_stream ` set (c_pending_reset c)" by (rule live)
  qed
  moreover have "size {#l \<in># mset others. l_conn l = k#} = length (leases_on k others)" for k
    unfolding leases_on_def by (simp flip: mset_filter)
  ultimately show ?thesis using books_live [OF b] books_distinct [OF b] by (simp add: route_leases_def)
qed

definition proxied_px :: proxy where
  "proxied_px = proxy_ready 7 (ascii ''10.0.0.9'') False (shared_with_tuning [sample_backend 80] 2 policy_default tuning_default)"

text \<open>Two requests arrive, the first one's answer comes back whole, and the second is still out.\<close>

definition proxied_inputs :: "conn_input list" where
  "proxied_inputs =
     [InRead [0,0,3, 1, 5, 0,0,0,1, 0x82,0x87,0x84, 0,0,3, 1, 5, 0,0,0,3, 0x82,0x87,0x84], InFrame 0, InFrame 0,
      InPush (EvHead 1 (response_status 200) True), InEvent, InPump]"

definition proxied_end :: "proxy conn" where
  "proxied_end = snd (conn_run proxy_service proxied_inputs (conn_start 0 (server_settings tuning_default)
     drain_policy_default limits_default 1048576 (Some 16) proxied_px))"

lemma proxied_evaluated:
  "(case conn_run proxy_service proxied_inputs (conn_start 0 (server_settings tuning_default)
     drain_policy_default limits_default 1048576 (Some 16) proxied_px) of (r, c) \<Rightarrow>
     (r, map (\<lambda>(i, r). (i, rt_lease r)) (px_routes (c_service c)), live_count (c_streams c), c_pending_reset c,
      c_frames c, map r_live (p_records (px_p (c_service c)))))
   = (Inr (), [(3, \<lparr>l_conn = 0, l_id = 1\<rparr>)], 1, [], [Headers 1 [136] True True], [1])"
  by code_simp

theorem proxied_slots_are_live_witness:
  "map fst (px_routes (c_service proxied_end)) = [3] \<and> c_get 3 proxied_end \<noteq> None
   \<and> map r_live (p_records (px_p (c_service proxied_end))) = [1]"
proof -
  have run: "conn_run proxy_service proxied_inputs (conn_start 0 (server_settings tuning_default)
     drain_policy_default limits_default 1048576 (Some 16) proxied_px) = (Inr (), proxied_end)"
    using proxied_evaluated by (simp add: proxied_end_def prod_eq_iff split: prod.splits)
  have b: "books (mset []) proxied_px"
    using world_books_start [of 7 "ascii ''10.0.0.9''" False "[sample_backend 80]" 2 policy_default tuning_default]
    by (simp add: world_books_def proxy_world_start_def proxied_px_def)
  have e: "px_routes proxied_px = []" by code_simp
  have f: "map (\<lambda>(i, r). (i, rt_lease r)) (px_routes (c_service proxied_end)) = [(3, \<lparr>l_conn = 0, l_id = 1\<rparr>)]"
      "map r_live (p_records (px_p (c_service proxied_end))) = [1]" "c_pending_reset proxied_end = []"
    using proxied_evaluated by (simp_all add: run)
  have r: "map fst (px_routes (c_service proxied_end)) = [3]"
    using f(1) by (cases "px_routes (c_service proxied_end)") auto
  have "3 \<in> set (map fst (px_routes (c_service proxied_end)))" by (simp only: r) simp
  then have "c_get 3 proxied_end \<noteq> None"
    using proxied_slots_are_live [OF run b e] f(3) by auto
  then show ?thesis using r f(2) by blast
qed

end
