(* ===== verification/Probe.thy ===== *)
theory Probe
  imports Prelude
begin

section \<open>Active probing of a backend\<close>

text \<open>
  \<^verbatim>\<open>Probe\<close>, \<^verbatim>\<open>Outstanding\<close> and \<^verbatim>\<open>ProbeAction\<close> of \<^verbatim>\<open>core/src/upstream.rs\<close>: a PING when the socket has
  been silent for a while, and the verdict when nothing answers it. Times are nanoseconds; the nonce
  is the eight octets of a counter.
\<close>

record outstanding =
  po_nonce :: octets
  po_sent_at :: instant
  po_deadline :: instant

record probe =
  pb_idle :: duration
  pb_timeout :: duration
  pb_last_heard :: instant
  pb_outstanding :: "outstanding option"
  pb_next_nonce :: u64

datatype probe_action = ProbeNothing | ProbeSend octets | ProbeExpired

definition probe_new :: "duration \<Rightarrow> duration \<Rightarrow> instant \<Rightarrow> probe" where
  "probe_new idle timeout now =
     \<lparr>pb_idle = idle, pb_timeout = timeout, pb_last_heard = now, pb_outstanding = None, pb_next_nonce = 1\<rparr>"

definition probe_disabled :: "instant \<Rightarrow> probe" where
  "probe_disabled now = probe_new 0 0 now"

definition probe_enabled :: "probe \<Rightarrow> bool" where
  "probe_enabled p \<longleftrightarrow> pb_idle p \<noteq> 0"

definition probe_heard :: "instant \<Rightarrow> probe \<Rightarrow> probe" where
  "probe_heard now p = p\<lparr>pb_last_heard := now\<rparr>"


definition be_of_u64 :: "u64 \<Rightarrow> octets" where
  "be_of_u64 w = be_of_u32 (ucast (drop_bit 32 w)) @ be_of_u32 (ucast w)"

definition probe_due :: "instant \<Rightarrow> probe \<Rightarrow> probe_action \<times> probe" where
  "probe_due now p =
     (if \<not> probe_enabled p then (ProbeNothing, p)
      else case pb_outstanding p of
        Some po \<Rightarrow>
          if now \<ge> po_deadline po then
            if pb_last_heard p > po_sent_at po then (ProbeNothing, p\<lparr>pb_outstanding := None\<rparr>)
            else (ProbeExpired, p)
          else (ProbeNothing, p)
      | None \<Rightarrow>
          if now - pb_last_heard p \<ge> pb_idle p then
            let nonce = be_of_u64 (pb_next_nonce p) in
            (ProbeSend nonce,
             p\<lparr>pb_next_nonce := pb_next_nonce p + 1,
               pb_outstanding := Some \<lparr>po_nonce = nonce, po_sent_at = now, po_deadline = now + pb_timeout p\<rparr>\<rparr>)
          else (ProbeNothing, p))"

definition probe_acked :: "octets \<Rightarrow> instant \<Rightarrow> probe \<Rightarrow> bool \<times> probe" where
  "probe_acked data now p0 =
     (let p = probe_heard now p0 in
      case pb_outstanding p of
        Some po \<Rightarrow> if po_nonce po = data then (True, p\<lparr>pb_outstanding := None\<rparr>) else (False, p)
      | None \<Rightarrow> (False, p))"

subsection \<open>A probe over time\<close>

text \<open>What happens to a probe: the backend says something, answers a PING, or the timer fires.\<close>

datatype probe_event = Heard instant | Acked octets instant | Fired instant

fun event_at :: "probe_event \<Rightarrow> instant" where
  "event_at (Heard t) = t" | "event_at (Acked d t) = t" | "event_at (Fired t) = t"

fun probe_step :: "probe_event \<Rightarrow> probe \<Rightarrow> probe_action \<times> probe" where
  "probe_step (Heard t) p = (ProbeNothing, probe_heard t p)"
| "probe_step (Acked d t) p = (ProbeNothing, snd (probe_acked d t p))"
| "probe_step (Fired t) p = probe_due t p"

fun probe_run :: "probe_event list \<Rightarrow> probe \<Rightarrow> (instant \<times> probe_action) list \<times> probe" where
  "probe_run [] p = ([], p)"
| "probe_run (e # es) p =
     (case probe_step e p of (a, p1) \<Rightarrow> case probe_run es p1 of (as, p2) \<Rightarrow> ((event_at e, a) # as, p2))"

text \<open>The last time anything was heard, and whether anything was after a given time.\<close>

fun heard_at :: "probe_event \<Rightarrow> instant option" where
  "heard_at (Heard t) = Some t" | "heard_at (Acked d t) = Some t" | "heard_at (Fired t) = None"

definition heard_times :: "probe_event list \<Rightarrow> instant list" where
  "heard_times es = List.map_filter heard_at es"

lemma probe_run_append:
  "probe_run (es @ fs) p =
     (case probe_run es p of (as, p1) \<Rightarrow> case probe_run fs p1 of (bs, p2) \<Rightarrow> (as @ bs, p2))"
  by (induction es arbitrary: p) (simp_all split: prod.split)

lemma heard_times_append [simp]: "heard_times (es @ fs) = heard_times es @ heard_times fs"
  by (simp add: heard_times_def List.map_filter_def)

lemma heard_times_one [simp]:
  "heard_times [] = []" "heard_times [Heard t] = [t]" "heard_times [Acked d t] = [t]" "heard_times [Fired t] = []"
  by (simp_all add: heard_times_def List.map_filter_def)

text \<open>
  The invariant: the last time heard is the last of those times, and a probe on the wire was sent
  at a firing that found the backend silent for the idle time, its PING being in the log.
\<close>

definition probe_inv :: "duration \<Rightarrow> duration \<Rightarrow> instant list \<Rightarrow> (instant \<times> probe_action) list \<Rightarrow> probe \<Rightarrow> bool" where
  "probe_inv idle timeout ts as p \<longleftrightarrow>
     pb_idle p = idle \<and> pb_timeout p = timeout \<and> ts \<noteq> [] \<and> sorted ts \<and> pb_last_heard p = last ts
     \<and> (\<forall>po. pb_outstanding p = Some po \<longrightarrow>
          po_deadline po = po_sent_at po + timeout \<and> (po_sent_at po, ProbeSend (po_nonce po)) \<in> set as
          \<and> (\<forall>t \<in> set ts. t + idle \<le> po_sent_at po \<or> po_sent_at po \<le> t))"

lemma last_sorted_max: "sorted ts \<Longrightarrow> t \<in> set ts \<Longrightarrow> t \<le> last ts"
  by (induction ts) (auto split: if_splits)

lemma probe_inv_more:
  "probe_inv idle timeout ts as p \<Longrightarrow> probe_inv idle timeout ts (as @ bs) p"
  by (auto simp: probe_inv_def)

text \<open>Something is heard, no earlier than anything before it.\<close>

lemma probe_inv_heard:
  assumes "probe_inv idle timeout ts as p" "last ts \<le> t" "\<And>po. pb_outstanding p = Some po \<Longrightarrow> po_sent_at po \<le> t"
  shows "probe_inv idle timeout (ts @ [t]) as (probe_heard t p)"
  using assms last_sorted_max [of ts]
  by (force simp: probe_inv_def probe_heard_def sorted_append intro: order_trans)

lemma probe_inv_due:
  assumes "probe_inv idle timeout ts as p" "probe_due t p = (a, p')" "last ts \<le> t"
  shows "probe_inv idle timeout ts (as @ [(t, a)]) p'"
proof -
  have "x + pb_idle p \<le> t" if "x \<in> set ts" "pb_idle p \<le> t - pb_last_heard p" for x
    using that assms(1,3) last_sorted_max [of ts x] by (auto simp: probe_inv_def)
  then show ?thesis
    using assms(1,2) by (auto simp: probe_inv_def probe_due_def Let_def split: if_splits option.splits)
qed

definition sent_before :: "instant \<Rightarrow> probe \<Rightarrow> bool" where
  "sent_before t p \<longleftrightarrow> (\<forall>po. pb_outstanding p = Some po \<longrightarrow> po_sent_at po \<le> t)"

lemma sent_before_step: "sent_before t p \<Longrightarrow> t \<le> event_at e \<Longrightarrow> sent_before (event_at e) (snd (probe_step e p))"
  by (cases e)
    (auto simp: sent_before_def probe_heard_def probe_acked_def probe_due_def Let_def split: option.split)

lemma probe_inv_step:
  assumes "probe_inv idle timeout ts as p" "probe_step e p = (a, p')" "last ts \<le> event_at e" "sent_before (event_at e) p"
  shows "probe_inv idle timeout (ts @ heard_times [e]) (as @ [(event_at e, a)]) p'"
proof (cases e)
  case (Heard t)
  then show ?thesis using assms probe_inv_heard [OF assms(1), of t] probe_inv_more by (auto simp: sent_before_def)
next
  case (Acked d t)
  have "probe_inv idle timeout (ts @ [t]) as (probe_heard t p)"
    using probe_inv_heard [OF assms(1), of t] assms(3,4) Acked by (auto simp: sent_before_def)
  then have "probe_inv idle timeout (ts @ [t]) as (snd (probe_acked d t p))"
    by (auto simp: probe_acked_def Let_def probe_inv_def split: option.split)
  then show ?thesis using assms(2) Acked probe_inv_more by auto
next
  case (Fired t)
  then show ?thesis using probe_inv_due [OF assms(1)] assms(2,3) by simp
qed

lemma probe_inv_run:
  assumes "probe_inv idle timeout ts as p" "probe_run es p = (bs, p')" "sorted (now # map event_at es)"
    "last ts \<le> now" "sent_before now p"
  shows "probe_inv idle timeout (ts @ heard_times es) (as @ bs) p' \<and> sent_before (last (now # map event_at es)) p'
    \<and> last (ts @ heard_times es) \<le> last (now # map event_at es)"
  using assms
proof (induction es arbitrary: ts as p now bs)
  case (Cons e es)
  obtain a p1 where s: "probe_step e p = (a, p1)" by (cases "probe_step e p")
  obtain cs where r: "probe_run es p1 = (cs, p')" "bs = (event_at e, a) # cs"
    using Cons.prems(2) s by (auto split: prod.splits)
  have t: "last ts \<le> event_at e" "now \<le> event_at e" using Cons.prems(3,4) by auto
  have sb: "sent_before (event_at e) p" using Cons.prems(5) t(2) by (auto simp: sent_before_def)
  have i: "probe_inv idle timeout (ts @ heard_times [e]) (as @ [(event_at e, a)]) p1"
    by (rule probe_inv_step [OF Cons.prems(1) s t(1) sb])
  have l: "last (ts @ heard_times [e]) \<le> event_at e" using t(1) by (cases e) auto
  have h: "heard_times (e # es) = heard_times [e] @ heard_times es" using heard_times_append [of "[e]" es] by simp
  have "sent_before (event_at e) p1" using sent_before_step [OF Cons.prems(5) t(2)] s by simp
  from Cons.IH [OF i r(1) _ l this] Cons.prems(3) show ?case by (simp add: r(2) h)
qed (simp add: heard_times_def List.map_filter_def)

lemma probe_started:
  assumes "probe_run es (probe_new idle timeout t0) = (as, p)" "sorted (t0 # map event_at es)"
  shows "probe_inv idle timeout (t0 # heard_times es) as p" "sent_before (last (t0 # map event_at es)) p"
    "pb_last_heard p \<le> last (t0 # map event_at es)"
proof -
  have i: "probe_inv idle timeout [t0] [] (probe_new idle timeout t0)" "sent_before t0 (probe_new idle timeout t0)"
    by (simp_all add: probe_inv_def probe_new_def sent_before_def)
  from probe_inv_run [OF i(1) assms _ i(2)]
  show "probe_inv idle timeout (t0 # heard_times es) as p" "sent_before (last (t0 # map event_at es)) p"
    "pb_last_heard p \<le> last (t0 # map event_at es)"
    by (auto simp: probe_inv_def)
qed

text \<open>C25. A backend that talks is never given up on. When the probe gives its verdict, the PING it
  stands on was sent at least the timeout ago, after at least the idle time in which the backend had
  said nothing at all, and since that instant it has said nothing either.\<close>

theorem probe_spares_the_living:
  assumes "probe_run es (probe_new idle timeout t0) = (as, p)" "sorted (t0 # map event_at es)"
    "fst (probe_due now p) = ProbeExpired"
  shows "\<exists>s nonce. (s, ProbeSend nonce) \<in> set as \<and> s + timeout \<le> now
    \<and> (\<forall>t \<in> set (t0 # heard_times es). t + idle \<le> s \<or> t = s)"
proof -
  note i = probe_started [OF assms(1,2)]
  obtain po where po: "pb_outstanding p = Some po" "po_deadline po \<le> now" "pb_last_heard p \<le> po_sent_at po"
    using assms(3) by (auto simp: probe_due_def Let_def split: if_splits option.splits)
  have late: "t \<le> po_sent_at po" if "t \<in> set (t0 # heard_times es)" for t
  proof -
    have "t \<le> pb_last_heard p" using i(1) last_sorted_max [OF _ that] unfolding probe_inv_def by metis
    then show ?thesis using po(3) by simp
  qed
  have s: "(po_sent_at po, ProbeSend (po_nonce po)) \<in> set as" "po_sent_at po + timeout \<le> now"
    "\<forall>t \<in> set (t0 # heard_times es). t + idle \<le> po_sent_at po \<or> po_sent_at po \<le> t"
    using i(1) po(1,2) unfolding probe_inv_def by metis+
  then have "\<forall>t \<in> set (t0 # heard_times es). t + idle \<le> po_sent_at po \<or> t = po_sent_at po"
    using late le_antisym by blast
  then show ?thesis using s(1,2) by blast
qed

theorem probe_spares_the_living_witness:
  "fst (probe_due 30 (snd (probe_run [Heard 5, Fired 15] (probe_new 10 15 0)))) = ProbeExpired
   \<and> (\<exists>s nonce. (s, ProbeSend nonce) \<in> set [(5, ProbeNothing), (15, ProbeSend [0, 0, 0, 0, 0, 0, 0, 1])] \<and> s + 15 \<le> (30 :: instant))"
proof -
  have r: "probe_run [Heard 5, Fired 15] (probe_new 10 15 0)
      = ([(5, ProbeNothing), (15, ProbeSend [0, 0, 0, 0, 0, 0, 0, 1])], snd (probe_run [Heard 5, Fired 15] (probe_new 10 15 0)))"
    by code_simp
  have e: "fst (probe_due 30 (snd (probe_run [Heard 5, Fired 15] (probe_new 10 15 0)))) = ProbeExpired" by code_simp
  from probe_spares_the_living [OF r _ e] e show ?thesis by (simp only: simp_thms) auto
qed






end
