(* ===== verification/Upstream_State.thy ===== *)
theory Upstream_State
  imports Conn_Pump Pool Probe
begin

section \<open>The state of a connection to a backend\<close>

text \<open>
  \<^verbatim>\<open>UpstreamConnection\<close> of \<^verbatim>\<open>core/src/upstream.rs\<close>, with what it carries. The pool's record of the
  connection and the proxy's counters are shared with other tasks (\<^verbatim>\<open>Arc\<close>); here they are the fields
  \<open>u_record\<close> and \<open>u_stats\<close>, as this task reads and writes them. A client's event channel is named by the
  client, and \<open>u_told\<close> is what has been sent on all of them, in order. A \<^verbatim>\<open>HashMap\<close> is an association
  list, and the set of cancelled requests a list. The order in which the map of routes is walked is
  not the code's to choose: \<open>u_hash\<close> ranks the streams for it, and an input of the run (\<open>UpHash\<close>) may
  change the ranking at any time, to any other.

  The last five fields are history, written and never read: \<open>u_frames\<close>, the frames encoded into \<^verbatim>\<open>out\<close>,
  \<open>u_received\<close>, the frames handled without an error, \<open>u_taken\<close>, the messages taken off the inbox, and
  \<open>u_mute\<close>, the clients whose response ended in a trailer section that was not passed on.
\<close>

definition inbox_batch :: nat where "inbox_batch = 1024"
definition peer_drain_deadline :: duration where "peer_drain_deadline = from_secs 10"

text \<open>An event is sent on a client's channel, about one of its requests; that request is history.\<close>

type_synonym requester = "client \<times> request_id"

text \<open>\<open>pn_events\<close> and \<open>ur_events\<close>: the client whose channel it is.\<close>

record pending_request =
  pn_request :: request_id
  pn_client_id :: stream_id
  pn_head :: request_head
  pn_end_stream :: bool
  pn_events :: client
  pn_body :: "(octets \<times> bool) list"
  pn_trailers :: "header list option"

record up_route =
  ur_client_id :: stream_id
  ur_events :: client
  ur_request :: request_id
  ur_head_sent :: bool
  ur_pending :: nat

record upstream_summary =
  us_handshake_completed :: bool
  us_requests_sent :: nat
  us_responses_received :: nat
  us_streams_reset :: nat
  us_data_bytes_received :: nat
  us_probes_sent :: nat
  us_probe_timed_out :: bool

definition upstream_summary_default :: upstream_summary where
  "upstream_summary_default =
     \<lparr>us_handshake_completed = False, us_requests_sent = 0, us_responses_received = 0, us_streams_reset = 0,
      us_data_bytes_received = 0, us_probes_sent = 0, us_probe_timed_out = False\<rparr>"

record upstream =
  u_out :: octets
  u_read_buf :: octets
  u_codec :: frame_codec
  u_local_settings :: settings
  u_peer_settings :: settings
  u_open_header_block :: "stream_id option"
  u_open_header_end_stream :: bool
  u_header_block :: octets
  u_hpack_dec :: hpack_decoder
  u_hpack_enc :: hpack_encoder
  u_streams :: stream_table
  u_send_window :: window
  u_recv_window :: recv_window
  u_conn_window :: int
  u_ready :: "stream_id list"
  u_routes :: "(stream_id \<times> up_route) list"
  u_hash :: "stream_id \<Rightarrow> nat"
  u_requests :: "(request_id \<times> stream_id) list"
  u_cancelled :: "request_id list"
  u_pending :: "pending_request list"
  u_max_pending :: nat
  u_next_stream_id :: u32
  u_peer_draining :: "(stream_id \<times> instant) option"
  u_probe :: probe
  u_inbox :: "to_upstream list"
  u_stats :: proxy_stats
  u_record :: "upstream_record option"
  u_summary :: upstream_summary
  u_frames :: "frame list"
  u_received :: "frame list"
  u_told :: "(requester \<times> service_event) list"
  u_taken :: "to_upstream list"
  u_mute :: "(requester \<times> stream_id) list"

type_synonym 'a up_handler = "upstream \<Rightarrow> (upstream, connection_error, 'a) outcome"

definition upstream_new :: "instant \<Rightarrow> proxy_stats \<Rightarrow> upstream_record option \<Rightarrow> tuning \<Rightarrow> upstream" where
  "upstream_new now stats rcd t =
     (let local = client_settings t; defaults = settings_default in
      \<lparr>u_out = [], u_read_buf = [], u_codec = codec_new (max_frame_size local), u_local_settings = local,
       u_peer_settings = defaults, u_open_header_block = None, u_open_header_end_stream = False,
       u_header_block = [],
       u_hpack_dec = hpack_decoder_new (unat (header_table_size local)) (map_option unat (max_header_list local)),
       u_hpack_enc = hpack_encoder_new (unat (header_table_size defaults)),
       u_streams = stream_table_new u32_max (as_int (initial_window_size defaults)) (as_int (initial_window_size local)),
       u_send_window = Window (as_int (initial_window_size defaults)),
       u_recv_window = recv_window_new (tu_connection_window t), u_conn_window = tu_connection_window t,
       u_ready = [], u_routes = [], u_hash = (\<lambda>i. 0), u_requests = [], u_cancelled = [], u_pending = [],
       u_max_pending = tu_max_pending t, u_next_stream_id = 1, u_peer_draining = None,
       u_probe = probe_disabled now, u_inbox = [], u_stats = stats, u_record = rcd,
       u_summary = upstream_summary_default, u_frames = [], u_received = [], u_told = [], u_taken = [], u_mute = []\<rparr>)"

definition with_probe :: "duration \<Rightarrow> duration \<Rightarrow> instant \<Rightarrow> upstream \<Rightarrow> upstream" where
  "with_probe idle timeout now u = u\<lparr>u_probe := probe_new idle timeout now\<rparr>"

subsection \<open>What every handler uses\<close>

definition up_put :: "stream_id \<Rightarrow> stream \<Rightarrow> upstream \<Rightarrow> upstream" where
  "up_put i s u = u\<lparr>u_streams := put_stream i s (u_streams u)\<rparr>"

definition up_get :: "stream_id \<Rightarrow> upstream \<Rightarrow> stream option" where
  "up_get i u = get_stream i (u_streams u)"

definition up_route_of :: "stream_id \<Rightarrow> upstream \<Rightarrow> up_route option" where
  "up_route_of i u = map_of (u_routes u) i"

definition up_put_route :: "stream_id \<Rightarrow> up_route \<Rightarrow> upstream \<Rightarrow> upstream" where
  "up_put_route i r u = u\<lparr>u_routes := AList.update i r (u_routes u)\<rparr>"

definition tell :: "requester \<Rightarrow> service_event \<Rightarrow> upstream \<Rightarrow> upstream" where
  "tell cl ev u = u\<lparr>u_told := u_told u @ [(cl, ev)]\<rparr>"

definition on_stats :: "(proxy_stats \<Rightarrow> proxy_stats) \<Rightarrow> upstream \<Rightarrow> upstream" where
  "on_stats f u = u\<lparr>u_stats := f (u_stats u)\<rparr>"

definition on_record :: "(upstream_record \<Rightarrow> upstream_record) \<Rightarrow> upstream \<Rightarrow> upstream" where
  "on_record f u = u\<lparr>u_record := map_option f (u_record u)\<rparr>"

definition on_summary :: "(upstream_summary \<Rightarrow> upstream_summary) \<Rightarrow> upstream \<Rightarrow> upstream" where
  "on_summary f u = u\<lparr>u_summary := f (u_summary u)\<rparr>"

definition up_queue_frame :: "frame \<Rightarrow> unit up_handler" where
  "up_queue_frame f u =
     (case encode (u_codec u) f [] of
        (Inl e, bs) \<Rightarrow> (Inl (ConnectionError InternalError), u)
      | (Inr _, bs) \<Rightarrow> (Inr (), u\<lparr>u_out := u_out u @ bs, u_frames := u_frames u @ [f]\<rparr>))"

definition up_encode_block :: "header list \<Rightarrow> upstream \<Rightarrow> octets \<times> upstream" where
  "up_encode_block headers u =
     (case hpack_encode headers (u_hpack_enc u) of (block, e) \<Rightarrow> (block, u\<lparr>u_hpack_enc := e\<rparr>))"

definition up_enqueue_ready :: "stream_id \<Rightarrow> upstream \<Rightarrow> upstream" where
  "up_enqueue_ready i u =
     (case up_get i u of
        None \<Rightarrow> u
      | Some s \<Rightarrow>
          if st_queued s \<or> \<not> has_pending_send s then u
          else (up_put i (s\<lparr>st_queued := True\<rparr>) u)\<lparr>u_ready := u_ready u @ [i]\<rparr>)"

definition sync_queued :: "upstream \<Rightarrow> upstream" where
  "sync_queued u = on_record (set_queued (length (u_pending u))) u"

definition up_release_conn :: "nat \<Rightarrow> unit up_handler" where
  "up_release_conn n u =
     (case recv_release n (u_recv_window u) of (inc, w) \<Rightarrow>
        let u1 = u\<lparr>u_recv_window := w\<rparr> in
        (case inc of
           None \<Rightarrow> (Inr (), u1)
         | Some k \<Rightarrow> up_queue_frame (WindowUpdate stream_id_connection (word_of_nat k)) u1))"

end
