(* ===== verification/Upstream.thy ===== *)
theory Upstream
  imports Upstream_State
begin

section \<open>The handlers of a connection to a backend\<close>

text \<open>
  One definition per method of \<^verbatim>\<open>UpstreamConnection\<close>, bottom up. Closing a stream frees a slot, which
  starts a queued request, which may close its stream: \<^verbatim>\<open>forget\<close>, \<^verbatim>\<open>drain_pending\<close>, \<^verbatim>\<open>send_request\<close>,
  \<^verbatim>\<open>apply_stream_event\<close> and \<^verbatim>\<open>fail_stream\<close> call each other. They are given over the drain to use, and
  the drain over a bound on its depth, the length of the queue it empties.
\<close>

subsection \<open>Closing streams\<close>

definition up_write_rst_stream :: "stream_id \<Rightarrow> error_code \<Rightarrow> unit up_handler" where
  "up_write_rst_stream i code u =
     up_queue_frame (RstStream i code)
       (u\<lparr>u_streams := snd (take_reclaimed (retire i (u_streams u))),
          u_ready := filter (\<lambda>j. j \<noteq> i) (u_ready u)\<rparr>)"

definition forget_with :: "unit up_handler \<Rightarrow> stream_id \<Rightarrow> upstream \<Rightarrow> upstream" where
  "forget_with D i u =
     (let u1 = u\<lparr>u_streams := snd (take_reclaimed (retire i (u_streams u))),
                 u_ready := filter (\<lambda>j. j \<noteq> i) (u_ready u)\<rparr>;
          u2 = (case up_route_of i u1 of
                  None \<Rightarrow> u1
                | Some r \<Rightarrow>
                    let u' = on_stats close_stream
                               (u1\<lparr>u_routes := AList.delete i (u_routes u1),
                                   u_requests := AList.delete (ur_request r) (u_requests u1)\<rparr>)
                    in if ur_pending r > 0
                       then snd (up_release_conn (ur_pending r) (on_stats (unbuffer (ur_pending r)) u'))
                       else u')
      in snd (D u2))"

definition failure_event :: "nat \<Rightarrow> up_route \<Rightarrow> service_event" where
  "failure_event status r =
     (if ur_head_sent r then EvReset (ur_client_id r) InternalError
      else EvHead (ur_client_id r) (response_status status) True)"

definition fail_stream_with :: "unit up_handler \<Rightarrow> stream_id \<Rightarrow> nat \<Rightarrow> unit up_handler" where
  "fail_stream_with D i status u =
     (let u1 = (case up_route_of i u of None \<Rightarrow> u | Some r \<Rightarrow> tell (ur_events r, ur_request r) (failure_event status r) u) in
      and_then (if up_get i u1 \<noteq> None then up_write_rst_stream i Cancel u1 else (Inr (), u1))
        (\<lambda>_ u2. (Inr (), forget_with D i u2)))"

definition up_apply_with :: "unit up_handler \<Rightarrow> stream_id \<Rightarrow> stream_event \<Rightarrow> unit up_handler" where
  "up_apply_with D i e u =
     (case apply_event i e (u_streams u) of
        (Inr st, t) \<Rightarrow>
          let u1 = u\<lparr>u_streams := t\<rparr> in
          (Inr (), if is_closed st then u1\<lparr>u_ready := filter (\<lambda>j. j \<noteq> i) (u_ready u1)\<rparr> else u1)
      | (Inl err, t) \<Rightarrow>
          let u1 = u\<lparr>u_streams := t\<rparr> in
          if serr_code err = ProtocolError then (Inl (ConnectionError ProtocolError), u1)
          else fail_stream_with D i 502 u1)"

subsection \<open>Opening a stream\<close>

definition sat_add_word :: "u32 \<Rightarrow> nat \<Rightarrow> u32" where
  "sat_add_word w n = word_of_nat (sat_add_u32 (unat w) n)"

definition route_new :: "pending_request \<Rightarrow> up_route" where
  "route_new p =
     \<lparr>ur_client_id = pn_client_id p, ur_events = pn_events p, ur_request = pn_request p,
      ur_head_sent = False, ur_pending = 0\<rparr>"

definition count_sent_request :: "upstream_summary \<Rightarrow> upstream_summary" where
  "count_sent_request s = s\<lparr>us_requests_sent := us_requests_sent s + 1\<rparr>"

definition start_request_with :: "unit up_handler \<Rightarrow> stream_id \<Rightarrow> pending_request \<Rightarrow> unit up_handler" where
  "start_request_with D i p u =
     (case up_encode_block (request_to_headers (pn_head p)) u of (block, u1) \<Rightarrow>
        and_then (up_queue_frame (Headers i block (pn_end_stream p) True) u1) (\<lambda>_ u2.
        and_then (up_apply_with D i (SendHeaders (pn_end_stream p)) u2) (\<lambda>_ u3.
        (Inr (), on_summary count_sent_request u3))))"

definition send_request_with :: "unit up_handler \<Rightarrow> pending_request \<Rightarrow> unit up_handler" where
  "send_request_with D p u =
     (if pn_request p \<in> set (u_cancelled u)
        then (Inr (), u\<lparr>u_cancelled := removeAll (pn_request p) (u_cancelled u)\<rparr>)
      else if u_peer_draining u \<noteq> None
        then (Inr (), tell (pn_events p, pn_request p) (EvReset (pn_client_id p) RefusedStream) u)
      else if \<not> can_open_local (u_streams u) then
        if length (u_pending u) \<ge> u_max_pending u
        then (Inr (), tell (pn_events p, pn_request p) (EvShed (pn_client_id p)) (on_stats count_shed u))
        else (Inr (), sync_queued (u\<lparr>u_pending := u_pending u @ [p]\<rparr>))
      else
        let i = stream_id_new (u_next_stream_id u);
            u1 = u\<lparr>u_next_stream_id := sat_add_word (u_next_stream_id u) 2\<rparr>
        in (case open_local i (u_streams u1) of
              (Inl rejection, t) \<Rightarrow>
                (Inr (), tell (pn_events p, pn_request p) (EvReset (pn_client_id p) RefusedStream) (u1\<lparr>u_streams := t\<rparr>))
            | (Inr s, t) \<Rightarrow>
                start_request_with D i p
                  (on_stats open_stream
                    (u1\<lparr>u_streams := t, u_routes := AList.update i (route_new p) (u_routes u1),
                        u_requests := AList.update (pn_request p) i (u_requests u1)\<rparr>))))"

text \<open>What came for a request while it waited follows its head.\<close>

definition take_bodies :: "(octets \<times> bool) list \<Rightarrow> stream \<Rightarrow> stream" where
  "take_bodies body s =
     s\<lparr>st_send_queue := st_send_queue s @ filter (\<lambda>d. d \<noteq> []) (map fst body),
       st_send_end_stream := (st_send_end_stream s \<or> list_ex snd body)\<rparr>"

definition take_trailers :: "header list option \<Rightarrow> stream \<Rightarrow> stream" where
  "take_trailers trailers s =
     (case trailers of
        None \<Rightarrow> s
      | Some flds \<Rightarrow> s\<lparr>st_pending_trailers := Some flds, st_send_end_stream := True\<rparr>)"

definition follow_head :: "pending_request \<Rightarrow> upstream \<Rightarrow> upstream" where
  "follow_head p u =
     (case map_of (u_requests u) (pn_request p) of
        None \<Rightarrow> u
      | Some i \<Rightarrow>
          up_enqueue_ready i
            (case up_get i u of
               None \<Rightarrow> u
             | Some s \<Rightarrow> up_put i (take_trailers (pn_trailers p) (take_bodies (pn_body p) s)) u))"

fun drain_loop :: "nat \<Rightarrow> unit up_handler" where
  "drain_loop 0 u = (Inr (), u)"
| "drain_loop (Suc n) u =
     (if \<not> can_open_local (u_streams u) then (Inr (), u)
      else
        (case u_pending u of
           [] \<Rightarrow> (Inr (), sync_queued u)
         | p # ps \<Rightarrow>
             and_then (send_request_with (drain_loop n) (p\<lparr>pn_body := [], pn_trailers := None\<rparr>)
                 (sync_queued (u\<lparr>u_pending := ps\<rparr>)))
               (\<lambda>_ u1. drain_loop n (follow_head p u1))))"

definition drain_pending :: "unit up_handler" where
  "drain_pending u = drain_loop (Suc (length (u_pending u))) u"

definition forget :: "stream_id \<Rightarrow> upstream \<Rightarrow> upstream" where
  "forget = forget_with drain_pending"

definition fail_stream :: "stream_id \<Rightarrow> nat \<Rightarrow> unit up_handler" where
  "fail_stream = fail_stream_with drain_pending"

definition up_apply_stream_event :: "stream_id \<Rightarrow> stream_event \<Rightarrow> unit up_handler" where
  "up_apply_stream_event = up_apply_with drain_pending"

definition send_request :: "pending_request \<Rightarrow> unit up_handler" where
  "send_request = send_request_with drain_pending"

subsection \<open>What clients ask for\<close>

text \<open>\<^verbatim>\<open>pending.iter_mut().find(..)\<close>: the first with this request id.\<close>

fun update_pending :: "request_id \<Rightarrow> (pending_request \<Rightarrow> pending_request) \<Rightarrow> pending_request list \<Rightarrow> pending_request list" where
  "update_pending r f [] = []"
| "update_pending r f (p # ps) = (if pn_request p = r then f p # ps else p # update_pending r f ps)"

definition up_release :: "stream_id \<Rightarrow> nat \<Rightarrow> unit up_handler" where
  "up_release i n u =
     (if n = 0 then (Inr (), u)
      else
        let u1 = (case up_route_of i u of
                    None \<Rightarrow> u
                  | Some r \<Rightarrow> up_put_route i (r\<lparr>ur_pending := ur_pending r - n\<rparr>) u);
            u2 = on_stats (unbuffer n) u1
        in and_then
             (case up_get i u2 of
                None \<Rightarrow> (Inr (), u2)
              | Some s \<Rightarrow>
                  (case recv_release n (st_recv_window s) of (inc, w) \<Rightarrow>
                     let u3 = up_put i (s\<lparr>st_recv_window := w\<rparr>) u2 in
                     (case inc of
                        None \<Rightarrow> (Inr (), u3)
                      | Some k \<Rightarrow> up_queue_frame (WindowUpdate i (word_of_nat k)) u3)))
             (\<lambda>_. up_release_conn n))"

definition request_of :: "request_id \<Rightarrow> stream_id \<Rightarrow> request_head \<Rightarrow> bool \<Rightarrow> client \<Rightarrow> pending_request" where
  "request_of r i head es cl =
     \<lparr>pn_request = r, pn_client_id = i, pn_head = head, pn_end_stream = es, pn_events = cl,
      pn_body = [], pn_trailers = None\<rparr>"

definition count_up_reset :: "upstream_summary \<Rightarrow> upstream_summary" where
  "count_up_reset s = s\<lparr>us_streams_reset := us_streams_reset s + 1\<rparr>"

fun message_action :: "to_upstream \<Rightarrow> unit up_handler" where
  "message_action (TuRequest r i head es cl) u = send_request (request_of r i head es cl) u"
| "message_action (TuBody r data es) u =
     (case map_of (u_requests u) r of
        None \<Rightarrow>
          (Inr (), u\<lparr>u_pending := update_pending r (\<lambda>p. p\<lparr>pn_body := pn_body p @ [(data, es)]\<rparr>) (u_pending u)\<rparr>)
      | Some i \<Rightarrow>
          (case up_get i u of
             None \<Rightarrow> (Inr (), u)
           | Some s \<Rightarrow>
               (Inr (), up_enqueue_ready i
                 (up_put i (s\<lparr>st_send_queue := (if data = [] then st_send_queue s else st_send_queue s @ [data]),
                              st_send_end_stream := (if es then True else st_send_end_stream s)\<rparr>) u))))"
| "message_action (TuTrailers r flds) u =
     (case map_of (u_requests u) r of
        None \<Rightarrow>
          (Inr (), u\<lparr>u_pending := update_pending r (\<lambda>p. p\<lparr>pn_trailers := Some flds\<rparr>) (u_pending u)\<rparr>)
      | Some i \<Rightarrow>
          (case up_get i u of
             None \<Rightarrow> (Inr (), u)
           | Some s \<Rightarrow>
               (Inr (), up_enqueue_ready i
                 (up_put i (s\<lparr>st_pending_trailers := Some flds, st_send_end_stream := True\<rparr>) u))))"
| "message_action (TuReleased r n) u =
     (case map_of (u_requests u) r of None \<Rightarrow> (Inr (), u) | Some i \<Rightarrow> up_release i n u)"
| "message_action (TuCancel r code) u =
     (case map_of (u_requests u) r of
        None \<Rightarrow>
          (let u1 = sync_queued (u\<lparr>u_pending := filter (\<lambda>p. pn_request p \<noteq> r) (u_pending u)\<rparr>)
           in (Inr (), u1\<lparr>u_cancelled := List.insert r (u_cancelled u1)\<rparr>))
      | Some i \<Rightarrow>
          and_then
            (if up_get i u \<noteq> None then up_write_rst_stream i code (on_summary count_up_reset u) else (Inr (), u))
            (\<lambda>_ u1. (Inr (), forget i u1)))"

definition handle_message :: "to_upstream \<Rightarrow> unit up_handler" where
  "handle_message msg u = message_action msg (u\<lparr>u_taken := u_taken u @ [msg]\<rparr>)"

subsection \<open>GOAWAY, and the end\<close>

definition refuse_pending :: "pending_request \<Rightarrow> upstream \<Rightarrow> upstream" where
  "refuse_pending p = tell (pn_events p, pn_request p) (EvReset (pn_client_id p) RefusedStream)"

definition abandon_route :: "stream_id \<Rightarrow> upstream \<Rightarrow> upstream" where
  "abandon_route i u =
     forget i (case up_route_of i u of
                 None \<Rightarrow> u
               | Some r \<Rightarrow> tell (ur_events r, ur_request r) (EvReset (ur_client_id r) RefusedStream) u)"

definition begin_peer_drain :: "stream_id \<Rightarrow> instant \<Rightarrow> upstream \<Rightarrow> upstream" where
  "begin_peer_drain last_id now u =
     (let u1 = (on_record retire_record u)\<lparr>u_peer_draining := Some (last_id, now + peer_drain_deadline)\<rparr>;
          u2 = fold refuse_pending (u_pending u1) (u1\<lparr>u_pending := []\<rparr>);
          keys = sort_key (u_hash u2) (map fst (u_routes u2))
      in fold abandon_route (filter (\<lambda>i. i > last_id) keys) u2)"

definition peer_drain_complete :: "instant \<Rightarrow> upstream \<Rightarrow> bool" where
  "peer_drain_complete now u =
     (case u_peer_draining u of
        None \<Rightarrow> False
      | Some (last_id, deadline) \<Rightarrow> u_routes u = [] \<or> now \<ge> deadline)"

definition fail_pending_request :: "pending_request \<Rightarrow> upstream \<Rightarrow> upstream" where
  "fail_pending_request p = tell (pn_events p, pn_request p) (EvGone (pn_client_id p))"

definition fail_route :: "up_route \<Rightarrow> upstream \<Rightarrow> upstream" where
  "fail_route r u =
     (let u1 = on_stats close_stream u;
          u2 = (if ur_pending r > 0 then on_stats (unbuffer (ur_pending r)) u1 else u1)
      in tell (ur_events r, ur_request r)
           (if ur_head_sent r then EvReset (ur_client_id r) InternalError else EvGone (ur_client_id r)) u2)"

definition fail_all_routes :: "upstream \<Rightarrow> upstream" where
  "fail_all_routes u =
     (let u1 = u\<lparr>u_requests := []\<rparr>;
          u2 = fold fail_pending_request (u_pending u1) (u1\<lparr>u_pending := []\<rparr>);
          routes = sort_key (u_hash u2 \<circ> fst) (u_routes u2)
      in fold (\<lambda>(i, r). fail_route r) routes (u2\<lparr>u_routes := []\<rparr>))"

subsection \<open>What the backend says\<close>

definition recv_final_head :: "stream_id \<Rightarrow> up_route \<Rightarrow> response \<Rightarrow> bool \<Rightarrow> unit up_handler" where
  "recv_final_head i r head end_stream u =
     and_then
       (up_apply_stream_event i (RecvHeaders end_stream)
         (on_summary (\<lambda>s. s\<lparr>us_responses_received := us_responses_received s + 1\<rparr>)
           (tell (ur_events r, ur_request r) (EvHead (ur_client_id r) head end_stream)
             (up_put_route i (r\<lparr>ur_head_sent := True\<rparr>) u))))
       (\<lambda>_ u1. (Inr (), if end_stream then forget i u1 else u1))"

definition recv_trailer_section :: "stream_id \<Rightarrow> up_route \<Rightarrow> header list \<Rightarrow> bool \<Rightarrow> unit up_handler" where
  "recv_trailer_section i r headers end_stream u =
     and_then
       (up_apply_stream_event i (RecvHeaders end_stream)
         (if \<not> is_ok (validate_trailers headers)
          then (if end_stream then u\<lparr>u_mute := u_mute u @ [((ur_events r, ur_request r), ur_client_id r)]\<rparr> else u)
          else tell (ur_events r, ur_request r) (EvTrailers (ur_client_id r) headers) u))
       (\<lambda>_ u1. (Inr (), if end_stream then forget i u1 else u1))"

definition recv_response :: "stream_id \<Rightarrow> header list \<Rightarrow> bool \<Rightarrow> unit up_handler" where
  "recv_response i headers end_stream u =
     (if lookup_is_idle (lookup_stream i (u_streams u)) then (Inl (ConnectionError ProtocolError), u)
      else
        (case up_route_of i u of
           None \<Rightarrow> (Inr (), u)
         | Some r \<Rightarrow>
             if ur_head_sent r then recv_trailer_section i r headers end_stream u
             else
               (case response_from_headers headers of
                  Inl code \<Rightarrow> fail_stream i 502 u
                | Inr head \<Rightarrow>
                    if is_informational head then up_apply_stream_event i (RecvHeaders False) u
                    else recv_final_head i r head end_stream u)))"

definition up_decode_block :: "stream_id \<Rightarrow> octets \<Rightarrow> unit up_handler" where
  "up_decode_block i block u =
     (case hpack_decode block (u_hpack_dec u) of
        (Inr headers, d) \<Rightarrow> recv_response i headers (u_open_header_end_stream u) (u\<lparr>u_hpack_dec := d\<rparr>)
      | (Inl (HeaderListTooLarge sz lmt), d) \<Rightarrow> fail_stream i 502 (u\<lparr>u_hpack_dec := d\<rparr>)
      | (Inl Compression, d) \<Rightarrow> (Inl (ConnectionError CompressionError), u\<lparr>u_hpack_dec := d\<rparr>))"

definition up_read_header_block :: "stream_id \<Rightarrow> octets \<Rightarrow> bool \<Rightarrow> unit up_handler" where
  "up_read_header_block i fragment end_headers u =
     (if length (u_header_block u) + length fragment > max_header_block_bytes
        then (Inl (ConnectionError EnhanceYourCalm), u\<lparr>u_header_block := []\<rparr>)
      else if end_headers \<and> u_header_block u = [] then up_decode_block i fragment u
      else
        let u1 = u\<lparr>u_header_block := u_header_block u @ fragment\<rparr> in
        if \<not> end_headers then (Inr (), u1)
        else up_decode_block i (u_header_block u1) (u1\<lparr>u_header_block := []\<rparr>))"

definition count_received :: "nat \<Rightarrow> upstream_summary \<Rightarrow> upstream_summary" where
  "count_received n s = s\<lparr>us_data_bytes_received := us_data_bytes_received s + n\<rparr>"

definition recv_live_body :: "stream_id \<Rightarrow> octets \<Rightarrow> bool \<Rightarrow> unit up_handler" where
  "recv_live_body i data end_stream u =
     (let len = as_u32 (length data);
          u1 = on_summary (count_received len) u;
          u2 = (case up_route_of i u1 of
                  None \<Rightarrow> u1
                | Some r \<Rightarrow>
                    tell (ur_events r, ur_request r) (EvData (ur_client_id r) data end_stream)
                      (on_stats (buffer_octets len)
                        (up_put_route i (r\<lparr>ur_pending := sat_add_u32 (ur_pending r) len\<rparr>) u1)))
      in and_then (up_apply_stream_event i (RecvData end_stream) u2)
           (\<lambda>_ u3. (Inr (), if end_stream then forget i u3 else u3)))"

definition up_recv_data :: "stream_id \<Rightarrow> octets \<Rightarrow> bool \<Rightarrow> unit up_handler" where
  "up_recv_data i data end_stream u =
     (let len = as_u32 (length data) in
      case recv_record len (u_recv_window u) of (r, w) \<Rightarrow>
      and_then (map_code r, u\<lparr>u_recv_window := w\<rparr>) (\<lambda>_ u1.
      case lookup_stream i (u_streams u1) of
        LookupIdle \<Rightarrow> (Inl (ConnectionError ProtocolError), u1)
      | LookupClosed \<Rightarrow> up_release_conn len u1
      | LookupLive s \<Rightarrow>
          (case recv_record len (st_recv_window s) of (overspent, sw) \<Rightarrow>
             let u2 = up_put i (s\<lparr>st_recv_window := sw\<rparr>) u1 in
             if \<not> is_ok overspent
             then and_then (up_write_rst_stream i FlowControlError u2) (\<lambda>_. fail_stream i 502)
             else recv_live_body i data end_stream u2)))"

definition up_recv_window_update :: "stream_id \<Rightarrow> u32 \<Rightarrow> unit up_handler" where
  "up_recv_window_update i increment u =
     (if increment = 0 then
        if is_connection i then (Inl (ConnectionError ProtocolError), u)
        else up_write_rst_stream i ProtocolError u
      else if is_connection i then
        (case increase (unat increment) (u_send_window u) of (r, w) \<Rightarrow> (map_code r, u\<lparr>u_send_window := w\<rparr>))
      else
        (case lookup_stream i (u_streams u) of
           LookupIdle \<Rightarrow> (Inl (ConnectionError ProtocolError), u)
         | LookupClosed \<Rightarrow> (Inr (), u)
         | LookupLive s \<Rightarrow>
             (case increase (unat increment) (st_send_window s) of (r, w) \<Rightarrow>
                let u1 = up_put i (s\<lparr>st_send_window := w\<rparr>) u in
                if \<not> is_ok r then up_write_rst_stream i FlowControlError u1
                else (Inr (), up_enqueue_ready i u1))))"

definition up_recv_settings :: "(u16 \<times> u32) list \<Rightarrow> unit up_handler" where
  "up_recv_settings params u =
     (let previous = initial_window_size (u_peer_settings u) in
      case settings_apply params (u_peer_settings u) of (r, s) \<Rightarrow>
      and_then (r, u\<lparr>u_peer_settings := s\<rparr>) (\<lambda>_ u1.
      let u2 = u1\<lparr>u_hpack_enc := set_max_table_size (unat (header_table_size (u_peer_settings u1))) (u_hpack_enc u1)\<rparr>;
          u3 = (case max_concurrent_streams (u_peer_settings u2) of
                  None \<Rightarrow> u2
                | Some m \<Rightarrow>
                    on_record (set_record_max_concurrent (unat m))
                      (u2\<lparr>u_streams := set_max_concurrent (unat m) (u_streams u2)\<rparr>));
          delta = int (unat (initial_window_size (u_peer_settings u3))) - int (unat previous)
      in and_then
           (if delta \<noteq> 0 then
              (case apply_initial_window_delta (as_i32 delta) (u_streams u3) of
                 (r, t) \<Rightarrow> (map_code r, u3\<lparr>u_streams := t\<rparr>))
            else (Inr (), u3))
           (\<lambda>_ u4. and_then (up_queue_frame (SettingsFrame True []) u4)
              (\<lambda>_ u5. (Inr (), on_summary (\<lambda>s. s\<lparr>us_handshake_completed := True\<rparr>) u5)))))"

definition up_recv_rst :: "stream_id \<Rightarrow> error_code \<Rightarrow> upstream \<Rightarrow> upstream" where
  "up_recv_rst i code u =
     forget i (case up_route_of i u of
                 None \<Rightarrow> u
               | Some r \<Rightarrow> on_summary count_up_reset (tell (ur_events r, ur_request r) (EvReset (ur_client_id r) code) u))"

fun up_frame_action :: "instant \<Rightarrow> frame \<Rightarrow> unit up_handler" where
  "up_frame_action now (SettingsFrame ack params) u = (if \<not> ack then up_recv_settings params u else (Inr (), u))"
| "up_frame_action now (Ping data ack) u =
     (if \<not> ack then up_queue_frame (Ping data True) u
      else if probe_enabled (u_probe u) then (Inr (), u\<lparr>u_probe := snd (probe_acked data now (u_probe u))\<rparr>)
      else (Inr (), u))"
| "up_frame_action now (GoAway last_id code debug) u = (Inr (), begin_peer_drain last_id now u)"
| "up_frame_action now (WindowUpdate i inc) u = up_recv_window_update i inc u"
| "up_frame_action now (Headers i block end_stream end_headers) u =
     up_read_header_block i block end_headers
       (if u_open_header_block u = None then u\<lparr>u_open_header_end_stream := end_stream\<rparr> else u)"
| "up_frame_action now (Continuation i block end_headers) u = up_read_header_block i block end_headers u"
| "up_frame_action now (Data i data end_stream) u = up_recv_data i data end_stream u"
| "up_frame_action now (RstStream i code) u = (Inr (), up_recv_rst i code u)"

definition up_block_order_ok :: "frame \<Rightarrow> upstream \<Rightarrow> bool" where
  "up_block_order_ok f u =
     (case u_open_header_block u of
        Some opn \<Rightarrow> continues_block f opn
      | None \<Rightarrow> \<not> is_continuation f)"

text \<open>GOAWAY returns before the last match, which would leave \<open>u_open_header_block\<close> as it is.\<close>

definition up_handle_frame :: "instant \<Rightarrow> frame \<Rightarrow> bool up_handler" where
  "up_handle_frame now f u =
     (if \<not> up_block_order_ok f u then (Inl (ConnectionError ProtocolError), u)
      else and_then (up_frame_action now f u)
        (\<lambda>_ u1. (Inr True,
           u1\<lparr>u_open_header_block := block_after f (u_open_header_block u1), u_received := u_received u1 @ [f]\<rparr>)))"

definition up_reject_if_mid_header_block :: "frame_type \<Rightarrow> stream_id \<Rightarrow> unit up_handler" where
  "up_reject_if_mid_header_block kind i u =
     (case u_open_header_block u of
        Some opn \<Rightarrow> (Inl (ConnectionError ProtocolError), u)
      | None \<Rightarrow> (Inr (), u))"

end
