(* ===== verification/Upstream_Pump.thy ===== *)
theory Upstream_Pump
  imports Upstream
begin

section \<open>The round-robin sender of a connection to a backend\<close>

text \<open>
  \<^verbatim>\<open>visit_ready_stream\<close> and the body of the loop of \<^verbatim>\<open>pump_outbound\<close>. \<^verbatim>\<open>take_from_queue\<close> is the one of
  \<^verbatim>\<open>conn.rs\<close>, and what a visit takes off a stream is the same; unlike there, a visit that finds nothing
  to write counts as progress.
\<close>

subsection \<open>One visit\<close>

definition up_visit_budget :: "stream \<Rightarrow> upstream \<Rightarrow> nat" where
  "up_visit_budget s u =
     min (min (min send_budget (sendable (st_send_window s))) (sendable (u_send_window u)))
         (unat (max_frame_size (u_peer_settings u)))"

definition up_spend_windows :: "nat \<Rightarrow> stream_id \<Rightarrow> stream \<Rightarrow> unit up_handler" where
  "up_spend_windows len i s u =
     (if len > 0 then
        (case consume len (st_send_window s) of (r, w) \<Rightarrow>
           and_then (map_code r, up_put i (s\<lparr>st_send_window := w\<rparr>) u)
             (\<lambda>_ u1. case consume len (u_send_window u1) of (r, w) \<Rightarrow>
                (map_code r, u1\<lparr>u_send_window := w\<rparr>)))
      else (Inr (), up_put i s u))"

definition up_write_data :: "stream_id \<Rightarrow> octets \<Rightarrow> bool \<Rightarrow> unit up_handler" where
  "up_write_data i chunk end_stream u =
     (if length chunk > 0 \<or> end_stream then
        and_then (up_queue_frame (Data i chunk end_stream) u)
          (\<lambda>_. up_apply_stream_event i (SendData end_stream))
      else (Inr (), u))"

definition up_credit_client :: "stream_id \<Rightarrow> nat \<Rightarrow> upstream \<Rightarrow> upstream" where
  "up_credit_client i len u =
     (if len > 0 then
        (case up_route_of i u of
           None \<Rightarrow> u
         | Some r \<Rightarrow> tell (ur_events r, ur_request r) (EvBodyAccepted (ur_client_id r) len) u)
      else u)"

definition up_write_trailers :: "stream_id \<Rightarrow> header list option \<Rightarrow> unit up_handler" where
  "up_write_trailers i trailers u =
     (case trailers of
        None \<Rightarrow> (Inr (), u)
      | Some flds \<Rightarrow>
          (case up_encode_block flds u of (block, u1) \<Rightarrow>
             and_then (up_queue_frame (Headers i block True True) u1)
               (\<lambda>_. up_apply_stream_event i (SendHeaders True))))"

definition up_visit_emit :: "stream_id \<Rightarrow> octets \<Rightarrow> bool \<Rightarrow> header list option \<Rightarrow> stream \<Rightarrow> bool option up_handler" where
  "up_visit_emit i chunk end_stream trailers s u =
     and_then (up_spend_windows (length chunk) i s u) (\<lambda>_ u1.
     and_then (up_write_data i chunk end_stream u1) (\<lambda>_ u2.
     and_then (up_write_trailers i trailers (up_credit_client i (length chunk) u2)) (\<lambda>_ u3.
       (Inr (Some (case up_get i u3 of None \<Rightarrow> False | Some s' \<Rightarrow> has_pending_send s')), u3))))"

definition up_visit_ready_stream :: "stream_id \<Rightarrow> bool option up_handler" where
  "up_visit_ready_stream i u =
     (case up_get i u of
        None \<Rightarrow> (Inr (Some False), u)
      | Some s0 \<Rightarrow>
          let s = s0\<lparr>st_queued := False\<rparr>; budget = up_visit_budget s u in
          if pending_send s > 0 \<and> budget = 0 then (Inr None, up_put i s u)
          else
            (case visit_take s budget of (chunk, end_stream, trailers, s1) \<Rightarrow>
               if chunk = [] \<and> \<not> end_stream \<and> trailers = None then (Inr (Some False), up_put i s1 u)
               else up_visit_emit i chunk end_stream trailers s1 u))"

subsection \<open>One lap\<close>

fun up_visit_lap :: "stream_id list \<Rightarrow> stream_id list \<Rightarrow> stream_id list \<Rightarrow> bool
    \<Rightarrow> (stream_id list \<times> stream_id list \<times> bool) up_handler" where
  "up_visit_lap [] stalled served wrote u = (Inr (stalled, served, wrote), u)"
| "up_visit_lap (i # lap) stalled served wrote u =
     and_then (up_visit_ready_stream i u) (\<lambda>v. case v of
         Some True \<Rightarrow> up_visit_lap lap stalled (served @ [i]) True
       | Some False \<Rightarrow> up_visit_lap lap stalled served True
       | None \<Rightarrow> up_visit_lap lap (stalled @ [i]) served wrote)"

definition up_mark_queued :: "stream_id \<Rightarrow> upstream \<Rightarrow> upstream" where
  "up_mark_queued i u = (case up_get i u of None \<Rightarrow> u | Some s \<Rightarrow> up_put i (s\<lparr>st_queued := True\<rparr>) u)"

definition up_rebuild_ring :: "stream_id list \<Rightarrow> upstream \<Rightarrow> upstream" where
  "up_rebuild_ring ring u =
     (let u1 = fold up_mark_queued ring (u\<lparr>u_ready := ring\<rparr>)
      in u1\<lparr>u_ready := filter (\<lambda>i. up_get i u1 \<noteq> None) (u_ready u1)\<rparr>)"

definition up_pump_lap :: "bool up_handler" where
  "up_pump_lap u =
     and_then (up_visit_lap (u_ready u) [] [] False (u\<lparr>u_ready := []\<rparr>))
       (\<lambda>(stalled, served, wrote) u1. (Inr wrote, up_rebuild_ring (stalled @ served) u1))"

end
