(* ===== verification/Upstream_Core.thy ===== *)
theory Upstream_Core
  imports Upstream_Pump Conn_Inv "HOL-Library.Multiset"
begin

section \<open>What a connection to a backend does to its requests, streams and windows\<close>

text \<open>
  The specification of the bookkeeping, as a step relation on the part of the state it concerns, and
  the proof that the handlers implement it. A request handed over is in one of two collections, the
  queue and the routes, and a step takes it out of them only with an event that ends it, at its
  client's wish, or with a trailer section that was not passed on. The queue is a multiset, so that
  a request taken off it and not yet placed is still in it.

  The relation has two parameters. With \<open>h\<close> the clients keep the credit contract: none confirms more
  octets than it was given. With \<open>f\<close> it also covers what a handler had done when it failed.
\<close>

subsection \<open>The core and its steps\<close>

record ucore =
  q_streams :: stream_table
  q_recv :: recv_window
  q_send :: window
  q_routes :: "(stream_id \<times> up_route) list"
  q_requests :: "(request_id \<times> stream_id) list"
  q_pending :: "pending_request multiset"
  q_cancelled :: "request_id set"
  q_told :: "(requester \<times> service_event) list"
  q_mute :: "(requester \<times> stream_id) list"
  q_taken :: "to_upstream list"
  q_frames :: "frame list"
  q_credited :: nat
  q_heard :: "(stream_id \<times> octets) list"
  q_out :: nat

text \<open>The payloads of the DATA frames handled, with their streams.\<close>

fun heard_of :: "frame list \<Rightarrow> (stream_id \<times> octets) list" where
  "heard_of [] = []"
| "heard_of (Data i data es # fs) = (i, data) # heard_of fs"
| "heard_of (f # fs) = heard_of fs"

definition ucore_of :: "upstream \<Rightarrow> ucore" where
  "ucore_of u =
     \<lparr>q_streams = u_streams u, q_recv = u_recv_window u, q_send = u_send_window u, q_routes = u_routes u,
      q_requests = u_requests u, q_pending = mset (u_pending u), q_cancelled = set (u_cancelled u),
      q_told = u_told u, q_mute = u_mute u, q_taken = u_taken u, q_frames = u_frames u,
      q_credited = credit_received (u_received u), q_heard = heard_of (u_received u), q_out = length (u_out u)\<rparr>"

text \<open>The events that end a request for its client.\<close>

fun final_for :: "stream_id \<Rightarrow> service_event \<Rightarrow> bool" where
  "final_for i (EvHead j resp es) = (j = i \<and> es)"
| "final_for i (EvData j data es) = (j = i \<and> es)"
| "final_for i (EvTrailers j flds) = (j = i)"
| "final_for i (EvBodyAccepted j n) = False"
| "final_for i (EvReset j code) = (j = i)"
| "final_for i (EvGone j) = (j = i)"
| "final_for i (EvShed j) = (j = i)"

fun is_data :: "service_event \<Rightarrow> bool" where
  "is_data (EvData i data es) = True" | "is_data _ = False"

definition answered :: "requester \<Rightarrow> stream_id \<Rightarrow> ucore \<Rightarrow> bool" where
  "answered cl i k \<longleftrightarrow> (\<exists>ev. (cl, ev) \<in> set (q_told k) \<and> final_for i ev) \<or> (cl, i) \<in> set (q_mute k)"

definition same_request :: "pending_request \<Rightarrow> pending_request \<Rightarrow> bool" where
  "same_request p p' \<longleftrightarrow> pn_request p' = pn_request p \<and> pn_client_id p' = pn_client_id p \<and> pn_events p' = pn_events p"

definition same_route :: "up_route \<Rightarrow> up_route \<Rightarrow> bool" where
  "same_route r r' \<longleftrightarrow> ur_client_id r' = ur_client_id r \<and> ur_events r' = ur_events r \<and> ur_request r' = ur_request r"

definition wipe :: "stream_id \<Rightarrow> stream_table \<Rightarrow> stream_table" where
  "wipe i t = snd (take_reclaimed (retire i t))"

definition released_stream :: "stream_id \<Rightarrow> nat \<Rightarrow> stream_table \<Rightarrow> stream_table" where
  "released_stream i n t =
     (case get_stream i t of
        None \<Rightarrow> t
      | Some s \<Rightarrow> put_stream i (s\<lparr>st_recv_window := snd (recv_release n (st_recv_window s))\<rparr>) t)"

definition dropped_route :: "stream_id \<Rightarrow> up_route \<Rightarrow> ucore \<Rightarrow> ucore" where
  "dropped_route i r k =
     k\<lparr>q_streams := wipe i (q_streams k), q_routes := AList.delete i (q_routes k),
       q_requests := AList.delete (ur_request r) (q_requests k),
       q_recv := (if ur_pending r > 0 then snd (recv_release (ur_pending r) (q_recv k)) else q_recv k)\<rparr>"

fun is_request :: "to_upstream \<Rightarrow> bool" where
  "is_request (TuRequest r i head es cl) = True" | "is_request _ = False"

inductive up_core_step :: "bool \<Rightarrow> bool \<Rightarrow> ucore \<Rightarrow> ucore \<Rightarrow> bool" for h f where
  arrives: "up_core_step h f k (k\<lparr>q_taken := q_taken k @ [TuRequest r i head es cl],
      q_pending := add_mset (request_of r i head es cl) (q_pending k)\<rparr>)"
| noted: "\<not> is_request msg \<Longrightarrow> up_core_step h f k (k\<lparr>q_taken := q_taken k @ [msg]\<rparr>)"
| told: "\<not> is_data ev \<Longrightarrow> up_core_step h f k (k\<lparr>q_told := q_told k @ [(cl, ev)]\<rparr>)"
| muted: "up_core_step h f k (k\<lparr>q_mute := q_mute k @ [(cl, i)]\<rparr>)"
| refills: "same_request p p' \<Longrightarrow> q_pending k = add_mset p ps \<Longrightarrow>
    up_core_step h f k (k\<lparr>q_pending := add_mset p' ps\<rparr>)"
| turned: "q_pending k = add_mset p ps \<Longrightarrow> final_for (pn_client_id p) ev \<Longrightarrow> \<not> is_data ev \<Longrightarrow>
    up_core_step h f k (k\<lparr>q_pending := ps, q_told := q_told k @ [((pn_events p, pn_request p), ev)]\<rparr>)"
| skipped: "q_pending k = add_mset p ps \<Longrightarrow> pn_request p \<in> q_cancelled k \<Longrightarrow>
    up_core_step h f k (k\<lparr>q_pending := ps, q_cancelled := q_cancelled k - {pn_request p}\<rparr>)"
| unqueued: "TuCancel r code \<in> set (q_taken k) \<Longrightarrow>
    up_core_step h f k (k\<lparr>q_pending := filter_mset (\<lambda>p. pn_request p \<noteq> r) (q_pending k),
      q_cancelled := insert r (q_cancelled k)\<rparr>)"
| opens: "q_pending k = add_mset p ps \<Longrightarrow> open_local i (q_streams k) = (Inr s, t) \<Longrightarrow>
    up_core_step h f k (k\<lparr>q_pending := ps, q_streams := t, q_routes := AList.update i (route_new p) (q_routes k),
      q_requests := AList.update (pn_request p) i (q_requests k)\<rparr>)"
| marked: "map_of (q_routes k) i = Some r \<Longrightarrow> same_route r r' \<Longrightarrow> ur_pending r' = ur_pending r \<Longrightarrow>
    up_core_step h f k (k\<lparr>q_routes := AList.update i r' (q_routes k)\<rparr>)"
| forgets: "map_of (q_routes k) i = Some r \<Longrightarrow> answered (ur_events r, ur_request r) (ur_client_id r) k \<Longrightarrow>
    up_core_step h f k (dropped_route i r k)"
| cancels: "map_of (q_requests k) q = Some i \<Longrightarrow> map_of (q_routes k) i = Some r \<Longrightarrow> TuCancel q code \<in> set (q_taken k) \<Longrightarrow>
    up_core_step h f k (dropped_route i r k)"
| retires: "up_core_step h f k (k\<lparr>q_streams := wipe i (q_streams k)\<rparr>)"
| tweaked: "get_stream i (q_streams k) = Some s \<Longrightarrow> inert s s' \<Longrightarrow>
    up_core_step h f k (k\<lparr>q_streams := put_stream i s' (q_streams k)\<rparr>)"
| moved: "get_stream i (q_streams k) = Some s \<Longrightarrow> transition (st_state s) e = Inr n \<Longrightarrow> n \<noteq> Closed \<Longrightarrow>
    up_core_step h f k (k\<lparr>q_streams := put_stream i (s\<lparr>st_state := n\<rparr>) (q_streams k)\<rparr>)"
| ended: "get_stream i (q_streams k) = Some s \<Longrightarrow> transition (st_state s) e = Inr Closed \<Longrightarrow>
    up_core_step h f k (k\<lparr>q_streams := retire i (put_stream i (s\<lparr>st_state := Closed\<rparr>) (q_streams k))\<rparr>)"
| writes: "data_len fr = 0 \<Longrightarrow> 0 < n \<Longrightarrow>
    up_core_step h f k (k\<lparr>q_frames := q_frames k @ [fr], q_out := q_out k + n\<rparr>)"
| sends: "get_stream i (q_streams k) = Some s \<Longrightarrow> consume (length data) (st_send_window s) = (Inr (), w) \<Longrightarrow>
    inert s s' \<Longrightarrow> consume (length data) (q_send k) = (Inr (), v) \<Longrightarrow> 0 < n \<Longrightarrow>
    up_core_step h f k (k\<lparr>q_streams := put_stream i (s'\<lparr>st_send_window := w\<rparr>) (q_streams k), q_send := v,
      q_frames := q_frames k @ [Data i data es], q_out := q_out k + n\<rparr>)"
| credits_stream: "get_stream i (q_streams k) = Some s \<Longrightarrow>
    up_core_step h f k (k\<lparr>q_streams := put_stream i (s\<lparr>st_send_window := snd (increase n (st_send_window s))\<rparr>) (q_streams k)\<rparr>)"
| credits_conn: "increase n (q_send k) = (Inr (), v) \<Longrightarrow>
    up_core_step h f k (k\<lparr>q_credited := q_credited k + n, q_send := v\<rparr>)"
| receives: "get_stream i (q_streams k) = Some s \<Longrightarrow> map_of (q_routes k) i = Some r \<Longrightarrow>
    recv_record n (q_recv k) = (Inr (), w) \<Longrightarrow>
    up_core_step h f k (k\<lparr>q_recv := w,
      q_streams := put_stream i (s\<lparr>st_recv_window := snd (recv_record n (st_recv_window s))\<rparr>) (q_streams k),
      q_routes := AList.update i (r\<lparr>ur_pending := sat_add_u32 (ur_pending r) n\<rparr>) (q_routes k)\<rparr>)"
| relays: "get_stream i (q_streams k) = Some s \<Longrightarrow> map_of (q_routes k) i = Some r \<Longrightarrow>
    up_core_step h f k (k\<lparr>q_heard := q_heard k @ [(i, data)],
      q_told := q_told k @ [((ur_events r, ur_request r), EvData (ur_client_id r) data es)]\<rparr>)"
| drops: "get_stream i (q_streams k) = None \<Longrightarrow> i \<le> highest_local_id (q_streams k) \<Longrightarrow>
    up_core_step h f k (k\<lparr>q_heard := q_heard k @ [(i, data)]\<rparr>)"
| strays: "get_stream i (q_streams k) = Some s \<Longrightarrow> map_of (q_routes k) i = None \<Longrightarrow>
    recv_record n (q_recv k) = (Inr (), w) \<Longrightarrow>
    up_core_step h f k (k\<lparr>q_recv := w, q_heard := q_heard k @ [(i, data)],
      q_streams := put_stream i (s\<lparr>st_recv_window := snd (recv_record n (st_recv_window s))\<rparr>) (q_streams k)\<rparr>)"
| overruns: "get_stream i (q_streams k) = Some s \<Longrightarrow> recv_record n (q_recv k) = (Inr (), w) \<Longrightarrow> 0 < m \<Longrightarrow>
    up_core_step h f k (k\<lparr>q_recv := w,
      q_streams := wipe i (put_stream i (s\<lparr>st_recv_window := sw\<rparr>) (q_streams k)),
      q_frames := q_frames k @ [RstStream i FlowControlError], q_out := q_out k + m\<rparr>)"
| discards: "recv_record n (q_recv k) = (Inr (), w) \<Longrightarrow>
    up_core_step h f k (k\<lparr>q_recv := snd (recv_release n w)\<rparr>)"
| releases: "map_of (q_routes k) i = Some r \<Longrightarrow> (h \<longrightarrow> n \<le> ur_pending r) \<Longrightarrow> 0 < n \<Longrightarrow>
    up_core_step h f k (k\<lparr>q_routes := AList.update i (r\<lparr>ur_pending := ur_pending r - n\<rparr>) (q_routes k),
      q_streams := released_stream i n (q_streams k), q_recv := snd (recv_release n (q_recv k))\<rparr>)"
| overreleases: "\<not> h \<Longrightarrow> map_of (q_routes k) i = None \<Longrightarrow>
    up_core_step h f k (k\<lparr>q_streams := released_stream i n (q_streams k), q_recv := snd (recv_release n (q_recv k))\<rparr>)"
| resizes: "apply_initial_window_delta d (q_streams k) = (r, t) \<Longrightarrow> up_core_step h f k (k\<lparr>q_streams := t\<rparr>)"
| limits: "up_core_step h f k (k\<lparr>q_streams := set_max_concurrent m (q_streams k)\<rparr>)"
| fatal: "f \<Longrightarrow> up_core_step h f k (k\<lparr>q_recv := w, q_heard := hs\<rparr>)"

abbreviation up_steps :: "bool \<Rightarrow> bool \<Rightarrow> ucore \<Rightarrow> ucore \<Rightarrow> bool" where
  "up_steps h f \<equiv> (up_core_step h f)\<^sup>*\<^sup>*"

lemma up_one: "up_core_step h f k k' \<Longrightarrow> up_steps h f k k'"
  by (rule r_into_rtranclp)

lemma up_then_one: "up_steps h f k k' \<Longrightarrow> up_core_step h f k' k'' \<Longrightarrow> up_steps h f k k''"
  by (rule rtranclp.rtrancl_into_rtrancl)

text \<open>
  A handler refines the core when its success is a sequence of steps; with \<open>f\<close>, its failure too.
\<close>

definition up_ok :: "bool \<Rightarrow> bool \<Rightarrow> ucore \<Rightarrow> (upstream, 'e, 'a) outcome \<Rightarrow> bool" where
  "up_ok h f k r \<longleftrightarrow> (f \<or> is_ok (fst r) \<longrightarrow> up_steps h f k (ucore_of (snd r)))"

lemma up_ok_all: "up_steps h f k (ucore_of (snd r)) \<Longrightarrow> up_ok h f k r"
  by (simp add: up_ok_def)

lemma up_ok_return [simp]: "up_ok h f k (Inr a, u) \<longleftrightarrow> up_steps h f k (ucore_of u)"
  by (simp add: up_ok_def)

lemma up_ok_error [simp]: "up_ok h f k (Inl e, u) \<longleftrightarrow> (f \<longrightarrow> up_steps h f k (ucore_of u))"
  by (simp add: up_ok_def)

lemma up_ok_then:
  assumes "up_ok h f k r" "\<And>a u1. r = (Inr a, u1) \<Longrightarrow> up_steps h f k (ucore_of u1) \<Longrightarrow> up_ok h f k (g a u1)"
  shows "up_ok h f k (and_then r g)"
  using assms by (cases r; cases "fst r") auto

lemma up_all_then:
  assumes "up_steps h f k (ucore_of (snd r))"
    "\<And>a u1. r = (Inr a, u1) \<Longrightarrow> up_steps h f k (ucore_of u1) \<Longrightarrow> up_steps h f k (ucore_of (snd (g a u1)))"
  shows "up_steps h f k (ucore_of (snd (and_then r g)))"
  using assms by (cases r; cases "fst r") auto

lemma up_ok_from: "up_steps h f k k' \<Longrightarrow> up_ok h f k' r \<Longrightarrow> up_ok h f k r"
  by (auto simp: up_ok_def)

lemma up_all_from: "up_steps h f k k' \<Longrightarrow> up_steps h f k' k'' \<Longrightarrow> up_steps h f k k''"
  by (rule rtranclp_trans)

subsection \<open>Steps that hear nothing\<close>

text \<open>
  A handler puts its frame in the history when it has succeeded; the steps it takes before that hear
  nothing, and are steps whatever has been heard.
\<close>

lemma heard_grows: "up_core_step h False k k' \<Longrightarrow> length (q_heard k) \<le> length (q_heard k')"
  by (induction rule: up_core_step.induct) (simp_all add: dropped_route_def)

lemma step_eq: "up_core_step h f k k1 \<Longrightarrow> k1 = k' \<Longrightarrow> up_core_step h f k k'"
  by simp

lemma deaf_step:
  assumes "up_core_step h False k k'" "length (q_heard k') = length (q_heard k)"
  shows "up_core_step h False (k\<lparr>q_heard := hs\<rparr>) (k'\<lparr>q_heard := hs\<rparr>)"
  using assms
proof cases
  case (arrives r i head es cl)
  then show ?thesis
    by (intro step_eq [OF up_core_step.arrives [where h = h and f = False and k = "k\<lparr>q_heard := hs\<rparr>" and r = r and i = i and head = head and es = es and cl = cl]]) (simp_all add: answered_def dropped_route_def)
next
  case (noted msg)
  then show ?thesis
    by (intro step_eq [OF up_core_step.noted [where h = h and f = False and k = "k\<lparr>q_heard := hs\<rparr>" and msg = msg]]) (simp_all add: answered_def dropped_route_def)
next
  case (told ev cl)
  then show ?thesis
    by (intro step_eq [OF up_core_step.told [where h = h and f = False and k = "k\<lparr>q_heard := hs\<rparr>" and ev = ev and cl = cl]]) (simp_all add: answered_def dropped_route_def)
next
  case (muted cl i)
  then show ?thesis
    by (intro step_eq [OF up_core_step.muted [where h = h and f = False and k = "k\<lparr>q_heard := hs\<rparr>" and cl = cl and i = i]]) (simp_all add: answered_def dropped_route_def)
next
  case (refills p p' ps)
  then show ?thesis
    by (intro step_eq [OF up_core_step.refills [where h = h and f = False and k = "k\<lparr>q_heard := hs\<rparr>" and p = p and p' = p' and ps = ps]]) (simp_all add: answered_def dropped_route_def)
next
  case (turned p ps ev)
  then show ?thesis
    by (intro step_eq [OF up_core_step.turned [where h = h and f = False and k = "k\<lparr>q_heard := hs\<rparr>" and p = p and ps = ps and ev = ev]]) (simp_all add: answered_def dropped_route_def)
next
  case (skipped p ps)
  then show ?thesis
    by (intro step_eq [OF up_core_step.skipped [where h = h and f = False and k = "k\<lparr>q_heard := hs\<rparr>" and p = p and ps = ps]]) (simp_all add: answered_def dropped_route_def)
next
  case (unqueued r code)
  then show ?thesis
    by (intro step_eq [OF up_core_step.unqueued [where h = h and f = False and k = "k\<lparr>q_heard := hs\<rparr>" and r = r and code = code]]) (simp_all add: answered_def dropped_route_def)
next
  case (opens p ps i s t)
  then show ?thesis
    by (intro step_eq [OF up_core_step.opens [where h = h and f = False and k = "k\<lparr>q_heard := hs\<rparr>" and p = p and ps = ps and i = i and s = s and t = t]]) (simp_all add: answered_def dropped_route_def)
next
  case (marked i r r')
  then show ?thesis
    by (intro step_eq [OF up_core_step.marked [where h = h and f = False and k = "k\<lparr>q_heard := hs\<rparr>" and i = i and r = r and r' = r']]) (simp_all add: answered_def dropped_route_def)
next
  case (forgets i r)
  then show ?thesis
    by (intro step_eq [OF up_core_step.forgets [where h = h and f = False and k = "k\<lparr>q_heard := hs\<rparr>" and i = i and r = r]]) (simp_all add: answered_def dropped_route_def)
next
  case (cancels q i r code)
  then show ?thesis
    by (intro step_eq [OF up_core_step.cancels [where h = h and f = False and k = "k\<lparr>q_heard := hs\<rparr>" and q = q and i = i and r = r and code = code]]) (simp_all add: answered_def dropped_route_def)
next
  case (retires i)
  then show ?thesis
    by (intro step_eq [OF up_core_step.retires [where h = h and f = False and k = "k\<lparr>q_heard := hs\<rparr>" and i = i]]) (simp_all add: answered_def dropped_route_def)
next
  case (tweaked i s s')
  then show ?thesis
    by (intro step_eq [OF up_core_step.tweaked [where h = h and f = False and k = "k\<lparr>q_heard := hs\<rparr>" and i = i and s = s and s' = s']]) (simp_all add: answered_def dropped_route_def)
next
  case (moved i s e n)
  then show ?thesis
    by (intro step_eq [OF up_core_step.moved [where h = h and f = False and k = "k\<lparr>q_heard := hs\<rparr>" and i = i and s = s and e = e and n = n]]) (simp_all add: answered_def dropped_route_def)
next
  case (ended i s e)
  then show ?thesis
    by (intro step_eq [OF up_core_step.ended [where h = h and f = False and k = "k\<lparr>q_heard := hs\<rparr>" and i = i and s = s and e = e]]) (simp_all add: answered_def dropped_route_def)
next
  case (writes fr n)
  then show ?thesis
    by (intro step_eq [OF up_core_step.writes [where h = h and f = False and k = "k\<lparr>q_heard := hs\<rparr>" and fr = fr and n = n]]) (simp_all add: answered_def dropped_route_def)
next
  case (sends i s data w s' v n es)
  then show ?thesis
    by (intro step_eq [OF up_core_step.sends [where h = h and f = False and k = "k\<lparr>q_heard := hs\<rparr>" and i = i and s = s and data = data and w = w and s' = s' and v = v and n = n and es = es]]) (simp_all add: answered_def dropped_route_def)
next
  case (credits_stream i s n)
  then show ?thesis
    by (intro step_eq [OF up_core_step.credits_stream [where h = h and f = False and k = "k\<lparr>q_heard := hs\<rparr>" and i = i and s = s and n = n]]) (simp_all add: answered_def dropped_route_def)
next
  case (credits_conn n v)
  then show ?thesis
    by (intro step_eq [OF up_core_step.credits_conn [where h = h and f = False and k = "k\<lparr>q_heard := hs\<rparr>" and n = n and v = v]]) (simp_all add: answered_def dropped_route_def)
next
  case (receives i s r n w)
  then show ?thesis
    by (intro step_eq [OF up_core_step.receives [where h = h and f = False and k = "k\<lparr>q_heard := hs\<rparr>" and i = i and s = s and r = r and n = n and w = w]]) (simp_all add: answered_def dropped_route_def)
next
  case (overruns i s n w m sw)
  then show ?thesis
    by (intro step_eq [OF up_core_step.overruns [where h = h and f = False and k = "k\<lparr>q_heard := hs\<rparr>" and i = i and s = s and n = n and w = w and m = m and sw = sw]]) (simp_all add: answered_def dropped_route_def)
next
  case (discards n w)
  then show ?thesis
    by (intro step_eq [OF up_core_step.discards [where h = h and f = False and k = "k\<lparr>q_heard := hs\<rparr>" and n = n and w = w]]) (simp_all add: answered_def dropped_route_def)
next
  case (releases i r n)
  then show ?thesis
    by (intro step_eq [OF up_core_step.releases [where h = h and f = False and k = "k\<lparr>q_heard := hs\<rparr>" and i = i and r = r and n = n]]) (simp_all add: answered_def dropped_route_def)
next
  case (overreleases i n)
  then show ?thesis
    by (intro step_eq [OF up_core_step.overreleases [where h = h and f = False and k = "k\<lparr>q_heard := hs\<rparr>" and i = i and n = n]]) (simp_all add: answered_def dropped_route_def)
next
  case (resizes d r t)
  then show ?thesis
    by (intro step_eq [OF up_core_step.resizes [where h = h and f = False and k = "k\<lparr>q_heard := hs\<rparr>" and d = d and r = r and t = t]]) (simp_all add: answered_def dropped_route_def)
next
  case (limits m)
  then show ?thesis
    by (intro step_eq [OF up_core_step.limits [where h = h and f = False and k = "k\<lparr>q_heard := hs\<rparr>" and m = m]]) (simp_all add: answered_def dropped_route_def)
qed (use assms(2) in \<open>simp_all add: dropped_route_def\<close>)

lemma heard_grow: "up_steps h False k k' \<Longrightarrow> length (q_heard k) \<le> length (q_heard k')"
  by (induction rule: rtranclp_induct) (auto dest: heard_grows)

lemma deaf_steps:
  assumes "up_steps h False k k'" "length (q_heard k') = length (q_heard k)"
  shows "up_steps h False (k\<lparr>q_heard := hs\<rparr>) (k'\<lparr>q_heard := hs\<rparr>)"
  using assms
proof (induction rule: rtranclp_induct)
  case (step k1 k2)
  then have "length (q_heard k1) = length (q_heard k)" "length (q_heard k2) = length (q_heard k1)"
    using heard_grow [OF step(1)] heard_grows [OF step(2)] by simp_all
  then show ?case using step deaf_step [OF step(2)] by (simp add: rtranclp.rtrancl_into_rtrancl)
qed simp

lemma deaf:
  assumes "up_steps h f k k'" "q_heard k' = q_heard k"
  shows "up_steps h f (k\<lparr>q_heard := hs\<rparr>) (k'\<lparr>q_heard := hs\<rparr>)"
proof (cases f)
  case True
  have "up_core_step h f (k\<lparr>q_heard := hs\<rparr>) k"
    by (intro step_eq [OF fatal [where w = "q_recv k" and hs = "q_heard k"]]) (simp_all add: True)
  moreover have "up_core_step h f k' (k'\<lparr>q_heard := hs\<rparr>)"
    by (intro step_eq [OF fatal [where w = "q_recv k'" and hs = hs]]) (simp_all add: True)
  ultimately show ?thesis
    using assms(1) converse_rtranclp_into_rtranclp rtranclp.rtrancl_into_rtrancl by metis
qed (use assms deaf_steps in simp)

text \<open>A handler that has heard a frame, when it succeeds.\<close>

definition up_hears :: "bool \<Rightarrow> bool \<Rightarrow> ucore \<Rightarrow> (stream_id \<times> octets) list \<Rightarrow> (upstream, 'e, 'a) outcome \<Rightarrow> bool" where
  "up_hears h f k hs r \<longleftrightarrow> (f \<or> is_ok (fst r) \<longrightarrow> up_steps h f k ((ucore_of (snd r))\<lparr>q_heard := hs\<rparr>))"

lemma up_hears_all: "up_steps h f k ((ucore_of (snd r))\<lparr>q_heard := hs\<rparr>) \<Longrightarrow> up_hears h f k hs r"
  by (simp add: up_hears_def)

lemma up_hears_error: "(f \<Longrightarrow> up_steps h f k ((ucore_of u)\<lparr>q_heard := hs\<rparr>)) \<Longrightarrow> up_hears h f k hs (Inl e, u)"
  by (simp add: up_hears_def)

end
