(* ===== verification/Upstream_Refine.thy ===== *)
theory Upstream_Refine
  imports Upstream_Core
begin

section \<open>The handlers of a connection to a backend implement the core steps\<close>

text \<open>
  Closing and opening streams, and the queue between them: from any state, what each does is a sequence
  of core steps. The recursion of the queue is proved for every depth at once.
\<close>

subsection \<open>The core of an updated state\<close>

lemma ucore_same [simp]:
  "ucore_of (u\<lparr>u_read_buf := x1\<rparr>) = ucore_of u" "ucore_of (u\<lparr>u_peer_settings := x2\<rparr>) = ucore_of u"
  "ucore_of (u\<lparr>u_open_header_block := x3\<rparr>) = ucore_of u" "ucore_of (u\<lparr>u_open_header_end_stream := x4\<rparr>) = ucore_of u"
  "ucore_of (u\<lparr>u_header_block := x5\<rparr>) = ucore_of u" "ucore_of (u\<lparr>u_hpack_dec := x6\<rparr>) = ucore_of u"
  "ucore_of (u\<lparr>u_hpack_enc := x7\<rparr>) = ucore_of u" "ucore_of (u\<lparr>u_ready := x8\<rparr>) = ucore_of u"
  "ucore_of (u\<lparr>u_next_stream_id := x9\<rparr>) = ucore_of u" "ucore_of (u\<lparr>u_peer_draining := x10\<rparr>) = ucore_of u"
  "ucore_of (u\<lparr>u_probe := x11\<rparr>) = ucore_of u" "ucore_of (u\<lparr>u_inbox := x12\<rparr>) = ucore_of u"
  "ucore_of (on_stats g u) = ucore_of u" "ucore_of (on_record g' u) = ucore_of u"
  "ucore_of (on_summary g'' u) = ucore_of u" "ucore_of (sync_queued u) = ucore_of u"
  by (simp_all add: ucore_of_def on_stats_def on_record_def on_summary_def sync_queued_def)

lemma ucore_moved [simp]:
  "ucore_of (u\<lparr>u_streams := t\<rparr>) = (ucore_of u)\<lparr>q_streams := t\<rparr>"
  "ucore_of (u\<lparr>u_recv_window := r\<rparr>) = (ucore_of u)\<lparr>q_recv := r\<rparr>"
  "ucore_of (u\<lparr>u_send_window := w\<rparr>) = (ucore_of u)\<lparr>q_send := w\<rparr>"
  "ucore_of (u\<lparr>u_routes := rs\<rparr>) = (ucore_of u)\<lparr>q_routes := rs\<rparr>"
  "ucore_of (u\<lparr>u_requests := qs\<rparr>) = (ucore_of u)\<lparr>q_requests := qs\<rparr>"
  "ucore_of (u\<lparr>u_pending := ps\<rparr>) = (ucore_of u)\<lparr>q_pending := mset ps\<rparr>"
  "ucore_of (u\<lparr>u_cancelled := cs\<rparr>) = (ucore_of u)\<lparr>q_cancelled := set cs\<rparr>"
  "ucore_of (u\<lparr>u_mute := ms\<rparr>) = (ucore_of u)\<lparr>q_mute := ms\<rparr>"
  "ucore_of (u\<lparr>u_taken := msgs\<rparr>) = (ucore_of u)\<lparr>q_taken := msgs\<rparr>"
  "ucore_of (u\<lparr>u_received := fs\<rparr>) = (ucore_of u)\<lparr>q_credited := credit_received fs, q_heard := heard_of fs\<rparr>"
  "ucore_of (u\<lparr>u_out := bs\<rparr>) = (ucore_of u)\<lparr>q_out := length bs\<rparr>"
  "ucore_of (up_put i s u) = (ucore_of u)\<lparr>q_streams := put_stream i s (u_streams u)\<rparr>"
  "ucore_of (up_put_route i rt u) = (ucore_of u)\<lparr>q_routes := AList.update i rt (u_routes u)\<rparr>"
  "ucore_of (tell cl ev u) = (ucore_of u)\<lparr>q_told := u_told u @ [(cl, ev)]\<rparr>"
  by (simp_all add: ucore_of_def up_put_def up_put_route_def tell_def)

lemma ucore_fields [simp]:
  "q_streams (ucore_of u) = u_streams u" "q_recv (ucore_of u) = u_recv_window u"
  "q_send (ucore_of u) = u_send_window u" "q_routes (ucore_of u) = u_routes u"
  "q_requests (ucore_of u) = u_requests u" "q_pending (ucore_of u) = mset (u_pending u)"
  "q_cancelled (ucore_of u) = set (u_cancelled u)" "q_told (ucore_of u) = u_told u"
  "q_mute (ucore_of u) = u_mute u" "q_taken (ucore_of u) = u_taken u" "q_frames (ucore_of u) = u_frames u"
  "q_credited (ucore_of u) = credit_received (u_received u)" "q_heard (ucore_of u) = heard_of (u_received u)" "q_out (ucore_of u) = length (u_out u)"
  by (simp_all add: ucore_of_def)

lemma ucore_id [simp]:
  "(ucore_of u)\<lparr>q_streams := u_streams u\<rparr> = ucore_of u" "(ucore_of u)\<lparr>q_pending := mset (u_pending u)\<rparr> = ucore_of u"
  "(ucore_of u)\<lparr>q_credited := credit_received (u_received u)\<rparr> = ucore_of u"
  "(ucore_of u)\<lparr>q_heard := heard_of (u_received u)\<rparr> = ucore_of u"
  "(ucore_of u)\<lparr>q_out := length (u_out u)\<rparr> = ucore_of u"
  by (simp_all add: ucore_of_def)

lemma up_state_simps [simp]:
  "u_streams (tell cl ev u) = u_streams u" "u_routes (tell cl ev u) = u_routes u" "u_told (tell cl ev u) = u_told u @ [(cl, ev)]"
  "u_pending (tell cl ev u) = u_pending u" "u_requests (tell cl ev u) = u_requests u"
  "u_recv_window (tell cl ev u) = u_recv_window u" "u_taken (tell cl ev u) = u_taken u"
  "u_streams (up_put i s u) = put_stream i s (u_streams u)" "u_routes (up_put i s u) = u_routes u"
  "u_recv_window (up_put i s u) = u_recv_window u" "u_send_window (up_put i s u) = u_send_window u"
  "u_streams (up_put_route i r u) = u_streams u" "u_routes (up_put_route i r u) = AList.update i r (u_routes u)"
  "u_told (up_put_route i r u) = u_told u" "u_recv_window (up_put_route i r u) = u_recv_window u"
  "u_told (up_put i s u) = u_told u" "u_pending (up_put i s u) = u_pending u" "u_pending (up_put_route i r u) = u_pending u"
  by (simp_all add: tell_def up_put_def up_put_route_def)

lemma up_outside_simps [simp]:
  "u_streams (on_stats g u) = u_streams u" "u_routes (on_stats g u) = u_routes u" "u_requests (on_stats g u) = u_requests u"
  "u_recv_window (on_stats g u) = u_recv_window u" "u_pending (on_stats g u) = u_pending u" "u_told (on_stats g u) = u_told u"
  "u_streams (on_record g' u) = u_streams u" "u_routes (on_record g' u) = u_routes u" "u_pending (on_record g' u) = u_pending u"
  "u_streams (on_summary g'' u) = u_streams u" "u_routes (on_summary g'' u) = u_routes u"
  "u_recv_window (on_summary g'' u) = u_recv_window u" "u_told (on_summary g'' u) = u_told u"
  "u_requests (on_summary g'' u) = u_requests u" "u_pending (on_summary g'' u) = u_pending u"
  "u_streams (sync_queued u) = u_streams u" "u_routes (sync_queued u) = u_routes u" "u_pending (sync_queued u) = u_pending u"
  "u_requests (sync_queued u) = u_requests u" "u_taken (sync_queued u) = u_taken u" "u_cancelled (sync_queued u) = u_cancelled u"
  by (simp_all add: on_stats_def on_record_def on_summary_def sync_queued_def)

lemma up_lookups [simp]:
  "up_get i (tell cl ev u) = up_get i u" "up_get i (on_stats g u) = up_get i u" "up_get i (up_put_route j r u) = up_get i u"
  "up_get j (up_put i s u) = (if j = i then Some s else up_get j u)" "up_get i (on_summary g'' u) = up_get i u"
  "up_route_of i (on_stats g u) = up_route_of i u" "up_route_of i (tell cl ev u) = up_route_of i u"
  "up_route_of j (up_put_route i r u) = (if j = i then Some r else up_route_of j u)"
  "up_route_of j (up_put i s u) = up_route_of j u" "up_route_of i (on_summary g'' u) = up_route_of i u"
  by (simp_all add: up_get_def up_route_of_def update_conv)

subsection \<open>Writing frames\<close>

lemma header_written: "write_header kind fl sid n out = (Inr x, bs) \<Longrightarrow> length bs = length out + 9"
  by (auto simp: write_header_def frame_header_write_def Let_def split: if_splits)

lemma frame_written: "frame_write f out = (Inr x, bs) \<Longrightarrow> length out + 9 \<le> length bs"
  by (cases f) (auto simp: put_slice_def elim!: and_then_Inr dest!: header_written)

lemma up_queue_cases:
  obtains (queued) bs where "0 < length bs"
      "up_queue_frame f u = (Inr (), u\<lparr>u_out := u_out u @ bs, u_frames := u_frames u @ [f]\<rparr>)"
  | (refused) "up_queue_frame f u = (Inl (ConnectionError InternalError), u)"
proof (cases "encode (u_codec u) f []")
  case (Pair r bs)
  show ?thesis
  proof (cases r)
    case (Inr x)
    then have "0 < length bs" using Pair frame_written [of f "[]" x bs] by (auto simp: encode_def)
    then show ?thesis by (rule queued) (simp add: up_queue_frame_def Pair Inr)
  qed (use Pair refused in \<open>simp add: up_queue_frame_def\<close>)
qed

lemma up_core_queued:
  "ucore_of (u\<lparr>u_out := u_out u @ bs, u_frames := u_frames u @ [f]\<rparr>)
     = (ucore_of u)\<lparr>q_frames := u_frames u @ [f], q_out := length (u_out u) + length bs\<rparr>"
  by (simp add: ucore_of_def)

lemma up_queue_steps: "data_len f = 0 \<Longrightarrow> up_steps h fl (ucore_of u) (ucore_of (snd (up_queue_frame f u)))"
  by (cases rule: up_queue_cases [of f u])
    (auto simp: up_core_queued intro!: up_one writes [of f _ h fl "ucore_of u", simplified])

lemma up_queue_ok: "data_len f = 0 \<Longrightarrow> up_ok h fl (ucore_of u) (up_queue_frame f u)"
  by (rule up_ok_all) (rule up_queue_steps)

text \<open>Frames of a fixed small size are always written.\<close>

lemma up_queue_small:
  assumes "\<And>out. is_ok (fst (frame_write f out))"
  obtains bs where "0 < length bs" "up_queue_frame f u = (Inr (), u\<lparr>u_out := u_out u @ bs, u_frames := u_frames u @ [f]\<rparr>)"
proof (cases rule: up_queue_cases [of f u])
  case refused
  then show ?thesis using assms [of "[]"] by (cases "frame_write f []"; cases "fst (frame_write f [])") (auto simp: up_queue_frame_def encode_def)
qed (use that in blast)

lemma small_frames:
  "is_ok (fst (frame_write (RstStream i code) out))" "is_ok (fst (frame_write (WindowUpdate i n) out))"
  "length data \<le> send_budget \<Longrightarrow> is_ok (fst (frame_write (Data i data es) out))"
  by (simp_all add: write_header_def put_slice_def max_allowed_frame_size_def send_budget_def)

subsection \<open>Closing streams\<close>

lemma up_rst_steps: "up_steps h f (ucore_of u) (ucore_of (snd (up_write_rst_stream i code u)))"
proof -
  let ?u = "u\<lparr>u_streams := wipe i (u_streams u), u_ready := filter (\<lambda>j. j \<noteq> i) (u_ready u)\<rparr>"
  have "up_steps h f (ucore_of u) (ucore_of ?u)" using up_one [OF retires [of h f "ucore_of u" i]] by simp
  from up_all_from [OF this up_queue_steps] show ?thesis by (simp add: up_write_rst_stream_def wipe_def)
qed

lemma up_release_conn_steps:
  assumes "up_steps h f k ((ucore_of u)\<lparr>q_recv := snd (recv_release n (u_recv_window u))\<rparr>)"
  shows "up_steps h f k (ucore_of (snd (up_release_conn n u)))"
proof -
  obtain inc w where rel: "recv_release n (u_recv_window u) = (inc, w)" by (cases "recv_release n (u_recv_window u)")
  let ?u = "u\<lparr>u_recv_window := w\<rparr>"
  have s: "up_steps h f k (ucore_of ?u)" using assms rel by simp
  show ?thesis
  proof (cases inc)
    case None
    then show ?thesis using s rel by (simp add: up_release_conn_def)
  next
    case (Some m)
    have "up_steps h f (ucore_of ?u) (ucore_of (snd (up_queue_frame (WindowUpdate stream_id_connection (word_of_nat m)) ?u)))"
      by (rule up_queue_steps) simp
    from up_all_from [OF s this] show ?thesis using Some rel by (simp add: up_release_conn_def)
  qed
qed

text \<open>
  What \<^verbatim>\<open>forget\<close> drops has been answered, or its client cancelled it. \<open>D\<close> is what runs once a slot is free.
\<close>

lemma forget_steps:
  assumes D: "\<And>u. up_steps h f (ucore_of u) (ucore_of (snd (D u)))"
    and drop: "\<And>r. map_of (u_routes u) i = Some r \<Longrightarrow> up_core_step h f (ucore_of u) (dropped_route i r (ucore_of u))"
  shows "up_steps h f (ucore_of u) (ucore_of (forget_with D i u))"
proof (cases "map_of (u_routes u) i")
  case None
  let ?u = "u\<lparr>u_streams := wipe i (u_streams u), u_ready := filter (\<lambda>j. j \<noteq> i) (u_ready u)\<rparr>"
  have "up_steps h f (ucore_of u) (ucore_of ?u)" using up_one [OF retires [of h f "ucore_of u" i]] by simp
  from up_all_from [OF this D] show ?thesis using None by (simp add: forget_with_def up_route_of_def wipe_def Let_def)
next
  case (Some r)
  let ?u = "on_stats close_stream (u\<lparr>u_streams := wipe i (u_streams u), u_ready := filter (\<lambda>j. j \<noteq> i) (u_ready u),
     u_routes := AList.delete i (u_routes u), u_requests := AList.delete (ur_request r) (u_requests u)\<rparr>)"
  let ?v = "if ur_pending r > 0 then snd (up_release_conn (ur_pending r) (on_stats (unbuffer (ur_pending r)) ?u)) else ?u"
  have "up_steps h f (ucore_of u) (ucore_of ?v)"
  proof (cases "ur_pending r > 0")
    case True
    have "up_steps h f (ucore_of u) (ucore_of (snd (up_release_conn (ur_pending r) (on_stats (unbuffer (ur_pending r)) ?u))))"
      by (rule up_release_conn_steps) (use up_one [OF drop [OF Some]] True in \<open>simp add: dropped_route_def\<close>)
    then show ?thesis using True by simp
  next
    case False
    then show ?thesis using up_one [OF drop [OF Some]] by (simp add: dropped_route_def) (simp add: ucore_of_def)
  qed
  moreover have "forget_with D i u = snd (D ?v)"
    using Some by (simp add: forget_with_def up_route_of_def wipe_def Let_def)
  ultimately show ?thesis using up_all_from [OF _ D] by (simp only:)
qed

lemma drop_answered:
  "map_of (u_routes u) i = Some r \<Longrightarrow> answered (ur_events r, ur_request r) (ur_client_id r) (ucore_of u) \<Longrightarrow>
   up_core_step h f (ucore_of u) (dropped_route i r (ucore_of u))"
  by (rule forgets) simp_all

lemma answered_mono:
  "answered cl i k \<Longrightarrow> set (q_told k) \<subseteq> set (q_told k') \<Longrightarrow> set (q_mute k) \<subseteq> set (q_mute k') \<Longrightarrow> answered cl i k'"
  by (auto simp: answered_def)

lemma failure_final [simp]: "final_for (ur_client_id r) (failure_event status r)"
  by (simp add: failure_event_def)

lemma up_rst_fields [simp]:
  "u_routes (snd (up_write_rst_stream i code u)) = u_routes u" "u_told (snd (up_write_rst_stream i code u)) = u_told u"
  "u_mute (snd (up_write_rst_stream i code u)) = u_mute u" "u_requests (snd (up_write_rst_stream i code u)) = u_requests u"
  "u_taken (snd (up_write_rst_stream i code u)) = u_taken u"
  by (cases rule: up_queue_cases [of "RstStream i code" "u\<lparr>u_streams := snd (take_reclaimed (retire i (u_streams u))),
          u_ready := filter (\<lambda>j. j \<noteq> i) (u_ready u)\<rparr>"]; simp add: up_write_rst_stream_def)+

lemma up_rst_ok [simp]: "fst (up_write_rst_stream i code u) = Inr ()"
  by (rule up_queue_small [OF small_frames(1), of i code "u\<lparr>u_streams := snd (take_reclaimed (retire i (u_streams u))),
          u_ready := filter (\<lambda>j. j \<noteq> i) (u_ready u)\<rparr>"])
    (simp add: up_write_rst_stream_def)

lemma told_steps:
  "\<not> is_data ev \<Longrightarrow> up_steps h f (ucore_of u) ((ucore_of u)\<lparr>q_told := u_told u @ [(cl, ev)]\<rparr>)"
  using up_one [OF told [of ev h f "ucore_of u" cl]] by simp

lemma failure_not_data [simp]: "\<not> is_data (failure_event status r)"
  by (simp add: failure_event_def)

lemma fail_stream_steps:
  assumes D: "\<And>u. up_steps h f (ucore_of u) (ucore_of (snd (D u)))"
  shows "up_steps h f (ucore_of u) (ucore_of (snd (fail_stream_with D i status u)))"
proof -
  let ?u1 = "case up_route_of i u of None \<Rightarrow> u | Some r \<Rightarrow> tell (ur_events r, ur_request r) (failure_event status r) u"
  let ?r2 = "if up_get i ?u1 \<noteq> None then up_write_rst_stream i Cancel ?u1 else (Inr (), ?u1)"
  have 1: "up_steps h f (ucore_of u) (ucore_of ?u1)"
    using told_steps [of _ h f u] by (simp split: option.split)
  have 2: "up_steps h f (ucore_of ?u1) (ucore_of (snd ?r2))"
    using up_rst_steps [of h f ?u1 i Cancel] by (simp del: not_None_eq)
  have same: "u_routes (snd ?r2) = u_routes u" "u_told (snd ?r2) = u_told ?u1" "u_mute (snd ?r2) = u_mute ?u1"
    by (simp_all split: option.split)
  have 3: "up_steps h f (ucore_of (snd ?r2)) (ucore_of (forget_with D i (snd ?r2)))"
  proof (rule forget_steps [OF D drop_answered])
    fix r assume r: "map_of (u_routes (snd ?r2)) i = Some r"
    then have "up_route_of i u = Some r" using same(1) by (simp add: up_route_of_def)
    then show "answered (ur_events r, ur_request r) (ur_client_id r) (ucore_of (snd ?r2))"
      using failure_final [of r status] by (auto simp: answered_def same(2) simp del: failure_final)
  qed
  have "fail_stream_with D i status u = (Inr (), forget_with D i (snd ?r2))"
    by (simp add: fail_stream_with_def Let_def and_then_def prod_eq_iff split: prod.split)
  then show ?thesis using up_all_from [OF up_all_from [OF 1 2] 3] by simp
qed

text \<open>A stream event: the stream moves, ends, or is failed.\<close>

lemma apply_event_core:
  assumes "apply_event i e (q_streams k) = (Inr st, t)"
  shows "up_core_step h f k (k\<lparr>q_streams := t\<rparr>)"
proof -
  obtain s where s: "map_of (live (q_streams k)) i = Some s" "transition (st_state s) e = Inr st"
    "t = (if is_closed st then retire i (put_stream i (s\<lparr>st_state := st\<rparr>) (q_streams k))
          else put_stream i (s\<lparr>st_state := st\<rparr>) (q_streams k))"
    using assms by (auto simp: apply_event_def Let_def split: option.splits sum.splits if_splits)
  then show ?thesis
    using ended [of i k s e h f] moved [of i k s e st h f] by (cases "st = Closed") (auto simp: get_stream_def is_closed_def)
qed

lemma apply_event_rejected: "apply_event i e t = (Inl err, u) \<Longrightarrow> u = t"
  by (auto simp: apply_event_def Let_def split: option.splits sum.splits)

lemma up_apply_steps:
  assumes D: "\<And>u. up_steps h f (ucore_of u) (ucore_of (snd (D u)))"
  shows "up_steps h f (ucore_of u) (ucore_of (snd (up_apply_with D i e u)))"
proof (cases "apply_event i e (u_streams u)")
  case (Pair r t)
  show ?thesis
  proof (cases r)
    case (Inr st)
    then show ?thesis
      using up_one [OF apply_event_core [of i e "ucore_of u" st t h f]] Pair by (simp add: up_apply_with_def Let_def)
  next
    case (Inl err)
    have "u\<lparr>u_streams := u_streams u\<rparr> = u" by simp
    then show ?thesis
      using fail_stream_steps [of h f D u i 502] D apply_event_rejected [of i e "u_streams u" err t] Pair Inl
      by (simp add: up_apply_with_def Let_def)
  qed
qed

subsection \<open>Opening streams\<close>

lemma up_encode_core:
  assumes "up_encode_block hs u = (block, u1)"
  shows "ucore_of u1 = ucore_of u" "u_streams u1 = u_streams u" "u_routes u1 = u_routes u"
    "u_told u1 = u_told u" "u_pending u1 = u_pending u"
  using assms by (auto simp: up_encode_block_def split: prod.splits)

lemma start_request_steps:
  assumes D: "\<And>u. up_steps h f (ucore_of u) (ucore_of (snd (D u)))"
  shows "up_steps h f (ucore_of u) (ucore_of (snd (start_request_with D i p u)))"
proof -
  obtain block u1 where b: "up_encode_block (request_to_headers (pn_head p)) u = (block, u1)"
    by (cases "up_encode_block (request_to_headers (pn_head p)) u")
  have q: "up_steps h f (ucore_of u) (ucore_of (snd (up_queue_frame (Headers i block (pn_end_stream p) True) u1)))"
    using up_queue_steps [of "Headers i block (pn_end_stream p) True" h f u1] up_encode_core(1) [OF b] by simp
  show ?thesis
    unfolding start_request_with_def b prod.case
  proof (rule up_all_then [OF q], rule up_all_then)
    fix a u2 assume s: "up_steps h f (ucore_of u) (ucore_of u2)"
    show "up_steps h f (ucore_of u) (ucore_of (snd (up_apply_with D i (SendHeaders (pn_end_stream p)) u2)))"
      by (rule up_all_from [OF s up_apply_steps [OF D]])
  qed simp
qed

text \<open>A request in hand is still in the queue of the core.\<close>

definition in_hand :: "pending_request \<Rightarrow> upstream \<Rightarrow> ucore" where
  "in_hand p u = (ucore_of u)\<lparr>q_pending := add_mset p (mset (u_pending u))\<rparr>"

lemma in_hand_fields [simp]:
  "q_pending (in_hand p u) = add_mset p (mset (u_pending u))" "q_streams (in_hand p u) = u_streams u"
  "q_routes (in_hand p u) = u_routes u" "q_requests (in_hand p u) = u_requests u"
  "q_cancelled (in_hand p u) = set (u_cancelled u)" "q_told (in_hand p u) = u_told u"
  by (simp_all add: in_hand_def)

lemma turned_steps:
  "final_for (pn_client_id p) ev \<Longrightarrow> \<not> is_data ev \<Longrightarrow> up_steps h f (in_hand p u) (ucore_of (tell (pn_events p, pn_request p) ev u))"
  using up_one [OF turned [of "in_hand p u" p "mset (u_pending u)" ev h f]] by (simp add: in_hand_def)

lemma send_request_steps:
  assumes D: "\<And>u. up_steps h f (ucore_of u) (ucore_of (snd (D u)))"
  shows "up_steps h f (in_hand p u) (ucore_of (snd (send_request_with D p u)))"
proof -
  consider (cancelled) "pn_request p \<in> set (u_cancelled u)"
    | (draining) "pn_request p \<notin> set (u_cancelled u)" "u_peer_draining u \<noteq> None"
    | (full) "pn_request p \<notin> set (u_cancelled u)" "u_peer_draining u = None" "\<not> can_open_local (u_streams u)"
    | (free) "pn_request p \<notin> set (u_cancelled u)" "u_peer_draining u = None" "can_open_local (u_streams u)"
    by blast
  then show ?thesis
  proof cases
    case cancelled
    have "set (removeAll (pn_request p) (u_cancelled u)) = set (u_cancelled u) - {pn_request p}" by auto
    then show ?thesis
      using up_one [OF skipped [of "in_hand p u" p "mset (u_pending u)" h f]] cancelled
      by (simp add: send_request_with_def) (simp add: in_hand_def)
  next
    case draining
    then show ?thesis using turned_steps [of p "EvReset (pn_client_id p) RefusedStream"] by (simp add: send_request_with_def)
  next
    case full
    have "in_hand p (on_stats count_shed u) = in_hand p u" by (simp add: in_hand_def)
    then show ?thesis
      using full turned_steps [of p "EvShed (pn_client_id p)" h f "on_stats count_shed u"]
      by (simp add: send_request_with_def) (simp add: in_hand_def)
  next
    case free
    let ?i = "stream_id_new (u_next_stream_id u)"
    let ?u1 = "u\<lparr>u_next_stream_id := sat_add_word (u_next_stream_id u) 2\<rparr>"
    show ?thesis
    proof (cases "open_local ?i (u_streams u)")
      case (Pair r t)
      show ?thesis
      proof (cases r)
        case (Inl e)
        have "t = u_streams u" using open_local_rejected [of ?i "u_streams u" e t] Pair Inl by simp
        then have "in_hand p (?u1\<lparr>u_streams := t\<rparr>) = in_hand p u" by (simp add: in_hand_def)
        then show ?thesis
          using free Pair Inl turned_steps [of p "EvReset (pn_client_id p) RefusedStream" h f "?u1\<lparr>u_streams := t\<rparr>"]
          by (simp add: send_request_with_def Let_def)
      next
        case (Inr s)
        let ?v = "on_stats open_stream (?u1\<lparr>u_streams := t, u_routes := AList.update ?i (route_new p) (u_routes u),
           u_requests := AList.update (pn_request p) ?i (u_requests u)\<rparr>)"
        have "up_steps h f (in_hand p u) (ucore_of ?v)"
          using up_one [OF opens [of "in_hand p u" p "mset (u_pending u)" ?i s t h f]] Pair Inr by (simp add: in_hand_def)
        from up_all_from [OF this start_request_steps [OF D]] show ?thesis
          using free Pair Inr by (simp add: send_request_with_def Let_def)
      qed
    qed
  qed
qed

lemma up_tweak:
  "get_stream i (u_streams u) = Some s \<Longrightarrow> inert s s' \<Longrightarrow> up_steps h f (ucore_of u) (ucore_of (up_put i s' u))"
  using up_one [OF tweaked [of i "ucore_of u" s s' h f]] by simp

lemma up_enqueue_steps: "up_steps h f (ucore_of u) (ucore_of (up_enqueue_ready i u))"
  using up_tweak [of i u _ "_\<lparr>st_queued := True\<rparr>" h f]
  by (auto simp: up_enqueue_ready_def up_get_def inert_def split: option.split)

lemma follow_head_steps: "up_steps h f (ucore_of u) (ucore_of (follow_head p u))"
proof (cases "map_of (u_requests u) (pn_request p)")
  case (Some i)
  have "inert s (take_trailers (pn_trailers p) (take_bodies (pn_body p) s))" for s
    by (simp add: inert_def take_trailers_def take_bodies_def split: option.split)
  then have "up_steps h f (ucore_of u) (ucore_of (case up_get i u of None \<Rightarrow> u
     | Some s \<Rightarrow> up_put i (take_trailers (pn_trailers p) (take_bodies (pn_body p) s)) u))"
    using up_tweak [of i u] by (simp add: up_get_def split: option.split)
  from up_all_from [OF this up_enqueue_steps] show ?thesis using Some by (simp add: follow_head_def)
qed (simp add: follow_head_def)

lemma drain_loop_steps: "up_steps h f (ucore_of u) (ucore_of (snd (drain_loop n u)))"
proof (induction n arbitrary: u)
  case (Suc n)
  show ?case
  proof (cases "u_pending u")
    case (Cons p ps)
    let ?p = "p\<lparr>pn_body := [], pn_trailers := None\<rparr>"
    let ?u = "sync_queued (u\<lparr>u_pending := ps\<rparr>)"
    have "up_core_step h f (ucore_of u) ((ucore_of u)\<lparr>q_pending := add_mset ?p (mset ps)\<rparr>)"
      by (rule refills [of p ?p]) (simp_all add: same_request_def Cons)
    moreover have "(ucore_of u)\<lparr>q_pending := add_mset ?p (mset ps)\<rparr> = in_hand ?p ?u" by (simp add: in_hand_def)
    ultimately have "up_steps h f (ucore_of u) (in_hand ?p ?u)" using up_one by simp
    from up_all_from [OF this send_request_steps [OF Suc.IH]]
    have s: "up_steps h f (ucore_of u) (ucore_of (snd (send_request_with (drain_loop n) ?p ?u)))" .
    have "up_steps h f (ucore_of u) (ucore_of (snd (drain_loop n (follow_head p u1))))"
      if "up_steps h f (ucore_of u) (ucore_of u1)" for u1
      by (rule up_all_from [OF up_all_from [OF that follow_head_steps] Suc.IH])
    with s show ?thesis by (simp add: Cons up_all_then)
  qed simp
qed simp

lemma drain_steps: "up_steps h f (ucore_of u) (ucore_of (snd (drain_pending u)))"
  unfolding drain_pending_def by (rule drain_loop_steps)

lemmas up_apply_all = up_apply_steps [of _ _ drain_pending, OF drain_steps, folded up_apply_stream_event_def]
lemmas fail_stream_all = fail_stream_steps [of _ _ drain_pending, OF drain_steps, folded fail_stream_def]
lemmas send_request_all = send_request_steps [of _ _ drain_pending, OF drain_steps, folded send_request_def]
lemmas forget_all = forget_steps [of _ _ drain_pending, OF drain_steps, folded forget_def]

subsection \<open>Handlers do not touch the frames received\<close>

lemma received_then:
  assumes "u_received (snd r) = u_received u" "\<And>a v. r = (Inr a, v) \<Longrightarrow> u_received v = u_received u \<Longrightarrow> u_received (snd (g a v)) = u_received u"
  shows "u_received (snd (and_then r g)) = u_received u"
  using assms by (cases r; cases "fst r") auto

lemma received_simple [simp]:
  "u_received (tell cl ev u) = u_received u" "u_received (on_stats g u) = u_received u"
  "u_received (on_record g' u) = u_received u" "u_received (on_summary g'' u) = u_received u"
  "u_received (sync_queued u) = u_received u" "u_received (up_put i s u) = u_received u"
  "u_received (up_put_route i rt u) = u_received u" "u_received (snd (up_queue_frame fr u)) = u_received u"
  "u_received (up_enqueue_ready i u) = u_received u" "u_received (snd (up_encode_block hs u)) = u_received u"
  "u_received (follow_head p u) = u_received u"
  by (simp_all add: tell_def on_stats_def on_record_def on_summary_def sync_queued_def up_put_def up_put_route_def
      up_queue_frame_def up_enqueue_ready_def up_encode_block_def follow_head_def Let_def split: prod.split sum.split option.split)

lemma received_release [simp]: "u_received (snd (up_release_conn n u)) = u_received u"
  by (simp add: up_release_conn_def Let_def split: prod.split option.split)

lemma received_rst [simp]: "u_received (snd (up_write_rst_stream i code u)) = u_received u"
  by (simp add: up_write_rst_stream_def)

lemma received_forget:
  assumes "\<And>u. u_received (snd (D u)) = u_received u"
  shows "u_received (forget_with D i u) = u_received u"
  using assms by (simp add: forget_with_def Let_def split: option.split)

lemma received_fail:
  assumes "\<And>u. u_received (snd (D u)) = u_received u"
  shows "u_received (snd (fail_stream_with D i status u)) = u_received u"
  unfolding fail_stream_with_def Let_def
  by (rule received_then) (auto simp: received_forget [OF assms] split: option.split)

lemma received_apply:
  assumes "\<And>u. u_received (snd (D u)) = u_received u"
  shows "u_received (snd (up_apply_with D i e u)) = u_received u"
  by (simp add: up_apply_with_def Let_def received_fail [OF assms] split: prod.split sum.split)

lemma received_send:
  assumes "\<And>u. u_received (snd (D u)) = u_received u"
  shows "u_received (snd (send_request_with D p u)) = u_received u"
proof -
  have start: "u_received (snd (start_request_with D i p v)) = u_received v" for i v
  proof -
    obtain block u1 where b: "up_encode_block (request_to_headers (pn_head p)) v = (block, u1)"
      by (cases "up_encode_block (request_to_headers (pn_head p)) v")
    have 1: "u_received u1 = u_received v" using received_simple(10) [of "request_to_headers (pn_head p)" v] b by simp
    show ?thesis
      unfolding start_request_with_def b prod.case
    proof (rule received_then)
      show "u_received (snd (up_queue_frame (Headers i block (pn_end_stream p) True) u1)) = u_received v" using 1 by simp
      fix a v2 assume "u_received (v2 :: upstream) = u_received v"
      then show "u_received (snd (and_then (up_apply_with D i (SendHeaders (pn_end_stream p)) v2)
          (\<lambda>_ u3. (Inr (), on_summary count_sent_request u3)))) = u_received v"
        by (intro received_then) (simp_all add: received_apply [OF assms])
    qed
  qed
  show ?thesis by (simp add: send_request_with_def Let_def start split: prod.split sum.split)
qed

lemma received_drain [simp]: "u_received (snd (drain_loop n u)) = u_received u"
proof (induction n arbitrary: u)
  case (Suc n)
  show ?case
  proof (cases "u_pending u")
    case (Cons p ps)
    have "u_received (snd (and_then (send_request_with (drain_loop n) (p\<lparr>pn_body := [], pn_trailers := None\<rparr>)
        (sync_queued (u\<lparr>u_pending := ps\<rparr>))) (\<lambda>_ u1. drain_loop n (follow_head p u1)))) = u_received u"
      by (rule received_then) (simp_all add: received_send [OF Suc.IH] Suc.IH)
    then show ?thesis by (simp add: Cons)
  qed simp
qed simp

lemma received_closing [simp]:
  "u_received (forget i u) = u_received u" "u_received (snd (fail_stream i status u)) = u_received u"
  "u_received (snd (up_apply_stream_event i e u)) = u_received u"
proof -
  have D: "u_received (snd (drain_pending v)) = u_received v" for v
    unfolding drain_pending_def by (rule received_drain)
  show "u_received (forget i u) = u_received u" "u_received (snd (fail_stream i status u)) = u_received u"
    "u_received (snd (up_apply_stream_event i e u)) = u_received u"
    by (simp_all only: forget_def fail_stream_def up_apply_stream_event_def received_forget [OF D] received_fail [OF D]
        received_apply [OF D])
qed

end
