(* ===== verification/Upstream_Frames.thy ===== *)
theory Upstream_Frames
  imports Upstream_Refine
begin

section \<open>Messages, frames and the sender of a connection to a backend as core steps\<close>

text \<open>
  The rest of the refinement: the messages of clients, the frames of the backend and the sender. A stream
  whose client has had its last event stays \<open>settled\<close> through whatever the queue does when a slot is
  freed, so that forgetting it afterwards is a step too.
\<close>

subsection \<open>What stays true of a stream that has been answered\<close>

definition ids_ok :: "ucore \<Rightarrow> bool" where
  "ids_ok k \<longleftrightarrow> (\<forall>i r. map_of (q_routes k) i = Some r \<longrightarrow> i \<le> highest_local_id (q_streams k))"

definition settled :: "stream_id \<Rightarrow> ucore \<Rightarrow> bool" where
  "settled i k \<longleftrightarrow> i \<le> highest_local_id (q_streams k)
     \<and> (\<forall>r. map_of (q_routes k) i = Some r \<longrightarrow> answered (ur_events r, ur_request r) (ur_client_id r) k)"

lemma highest_local_same [simp]:
  "highest_local_id (put_stream i s t) = highest_local_id t" "highest_local_id (wipe i t) = highest_local_id t"
  "highest_local_id (retire i t) = highest_local_id t" "highest_local_id (released_stream i n t) = highest_local_id t"
  "highest_local_id (set_max_concurrent m t) = highest_local_id t"
  by (auto simp: put_stream_def wipe_def take_reclaimed_def retire_def released_stream_def set_max_concurrent_def
      split: option.split)

lemma highest_local_delta: "apply_initial_window_delta d t = (r, u) \<Longrightarrow> highest_local_id u = highest_local_id t"
  by (auto simp: apply_initial_window_delta_def split: prod.splits)

lemma highest_local_opened: "open_local i t = (Inr s, u) \<Longrightarrow> highest_local_id u = i \<and> highest_local_id t < i"
  using open_local_accepted [of i t s u] by simp

lemma settled_step: "up_core_step h f k k' \<Longrightarrow> settled i k \<Longrightarrow> settled i k'"
proof (induction rule: up_core_step.induct)
  case (opens k p ps j s t)
  then show ?case
    using highest_local_opened [OF opens(2)] by (auto simp: settled_def answered_def update_conv)
next
  case (resizes d k r t)
  then show ?case using highest_local_delta [OF resizes(1)] by (auto simp: settled_def answered_def)
next
  case (forgets k j r)
  then show ?case by (auto simp: settled_def answered_def dropped_route_def delete_conv)
next
  case (cancels k q j r code)
  then show ?case by (auto simp: settled_def answered_def dropped_route_def delete_conv)
qed (auto simp: settled_def answered_def same_route_def update_conv)

lemma settled_steps: "up_steps h f k k' \<Longrightarrow> settled i k \<Longrightarrow> settled i k'"
  by (induction rule: rtranclp_induct) (auto simp: settled_step)

lemma forget_settled: "settled i (ucore_of u) \<Longrightarrow> up_steps h f (ucore_of u) (ucore_of (forget i u))"
  by (rule forget_all) (auto simp: settled_def intro: drop_answered)

text \<open>An event of the backend that may end the stream, after its client has been told.\<close>

lemma apply_then_forget:
  assumes s: "up_steps h f k (ucore_of u)" and e: "es \<Longrightarrow> settled i (ucore_of u)"
  shows "up_steps h f k (ucore_of (snd (and_then (up_apply_stream_event i ev u) (\<lambda>_ u1. (Inr (), if es then forget i u1 else u1)))))"
proof (rule up_all_then)
  show a: "up_steps h f k (ucore_of (snd (up_apply_stream_event i ev u)))" by (rule up_all_from [OF s up_apply_all])
  fix x u1 assume r: "up_apply_stream_event i ev u = (Inr x, u1)" and s1: "up_steps h f k (ucore_of u1)"
  have "up_steps h f (ucore_of u) (ucore_of u1)" using up_apply_all [of h f u i ev] r by simp
  then have "es \<Longrightarrow> settled i (ucore_of u1)" using settled_steps e by blast
  then show "up_steps h f k (ucore_of (snd (Inr (), if es then forget i u1 else u1)))"
    using s1 up_all_from [OF s1 forget_settled] by simp
qed

subsection \<open>Messages\<close>

definition honest_message :: "to_upstream \<Rightarrow> upstream \<Rightarrow> bool" where
  "honest_message msg u =
     (case msg of
        TuReleased r n \<Rightarrow>
          (case map_of (u_requests u) r of
             None \<Rightarrow> True
           | Some i \<Rightarrow> (case up_route_of i u of None \<Rightarrow> n = 0 | Some rt \<Rightarrow> n \<le> ur_pending rt))
      | _ \<Rightarrow> True)"

lemma update_pending_refill:
  assumes "\<And>p. same_request p (g p)"
  obtains "update_pending r g ps = ps"
  | p rest where "mset ps = add_mset p rest" "mset (update_pending r g ps) = add_mset (g p) rest"
proof -
  have "update_pending r g ps = ps \<or> (\<exists>p rest. mset ps = add_mset p rest \<and> mset (update_pending r g ps) = add_mset (g p) rest)"
    by (induction ps) (auto, metis add_mset_commute)
  then show ?thesis using that by blast
qed

lemma update_pending_steps:
  assumes "\<And>p. same_request p (g p)"
  shows "up_steps h f (ucore_of u) (ucore_of (u\<lparr>u_pending := update_pending r g (u_pending u)\<rparr>))"
proof (cases rule: update_pending_refill [of g r "u_pending u", OF assms])
  case 1
  then show ?thesis by simp
next
  case (2 p rest)
  then show ?thesis using up_one [OF refills [of p "g p" "ucore_of u" rest h f]] assms by simp
qed

lemma released_put:
  "get_stream i t = Some s \<Longrightarrow> put_stream i (s\<lparr>st_recv_window := snd (recv_release n (st_recv_window s))\<rparr>) t = released_stream i n t"
  "get_stream i t = None \<Longrightarrow> t = released_stream i n t"
  by (simp_all add: released_stream_def)

text \<open>The stream's part of a release: what it leaves for the connection's part.\<close>

lemma up_release_split:
  assumes "0 < n"
  obtains u4 where "up_release i n u = up_release_conn n u4"
    "u_recv_window u4 = u_recv_window u"
    "ucore_of u4 = (case up_route_of i u of None \<Rightarrow> ucore_of u
        | Some r \<Rightarrow> (ucore_of u)\<lparr>q_routes := AList.update i (r\<lparr>ur_pending := ur_pending r - n\<rparr>) (u_routes u)\<rparr>)
          \<lparr>q_streams := released_stream i n (u_streams u)\<rparr>
     \<or> (\<exists>fr m. data_len fr = 0 \<and> 0 < m \<and> ucore_of u4 = (case up_route_of i u of None \<Rightarrow> ucore_of u
        | Some r \<Rightarrow> (ucore_of u)\<lparr>q_routes := AList.update i (r\<lparr>ur_pending := ur_pending r - n\<rparr>) (u_routes u)\<rparr>)
          \<lparr>q_streams := released_stream i n (u_streams u), q_frames := u_frames u @ [fr], q_out := length (u_out u) + m\<rparr>)"
proof -
  define u2 where "u2 = on_stats (unbuffer n) (case up_route_of i u of None \<Rightarrow> u
     | Some r \<Rightarrow> up_put_route i (r\<lparr>ur_pending := ur_pending r - n\<rparr>) u)"
  have c2: "ucore_of u2 = (case up_route_of i u of None \<Rightarrow> ucore_of u
        | Some r \<Rightarrow> (ucore_of u)\<lparr>q_routes := AList.update i (r\<lparr>ur_pending := ur_pending r - n\<rparr>) (u_routes u)\<rparr>)"
    and f2: "u_streams u2 = u_streams u" "u_recv_window u2 = u_recv_window u" "u_frames u2 = u_frames u" "u_out u2 = u_out u"
    by (simp_all add: u2_def on_stats_def up_put_route_def split: option.split)
  have e: "up_release i n u = and_then
       (case up_get i u2 of None \<Rightarrow> (Inr (), u2)
        | Some s \<Rightarrow> (case recv_release n (st_recv_window s) of (inc, w) \<Rightarrow>
             let u3 = up_put i (s\<lparr>st_recv_window := w\<rparr>) u2 in
             (case inc of None \<Rightarrow> (Inr (), u3) | Some k \<Rightarrow> up_queue_frame (WindowUpdate i (word_of_nat k)) u3)))
       (\<lambda>_. up_release_conn n)"
    unfolding up_release_def u2_def Let_def using assms by simp
  show ?thesis
  proof (cases "up_get i u2")
    case None
    then have "released_stream i n (u_streams u) = u_streams u" by (simp add: released_stream_def up_get_def f2)
    then have same: "(ucore_of u2)\<lparr>q_streams := released_stream i n (u_streams u)\<rparr> = ucore_of u2"
      using f2 by (simp add: ucore_of_def)
    show ?thesis
      by (rule that [of u2]) (use None e f2 same in \<open>simp_all add: c2\<close>)
  next
    case (Some s)
    obtain inc w where rel: "recv_release n (st_recv_window s) = (inc, w)" by (cases "recv_release n (st_recv_window s)")
    let ?u3 = "up_put i (s\<lparr>st_recv_window := w\<rparr>) u2"
    have c3: "ucore_of ?u3 = (ucore_of u2)\<lparr>q_streams := released_stream i n (u_streams u)\<rparr>"
      using Some rel released_put(1) [of i "u_streams u" s n] by (simp add: up_get_def f2)
    show ?thesis
    proof (cases inc)
      case None
      then show ?thesis using that [of ?u3] Some rel e f2 c2 c3 by simp
    next
      case (Some k)
      obtain bs where q: "0 < length bs" "up_queue_frame (WindowUpdate i (word_of_nat k)) ?u3
          = (Inr (), ?u3\<lparr>u_out := u_out ?u3 @ bs, u_frames := u_frames ?u3 @ [WindowUpdate i (word_of_nat k)]\<rparr>)"
        by (rule up_queue_small [OF small_frames(2)])
      let ?u4 = "?u3\<lparr>u_out := u_out ?u3 @ bs, u_frames := u_frames ?u3 @ [WindowUpdate i (word_of_nat k)]\<rparr>"
      have o3: "u_out ?u3 = u_out u" "u_frames ?u3 = u_frames u" using f2 by (simp_all add: up_put_def)
      have c4: "ucore_of ?u4 = (ucore_of u2)\<lparr>q_streams := released_stream i n (u_streams u),
          q_frames := u_frames u @ [WindowUpdate i (word_of_nat k)], q_out := length (u_out u) + length bs\<rparr>"
        using up_core_queued [where u = ?u3 and bs = bs and f = "WindowUpdate i (word_of_nat k)"] c3 o3 by simp
      show ?thesis
      proof (rule that [of ?u4])
        show "up_release i n u = up_release_conn n ?u4" using \<open>up_get i u2 = Some s\<close> Some rel e q by simp
        show "u_recv_window ?u4 = u_recv_window u" using f2 by simp
      qed (use c4 c2 q(1) in \<open>metis data_len.simps(4)\<close>)
    qed
  qed
qed

lemma up_release_steps:
  assumes "h \<longrightarrow> (case up_route_of i u of None \<Rightarrow> n = 0 | Some r \<Rightarrow> n \<le> ur_pending r)"
  shows "up_steps h f (ucore_of u) (ucore_of (snd (up_release i n u)))"
proof (cases "n = 0")
  case True
  then show ?thesis by (simp add: up_release_def)
next
  case False
  let ?k = "(case up_route_of i u of None \<Rightarrow> ucore_of u
        | Some r \<Rightarrow> (ucore_of u)\<lparr>q_routes := AList.update i (r\<lparr>ur_pending := ur_pending r - n\<rparr>) (u_routes u)\<rparr>)
          \<lparr>q_streams := released_stream i n (u_streams u), q_recv := snd (recv_release n (u_recv_window u))\<rparr>"
  have step: "up_steps h f (ucore_of u) ?k"
  proof (cases "up_route_of i u")
    case None
    then have "\<not> h" using assms False by auto
    then show ?thesis
      using None up_one [OF overreleases [of h "ucore_of u" i f n]] by (simp add: up_route_of_def)
  next
    case (Some r)
    then show ?thesis
      using assms False up_one [OF releases [of "ucore_of u" i r h n f]] by (simp add: up_route_of_def)
  qed
  have "0 < n" using False by simp
  then obtain u4 where e: "up_release i n u = up_release_conn n u4" and w: "u_recv_window u4 = u_recv_window u"
    and c: "ucore_of u4 = (case up_route_of i u of None \<Rightarrow> ucore_of u
        | Some r \<Rightarrow> (ucore_of u)\<lparr>q_routes := AList.update i (r\<lparr>ur_pending := ur_pending r - n\<rparr>) (u_routes u)\<rparr>)
          \<lparr>q_streams := released_stream i n (u_streams u)\<rparr>
     \<or> (\<exists>fr m. data_len fr = 0 \<and> 0 < m \<and> ucore_of u4 = (case up_route_of i u of None \<Rightarrow> ucore_of u
        | Some r \<Rightarrow> (ucore_of u)\<lparr>q_routes := AList.update i (r\<lparr>ur_pending := ur_pending r - n\<rparr>) (u_routes u)\<rparr>)
          \<lparr>q_streams := released_stream i n (u_streams u), q_frames := u_frames u @ [fr], q_out := length (u_out u) + m\<rparr>)"
    by (rule up_release_split)
  have "up_steps h f (ucore_of u) ((ucore_of u4)\<lparr>q_recv := snd (recv_release n (u_recv_window u4))\<rparr>)"
    using c
  proof
    assume "\<exists>fr m. data_len fr = 0 \<and> 0 < m \<and> ucore_of u4 = (case up_route_of i u of None \<Rightarrow> ucore_of u
        | Some r \<Rightarrow> (ucore_of u)\<lparr>q_routes := AList.update i (r\<lparr>ur_pending := ur_pending r - n\<rparr>) (u_routes u)\<rparr>)
          \<lparr>q_streams := released_stream i n (u_streams u), q_frames := u_frames u @ [fr], q_out := length (u_out u) + m\<rparr>"
    then obtain fr m where fr: "data_len fr = 0" "0 < m" and c4: "ucore_of u4 = (case up_route_of i u of None \<Rightarrow> ucore_of u
        | Some r \<Rightarrow> (ucore_of u)\<lparr>q_routes := AList.update i (r\<lparr>ur_pending := ur_pending r - n\<rparr>) (u_routes u)\<rparr>)
          \<lparr>q_streams := released_stream i n (u_streams u), q_frames := u_frames u @ [fr], q_out := length (u_out u) + m\<rparr>"
      by blast
    have "(ucore_of u4)\<lparr>q_recv := snd (recv_release n (u_recv_window u4))\<rparr>
        = ?k\<lparr>q_frames := q_frames ?k @ [fr], q_out := q_out ?k + m\<rparr>"
      unfolding c4 w by (simp split: option.split)
    then show ?thesis using up_then_one [OF step writes [OF fr]] by simp
  qed (use step w in simp)
  then show ?thesis unfolding e by (rule up_release_conn_steps)
qed

lemma message_steps:
  assumes "h \<longrightarrow> honest_message msg u"
  shows "up_steps h f (ucore_of u) (ucore_of (snd (handle_message msg u)))"
proof (cases "is_request msg")
  case True
  then obtain r i head es cl where msg: "msg = TuRequest r i head es cl" by (cases msg) auto
  let ?p = "request_of r i head es cl" and ?u = "u\<lparr>u_taken := u_taken u @ [msg]\<rparr>"
  have "up_steps h f (ucore_of u) (in_hand ?p ?u)"
    using up_one [OF arrives [of h f "ucore_of u" r i head es cl]] by (simp add: in_hand_def msg)
  from up_all_from [OF this send_request_all] show ?thesis by (simp add: handle_message_def msg)
next
  case False
  let ?u = "u\<lparr>u_taken := u_taken u @ [msg]\<rparr>"
  have n: "up_steps h f (ucore_of u) (ucore_of ?u)"
    using up_one [OF noted [OF False, of h f "ucore_of u"]] by simp
  have "up_steps h f (ucore_of ?u) (ucore_of (snd (message_action msg ?u)))"
  proof (cases msg)
    case (TuBody r data es)
    show ?thesis
    proof (cases "map_of (u_requests u) r")
      case None
      then show ?thesis
        using update_pending_steps [of "\<lambda>p. p\<lparr>pn_body := pn_body p @ [(data, es)]\<rparr>" h f ?u r] TuBody
        by (simp add: same_request_def)
    next
      case (Some i)
      have "up_steps h f (ucore_of ?u) (ucore_of (up_put i (s\<lparr>st_send_queue := q, st_send_end_stream := b\<rparr>) ?u))"
        if "up_get i ?u = Some s" for s q b
        using up_tweak [of i ?u s] that by (simp add: up_get_def inert_def)
      from up_all_from [OF this up_enqueue_steps] show ?thesis using TuBody Some by (simp split: option.split)
    qed
  next
    case (TuTrailers r flds)
    show ?thesis
    proof (cases "map_of (u_requests u) r")
      case None
      then show ?thesis
        using update_pending_steps [of "\<lambda>p. p\<lparr>pn_trailers := Some flds\<rparr>" h f ?u r] TuTrailers
        by (simp add: same_request_def)
    next
      case (Some i)
      have "up_steps h f (ucore_of ?u) (ucore_of (up_put i (s\<lparr>st_pending_trailers := q, st_send_end_stream := b\<rparr>) ?u))"
        if "up_get i ?u = Some s" for s q b
        using up_tweak [of i ?u s] that by (simp add: up_get_def inert_def)
      from up_all_from [OF this up_enqueue_steps] show ?thesis using TuTrailers Some by (simp split: option.split)
    qed
  next
    case (TuReleased r n)
    then show ?thesis
      using up_release_steps [of h n _ ?u f] assms
      by (auto simp: honest_message_def up_route_of_def split: option.split)
  next
    case (TuCancel r code)
    show ?thesis
    proof (cases "map_of (u_requests u) r")
      case None
      have "set (List.insert r (u_cancelled u)) = insert r (set (u_cancelled u))" by simp
      then show ?thesis
        using TuCancel None up_one [OF unqueued [of r code "ucore_of ?u" h f]] by (simp add: Let_def flip: mset_filter)
    next
      case (Some i)
      let ?v = "on_summary count_up_reset ?u"
      let ?r = "if up_get i ?u \<noteq> None then up_write_rst_stream i code ?v else (Inr (), ?u)"
      have s: "up_steps h f (ucore_of ?u) (ucore_of (snd ?r))"
        using up_rst_steps [of h f ?v i code] by (simp del: not_None_eq)
      have q: "u_requests (snd ?r) = u_requests u" "u_taken (snd ?r) = u_taken u @ [msg]"
        by (simp_all add: on_summary_def)
      have "up_steps h f (ucore_of (snd ?r)) (ucore_of (forget i (snd ?r)))"
        by (rule forget_all, rule cancels [of _ r _ _ code]) (use q Some TuCancel in simp_all)
      moreover have "message_action msg ?u = (Inr (), forget i (snd ?r))"
        using Some by (simp add: TuCancel and_then_def prod_eq_iff split: prod.split)
      ultimately show ?thesis using up_all_from [OF s] by simp
    qed
  qed (use False in simp)
  from up_all_from [OF n this] show ?thesis by (simp add: handle_message_def)
qed

subsection \<open>Frames\<close>

lemma refuse_steps:
  "up_steps h f ((ucore_of u)\<lparr>q_pending := mset (ps @ u_pending u)\<rparr>) (ucore_of (fold refuse_pending ps u))"
proof (induction ps arbitrary: u)
  case (Cons p ps)
  let ?k = "(ucore_of u)\<lparr>q_pending := mset ((p # ps) @ u_pending u)\<rparr>"
  have "up_core_step h f ?k (?k\<lparr>q_pending := mset (ps @ u_pending u), q_told := q_told ?k @ [((pn_events p, pn_request p), EvReset (pn_client_id p) RefusedStream)]\<rparr>)"
    by (rule turned) simp_all
  then have "up_steps h f ?k ((ucore_of (refuse_pending p u))\<lparr>q_pending := mset (ps @ u_pending (refuse_pending p u))\<rparr>)"
    using up_one by (simp add: refuse_pending_def ucore_of_def tell_def)
  from up_all_from [OF this Cons.IH] show ?case by simp
qed simp

lemma abandon_route_steps: "up_steps h f (ucore_of u) (ucore_of (abandon_route i u))"
proof -
  let ?v = "case up_route_of i u of None \<Rightarrow> u | Some r \<Rightarrow> tell (ur_events r, ur_request r) (EvReset (ur_client_id r) RefusedStream) u"
  have "up_steps h f (ucore_of u) (ucore_of ?v)"
    using told_steps [of _ h f u] by (simp split: option.split)
  moreover have "up_steps h f (ucore_of ?v) (ucore_of (forget i ?v))"
    by (rule forget_all, rule drop_answered) (auto simp: answered_def up_route_of_def split: option.splits)
  ultimately show ?thesis unfolding abandon_route_def by (rule up_all_from)
qed

lemma begin_peer_drain_steps: "up_steps h f (ucore_of u) (ucore_of (begin_peer_drain i now u))"
proof -
  let ?u1 = "(on_record retire_record u)\<lparr>u_peer_draining := Some (i, now + peer_drain_deadline)\<rparr>"
  have "up_steps h f (ucore_of u) (ucore_of (fold refuse_pending (u_pending u) (?u1\<lparr>u_pending := []\<rparr>)))"
    using refuse_steps [of h f "u_pending u" "?u1\<lparr>u_pending := []\<rparr>"] by simp
  moreover have "up_steps h f (ucore_of u') (ucore_of (fold abandon_route is u'))" for "is" u'
  proof (induction "is" arbitrary: u')
    case (Cons j js)
    show ?case using up_all_from [OF abandon_route_steps Cons.IH] by simp
  qed simp
  ultimately show ?thesis using up_all_from by (simp add: begin_peer_drain_def Let_def)
qed

lemma recv_final_head_steps:
  assumes "up_route_of i u = Some r" "ids_ok (ucore_of u)"
  shows "up_steps h f (ucore_of u) (ucore_of (snd (recv_final_head i r head es u)))"
  unfolding recv_final_head_def
proof (rule apply_then_forget)
  let ?u = "up_put_route i (r\<lparr>ur_head_sent := True\<rparr>) u"
  have "up_steps h f (ucore_of u) (ucore_of ?u)"
    using up_one [OF marked [of "ucore_of u" i r "r\<lparr>ur_head_sent := True\<rparr>" h f]] assms(1)
    by (simp add: same_route_def up_route_of_def)
  from up_then_one [OF this told [of "EvHead (ur_client_id r) head es" h f _ "(ur_events r, ur_request r)"]]
  show "up_steps h f (ucore_of u) (ucore_of (on_summary (\<lambda>s. s\<lparr>us_responses_received := us_responses_received s + 1\<rparr>)
     (tell (ur_events r, ur_request r) (EvHead (ur_client_id r) head es) ?u)))"
    by simp
  show "settled i (ucore_of (on_summary (\<lambda>s. s\<lparr>us_responses_received := us_responses_received s + 1\<rparr>)
     (tell (ur_events r, ur_request r) (EvHead (ur_client_id r) head es) ?u)))" if es
    using assms that by (auto simp: settled_def ids_ok_def answered_def up_route_of_def update_conv)
qed

lemma recv_trailer_section_steps:
  assumes "up_route_of i u = Some r" "ids_ok (ucore_of u)"
  shows "up_steps h f (ucore_of u) (ucore_of (snd (recv_trailer_section i r headers es u)))"
  unfolding recv_trailer_section_def
proof (rule apply_then_forget)
  let ?v = "if \<not> is_ok (validate_trailers headers)
          then (if es then u\<lparr>u_mute := u_mute u @ [((ur_events r, ur_request r), ur_client_id r)]\<rparr> else u)
          else tell (ur_events r, ur_request r) (EvTrailers (ur_client_id r) headers) u"
  show "up_steps h f (ucore_of u) (ucore_of ?v)"
    using told_steps [of _ h f u] up_one [OF muted [of h f "ucore_of u"]] by simp
  show "settled i (ucore_of ?v)" if es
    using assms that by (auto simp: settled_def ids_ok_def answered_def up_route_of_def)
qed

lemma recv_response_ok:
  assumes "ids_ok (ucore_of u)"
  shows "up_steps h f (ucore_of u) (ucore_of (snd (recv_response i headers es u)))"
  using assms recv_final_head_steps recv_trailer_section_steps fail_stream_all up_apply_all
  by (auto simp: recv_response_def split: option.split sum.split)

lemma up_decode_block_steps:
  assumes "ids_ok (ucore_of u)"
  shows "up_steps h f (ucore_of u) (ucore_of (snd (up_decode_block i block u)))"
proof -
  have "up_steps h f (ucore_of u) (ucore_of (snd (recv_response i headers es (u\<lparr>u_hpack_dec := d\<rparr>))))" for headers es d
    using recv_response_ok [of "u\<lparr>u_hpack_dec := d\<rparr>"] assms by simp
  moreover have "up_steps h f (ucore_of u) (ucore_of (snd (fail_stream i 502 (u\<lparr>u_hpack_dec := d\<rparr>))))" for d
    using fail_stream_all [of h f "u\<lparr>u_hpack_dec := d\<rparr>" i 502] by simp
  ultimately show ?thesis by (simp add: up_decode_block_def split: prod.split sum.split hpack_error.split)
qed

lemma up_read_header_block_steps:
  assumes "ids_ok (ucore_of u)"
  shows "up_steps h f (ucore_of u) (ucore_of (snd (up_read_header_block i fragment eh u)))"
  using up_decode_block_steps [of u h f i fragment] assms
    up_decode_block_steps [of "u\<lparr>u_header_block := []\<rparr>" h f i "u_header_block u @ fragment"]
  by (simp add: up_read_header_block_def Let_def)

lemma recv_live_body_hears:
  assumes s: "up_steps h f k (ucore_of (up_put_route i (r\<lparr>ur_pending := sat_add_u32 (ur_pending r) (as_u32 (length data))\<rparr>) u))"
    and r: "up_route_of i u = Some r" and g: "get_stream i (u_streams u) = Some st"
    and ids: "ids_ok (ucore_of u)" and i: "i \<le> highest_local_id (u_streams u)"
  shows "up_hears h f k (heard_of (u_received u) @ [(i, data)]) (recv_live_body i data es u)"
proof (rule up_hears_all)
  let ?hs = "heard_of (u_received u) @ [(i, data)]"
  let ?w = "up_put_route i (r\<lparr>ur_pending := sat_add_u32 (ur_pending r) (as_u32 (length data))\<rparr>)
    (on_summary (count_received (as_u32 (length data))) u)"
  let ?v = "tell (ur_events r, ur_request r) (EvData (ur_client_id r) data es) (on_stats (buffer_octets (as_u32 (length data))) ?w)"
  have "up_core_step h f (ucore_of ?w) ((ucore_of ?v)\<lparr>q_heard := ?hs\<rparr>)"
    by (intro step_eq [OF relays [of i "ucore_of ?w" st "r\<lparr>ur_pending := sat_add_u32 (ur_pending r) (as_u32 (length data))\<rparr>" h f data es]])
      (simp_all add: g)
  moreover have "ucore_of ?w = ucore_of (up_put_route i (r\<lparr>ur_pending := sat_add_u32 (ur_pending r) (as_u32 (length data))\<rparr>) u)"
    by simp
  ultimately have told: "up_steps h f k ((ucore_of ?v)\<lparr>q_heard := ?hs\<rparr>)" using up_then_one [OF s] by simp
  let ?fin = "and_then (up_apply_stream_event i (RecvData es) ?v) (\<lambda>_ u3. (Inr (), if es then forget i u3 else u3))"
  have "answered (ur_events r, ur_request r) (ur_client_id r) (ucore_of ?v)" if es
    unfolding answered_def by (rule disjI1, rule exI [of _ "EvData (ur_client_id r) data es"]) (use that in simp)
  then have "settled i (ucore_of ?v)" if es
    using i that by (simp add: settled_def update_conv)
  then have "up_steps h f (ucore_of ?v) (ucore_of (snd ?fin))" by (intro apply_then_forget) simp_all
  moreover have "u_received (snd ?fin) = u_received u" by (rule received_then) simp_all
  ultimately have "up_steps h f ((ucore_of ?v)\<lparr>q_heard := ?hs\<rparr>) ((ucore_of (snd ?fin))\<lparr>q_heard := ?hs\<rparr>)"
    by (intro deaf) simp_all
  from up_all_from [OF told this]
  show "up_steps h f k ((ucore_of (snd (recv_live_body i data es u)))\<lparr>q_heard := ?hs\<rparr>)"
    using r by (simp add: recv_live_body_def Let_def)
qed

lemma recv_stray_body_hears:
  assumes s: "up_steps h f k ((ucore_of u)\<lparr>q_heard := heard_of (u_received u) @ [(i, data)]\<rparr>)"
    and r: "up_route_of i u = None" and i: "i \<le> highest_local_id (u_streams u)"
  shows "up_hears h f k (heard_of (u_received u) @ [(i, data)]) (recv_live_body i data es u)"
proof (rule up_hears_all)
  let ?v = "on_summary (count_received (as_u32 (length data))) u"
  let ?fin = "and_then (up_apply_stream_event i (RecvData es) ?v) (\<lambda>_ u3. (Inr (), if es then forget i u3 else u3))"
  have "settled i (ucore_of ?v)" using i r by (simp add: settled_def up_route_of_def)
  then have "up_steps h f (ucore_of ?v) (ucore_of (snd ?fin))" by (intro apply_then_forget) simp_all
  moreover have "u_received (snd ?fin) = u_received u" by (rule received_then) simp_all
  ultimately have "up_steps h f ((ucore_of ?v)\<lparr>q_heard := heard_of (u_received u) @ [(i, data)]\<rparr>)
      ((ucore_of (snd ?fin))\<lparr>q_heard := heard_of (u_received u) @ [(i, data)]\<rparr>)"
    by (intro deaf) simp_all
  with s have "up_steps h f k ((ucore_of (snd ?fin))\<lparr>q_heard := heard_of (u_received u) @ [(i, data)]\<rparr>)"
    by (simp add: rtranclp_trans)
  then show "up_steps h f k ((ucore_of (snd (recv_live_body i data es u)))\<lparr>q_heard := heard_of (u_received u) @ [(i, data)]\<rparr>)"
    using r by (simp add: recv_live_body_def Let_def)
qed

lemma get_wiped [simp]: "get_stream j (wipe i t) = (if j = i then None else get_stream j t)"
  by (simp add: wipe_def take_reclaimed_def get_stream_def)
    (metis get_retire get_stream_def)

lemma live_below: "local_role t \<Longrightarrow> lookup_stream i t = LookupLive s \<Longrightarrow> get_stream i t = Some s \<and> i \<le> highest_local_id t"
  using table_inv_live [of t i s]
  by (auto simp: local_role_def lookup_stream_def get_stream_def entry_ok_def max_def split: option.splits if_splits)

lemma closed_below: "local_role t \<Longrightarrow> lookup_stream i t = LookupClosed \<Longrightarrow> get_stream i t = None \<and> i \<le> highest_local_id t"
  by (auto simp: local_role_def lookup_stream_def get_stream_def max_def split: option.splits if_splits)

lemma map_code_simps: "is_ok (map_code r) = is_ok r" "(map_code r = Inr a) = (r = Inr a)"
  by (cases r; simp add: map_code_def)+

lemma up_recv_data_hears:
  assumes role: "local_role (u_streams u)" and ids: "ids_ok (ucore_of u)"
  shows "up_hears h f (ucore_of u) (heard_of (u_received u) @ [(i, data)]) (up_recv_data i data es u)"
proof -
  let ?n = "as_u32 (length data)" and ?hs = "heard_of (u_received u) @ [(i, data)]"
  obtain r w where rec: "recv_record ?n (u_recv_window u) = (r, w)" by (cases "recv_record ?n (u_recv_window u)")
  let ?u1 = "u\<lparr>u_recv_window := w\<rparr>"
  have dies: "up_hears h f (ucore_of u) ?hs (Inl e, ?u1)" for e :: connection_error
    by (rule up_hears_error) (use up_one [OF fatal [where f = f and h = h and k = "ucore_of u" and w = w and hs = ?hs]] in simp)
  show ?thesis
  proof (cases r)
    case (Inl e)
    then show ?thesis using dies by (simp add: up_recv_data_def rec map_code_def Let_def)
  next
    case (Inr x)
    have rec': "recv_record ?n (q_recv (ucore_of u)) = (Inr (), w)" using rec Inr by simp
    have e: "up_recv_data i data es u = (case lookup_stream i (u_streams u) of
        LookupIdle \<Rightarrow> (Inl (ConnectionError ProtocolError), ?u1)
      | LookupClosed \<Rightarrow> up_release_conn ?n ?u1
      | LookupLive s \<Rightarrow>
          (case recv_record ?n (st_recv_window s) of (overspent, sw) \<Rightarrow>
             let u2 = up_put i (s\<lparr>st_recv_window := sw\<rparr>) ?u1 in
             if \<not> is_ok overspent
             then and_then (up_write_rst_stream i FlowControlError u2) (\<lambda>_. fail_stream i 502)
             else recv_live_body i data es u2))"
      by (simp add: up_recv_data_def rec Inr map_code_def Let_def)
    show ?thesis
    proof (cases "lookup_stream i (u_streams u)")
      case LookupIdle
      then show ?thesis using dies by (simp add: e)
    next
      case LookupClosed
      note c = closed_below [OF role LookupClosed]
      have "up_steps h f (ucore_of u) (ucore_of (snd (up_release_conn ?n ?u1)))"
        by (rule up_release_conn_steps) (use up_one [OF discards [OF rec', of h f]] in simp)
      from deaf [OF this, of ?hs]
      have s: "up_steps h f ((ucore_of u)\<lparr>q_heard := ?hs\<rparr>) ((ucore_of (snd (up_release_conn ?n ?u1)))\<lparr>q_heard := ?hs\<rparr>)" by simp
      have "up_core_step h f (ucore_of u) ((ucore_of u)\<lparr>q_heard := ?hs\<rparr>)"
        using drops [of i "ucore_of u" h f data] c by simp
      from converse_rtranclp_into_rtranclp [OF this s] show ?thesis by (simp add: e LookupClosed up_hears_all)
    next
      case (LookupLive s)
      note l = live_below [OF role LookupLive]
      obtain ov sw where srec: "recv_record ?n (st_recv_window s) = (ov, sw)" by (cases "recv_record ?n (st_recv_window s)")
      let ?u2 = "up_put i (s\<lparr>st_recv_window := sw\<rparr>) ?u1"
      show ?thesis
      proof (cases "is_ok ov")
        case True
        have g: "get_stream i (u_streams ?u2) = Some (s\<lparr>st_recv_window := sw\<rparr>)" by simp
        have b: "ids_ok (ucore_of ?u2)" "i \<le> highest_local_id (u_streams ?u2)" using ids l by (simp_all add: ids_ok_def)
        have "up_hears h f (ucore_of u) ?hs (recv_live_body i data es ?u2)"
        proof (cases "up_route_of i u")
          case None
          have "up_steps h f (ucore_of u) ((ucore_of ?u2)\<lparr>q_heard := ?hs\<rparr>)"
            by (rule up_one, rule step_eq [OF strays [of i "ucore_of u" s ?n w h f data]])
              (use None l srec rec' in \<open>simp_all add: up_route_of_def\<close>)
          then have "up_steps h f (ucore_of u) ((ucore_of ?u2)\<lparr>q_heard := heard_of (u_received ?u2) @ [(i, data)]\<rparr>)" by simp
          from recv_stray_body_hears [OF this _ b(2)] None show ?thesis by (simp add: up_route_of_def)
        next
          case (Some rt)
          have "up_steps h f (ucore_of u) (ucore_of (up_put_route i (rt\<lparr>ur_pending := sat_add_u32 (ur_pending rt) ?n\<rparr>) ?u2))"
            by (rule up_one, rule step_eq [OF receives [of i "ucore_of u" s rt ?n w h f]])
              (use Some l srec rec' in \<open>simp_all add: up_route_of_def\<close>)
          from recv_live_body_hears [OF this _ g b] Some show ?thesis by (simp add: up_route_of_def)
        qed
        then show ?thesis using True by (simp add: e LookupLive srec)
      next
        case False
        let ?u3 = "?u2\<lparr>u_streams := wipe i (u_streams ?u2), u_ready := filter (\<lambda>j. j \<noteq> i) (u_ready ?u2)\<rparr>"
        obtain bs where q: "0 < length bs" "up_queue_frame (RstStream i FlowControlError) ?u3
            = (Inr (), ?u3\<lparr>u_out := u_out ?u3 @ bs, u_frames := u_frames ?u3 @ [RstStream i FlowControlError]\<rparr>)"
          by (rule up_queue_small [OF small_frames(1)])
        let ?u4 = "?u3\<lparr>u_out := u_out ?u3 @ bs, u_frames := u_frames ?u3 @ [RstStream i FlowControlError]\<rparr>"
        have o3: "u_frames ?u3 = u_frames u" "u_out ?u3 = u_out u" by (simp_all add: up_put_def)
        have c4: "ucore_of ?u4 = (ucore_of u)\<lparr>q_recv := w, q_streams := wipe i (put_stream i (s\<lparr>st_recv_window := sw\<rparr>) (u_streams u)),
            q_frames := u_frames u @ [RstStream i FlowControlError], q_out := length (u_out u) + length bs\<rparr>"
          using up_core_queued [where u = ?u3 and bs = bs and f = "RstStream i FlowControlError"] o3 by simp
        then have s4: "up_steps h f (ucore_of u) (ucore_of ?u4)"
          using up_one [OF overruns [of i "ucore_of u" s ?n w "length bs" h f sw]] rec' l q(1) by simp
        have "up_core_step h f (ucore_of ?u4) ((ucore_of ?u4)\<lparr>q_heard := ?hs\<rparr>)"
          by (rule step_eq [OF drops [of i "ucore_of ?u4" h f data]]) (use l in \<open>simp_all add: up_put_def\<close>)
        from up_then_one [OF s4 this] have s5: "up_steps h f (ucore_of u) ((ucore_of ?u4)\<lparr>q_heard := ?hs\<rparr>)" .
        have "u_received (snd (fail_stream i 502 ?u4)) = u_received u" by (simp add: up_put_def)
        then have "up_steps h f ((ucore_of ?u4)\<lparr>q_heard := ?hs\<rparr>) ((ucore_of (snd (fail_stream i 502 ?u4)))\<lparr>q_heard := ?hs\<rparr>)"
          by (intro deaf [OF fail_stream_all]) (simp add: up_put_def)
        from up_hears_all [OF up_all_from [OF s5 this]] show ?thesis
          using False q(2) by (simp add: e LookupLive srec up_write_rst_stream_def wipe_def Let_def)
      qed
    qed
  qed
qed

lemma up_recv_window_update_ok:
  assumes "\<not> is_connection i"
  shows "up_steps h f (ucore_of u) (ucore_of (snd (up_recv_window_update i inc u)))"
proof (cases "inc = 0 \<or> (\<forall>s. lookup_stream i (u_streams u) \<noteq> LookupLive s)")
  case True
  then show ?thesis
    using assms up_rst_steps by (auto simp: up_recv_window_update_def split: lookup_result.split)
next
  case False
  then obtain s where s: "lookup_stream i (u_streams u) = LookupLive s" "inc \<noteq> 0" by blast
  obtain r w where i: "increase (unat inc) (st_send_window s) = (r, w)" by (cases "increase (unat inc) (st_send_window s)")
  have "get_stream i (q_streams (ucore_of u)) = Some s"
    using s(1) by (auto simp: lookup_stream_def get_stream_def split: option.splits if_splits)
  from up_one [OF credits_stream [OF this, of h f "unat inc"]]
  have p: "up_steps h f (ucore_of u) (ucore_of (up_put i (s\<lparr>st_send_window := w\<rparr>) u))" by (simp add: i)
  show ?thesis
    using assms s i up_all_from [OF p up_rst_steps] up_all_from [OF p up_enqueue_steps]
    by (simp add: up_recv_window_update_def Let_def)
qed

lemma up_recv_settings_steps: "up_steps h f (ucore_of u) (ucore_of (snd (up_recv_settings params u)))"
proof -
  obtain r s where a: "settings_apply params (u_peer_settings u) = (r, s)" by (cases "settings_apply params (u_peer_settings u)")
  show ?thesis
  proof (cases r)
    case (Inl e)
    then show ?thesis by (simp add: up_recv_settings_def a)
  next
    case (Inr x)
    define u2 where "u2 = u\<lparr>u_peer_settings := s, u_hpack_enc := set_max_table_size (unat (header_table_size s)) (u_hpack_enc u)\<rparr>"
    define u3 where "u3 = (case max_concurrent_streams s of None \<Rightarrow> u2
       | Some m \<Rightarrow> on_record (set_record_max_concurrent (unat m)) (u2\<lparr>u_streams := set_max_concurrent (unat m) (u_streams u2)\<rparr>))"
    define d where "d = int (unat (initial_window_size s)) - int (unat (initial_window_size (u_peer_settings u)))"
    have p3: "u_peer_settings u3 = s" by (simp add: u3_def u2_def on_record_def split: option.split)
    have "ucore_of u2 = ucore_of u" "u_streams u2 = u_streams u" by (simp_all add: u2_def)
    then have 3: "up_steps h f (ucore_of u) (ucore_of u3)"
      using up_one [OF limits [of h f "ucore_of u"]] by (simp add: u3_def split: option.split)
    let ?r = "if d \<noteq> 0 then (case apply_initial_window_delta (as_i32 d) (u_streams u3) of
                 (r, t) \<Rightarrow> (map_code r, u3\<lparr>u_streams := t\<rparr>)) else (Inr (), u3)"
    have e: "up_recv_settings params u = and_then ?r (\<lambda>_ u4. and_then (up_queue_frame (SettingsFrame True []) u4)
              (\<lambda>_ u5. (Inr (), on_summary (\<lambda>s. s\<lparr>us_handshake_completed := True\<rparr>) u5)))"
    proof -
      have "up_recv_settings params u = (let delta = int (unat (initial_window_size (u_peer_settings u3)))
            - int (unat (initial_window_size (u_peer_settings u))) in
          and_then (if delta \<noteq> 0 then (case apply_initial_window_delta (as_i32 delta) (u_streams u3) of
                 (r, t) \<Rightarrow> (map_code r, u3\<lparr>u_streams := t\<rparr>)) else (Inr (), u3))
            (\<lambda>_ u4. and_then (up_queue_frame (SettingsFrame True []) u4)
              (\<lambda>_ u5. (Inr (), on_summary (\<lambda>s. s\<lparr>us_handshake_completed := True\<rparr>) u5))))"
        unfolding up_recv_settings_def u3_def u2_def a Inr
        by (cases "max_concurrent_streams s") (simp_all add: Let_def)
      then show ?thesis unfolding p3 d_def by (simp add: Let_def)
    qed
    have 4: "up_steps h f (ucore_of u) (ucore_of (snd ?r))"
      using 3 up_then_one [OF 3 resizes [of "as_i32 d" "ucore_of u3" _ _ h f]]
      by (cases "apply_initial_window_delta (as_i32 d) (u_streams u3)") simp
    show ?thesis
      unfolding e
    proof (rule up_all_then [OF 4], rule up_all_then)
      fix a u4 assume s4: "up_steps h f (ucore_of u) (ucore_of u4)"
      show "up_steps h f (ucore_of u) (ucore_of (snd (up_queue_frame (SettingsFrame True []) u4)))"
        by (rule up_all_from [OF s4 up_queue_steps]) simp
    qed simp
  qed
qed

lemma up_recv_rst_steps: "up_steps h f (ucore_of u) (ucore_of (up_recv_rst i code u))"
proof -
  let ?v = "case up_route_of i u of None \<Rightarrow> u
     | Some r \<Rightarrow> on_summary count_up_reset (tell (ur_events r, ur_request r) (EvReset (ur_client_id r) code) u)"
  have "up_steps h f (ucore_of u) (ucore_of ?v)"
    using told_steps [of _ h f u] by (simp split: option.split)
  moreover have "up_steps h f (ucore_of ?v) (ucore_of (forget i ?v))"
    by (rule forget_all, rule drop_answered) (auto simp: answered_def up_route_of_def on_summary_def split: option.splits)
  ultimately show ?thesis unfolding up_recv_rst_def by (rule up_all_from)
qed

text \<open>The connection window is credited by the frame in hand, which is recorded once it is handled.\<close>

lemma up_conn_credit:
  assumes "is_connection i"
  obtains (failed) e where "fst (up_recv_window_update i inc u) = Inl e" "ucore_of (snd (up_recv_window_update i inc u)) = ucore_of u"
  | (credited) v where "up_recv_window_update i inc u = (Inr (), u\<lparr>u_send_window := v\<rparr>)"
      "increase (unat inc) (u_send_window u) = (Inr (), v)"
proof (cases "inc = 0")
  case True
  then show ?thesis using assms failed by (simp add: up_recv_window_update_def)
next
  case False
  obtain r w where i: "increase (unat inc) (u_send_window u) = (r, w)" by (cases "increase (unat inc) (u_send_window u)")
  show ?thesis
  proof (cases r)
    case (Inl e)
    have "w = u_send_window u" using i Inl by (auto simp: increase_def Let_def split: if_splits)
    moreover have "(ucore_of u)\<lparr>q_send := u_send_window u\<rparr> = ucore_of u" by (simp add: ucore_of_def)
    ultimately show ?thesis
      using False assms i Inl failed by (simp add: up_recv_window_update_def map_code_def)
  next
    case (Inr x)
    then show ?thesis using False assms i credited by (simp add: up_recv_window_update_def map_code_def)
  qed
qed

lemma up_frame_action_ok:
  assumes "ids_ok (ucore_of u)" "conn_increment fr = 0" "heard_of [fr] = []"
  shows "up_ok h f (ucore_of u) (up_frame_action now fr u)"
proof (cases fr)
  case (Ping data ack)
  have "up_steps h f (ucore_of u) (ucore_of (snd (up_queue_frame (Ping data True) u)))" by (rule up_queue_steps) simp
  from up_ok_all [OF this] show ?thesis using Ping by simp
next
  case (WindowUpdate i inc)
  show ?thesis
  proof (cases "is_connection i")
    case True
    then have "inc = 0" using assms(2) WindowUpdate by (simp add: unat_eq_0)
    then show ?thesis using True WindowUpdate by (simp add: up_recv_window_update_def)
  next
    case False
    from up_ok_all [OF up_recv_window_update_ok [OF this]] show ?thesis using WindowUpdate by simp
  qed
next
  case (Headers i block es eh)
  let ?u = "if u_open_header_block u = None then u\<lparr>u_open_header_end_stream := es\<rparr> else u"
  have "ucore_of ?u = ucore_of u" by simp
  with up_read_header_block_steps [of ?u h f i block eh] assms(1)
  have "up_steps h f (ucore_of u) (ucore_of (snd (up_read_header_block i block eh ?u)))" by (simp only:)
  from up_ok_all [OF this] show ?thesis using Headers by simp
next
  case (Continuation i block eh)
  from up_ok_all [OF up_read_header_block_steps [OF assms(1)]] show ?thesis using Continuation by simp
next
  case (SettingsFrame ack params)
  from up_ok_all [OF up_recv_settings_steps] show ?thesis using SettingsFrame by simp
qed (use assms(3) in \<open>simp_all add: up_recv_rst_steps begin_peer_drain_steps\<close>)

lemma heard_snoc [simp]: "heard_of (fs @ [fr]) = heard_of fs @ heard_of [fr]"
  by (induction fs rule: heard_of.induct) (cases fr; simp)+

lemma credited_snoc [simp]: "credit_received (fs @ [fr]) = credit_received fs + conn_increment fr"
  by (simp add: credit_received_def)

lemma received_data: "u_received (snd (up_recv_data i data es u)) = u_received u"
proof -
  have body: "u_received (snd (recv_live_body i data es v)) = u_received v" for v
    unfolding recv_live_body_def Let_def by (rule received_then) (auto split: option.split)
  have over: "u_received (snd (and_then (up_write_rst_stream i FlowControlError v) (\<lambda>_. fail_stream i 502))) = u_received v" for v
    by (rule received_then) simp_all
  show ?thesis
    unfolding up_recv_data_def Let_def
    by (auto simp: body over split: prod.split lookup_result.split intro!: received_then)
qed

text \<open>What a success of \<open>up_handle_frame\<close> adds: the frame, which may be credit, DATA, or neither.\<close>

lemma up_handle_frame_ok:
  assumes "local_role (u_streams u)" "ids_ok (ucore_of u)"
  shows "up_ok h f (ucore_of u) (up_handle_frame now fr u)"
proof (cases "up_block_order_ok fr u")
  case True
  let ?note = "\<lambda>u1. u1\<lparr>u_open_header_block := block_after fr (u_open_header_block u1), u_received := u_received u1 @ [fr]\<rparr>"
  have e: "up_handle_frame now fr u = and_then (up_frame_action now fr u) (\<lambda>_ u1. (Inr True, ?note u1))"
    using True by (simp add: up_handle_frame_def)
  consider (data) i data es where "fr = Data i data es" | (credit) i inc where "fr = WindowUpdate i inc" "is_connection i"
    | (other) "conn_increment fr = 0" "heard_of [fr] = []"
    by (cases fr; cases "conn_increment fr = 0 \<and> heard_of [fr] = []") (auto split: if_splits)
  then show ?thesis
  proof cases
    case (data i d es)
    obtain x u1 where a: "up_recv_data i d es u = (x, u1)" by (cases "up_recv_data i d es u")
    have "f \<or> is_ok x \<longrightarrow> up_steps h f (ucore_of u) ((ucore_of u1)\<lparr>q_heard := heard_of (u_received u) @ [(i, d)]\<rparr>)"
      using up_recv_data_hears [OF assms, of h f i d es] a by (simp add: up_hears_def)
    then have s: "f \<or> is_ok x \<Longrightarrow> up_steps h f (ucore_of u) ((ucore_of u1)\<lparr>q_heard := heard_of (u_received u) @ [(i, d)]\<rparr>)" by blast
    have same: "u_received u1 = u_received u" using received_data [of i d es u] a by simp
    show ?thesis
    proof (cases x)
      case (Inl err)
      have "up_steps h f (ucore_of u) (ucore_of u1)" if f
      proof -
        have "up_core_step h f ((ucore_of u1)\<lparr>q_heard := heard_of (u_received u) @ [(i, d)]\<rparr>) (ucore_of u1)"
          by (rule step_eq [OF fatal [where w = "u_recv_window u1" and hs = "heard_of (u_received u1)"]])
            (simp_all add: that ucore_of_def)
        from up_then_one [OF s this] that show ?thesis by simp
      qed
      then show ?thesis using e data a Inl by simp
    next
      case (Inr y)
      have "ucore_of (?note u1) = (ucore_of u1)\<lparr>q_heard := heard_of (u_received u) @ [(i, d)]\<rparr>"
        using data same by (simp add: ucore_of_def)
      with s show ?thesis using e data a Inr by (simp del: ucore_moved)
    qed
  next
    case (credit i inc)
    show ?thesis
    proof (cases rule: up_conn_credit [OF credit(2), of inc u])
      case (1 err)
      then show ?thesis using e credit(1)
        by (cases "up_recv_window_update i inc u") simp
    next
      case (2 v)
      have "up_core_step h f (ucore_of u) ((ucore_of u)\<lparr>q_credited := q_credited (ucore_of u) + unat inc, q_send := v\<rparr>)"
        by (rule credits_conn) (use 2 in simp)
      then show ?thesis
        unfolding e using credit 2 up_one by (simp add: ucore_of_def)
    qed
  next
    case other
    have n: "ucore_of (?note u1) = ucore_of u1" for u1 using other by (simp add: ucore_of_def)
    show ?thesis
      unfolding e by (rule up_ok_then [OF up_frame_action_ok [OF assms(2) other]]) (simp add: n del: ucore_moved)
  qed
qed (simp add: up_handle_frame_def)

subsection \<open>The sender\<close>

lemma consume_sendable: "0 < n \<Longrightarrow> n \<le> sendable w \<Longrightarrow> \<exists>v. consume n w = (Inr (), v)"
  by (auto simp: consume_def sendable_def split: if_splits)

lemma up_data_written:
  assumes "length data \<le> send_budget"
  obtains bs where "0 < length bs" "up_queue_frame (Data i data es) u
      = (Inr (), u\<lparr>u_out := u_out u @ bs, u_frames := u_frames u @ [Data i data es]\<rparr>)"
  using up_queue_small [OF small_frames(3) [OF assms], of i es u] by blast

text \<open>Both windows are debited and the frame put in the queue; nothing of it can fail.\<close>

lemma up_spend_and_write:
  assumes g: "up_get i u = Some s" and inert: "inert s s1"
    and b: "length chunk \<le> send_budget" "length chunk \<le> sendable (st_send_window s)" "length chunk \<le> sendable (u_send_window u)"
  shows "up_steps h f (ucore_of u)
      (ucore_of (snd (and_then (up_spend_windows (length chunk) i s1 u) (\<lambda>_. up_write_data i chunk es))))"
proof (cases "chunk = []")
  case True
  have "up_steps h f (ucore_of u) (ucore_of (up_put i s1 u))"
    by (rule up_tweak) (use g inert in \<open>simp_all add: up_get_def\<close>)
  moreover have "up_steps h f (ucore_of v) (ucore_of (snd (up_write_data i [] es v)))" for v
  proof -
    have "up_steps h f (ucore_of v) (ucore_of (snd (and_then (up_queue_frame (Data i [] True) v)
        (\<lambda>_. up_apply_stream_event i (SendData True)))))"
    proof (rule up_all_then)
      show "up_steps h f (ucore_of v) (ucore_of (snd (up_queue_frame (Data i [] True) v)))" by (rule up_queue_steps) simp
    qed (rule up_all_from [OF _ up_apply_all])
    then show ?thesis by (simp add: up_write_data_def)
  qed
  ultimately have "up_steps h f (ucore_of u) (ucore_of (snd (up_write_data i [] es (up_put i s1 u))))" by (rule up_all_from)
  then show ?thesis using True by (simp add: up_spend_windows_def)
next
  case False
  have w1: "st_send_window s1 = st_send_window s" using inert by (simp add: inert_def)
  obtain w where w: "consume (length chunk) (st_send_window s) = (Inr (), w)" using consume_sendable b(2) False by blast
  obtain v where v: "consume (length chunk) (u_send_window u) = (Inr (), v)" using consume_sendable b(3) False by blast
  let ?u2 = "(up_put i (s1\<lparr>st_send_window := w\<rparr>) u)\<lparr>u_send_window := v\<rparr>"
  obtain bs where q: "0 < length bs" "up_queue_frame (Data i chunk es) ?u2
      = (Inr (), ?u2\<lparr>u_out := u_out ?u2 @ bs, u_frames := u_frames ?u2 @ [Data i chunk es]\<rparr>)"
    by (rule up_data_written [OF b(1)])
  let ?u3 = "?u2\<lparr>u_out := u_out ?u2 @ bs, u_frames := u_frames ?u2 @ [Data i chunk es]\<rparr>"
  have o2: "u_frames ?u2 = u_frames u" "u_out ?u2 = u_out u" by (simp_all add: up_put_def)
  have "get_stream i (q_streams (ucore_of u)) = Some s" using g by (simp add: up_get_def)
  from sends [OF this w inert _ q(1), of v h f es] v
  have "up_core_step h f (ucore_of u) ((ucore_of u)\<lparr>q_streams := put_stream i (s1\<lparr>st_send_window := w\<rparr>) (u_streams u),
      q_send := v, q_frames := u_frames u @ [Data i chunk es], q_out := length (u_out u) + length bs\<rparr>)" by simp
  moreover have "ucore_of ?u3 = (ucore_of u)\<lparr>q_streams := put_stream i (s1\<lparr>st_send_window := w\<rparr>) (u_streams u),
      q_send := v, q_frames := u_frames u @ [Data i chunk es], q_out := length (u_out u) + length bs\<rparr>"
    using up_core_queued [where u = ?u2 and bs = bs and f = "Data i chunk es"] o2 by simp
  ultimately have "up_steps h f (ucore_of u) (ucore_of ?u3)" using up_one by simp
  from up_all_from [OF this up_apply_all] show ?thesis
    using False q(2) by (simp add: up_spend_windows_def w1 w v map_code_def up_write_data_def)
qed

lemma up_credit_steps: "up_steps h f (ucore_of u) (ucore_of (up_credit_client i n u))"
  using told_steps [of _ h f u] by (simp add: up_credit_client_def split: option.split)

lemma up_trailers_steps: "up_steps h f (ucore_of u) (ucore_of (snd (up_write_trailers i tr u)))"
proof (cases tr)
  case (Some flds)
  obtain block u1 where b: "up_encode_block flds u = (block, u1)" by (cases "up_encode_block flds u")
  have "up_steps h f (ucore_of u) (ucore_of (snd (and_then (up_queue_frame (Headers i block True True) u1)
      (\<lambda>_. up_apply_stream_event i (SendHeaders True)))))"
  proof (rule up_all_then)
    show "up_steps h f (ucore_of u) (ucore_of (snd (up_queue_frame (Headers i block True True) u1)))"
      using up_queue_steps [of "Headers i block True True" h f u1] up_encode_core(1) [OF b] by simp
  qed (rule up_all_from [OF _ up_apply_all])
  then show ?thesis by (simp add: up_write_trailers_def Some b)
qed (simp add: up_write_trailers_def)

end
