(* ===== verification/Upstream_Loop.thy ===== *)
theory Upstream_Loop
  imports Upstream_Frames
begin

section \<open>The loop of a connection to a backend\<close>

text \<open>
  \<^verbatim>\<open>pump_outbound\<close>, \<^verbatim>\<open>probe_timer\<close>, \<^verbatim>\<open>tick\<close>, \<^verbatim>\<open>drive\<close> and \<^verbatim>\<open>run\<close>. The sender's loop ends because a lap that
  got somewhere either put octets in the write queue, which is bounded, or left the ring shorter. As
  for a client's connection, the two loops of \<^verbatim>\<open>drive\<close> are given as their steps, in any order.
\<close>

subsection \<open>A visit as core steps\<close>

lemma up_visit_cases:
  obtains (gone) "up_get i u = None" "up_visit_ready_stream i u = (Inr (Some False), u)"
  | (stalled) s where "up_get i u = Some s"
      "up_visit_ready_stream i u = (Inr None, up_put i (s\<lparr>st_queued := False\<rparr>) u)"
  | (idle) s s1 where "up_get i u = Some s" "inert s s1"
      "up_visit_ready_stream i u = (Inr (Some False), up_put i s1 u)"
  | (emits) s chunk es tr s1 where "up_get i u = Some s" "inert s s1"
      "length chunk \<le> send_budget" "length chunk \<le> sendable (st_send_window s)" "length chunk \<le> sendable (u_send_window u)"
      "chunk \<noteq> [] \<or> es \<or> tr \<noteq> None"
      "up_visit_ready_stream i u = up_visit_emit i chunk es tr s1 u"
proof (cases "up_get i u")
  case None
  then show ?thesis by (intro gone) (simp_all add: up_visit_ready_stream_def)
next
  case (Some s)
  let ?s = "s\<lparr>st_queued := False\<rparr>" and ?b = "up_visit_budget s u"
  have q: "pending_send ?s = pending_send s" "up_visit_budget ?s u = ?b"
    by (simp_all add: pending_send_def up_visit_budget_def)
  obtain chunk es tr s1 where tk: "visit_take ?s ?b = (chunk, es, tr, s1)" by (cases "visit_take ?s ?b") auto
  have i1: "inert s s1" using visit_take_inert [OF tk] by (simp add: inert_def)
  obtain q' where "take_from_queue (st_send_queue ?s) ?b = (chunk, q')"
    using tk by (cases "take_from_queue (st_send_queue ?s) ?b") (auto simp: visit_take_def Let_def)
  then have len: "length chunk \<le> ?b" using take_from_queue_lengths by blast
  have v: "up_visit_ready_stream i u = (if pending_send s > 0 \<and> ?b = 0 then (Inr None, up_put i ?s u)
      else if chunk = [] \<and> \<not> es \<and> tr = None then (Inr (Some False), up_put i s1 u) else up_visit_emit i chunk es tr s1 u)"
    by (simp add: up_visit_ready_stream_def Some Let_def q tk)
  consider "pending_send s > 0 \<and> ?b = 0" | "\<not> (pending_send s > 0 \<and> ?b = 0)" "chunk = [] \<and> \<not> es \<and> tr = None"
    | "\<not> (pending_send s > 0 \<and> ?b = 0)" "chunk \<noteq> [] \<or> es \<or> tr \<noteq> None" by blast
  then show ?thesis
  proof cases
    case 1
    then show ?thesis using stalled [OF Some] v by simp
  next
    case 2
    then show ?thesis using idle [OF Some i1] v by simp
  next
    case 3
    have e: "up_visit_ready_stream i u = up_visit_emit i chunk es tr s1 u" using 3 v by (auto simp del: not_None_eq)
    show ?thesis by (rule emits [OF Some i1 _ _ _ 3(2) e]) (use len in \<open>simp_all add: up_visit_budget_def\<close>)
  qed
qed

lemma up_visit_emit_steps:
  assumes "up_get i u = Some s" "inert s s1"
    and "length chunk \<le> send_budget" "length chunk \<le> sendable (st_send_window s)" "length chunk \<le> sendable (u_send_window u)"
  shows "up_steps h f (ucore_of u) (ucore_of (snd (up_visit_emit i chunk es tr s1 u)))"
proof -
  let ?fin = "\<lambda>u3. (Inr (Some (case up_get i u3 of None \<Rightarrow> False | Some s' \<Rightarrow> has_pending_send s')), u3)"
  have "up_steps h f (ucore_of u) (ucore_of (snd
      (and_then (and_then (up_spend_windows (length chunk) i s1 u) (\<lambda>_. up_write_data i chunk es)) (\<lambda>_ u2.
        and_then (up_write_trailers i tr (up_credit_client i (length chunk) u2)) (\<lambda>_. ?fin)))))"
  proof (rule up_all_then [OF up_spend_and_write [OF assms]])
    fix a u2 assume s2: "up_steps h f (ucore_of u) (ucore_of u2)"
    show "up_steps h f (ucore_of u) (ucore_of (snd (and_then (up_write_trailers i tr (up_credit_client i (length chunk) u2)) (\<lambda>_. ?fin))))"
      by (rule up_all_then) (use up_all_from [OF up_all_from [OF s2 up_credit_steps] up_trailers_steps] in simp_all)
  qed
  then show ?thesis by (simp add: up_visit_emit_def and_then_assoc)
qed

lemma up_visit_steps: "up_steps h f (ucore_of u) (ucore_of (snd (up_visit_ready_stream i u)))"
proof (cases rule: up_visit_cases [of i u])
  case (stalled s)
  then show ?thesis using up_tweak [of i u s] by (simp add: up_get_def inert_def)
next
  case (idle s s1)
  then show ?thesis using up_tweak [of i u s s1] by (simp add: up_get_def)
next
  case (emits s chunk es tr s1)
  from up_visit_emit_steps [OF emits(1-5)] show ?thesis by (simp add: emits(7))
qed simp

lemma up_visit_lap_steps: "up_steps h f (ucore_of u) (ucore_of (snd (up_visit_lap lap st sv w u)))"
proof (induction lap arbitrary: st sv w u)
  case (Cons i lap)
  show ?case
    unfolding up_visit_lap.simps
  proof (rule up_all_then [OF up_visit_steps])
    fix v u1 assume s: "up_steps h f (ucore_of u) (ucore_of u1)"
    show "up_steps h f (ucore_of u) (ucore_of (snd ((case v of
         Some True \<Rightarrow> up_visit_lap lap st (sv @ [i]) True
       | Some False \<Rightarrow> up_visit_lap lap st sv True
       | None \<Rightarrow> up_visit_lap lap (st @ [i]) sv w) u1)))"
      by (rule up_all_from [OF s]) (auto simp: Cons.IH split: option.split bool.split)
  qed
qed simp

lemma up_rebuild_steps: "up_steps h f (ucore_of u) (ucore_of (up_rebuild_ring ring u))"
proof -
  have mark: "up_steps h f (ucore_of d) (ucore_of (up_mark_queued i d))" for i d
    using up_tweak [of i d _ "_\<lparr>st_queued := True\<rparr>" h f] by (simp add: up_mark_queued_def up_get_def inert_def split: option.split)
  have "up_steps h f (ucore_of d) (ucore_of (fold up_mark_queued is d))" for "is" d
  proof (induction "is" arbitrary: d)
    case (Cons i "is")
    from up_all_from [OF mark Cons.IH] show ?case by simp
  qed simp
  from this [of "u\<lparr>u_ready := ring\<rparr>" ring] show ?thesis by (simp add: up_rebuild_ring_def Let_def)
qed

lemma up_lap_steps: "up_steps h f (ucore_of u) (ucore_of (snd (up_pump_lap u)))"
  unfolding up_pump_lap_def
proof (rule up_all_then)
  show "up_steps h f (ucore_of u) (ucore_of (snd (up_visit_lap (u_ready u) [] [] False (u\<lparr>u_ready := []\<rparr>))))"
    using up_visit_lap_steps [of h f "u\<lparr>u_ready := []\<rparr>"] by simp
next
  fix a u1 assume s: "up_steps h f (ucore_of u) (ucore_of u1)"
  from up_all_from [OF s up_rebuild_steps]
  show "up_steps h f (ucore_of u) (ucore_of (snd ((case a of (stalled, served, wrote) \<Rightarrow> \<lambda>u1.
      (Inr wrote, up_rebuild_ring (stalled @ served) u1)) u1)))"
    by (cases a) simp
qed

subsection \<open>What a lap achieves\<close>

lemma out_mono: "up_steps h f k k' \<Longrightarrow> q_out k \<le> q_out k'"
proof (induction rule: rtranclp_induct)
  case (step k' k'')
  from step(2) have "q_out k' \<le> q_out k''" by cases (simp_all add: dropped_route_def)
  with step(3) show ?case by simp
qed simp

lemma out_grows: "up_steps h f (ucore_of u) (ucore_of u') \<Longrightarrow> length (u_out u) \<le> length (u_out u')"
  using out_mono [of h f "ucore_of u" "ucore_of u'"] by simp

lemma queue_grows: "up_queue_frame f u = (Inr x, u') \<Longrightarrow> length (u_out u) < length (u_out u')"
  by (cases rule: up_queue_cases [of f u]) auto

lemma up_write_data_grows:
  assumes "up_write_data i chunk es u = (Inr x, u')"
  shows "length (u_out u) \<le> length (u_out u')" "chunk \<noteq> [] \<or> es \<Longrightarrow> length (u_out u) < length (u_out u')"
proof -
  have *: "length (u_out u) < length (u_out u')" if c: "chunk \<noteq> [] \<or> es"
  proof -
    obtain u1 where q: "up_queue_frame (Data i chunk es) u = (Inr (), u1)"
      and a: "up_apply_stream_event i (SendData es) u1 = (Inr x, u')"
      using assms c by (auto simp: up_write_data_def elim!: and_then_Inr)
    show ?thesis
      using queue_grows [OF q] out_grows [OF up_apply_all [of True True u1 i "SendData es"]] a by simp
  qed
  then show "chunk \<noteq> [] \<or> es \<Longrightarrow> length (u_out u) < length (u_out u')" .
  show "length (u_out u) \<le> length (u_out u')"
    using * assms by (cases "chunk \<noteq> [] \<or> es") (auto simp: up_write_data_def)
qed

lemma up_write_trailers_grows:
  assumes "up_write_trailers i tr u = (Inr x, u')"
  shows "length (u_out u) \<le> length (u_out u')" "tr \<noteq> None \<Longrightarrow> length (u_out u) < length (u_out u')"
proof -
  have *: "length (u_out u) < length (u_out u')" if t: "tr = Some flds" for flds
  proof -
    obtain block u1 where b: "up_encode_block flds u = (block, u1)" by (cases "up_encode_block flds u")
    obtain u2 where q: "up_queue_frame (Headers i block True True) u1 = (Inr (), u2)"
      and a: "up_apply_stream_event i (SendHeaders True) u2 = (Inr x, u')"
      using assms t b by (auto simp: up_write_trailers_def elim!: and_then_Inr)
    have "u_out u1 = u_out u" using b by (auto simp: up_encode_block_def split: prod.splits)
    then show ?thesis
      using queue_grows [OF q] out_grows [OF up_apply_all [of True True u2 i "SendHeaders True"]] a by simp
  qed
  then show "tr \<noteq> None \<Longrightarrow> length (u_out u) < length (u_out u')" by auto
  show "length (u_out u) \<le> length (u_out u')" using * assms by (cases tr) (auto simp: up_write_trailers_def intro: less_imp_le)
qed


lemma up_credit_out [simp]: "u_out (up_credit_client i n u) = u_out u"
  by (simp add: up_credit_client_def tell_def split: option.split)

lemma up_visit_emit_grows:
  assumes "up_visit_emit i chunk es tr s1 u = (Inr x, u')" "chunk \<noteq> [] \<or> es \<or> tr \<noteq> None"
  shows "length (u_out u) < length (u_out u')"
proof -
  obtain u1 u2 where sp: "up_spend_windows (length chunk) i s1 u = (Inr (), u1)"
    and wd: "up_write_data i chunk es u1 = (Inr (), u2)"
    and tw: "up_write_trailers i tr (up_credit_client i (length chunk) u2) = (Inr (), u')"
    using assms(1) by (auto simp: up_visit_emit_def elim!: and_then_Inr)
  have "u_out u1 = u_out u"
    using sp by (auto simp: up_spend_windows_def up_put_def split: if_splits prod.splits elim!: and_then_Inr)
  then show ?thesis using up_write_data_grows [OF wd] up_write_trailers_grows [OF tw] assms(2) by auto
qed

lemma up_visit_grows:
  assumes "up_visit_ready_stream i u = (Inr (Some True), u')"
  shows "length (u_out u) < length (u_out u')"
proof (cases rule: up_visit_cases [of i u])
  case (emits s chunk es tr s1)
  then show ?thesis using up_visit_emit_grows assms by metis
qed (use assms in simp_all)

text \<open>A lap writes, or drops a stream from the ring, or has got nowhere.\<close>

lemma up_visit_lap_progress:
  assumes "up_visit_lap lap st sv w u = (Inr (st', sv', w'), u')"
  shows "length st' + length sv' \<le> length st + length sv + length lap"
    and "w' \<Longrightarrow> w \<or> length (u_out u) < length (u_out u') \<or> length st' + length sv' < length st + length sv + length lap"
proof -
  have "length st' + length sv' \<le> length st + length sv + length lap
    \<and> (w' \<longrightarrow> w \<or> length (u_out u) < length (u_out u') \<or> length st' + length sv' < length st + length sv + length lap)"
    using assms
  proof (induction lap arbitrary: st sv w u)
    case (Cons i lap)
    obtain v u1 where v: "up_visit_ready_stream i u = (Inr v, u1)"
      and r: "(case v of Some True \<Rightarrow> up_visit_lap lap st (sv @ [i]) True | Some False \<Rightarrow> up_visit_lap lap st sv True
        | None \<Rightarrow> up_visit_lap lap (st @ [i]) sv w) u1 = (Inr (st', sv', w'), u')"
      using Cons.prems by (auto elim!: and_then_Inr)
    have m: "length (u_out u) \<le> length (u_out u1)" using out_grows [OF up_visit_steps [of True True u i]] v by simp
    consider "v = None" | "v = Some True" | "v = Some False" by (cases v) auto
    then show ?case
    proof cases
      case 1
      then show ?thesis using Cons.IH [of "st @ [i]" sv w u1] r m by auto
    next
      case 2
      have "length (u_out u) < length (u_out u1)" using up_visit_grows v 2 by simp
      moreover have rr: "up_visit_lap lap st (sv @ [i]) True u1 = (Inr (st', sv', w'), u')" using r 2 by simp
      moreover have "length (u_out u1) \<le> length (u_out u')"
        using out_grows [OF up_visit_lap_steps [of True True u1 lap st "sv @ [i]" True]] rr by simp
      ultimately show ?thesis using Cons.IH [of st "sv @ [i]" True u1] by auto
    next
      case 3
      then show ?thesis using Cons.IH [of st sv True u1] r m by auto
    qed
  qed simp
  then show "length st' + length sv' \<le> length st + length sv + length lap"
    "w' \<Longrightarrow> w \<or> length (u_out u) < length (u_out u') \<or> length st' + length sv' < length st + length sv + length lap" by auto
qed

lemma up_mark_queued_outside [simp]: "u_ready (up_mark_queued i u) = u_ready u" "u_out (up_mark_queued i u) = u_out u"
  by (simp_all add: up_mark_queued_def up_put_def split: option.split)

lemma up_rebuild_ready: "length (u_ready (up_rebuild_ring ring u)) \<le> length ring"
proof -
  have "u_ready (fold up_mark_queued is d) = u_ready d" for "is" d
    by (induction "is" arbitrary: d) simp_all
  then show ?thesis by (simp add: up_rebuild_ring_def Let_def)
qed

lemma up_pump_lap_progress:
  assumes "up_pump_lap u = (Inr True, u')"
  shows "length (u_out u) < length (u_out u')
    \<or> length (u_out u) \<le> length (u_out u') \<and> length (u_ready u') < length (u_ready u)"
proof -
  let ?u0 = "u\<lparr>u_ready := []\<rparr>"
  obtain st sv u1 where l: "up_visit_lap (u_ready u) [] [] False ?u0 = (Inr (st, sv, True), u1)"
    and u': "u' = up_rebuild_ring (st @ sv) u1"
    using assms by (auto simp: up_pump_lap_def elim!: and_then_Inr)
  have "length (u_out u) \<le> length (u_out u1)"
    using out_grows [OF up_visit_lap_steps [of True True ?u0 "u_ready u" "[]" "[]" False]] l by simp
  moreover have "length (u_out u1) \<le> length (u_out u')"
    using out_grows [OF up_rebuild_steps [of True True u1 "st @ sv"]] u' by simp
  moreover have "length (u_ready u') \<le> length st + length sv"
    using up_rebuild_ready [of "st @ sv" u1] u' by simp
  ultimately show ?thesis using up_visit_lap_progress(2) [OF l] by auto
qed

function up_pump_outbound :: "unit up_handler" where
  "up_pump_outbound u =
     (if u_ready u = [] \<or> length (u_out u) \<ge> max_write_queue then (Inr (), u)
      else
        (case up_pump_lap u of
           (Inl e, u1) \<Rightarrow> (Inl e, u1)
         | (Inr wrote, u1) \<Rightarrow> if wrote then up_pump_outbound u1 else (Inr (), u1)))"
  by pat_completeness auto
termination
  by (relation "measures [\<lambda>u. max_write_queue - length (u_out u), \<lambda>u. length (u_ready u)]")
    (auto dest!: up_pump_lap_progress [OF sym])

declare up_pump_outbound.simps [simp del]

lemma up_pump_steps: "up_steps h f (ucore_of u) (ucore_of (snd (up_pump_outbound u)))"
proof (induction u rule: up_pump_outbound.induct)
  case (1 u)
  obtain r u1 where p: "up_pump_lap u = (r, u1)" by (cases "up_pump_lap u")
  have s: "up_steps h f (ucore_of u) (ucore_of u1)" using up_lap_steps [of h f u] p by simp
  show ?case
    using up_all_from [OF s 1 [OF _ p [symmetric]]] s p
    by (subst up_pump_outbound.simps) (auto split: sum.split)
qed

subsection \<open>The steps of \<^verbatim>\<open>drive\<close> and \<^verbatim>\<open>tick\<close>\<close>

definition probe_timer :: "instant \<Rightarrow> bool up_handler" where
  "probe_timer now u =
     (case probe_due now (u_probe u) of (action, p) \<Rightarrow>
        let u1 = u\<lparr>u_probe := p\<rparr> in
        (case action of
           ProbeNothing \<Rightarrow> (Inr True, u1)
         | ProbeSend nonce \<Rightarrow>
             and_then (up_queue_frame (Ping nonce False) u1)
               (\<lambda>_ u2. (Inr True, on_stats probe_sent (on_summary (\<lambda>s. s\<lparr>us_probes_sent := us_probes_sent s + 1\<rparr>) u2)))
         | ProbeExpired \<Rightarrow>
             (Inr False, on_record retire_record (on_summary (\<lambda>s. s\<lparr>us_probe_timed_out := True\<rparr>) u1))))"

text \<open>The arms of the \<^verbatim>\<open>select!\<close>. \<open>ArmMessage\<close> is a message at the head of the inbox.\<close>

datatype up_arm =
    ArmDrain
  | ArmProbe
  | ArmWritten nat
  | ArmWriteFailed
  | ArmMessage
  | ArmInboxClosed
  | ArmRead octets
  | ArmReadFailed

fun arm_keeps_going :: "up_arm \<Rightarrow> bool" where
  "arm_keeps_going ArmDrain = True"
| "arm_keeps_going ArmProbe = True"
| "arm_keeps_going (ArmWritten n) = (n \<noteq> 0)"
| "arm_keeps_going ArmWriteFailed = False"
| "arm_keeps_going ArmMessage = True"
| "arm_keeps_going ArmInboxClosed = False"
| "arm_keeps_going (ArmRead bs) = (bs \<noteq> [])"
| "arm_keeps_going ArmReadFailed = False"

definition take_message :: "upstream \<Rightarrow> to_upstream option \<times> upstream" where
  "take_message u = (case u_inbox u of [] \<Rightarrow> (None, u) | m # ms \<Rightarrow> (Some m, u\<lparr>u_inbox := ms\<rparr>))"

fun absorb :: "nat \<Rightarrow> unit up_handler" where
  "absorb 0 u = (Inr (), u)"
| "absorb (Suc n) u =
     (if length (u_out u) < max_write_queue then
        (case take_message u of
           (None, u1) \<Rightarrow> (Inr (), u1)
         | (Some m, u1) \<Rightarrow> and_then (handle_message m u1) (\<lambda>_. absorb n))
      else (Inr (), u))"

text \<open>What the arm that fired has done by the end of the \<^verbatim>\<open>select!\<close>, the message it took, and the rest.\<close>

definition arm_effect :: "up_arm \<Rightarrow> upstream \<Rightarrow> to_upstream option \<times> upstream" where
  "arm_effect arm u =
     (case arm of
        ArmMessage \<Rightarrow> take_message u
      | ArmRead bs \<Rightarrow> (None, u\<lparr>u_read_buf := u_read_buf u @ bs\<rparr>)
      | ArmWritten n \<Rightarrow> (None, u\<lparr>u_out := drop n (u_out u)\<rparr>)
      | _ \<Rightarrow> (None, u))"

definition is_read :: "up_arm \<Rightarrow> bool" where
  "is_read arm = (case arm of ArmRead bs \<Rightarrow> bs \<noteq> [] | _ \<Rightarrow> False)"

definition note_arm :: "instant \<Rightarrow> up_arm \<Rightarrow> upstream \<Rightarrow> upstream" where
  "note_arm now arm u =
     (let u1 = on_record (note_pass (is_read arm) (length (u_out u))) u
      in if is_read arm then u1\<lparr>u_probe := probe_heard now (u_probe u1)\<rparr> else u1)"

definition up_tick :: "instant \<Rightarrow> up_arm \<Rightarrow> bool up_handler" where
  "up_tick now arm u =
     (case arm_effect arm u of (msg, u1) \<Rightarrow>
        let u2 = note_arm now arm u1 in
        and_then (if arm = ArmProbe then probe_timer now u2 else (Inr True, u2)) (\<lambda>go u3.
          if \<not> go then (Inr False, u3)
          else
            and_then
              (case msg of
                 None \<Rightarrow> (Inr (), u3)
               | Some m \<Rightarrow> and_then (handle_message m u3) (\<lambda>_. absorb (inbox_batch - 1)))
              (\<lambda>_ u4. (Inr (arm_keeps_going arm), u4))))"

definition up_failed :: "(upstream, connection_error, 'a) outcome \<Rightarrow> (upstream, stop, 'a) outcome" where
  "up_failed r = (map_sum Failed id (fst r), snd r)"

definition up_read_frame :: "instant \<Rightarrow> upstream \<Rightarrow> (upstream, stop, bool) outcome" where
  "up_read_frame now u =
     (case decode_any (u_codec u) (u_read_buf u) of
        (Inr (Some (Ignored kind i)), rest) \<Rightarrow>
          and_then (up_failed (up_reject_if_mid_header_block kind i (u\<lparr>u_read_buf := rest\<rparr>))) (\<lambda>_ u1. (Inr True, u1))
      | (Inr (Some (DFrame fr)), rest) \<Rightarrow>
          and_then (up_failed (up_handle_frame now fr (u\<lparr>u_read_buf := rest\<rparr>)))
            (\<lambda>go u1. if go then (Inr True, u1) else (Inl Quiet, u1))
      | (Inr None, rest) \<Rightarrow> (Inr False, u\<lparr>u_read_buf := rest\<rparr>)
      | (Inl e, rest) \<Rightarrow> (Inl (Failed (ConnectionError (frame_error_code e))), u\<lparr>u_read_buf := rest\<rparr>))"

definition up_handshake :: "unit up_handler" where
  "up_handshake u =
     (let u1 = u\<lparr>u_out := u_out u @ preface\<rparr> in
      and_then (up_queue_frame (settings_to_frame (u_local_settings u1)) u1)
        (\<lambda>_ u2. up_queue_frame (WindowUpdate stream_id_connection
                   (word_of_nat (connection_window_bootstrap (u_conn_window u2)))) u2))"

datatype up_input =
    UpArrive to_upstream
  | UpFrame instant
  | UpPump
  | UpCheck instant
  | UpTick instant up_arm
  | UpHash "stream_id \<Rightarrow> nat"

fun up_step :: "up_input \<Rightarrow> upstream \<Rightarrow> (upstream, stop, unit) outcome" where
  "up_step (UpArrive m) u = (Inr (), u\<lparr>u_inbox := u_inbox u @ [m]\<rparr>)"
| "up_step (UpFrame now) u = and_then (up_read_frame now u) (\<lambda>_ u1. (Inr (), u1))"
| "up_step UpPump u = up_failed (up_pump_outbound u)"
| "up_step (UpCheck now) u = (if peer_drain_complete now u then (Inl Quiet, u) else (Inr (), u))"
| "up_step (UpTick now arm) u =
     and_then (up_failed (up_tick now arm u)) (\<lambda>go u1. if go then (Inr (), u1) else (Inl Quiet, u1))"
| "up_step (UpHash hash) u = (Inr (), u\<lparr>u_hash := hash\<rparr>)"

fun up_run :: "up_input list \<Rightarrow> upstream \<Rightarrow> (upstream, stop, unit) outcome" where
  "up_run [] u = (Inr (), u)"
| "up_run (x # xs) u = and_then (up_step x u) (\<lambda>_. up_run xs)"

definition inbox_gone :: "to_upstream list \<Rightarrow> (requester \<times> service_event) list" where
  "inbox_gone msgs =
     concat (map (\<lambda>m. case m of TuRequest r i head es cl \<Rightarrow> [((cl, r), EvGone i)] | _ \<Rightarrow> []) msgs)"

text \<open>
  \<^verbatim>\<open>run\<close>: the tail, for a stop; \<open>debug\<close> is the diagnostic text, \<open>n\<close> how much of the queue the flush wrote.
\<close>

definition up_finish :: "octets \<Rightarrow> nat \<Rightarrow> stop \<Rightarrow> upstream \<Rightarrow> upstream" where
  "up_finish debug n stp u =
     (let u1 = (case stp of
                  Quiet \<Rightarrow> u
                | Failed err \<Rightarrow> snd (up_queue_frame (GoAway (highest_local_id (u_streams u)) (conn_err_code err) debug) u));
          u2 = u1\<lparr>u_out := drop n (u_out u1)\<rparr>;
          u3 = fail_all_routes u2;
          u4 = u3\<lparr>u_told := u_told u3 @ inbox_gone (u_inbox u3), u_inbox := []\<rparr>
      in on_stats close_connection u4)"

definition up_drive :: "up_input list \<Rightarrow> upstream \<Rightarrow> (upstream, stop, unit) outcome" where
  "up_drive xs u = and_then (up_failed (up_handshake u)) (\<lambda>_. up_run xs)"

end
