(* ===== verification/Upstream_Inv.thy ===== *)
theory Upstream_Inv
  imports Upstream_Loop
begin

section \<open>Invariants of a connection to a backend\<close>

text \<open>
  Proved of the core's steps, and so of every run: the tables agree with each other, every request
  taken is accounted for, what is sent stays within what the backend credited, and the credit for
  response bodies is conserved.
\<close>

subsection \<open>The tables\<close>

lemma local_role_put:
  assumes "local_role t" "get_stream i t = Some s" "st_state s' \<noteq> Closed"
  shows "local_role (put_stream i s' t)"
  using assms table_inv_put [of t i s s'] by (simp add: local_role_def get_live)

lemma local_role_not_closed: "local_role t \<Longrightarrow> get_stream i t = Some s \<Longrightarrow> st_state s \<noteq> Closed"
  using table_inv_live [of t i s] by (simp add: local_role_def get_live entry_ok_def)

lemma local_role_retire: "local_role t \<Longrightarrow> local_role (retire i t)"
  by (simp add: local_role_def table_inv_retire)

lemma local_role_update:
  "local_role t \<Longrightarrow> local_role (t\<lparr>reclaimed := n\<rparr>)"
  "local_role t \<Longrightarrow> local_role (set_max_concurrent m t)"
  unfolding local_role_def table_inv_iff entry_ok_update
  by (simp_all add: set_max_concurrent_def live_count_def)

lemma local_role_wipe: "local_role t \<Longrightarrow> local_role (wipe i t)"
  by (simp add: wipe_def take_reclaimed_def local_role_retire local_role_update(1))

lemma wipe_ended:
  assumes "local_role t" "get_stream i t = Some s" "st_pending_conn_release s' = st_pending_conn_release s"
  shows "retire i (put_stream i s' t) = retire i t" "wipe i (put_stream i s' t) = wipe i t"
  using assms retire_put [of t i s s'] by (simp_all add: local_role_def table_inv_distinct get_live wipe_def)

lemma local_role_released: "local_role t \<Longrightarrow> local_role (released_stream i n t)"
  by (auto simp: released_stream_def local_role_put local_role_not_closed split: option.split)

lemma get_released: "get_stream j (released_stream i n t) = None \<longleftrightarrow> get_stream j t = None"
  by (auto simp: released_stream_def split: option.split)

lemma local_role_step: "up_core_step h f k k' \<Longrightarrow> local_role (q_streams k) \<Longrightarrow> local_role (q_streams k')"
proof (induction rule: up_core_step.induct)
  case (opens k p ps i s t)
  then show ?case using open_local_inv [of "q_streams k" i] by simp
next
  case (tweaked i k s s')
  then show ?case using local_role_put [of "q_streams k" i s s'] local_role_not_closed [of "q_streams k" i s]
    by (simp add: inert_def)
next
  case (ended i k s e)
  then show ?case by (simp add: wipe_ended local_role_retire)
next
  case (sends i k s data w s' v n es)
  then show ?case using local_role_put [of "q_streams k" i s "s'\<lparr>st_send_window := w\<rparr>"] local_role_not_closed [of "q_streams k" i s]
    by (simp add: inert_def)
next
  case (overruns i k s n w m sw)
  then show ?case by (simp add: wipe_ended local_role_wipe)
next
  case (resizes d k r t)
  then show ?case
    using table_inv_delta [of "q_streams k" d] apply_initial_window_delta_fields(1) [of d "q_streams k"]
      apply_initial_window_delta_fields(2) [of d "q_streams k"]
    by (simp add: local_role_def)
qed (auto simp: dropped_route_def local_role_wipe local_role_update local_role_released intro!: local_role_put dest: local_role_not_closed)

text \<open>
  A live stream has a route, a route's id has been used, a request that has a stream has the stream
  whose route is its own, and a request is remembered as cancelled because its client said so.
\<close>

definition requests_ok :: "(request_id \<times> stream_id) list \<Rightarrow> (stream_id \<times> up_route) list \<Rightarrow> bool" where
  "requests_ok qs rs \<longleftrightarrow> (\<forall>q i. map_of qs q = Some i \<longrightarrow> (\<exists>r. map_of rs i = Some r \<and> ur_request r = q))"

definition up_inv :: "ucore \<Rightarrow> bool" where
  "up_inv k \<longleftrightarrow> local_role (q_streams k) \<and> ids_ok k \<and> distinct_keys (q_routes k)
     \<and> (\<forall>i. get_stream i (q_streams k) \<noteq> None \<longrightarrow> map_of (q_routes k) i \<noteq> None)
     \<and> requests_ok (q_requests k) (q_routes k)
     \<and> (\<forall>q \<in> q_cancelled k. \<exists>code. TuCancel q code \<in> set (q_taken k))"

lemma up_invD:
  assumes "up_inv k"
  shows "local_role (q_streams k)" "ids_ok k" "distinct_keys (q_routes k)"
    "get_stream i (q_streams k) = Some s \<Longrightarrow> map_of (q_routes k) i \<noteq> None"
    "map_of (q_requests k) q = Some i \<Longrightarrow> \<exists>r. map_of (q_routes k) i = Some r \<and> ur_request r = q"
    "q \<in> q_cancelled k \<Longrightarrow> \<exists>code. TuCancel q code \<in> set (q_taken k)"
  using assms by (simp_all add: up_inv_def requests_ok_def)

lemma fresh_route:
  assumes "ids_ok k" "open_local i (q_streams k) = (Inr s, t)"
  shows "map_of (q_routes k) i = None"
  using assms highest_local_opened [OF assms(2)] by (cases "map_of (q_routes k) i") (auto simp: ids_ok_def)

lemma get_opened: "open_local i t = (Inr s, u) \<Longrightarrow> get_stream j u = (if j = i then Some s else get_stream j t)"
  using open_local_accepted [of i t s u] by (simp add: get_stream_def update_conv)

lemma ids_ok_step: "up_core_step h f k k' \<Longrightarrow> ids_ok k \<Longrightarrow> ids_ok k'"
proof (induction rule: up_core_step.induct)
  case (opens k p ps i s t)
  then show ?case using highest_local_opened [OF opens(2)] by (auto simp: ids_ok_def update_conv dest: order_less_imp_le)
next
  case (resizes d k r t)
  then show ?case using highest_local_delta [OF resizes(1)] by (simp add: ids_ok_def)
qed (auto simp: ids_ok_def dropped_route_def update_conv delete_conv)

lemma keys_step: "up_core_step h f k k' \<Longrightarrow> distinct_keys (q_routes k) \<Longrightarrow> distinct_keys (q_routes k')"
  by (induction rule: up_core_step.induct)
    (auto simp: dropped_route_def distinct_keys_update distinct_keys_delete)

lemma live_routed_step:
  assumes "up_core_step h f k k'" "\<forall>i. get_stream i (q_streams k) \<noteq> None \<longrightarrow> map_of (q_routes k) i \<noteq> None"
  shows "\<forall>i. get_stream i (q_streams k') \<noteq> None \<longrightarrow> map_of (q_routes k') i \<noteq> None"
  using assms
proof (induction rule: up_core_step.induct)
  case (opens k p ps i s t)
  then show ?case by (auto simp: get_opened update_conv)
next
  case (resizes d k r t)
  then show ?case using get_delta [OF resizes(1)] by simp
qed (auto simp: dropped_route_def update_conv delete_conv get_released get_retire)

lemma requests_okD: "requests_ok qs rs \<Longrightarrow> map_of qs q = Some i \<Longrightarrow> \<exists>r. map_of rs i = Some r \<and> ur_request r = q"
  by (simp add: requests_ok_def)

lemma requests_okI:
  "(\<And>q i. map_of qs q = Some i \<Longrightarrow> \<exists>r. map_of rs i = Some r \<and> ur_request r = q) \<Longrightarrow> requests_ok qs rs"
  by (simp add: requests_ok_def)

lemma requests_ok_update:
  "requests_ok qs rs \<Longrightarrow> map_of rs i = Some r \<Longrightarrow> ur_request r' = ur_request r \<Longrightarrow> requests_ok qs (AList.update i r' rs)"
  by (intro requests_okI) (auto dest!: requests_okD)

lemma requests_ok_opened:
  assumes "requests_ok qs rs" "map_of rs i = None"
  shows "requests_ok (AList.update (pn_request p) i qs) (AList.update i (route_new p) rs)"
proof -
  have "i \<noteq> j" if "map_of qs q = Some j" for q j using assms requests_okD that by fastforce
  then show ?thesis using requests_okD [OF assms(1)] by (intro requests_okI) (auto simp: route_new_def split: if_splits)
qed

lemma requests_ok_dropped:
  assumes "requests_ok qs rs" "map_of rs i = Some r"
  shows "requests_ok (AList.delete (ur_request r) qs) (AList.delete i rs)"
proof -
  have "q = ur_request r" if "map_of qs q = Some i" for q using assms requests_okD that by fastforce
  then show ?thesis using requests_okD [OF assms(1)] by (intro requests_okI) (auto split: if_splits)
qed

lemma requests_step:
  assumes "up_core_step h f k k'" "ids_ok k" "requests_ok (q_requests k) (q_routes k)"
  shows "requests_ok (q_requests k') (q_routes k')"
  using assms
proof (induction rule: up_core_step.induct)
  case (opens k p ps i s t)
  then show ?case using requests_ok_opened fresh_route [OF _ opens(2)] by simp
qed (auto simp: dropped_route_def requests_ok_dropped same_route_def intro: requests_ok_update)

lemma cancelled_step:
  assumes "up_core_step h f k k'" "\<forall>q \<in> q_cancelled k. \<exists>code. TuCancel q code \<in> set (q_taken k)"
  shows "\<forall>q \<in> q_cancelled k'. \<exists>code. TuCancel q code \<in> set (q_taken k')"
  using assms by induction (auto simp: dropped_route_def)

lemma up_inv_step:
  assumes "up_core_step h f k k'" "up_inv k"
  shows "up_inv k'"
  using assms(2) local_role_step [OF assms(1)] ids_ok_step [OF assms(1)] keys_step [OF assms(1)]
    live_routed_step [OF assms(1)] requests_step [OF assms(1)] cancelled_step [OF assms(1)]
  unfolding up_inv_def by blast

subsection \<open>No request is forgotten\<close>

definition accounted :: "ucore \<Rightarrow> bool" where
  "accounted k \<longleftrightarrow> (\<forall>q i head es cl. TuRequest q i head es cl \<in> set (q_taken k) \<longrightarrow>
     (\<exists>p \<in># q_pending k. pn_request p = q \<and> pn_client_id p = i \<and> pn_events p = cl)
   \<or> (\<exists>j r. map_of (q_routes k) j = Some r \<and> ur_request r = q \<and> ur_client_id r = i \<and> ur_events r = cl)
   \<or> (\<exists>code. TuCancel q code \<in> set (q_taken k))
   \<or> answered (cl, q) i k)"

definition accounted_for :: "request_id \<Rightarrow> stream_id \<Rightarrow> client \<Rightarrow> ucore \<Rightarrow> bool" where
  "accounted_for q i cl k \<longleftrightarrow>
     (\<exists>p \<in># q_pending k. pn_request p = q \<and> pn_client_id p = i \<and> pn_events p = cl)
   \<or> (\<exists>j r. map_of (q_routes k) j = Some r \<and> ur_request r = q \<and> ur_client_id r = i \<and> ur_events r = cl)
   \<or> (\<exists>code. TuCancel q code \<in> set (q_taken k))
   \<or> answered (cl, q) i k"

lemma accounted_iff:
  "accounted k \<longleftrightarrow> (\<forall>q i head es cl. TuRequest q i head es cl \<in> set (q_taken k) \<longrightarrow> accounted_for q i cl k)"
  by (simp add: accounted_def accounted_for_def)

lemma accounted_route:
  "map_of (q_routes k) i = Some r \<Longrightarrow> same_route r r' \<Longrightarrow> accounted_for q j cl k \<Longrightarrow>
   q_pending k' = q_pending k \<Longrightarrow> q_routes k' = AList.update i r' (q_routes k) \<Longrightarrow> q_taken k' = q_taken k \<Longrightarrow>
   q_told k' = q_told k \<Longrightarrow> q_mute k' = q_mute k \<Longrightarrow> accounted_for q j cl k'"
  unfolding accounted_for_def answered_def same_route_def by (auto; metis option.inject)

lemma accounted_dropped:
  assumes "map_of (q_routes k) i = Some r" "accounted_for q j cl k"
    and "(\<exists>code. TuCancel (ur_request r) code \<in> set (q_taken k)) \<or> answered (ur_events r, ur_request r) (ur_client_id r) k"
  shows "accounted_for q j cl (dropped_route i r k)"
  using assms unfolding accounted_for_def answered_def dropped_route_def by (auto; metis option.inject)

lemma accounted_for_step:
  assumes "up_core_step h f k k'" "up_inv k" "accounted_for q j cl k"
  shows "accounted_for q j cl k'"
  using assms
proof (induction rule: up_core_step.induct)
  case (opens k p ps i s t)
  have "map_of (q_routes k) i = None" by (rule fresh_route [OF up_invD(2) [OF opens(3)] opens(2)])
  then show ?case using opens(1,4) by (auto simp: accounted_for_def answered_def route_new_def; metis option.distinct(1))
next
  case (marked k i r r')
  show ?case by (rule accounted_route [OF marked(1,2,5)]) simp_all
next
  case (receives i k s r n w)
  show ?case by (rule accounted_route [OF receives(2) _ receives(5)]) (simp_all add: same_route_def)
next
  case (releases k i r n)
  show ?case by (rule accounted_route [OF releases(1) _ releases(5)]) (simp_all add: same_route_def)
next
  case (forgets k i r)
  then show ?case by (simp add: accounted_dropped)
next
  case (cancels k c i r code)
  have "ur_request r = c" using up_invD(5) [OF cancels(4) cancels(1)] cancels(2) by auto
  then show ?case using cancels by (auto intro!: accounted_dropped)
next
  case (refills p p' k ps)
  then show ?case by (auto simp: accounted_for_def answered_def same_request_def)
next
  case (skipped k p ps)
  then show ?case using up_invD(6) [of k "pn_request p"] by (auto simp: accounted_for_def answered_def)
qed (auto simp: accounted_for_def answered_def)

lemma accounted_step:
  assumes "up_core_step h f k k'" "up_inv k" "accounted k"
  shows "accounted k'"
  unfolding accounted_iff
proof (intro allI impI)
  fix q i head es cl assume m: "TuRequest q i head es cl \<in> set (q_taken k')"
  show "accounted_for q i cl k'"
  proof (cases "TuRequest q i head es cl \<in> set (q_taken k)")
    case True
    then show ?thesis using accounted_for_step [OF assms(1,2)] assms(3) by (auto simp: accounted_iff)
  next
    case False
    with assms(1) m have "\<exists>p \<in># q_pending k'. pn_request p = q \<and> pn_client_id p = i \<and> pn_events p = cl"
      by cases (auto simp: dropped_route_def request_of_def)
    then show ?thesis by (simp add: accounted_for_def)
  qed
qed

subsection \<open>What is sent fits in what was credited\<close>

definition up_send_ledger :: "ucore \<Rightarrow> bool" where
  "up_send_ledger k \<longleftrightarrow> window_ok (q_send k) \<and> 0 \<le> available (q_send k)
     \<and> available (q_send k) + int (octets_sent (q_frames k)) = 65535 + int (q_credited k)"

lemma octets_sent_snoc [simp]: "octets_sent (fs @ [fr]) = octets_sent fs + data_len fr"
  by (simp add: octets_sent_def)

lemma up_send_ledger_step: "up_core_step h f k k' \<Longrightarrow> up_send_ledger k \<Longrightarrow> up_send_ledger k'"
proof (induction rule: up_core_step.induct)
  case (sends i k s data w s' v n es)
  then have le: "int (length data) \<le> available (q_send k)" by (simp add: consume_def split: if_splits)
  have ok: "window_ok (q_send k)" using sends by (simp add: up_send_ledger_def)
  have v: "v = Window (available (q_send k) - int (length data))" using sends(4) consume_ok [OF ok le] by simp
  have "window_ok v" using window_ok_consume [OF ok, of "length data"] sends(4) by simp
  then show ?case using sends.prems v le by (simp add: up_send_ledger_def)
next
  case (credits_conn n k v)
  then have le: "available (q_send k) + int n \<le> max_window_size" by (simp add: increase_def Let_def split: if_splits)
  have ok: "window_ok (q_send k)" using credits_conn by (simp add: up_send_ledger_def)
  have v: "v = Window (available (q_send k) + int n)" using credits_conn(1) increase_ok [OF ok le] by simp
  have "window_ok v" using window_ok_increase [OF ok, of n] credits_conn(1) by simp
  then show ?case using credits_conn.prems v by (simp add: up_send_ledger_def)
qed (simp_all add: up_send_ledger_def dropped_route_def)

subsection \<open>The credit for response bodies\<close>

text \<open>What the clients still hold, and what was on streams that overran their own window.\<close>

definition held :: "ucore \<Rightarrow> nat" where
  "held k = sum_list (map (ur_pending \<circ> snd) (q_routes k))"

definition overran :: "ucore \<Rightarrow> bool" where
  "overran k \<longleftrightarrow> (\<exists>i. RstStream i FlowControlError \<in> set (q_frames k))"

definition up_credit :: "int \<Rightarrow> ucore \<Rightarrow> bool" where
  "up_credit W k \<longleftrightarrow> (\<exists>lost. credit_ok W (q_recv k) (held k + lost) \<and> (lost = 0 \<or> overran k))"

lemma held_update:
  "map_of (q_routes k) i = Some r \<Longrightarrow> held (k\<lparr>q_routes := AList.update i r' (q_routes k)\<rparr>) + ur_pending r = held k + ur_pending r'"
  using sum_update_map_of [of "q_routes k" i r ur_pending r'] by (simp add: held_def)

lemma held_bound: "map_of (q_routes k) i = Some r \<Longrightarrow> ur_pending r \<le> held k"
  using held_update [of k i r "r\<lparr>ur_pending := 0\<rparr>"] by simp

lemma held_delete:
  "distinct_keys (q_routes k) \<Longrightarrow> map_of (q_routes k) i = Some r \<Longrightarrow> held (k\<lparr>q_routes := AList.delete i (q_routes k)\<rparr>) = held k - ur_pending r"
  using sum_delete [of "q_routes k" i r ur_pending] by (simp add: held_def)

lemma update_fresh: "map_of al i = None \<Longrightarrow> AList.update i v al = al @ [(i, v)]"
  by (induction al) (auto split: if_splits)

lemma up_credit_step:
  assumes "up_core_step True False k k'" "up_inv k" "up_credit W k" "0 < W" "W \<le> max_window_size"
  shows "up_credit W k'"
proof -
  obtain lost where ok: "credit_ok W (q_recv k) (held k + lost)" and l: "lost = 0 \<or> overran k"
    using assms(3) by (auto simp: up_credit_def)
  have intro: "up_credit W k'" if "credit_ok W (q_recv k') (held k' + lost)" "overran k \<Longrightarrow> overran k'"
    using that l by (auto simp: up_credit_def)
  have drop: "up_credit W (dropped_route i r k)" if r: "map_of (q_routes k) i = Some r" for i r
  proof -
    have h: "held (dropped_route i r k) = held k - ur_pending r" "overran (dropped_route i r k) = overran k"
      using held_delete [OF up_invD(3) [OF assms(2)] r] by (simp_all add: held_def overran_def dropped_route_def)
    have le: "ur_pending r \<le> held k" by (rule held_bound [OF r])
    have "credit_ok W (q_recv (dropped_route i r k)) (held k + lost - ur_pending r)"
      using credit_release [OF ok assms(4,5), of "ur_pending r"] ok le by (simp add: dropped_route_def)
    then show ?thesis using l le h unfolding up_credit_def by (auto simp: Nat.add_diff_assoc2)
  qed
  from assms(1) show ?thesis
  proof cases
    case (opens p ps i s t)
    have "held k' = held k"
      using opens(1) update_fresh [OF fresh_route [OF up_invD(2) [OF assms(2)] opens(3)], of "route_new p"]
      by (simp add: held_def route_new_def)
    then show ?thesis using intro ok opens(1) by (simp add: overran_def)
  next
    case (marked i r r')
    have "held k' = held k" using held_update [OF marked(2), of r'] marked(1,4) by (simp add: held_def)
    then show ?thesis using intro ok marked(1) by (simp add: overran_def)
  next
    case (forgets i r)
    then show ?thesis using drop by simp
  next
    case (cancels c i r code)
    then show ?thesis using drop by simp
  next
    case (receives i s r n w)
    have c: "credit_ok W w (held k + lost + n)" by (rule credit_record [OF ok assms(5) receives(4)])
    then have "ur_pending r + n \<le> u32_max"
      using credit_le [OF c] held_bound [OF receives(3)] assms(5) by (simp add: max_window_size_def)
    then have "held k' = held k + n"
      using held_update [OF receives(3), of "r\<lparr>ur_pending := sat_add_u32 (ur_pending r) n\<rparr>"] receives(1)
      by (simp add: held_def sat_add_u32_exact)
    then show ?thesis using intro c receives(1) by (simp add: overran_def ac_simps)
  next
    case (strays i s n w)
    then show ?thesis using up_invD(4) [OF assms(2), of i s] by simp
  next
    case (overruns i s n w m sw)
    have "credit_ok W w (held k + (lost + n))" using credit_record [OF ok assms(5) overruns(3)] by (simp add: ac_simps)
    then show ?thesis using overruns(1) unfolding up_credit_def overran_def by (auto simp: held_def)
  next
    case (discards n w)
    have c: "credit_ok W w (held k + lost + n)" by (rule credit_record [OF ok assms(5) discards(2)])
    from credit_release [OF c assms(4,5), of n] show ?thesis using intro discards(1) by (simp add: held_def overran_def)
  next
    case (releases i r n)
    have le: "n \<le> ur_pending r" "ur_pending r \<le> held k" using releases(3) held_bound [OF releases(2)] by simp_all
    have "held k' + n = held k"
      using held_update [OF releases(2), of "r\<lparr>ur_pending := ur_pending r - n\<rparr>"] releases(1) le by (simp add: held_def)
    then show ?thesis
      using intro credit_release [OF ok assms(4,5), of n] le releases(1) by (simp add: overran_def) (metis add.commute add_diff_cancel_left' add.assoc)
  qed (use intro ok in \<open>auto simp: held_def overran_def\<close>)
qed

end
