(* ===== verification/Upstream_Run.thy ===== *)
theory Upstream_Run
  imports Upstream_Inv
begin

section \<open>Runs of a connection to a backend\<close>

text \<open>
  Every input a connection can be given is a sequence of core steps, but for the octets the socket
  takes off the write queue. What the steps preserve therefore holds of every run, in every order of
  the inputs, and, for what does not need a run that goes on, at its end too.
\<close>

subsection \<open>The clients' side of the credit contract\<close>

fun absorb_honest :: "nat \<Rightarrow> upstream \<Rightarrow> bool" where
  "absorb_honest 0 u = True"
| "absorb_honest (Suc n) u =
     (if length (u_out u) < max_write_queue then
        (case take_message u of
           (None, u1) \<Rightarrow> True
         | (Some m, u1) \<Rightarrow> honest_message m u1 \<and> absorb_honest n (snd (handle_message m u1)))
      else True)"

fun up_step_honest :: "up_input \<Rightarrow> upstream \<Rightarrow> bool" where
  "up_step_honest (UpTick now arm) u =
     (case arm_effect arm u of
        (None, u1) \<Rightarrow> True
      | (Some m, u1) \<Rightarrow>
          honest_message m (note_arm now arm u1)
          \<and> absorb_honest (inbox_batch - 1) (snd (handle_message m (note_arm now arm u1))))"
| "up_step_honest _ u = True"

fun up_run_honest :: "up_input list \<Rightarrow> upstream \<Rightarrow> bool" where
  "up_run_honest [] u = True"
| "up_run_honest (x # xs) u = (up_step_honest x u \<and> up_run_honest xs (snd (up_step x u)))"

subsection \<open>The steps of the loop\<close>

lemma probe_timer_steps: "up_steps h f (ucore_of u) (ucore_of (snd (probe_timer now u)))"
proof -
  obtain a p where d: "probe_due now (u_probe u) = (a, p)" by (cases "probe_due now (u_probe u)")
  show ?thesis
  proof (cases a)
    case (ProbeSend nonce)
    have "up_steps h f (ucore_of u) (ucore_of (snd (up_queue_frame (Ping nonce False) (u\<lparr>u_probe := p\<rparr>))))"
      using up_queue_steps [of "Ping nonce False" h f "u\<lparr>u_probe := p\<rparr>"] by simp
    then show ?thesis by (simp add: probe_timer_def d ProbeSend Let_def up_all_then)
  qed (simp_all add: probe_timer_def d Let_def)
qed

lemma take_message_core [simp]: "ucore_of (snd (take_message u)) = ucore_of u" "u_out (snd (take_message u)) = u_out u"
  by (simp_all add: take_message_def split: list.split)

lemma take_message_same: "take_message u = (m, u1) \<Longrightarrow> ucore_of u1 = ucore_of u"
  using take_message_core(1) [of u] by simp

lemma note_arm_core [simp]: "ucore_of (note_arm now arm u) = ucore_of u"
  by (simp add: note_arm_def Let_def)

lemma arm_effect_core:
  "ucore_of (snd (arm_effect arm u)) = (ucore_of u)\<lparr>q_out := length (u_out (snd (arm_effect arm u)))\<rparr>"
  by (cases arm) (simp_all add: arm_effect_def)

lemma absorb_steps: "(h \<Longrightarrow> absorb_honest n u) \<Longrightarrow> up_steps h f (ucore_of u) (ucore_of (snd (absorb n u)))"
proof (induction n arbitrary: u)
  case (Suc n)
  obtain m u1 where t: "take_message u = (m, u1)" by (cases "take_message u")
  note c1 = take_message_same [OF t]
  show ?case
  proof (cases "length (u_out u) < max_write_queue")
    case True
    show ?thesis
    proof (cases m)
      case None
      then show ?thesis using True t c1 by simp
    next
      case (Some msg)
      have "up_steps h f (ucore_of u) (ucore_of (snd (handle_message msg u1)))"
        using message_steps [of h msg u1 f] Suc.prems True t Some c1 by simp
      then have "up_steps h f (ucore_of u) (ucore_of (snd (and_then (handle_message msg u1) (\<lambda>_. absorb n))))"
      proof (rule up_all_then)
        fix a u2 assume r: "handle_message msg u1 = (Inr a, u2)" and s: "up_steps h f (ucore_of u) (ucore_of u2)"
        have "h \<Longrightarrow> absorb_honest n u2" using Suc.prems True t Some r by simp
        from up_all_from [OF s Suc.IH [OF this]] show "up_steps h f (ucore_of u) (ucore_of (snd (absorb n u2)))" .
      qed
      then show ?thesis using True t Some by simp
    qed
  qed simp
qed simp

lemma up_tick_steps:
  assumes "h \<Longrightarrow> up_step_honest (UpTick now arm) u"
  shows "up_steps h f ((ucore_of u)\<lparr>q_out := length (u_out (snd (arm_effect arm u)))\<rparr>) (ucore_of (snd (up_tick now arm u)))"
proof -
  obtain msg u1 where e: "arm_effect arm u = (msg, u1)" by (cases "arm_effect arm u")
  let ?u2 = "note_arm now arm u1"
  let ?k = "(ucore_of u)\<lparr>q_out := length (u_out u1)\<rparr>"
  have c2: "ucore_of ?u2 = ?k" using arm_effect_core [of arm u] e by simp
  have t: "up_tick now arm u = and_then (if arm = ArmProbe then probe_timer now ?u2 else (Inr True, ?u2)) (\<lambda>go u3.
          if \<not> go then (Inr False, u3)
          else and_then (case msg of None \<Rightarrow> (Inr (), u3)
               | Some m \<Rightarrow> and_then (handle_message m u3) (\<lambda>_. absorb (inbox_batch - 1)))
              (\<lambda>_ u4. (Inr (arm_keeps_going arm), u4)))"
    by (simp add: up_tick_def e Let_def)
  have "up_steps h f ?k (ucore_of (snd (up_tick now arm u)))"
    unfolding t
  proof (rule up_all_then)
    show "up_steps h f ?k (ucore_of (snd (if arm = ArmProbe then probe_timer now ?u2 else (Inr True, ?u2))))"
      using probe_timer_steps [of h f ?u2 now] c2 by (cases "arm = ArmProbe") simp_all
  next
    fix go u3
    assume r: "(if arm = ArmProbe then probe_timer now ?u2 else (Inr True, ?u2)) = (Inr go, u3)"
      and s3: "up_steps h f ?k (ucore_of u3)"
    have m: "up_steps h f ?k (ucore_of (snd (and_then (handle_message m u3) (\<lambda>_. absorb (inbox_batch - 1)))))"
      if msg: "msg = Some m" for m
    proof -
      have "arm = ArmMessage" using e msg by (cases arm) (simp_all add: arm_effect_def)
      then have u3: "u3 = ?u2" using r by simp
      have hon: "h \<Longrightarrow> honest_message m u3 \<and> absorb_honest (inbox_batch - 1) (snd (handle_message m u3))"
        using assms e msg u3 by simp
      show ?thesis
      proof (rule up_all_then)
        show "up_steps h f ?k (ucore_of (snd (handle_message m u3)))"
          using up_all_from [OF s3 message_steps [of h m u3 f]] hon by simp
      next
        fix a u4 assume r4: "handle_message m u3 = (Inr a, u4)" and s4: "up_steps h f ?k (ucore_of u4)"
        have "h \<Longrightarrow> absorb_honest (inbox_batch - 1) u4" using hon r4 by simp
        from up_all_from [OF s4 absorb_steps [OF this]]
        show "up_steps h f ?k (ucore_of (snd (absorb (inbox_batch - 1) u4)))" .
      qed
    qed
    show "up_steps h f ?k (ucore_of (snd (if \<not> go then (Inr False, u3)
        else and_then (case msg of None \<Rightarrow> (Inr (), u3)
             | Some m \<Rightarrow> and_then (handle_message m u3) (\<lambda>_. absorb (inbox_batch - 1)))
            (\<lambda>_ u4. (Inr (arm_keeps_going arm), u4)))))"
      using s3 m by (cases msg) (auto intro!: up_all_then)
  qed
  then show ?thesis using e by simp
qed

lemma up_ok_failed: "up_ok h f k (up_failed r) \<longleftrightarrow> up_ok h f k r"
  by (cases r; cases "fst r") (auto simp: up_failed_def up_ok_def)

lemma up_read_frame_ok:
  assumes "up_inv (ucore_of u)"
  shows "up_ok h f (ucore_of u) (up_read_frame now u)"
proof -
  obtain r rest where d: "decode_any (u_codec u) (u_read_buf u) = (r, rest)"
    by (cases "decode_any (u_codec u) (u_read_buf u)")
  let ?u = "u\<lparr>u_read_buf := rest\<rparr>"
  have ign: "up_ok h f (ucore_of u) (and_then (up_failed (up_reject_if_mid_header_block kind i ?u)) (\<lambda>_ u1. (Inr True, u1)))" for kind i
    by (rule up_ok_then) (auto simp: up_ok_failed up_reject_if_mid_header_block_def split: option.split)
  have fr: "up_ok h f (ucore_of u) (and_then (up_failed (up_handle_frame now fr ?u))
      (\<lambda>go u1. if go then (Inr True, u1) else (Inl Quiet, u1)))" for fr
  proof (rule up_ok_then)
    show "up_ok h f (ucore_of u) (up_failed (up_handle_frame now fr ?u))"
      using up_handle_frame_ok [of ?u h f now fr] up_invD(1,2) [OF assms] by (simp add: up_ok_failed)
  qed auto
  show ?thesis
    by (auto simp: up_read_frame_def d intro!: ign fr split: sum.split option.split decoded.split)
qed

text \<open>Whatever the input, the core takes core steps, once the socket has taken its octets.\<close>

lemma up_step_ok:
  assumes inv: "up_inv (ucore_of u)" and hon: "h \<Longrightarrow> up_step_honest x u"
  obtains n where "up_ok h f ((ucore_of u)\<lparr>q_out := n\<rparr>) (up_step x u)"
proof (cases x)
  case (UpTick now arm)
  let ?k = "(ucore_of u)\<lparr>q_out := length (u_out (snd (arm_effect arm u)))\<rparr>"
  have "up_ok h f ?k (up_failed (up_tick now arm u))"
    using up_ok_all [OF up_tick_steps [of h now arm u f]] hon UpTick by (simp add: up_ok_failed)
  then have "up_ok h f ?k (and_then (up_failed (up_tick now arm u)) (\<lambda>go u1. if go then (Inr (), u1) else (Inl Quiet, u1)))"
    by (rule up_ok_then) auto
  then show ?thesis using that UpTick by simp
next
  case (UpFrame now)
  have "up_ok h f (ucore_of u) (and_then (up_read_frame now u) (\<lambda>_ u1. (Inr (), u1)))"
    by (rule up_ok_then [OF up_read_frame_ok [OF inv]]) simp
  then show ?thesis using that [of "length (u_out u)"] UpFrame by simp
next
  case UpPump
  have "up_ok h f (ucore_of u) (up_failed (up_pump_outbound u))" by (simp add: up_ok_failed up_ok_all up_pump_steps)
  then show ?thesis using that [of "length (u_out u)"] UpPump by simp
next
  case (UpHash hash)
  have "ucore_of (u\<lparr>u_hash := hash\<rparr>) = ucore_of u" by (simp add: ucore_of_def)
  with that [of "length (u_out u)"] UpHash show ?thesis by (simp add: up_ok_def)
qed (use that [of "length (u_out u)"] in simp_all)

subsection \<open>What the steps preserve\<close>

definition up_preserved :: "bool \<Rightarrow> bool \<Rightarrow> (ucore \<Rightarrow> bool) \<Rightarrow> bool" where
  "up_preserved h f P \<longleftrightarrow> (\<forall>k k'. up_core_step h f k k' \<longrightarrow> up_inv k \<longrightarrow> P k \<longrightarrow> P k') \<and> (\<forall>k n. P k \<longrightarrow> P (k\<lparr>q_out := n\<rparr>))"

lemma up_inv_out: "up_inv k \<Longrightarrow> up_inv (k\<lparr>q_out := n\<rparr>)"
  by (simp add: up_inv_def ids_ok_def)

lemma preserved_steps:
  assumes "up_preserved h f P" "up_steps h f k k'" "up_inv k" "P k"
  shows "up_inv k' \<and> P k'"
  using assms(2)
proof (induction rule: rtranclp_induct)
  case (step k1 k2)
  then show ?case using assms(1) up_inv_step unfolding up_preserved_def by blast
qed (use assms in simp)

lemma preserved_step:
  assumes p: "up_preserved h f P" and i: "up_inv (ucore_of u)" "P (ucore_of u)"
    and hon: "h \<Longrightarrow> up_step_honest x u" and fin: "f \<or> is_ok (fst (up_step x u))"
  shows "up_inv (ucore_of (snd (up_step x u))) \<and> P (ucore_of (snd (up_step x u)))"
proof -
  obtain n where "up_ok h f ((ucore_of u)\<lparr>q_out := n\<rparr>) (up_step x u)" using up_step_ok i(1) hon by blast
  then have s: "up_steps h f ((ucore_of u)\<lparr>q_out := n\<rparr>) (ucore_of (snd (up_step x u)))" using fin by (simp add: up_ok_def)
  show ?thesis
    by (rule preserved_steps [OF p s]) (use p i in \<open>auto simp: up_preserved_def up_inv_out\<close>)
qed

lemma preserved_run:
  assumes p: "up_preserved h f P" and i: "up_inv (ucore_of u)" "P (ucore_of u)"
    and hon: "h \<Longrightarrow> up_run_honest xs u" and fin: "f \<or> is_ok (fst (up_run xs u))"
  shows "up_inv (ucore_of (snd (up_run xs u))) \<and> P (ucore_of (snd (up_run xs u)))"
  using i hon fin
proof (induction xs arbitrary: u)
  case (Cons x xs)
  obtain r u1 where s: "up_step x u = (r, u1)" by (cases "up_step x u")
  show ?case
  proof (cases r)
    case (Inl e)
    then show ?thesis using preserved_step [OF p Cons.prems(1,2), of x] Cons.prems(3,4) s by simp
  next
    case (Inr a)
    have i1: "up_inv (ucore_of u1)" "P (ucore_of u1)"
      using preserved_step [OF p Cons.prems(1,2), of x] Cons.prems(3) s Inr by auto
    show ?thesis using Cons.IH [OF i1] Cons.prems(3,4) s Inr by simp
  qed
qed simp

subsection \<open>The connections considered\<close>

text \<open>A connection as the pool sets it up, with the probe it is given.\<close>

definition upstream_start ::
    "instant \<Rightarrow> proxy_stats \<Rightarrow> upstream_record option \<Rightarrow> tuning \<Rightarrow> duration \<Rightarrow> duration \<Rightarrow> upstream" where
  "upstream_start now stats rcd t idle timeout = with_probe idle timeout now (upstream_new now stats rcd t)"

lemma start_core:
  "ucore_of (upstream_start now stats rcd t idle timeout) =
     \<lparr>q_streams = stream_table_new u32_max 65535 (as_int (initial_window_size (client_settings t))),
      q_recv = recv_window_new (tu_connection_window t), q_send = Window 65535, q_routes = [], q_requests = [],
      q_pending = {#}, q_cancelled = {}, q_told = [], q_mute = [], q_taken = [], q_frames = [], q_credited = 0, q_heard = [], q_out = 0\<rparr>"
  by (simp add: upstream_start_def with_probe_def upstream_new_def ucore_of_def Let_def settings_default_def
      default_initial_window_size_def as_int_def as_i32_def credit_received_def)

lemma start_inv: "up_inv (ucore_of (upstream_start now stats rcd t idle timeout))"
  unfolding start_core up_inv_def requests_ok_def local_role_def ids_ok_def
  by simp (simp add: stream_table_new_def get_stream_def stream_id_connection_def)

lemma handshake_steps:
  "up_steps h f ((ucore_of u)\<lparr>q_out := length (u_out u) + length preface\<rparr>) (ucore_of (snd (up_handshake u)))"
proof -
  let ?u = "u\<lparr>u_out := u_out u @ preface\<rparr>"
  have "up_steps h f (ucore_of ?u) (ucore_of (snd (up_handshake u)))"
    unfolding up_handshake_def Let_def
  proof (rule up_all_then)
    show "up_steps h f (ucore_of ?u) (ucore_of (snd (up_queue_frame (settings_to_frame (u_local_settings ?u)) ?u)))"
      by (rule up_queue_steps) (simp add: settings_to_frame_def Let_def)
    show "up_steps h f (ucore_of ?u) (ucore_of (snd (up_queue_frame (WindowUpdate stream_id_connection
        (word_of_nat (connection_window_bootstrap (u_conn_window u2)))) u2)))"
      if "up_steps h f (ucore_of ?u) (ucore_of u2)" for u2
      by (rule up_all_from [OF that up_queue_steps]) simp
  qed
  then show ?thesis by simp
qed

lemma preserved_drive:
  assumes p: "up_preserved h f P" and st: "P (ucore_of (upstream_start now stats rcd t idle timeout))"
    and run: "up_drive xs (upstream_start now stats rcd t idle timeout) = (r, u)" and fin: "f \<or> is_ok r"
    and hon: "h \<Longrightarrow> up_run_honest xs (snd (up_handshake (upstream_start now stats rcd t idle timeout)))"
  shows "up_inv (ucore_of u) \<and> P (ucore_of u)"
proof -
  let ?u0 = "upstream_start now stats rcd t idle timeout"
  obtain r1 u1 where h: "up_handshake ?u0 = (r1, u1)" by (cases "up_handshake ?u0")
  let ?k = "(ucore_of ?u0)\<lparr>q_out := length (u_out ?u0) + length preface\<rparr>"
  have s: "up_steps h f ?k (ucore_of u1)" using handshake_steps [of h f ?u0] h by simp
  have "up_inv ?k" "P ?k" using p st start_inv up_inv_out by (auto simp: up_preserved_def)
  from preserved_steps [OF p s this] have i: "up_inv (ucore_of u1)" "P (ucore_of u1)" by auto
  show ?thesis
  proof (cases r1)
    case (Inl e)
    then show ?thesis using i run h by (simp add: up_drive_def up_failed_def)
  next
    case (Inr a)
    have "up_run xs u1 = (r, u)" using run h Inr by (simp add: up_drive_def up_failed_def)
    then show ?thesis using preserved_run [OF p i, of xs] hon fin h by simp
  qed
qed

end
