(* ===== verification/Upstream_Props.thy ===== *)
theory Upstream_Props
  imports Upstream_Run Conn_Example "HOL-Library.Code_Target_Nat"
begin

section \<open>What a connection to a backend guarantees\<close>

subsection \<open>A connection from its preface to its end\<close>

text \<open>
  Client 7 posts two octets on its stream 1 and gets a body of two octets, of which it has confirmed
  one; its request on stream 3 is waiting for a response when the backend closes. The kernel
  evaluates the run.
\<close>

definition get_head :: request_head where
  "get_head = \<lparr>rq_method = [71, 69, 84], rq_scheme = [104, 116, 116, 112, 115],
     rq_authority = None, rq_path = [47], rq_fields = []\<rparr>"

definition post_head :: request_head where
  "post_head = \<lparr>rq_method = [80, 79, 83, 84], rq_scheme = [104, 116, 116, 112, 115],
     rq_authority = None, rq_path = [47], rq_fields = []\<rparr>"

definition backend_octets :: octets where
  "backend_octets =
     [0,0,0, 4, 0, 0,0,0,0,
      0,0,4, 8, 0, 0,0,0,0, 0,0,0,7,
      0,0,1, 1, 4, 0,0,0,1, 0x88,
      0,0,2, 0, 0, 0,0,0,1, 104,105]"

definition two_inputs :: "up_input list" where
  "two_inputs =
     [UpArrive (TuRequest 1 1 post_head False 7), UpArrive (TuBody 1 [104, 105] True),
      UpArrive (TuRequest 2 3 get_head True 7), UpTick 0 ArmMessage, UpPump,
      UpTick 1 (ArmWritten 40), UpTick 1 (ArmRead backend_octets),
      UpFrame 1, UpFrame 1, UpFrame 1, UpFrame 1, UpPump,
      UpArrive (TuReleased 1 1), UpTick 2 ArmMessage, UpCheck 2]"

definition two_start :: upstream where
  "two_start = upstream_start 0 stats_default None tuning_default 0 0"

definition two_end :: upstream where
  "two_end = snd (up_drive two_inputs two_start)"

lemma two_evaluated:
  "(case up_drive two_inputs two_start of (r, u) \<Rightarrow>
     (r, u_told u, u_frames u, u_received u, u_taken u, u_inbox u, available (u_send_window u), u_recv_window u,
      u_routes u, u_mute u))
   = (Inr (),
      [((7, 1), EvBodyAccepted 1 2), ((7, 1), EvHead 1 \<lparr>rs_status = 200, rs_fields = []\<rparr> False),
       ((7, 1), EvData 1 [104, 105] False)],
      [SettingsFrame False [(2, 0), (4, 262144), (6, 65536)], WindowUpdate 0 983041,
       Headers 1 [0x83, 0x87, 0x84] False True, Headers 3 [0x82, 0x87, 0x84] True True,
       Data 1 [104, 105] True, SettingsFrame True []],
      [SettingsFrame False [], WindowUpdate 0 7, Headers 1 [0x88] False True, Data 1 [104, 105] False],
      [TuRequest 1 1 post_head False 7, TuBody 1 [104, 105] True, TuRequest 2 3 get_head True 7, TuReleased 1 1],
      [], 65540, \<lparr>rw_window = Window 1048574, rw_unreleased = 1, rw_initial = 1048576\<rparr>,
      [(1, \<lparr>ur_client_id = 1, ur_events = 7, ur_request = 1, ur_head_sent = True, ur_pending = 1\<rparr>),
       (3, \<lparr>ur_client_id = 3, ur_events = 7, ur_request = 2, ur_head_sent = False, ur_pending = 0\<rparr>)], [])"
  by code_simp

lemma two_honest: "up_run_honest two_inputs (snd (up_handshake two_start))"
  by code_simp

lemma two_run: "up_drive two_inputs two_start = (Inr (), two_end)"
  using two_evaluated by (simp add: two_end_def prod_eq_iff split: prod.splits)

lemmas two_from_start = two_run [unfolded two_start_def]

lemma two_facts:
  "u_told two_end = [((7, 1), EvBodyAccepted 1 2), ((7, 1), EvHead 1 \<lparr>rs_status = 200, rs_fields = []\<rparr> False),
     ((7, 1), EvData 1 [104, 105] False)]"
  "u_frames two_end = [SettingsFrame False [(2, 0), (4, 262144), (6, 65536)], WindowUpdate 0 983041,
     Headers 1 [0x83, 0x87, 0x84] False True, Headers 3 [0x82, 0x87, 0x84] True True,
     Data 1 [104, 105] True, SettingsFrame True []]"
  "u_received two_end = [SettingsFrame False [], WindowUpdate 0 7, Headers 1 [0x88] False True, Data 1 [104, 105] False]"
  "u_taken two_end = [TuRequest 1 1 post_head False 7, TuBody 1 [104, 105] True, TuRequest 2 3 get_head True 7, TuReleased 1 1]"
  "u_inbox two_end = []" "available (u_send_window two_end) = 65540" "u_mute two_end = []"
  "u_recv_window two_end = \<lparr>rw_window = Window 1048574, rw_unreleased = 1, rw_initial = 1048576\<rparr>"
  "u_routes two_end =
     [(1, \<lparr>ur_client_id = 1, ur_events = 7, ur_request = 1, ur_head_sent = True, ur_pending = 1\<rparr>),
      (3, \<lparr>ur_client_id = 3, ur_events = 7, ur_request = 2, ur_head_sent = False, ur_pending = 0\<rparr>)]"
  using two_evaluated by (simp_all add: two_run)

subsection \<open>Every request is answered\<close>

definition gone_route :: "up_route \<Rightarrow> requester \<times> service_event" where
  "gone_route r = ((ur_events r, ur_request r),
     if ur_head_sent r then EvReset (ur_client_id r) InternalError else EvGone (ur_client_id r))"

text \<open>The routes in the order in which their map is walked when the connection ends.\<close>

definition walked :: "upstream \<Rightarrow> (stream_id \<times> up_route) list" where
  "walked u = sort_key (u_hash u \<circ> fst) (u_routes u)"

lemma set_walked [simp]: "set (walked u) = set (u_routes u)"
  by (simp add: walked_def)

lemma fail_all_told:
  "u_told (fail_all_routes u) = u_told u
     @ map (\<lambda>p. ((pn_events p, pn_request p), EvGone (pn_client_id p))) (u_pending u)
     @ map (gone_route \<circ> snd) (walked u)"
  "u_mute (fail_all_routes u) = u_mute u" "u_inbox (fail_all_routes u) = u_inbox u" "u_taken (fail_all_routes u) = u_taken u"
proof -
  have p: "u_told (fold fail_pending_request ps v) = u_told v @ map (\<lambda>p. ((pn_events p, pn_request p), EvGone (pn_client_id p))) ps
      \<and> u_mute (fold fail_pending_request ps v) = u_mute v \<and> u_inbox (fold fail_pending_request ps v) = u_inbox v
      \<and> u_taken (fold fail_pending_request ps v) = u_taken v \<and> u_routes (fold fail_pending_request ps v) = u_routes v
      \<and> u_hash (fold fail_pending_request ps v) = u_hash v" for ps v
    by (induction ps arbitrary: v) (simp_all add: fail_pending_request_def tell_def)
  have r: "u_told (fold (\<lambda>(i, r). fail_route r) rs v) = u_told v @ map (gone_route \<circ> snd) rs
      \<and> u_mute (fold (\<lambda>(i, r). fail_route r) rs v) = u_mute v \<and> u_inbox (fold (\<lambda>(i, r). fail_route r) rs v) = u_inbox v
      \<and> u_taken (fold (\<lambda>(i, r). fail_route r) rs v) = u_taken v" for rs v
    by (induction rs arbitrary: v)
      (auto simp: fail_route_def gone_route_def tell_def on_stats_def Let_def split: prod.split)
  show "u_told (fail_all_routes u) = u_told u
     @ map (\<lambda>p. ((pn_events p, pn_request p), EvGone (pn_client_id p))) (u_pending u)
     @ map (gone_route \<circ> snd) (walked u)"
    "u_mute (fail_all_routes u) = u_mute u" "u_inbox (fail_all_routes u) = u_inbox u" "u_taken (fail_all_routes u) = u_taken u"
    using p [of "u_pending u" "u\<lparr>u_requests := [], u_pending := []\<rparr>"]
      r [of "walked u" "(fold fail_pending_request (u_pending u) (u\<lparr>u_requests := [], u_pending := []\<rparr>))\<lparr>u_routes := []\<rparr>"]
    by (simp_all add: fail_all_routes_def walked_def Let_def)
qed

lemma queue_frame_outside:
  "u_told (snd (up_queue_frame fr u)) = u_told u" "u_mute (snd (up_queue_frame fr u)) = u_mute u"
  "u_inbox (snd (up_queue_frame fr u)) = u_inbox u" "u_pending (snd (up_queue_frame fr u)) = u_pending u"
  "u_routes (snd (up_queue_frame fr u)) = u_routes u" "u_hash (snd (up_queue_frame fr u)) = u_hash u"
  by (cases rule: up_queue_cases [of fr u]; simp)+

lemma finish_told:
  "u_told (up_finish debug n stp u) = u_told u
     @ map (\<lambda>p. ((pn_events p, pn_request p), EvGone (pn_client_id p))) (u_pending u)
     @ map (gone_route \<circ> snd) (walked u) @ inbox_gone (u_inbox u)"
  by (cases stp) (simp_all add: up_finish_def Let_def fail_all_told queue_frame_outside walked_def)

lemma inbox_gone_tells: "TuRequest q i head es cl \<in> set ms \<Longrightarrow> ((cl, q), EvGone i) \<in> set (inbox_gone ms)"
  by (force simp: inbox_gone_def)

lemma gone_route_final: "final_for (ur_client_id r) (snd (gone_route r))"
  by (simp add: gone_route_def)

lemma accounted_preserved: "up_preserved False True accounted"
  unfolding up_preserved_def using accounted_step by (auto simp: accounted_def answered_def)

text \<open>C1. No request is lost. Whatever a connection to a backend goes through, and whatever ends it,
  by the time it is gone each request that reached its inbox has had an event sent to its client about
  that request which ends it: a response that ends, a reset, a refusal, or the news that the backend
  is gone. The exceptions are a request its own client cancelled, and one whose response ended in
  a trailer section that was malformed, which is dropped with the end of the response.\<close>

theorem every_request_answered:
  assumes "up_drive xs (upstream_start now stats rcd t idle timeout) = (r, u)"
    "TuRequest q i head es cl \<in> set (u_taken u) \<union> set (u_inbox u)"
  shows "(\<exists>ev. ((cl, q), ev) \<in> set (u_told (up_finish debug n stp u)) \<and> final_for i ev)
     \<or> (\<exists>code. TuCancel q code \<in> set (u_taken u)) \<or> ((cl, q), i) \<in> set (u_mute u)"
proof (cases "TuRequest q i head es cl \<in> set (u_taken u)")
  case False
  then have "((cl, q), EvGone i) \<in> set (u_told (up_finish debug n stp u))"
    using assms(2) inbox_gone_tells by (auto simp: finish_told)
  then show ?thesis by force
next
  case True
  have "accounted (ucore_of (upstream_start now stats rcd t idle timeout))" by (simp add: start_core accounted_def)
  from preserved_drive [OF accounted_preserved this assms(1)] have "accounted (ucore_of u)" by simp
  then have "accounted_for q i cl (ucore_of u)" using True by (auto simp: accounted_iff)
  then consider (waiting) p where "p \<in> set (u_pending u)" "pn_request p = q" "pn_client_id p = i" "pn_events p = cl"
    | (routed) j rt where "map_of (u_routes u) j = Some rt" "ur_request rt = q" "ur_client_id rt = i" "ur_events rt = cl"
    | (cancelled) code where "TuCancel q code \<in> set (u_taken u)"
    | (answered) "answered (cl, q) i (ucore_of u)"
    by (auto simp: accounted_for_def)
  then show ?thesis
  proof cases
    case waiting
    then have "((cl, q), EvGone i) \<in> set (u_told (up_finish debug n stp u))" by (force simp: finish_told)
    then show ?thesis by force
  next
    case routed
    then have "gone_route rt \<in> set (u_told (up_finish debug n stp u))"
      using map_of_SomeD [OF routed(1)] by (force simp: finish_told)
    then show ?thesis using gone_route_final [of rt] routed(2-4) by (auto simp: gone_route_def)
  next
    case answered
    then show ?thesis by (auto simp: answered_def finish_told)
  qed auto
qed

theorem every_request_answered_witness:
  "(\<exists>ev. ((7, 2), ev) \<in> set (u_told (up_finish [] 0 Quiet two_end)) \<and> final_for 3 ev)"
  using every_request_answered [OF two_from_start, of 2 3 get_head True 7 "[]" 0 Quiet]
  by (simp add: two_facts)

subsection \<open>Flow control\<close>

lemma send_ledger_preserved: "up_preserved False True up_send_ledger"
  unfolding up_preserved_def using up_send_ledger_step by (auto simp: up_send_ledger_def)

text \<open>C22. Request bodies stay within what the backend credited: at every point of every connection,
  also where it fails, the octets of DATA written and what is left of the connection's window make up
  the 65535 octets of the start and the increments of the WINDOW\_UPDATE frames handled, so never
  more has been written than that.\<close>

theorem upstream_sends_within_credit:
  assumes "up_drive xs (upstream_start now stats rcd t idle timeout) = (r, u)"
  shows "available (u_send_window u) + int (octets_sent (u_frames u)) = 65535 + int (credit_received (u_received u))
    \<and> int (octets_sent (u_frames u)) \<le> 65535 + int (credit_received (u_received u))"
proof -
  have "up_send_ledger (ucore_of (upstream_start now stats rcd t idle timeout))"
    by (simp add: start_core up_send_ledger_def octets_sent_def window_ok_def in_i32_def)
  from preserved_drive [OF send_ledger_preserved this assms] show ?thesis by (simp add: up_send_ledger_def)
qed

theorem upstream_sends_within_credit_witness:
  "octets_sent (u_frames two_end) = 2 \<and> credit_received (u_received two_end) = 7
   \<and> available (u_send_window two_end) + 2 = 65535 + 7"
  using upstream_sends_within_credit [OF two_from_start]
  by (simp add: two_facts octets_sent_def credit_received_def is_connection_def stream_id_connection_def)

lemma credit_preserved: "0 < W \<Longrightarrow> W \<le> max_window_size \<Longrightarrow> up_preserved True False (up_credit W)"
  unfolding up_preserved_def using up_credit_step by (auto simp: up_credit_def held_def overran_def)

text \<open>C6. The credit for response bodies is conserved: as long as no client confirms more than it was
  sent, the connection's receive window, the octets released and not yet announced, and what the
  clients hold of the responses in flight make up the configured window. Closing a stream, by either
  side and in any state, gives back what its client held. Credit is missing only where the backend
  sent more than a stream's own window allowed, and then that stream was reset for it.\<close>

theorem response_credit_conserved:
  assumes "up_drive xs (upstream_start now stats rcd t idle timeout) = (Inr (), u)"
    "up_run_honest xs (snd (up_handshake (upstream_start now stats rcd t idle timeout)))"
    "0 < tu_connection_window t" "tu_connection_window t \<le> max_window_size"
  shows "0 \<le> recv_available (u_recv_window u)
    \<and> int (rw_unreleased (u_recv_window u)) * 2 < tu_connection_window t
    \<and> (\<exists>lost. recv_available (u_recv_window u) + int (rw_unreleased (u_recv_window u))
             + int (sum_list (map (ur_pending \<circ> snd) (u_routes u))) + int lost = tu_connection_window t
         \<and> (lost = 0 \<or> (\<exists>i. RstStream i FlowControlError \<in> set (u_frames u))))"
proof -
  have "up_credit (tu_connection_window t) (ucore_of (upstream_start now stats rcd t idle timeout))"
    using assms(3,4) by (simp add: start_core up_credit_def held_def credit_ok_def recv_window_new_def recv_available_def exI [of _ 0])
  from preserved_drive [OF credit_preserved [OF assms(3,4)] this assms(1)] assms(2)
  have "up_credit (tu_connection_window t) (ucore_of u)" by simp
  then obtain lost where c: "credit_ok (tu_connection_window t) (u_recv_window u) (held (ucore_of u) + lost)"
    and l: "lost = 0 \<or> overran (ucore_of u)" by (auto simp: up_credit_def)
  have "recv_available (u_recv_window u) + int (rw_unreleased (u_recv_window u))
      + int (sum_list (map (ur_pending \<circ> snd) (u_routes u))) + int lost = tu_connection_window t"
    using c by (simp add: credit_ok_def held_def)
  then show ?thesis using c l by (auto simp: credit_ok_def overran_def)
qed

theorem response_credit_conserved_witness:
  "0 \<le> recv_available (u_recv_window two_end)
    \<and> (\<exists>lost. recv_available (u_recv_window two_end) + int (rw_unreleased (u_recv_window two_end))
             + int (sum_list (map (ur_pending \<circ> snd) (u_routes two_end))) + int lost = 1048576)"
proof -
  have t: "tu_connection_window tuning_default = 1048576" by code_simp
  have "up_run_honest two_inputs (snd (up_handshake (upstream_start 0 stats_default None tuning_default 0 0)))"
    using two_honest by (simp add: two_start_def)
  from response_credit_conserved [OF two_from_start this] show ?thesis
    by (auto simp: t max_window_size_def)
qed

subsection \<open>GOAWAY\<close>

definition refused_pending :: "pending_request \<Rightarrow> requester \<times> service_event" where
  "refused_pending p = ((pn_events p, pn_request p), EvReset (pn_client_id p) RefusedStream)"

definition refused_route :: "up_route \<Rightarrow> requester \<times> service_event" where
  "refused_route r = ((ur_events r, ur_request r), EvReset (ur_client_id r) RefusedStream)"

lemma refuse_all:
  "u_told (fold refuse_pending ps u) = u_told u @ map refused_pending ps"
  "u_routes (fold refuse_pending ps u) = u_routes u" "u_pending (fold refuse_pending ps u) = u_pending u"
  "u_peer_draining (fold refuse_pending ps u) = u_peer_draining u" "u_streams (fold refuse_pending ps u) = u_streams u"
  by (induction ps arbitrary: u) (simp_all add: refuse_pending_def refused_pending_def tell_def)

lemma release_conn_outside:
  "u_told (snd (up_release_conn n u)) = u_told u" "u_routes (snd (up_release_conn n u)) = u_routes u"
  "u_pending (snd (up_release_conn n u)) = u_pending u" "u_streams (snd (up_release_conn n u)) = u_streams u"
  "u_peer_draining (snd (up_release_conn n u)) = u_peer_draining u"
proof -
  obtain inc w where rel: "recv_release n (u_recv_window u) = (inc, w)" by (cases "recv_release n (u_recv_window u)")
  have q: "u_told (snd (up_queue_frame fr v)) = u_told v \<and> u_routes (snd (up_queue_frame fr v)) = u_routes v
     \<and> u_pending (snd (up_queue_frame fr v)) = u_pending v \<and> u_streams (snd (up_queue_frame fr v)) = u_streams v
     \<and> u_peer_draining (snd (up_queue_frame fr v)) = u_peer_draining v" for fr v
    by (cases rule: up_queue_cases [of fr v]) simp_all
  show "u_told (snd (up_release_conn n u)) = u_told u" "u_routes (snd (up_release_conn n u)) = u_routes u"
    "u_pending (snd (up_release_conn n u)) = u_pending u" "u_streams (snd (up_release_conn n u)) = u_streams u"
    "u_peer_draining (snd (up_release_conn n u)) = u_peer_draining u"
    by (cases inc; simp add: up_release_conn_def rel q)+
qed

lemma drain_nothing: "u_pending u = [] \<Longrightarrow> snd (drain_pending u) = u \<or> snd (drain_pending u) = sync_queued u"
  by (simp add: drain_pending_def)

text \<open>With nothing in the queue, closing a stream only closes it.\<close>

lemma forget_alone:
  assumes "u_pending u = []"
  shows "u_told (forget i u) = u_told u" "u_routes (forget i u) = AList.delete i (u_routes u)" "u_pending (forget i u) = []"
    "u_streams (forget i u) = wipe i (u_streams u)" "u_peer_draining (forget i u) = u_peer_draining u"
proof -
  let ?u1 = "u\<lparr>u_streams := wipe i (u_streams u), u_ready := filter (\<lambda>j. j \<noteq> i) (u_ready u)\<rparr>"
  let ?u2 = "case up_route_of i ?u1 of None \<Rightarrow> ?u1
     | Some r \<Rightarrow> let u' = on_stats close_stream (?u1\<lparr>u_routes := AList.delete i (u_routes ?u1),
                  u_requests := AList.delete (ur_request r) (u_requests ?u1)\<rparr>)
        in if ur_pending r > 0 then snd (up_release_conn (ur_pending r) (on_stats (unbuffer (ur_pending r)) u')) else u'"
  have 2: "u_told ?u2 = u_told u \<and> u_routes ?u2 = AList.delete i (u_routes u) \<and> u_pending ?u2 = []
     \<and> u_streams ?u2 = wipe i (u_streams u) \<and> u_peer_draining ?u2 = u_peer_draining u"
  proof (cases "up_route_of i u")
    case None
    then have "AList.delete i (u_routes u) = u_routes u"
      by (simp add: up_route_of_def map_of_eq_None_iff delete_idem)
    then show ?thesis using None assms by (simp add: up_route_of_def)
  next
    case (Some r)
    then have r: "up_route_of i ?u1 = Some r" by (simp add: up_route_of_def)
    show ?thesis
      unfolding r option.case Let_def using assms
      by (cases "ur_pending r > 0") (simp_all add: release_conn_outside on_stats_def)
  qed
  have f: "forget i u = snd (drain_pending ?u2)"
    by (simp only: forget_def forget_with_def wipe_def Let_def)
  have s: "u_told (sync_queued v) = u_told v \<and> u_peer_draining (sync_queued v) = u_peer_draining v" for v
    by (simp add: sync_queued_def on_record_def)
  show "u_told (forget i u) = u_told u" "u_routes (forget i u) = AList.delete i (u_routes u)" "u_pending (forget i u) = []"
    "u_streams (forget i u) = wipe i (u_streams u)" "u_peer_draining (forget i u) = u_peer_draining u"
    using 2 drain_nothing [of ?u2] s [of ?u2] unfolding f by auto
qed

lemma abandon_alone:
  assumes "u_pending u = []"
  shows "u_told (abandon_route i u) = u_told u @ (case map_of (u_routes u) i of None \<Rightarrow> [] | Some r \<Rightarrow> [refused_route r])"
    "u_routes (abandon_route i u) = AList.delete i (u_routes u)" "u_pending (abandon_route i u) = []"
    "u_streams (abandon_route i u) = wipe i (u_streams u)" "u_peer_draining (abandon_route i u) = u_peer_draining u"
proof -
  let ?v = "case up_route_of i u of None \<Rightarrow> u | Some r \<Rightarrow> tell (ur_events r, ur_request r) (EvReset (ur_client_id r) RefusedStream) u"
  have v: "u_told ?v = u_told u @ (case map_of (u_routes u) i of None \<Rightarrow> [] | Some r \<Rightarrow> [refused_route r])"
    "u_routes ?v = u_routes u" "u_pending ?v = []" "u_streams ?v = u_streams u" "u_peer_draining ?v = u_peer_draining u"
    using assms by (simp_all add: up_route_of_def refused_route_def tell_def split: option.split)
  show "u_told (abandon_route i u) = u_told u @ (case map_of (u_routes u) i of None \<Rightarrow> [] | Some r \<Rightarrow> [refused_route r])"
    "u_routes (abandon_route i u) = AList.delete i (u_routes u)" "u_pending (abandon_route i u) = []"
    "u_streams (abandon_route i u) = wipe i (u_streams u)" "u_peer_draining (abandon_route i u) = u_peer_draining u"
    unfolding abandon_route_def using forget_alone [OF v(3), of i] v by (simp_all only:)
qed

lemma abandon_all:
  assumes "u_pending u = []" "distinct is"
  shows "u_told (fold abandon_route is u)
      = u_told u @ concat (map (\<lambda>i. case map_of (u_routes u) i of None \<Rightarrow> [] | Some r \<Rightarrow> [refused_route r]) is)
    \<and> u_routes (fold abandon_route is u) = filter (\<lambda>(i, r). i \<notin> set is) (u_routes u)
    \<and> u_pending (fold abandon_route is u) = []
    \<and> (\<forall>j. get_stream j (u_streams (fold abandon_route is u)) = (if j \<in> set is then None else get_stream j (u_streams u)))"
  using assms
proof (induction "is" arbitrary: u)
  case (Cons i "is")
  note a = abandon_alone [OF Cons.prems(1), of i]
  have ni: "i \<notin> set is" "distinct is" using Cons.prems(2) by simp_all
  note ih = Cons.IH [OF a(3) ni(2)]
  have look: "map (\<lambda>j. case map_of (AList.delete i (u_routes u)) j of None \<Rightarrow> [] | Some r \<Rightarrow> [refused_route r]) is
      = map (\<lambda>j. case map_of (u_routes u) j of None \<Rightarrow> [] | Some r \<Rightarrow> [refused_route r]) is"
    using ni(1) by (intro map_cong refl) (auto split: option.split)
  have del: "filter (\<lambda>(j, r). j \<notin> set is) (AList.delete i (u_routes u)) = filter (\<lambda>(j, r). j \<notin> set (i # is)) (u_routes u)"
    unfolding AList.delete_eq by (auto simp: filter_filter intro!: filter_cong)
  show ?case using ih unfolding a look del by simp
qed (auto simp: filter_id_conv)

lemma refused_walked:
  "concat (map (\<lambda>i. case map_of rs i of None \<Rightarrow> [] | Some r \<Rightarrow> [refused_route r]) is)
    = map (refused_route \<circ> snd) (concat (map (\<lambda>i. case map_of rs i of None \<Rightarrow> [] | Some r \<Rightarrow> [(i, r)]) is))"
  by (induction "is") (auto split: option.split)

text \<open>Looking the keys up in any order finds the routes, in that order.\<close>

lemma beyond_routes:
  assumes "distinct_keys rs" "mset js = mset (map fst rs)"
  shows "mset (concat (map (\<lambda>i. case map_of rs i of None \<Rightarrow> [] | Some r \<Rightarrow> [(i, r)]) (filter P js)))
    = mset (filter (\<lambda>(i, r). P i) rs)"
proof -
  let ?g = "\<lambda>i. mset (case map_of rs i of None \<Rightarrow> [] | Some r \<Rightarrow> [(i, r)])"
  have "mset (concat (map (\<lambda>i. case map_of rs i of None \<Rightarrow> [] | Some r \<Rightarrow> [(i, r)]) is)) = sum_mset (image_mset ?g (mset is))" for "is"
    by (induction "is") simp_all
  moreover have "mset (filter P js) = mset (filter P (map fst rs))" using assms(2) by simp
  ultimately have "mset (concat (map (\<lambda>i. case map_of rs i of None \<Rightarrow> [] | Some r \<Rightarrow> [(i, r)]) (filter P js)))
      = mset (concat (map (\<lambda>i. case map_of rs i of None \<Rightarrow> [] | Some r \<Rightarrow> [(i, r)]) (filter P (map fst rs))))" by simp
  also have "concat (map (\<lambda>i. case map_of rs i of None \<Rightarrow> [] | Some r \<Rightarrow> [(i, r)]) (filter P (map fst qs)))
      = filter (\<lambda>(i, r). P i) qs" if "set qs \<subseteq> set rs" for qs
    using that
  proof (induction qs)
    case (Cons q qs)
    obtain i r where q: "q = (i, r)" by (cases q)
    have "map_of rs i = Some r" using Cons.prems q distinct_keys_map_of [OF assms(1)] by auto
    then show ?case using Cons q by simp
  qed simp
  finally show ?thesis by simp
qed

text \<open>C7. GOAWAY splits the work exactly. A backend that announces the last stream it will process
  keeps the requests up to it, with their streams as they were; every one still waiting, in order,
  and then every request beyond it, once each and in whatever order the map of routes is walked, is
  answered at once with a refusal, which its client may retry elsewhere, and nothing else is said
  to anyone.\<close>

theorem goaway_splits_the_work:
  assumes "up_drive xs (upstream_start now stats rcd t idle timeout) = (r, u)"
  shows "u_pending (begin_peer_drain last_id tm u) = []
    \<and> u_routes (begin_peer_drain last_id tm u) = filter (\<lambda>(i, r). i \<le> last_id) (u_routes u)
    \<and> (\<exists>beyond. mset beyond = mset (filter (\<lambda>(i, r). last_id < i) (u_routes u))
        \<and> u_told (begin_peer_drain last_id tm u)
            = u_told u @ map refused_pending (u_pending u) @ map (refused_route \<circ> snd) beyond)
    \<and> (\<forall>i. get_stream i (u_streams (begin_peer_drain last_id tm u))
             = (if i \<le> last_id then get_stream i (u_streams u) else None))"
proof -
  have "up_preserved False True (\<lambda>k. True)" by (simp add: up_preserved_def)
  from preserved_drive [OF this _ assms] have inv: "up_inv (ucore_of u)" by simp
  have keys: "distinct_keys (u_routes u)" using up_invD(3) [OF inv] by simp
  let ?u1 = "(on_record retire_record u)\<lparr>u_peer_draining := Some (last_id, tm + peer_drain_deadline)\<rparr>"
  let ?u2 = "fold refuse_pending (u_pending u) (?u1\<lparr>u_pending := []\<rparr>)"
  let ?is = "filter (\<lambda>i. i > last_id) (sort_key (u_hash ?u2) (map fst (u_routes u)))"
  let ?beyond = "concat (map (\<lambda>i. case map_of (u_routes u) i of None \<Rightarrow> [] | Some r \<Rightarrow> [(i, r)]) ?is)"
  have b: "begin_peer_drain last_id tm u = fold abandon_route ?is ?u2"
    by (simp add: begin_peer_drain_def Let_def refuse_all)
  have 2: "u_pending ?u2 = []" "u_routes ?u2 = u_routes u" "u_streams ?u2 = u_streams u"
    "u_told ?u2 = u_told u @ map refused_pending (u_pending u)"
    by (simp_all add: refuse_all) (simp add: on_record_def)
  have dist: "distinct ?is" using keys by (simp add: distinct_keys_def)
  note a = abandon_all [OF 2(1) dist, unfolded 2 refused_walked]
  have f: "filter (\<lambda>(i, r). i \<notin> set ?is) (u_routes u) = filter (\<lambda>(i, r). i \<le> last_id) (u_routes u)"
    by (intro filter_cong refl) (force simp: not_less)
  have g: "(if j \<in> set ?is then None else get_stream j (u_streams u)) = (if j \<le> last_id then get_stream j (u_streams u) else None)" for j
  proof (cases "map_of (u_routes u) j")
    case None
    then have "get_stream j (u_streams u) = None" using up_invD(4) [OF inv, of j] by (cases "get_stream j (u_streams u)") auto
    then show ?thesis by simp
  next
    case (Some r)
    then have "j \<in> fst ` set (u_routes u)" using map_of_SomeD [OF Some] by force
    then show ?thesis by (auto simp: not_le)
  qed
  have m: "mset ?beyond = mset (filter (\<lambda>(i, r). last_id < i) (u_routes u))"
    by (rule beyond_routes [OF keys]) simp
  show ?thesis using a m unfolding b f g append_assoc by blast
qed

theorem goaway_splits_the_work_witness:
  "u_told (begin_peer_drain 1 9 two_end) = u_told two_end @ [((7, 2), EvReset 3 RefusedStream)]
    \<and> map fst (u_routes (begin_peer_drain 1 9 two_end)) = [1]"
proof -
  have p: "u_pending two_end = []" by code_simp
  have ids: "(1 :: stream_id) < 3" "\<not> (3 :: stream_id) \<le> 1" by code_simp+
  have one: "filter (\<lambda>(i, r). 1 < i) (u_routes two_end) = [u_routes two_end ! 1]"
    by (simp add: two_facts ids)
  obtain beyond where b: "mset beyond = mset (filter (\<lambda>(i, r). 1 < i) (u_routes two_end))"
    "u_told (begin_peer_drain 1 9 two_end) = u_told two_end @ map refused_pending (u_pending two_end)
      @ map (refused_route \<circ> snd) beyond"
    "u_routes (begin_peer_drain 1 9 two_end) = filter (\<lambda>(i, r). i \<le> 1) (u_routes two_end)"
    using goaway_splits_the_work [OF two_from_start, of 1 9] by blast
  have "beyond = [u_routes two_end ! 1]" using b(1) unfolding one by simp
  then show ?thesis using b(2,3) ids by (simp add: two_facts p refused_route_def)
qed

text \<open>Two routes beyond the last stream, and a map that is walked backwards.\<close>

lemma refused_backwards:
  "(case begin_peer_drain 0 9 (two_end\<lparr>u_hash := \<lambda>i. if i = 3 then 0 else 1\<rparr>) of u \<Rightarrow>
     (drop 3 (u_told u), u_routes u))
   = ([((7, 2), EvReset 3 RefusedStream), ((7, 1), EvReset 1 RefusedStream)], [])"
  by code_simp

subsection \<open>The sender\<close>

definition stalled_at :: "stream_id \<Rightarrow> upstream \<Rightarrow> bool" where
  "stalled_at i u \<longleftrightarrow> (\<exists>s. up_get i u = Some s \<and> pending_send s > 0 \<and> up_visit_budget s u = 0)"

lemma stalled_queued: "up_get i u = Some s \<Longrightarrow> stalled_at j (up_put i (s\<lparr>st_queued := b\<rparr>) u) = stalled_at j u"
  by (auto simp: stalled_at_def pending_send_def up_visit_budget_def up_put_def up_get_def)

lemma up_visit_none:
  assumes "up_visit_ready_stream i u = (Inr None, u')"
  obtains s where "up_get i u = Some s" "u' = up_put i (s\<lparr>st_queued := False\<rparr>) u" "stalled_at i u"
proof (cases "up_get i u")
  case None
  then show ?thesis using assms by (simp add: up_visit_ready_stream_def)
next
  case (Some s)
  let ?s = "s\<lparr>st_queued := False\<rparr>"
  have q: "pending_send ?s = pending_send s" "up_visit_budget ?s u = up_visit_budget s u"
    by (simp_all add: pending_send_def up_visit_budget_def)
  have e: "up_visit_emit i chunk es tr s1 u \<noteq> (Inr None, u')" for chunk es tr s1
    by (auto simp: up_visit_emit_def elim!: and_then_Inr)
  obtain chunk es tr s1 where tk: "visit_take ?s (up_visit_budget s u) = (chunk, es, tr, s1)"
    by (cases "visit_take ?s (up_visit_budget s u)") auto
  have "pending_send s > 0 \<and> up_visit_budget s u = 0"
    using assms e [of chunk es tr s1] by (auto simp: up_visit_ready_stream_def Some Let_def q tk split: if_splits)
  then show ?thesis using that [OF Some] assms Some
    by (auto simp: up_visit_ready_stream_def Let_def q stalled_at_def)
qed

lemma up_visit_lap_wrote: "up_visit_lap lap st sv True u = (Inr (st', sv', w'), u') \<Longrightarrow> w'"
  by (induction lap arbitrary: st sv u) (fastforce split: option.splits bool.splits elim!: and_then_Inr)+

lemma up_visit_lap_stalled:
  assumes "up_visit_lap lap st sv False u = (Inr (st', sv', False), u')"
  shows "st' = st @ lap \<and> sv' = sv \<and> (\<forall>j. stalled_at j u' = stalled_at j u) \<and> (\<forall>i \<in> set lap. stalled_at i u)
    \<and> u_out u' = u_out u"
  using assms
proof (induction lap arbitrary: st u)
  case (Cons i lap)
  obtain v u1 where v: "up_visit_ready_stream i u = (Inr v, u1)"
    and r: "(case v of Some True \<Rightarrow> up_visit_lap lap st (sv @ [i]) True | Some False \<Rightarrow> up_visit_lap lap st sv True
      | None \<Rightarrow> up_visit_lap lap (st @ [i]) sv False) u1 = (Inr (st', sv', False), u')"
    using Cons.prems by (auto elim!: and_then_Inr)
  have n: "v = None" using r up_visit_lap_wrote by (cases v) (auto split: bool.splits)
  obtain s where s: "up_get i u = Some s" "u1 = up_put i (s\<lparr>st_queued := False\<rparr>) u" "stalled_at i u"
    using up_visit_none v n by blast
  have same: "stalled_at j u1 = stalled_at j u" for j using stalled_queued [OF s(1)] s(2) by simp
  show ?case using Cons.IH [of "st @ [i]" u1] r n same s by (auto simp: up_put_def)
qed simp

lemma up_rebuild_stalled: "stalled_at j (up_rebuild_ring ring u) = stalled_at j u" "set (u_ready (up_rebuild_ring ring u)) \<subseteq> set ring"
  "u_out (up_rebuild_ring ring u) = u_out u"
proof -
  have m: "stalled_at j (up_mark_queued i v) = stalled_at j v" for i v
    using stalled_queued by (simp add: up_mark_queued_def split: option.split)
  have f: "stalled_at j (fold up_mark_queued is v) = stalled_at j v \<and> u_ready (fold up_mark_queued is v) = u_ready v
      \<and> u_out (fold up_mark_queued is v) = u_out v" for "is" v
    by (induction "is" arbitrary: v) (simp_all add: m)
  have r: "stalled_at j (v\<lparr>u_ready := x\<rparr>) = stalled_at j v" for v x
    by (simp add: stalled_at_def up_get_def up_visit_budget_def)
  show "stalled_at j (up_rebuild_ring ring u) = stalled_at j u" "set (u_ready (up_rebuild_ring ring u)) \<subseteq> set ring"
    "u_out (up_rebuild_ring ring u) = u_out u"
    using f [of ring "u\<lparr>u_ready := ring\<rparr>"] by (auto simp: up_rebuild_ring_def Let_def r)
qed

lemma up_pump_lap_stalled:
  assumes "up_pump_lap u = (Inr False, u')" "i \<in> set (u_ready u')"
  shows "stalled_at i u'"
proof -
  let ?u0 = "u\<lparr>u_ready := []\<rparr>"
  obtain st sv u1 where l: "up_visit_lap (u_ready u) [] [] False ?u0 = (Inr (st, sv, False), u1)"
    and u': "u' = up_rebuild_ring (st @ sv) u1"
    using assms(1) by (auto simp: up_pump_lap_def elim!: and_then_Inr)
  note s = up_visit_lap_stalled [OF l]
  then have "i \<in> set (u_ready u)" using assms(2) up_rebuild_stalled(2) [of "st @ sv" u1] u' by auto
  then show ?thesis using s u' by (simp add: up_rebuild_stalled)
qed

lemma up_pump_stalled:
  assumes "up_pump_outbound u = (Inr (), u')" "length (u_out u') < max_write_queue" "i \<in> set (u_ready u')"
  shows "stalled_at i u'"
  using assms
proof (induction u rule: up_pump_outbound.induct)
  case (1 u)
  show ?case
  proof (cases "u_ready u = [] \<or> length (u_out u) \<ge> max_write_queue")
    case True
    then show ?thesis using 1(2-4) by (subst (asm) up_pump_outbound.simps) auto
  next
    case False
    obtain r u1 where p: "up_pump_lap u = (r, u1)" by (cases "up_pump_lap u")
    have e: "up_pump_outbound u = (case r of Inl e \<Rightarrow> (Inl e, u1) | Inr wrote \<Rightarrow> if wrote then up_pump_outbound u1 else (Inr (), u1))"
      using False p by (subst up_pump_outbound.simps) (simp split: sum.split)
    then obtain wrote where r: "r = Inr wrote" using 1(2) by (cases r) auto
    show ?thesis
    proof (cases wrote)
      case True
      then show ?thesis using 1(1) [OF False p [symmetric] r True] 1(2-4) e r by simp
    next
      case w: False
      then show ?thesis using up_pump_lap_stalled [of u u1 i] 1(2,4) e r p by simp
    qed
  qed
qed

text \<open>C23. The sender stops only at a limit. When a pass of it returns and the write queue is not full,
  every stream it left in its ring has octets waiting and cannot send one of them: its own window, the
  connection's window or the backend's frame size is at nothing.\<close>

theorem sender_stops_only_at_a_limit:
  assumes "up_pump_outbound u = (Inr (), u')" "length (u_out u') < max_write_queue" "i \<in> set (u_ready u')"
  shows "\<exists>s. up_get i u' = Some s \<and> pending_send s > 0
    \<and> (sendable (st_send_window s) = 0 \<or> sendable (u_send_window u') = 0 \<or> max_frame_size (u_peer_settings u') = 0)"
  using up_pump_stalled [OF assms]
  by (auto simp: stalled_at_def up_visit_budget_def send_budget_def min_def unat_eq_0 split: if_splits)

text \<open>A backend that allows a stream no octet: the request's body waits in the ring.\<close>

definition blocked_octets :: octets where
  "blocked_octets = [0,0,6, 4, 0, 0,0,0,0, 0,4, 0,0,0,0]"

definition blocked_inputs :: "up_input list" where
  "blocked_inputs =
     [UpTick 0 (ArmRead blocked_octets), UpFrame 0,
      UpArrive (TuRequest 1 1 post_head False 7), UpArrive (TuBody 1 [104, 105] True), UpTick 0 ArmMessage]"

definition blocked_start :: upstream where
  "blocked_start = snd (up_drive blocked_inputs two_start)"

definition blocked_end :: upstream where
  "blocked_end = snd (up_pump_outbound blocked_start)"

lemma blocked_evaluated:
  "fst (up_pump_outbound blocked_start) = Inr () \<and> length (u_out (snd (up_pump_outbound blocked_start))) < max_write_queue
   \<and> u_ready (snd (up_pump_outbound blocked_start)) = [1]"
  by code_simp

theorem sender_stops_only_at_a_limit_witness:
  "\<exists>s. up_get 1 blocked_end = Some s \<and> pending_send s > 0
    \<and> (sendable (st_send_window s) = 0 \<or> sendable (u_send_window blocked_end) = 0 \<or> max_frame_size (u_peer_settings blocked_end) = 0)"
proof -
  have "up_pump_outbound blocked_start = (Inr (), blocked_end)"
    using blocked_evaluated by (simp add: blocked_end_def prod_eq_iff)
  from sender_stops_only_at_a_limit [OF this, of 1] blocked_evaluated show ?thesis
    by (simp add: blocked_end_def)
qed

end
