(* ===== verification/Upstream_Relay.thy ===== *)
theory Upstream_Relay
  imports Upstream_Props
begin

section \<open>Response bodies arrive as they were sent\<close>

text \<open>
  Every requester is given the payloads of one stream, its own, in the order the backend sent them, and
  nothing else. Proved of the core's steps: each stream that has been opened has an owner, the requester
  it was opened for, and what the owner was told is what was heard on the stream, up to where the stream
  was closed.
\<close>

subsection \<open>What was asked, heard and said\<close>

fun asked :: "to_upstream list \<Rightarrow> requester list" where
  "asked [] = []"
| "asked (TuRequest r i head es cl # ms) = (cl, r) # asked ms"
| "asked (m # ms) = asked ms"

fun said :: "requester \<Rightarrow> (requester \<times> service_event) list \<Rightarrow> octets list" where
  "said q [] = []"
| "said q ((q', EvData i data es) # evs) = (if q' = q then data # said q evs else said q evs)"
| "said q (ev # evs) = said q evs"

definition payloads :: "stream_id \<Rightarrow> (stream_id \<times> octets) list \<Rightarrow> octets list" where
  "payloads i hs = map snd (filter (\<lambda>h. fst h = i) hs)"

definition for_request :: "pending_request \<Rightarrow> requester" where
  "for_request p = (pn_events p, pn_request p)"

definition of_route :: "up_route \<Rightarrow> requester" where
  "of_route r = (ur_events r, ur_request r)"

lemma asked_snoc [simp]: "asked (ms @ [m]) = asked ms @ asked [m]"
  by (induction ms rule: asked.induct) (cases m; simp)+

lemma asked_other [simp]: "\<not> is_request m \<Longrightarrow> asked [m] = []"
  by (cases m) simp_all

lemma said_snoc: "said q (evs @ [ev]) = said q evs @ said q [ev]"
  by (induction q evs rule: said.induct) (cases ev, cases "snd ev"; simp)+

lemma said_other [simp]: "\<not> is_data ev \<Longrightarrow> said q (evs @ [(q', ev)]) = said q evs"
  by (cases ev) (simp_all add: said_snoc)

lemma said_data [simp]: "said q (evs @ [(q', EvData i data es)]) = said q evs @ (if q' = q then [data] else [])"
  by (simp add: said_snoc)

lemma payloads_snoc [simp]: "payloads j (hs @ [(i, data)]) = payloads j hs @ (if i = j then [data] else [])"
  by (simp add: payloads_def)

lemma same_owner [simp]: "same_route r r' \<Longrightarrow> of_route r' = of_route r" "same_request p p' \<Longrightarrow> for_request p' = for_request p"
  by (simp_all add: same_route_def same_request_def of_route_def for_request_def)

lemma for_request_of [simp]: "for_request (request_of r i head es cl) = (cl, r)"
  by (simp add: for_request_def request_of_def)

lemma of_route_counted [simp]: "of_route (r\<lparr>ur_pending := n\<rparr>) = of_route r"
  by (simp add: of_route_def)

subsection \<open>Owners\<close>

definition waiting :: "requester \<Rightarrow> ucore \<Rightarrow> nat" where
  "waiting q k = count (image_mset for_request (q_pending k)) q"

definition owners_ok :: "(stream_id \<Rightarrow> requester option) \<Rightarrow> ucore \<Rightarrow> bool" where
  "owners_ok ow k \<longleftrightarrow>
     (\<forall>i r. map_of (q_routes k) i = Some r \<longrightarrow> ow i = Some (of_route r))
   \<and> (\<forall>i q. ow i = Some q \<longrightarrow> i \<le> highest_local_id (q_streams k))
   \<and> (\<forall>i j q. ow i = Some q \<longrightarrow> ow j = Some q \<longrightarrow> i = j)
   \<and> (\<forall>q. waiting q k + (if q \<in> ran ow then 1 else 0) \<le> count_list (asked (q_taken k)) q)"

definition relayed :: "(stream_id \<Rightarrow> requester option) \<Rightarrow> ucore \<Rightarrow> bool" where
  "relayed ow k \<longleftrightarrow>
     (\<forall>i q. ow i = Some q \<longrightarrow> (\<exists>rest. payloads i (q_heard k) = said q (q_told k) @ rest
        \<and> (get_stream i (q_streams k) \<noteq> None \<longrightarrow> rest = [])))
   \<and> (\<forall>q. q \<notin> ran ow \<longrightarrow> said q (q_told k) = [])
   \<and> (\<forall>i. highest_local_id (q_streams k) < i \<longrightarrow> payloads i (q_heard k) = [])"

definition relay_inv :: "ucore \<Rightarrow> bool" where
  "relay_inv k \<longleftrightarrow> (distinct (asked (q_taken k)) \<longrightarrow> (\<exists>ow. owners_ok ow k \<and> relayed ow k))"

lemma owners_okD:
  assumes "owners_ok ow k"
  shows "map_of (q_routes k) i = Some r \<Longrightarrow> ow i = Some (of_route r)"
    "ow i = Some q \<Longrightarrow> i \<le> highest_local_id (q_streams k)"
    "ow i = Some q \<Longrightarrow> ow j = Some q \<Longrightarrow> i = j"
    "waiting q k + (if q \<in> ran ow then 1 else 0) \<le> count_list (asked (q_taken k)) q"
  using assms unfolding owners_ok_def by blast+

text \<open>Most steps say nothing, hear nothing and open nothing.\<close>

lemma owners_okI:
  assumes "\<And>i r. map_of (q_routes k) i = Some r \<Longrightarrow> ow i = Some (of_route r)"
    "\<And>i q. ow i = Some q \<Longrightarrow> i \<le> highest_local_id (q_streams k)"
    "\<And>i j q. ow i = Some q \<Longrightarrow> ow j = Some q \<Longrightarrow> i = j"
    "\<And>q. waiting q k + (if q \<in> ran ow then 1 else 0) \<le> count_list (asked (q_taken k)) q"
  shows "owners_ok ow k"
  using assms unfolding owners_ok_def by blast

lemma relayedD:
  assumes "relayed ow k"
  shows "ow i = Some q \<Longrightarrow> \<exists>rest. payloads i (q_heard k) = said q (q_told k) @ rest
      \<and> (get_stream i (q_streams k) \<noteq> None \<longrightarrow> rest = [])"
    "q \<notin> ran ow \<Longrightarrow> said q (q_told k) = []"
    "highest_local_id (q_streams k) < i \<Longrightarrow> payloads i (q_heard k) = []"
  using assms unfolding relayed_def by blast+

lemma relayedI:
  assumes "\<And>i q. ow i = Some q \<Longrightarrow> \<exists>rest. payloads i (q_heard k) = said q (q_told k) @ rest
      \<and> (get_stream i (q_streams k) \<noteq> None \<longrightarrow> rest = [])"
    "\<And>q. q \<notin> ran ow \<Longrightarrow> said q (q_told k) = []"
    "\<And>i. highest_local_id (q_streams k) < i \<Longrightarrow> payloads i (q_heard k) = []"
  shows "relayed ow k"
  using assms unfolding relayed_def by blast

text \<open>Most steps say nothing, hear nothing and open nothing.\<close>

lemma owners_kept:
  assumes "owners_ok ow k"
    and routes: "\<And>i r. map_of (q_routes k') i = Some r \<Longrightarrow> \<exists>r0. map_of (q_routes k) i = Some r0 \<and> of_route r = of_route r0"
    and high: "highest_local_id (q_streams k') = highest_local_id (q_streams k)"
    and count: "\<And>q. waiting q k' + count_list (asked (q_taken k)) q \<le> waiting q k + count_list (asked (q_taken k')) q"
  shows "owners_ok ow k'"
proof (rule owners_okI)
  show "ow i = Some (of_route r)" if "map_of (q_routes k') i = Some r" for i r
    using routes [OF that] owners_okD(1) [OF assms(1)] by auto
  show "waiting q k' + (if q \<in> ran ow then 1 else 0) \<le> count_list (asked (q_taken k')) q" for q
    using owners_okD(4) [OF assms(1), of q] count [of q] by linarith
qed (use owners_okD(2,3) [OF assms(1)] high in \<open>simp_all only:\<close>)

lemma relayed_kept:
  assumes "relayed ow k" "\<And>q. said q (q_told k') = said q (q_told k)" "q_heard k' = q_heard k"
    and "highest_local_id (q_streams k') = highest_local_id (q_streams k)"
    and live: "\<And>i. get_stream i (q_streams k') \<noteq> None \<Longrightarrow> get_stream i (q_streams k) \<noteq> None"
  shows "relayed ow k'"
proof (rule relayedI)
  show "\<exists>rest. payloads i (q_heard k') = said q (q_told k') @ rest \<and> (get_stream i (q_streams k') \<noteq> None \<longrightarrow> rest = [])"
    if "ow i = Some q" for i q
    using relayedD(1) [OF assms(1) that] live unfolding assms(2,3) by blast
qed (use relayedD(2,3) [OF assms(1)] assms(2-4) in \<open>simp_all only:\<close>)

lemma quiet_step:
  assumes "relay_inv k"
    and "\<And>i r. map_of (q_routes k') i = Some r \<Longrightarrow> \<exists>r0. map_of (q_routes k) i = Some r0 \<and> of_route r = of_route r0"
    and "highest_local_id (q_streams k') = highest_local_id (q_streams k)"
    and "\<And>q. waiting q k' + count_list (asked (q_taken k)) q \<le> waiting q k + count_list (asked (q_taken k')) q"
    and "\<And>q. said q (q_told k') = said q (q_told k)" "q_heard k' = q_heard k"
    and "\<And>i. get_stream i (q_streams k') \<noteq> None \<Longrightarrow> get_stream i (q_streams k) \<noteq> None"
    and "distinct (asked (q_taken k')) \<Longrightarrow> distinct (asked (q_taken k))"
  shows "relay_inv k'"
  unfolding relay_inv_def
proof
  assume "distinct (asked (q_taken k'))"
  then have "\<exists>ow. owners_ok ow k \<and> relayed ow k" using assms(1,8) unfolding relay_inv_def by blast
  then obtain ow where o: "owners_ok ow k" "relayed ow k" by blast
  have "owners_ok ow k'" using owners_kept [OF o(1), of k'] assms(2-4) by blast
  moreover have "relayed ow k'" using relayed_kept [OF o(2), of k'] assms(3,5-7) by blast
  ultimately show "\<exists>ow. owners_ok ow k' \<and> relayed ow k'" by blast
qed

subsection \<open>The steps that matter\<close>

lemma distinct_counts: "distinct xs \<Longrightarrow> count_list xs q \<le> 1"
  by (induction xs) (auto simp: count_list_0_iff)

lemma opens_relays:
  assumes o: "owners_ok ow k" and r: "relayed ow k" and d: "distinct (asked (q_taken k))"
    and p: "q_pending k = add_mset p ps" and opn: "open_local i (q_streams k) = (Inr s, t)"
    and k': "k' = k\<lparr>q_pending := ps, q_streams := t, q_routes := AList.update i (route_new p) (q_routes k),
      q_requests := AList.update (pn_request p) i (q_requests k)\<rparr>"
  shows "owners_ok (ow(i \<mapsto> for_request p)) k' \<and> relayed (ow(i \<mapsto> for_request p)) k'"
proof -
  let ?q = "for_request p"
  have high: "highest_local_id t = i" "highest_local_id (q_streams k) < i" using highest_local_opened [OF opn] by simp_all
  have w: "waiting q k = waiting q k' + (if q = ?q then 1 else 0)" for q by (simp add: waiting_def p k')
  have "count_list (asked (q_taken k)) ?q \<le> 1"
    by (rule distinct_counts [OF d])
  then have new: "?q \<notin> ran ow"
    using owners_okD(4) [OF o, of ?q] w [of ?q] by (cases "?q \<in> ran ow") simp_all
  have fresh: "ow i = None" using owners_okD(2) [OF o, of i] high(2) by (cases "ow i") auto
  have ran: "ran (ow(i \<mapsto> ?q)) = insert ?q (ran ow)" using fresh by (simp add: ran_map_upd)
  have own: "ow j = Some q \<Longrightarrow> j \<noteq> i \<and> q \<noteq> ?q" for j q using new fresh by (auto simp: ran_def)
  have "owners_ok (ow(i \<mapsto> ?q)) k'"
  proof (rule owners_okI)
    show "(ow(i \<mapsto> ?q)) j = Some (of_route rt)" if "map_of (q_routes k') j = Some rt" for j rt
      using that owners_okD(1) [OF o, of j rt]
      by (auto simp: k' update_conv route_new_def of_route_def for_request_def split: if_splits)
    show "j \<le> highest_local_id (q_streams k')" if "(ow(i \<mapsto> ?q)) j = Some q" for j q
      using that owners_okD(2) [OF o, of j q] high by (auto simp: k' split: if_splits)
    show "j = l" if "(ow(i \<mapsto> ?q)) j = Some q" "(ow(i \<mapsto> ?q)) l = Some q" for j l q
    proof (cases "j = i \<or> l = i")
      case True
      then show ?thesis using that own [of j q] own [of l q] by (cases "j = i"; cases "l = i") simp_all
    next
      case False
      then show ?thesis using that owners_okD(3) [OF o, of j q l] by simp
    qed
    show "waiting q k' + (if q \<in> ran (ow(i \<mapsto> ?q)) then 1 else 0) \<le> count_list (asked (q_taken k')) q" for q
      using owners_okD(4) [OF o, of q] w [of q] new by (cases "q = ?q") (simp_all add: ran k')
  qed
  moreover have "relayed (ow(i \<mapsto> ?q)) k'"
  proof (rule relayedI)
    show "\<exists>rest. payloads j (q_heard k') = said q (q_told k') @ rest \<and> (get_stream j (q_streams k') \<noteq> None \<longrightarrow> rest = [])"
      if "(ow(i \<mapsto> ?q)) j = Some q" for j q
    proof (cases "j = i")
      case True
      then show ?thesis using that relayedD(2) [OF r new] relayedD(3) [OF r high(2)] by (simp add: k')
    next
      case False
      then show ?thesis using that relayedD(1) [OF r, of j q] by (simp add: k' get_opened [OF opn])
    qed
    show "said q (q_told k') = []" if "q \<notin> ran (ow(i \<mapsto> ?q))" for q
      using that relayedD(2) [OF r, of q] by (simp add: ran k')
    show "payloads j (q_heard k') = []" if "highest_local_id (q_streams k') < j" for j
      using that high relayedD(3) [OF r, of j] by (simp add: k')
  qed
  ultimately show ?thesis by blast
qed

lemma relays_relays:
  assumes o: "owners_ok ow k" and r: "relayed ow k" and g: "get_stream i (q_streams k) = Some s"
    and rt: "map_of (q_routes k) i = Some rt"
    and k': "k' = k\<lparr>q_heard := q_heard k @ [(i, data)], q_told := q_told k @ [(of_route rt, EvData j data es)]\<rparr>"
  shows "owners_ok ow k' \<and> relayed ow k'"
proof -
  let ?q = "of_route rt"
  have i: "ow i = Some ?q" by (rule owners_okD(1) [OF o rt])
  have "owners_ok ow k'" by (rule owners_kept [OF o]) (simp_all add: k' waiting_def)
  moreover have "relayed ow k'"
  proof (rule relayedI)
    show "\<exists>rest. payloads l (q_heard k') = said q (q_told k') @ rest \<and> (get_stream l (q_streams k') \<noteq> None \<longrightarrow> rest = [])"
      if l: "ow l = Some q" for l q
    proof (cases "l = i")
      case True
      then show ?thesis using l i relayedD(1) [OF r i] g by (simp add: k')
    next
      case False
      then have "q \<noteq> ?q" using owners_okD(3) [OF o l, of i] i by blast
      then show ?thesis using relayedD(1) [OF r l] False by (auto simp: k')
    qed
    show "said q (q_told k') = []" if "q \<notin> ran ow" for q
      using that relayedD(2) [OF r that] i by (auto simp: k' ran_def)
    show "payloads l (q_heard k') = []" if "highest_local_id (q_streams k') < l" for l
      using that relayedD(3) [OF r, of l] owners_okD(2) [OF o i] by (auto simp: k')
  qed
  ultimately show ?thesis by blast
qed

lemma drops_relays:
  assumes o: "owners_ok ow k" and r: "relayed ow k" and g: "get_stream i (q_streams k) = None"
    and i: "i \<le> highest_local_id (q_streams k)" and k': "k' = k\<lparr>q_heard := q_heard k @ [(i, data)]\<rparr>"
  shows "owners_ok ow k' \<and> relayed ow k'"
proof -
  have "owners_ok ow k'" by (rule owners_kept [OF o]) (simp_all add: k' waiting_def)
  moreover have "relayed ow k'"
  proof (rule relayedI)
    show "\<exists>rest. payloads l (q_heard k') = said q (q_told k') @ rest \<and> (get_stream l (q_streams k') \<noteq> None \<longrightarrow> rest = [])"
      if "ow l = Some q" for l q
      using relayedD(1) [OF r that] g by (auto simp: k')
    show "said q (q_told k') = []" if "q \<notin> ran ow" for q
      using relayedD(2) [OF r that] by (simp add: k')
    show "payloads l (q_heard k') = []" if "highest_local_id (q_streams k') < l" for l
      using that i relayedD(3) [OF r, of l] by (auto simp: k')
  qed
  ultimately show ?thesis by blast
qed

lemma relay_step:
  assumes s: "up_core_step h False k k'" and inv: "up_inv k" and rel: "relay_inv k"
  shows "relay_inv k'"
  using s
proof cases
  case (opens p ps i s t)
  then show ?thesis using rel opens_relays [OF _ _ _ opens(2,3,1)] by (auto simp: relay_inv_def)
next
  case (relays i s r data es)
  then show ?thesis using rel relays_relays [OF _ _ relays(2,3), where k' = k' and data = data and j = "ur_client_id r" and es = es]
    by (auto simp: relay_inv_def of_route_def)
next
  case (drops i data)
  then show ?thesis using rel drops_relays [OF _ _ drops(2,3,1)] by (auto simp: relay_inv_def)
next
  case (strays i s n w data)
  then show ?thesis using up_invD(4) [OF inv, of i s] by simp
next
  case (resizes d r t)
  show ?thesis
    by (rule quiet_step [OF rel])
      (use resizes get_delta [OF resizes(2)] highest_local_delta [OF resizes(2)] in \<open>simp_all add: waiting_def\<close>)
next
  case (unqueued r code)
  have "count (image_mset for_request (filter_mset (\<lambda>p. pn_request p \<noteq> r) (q_pending k))) q \<le> waiting q k" for q
    unfolding waiting_def by (intro mset_subset_eq_count image_mset_subseteq_mono multiset_filter_subset)
  then show ?thesis by (intro quiet_step [OF rel]) (simp_all add: unqueued waiting_def)
qed ((rule quiet_step [OF rel]; auto simp: waiting_def dropped_route_def update_conv delete_conv get_released get_retire
       split: if_splits)+)

lemma relay_preserved: "up_preserved h False relay_inv"
  unfolding up_preserved_def
proof (intro conjI allI impI)
  show "relay_inv (k\<lparr>q_out := n\<rparr>)" if "relay_inv k" for k n
    by (rule quiet_step [OF that]) (simp_all add: waiting_def)
qed (blast intro: relay_step)

lemma relay_start: "relay_inv (ucore_of (upstream_start now stats rcd t idle timeout))"
proof -
  have "owners_ok Map.empty (ucore_of (upstream_start now stats rcd t idle timeout))"
    by (rule owners_okI) (simp_all add: start_core waiting_def)
  moreover have "relayed Map.empty (ucore_of (upstream_start now stats rcd t idle timeout))"
    by (rule relayedI) (simp_all add: start_core payloads_def)
  ultimately show ?thesis unfolding relay_inv_def by blast
qed

subsection \<open>The property\<close>

text \<open>C2. Response bodies are relayed intact. At any point of a connection to a backend that has met no
  error, if no request was handed over twice, every stream belongs to at most one request and every
  request to at most one stream; the DATA a request's client was told of are the payloads of that
  stream's DATA frames, each whole, in the order received, none twice and none of another stream's; while
  the stream is live not one is missing, and a request that was given no stream is told of none.\<close>

theorem responses_relayed_in_order:
  assumes "up_drive xs (upstream_start now stats rcd t idle timeout) = (Inr (), u)" "distinct (asked (u_taken u))"
  shows "\<exists>owner. (\<forall>i r. up_route_of i u = Some r \<longrightarrow> owner i = Some (ur_events r, ur_request r))
    \<and> (\<forall>i j q. owner i = Some q \<and> owner j = Some q \<longrightarrow> i = j)
    \<and> (\<forall>i q. owner i = Some q \<longrightarrow>
         (\<exists>rest. payloads i (heard_of (u_received u)) = said q (u_told u) @ rest \<and> (up_get i u \<noteq> None \<longrightarrow> rest = [])))
    \<and> (\<forall>q. q \<notin> ran owner \<longrightarrow> said q (u_told u) = [])"
proof -
  have "relay_inv (ucore_of u)" using preserved_drive [OF relay_preserved relay_start assms(1), of False] by simp
  then obtain ow where o: "owners_ok ow (ucore_of u)" "relayed ow (ucore_of u)"
    using assms(2) by (auto simp: relay_inv_def)
  show ?thesis
  proof (intro exI [of _ ow] conjI allI impI)
    show "ow i = Some (ur_events r, ur_request r)" if "up_route_of i u = Some r" for i r
      using owners_okD(1) [OF o(1), of i r] that by (simp add: up_route_of_def of_route_def)
    show "i = j" if "ow i = Some q \<and> ow j = Some q" for i j q
      using owners_okD(3) [OF o(1), of i q j] that by simp
    show "\<exists>rest. payloads i (heard_of (u_received u)) = said q (u_told u) @ rest \<and> (up_get i u \<noteq> None \<longrightarrow> rest = [])"
      if "ow i = Some q" for i q
      using relayedD(1) [OF o(2) that] by (simp add: up_get_def)
    show "said q (u_told u) = []" if "q \<notin> ran ow" for q using relayedD(2) [OF o(2) that] by simp
  qed
qed

theorem responses_relayed_in_order_witness:
  "\<exists>owner. owner 1 = Some (7, 1) \<and> payloads 1 (heard_of (u_received two_end)) = said (7, 1) (u_told two_end)
    \<and> said (7, 1) (u_told two_end) = [[104, 105]] \<and> said (7, 2) (u_told two_end) = []"
proof -
  have d: "distinct (asked (u_taken two_end))" by (simp add: two_facts)
  obtain owner where "\<forall>i r. up_route_of i two_end = Some r \<longrightarrow> owner i = Some (ur_events r, ur_request r)"
    using responses_relayed_in_order [OF two_from_start d] by blast
  moreover have "\<exists>r. up_route_of 1 two_end = Some r \<and> ur_events r = 7 \<and> ur_request r = 1"
    by (simp add: up_route_of_def two_facts)
  ultimately have "owner 1 = Some (7, 1)" by auto
  then show ?thesis by (auto simp: two_facts payloads_def)
qed

end
