(* ===== verification/Upstream_Drain.thy ===== *)
theory Upstream_Drain
  imports Upstream_Refine
begin

section \<open>Draining the queue\<close>

text \<open>
  \<^verbatim>\<open>drain_pending\<close> starts requests, starting one may close its stream, and closing a stream drains the
  queue. \<^verbatim>\<open>drain_loop\<close> bounds the depth of that by the length of the queue; here the bound is shown to
  be enough: \<^verbatim>\<open>drain_pending\<close> satisfies the equation of the loop it stands for, with itself inside.
\<close>

lemma queue_frame_pending [simp]: "u_pending (snd (up_queue_frame fr u)) = u_pending u"
  by (cases rule: up_queue_cases [of fr u]) simp_all

lemma rst_pending [simp]: "u_pending (snd (up_write_rst_stream i code u)) = u_pending u"
  by (simp add: up_write_rst_stream_def)

lemma release_conn_pending [simp]: "u_pending (snd (up_release_conn n u)) = u_pending u"
  by (simp add: up_release_conn_def Let_def split: prod.split option.split)

lemma follow_head_pending [simp]: "u_pending (follow_head p u) = u_pending u"
  by (simp add: follow_head_def up_enqueue_ready_def up_put_def split: option.split)

text \<open>Where a handler over the drain calls it: at a state with the queue it was given, if at all.\<close>

definition shape :: "(unit up_handler \<Rightarrow> (upstream, connection_error, unit) outcome) \<Rightarrow> (upstream \<Rightarrow> upstream) \<Rightarrow> pending_request list \<Rightarrow> bool" where
  "shape F g ps \<longleftrightarrow> (\<exists>r u2. u_pending u2 = ps \<and> (\<forall>D. F D = (r, u2)))
     \<or> (\<exists>u2. u_pending u2 = ps \<and> (\<forall>D. F D = (Inr (), g (snd (D u2)))))"

lemma shape_done: "u_pending u2 = ps \<Longrightarrow> (\<And>D. F D = (r, u2)) \<Longrightarrow> shape F g ps"
  by (auto simp: shape_def)

lemma shape_drains: "u_pending u2 = ps \<Longrightarrow> (\<And>D. F D = (Inr (), g (snd (D u2)))) \<Longrightarrow> shape F g ps"
  unfolding shape_def by blast

lemma forget_shape: obtains u2 where "u_pending u2 = u_pending u" "\<And>D. forget_with D i u = snd (D u2)"
proof -
  let ?u1 = "u\<lparr>u_streams := snd (take_reclaimed (retire i (u_streams u))), u_ready := filter (\<lambda>j. j \<noteq> i) (u_ready u)\<rparr>"
  let ?u2 = "case up_route_of i ?u1 of None \<Rightarrow> ?u1
     | Some r \<Rightarrow> let u' = on_stats close_stream (?u1\<lparr>u_routes := AList.delete i (u_routes ?u1),
                  u_requests := AList.delete (ur_request r) (u_requests ?u1)\<rparr>)
        in if ur_pending r > 0 then snd (up_release_conn (ur_pending r) (on_stats (unbuffer (ur_pending r)) u')) else u'"
  show ?thesis
  proof (rule that [of ?u2])
    show "u_pending ?u2 = u_pending u" by (simp add: Let_def split: option.split)
    show "forget_with D i u = snd (D ?u2)" for D by (simp only: forget_with_def Let_def)
  qed
qed

lemma fail_stream_shape: "shape (\<lambda>D. fail_stream_with D i st u) (\<lambda>v. v) (u_pending u)"
proof -
  let ?u1 = "case up_route_of i u of None \<Rightarrow> u
     | Some r \<Rightarrow> tell (ur_events r, ur_request r) (failure_event st r) u"
  let ?v = "snd (if up_get i ?u1 \<noteq> None then up_write_rst_stream i Cancel ?u1 else (Inr (), ?u1))"
  obtain u2 where u2: "u_pending u2 = u_pending ?v" "\<And>D. forget_with D i ?v = snd (D u2)"
    using forget_shape by blast
  have p: "u_pending u2 = u_pending u" using u2(1) by (simp split: option.split)
  have "fail_stream_with D i st u = (Inr (), snd (D u2))" for D
    unfolding fail_stream_with_def Let_def u2(2) [symmetric]
    by (simp add: and_then_def prod_eq_iff split: prod.split)
  then show ?thesis by (rule shape_drains [OF p])
qed

lemma apply_shape: "shape (\<lambda>D. up_apply_with D i e u) (\<lambda>v. v) (u_pending u)"
proof (cases "apply_event i e (u_streams u)")
  case (Pair r t)
  show ?thesis
  proof (cases r)
    case (Inr st)
    then show ?thesis by (intro shape_done) (simp_all add: up_apply_with_def Pair Let_def)
  next
    case (Inl err)
    show ?thesis
    proof (cases "serr_code err = ProtocolError")
      case True
      then show ?thesis by (intro shape_done) (simp_all add: up_apply_with_def Pair Inl Let_def)
    next
      case False
      then show ?thesis using fail_stream_shape [of i 502 "u\<lparr>u_streams := t\<rparr>"] by (simp add: up_apply_with_def Pair Inl Let_def)
    qed
  qed
qed

lemma start_shape: "shape (\<lambda>D. start_request_with D i p u) (on_summary count_sent_request) (u_pending u)"
proof -
  obtain block u1 where b: "up_encode_block (request_to_headers (pn_head p)) u = (block, u1)"
    by (cases "up_encode_block (request_to_headers (pn_head p)) u")
  obtain r2 u2 where q: "up_queue_frame (Headers i block (pn_end_stream p) True) u1 = (r2, u2)"
    by (cases "up_queue_frame (Headers i block (pn_end_stream p) True) u1")
  have p2: "u_pending u2 = u_pending u"
    using up_encode_core(5) [OF b] queue_frame_pending [of "Headers i block (pn_end_stream p) True" u1] q by simp
  show ?thesis
  proof (cases r2)
    case (Inl e)
    then show ?thesis using p2 by (intro shape_done) (simp_all add: start_request_with_def b q)
  next
    case (Inr x)
    let ?F = "\<lambda>D. up_apply_with D i (SendHeaders (pn_end_stream p)) u2"
    have e: "start_request_with D i p u = and_then (?F D) (\<lambda>_ u3. (Inr (), on_summary count_sent_request u3))" for D
      by (simp add: start_request_with_def b q Inr)
    from apply_shape [of i "SendHeaders (pn_end_stream p)" u2] consider
        (stops) r u3 where "u_pending u3 = u_pending u2" "\<And>D. ?F D = (r, u3)"
      | (drains) u3 where "u_pending u3 = u_pending u2" "\<And>D. ?F D = (Inr (), snd (D u3))"
      unfolding shape_def by blast
    then show ?thesis
    proof cases
      case stops
      show ?thesis
      proof (cases r)
        case (Inl err)
        then show ?thesis using stops(1) p2 by (intro shape_done) (simp_all add: e stops(2))
      next
        case (Inr y)
        then show ?thesis using stops(1) p2 by (intro shape_done [of "on_summary count_sent_request u3"]) (simp_all add: e stops(2))
      qed
    next
      case drains
      then show ?thesis using p2 by (intro shape_drains [of u3]) (simp_all add: e)
    qed
  qed
qed

lemma send_shape:
  assumes "can_open_local (u_streams u)"
  shows "shape (\<lambda>D. send_request_with D p u) (on_summary count_sent_request) (u_pending u)"
proof (cases "pn_request p \<in> set (u_cancelled u) \<or> u_peer_draining u \<noteq> None")
  case True
  show ?thesis
  proof (cases "pn_request p \<in> set (u_cancelled u)")
    case c: True
    show ?thesis
      by (rule shape_done [of "u\<lparr>u_cancelled := removeAll (pn_request p) (u_cancelled u)\<rparr>" _ _ "Inr ()"])
        (simp_all add: send_request_with_def c)
  next
    case False
    then show ?thesis using True
      by (intro shape_done [of "tell (pn_events p, pn_request p) (EvReset (pn_client_id p) RefusedStream) u" _ _ "Inr ()"])
        (simp_all add: send_request_with_def)
  qed
next
  case False
  let ?i = "stream_id_new (u_next_stream_id u)"
  obtain r t where o: "open_local ?i (u_streams u) = (r, t)" by (cases "open_local ?i (u_streams u)")
  show ?thesis
  proof (cases r)
    case (Inl e)
    then show ?thesis using False assms o by (intro shape_done) (simp_all add: send_request_with_def Let_def)
  next
    case (Inr s)
    let ?v = "on_stats open_stream ((u\<lparr>u_next_stream_id := sat_add_word (u_next_stream_id u) 2\<rparr>)
        \<lparr>u_streams := t, u_routes := AList.update ?i (route_new p) (u_routes u),
         u_requests := AList.update (pn_request p) ?i (u_requests u)\<rparr>)"
    have "(\<lambda>D. send_request_with D p u) = (\<lambda>D. start_request_with D ?i p ?v)"
      using False assms o Inr by (simp add: send_request_with_def Let_def)
    then show ?thesis using start_shape [of ?i p ?v] by simp
  qed
qed

text \<open>The queue only gets shorter, and any bound beyond its length is as good as another.\<close>

lemma drain_loop_shrinks: "length (u_pending (snd (drain_loop n u))) \<le> length (u_pending u)"
proof (induction n arbitrary: u)
  case (Suc n)
  show ?case
  proof (cases "can_open_local (u_streams u) \<and> u_pending u \<noteq> []")
    case False
    then show ?thesis by (cases "u_pending u") auto
  next
    case True
    then obtain p ps where q: "u_pending u = p # ps" by (cases "u_pending u") auto
    let ?u = "sync_queued (u\<lparr>u_pending := ps\<rparr>)" and ?p = "p\<lparr>pn_body := [], pn_trailers := None\<rparr>"
    have "length (u_pending (snd (send_request_with (drain_loop n) ?p ?u))) \<le> length ps"
      using send_shape [of ?u ?p] True Suc.IH unfolding shape_def by auto
    then have "length (u_pending (snd (and_then (send_request_with (drain_loop n) ?p ?u) (\<lambda>_ u1. drain_loop n (follow_head p u1))))) \<le> length ps"
      using Suc.IH by (cases "send_request_with (drain_loop n) ?p ?u"; cases "fst (send_request_with (drain_loop n) ?p ?u)")
        (auto intro: le_trans [OF Suc.IH])
    then show ?thesis using True q by simp
  qed
qed simp

lemma drain_loop_enough:
  "length (u_pending u) < n \<Longrightarrow> length (u_pending u) < m \<Longrightarrow> drain_loop n u = drain_loop m u"
proof (induction n arbitrary: m u)
  case (Suc n)
  obtain m' where m: "m = Suc m'" using Suc.prems by (cases m) auto
  show ?case
  proof (cases "can_open_local (u_streams u) \<and> u_pending u \<noteq> []")
    case False
    then show ?thesis by (cases "u_pending u") (auto simp: m)
  next
    case True
    then obtain p ps where q: "u_pending u = p # ps" by (cases "u_pending u") auto
    let ?u = "sync_queued (u\<lparr>u_pending := ps\<rparr>)" and ?p = "p\<lparr>pn_body := [], pn_trailers := None\<rparr>"
    have le: "length ps < n" "length ps < m'" using Suc.prems m q by simp_all
    have same: "drain_loop n v = drain_loop m' v" if "length (u_pending v) \<le> length ps" for v
      by (rule Suc.IH) (use that le in simp_all)
    from send_shape [of ?u ?p] True consider
        (stops) r u2 where "u_pending u2 = ps" "\<And>D. send_request_with D ?p ?u = (r, u2)"
      | (drains) u2 where "u_pending u2 = ps" "\<And>D. send_request_with D ?p ?u = (Inr (), on_summary count_sent_request (snd (D u2)))"
      unfolding shape_def by auto
    then have "and_then (send_request_with (drain_loop n) ?p ?u) (\<lambda>_ u1. drain_loop n (follow_head p u1))
       = and_then (send_request_with (drain_loop m') ?p ?u) (\<lambda>_ u1. drain_loop m' (follow_head p u1))"
    proof cases
      case stops
      then show ?thesis using same by (cases r) simp_all
    next
      case drains
      have "drain_loop n u2 = drain_loop m' u2" using same drains(1) by simp
      moreover have "length (u_pending (snd (drain_loop m' u2))) \<le> length ps"
        using drain_loop_shrinks [of m' u2] drains(1) by simp
      ultimately show ?thesis using same drains(2) by simp
    qed
    then show ?thesis using True q m by simp
  qed
qed simp

text \<open>C21. The mutual recursion of the code ends, and the bound given to it is enough: draining the queue is
  the loop \<^verbatim>\<open>drain_pending\<close> runs, in which starting a request may close its stream and so run the whole
  of \<^verbatim>\<open>drain_pending\<close> again, to any depth.\<close>

theorem drain_pending_is_its_loop:
  "drain_pending u =
     (if \<not> can_open_local (u_streams u) then (Inr (), u)
      else
        (case u_pending u of
           [] \<Rightarrow> (Inr (), sync_queued u)
         | p # ps \<Rightarrow>
             and_then (send_request (p\<lparr>pn_body := [], pn_trailers := None\<rparr>) (sync_queued (u\<lparr>u_pending := ps\<rparr>)))
               (\<lambda>_ u1. drain_pending (follow_head p u1))))"
proof (cases "can_open_local (u_streams u) \<and> u_pending u \<noteq> []")
  case False
  then show ?thesis by (cases "u_pending u") (auto simp: drain_pending_def)
next
  case True
  then obtain p ps where q: "u_pending u = p # ps" by (cases "u_pending u") auto
  let ?u = "sync_queued (u\<lparr>u_pending := ps\<rparr>)" and ?p = "p\<lparr>pn_body := [], pn_trailers := None\<rparr>"
  have same: "drain_loop (Suc (length ps)) v = drain_pending v" if "length (u_pending v) \<le> length ps" for v
    unfolding drain_pending_def by (rule drain_loop_enough) (use that in simp_all)
  from send_shape [of ?u ?p] True consider
      (stops) r u2 where "u_pending u2 = ps" "\<And>D. send_request_with D ?p ?u = (r, u2)"
    | (drains) u2 where "u_pending u2 = ps" "\<And>D. send_request_with D ?p ?u = (Inr (), on_summary count_sent_request (snd (D u2)))"
    unfolding shape_def by auto
  then have "and_then (send_request_with (drain_loop (Suc (length ps))) ?p ?u) (\<lambda>_ u1. drain_loop (Suc (length ps)) (follow_head p u1))
     = and_then (send_request ?p ?u) (\<lambda>_ u1. drain_pending (follow_head p u1))"
  proof cases
    case stops
    then show ?thesis using same by (cases r) (simp_all add: send_request_def)
  next
    case drains
    have "drain_loop (Suc (length ps)) u2 = drain_pending u2" using same drains(1) by simp
    moreover have "length (u_pending (snd (drain_pending u2))) \<le> length ps"
      using drain_loop_shrinks [of _ u2] drains(1) by (simp add: drain_pending_def del: drain_loop.simps)
    ultimately show ?thesis using same drains(2) by (simp add: send_request_def del: drain_loop.simps)
  qed
  then show ?thesis using True q by (simp add: drain_pending_def)
qed

end
