(* ===== verification/Daemon_Config.thy ===== *)
theory Daemon_Config
  imports Upstream_Run Conn_Inv Proxy "HOL-Library.Char_ord"
begin

section \<open>The daemon's configuration\<close>

text \<open>
  The pure part of \<^verbatim>\<open>h2proxyd/src/main.rs\<close>: what the environment variables make of the limits and
  sizes the engine runs with, and the check of the negotiated protocol. An environment maps names to
  values. Reading a decimal fraction, \<^verbatim>\<open>f64::from_str\<close>, is the parameter \<open>parse_f64\<close>; its type leaves
  out NaN and negative infinity. \<^verbatim>\<open>str::trim\<close> is modelled on ASCII whitespace. A panic is \<open>None\<close>.
\<close>

type_synonym environment = "string \<Rightarrow> string option"

subsection \<open>Reading numbers\<close>

text \<open>The standard library's \<^verbatim>\<open>from_str\<close> for integers: an optional sign, digits, and no overflow.\<close>

definition parse_digits :: "string \<Rightarrow> nat option" where
  "parse_digits s =
     (if s \<noteq> [] \<and> list_all (\<lambda>c. CHR ''0'' \<le> c \<and> c \<le> CHR ''9'') s
      then Some (foldl (\<lambda>n c. 10 * n + (of_char c - 48)) 0 s) else None)"

definition strip_plus :: "string \<Rightarrow> string" where
  "strip_plus s = (case s of c # cs \<Rightarrow> if c = CHR ''+'' then cs else s | [] \<Rightarrow> [])"

definition at_most :: "nat \<Rightarrow> nat option \<Rightarrow> nat option" where
  "at_most m x = (case x of None \<Rightarrow> None | Some n \<Rightarrow> if n \<le> m then Some n else None)"

definition parse_unsigned :: "nat \<Rightarrow> string \<Rightarrow> nat option" where
  "parse_unsigned top_value s = at_most top_value (parse_digits (strip_plus s))"

definition parse_signed :: "nat \<Rightarrow> string \<Rightarrow> int option" where
  "parse_signed bits s =
     (if s \<noteq> [] \<and> hd s = CHR ''-'' then map_option (\<lambda>n. - int n) (at_most (2 ^ (bits - 1)) (parse_digits (tl s)))
      else map_option int (at_most (2 ^ (bits - 1) - 1) (parse_digits (strip_plus s))))"

definition parse_u32 :: "string \<Rightarrow> u32 option" where
  "parse_u32 s = map_option word_of_nat (parse_unsigned u32_max s)"

definition env_num :: "(string \<Rightarrow> 'a option) \<Rightarrow> environment \<Rightarrow> string \<Rightarrow> 'a \<Rightarrow> 'a" where
  "env_num parse env name fallback =
     (case env name of
        None \<Rightarrow> fallback
      | Some v \<Rightarrow> (case parse v of Some x \<Rightarrow> x | None \<Rightarrow> fallback))"

definition flag_set :: "environment \<Rightarrow> string \<Rightarrow> bool" where
  "flag_set env name = (case env name of None \<Rightarrow> False | Some v \<Rightarrow> v \<noteq> ''0'')"

subsection \<open>Durations\<close>

text \<open>
  \<^verbatim>\<open>Duration::from_secs_f64\<close> rounds to the nearest nanosecond and panics when the seconds do not fit
  64 bits; \<^verbatim>\<open>as_secs_f64\<close> rounds as in \<^verbatim>\<open>F64\<close>.
\<close>

definition round_half_even :: "rat \<Rightarrow> nat" where
  "round_half_even x =
     (let n = nat \<lfloor>x\<rfloor>; rest = x - of_int \<lfloor>x\<rfloor>
      in if rest < 1 / 2 \<or> rest = 1 / 2 \<and> even n then n else n + 1)"

definition from_secs_f64 :: "f64 \<Rightarrow> duration option" where
  "from_secs_f64 v =
     (case v of
        Infinite \<Rightarrow> None
      | Finite x \<Rightarrow>
          let ns = round_half_even (x * 1000000000)
          in if x \<ge> 0 \<and> ns < 18446744073709551616 * 1000000000 then Some ns else None)"

definition as_secs_f64 :: "duration \<Rightarrow> f64" where
  "as_secs_f64 d = Finite (as_secs d)"

definition usable_seconds :: "f64 \<Rightarrow> bool" where
  "usable_seconds v = (case v of Infinite \<Rightarrow> False | Finite x \<Rightarrow> x \<ge> 0)"

definition env_secs :: "(string \<Rightarrow> f64 option) \<Rightarrow> environment \<Rightarrow> string \<Rightarrow> duration \<Rightarrow> duration option" where
  "env_secs parse_f64 env name fallback =
     (let seconds = env_num parse_f64 env name (as_secs_f64 fallback)
      in if usable_seconds seconds then from_secs_f64 seconds else Some fallback)"

definition drain_seconds :: "(string \<Rightarrow> f64 option) \<Rightarrow> environment \<Rightarrow> string \<Rightarrow> duration \<Rightarrow> duration option" where
  "drain_seconds parse_f64 env name fallback =
     (case Option.bind (env name) parse_f64 of
        None \<Rightarrow> Some fallback
      | Some v \<Rightarrow> if usable_seconds v then from_secs_f64 v else Some fallback)"

subsection \<open>Limits, policies and sizes\<close>

definition configured_drain :: "(string \<Rightarrow> f64 option) \<Rightarrow> environment \<Rightarrow> drain_policy option" where
  "configured_drain parse_f64 env =
     Option.bind (drain_seconds parse_f64 env ''H2PROXYD_DRAIN_GRACE'' (dp_grace drain_policy_default)) (\<lambda>g.
     Option.bind (drain_seconds parse_f64 env ''H2PROXYD_DRAIN_DEADLINE'' (dp_deadline drain_policy_default)) (\<lambda>d.
       Some \<lparr>dp_grace = g, dp_deadline = d\<rparr>))"

definition guard_limits :: "(string \<Rightarrow> f64 option) \<Rightarrow> environment \<Rightarrow> limits" where
  "guard_limits parse_f64 env =
     (let d = limits_default in
      \<lparr>reset_burst = env_num parse_f64 env ''H2PROXYD_RESET_BURST'' (reset_burst d),
       reset_rate = env_num parse_f64 env ''H2PROXYD_RESET_RATE'' (reset_rate d),
       unanswered_burst = env_num parse_f64 env ''H2PROXYD_UNANSWERED_BURST'' (unanswered_burst d),
       unanswered_rate = env_num parse_f64 env ''H2PROXYD_UNANSWERED_RATE'' (unanswered_rate d),
       control_burst = env_num parse_f64 env ''H2PROXYD_CONTROL_BURST'' (control_burst d),
       control_rate = env_num parse_f64 env ''H2PROXYD_CONTROL_RATE'' (control_rate d),
       max_consecutive_empty = env_num (parse_unsigned u32_max) env ''H2PROXYD_MAX_EMPTY_FRAMES'' (max_consecutive_empty d),
       max_continuations = env_num (parse_unsigned u32_max) env ''H2PROXYD_MAX_CONTINUATIONS'' (max_continuations d),
       observe_only = flag_set env ''H2PROXYD_GUARD_OBSERVE_ONLY''\<rparr>)"

definition ascii_space :: "char \<Rightarrow> bool" where
  "ascii_space c \<longleftrightarrow> c = CHR '' '' \<or> (CHR 0x09 \<le> c \<and> c \<le> CHR 0x0D)"

definition ascii_trim :: "string \<Rightarrow> string" where
  "ascii_trim s = rev (dropWhile ascii_space (rev (dropWhile ascii_space s)))"

definition ascii_lower :: "char \<Rightarrow> char" where
  "ascii_lower c = (if CHR ''A'' \<le> c \<and> c \<le> CHR ''Z'' then char_of (of_char c + (32 :: nat)) else c)"

definition configured_growth :: "environment \<Rightarrow> pool_growth \<Rightarrow> pool_growth" where
  "configured_growth env fallback =
     (case env ''H2PROXYD_POOL_GROWTH'' of
        None \<Rightarrow> fallback
      | Some raw \<Rightarrow>
          let v = List.map ascii_lower (ascii_trim raw) in
          if v = ''queue'' then GrowQueue else if v = ''eager'' then GrowEager else fallback)"

definition clamp_int :: "int \<Rightarrow> int \<Rightarrow> int \<Rightarrow> int" where
  "clamp_int lo hi x = max lo (min hi x)"

definition configured_tuning :: "environment \<Rightarrow> tuning" where
  "configured_tuning env =
     (let d = tuning_default in
      \<lparr>tu_connection_window =
         clamp_int default_initial_window_size i32_max
           (env_num (parse_signed 32) env ''H2PROXYD_CONN_WINDOW'' (tu_connection_window d)),
       tu_stream_window =
         clamp_int 1 i32_max (env_num (parse_signed 32) env ''H2PROXYD_STREAM_WINDOW'' (tu_stream_window d)),
       tu_max_concurrent_streams =
         max (env_num parse_u32 env ''H2PROXYD_MAX_CONCURRENT_STREAMS'' (tu_max_concurrent_streams d)) 1,
       tu_max_pending =
         nat (max (env_num (parse_signed 64) env ''H2PROXYD_MAX_PENDING'' (int (tu_max_pending d))) 0),
       tu_growth = configured_growth env (tu_growth d)\<rparr>)"

definition configured_health :: "(string \<Rightarrow> f64 option) \<Rightarrow> environment \<Rightarrow> policy option" where
  "configured_health parse_f64 env =
     (let d = policy_default in
      Option.bind (env_secs parse_f64 env ''H2PROXYD_EJECT_BACKOFF'' (base_backoff d)) (\<lambda>bb.
      Option.bind (env_secs parse_f64 env ''H2PROXYD_EJECT_MAX_BACKOFF'' (max_backoff d)) (\<lambda>mb.
      Option.bind (env_secs parse_f64 env ''H2PROXYD_PING_IDLE'' (ping_idle d)) (\<lambda>pi.
      Option.bind (env_secs parse_f64 env ''H2PROXYD_PING_TIMEOUT'' (ping_timeout d)) (\<lambda>pt.
      Option.bind (env_secs parse_f64 env ''H2PROXYD_UPSTREAM_IDLE'' (idle_timeout d)) (\<lambda>it.
        Some \<lparr>eject_after = env_num parse_u32 env ''H2PROXYD_EJECT_AFTER'' (eject_after d),
              base_backoff = bb, max_backoff = mb, ping_idle = pi, ping_timeout = pt, idle_timeout = it\<rparr>))))))"

definition usize_max :: nat where "usize_max = 18446744073709551615"

definition max_conns_per_backend :: "environment \<Rightarrow> nat" where
  "max_conns_per_backend env = env_num (parse_unsigned usize_max) env ''H2PROXYD_MAX_UPSTREAM_CONNS'' 8"

definition default_body_size :: "environment \<Rightarrow> nat" where
  "default_body_size env = env_num (parse_unsigned usize_max) env ''H2PROXYD_BODY_SIZE'' 1024"

definition trust_forwarded :: "environment \<Rightarrow> bool" where
  "trust_forwarded env = flag_set env ''H2PROXYD_TRUST_FORWARDED''"

text \<open>The backends: a comma-separated list. Reading a socket address is the parameter \<open>parse_addr\<close>; the
  first entry it refuses is the error.\<close>

fun split_on :: "char \<Rightarrow> string \<Rightarrow> string list" where
  "split_on c [] = [[]]"
| "split_on c (x # xs) =
     (if x = c then [] # split_on c xs
      else (case split_on c xs of [] \<Rightarrow> [[x]] | w # ws \<Rightarrow> (x # w) # ws))"

fun collect_results :: "('e + 'a) list \<Rightarrow> 'e + 'a list" where
  "collect_results [] = Inr []"
| "collect_results (Inl e # rs) = Inl e"
| "collect_results (Inr x # rs) = map_sum id (\<lambda>xs. x # xs) (collect_results rs)"

definition upstreams :: "(string \<Rightarrow> backend option) \<Rightarrow> environment \<Rightarrow> string + backend list" where
  "upstreams parse_addr env =
     (let raw = (case env ''H2PROXYD_UPSTREAMS'' of None \<Rightarrow> [] | Some v \<Rightarrow> v)
      in collect_results
           (List.map (\<lambda>entry. case parse_addr entry of None \<Rightarrow> Inl entry | Some b \<Rightarrow> Inr b)
             (filter (\<lambda>entry. entry \<noteq> []) (List.map ascii_trim (split_on CHR '','' raw)))))"

text \<open>With backends the daemon is a proxy, without them it answers from the built-in responder.\<close>

definition daemon_proxy :: "(string \<Rightarrow> f64 option) \<Rightarrow> environment \<Rightarrow> backend list \<Rightarrow> shared option option" where
  "daemon_proxy parse_f64 env bs =
     (if bs = [] then Some None
      else map_option
             (\<lambda>policy. Some (shared_with_tuning bs (max_conns_per_backend env) policy (configured_tuning env)))
             (configured_health parse_f64 env))"

text \<open>What every connection is given, and the connection built from it.\<close>

record conn_config =
  cg_drain :: drain_policy
  cg_limits :: limits
  cg_tuning :: tuning

definition configured :: "(string \<Rightarrow> f64 option) \<Rightarrow> environment \<Rightarrow> conn_config option" where
  "configured parse_f64 env =
     map_option (\<lambda>d. \<lparr>cg_drain = d, cg_limits = guard_limits parse_f64 env, cg_tuning = configured_tuning env\<rparr>)
       (configured_drain parse_f64 env)"

definition daemon_conn :: "instant \<Rightarrow> conn_config \<Rightarrow> u32 option \<Rightarrow> 'v \<Rightarrow> 'v conn" where
  "daemon_conn now cfg budget v =
     conn_start now (server_settings (cg_tuning cfg)) (cg_drain cfg) (cg_limits cfg)
       (tu_connection_window (cg_tuning cfg)) budget v"

text \<open>Only a peer that negotiated \<^verbatim>\<open>h2\<close> is handed to the engine.\<close>

definition speaks_h2 :: "octets option \<Rightarrow> bool" where
  "speaks_h2 alpn = (alpn = Some [104, 50])"

subsection \<open>What no environment can spoil, and what one can\<close>

lemma clamp_int_range: "lo \<le> hi \<Longrightarrow> lo \<le> clamp_int lo hi x \<and> clamp_int lo hi x \<le> hi"
  by (simp add: clamp_int_def)

lemma configured_ranges:
  "65535 \<le> tu_connection_window (configured_tuning env)" "tu_connection_window (configured_tuning env) \<le> i32_max"
  "1 \<le> tu_stream_window (configured_tuning env)" "tu_stream_window (configured_tuning env) \<le> i32_max"
  "1 \<le> tu_max_concurrent_streams (configured_tuning env)"
  using clamp_int_range [of 65535 i32_max] clamp_int_range [of 1 i32_max]
  by (simp_all add: configured_tuning_def Let_def default_initial_window_size_def)

lemma stream_window_word: "1 \<le> w \<Longrightarrow> w \<le> i32_max \<Longrightarrow> unat (word_of_int w :: u32) = nat w"
  by (simp add: unat_eq_nat_uint uint_word_of_int)

lemma tuned_settings_legal:
  assumes "1 \<le> tu_stream_window t" "tu_stream_window t \<le> i32_max"
  shows "settings_legal (server_settings t)" "settings_legal (client_settings t)"
proof -
  have "unat (word_of_int (tu_stream_window t) :: u32) < 2147483648"
    using stream_window_word [OF assms] assms by simp
  then show "settings_legal (server_settings t)" "settings_legal (client_settings t)"
    by (simp_all add: settings_legal_def server_settings_def client_settings_def settings_server_def settings_client_def
        settings_default_def word_le_nat_alt)
qed

lemma legal_settings_taken: "settings_legal s \<Longrightarrow> settings_apply (settings_params s) settings_default = (Inr (), s)"
  using all_accepted [OF settings_params_accepted] settings_params_stored by (simp add: settings_apply_spec)

text \<open>C29. No environment makes sizes the engine cannot run on. Whatever the variables hold, numbers out of
  range, of either sign, or no numbers at all, the connection window lies between the protocol's default
  and its maximum, a stream may be opened, the SETTINGS of both legs are legal and a peer that starts from
  the defaults ends with exactly them, and the handshake's increment is what is missing to the window.\<close>

theorem configured_sizes_usable:
  "65535 \<le> tu_connection_window (configured_tuning env) \<and> tu_connection_window (configured_tuning env) \<le> max_window_size
   \<and> 1 \<le> tu_max_concurrent_streams (configured_tuning env)
   \<and> settings_apply (settings_params (server_settings (configured_tuning env))) settings_default
       = (Inr (), server_settings (configured_tuning env))
   \<and> settings_apply (settings_params (client_settings (configured_tuning env))) settings_default
       = (Inr (), client_settings (configured_tuning env))
   \<and> int (connection_window_bootstrap (tu_connection_window (configured_tuning env)))
       = tu_connection_window (configured_tuning env) - 65535"
  using configured_ranges [of env] tuned_settings_legal [of "configured_tuning env"]
  by (auto simp: legal_settings_taken max_window_size_def connection_window_bootstrap_def
      default_initial_window_size_def as_i32_id in_i32_def)

lemma settings_frame_fits: "is_ok (fst (frame_write (settings_to_frame s) out))"
  by (simp add: settings_to_frame_def settings_params_def write_header_def put_slice_def max_allowed_frame_size_def split: option.split)

lemma queue_frame_small:
  assumes "\<And>out. is_ok (fst (frame_write f out))"
  shows "\<exists>bs. queue_frame f c = (Inr (), c\<lparr>c_out := c_out c @ bs, c_frames := c_frames c @ [f]\<rparr>)"
proof -
  obtain u bs where "frame_write f [] = (Inr u, bs)"
    using assms [of "[]"] by (cases "frame_write f []"; cases "fst (frame_write f [])") auto
  then show ?thesis by (auto simp: queue_frame_def encode_def)
qed

lemma up_queue_frame_small:
  assumes "\<And>out. is_ok (fst (frame_write f out))"
  shows "\<exists>bs. up_queue_frame f u = (Inr (), u\<lparr>u_out := u_out u @ bs, u_frames := u_frames u @ [f]\<rparr>)"
  using up_queue_small [OF assms] by metis

text \<open>What the handshake of either leg writes.\<close>

abbreviation announced_window :: "int \<Rightarrow> frame" where
  "announced_window w \<equiv> WindowUpdate stream_id_connection (word_of_nat (connection_window_bootstrap w))"

lemma handshake_frames:
  "fst (handshake c) = Inr ()"
  "c_frames (snd (handshake c))
      = c_frames c @ [settings_to_frame (c_local_settings c), announced_window (c_conn_window c)]"
proof -
  obtain b1 c1 where 1: "queue_frame (settings_to_frame (c_local_settings c)) c = (Inr (), c1)"
    "c1 = c\<lparr>c_out := c_out c @ b1, c_frames := c_frames c @ [settings_to_frame (c_local_settings c)]\<rparr>"
    using queue_frame_small [OF settings_frame_fits] by blast
  obtain b2 where 2: "queue_frame (announced_window (c_conn_window c1)) c1
      = (Inr (), c1\<lparr>c_out := c_out c1 @ b2, c_frames := c_frames c1 @ [announced_window (c_conn_window c1)]\<rparr>)"
    using queue_frame_small [OF small_frames(2)] by blast
  show "fst (handshake c) = Inr ()"
    "c_frames (snd (handshake c))
      = c_frames c @ [settings_to_frame (c_local_settings c), announced_window (c_conn_window c)]"
    unfolding handshake_def 1(1) by (simp_all add: 2) (simp_all add: 1(2))
qed

lemma up_handshake_frames:
  "u_frames (snd (up_handshake u))
   = u_frames u @ [settings_to_frame (u_local_settings u), announced_window (u_conn_window u)]"
proof -
  let ?u = "u\<lparr>u_out := u_out u @ preface\<rparr>"
  obtain b1 u1 where 1: "up_queue_frame (settings_to_frame (u_local_settings ?u)) ?u = (Inr (), u1)"
    "u1 = ?u\<lparr>u_out := u_out ?u @ b1, u_frames := u_frames ?u @ [settings_to_frame (u_local_settings ?u)]\<rparr>"
    using up_queue_frame_small [OF settings_frame_fits] by blast
  obtain b2 where 2: "up_queue_frame (announced_window (u_conn_window u1)) u1
      = (Inr (), u1\<lparr>u_out := u_out u1 @ b2, u_frames := u_frames u1 @ [announced_window (u_conn_window u1)]\<rparr>)"
    using up_queue_frame_small [OF small_frames(2)] by blast
  show ?thesis
    unfolding up_handshake_def Let_def 1(1) by (simp add: 2) (simp add: 1(2))
qed

lemma window_at_floor:
  assumes "env ''H2PROXYD_CONN_WINDOW'' = Some v" "parse_signed 32 v = Some n" "n \<le> 65535"
  shows "tu_connection_window (configured_tuning env) = 65535"
  using assms by (simp add: configured_tuning_def Let_def env_num_def clamp_int_def default_initial_window_size_def)

lemma start_windows:
  "c_conn_window (daemon_conn now cfg budget s) = tu_connection_window (cg_tuning cfg)"
  "u_conn_window (upstream_start now stats rcd t idle timeout) = tu_connection_window t"
  by (auto simp: daemon_conn_def conn_start_def conn_new_def with_drain_policy_def with_limits_def
      with_connection_window_def with_admission_def upstream_start_def with_probe_def upstream_new_def Let_def
      split: option.split)

lemma zero_increment_refused:
  "fst (recv_window_update S stream_id_connection 0 c) = Inl (ConnectionError ProtocolError)"
  "fst (up_recv_window_update stream_id_connection 0 u) = Inl (ConnectionError ProtocolError)"
  by (simp_all add: recv_window_update_def up_recv_window_update_def is_connection_def stream_id_connection_def)

text \<open>C30. The floor of the connection window is one no peer accepts. Configured at 65535 octets, or at
  anything less, which is raised to that, the handshake of either leg announces an increment of zero on
  stream 0: a frame our own engine, like every peer that follows RFC 9113, takes for a connection
  error of type \<^verbatim>\<open>PROTOCOL_ERROR\<close>.\<close>

theorem window_floor_is_refused:
  assumes "env ''H2PROXYD_CONN_WINDOW'' = Some v" "parse_signed 32 v = Some n" "n \<le> 65535"
    "configured parse_f64 env = Some cfg"
  shows "fst (handshake (daemon_conn now cfg budget s)) = Inr ()
    \<and> last (c_frames (snd (handshake (daemon_conn now cfg budget s)))) = WindowUpdate stream_id_connection 0
    \<and> last (u_frames (snd (up_handshake (upstream_start now stats rcd (cg_tuning cfg) idle timeout))))
        = WindowUpdate stream_id_connection 0
    \<and> fst (recv_window_update S stream_id_connection 0 c) = Inl (ConnectionError ProtocolError)
    \<and> fst (up_recv_window_update stream_id_connection 0 u) = Inl (ConnectionError ProtocolError)"
proof -
  have "tu_connection_window (cg_tuning cfg) = 65535"
    using window_at_floor [of env v n] assms by (auto simp: configured_def)
  then show ?thesis
    by (simp add: handshake_frames up_handshake_frames start_windows zero_increment_refused connection_window_bootstrap_def
        default_initial_window_size_def as_i32_def)
qed

definition floor_env :: environment where
  "floor_env = [''H2PROXYD_CONN_WINDOW'' \<mapsto> ''1024'', ''H2PROXYD_STREAM_WINDOW'' \<mapsto> ''16384'']"

lemma floor_env_configured: "\<exists>cfg. configured (\<lambda>_. None) floor_env = Some cfg"
  by (simp add: configured_def configured_drain_def drain_seconds_def)

lemma floor_env_reads: "parse_signed 32 ''1024'' = Some 1024"
  by (simp add: parse_signed_def strip_plus_def parse_digits_def at_most_def)

theorem window_floor_is_refused_witness:
  "last (c_frames (snd (handshake (daemon_conn 0 (the (configured (\<lambda>_. None) floor_env)) None ()))))
     = WindowUpdate stream_id_connection 0"
proof -
  obtain cfg where cfg: "configured (\<lambda>_. None) floor_env = Some cfg" using floor_env_configured by blast
  have "floor_env ''H2PROXYD_CONN_WINDOW'' = Some ''1024''" by (simp add: floor_env_def)
  note refused = window_floor_is_refused [OF this floor_env_reads _ cfg, THEN conjunct2, THEN conjunct1]
  have "last (c_frames (snd (handshake (daemon_conn 0 cfg None ())))) = WindowUpdate stream_id_connection 0"
    by (rule refused) simp
  then show ?thesis using cfg by simp
qed

text \<open>A grace period whose seconds do not fit 64 bits stops the daemon while it starts.\<close>

lemma huge_grace_panics:
  assumes "env ''H2PROXYD_DRAIN_GRACE'' = Some v" "parse_f64 v = Some (Finite x)" "18446744073709551616 \<le> x"
  shows "configured parse_f64 env = None"
proof -
  have "18446744073709551616 * 1000000000 \<le> \<lfloor>x * 1000000000\<rfloor>"
    using assms(3) by (simp add: le_floor_iff)
  then have "18446744073709551616 * 1000000000 \<le> round_half_even (x * 1000000000)"
    by (simp add: round_half_even_def Let_def le_nat_iff nat_le_iff)
  then have "from_secs_f64 (Finite x) = None" by (simp add: from_secs_f64_def Let_def)
  then show ?thesis using assms
    by (simp add: configured_def configured_drain_def drain_seconds_def usable_seconds_def)
qed

end
