(* ===== verification/Spec2Isabelle.thy ===== *)
theory Spec2Isabelle
  imports Frame_Props Stream_State Flow Stream_Table_Props Guard Health Hpack_Lockstep Service_Props Settings Conn_Props Proxy_Conn Probe Upstream_Props Upstream_Relay Upstream_Drain Daemon_Config
begin

text \<open>
  h2proxy is an HTTP/2 reverse proxy. Clients connect over TLS; each client connection is served by the
  protocol engine of \<^verbatim>\<open>src/core\<close>, which hands the requests to a responder behind the \<^verbatim>\<open>Service\<close> trait;
  the proxy's responder puts each request on one of a few shared connections to the backends. This library
  models the engine, both legs of it, and the proxy between them, and proves what makes them correct.

  \<^bold>\<open>Parts and how they interact.\<close> Octets from a client reach \<^verbatim>\<open>Connection\<close> (\<^verbatim>\<open>conn.rs\<close>), which decodes
  frames (\<^verbatim>\<open>frame.rs\<close>) and header blocks (\<^verbatim>\<open>hpack.rs\<close>, \<^verbatim>\<open>hpack/huffman.rs\<close>), keeps the streams and their
  windows (\<^verbatim>\<open>stream.rs\<close>, \<^verbatim>\<open>flow.rs\<close>), counts what a hostile client could send (\<^verbatim>\<open>guard.rs\<close>), validates requests
  and calls the responder (\<^verbatim>\<open>service.rs\<close>). \<^verbatim>\<open>Proxy\<close> (\<^verbatim>\<open>proxy.rs\<close>) picks a backend (\<^verbatim>\<open>lb.rs\<close>, \<^verbatim>\<open>health.rs\<close>), leases
  a slot of a connection to it (\<^verbatim>\<open>pool.rs\<close>) and sends the request there as messages; \<^verbatim>\<open>UpstreamConnection\<close>
  (\<^verbatim>\<open>upstream.rs\<close>) turns messages into frames and what the backend answers into events on the client's channel,
  which the proxy looks at (\<^verbatim>\<open>intercept\<close>: retries, routes, statistics) before \<^verbatim>\<open>Connection\<close> queues them.
  A control loop (\<^verbatim>\<open>Shared::recompute_admission\<close>) decides how many streams the clients may open. The daemon
  (\<^verbatim>\<open>h2proxyd/src/main.rs\<close>) reads the sizes and limits from the environment and starts all of it.

  \<^bold>\<open>Theories, in the order they build on each other.\<close>
  \<^item> \<^verbatim>\<open>Prelude\<close>, \<^verbatim>\<open>Protocol_Types\<close>: integer widths, octet conversions, saturating arithmetic, the result of a
    \<^verbatim>\<open>&mut self\<close> method (\<open>outcome\<close>, an error or a value, with the state after it either way), association lists;
    error codes, stream identifiers, header fields.
  \<^item> \<^verbatim>\<open>Frame_Codec\<close>, \<^verbatim>\<open>Frame_Props\<close> (\<^verbatim>\<open>frame.rs\<close>): header, typed frames, decoder over a reassembly buffer, encoder.
    Shown: round trip, of one frame and of conversations cut into any reads; what is accepted, exactly.
  \<^item> \<^verbatim>\<open>Huffman_Codes\<close>, \<^verbatim>\<open>Huffman\<close>, \<^verbatim>\<open>Huffman_Tree\<close>, \<^verbatim>\<open>Huffman_Props\<close> (\<^verbatim>\<open>hpack/huffman.rs\<close>): the code, the construction of
    the decoding table, the two coders. Shown: the table is the code's, so the decoder accepts exactly the code.
  \<^item> \<^verbatim>\<open>Hpack\<close>, \<^verbatim>\<open>Hpack_Coding\<close>, \<^verbatim>\<open>Hpack_Props\<close>, \<^verbatim>\<open>Hpack_Lockstep\<close> (\<^verbatim>\<open>hpack.rs\<close>, \<^verbatim>\<open>hpack/static_table.rs\<close>): integers,
    strings, tables, representations. Shown: bounds on hostile input, and that encoder and decoder stay in step
    over whole conversations with table resizes.
  \<^item> \<^verbatim>\<open>Flow\<close> (\<^verbatim>\<open>flow.rs\<close>), \<^verbatim>\<open>Stream_State\<close>, \<^verbatim>\<open>Stream_Table\<close>, \<^verbatim>\<open>Stream_Table_Props\<close> (\<^verbatim>\<open>stream.rs\<close>): windows and their
    ledgers, the state machine refined against two independent directions, the table of live streams, identifiers
    accepted once and in order.
  \<^item> \<^verbatim>\<open>F64\<close> (doubles: rounding to the nearest, ties to even), \<^verbatim>\<open>Guard\<close> (\<^verbatim>\<open>guard.rs\<close>), \<^verbatim>\<open>Settings\<close> (\<^verbatim>\<open>Settings\<close> and
    \<^verbatim>\<open>Tuning\<close> of \<^verbatim>\<open>conn.rs\<close>), \<^verbatim>\<open>Service_Msg\<close>, \<^verbatim>\<open>Service_Props\<close> (\<^verbatim>\<open>service.rs\<close>): token buckets, shown to keep their
    budget up to rounding, and run counters; the fold of a SETTINGS payload; requests, responses, trailers,
    events and the echo responder, the validator against a specification of the whole header list.
  \<^item> \<^verbatim>\<open>Conn_State\<close>, \<^verbatim>\<open>Conn_Handlers\<close>, \<^verbatim>\<open>Conn_Pump\<close>, \<^verbatim>\<open>Conn_Loop\<close> (\<^verbatim>\<open>Connection\<close> of \<^verbatim>\<open>conn.rs\<close>): the record of a client
    connection, one definition per method, the sender and its termination, responder events, drain, admission,
    and the two loops as the steps they take (\<open>conn_step\<close>, \<open>conn_run\<close>).
  \<^item> \<^verbatim>\<open>Conn_Core\<close>, \<^verbatim>\<open>Conn_Refine\<close>, \<^verbatim>\<open>Conn_Inv\<close>: the abstract specification of the connection's bookkeeping, a step
    relation on streams, windows, responder calls and owed resets; the refinement of every handler to it; the
    invariants, by induction over the steps. \<^verbatim>\<open>Conn_Aside\<close>, \<^verbatim>\<open>Conn_Promises\<close>: what no handler touches, and the
    GOAWAY, the announced limit and the open header block. \<^verbatim>\<open>Conn_Ring\<close>: the ready ring. \<^verbatim>\<open>Conn_Example\<close>: a
    conversation evaluated by the kernel. \<^verbatim>\<open>Conn_Responder\<close>: the \<^verbatim>\<open>Service\<close> trait as locales.
    \<^verbatim>\<open>Conn_Props\<close>: the properties of a client connection's runs.
  \<^item> \<^verbatim>\<open>Lb\<close>, \<^verbatim>\<open>Health\<close>, \<^verbatim>\<open>Proxy_Stats\<close>, \<^verbatim>\<open>Pool\<close>, \<^verbatim>\<open>Pool_Props\<close>, \<^verbatim>\<open>Admission\<close> (\<^verbatim>\<open>lb.rs\<close>, \<^verbatim>\<open>health.rs\<close>, \<^verbatim>\<open>pool.rs\<close>, and
    \<^verbatim>\<open>ProxyStats\<close> and \<^verbatim>\<open>Shared\<close> of \<^verbatim>\<open>proxy.rs\<close>): choosing backends, ejection and trial, the connections and their
    leases as one world with every client and connection task in it, the admission loop.
  \<^item> \<^verbatim>\<open>Proxy\<close>, \<^verbatim>\<open>Proxy_Books\<close>, \<^verbatim>\<open>Proxy_Props\<close>, \<^verbatim>\<open>Proxy_Conn\<close> (\<^verbatim>\<open>Proxy\<close> of \<^verbatim>\<open>proxy.rs\<close>): the responder, its accounts of
    leases, dispatch and retry, and its composition with a client connection.
  \<^item> \<^verbatim>\<open>Probe\<close>, \<^verbatim>\<open>Upstream_State\<close>, \<^verbatim>\<open>Upstream\<close>, \<^verbatim>\<open>Upstream_Pump\<close>, \<^verbatim>\<open>Upstream_Loop\<close> (\<^verbatim>\<open>upstream.rs\<close>): the keep-alive
    probe; the record of a connection to a backend, one definition per method, the sender, \<^verbatim>\<open>tick\<close>, \<^verbatim>\<open>drive\<close> and
    \<^verbatim>\<open>run\<close>. \<^verbatim>\<open>Upstream_Core\<close>, \<^verbatim>\<open>Upstream_Refine\<close>, \<^verbatim>\<open>Upstream_Frames\<close>, \<^verbatim>\<open>Upstream_Inv\<close>, \<^verbatim>\<open>Upstream_Run\<close>: its
    specification as core steps, the refinement, the invariants, and their transport to every run and its end.
    \<^verbatim>\<open>Upstream_Drain\<close>: the recursion of the request queue. \<^verbatim>\<open>Upstream_Props\<close>: the properties of its runs.
    \<^verbatim>\<open>Upstream_Relay\<close>: which stream a request's response comes from, and that its body is passed on intact.
  \<^item> \<^verbatim>\<open>Daemon_Config\<close> (\<^verbatim>\<open>h2proxyd/src/main.rs\<close>): what the environment makes of limits, policies, sizes and backends.

  \<^bold>\<open>How the code is rendered.\<close> A struct is a record and a method a function of it, in the order of the code's
  calls, every early return a branch. A method with a result returns the state on failure too, as the code leaves
  it. Words keep their width where the code wraps, truncates or saturates; counters that go up by one per event
  and lengths are natural numbers. A \<^verbatim>\<open>HashMap\<close> is an association list with distinct keys; the routes of a
  backend connection, whose walk at a GOAWAY and at the end is seen by the clients, are walked along a ranking
  (\<open>u_hash\<close>) that an input of the run changes at will, since the code does not choose the order. An \<^verbatim>\<open>mpsc\<close> channel is the list of what is in it. Shared
  atomics are fields, read and written in one step. \<^verbatim>\<open>f64\<close> is a rational number or
  infinity, and every operation of the guard rounds to the nearest double. Time is a number of
  nanoseconds, given to the operations that read the clock. The event loops (\<^verbatim>\<open>select!\<close>) are step functions:
  which arm runs, what a socket reads and how much it takes are inputs, so that what is proved of a run holds of
  every order and of every cut of the octets.

  \<^bold>\<open>History.\<close> A few fields are written and never read by the model: in \<open>conn\<close> the calls made to the responder,
  the frames written and those handled; in \<open>upstream\<close> \<open>u_frames\<close>, \<open>u_received\<close>, \<open>u_told\<close>, \<open>u_taken\<close> and \<open>u_mute\<close>.
  The properties of runs are stated over them.

  \<^bold>\<open>Interfaces.\<close> \<open>wire_format\<close> (a printer and its parser) is interpreted for the four HPACK integer prefixes and for
  string literals; \<open>prefix_code\<close> for the 257 Huffman words; \<open>id_registry\<close> for peer and local stream identifiers;
  \<open>responder\<close> for the proxy's accounts, and \<open>lease_holder\<close>, from which a \<open>responder\<close> follows by \<open>sublocale\<close>, for the
  slots the proxy holds.

  \<^bold>\<open>Bounds and fuel.\<close> Loops that end by themselves are defined with their measures: the decoders by the octets
  left, the client sender by the work queued (\<open>sender_loop_ends\<close>), the upstream sender by the room in the write
  queue and the length of the ring. \<open>drain_loop\<close>, the mutual recursion of five methods of \<^verbatim>\<open>upstream.rs\<close>, carries a
  depth, the length of the queue plus one; \<open>drain_pending_is_its_loop\<close> shows that this is always enough, by proving
  the equation of the code's own loop. The upstream task takes at most 1024 messages a turn (\<open>inbox_batch\<close>), as in
  the code. Runs are finite lists of inputs of any length.

  \<^bold>\<open>What the properties say.\<close> Requests: each one that reaches a backend connection, a client connection or the
  proxy is answered, or is accounted for; a GOAWAY of either side splits them as the protocol says; a retry
  happens only where it is safe. Credit: no DATA beyond what the other side granted, and no octet of receive credit
  lost or made up, on both legs, across resets and closed streams. Progress: the senders leave nothing behind that
  they may send, their loops end, admission comes back, a silent backend is found. Books: every slot of every
  upstream connection is a lease somebody holds. Content: what a client is given of a response is what
  the backend sent for it, in order. Codecs: nothing is lost on the wire, and hostile input is bounded.
  Configuration: no environment breaks the sizes, except one.

  \<^bold>\<open>Not modelled.\<close> The listener, TLS, sockets, signals, metrics and tracing of the daemon, and the task spawned
  for a new upstream connection (its connect and its reconnect): input and output around the library. Reading a
  decimal fraction and a socket address from text are parameters. The load generator, the sample backend, tests,
  benches and fuzz targets are not part of the proxy. The texts of errors and log lines are left out, as are
  \<^verbatim>\<open>NaN\<close> and negative infinity, which the guard's arithmetic does not produce. Where the code flushes a socket, the model
  has the octets in the write queue.
\<close>

end
